(* ===== verification/Prelude.thy ===== *)
theory Prelude
  imports Main "HOL-Library.Word" "HOL-Library.List_Lexorder" "HOL-Library.Char_ord"
begin

text \<open>
  Shared vocabulary of the development: the machine types the Rust sources use, byte-level
  encoders and decoders (\<open>to_le_bytes\<close>, \<open>to_be_bytes\<close>, \<open>from_le_bytes\<close>, \<open>from_be_bytes\<close>),
  the propagation of \<open>Result\<close> errors, the directory of files a database lives in, and the
  generic facts on lists and association lists that the component theories use.

  Byte strings are lists of 8-bit words. With \<open>List_Lexorder\<close> their order is the
  lexicographic order on unsigned bytes, which is the order Rust gives to \<open>[u8]\<close>.
\<close>

section \<open>Machine types\<close>

type_synonym byte = "8 word"
type_synonym bytes = "8 word list"
type_synonym u16 = "16 word"
type_synonym u32 = "32 word"
type_synonym u64 = "64 word"

text \<open>An \<open>i64\<close> is a 64-bit word read through \<open>sint\<close>; an \<open>usize\<close> is a natural number.\<close>

type_synonym i64 = "64 word"
type_synonym usize = nat

named_theorems codec_simps \<open>lengths and round trips of the byte encoders\<close>
named_theorems disk_simps \<open>reads after writes in a directory\<close>
named_theorems scan_simps \<open>merging and de-duplicating sorted runs\<close>

section \<open>Fixed-width integers as bytes\<close>

lemma unat_bound: "unat (w :: 'a::len word) < 2 ^ LENGTH('a)"
  by (rule unsigned_less)

fun nat_to_le :: "nat \<Rightarrow> nat \<Rightarrow> bytes" where
  "nat_to_le 0 x = []"
| "nat_to_le (Suc n) x = word_of_nat (x mod 256) # nat_to_le n (x div 256)"

fun le_to_nat :: "bytes \<Rightarrow> nat" where
  "le_to_nat [] = 0"
| "le_to_nat (b # bs) = unat b + 256 * le_to_nat bs"

lemma length_nat_to_le [simp, codec_simps]: "length (nat_to_le n x) = n"
  by (induction n arbitrary: x) auto

lemma unat_byte_of_mod [simp]: "unat (word_of_nat (x mod 256) :: byte) = x mod 256"
  by (simp add: unat_of_nat)

lemma le_to_nat_nat_to_le [simp, codec_simps]: "le_to_nat (nat_to_le n x) = x mod 256 ^ n"
proof (induction n arbitrary: x)
  case 0
  then show ?case by simp
next
  case (Suc n)
  have "x mod 256 + 256 * (x div 256 mod 256 ^ n) = x mod (256 * 256 ^ n)"
    by (simp add: mod_mult2_eq)
  with Suc show ?case by simp
qed

lemma le_to_nat_bound: "le_to_nat bs < 256 ^ length bs"
proof (induction bs)
  case Nil
  then show ?case by simp
next
  case (Cons b bs)
  have "unat b < 256" using unat_bound [of b] by simp
  with Cons show ?case by simp
qed

lemma nat_to_le_le_to_nat: "length bs = n \<Longrightarrow> nat_to_le n (le_to_nat bs) = bs"
proof (induction bs arbitrary: n)
  case Nil
  then show ?case by simp
next
  case (Cons b bs)
  have "unat b < 256" using unat_bound [of b] by simp
  then have "(unat b + 256 * le_to_nat bs) mod 256 = unat b"
    and "(unat b + 256 * le_to_nat bs) div 256 = le_to_nat bs" by auto
  with Cons show ?case by auto
qed

definition u16_le :: "u16 \<Rightarrow> bytes" where "u16_le w = nat_to_le 2 (unat w)"
definition u32_le :: "u32 \<Rightarrow> bytes" where "u32_le w = nat_to_le 4 (unat w)"
definition u64_le :: "u64 \<Rightarrow> bytes" where "u64_le w = nat_to_le 8 (unat w)"
definition u16_be :: "u16 \<Rightarrow> bytes" where "u16_be w = rev (nat_to_le 2 (unat w))"

definition u16_of_le :: "bytes \<Rightarrow> u16" where "u16_of_le bs = word_of_nat (le_to_nat bs)"
definition u32_of_le :: "bytes \<Rightarrow> u32" where "u32_of_le bs = word_of_nat (le_to_nat bs)"
definition u64_of_le :: "bytes \<Rightarrow> u64" where "u64_of_le bs = word_of_nat (le_to_nat bs)"
definition u16_of_be :: "bytes \<Rightarrow> u16" where "u16_of_be bs = word_of_nat (le_to_nat (rev bs))"

lemma length_encoders [simp, codec_simps]:
  "length (u16_le a) = 2" "length (u32_le b) = 4" "length (u64_le c) = 8" "length (u16_be a) = 2"
  by (simp_all add: u16_le_def u32_le_def u64_le_def u16_be_def)

lemma u16_of_le_u16_le [simp, codec_simps]: "u16_of_le (u16_le w) = w"
  using unat_bound [of w] by (simp add: u16_of_le_def u16_le_def)

lemma u32_of_le_u32_le [simp, codec_simps]: "u32_of_le (u32_le w) = w"
  using unat_bound [of w] by (simp add: u32_of_le_def u32_le_def)

lemma u64_of_le_u64_le [simp, codec_simps]: "u64_of_le (u64_le w) = w"
  using unat_bound [of w] by (simp add: u64_of_le_def u64_le_def)

lemma u16_of_be_u16_be [simp, codec_simps]: "u16_of_be (u16_be w) = w"
  using unat_bound [of w] by (simp add: u16_of_be_def u16_be_def)

lemma unat_u16_of_nat: "n < 65536 \<Longrightarrow> unat (word_of_nat n :: u16) = n"
  by (simp add: unat_of_nat)

lemma unat_u32_of_nat: "n < 4294967296 \<Longrightarrow> unat (word_of_nat n :: u32) = n"
  by (simp add: unat_of_nat)

lemma unat_u64_of_nat: "n < 2 ^ 64 \<Longrightarrow> unat (word_of_nat n :: u64) = n"
  by (simp add: unat_of_nat)

section \<open>Results\<close>

text \<open>
  \<open>Result<T, E>\<close> is the sum \<open>'e + 't\<close> with \<open>Inl\<close> for \<open>Err\<close>; \<open>and_then\<close> is the
  \<open>?\<close> operator, which returns the first error.
\<close>

fun and_then :: "'e + 'a \<Rightarrow> ('a \<Rightarrow> 'e + 'b) \<Rightarrow> 'e + 'b" where
  "and_then (Inl e) f = Inl e"
| "and_then (Inr v) f = f v"

lemma and_then_Inr_iff: "and_then r f = Inr y \<longleftrightarrow> (\<exists>v. r = Inr v \<and> f v = Inr y)"
  by (cases r) auto

lemma and_then_Inl_iff: "and_then r f = Inl e \<longleftrightarrow> r = Inl e \<or> (\<exists>v. r = Inr v \<and> f v = Inl e)"
  by (cases r) auto

section \<open>Byte strings\<close>

definition starts_with :: "'a list \<Rightarrow> 'a list \<Rightarrow> bool" where
  "starts_with k p \<longleftrightarrow> take (length p) k = p"

lemma starts_with_iff: "starts_with k p \<longleftrightarrow> (\<exists>r. k = p @ r)"
  unfolding starts_with_def by (metis append_take_drop_id append_eq_conv_conj)

lemma starts_with_append [simp]: "starts_with (p @ r) p"
  by (simp add: starts_with_def)

lemma starts_with_self [simp]: "starts_with p p"
  by (simp add: starts_with_def)

lemma append_less_cancel [simp]: "(p @ x :: 'a::linorder list) < p @ y \<longleftrightarrow> x < y"
  by (induction p) auto

lemma append_le_cancel [simp]: "(p @ x :: 'a::linorder list) \<le> p @ y \<longleftrightarrow> x \<le> y"
  by (induction p) auto

lemma le_append [simp]: "(p :: 'a::linorder list) \<le> p @ x"
  by (induction p) auto

lemma less_snoc [simp]: "(p :: 'a::linorder list) < p @ [x]"
  by (induction p) auto

text \<open>A byte string literal \<open>b"..."\<close>.\<close>

definition lit :: "string \<Rightarrow> bytes" where
  "lit s = map (\<lambda>c. word_of_nat (of_char c)) s"

section \<open>Association lists with increasing keys\<close>

abbreviation ksorted :: "('k::linorder \<times> 'v) list \<Rightarrow> bool" where
  "ksorted xs \<equiv> sorted_wrt (<) (map fst xs)"

lemma ksorted_distinct: "ksorted xs \<Longrightarrow> distinct (map fst xs)"
  by (induction xs) auto

lemma ksorted_append:
  "ksorted (xs @ ys) \<longleftrightarrow> ksorted xs \<and> ksorted ys \<and> (\<forall>x\<in>set xs. \<forall>y\<in>set ys. fst x < fst y)"
  by (auto simp: sorted_wrt_append)

lemma ksorted_map_of: "ksorted xs \<Longrightarrow> (k, v) \<in> set xs \<Longrightarrow> map_of xs k = Some v"
  by (simp add: ksorted_distinct map_of_is_SomeI)

lemma ksorted_map_of_iff: "ksorted xs \<Longrightarrow> map_of xs k = Some v \<longleftrightarrow> (k, v) \<in> set xs"
  by (simp add: ksorted_distinct)

lemma ksorted_filter: "ksorted xs \<Longrightarrow> ksorted (filter P xs)"
  by (induction xs) auto

lemma map_of_filter_key:
  "map_of (filter (\<lambda>(k, v). P k) xs) k = (if P k then map_of xs k else None)"
  by (induction xs) auto

lemma map_of_None_if: "(\<And>x. x \<in> set xs \<Longrightarrow> fst x \<noteq> k) \<Longrightarrow> map_of xs k = None"
  by (auto simp: map_of_eq_None_iff)

lemma ksorted_bounds:
  assumes "ksorted xs" "x \<in> set xs"
  shows "fst (hd xs) \<le> fst x \<and> fst x \<le> fst (last xs)"
proof -
  from assms(2) obtain i where i: "i < length xs" "x = xs ! i" by (metis in_set_conv_nth)
  have mono: "fst (xs ! a) \<le> fst (xs ! b)" if "a \<le> b" "b < length xs" for a b
    using assms(1) that by (cases "a = b") (auto simp: sorted_wrt_iff_nth_less intro: less_imp_le)
  have "xs \<noteq> []" using i(1) by auto
  with i mono [of 0 i] mono [of i "length xs - 1"] show ?thesis
    by (simp add: hd_conv_nth last_conv_nth)
qed

lemma ksorted_set_unique:
  assumes "ksorted xs" "ksorted ys" "set xs = set ys"
  shows "xs = ys"
  using assms
proof (induction xs arbitrary: ys)
  case Nil
  then show ?case by simp
next
  case (Cons x xs)
  then obtain y ys' where ys: "ys = y # ys'" by (cases ys) auto
  have lx: "\<And>z. z \<in> set xs \<Longrightarrow> fst x < fst z" and ly: "\<And>z. z \<in> set ys' \<Longrightarrow> fst y < fst z"
    using Cons.prems ys by auto
  have "x \<in> set (y # ys')" "y \<in> set (x # xs)" using Cons.prems ys by auto
  then have xy: "x = y" using lx ly by (metis less_asym set_ConsD)
  have "x \<notin> set xs" "y \<notin> set ys'" using lx ly by (metis less_irrefl)+
  with Cons.prems(3) ys xy have "set xs = set ys'" by auto
  with Cons ys xy show ?case by auto
qed

lemma ksorted_map_of_unique:
  assumes "ksorted xs" "ksorted ys" "map_of xs = map_of ys"
  shows "xs = ys"
proof (rule ksorted_set_unique [OF assms(1,2)])
  show "set xs = set ys"
    using assms ksorted_map_of_iff by (metis subrelI subset_antisym)
qed

lemma sum_list_update_nat:
  "i < length xs \<Longrightarrow> sum_list (xs[i := y]) + xs ! i = sum_list xs + (y :: nat)"
  by (induction xs arbitrary: i) (auto split: nat.split)

section \<open>Directories\<close>

text \<open>
  A database directory is an association list from file names to contents. Reading a file
  that is not there is \<open>None\<close> (\<open>ErrorKind::NotFound\<close>); spurious device errors are outside
  the model. Listing a directory returns the names, which the code sorts where order matters.
\<close>

type_synonym dir = "(string \<times> bytes) list"

definition fs_read :: "dir \<Rightarrow> string \<Rightarrow> bytes option" where
  "fs_read d p = map_of d p"

definition fs_exists :: "dir \<Rightarrow> string \<Rightarrow> bool" where
  "fs_exists d p = (fs_read d p \<noteq> None)"

definition fs_remove :: "string \<Rightarrow> dir \<Rightarrow> dir" where
  "fs_remove p d = filter (\<lambda>(q, c). q \<noteq> p) d"

definition fs_write :: "string \<Rightarrow> bytes \<Rightarrow> dir \<Rightarrow> dir" where
  "fs_write p c d = (p, c) # fs_remove p d"

definition fs_names :: "dir \<Rightarrow> string list" where
  "fs_names d = map fst d"

definition fs_append :: "string \<Rightarrow> bytes \<Rightarrow> dir \<Rightarrow> dir" where
  "fs_append p c d = (case fs_read d p of None \<Rightarrow> d | Some old \<Rightarrow> fs_write p (old @ c) d)"

definition fs_rename :: "string \<Rightarrow> string \<Rightarrow> dir \<Rightarrow> dir" where
  "fs_rename p q d = (case fs_read d p of None \<Rightarrow> d | Some c \<Rightarrow> fs_write q c (fs_remove p d))"

lemma fs_read_remove [simp, disk_simps]:
  "fs_read (fs_remove p d) q = (if q = p then None else fs_read d q)"
  unfolding fs_read_def fs_remove_def by (simp add: map_of_filter_key)

lemma fs_read_write [simp, disk_simps]:
  "fs_read (fs_write p c d) q = (if q = p then Some c else fs_read d q)"
  unfolding fs_write_def using fs_read_remove [of p d q] by (auto simp: fs_read_def)

lemma fs_read_append [simp, disk_simps]:
  "fs_read (fs_append p c d) q =
     (if q = p then map_option (\<lambda>old. old @ c) (fs_read d p) else fs_read d q)"
  by (auto simp: fs_append_def split: option.split)

lemma fs_read_rename [disk_simps]:
  "fs_read d p = Some c \<Longrightarrow>
   fs_read (fs_rename p q d) r = (if r = q then Some c else if r = p then None else fs_read d r)"
  by (simp add: fs_rename_def)

lemma set_fs_names: "set (fs_names d) = {p. fs_read d p \<noteq> None}"
  by (auto simp: fs_names_def fs_read_def map_of_eq_None_iff)

definition fs_wf :: "dir \<Rightarrow> bool" where
  "fs_wf d \<longleftrightarrow> distinct (fs_names d)"

lemma fs_wf_remove [simp]: "fs_wf d \<Longrightarrow> fs_wf (fs_remove p d)"
  unfolding fs_wf_def fs_names_def fs_remove_def
  by (induction d) auto

lemma fs_wf_write [simp]: "fs_wf d \<Longrightarrow> fs_wf (fs_write p c d)"
  using fs_wf_remove [of d p]
  by (auto simp: fs_write_def fs_wf_def fs_names_def fs_remove_def)

lemma fs_wf_append [simp]: "fs_wf d \<Longrightarrow> fs_wf (fs_append p c d)"
  by (auto simp: fs_append_def split: option.split)

section \<open>Numbers in file names\<close>

definition digit_char :: "nat \<Rightarrow> char" where
  "digit_char d = (if d < 10 then char_of (48 + d) else char_of (87 + d))"

definition digit_val :: "char \<Rightarrow> nat" where
  "digit_val c = (if of_char c < (58::nat) then of_char c - 48 else of_char c - 87)"

function show_base :: "nat \<Rightarrow> nat \<Rightarrow> string" where
  "show_base b n =
     (if n < b \<or> b < 2 then [digit_char n] else show_base b (n div b) @ [digit_char (n mod b)])"
  by pat_completeness auto
termination
  by (relation "measure snd") auto

declare show_base.simps [simp del]

definition pad_left :: "nat \<Rightarrow> string \<Rightarrow> string" where
  "pad_left w s = replicate (w - length s) (CHR ''0'') @ s"

definition val_base :: "nat \<Rightarrow> string \<Rightarrow> nat" where
  "val_base b s = foldl (\<lambda>a c. a * b + digit_val c) 0 s"

lemma digit_val_char: "d < 16 \<Longrightarrow> digit_val (digit_char d) = d"
  by (simp add: digit_val_def digit_char_def)

lemma val_base_snoc: "val_base b (s @ [c]) = val_base b s * b + digit_val c"
  by (simp add: val_base_def)

lemma val_base_show_base: "2 \<le> b \<Longrightarrow> b \<le> 16 \<Longrightarrow> val_base b (show_base b n) = n"
proof (induction b n rule: show_base.induct)
  case (1 b n)
  show ?case
  proof (cases "n < b")
    case True
    with "1.prems" have "digit_val (digit_char n) = n" by (intro digit_val_char) simp
    with True show ?thesis by (simp add: show_base.simps [of b n] val_base_def)
  next
    case False
    have "n mod b < b" using "1.prems" by simp
    then have "n mod b < 16" using "1.prems"(2) by (rule less_le_trans)
    with False "1" show ?thesis
      by (simp add: show_base.simps [of b n] val_base_snoc digit_val_char)
  qed
qed

lemma val_base_pad: "val_base b (pad_left w s) = val_base b s"
proof -
  have "foldl (\<lambda>a c. a * b + digit_val c) 0 (replicate k (CHR ''0'')) = 0" for k
    by (induction k) (simp_all add: digit_val_def)
  then show ?thesis by (simp add: val_base_def pad_left_def)
qed

end
