(* ===== verification/Types.thy ===== *)
theory Types
  imports Prelude
begin

text \<open>
  The data every component shares: \<open>edgestore/src/types.rs\<close> (operations, memtable entries,
  WAL records, segment metadata, the cohort and death-time arithmetic, the key encoding),
  \<open>edgestore/src/error.rs\<close> and \<open>edgestore/src/config.rs\<close>.

  Error messages are kept without their interpolated values. The constructor \<open>Panic\<close> is not
  a variant of the Rust enum: it stands for a failed \<open>assert!\<close> or arithmetic panic, which
  unwinds through the callers in the way an error is propagated.
\<close>

section \<open>Errors\<close>

datatype io_kind = NotFound | AlreadyExists | UnexpectedEof | WouldBlock | OtherKind

datatype EdgestoreError =
    Io io_kind
  | Checksum u32 u32
  | CorruptRecord string
  | CorruptKey
  | WalFull
  | WriterBusy
  | InvalidOperation string
  | NamespaceTooLong usize usize
  | KeyNotFound
  | FormatVersion byte byte
  | SegmentCorrupt string
  | ManifestCorrupt string
  | CompactionError string
  | ReplicationError string
  | DimensionMismatch usize usize
  | CorruptData string
  | ReadOnly
  | Panic string

type_synonym 'a res = "EdgestoreError + 'a"

section \<open>Operations, entries, records, metadata\<close>

type_synonym Lsn = u64
type_synonym SegmentId = u64

datatype Operation = Put | Delete

record MemEntry =
  e_key :: bytes
  e_value :: "bytes option"
  e_op :: Operation
  e_lsn :: Lsn
  e_timestamp :: i64
  e_ttl :: u32

record WalRecord =
  r_txid :: u64
  r_lsn :: Lsn
  r_timestamp :: i64
  r_ttl :: u32
  r_ns_len :: u16
  r_ns_bytes :: bytes
  r_key_bytes :: bytes
  r_op :: Operation
  r_value_hash :: bytes
  r_value_bytes :: bytes

datatype Compression = Lz4 | Zstd u32

record SegmentMeta =
  m_segment_id :: SegmentId
  m_segment_hash :: bytes
  m_min_key :: bytes
  m_max_key :: bytes
  m_min_lsn :: Lsn
  m_max_lsn :: Lsn
  m_record_count :: u64
  m_compressed_bytes :: u64
  m_uncompressed_bytes :: u64
  m_compression :: string
  m_cohort_bucket :: i64
  m_death_time :: i64
  m_merkle_root :: bytes
  m_created_at :: i64
  m_text_index_stripped :: bool
  m_vector_index_stripped :: bool

type_synonym kv = "bytes \<times> MemEntry"

section \<open>Configuration\<close>

text \<open>
  The fields of \<open>EdgestoreConfig\<close> that hold plain data. The path is the directory the engine is
  opened on, an argument of its operations; \<open>xor_filter_fpr\<close> is read nowhere; \<open>memtable_factory\<close>
  builds the ordered table of theory \<open>Memtable\<close>, whose operations those of the default table
  simulate (\<open>bbc_simulates_btree\<close>).
\<close>

record EdgestoreConfig =
  wal_max_bytes :: u64
  wal_max_age_secs :: u64
  segment_size_bytes :: u64
  memtable_max_bytes :: u64
  cohort_window_secs :: u64
  compression_wal :: Compression
  compression_segments :: Compression
  compaction_write_budget_bytes :: u64
  fdp_enabled :: bool
  hnsw_max_ram_bytes :: u64
  readonly :: bool

definition EdgestoreConfig_new :: EdgestoreConfig where
  "EdgestoreConfig_new = \<lparr>
     wal_max_bytes = 64 * 1024 * 1024,
     wal_max_age_secs = 60,
     segment_size_bytes = 16 * 1024 * 1024,
     memtable_max_bytes = 8 * 1024 * 1024,
     cohort_window_secs = 3600,
     compression_wal = Lz4,
     compression_segments = Zstd 1,
     compaction_write_budget_bytes = 256 * 1024 * 1024,
     fdp_enabled = False,
     hnsw_max_ram_bytes = 512 * 1024 * 1024,
     readonly = False \<rparr>"

section \<open>Cohorts and death times\<close>

text \<open>Rust's integer division truncates towards zero.\<close>

definition trunc_div :: "int \<Rightarrow> int \<Rightarrow> int" where
  "trunc_div a b = sgn a * sgn b * (\<bar>a\<bar> div \<bar>b\<bar>)"

definition sat_i64 :: "int \<Rightarrow> int" where
  "sat_i64 x = max (- (2 ^ 63)) (min (2 ^ 63 - 1) x)"

definition saturating_add_i64 :: "i64 \<Rightarrow> i64 \<Rightarrow> i64" where
  "saturating_add_i64 a b = word_of_int (sat_i64 (sint a + sint b))"

definition saturating_mul_i64 :: "i64 \<Rightarrow> i64 \<Rightarrow> i64" where
  "saturating_mul_i64 a b = word_of_int (sat_i64 (sint a * sint b))"

definition cohort_bucket_for :: "i64 \<Rightarrow> u32 \<Rightarrow> u64 \<Rightarrow> i64 res" where
  "cohort_bucket_for write_time_nanos ttl window =
     (let write_time_secs = trunc_div (sint write_time_nanos) 1000000000;
          cw = sint window
      in if cw = 0 then Inl (Panic ''attempt to divide by zero'')
         else if ttl > 0 then Inr (word_of_int (trunc_div (write_time_secs + uint ttl) cw))
         else Inr (word_of_int (trunc_div write_time_secs cw)))"

definition death_time_for :: "i64 \<Rightarrow> u32 \<Rightarrow> u64 \<Rightarrow> i64" where
  "death_time_for write_time_nanos ttl window =
     (if ttl > 0
      then saturating_add_i64 write_time_nanos (saturating_mul_i64 (ucast ttl) 1000000000)
      else saturating_add_i64 write_time_nanos (saturating_mul_i64 window 1000000000))"

section \<open>Key encoding\<close>

definition U16_MAX :: usize where "U16_MAX = 65535"

definition encode_key :: "bytes \<Rightarrow> bytes \<Rightarrow> bytes res" where
  "encode_key ns key =
     (if length ns \<le> U16_MAX
      then Inr (u16_be (word_of_nat (length ns)) @ ns @ key)
      else Inl (Panic ''namespace too long''))"

definition decode_key :: "bytes \<Rightarrow> (bytes \<times> bytes) res" where
  "decode_key encoded =
     (if length encoded < 2 then Inl CorruptKey
      else let ns_len = unat (u16_of_be [encoded ! 0, encoded ! 1])
           in if length encoded < 2 + ns_len then Inl CorruptKey
              else Inr (take ns_len (drop 2 encoded), drop (2 + ns_len) encoded))"

text \<open>The loop of \<open>prefix_upper_bound\<close>, with \<open>Suc i\<close> for the index that is tried next.\<close>

fun prefix_upper_bound_loop :: "bytes \<Rightarrow> nat \<Rightarrow> bytes option" where
  "prefix_upper_bound_loop bs 0 = None"
| "prefix_upper_bound_loop bs (Suc i) =
     (if bs ! i < 255 then Some (take (i + 1) (bs[i := bs ! i + 1]))
      else prefix_upper_bound_loop bs i)"

definition prefix_upper_bound :: "bytes \<Rightarrow> bytes option" where
  "prefix_upper_bound prefix = prefix_upper_bound_loop prefix (length prefix)"

section \<open>Facts about the key encoding\<close>

text \<open>The encoding without its assertion, used to state facts about well-sized namespaces.\<close>

definition enc :: "bytes \<Rightarrow> bytes \<Rightarrow> bytes" where
  "enc ns key = u16_be (word_of_nat (length ns)) @ ns @ key"

definition ns_ok :: "bytes \<Rightarrow> bool" where
  "ns_ok ns \<longleftrightarrow> length ns \<le> U16_MAX"

lemma encode_key_ok: "ns_ok ns \<Longrightarrow> encode_key ns key = Inr (enc ns key)"
  by (simp add: encode_key_def enc_def ns_ok_def)

lemma encode_key_Inr: "encode_key ns key = Inr b \<longleftrightarrow> ns_ok ns \<and> b = enc ns key"
  by (auto simp: encode_key_def enc_def ns_ok_def)

lemma length_enc [simp]: "length (enc ns key) = 2 + length ns + length key"
  by (simp add: enc_def)

lemma unat_ns_len: "ns_ok ns \<Longrightarrow> unat (word_of_nat (length ns) :: u16) = length ns"
  by (simp add: ns_ok_def U16_MAX_def unat_u16_of_nat)

lemma u16_be_two: "\<exists>a b. u16_be w = [a, b]"
  by (simp add: u16_be_def numeral_2_eq_2)

lemma decode_enc: "ns_ok ns \<Longrightarrow> decode_key (enc ns key) = Inr (ns, key)"
proof -
  assume ok: "ns_ok ns"
  obtain a b where ab: "u16_be (word_of_nat (length ns)) = [a, b]" using u16_be_two by blast
  then have "u16_of_be [a, b] = word_of_nat (length ns)" by (metis u16_of_be_u16_be)
  with ok ab show ?thesis
    by (simp add: decode_key_def enc_def unat_ns_len)
qed

lemma decode_key_enc:
  assumes "decode_key b = Inr (ns, key)"
  shows "ns_ok ns \<and> b = enc ns key"
proof -
  let ?n = "u16_of_be [b ! 0, b ! 1]"
  have l2: "2 \<le> length b" and ln: "2 + unat ?n \<le> length b"
    and ns: "ns = take (unat ?n) (drop 2 b)" and key: "key = drop (2 + unat ?n) b"
    using assms by (auto simp: decode_key_def Let_def split: if_splits)
  have len: "length ns = unat ?n" using ns ln by simp
  have bound: "unat ?n < 65536" using unat_bound [of ?n] by simp
  have hd: "[b ! 0, b ! 1] = take 2 b"
    using l2 by (intro nth_equalityI) (auto simp: less_Suc_eq numeral_2_eq_2)
  have "le_to_nat (rev [b ! 0, b ! 1]) < 65536"
    using le_to_nat_bound [of "rev [b ! 0, b ! 1]"] by simp
  then have "unat ?n = le_to_nat (rev [b ! 0, b ! 1])"
    by (simp only: u16_of_be_def unat_u16_of_nat)
  then have "u16_be ?n = [b ! 0, b ! 1]"
    using nat_to_le_le_to_nat [of "rev [b ! 0, b ! 1]" 2] by (simp add: u16_be_def)
  then have "u16_be (word_of_nat (length ns)) = take 2 b" using len hd by simp
  moreover have "key = drop (unat ?n) (drop 2 b)" using key by (simp add: add.commute)
  then have "ns @ key = drop 2 b" using ns by (simp only: append_take_drop_id)
  ultimately have "enc ns key = b" by (simp add: enc_def)
  with len bound show ?thesis by (simp add: ns_ok_def U16_MAX_def)
qed

lemma enc_inject: "ns_ok ns \<Longrightarrow> ns_ok ns' \<Longrightarrow> enc ns k = enc ns' k' \<longleftrightarrow> ns = ns' \<and> k = k'"
  by (metis decode_enc prod.inject sum.inject(2))

lemma enc_less [simp]: "enc ns k < enc ns k' \<longleftrightarrow> k < k'"
  by (simp add: enc_def)

lemma enc_le [simp]: "enc ns k \<le> enc ns k' \<longleftrightarrow> k \<le> k'"
  by (simp add: enc_def)

lemma starts_with_enc: "starts_with (enc ns k) (enc ns p) \<longleftrightarrow> starts_with k p"
  by (auto simp: starts_with_iff enc_def)

lemma starts_with_enc_ns:
  assumes "ns_ok ns" "ns_ok ns'" "starts_with (enc ns' k) (enc ns p)"
  shows "ns' = ns"
proof -
  from assms(3) obtain r where r: "enc ns' k = enc ns p @ r" by (auto simp: starts_with_iff)
  then have "enc ns' k = enc ns (p @ r)" by (simp add: enc_def)
  with assms(1,2) show ?thesis by (simp add: enc_inject)
qed

text \<open>A key between two encoded keys of one namespace belongs to that namespace.\<close>

lemma between_append:
  fixes p :: "'a::linorder list"
  shows "p @ a \<le> k \<Longrightarrow> k < p @ b \<Longrightarrow> \<exists>r. k = p @ r"
proof (induction p arbitrary: k)
  case Nil
  then show ?case by simp
next
  case (Cons x p)
  from Cons.prems obtain y k' where k: "k = y # k'" by (cases k) auto
  with Cons.prems have "y = x" "p @ a \<le> k'" "k' < p @ b" by auto
  with Cons.IH k show ?case by auto
qed

lemma between_enc:
  assumes "enc ns a \<le> k" "k < enc ns b"
  obtains r where "k = enc ns r" "a \<le> r" "r < b"
proof -
  have eq: "enc ns x = (u16_be (word_of_nat (length ns)) @ ns) @ x" for x
    by (simp add: enc_def)
  obtain r where "k = enc ns r" using between_append assms unfolding eq by metis
  with assms that show ?thesis by auto
qed

text \<open>
  The key encoding is a faithful, order-preserving embedding. For a namespace of at most
  65535 bytes, \<open>encode_key\<close> succeeds, \<open>decode_key\<close> recovers exactly the namespace and the
  key, different (namespace, key) pairs get different encodings, keys of one namespace keep
  their byte order, and every byte string that \<open>decode_key\<close> accepts is the encoding of what
  it returns.
\<close>

theorem encode_decode_key:
  assumes "length ns \<le> 65535" "length ns' \<le> 65535"
  shows "\<exists>b b'. encode_key ns k = Inr b \<and> encode_key ns' k' = Inr b' \<and>
           decode_key b = Inr (ns, k) \<and>
           (b = b' \<longleftrightarrow> ns = ns' \<and> k = k') \<and>
           (ns = ns' \<longrightarrow> (b < b' \<longleftrightarrow> k < k')) \<and>
           (\<forall>x n y. decode_key x = Inr (n, y) \<longrightarrow> encode_key n y = Inr x)"
proof -
  have ok: "ns_ok ns" "ns_ok ns'" using assms by (simp_all add: ns_ok_def U16_MAX_def)
  have "encode_key n y = Inr x" if "decode_key x = Inr (n, y)" for x n y
    using decode_key_enc [OF that] by (simp add: encode_key_ok)
  with ok show ?thesis
    by (auto simp: encode_key_ok decode_enc enc_inject)
qed

theorem encode_decode_key_witness:
  "\<exists>b b'. encode_key [110, 115] [1] = Inr b \<and> encode_key [110, 115] [2] = Inr b' \<and>
     decode_key b = Inr ([110, 115], [1]) \<and> b < b'"
proof -
  have "length [110, 115 :: byte] \<le> 65535" by simp
  from encode_decode_key [OF this this, of "[1]" "[2]"] show ?thesis by auto
qed

section \<open>Facts about prefix bounds\<close>

lemma byte_le_255: "(x :: byte) \<le> 255"
  using unat_bound [of x] by (simp add: word_le_nat_alt)

lemma prefix_upper_bound_loop_spec:
  assumes "i \<le> length bs" "\<forall>j. i \<le> j \<and> j < length bs \<longrightarrow> bs ! j = 255"
  shows "case prefix_upper_bound_loop bs i of
           None \<Rightarrow> \<forall>j < length bs. bs ! j = 255
         | Some u \<Rightarrow> \<exists>q b n. bs = q @ b # replicate n 255 \<and> b < 255 \<and> u = q @ [b + 1]"
  using assms
proof (induction i)
  case 0
  then show ?case by simp
next
  case (Suc i)
  show ?case
  proof (cases "bs ! i < 255")
    case True
    let ?n = "length bs - Suc i"
    have "drop (Suc i) bs = replicate ?n 255"
      using Suc.prems by (intro nth_equalityI) auto
    then have "bs = take i bs @ bs ! i # replicate ?n 255"
      using Suc.prems(1) by (metis Suc_le_eq id_take_nth_drop)
    moreover have "take (i + 1) (bs[i := bs ! i + 1]) = take i bs @ [bs ! i + 1]"
      using Suc.prems(1) by (simp add: take_Suc_conv_app_nth)
    ultimately show ?thesis using True by auto
  next
    case False
    then have "bs ! i = 255" using byte_le_255 [of "bs ! i"] by simp
    with Suc have "\<forall>j. i \<le> j \<and> j < length bs \<longrightarrow> bs ! j = 255"
      by (metis le_antisym not_less_eq_eq)
    with Suc False show ?thesis by simp
  qed
qed

lemma replicate_max_le:
  "replicate n (255 :: byte) \<le> r \<longleftrightarrow> (\<exists>s. r = replicate n 255 @ s)"
proof (induction n arbitrary: r)
  case 0
  then show ?case by simp
next
  case (Suc n)
  have "\<not> (255 :: byte) < x" for x
    using byte_le_255 [of x] by simp
  with Suc show ?case by (cases r) auto
qed

lemma byte_less_Suc:
  assumes "b < (255 :: byte)"
  shows "x < b + 1 \<longleftrightarrow> x \<le> b"
proof -
  have "unat b < 255" using assms by (simp add: word_less_nat_alt)
  then have "unat (b + 1) = unat b + 1" by (simp add: unat_word_ariths)
  then show ?thesis by (auto simp: word_less_nat_alt word_le_nat_alt)
qed

lemma prefix_bound_iff:
  assumes "b < (255 :: byte)"
  shows "q @ b # replicate n 255 \<le> k \<and> k < q @ [b + 1] \<longleftrightarrow>
         (\<exists>r. k = q @ b # replicate n 255 @ r)"
proof
  assume lr: "q @ b # replicate n 255 \<le> k \<and> k < q @ [b + 1]"
  then obtain r where r: "k = q @ r" using between_append by blast
  with lr have le: "b # replicate n 255 \<le> r" "r < [b + 1]" by auto
  then obtain x s where xs: "r = x # s" by (cases r) auto
  with le assms have "x = b" "replicate n 255 \<le> s" by (auto simp: byte_less_Suc)
  with xs r replicate_max_le show "\<exists>r. k = q @ b # replicate n 255 @ r" by auto
next
  assume "\<exists>r. k = q @ b # replicate n 255 @ r"
  then obtain r where r: "k = q @ b # replicate n 255 @ r" by blast
  have "b < b + 1" using assms by (simp add: byte_less_Suc)
  moreover have "replicate n (255 :: byte) \<le> replicate n 255 @ r" by simp
  ultimately show "q @ b # replicate n 255 \<le> k \<and> k < q @ [b + 1]" using r by simp
qed

lemma prefix_upper_bound_spec:
  "case prefix_upper_bound p of
     Some u \<Rightarrow> (\<forall>k. p \<le> k \<and> k < u \<longleftrightarrow> starts_with k p)
   | None \<Rightarrow> p = replicate (length p) 255"
proof -
  have spec: "case prefix_upper_bound_loop p (length p) of
           None \<Rightarrow> \<forall>j < length p. p ! j = 255
         | Some u \<Rightarrow> \<exists>q b n. p = q @ b # replicate n 255 \<and> b < 255 \<and> u = q @ [b + 1]"
    by (rule prefix_upper_bound_loop_spec) auto
  show ?thesis
  proof (cases "prefix_upper_bound_loop p (length p)")
    case None
    with spec have "p = replicate (length p) 255" by (intro nth_equalityI) simp_all
    with None show ?thesis by (simp add: prefix_upper_bound_def)
  next
    case (Some u)
    with spec obtain q b n where q: "p = q @ b # replicate n 255" "b < 255" "u = q @ [b + 1]"
      by auto
    have "p \<le> k \<and> k < u \<longleftrightarrow> starts_with k p" for k
      using prefix_bound_iff [OF q(2), of q n k] q by (simp add: starts_with_iff)
    with Some show ?thesis by (simp add: prefix_upper_bound_def)
  qed
qed

text \<open>
  \<open>prefix_upper_bound\<close> is exact. When it returns a bound \<open>u\<close>, the keys in the half-open
  interval from the prefix to \<open>u\<close> are exactly the keys that start with the prefix; it returns
  no bound exactly for the prefixes all of whose bytes are \<open>0xFF\<close>.
\<close>

theorem prefix_upper_bound_exact:
  "case prefix_upper_bound p of
     Some u \<Rightarrow> (\<forall>k. p \<le> k \<and> k < u \<longleftrightarrow> starts_with k p)
   | None \<Rightarrow> p = replicate (length p) 255"
  by (rule prefix_upper_bound_spec)

end
