(* ===== verification/External.thy ===== *)
theory External
  imports Types
begin

text \<open>
  The crates the engine calls and whose sources are not part of the repository: \<open>lz4_flex\<close>,
  \<open>crc32c\<close>, \<open>blake3\<close>, \<open>zstd\<close>, \<open>xorf\<close> and \<open>serde_json\<close>. Each function the engine uses is a field
  of the record \<open>ext\<close>, which the definitions take as their argument \<open>X\<close>. The predicates at
  the end state documented behaviour of these crates; a theorem that needs one has it as a
  hypothesis.
\<close>

section \<open>Manifest entries\<close>

datatype ManifestEntryType = Add | Remove

record ManifestEntry =
  me_entry_type :: ManifestEntryType
  me_segment_id :: SegmentId
  me_meta :: "SegmentMeta option"

section \<open>The external functions\<close>

text \<open>The public fields of \<open>xorf::Xor8\<close>.\<close>

record xor8 =
  xf_seed :: u64
  xf_block_length :: u64
  xf_fingerprints :: bytes

record ext =
  lz4_compress :: "bytes \<Rightarrow> bytes"
  lz4_decompress :: "bytes \<Rightarrow> bytes option"
  crc32c :: "bytes \<Rightarrow> u32"
  blake3 :: "bytes \<Rightarrow> bytes"
  zstd_encode :: "bytes \<Rightarrow> bytes option"
  zstd_decode :: "bytes \<Rightarrow> bytes option"
  xor8_from :: "u64 list \<Rightarrow> xor8"
  xor8_contains :: "xor8 \<Rightarrow> u64 \<Rightarrow> bool"
  json_meta :: "SegmentMeta \<Rightarrow> bytes"
  json_meta_parse :: "bytes \<Rightarrow> SegmentMeta option"
  json_entry :: "ManifestEntry \<Rightarrow> bytes"
  json_entry_parse :: "bytes \<Rightarrow> ManifestEntry option"

section \<open>Documented behaviour\<close>

text \<open>Decompression inverts compression.\<close>

definition lz4_ok :: "ext \<Rightarrow> bool" where
  "lz4_ok X \<longleftrightarrow> (\<forall>b. lz4_decompress X (lz4_compress X b) = Some b)"

text \<open>
  Compressing succeeds and decompressing gives the input back; a block of at most 2 MiB does
  not grow beyond what a 32-bit length can say.
\<close>

definition zstd_ok :: "ext \<Rightarrow> bool" where
  "zstd_ok X \<longleftrightarrow> (\<forall>b. \<exists>c. zstd_encode X b = Some c \<and> zstd_decode X c = Some b \<and>
     (length b \<le> 2 ^ 21 \<longrightarrow> length c < 2 ^ 32))"

text \<open>BLAKE3 digests have 32 bytes.\<close>

definition blake3_ok :: "ext \<Rightarrow> bool" where
  "blake3_ok X \<longleftrightarrow> (\<forall>b. length (blake3 X b) = 32)"

text \<open>An xor filter built from distinct hashes has no false negatives.\<close>

definition xor8_ok :: "ext \<Rightarrow> bool" where
  "xor8_ok X \<longleftrightarrow> (\<forall>hs h. distinct hs \<longrightarrow> h \<in> set hs \<longrightarrow> xor8_contains X (xor8_from X hs) h)"

text \<open>JSON round trips for the two serialised types.\<close>

definition json_ok :: "ext \<Rightarrow> bool" where
  "json_ok X \<longleftrightarrow> (\<forall>m. json_meta_parse X (json_meta X m) = Some m) \<and>
                 (\<forall>e. json_entry_parse X (json_entry X e) = Some e)"

section \<open>A buffer read from the front\<close>

text \<open>
  The decoders read a buffer at a moving position and fail when too few bytes are left.
  \<open>read_field\<close> is one such read; it carries the bytes that are left in place of the position.
\<close>

definition read_field ::
  "(string \<Rightarrow> EdgestoreError) \<Rightarrow> usize \<Rightarrow> string \<Rightarrow> bytes \<Rightarrow> (bytes \<times> bytes) res" where
  "read_field err n label buf =
     (if length buf < n then Inl (err label) else Inr (take n buf, drop n buf))"

lemma read_field_append [simp, codec_simps]:
  "length a = n \<Longrightarrow> read_field err n label (a @ rest) = Inr (a, rest)"
  by (simp add: read_field_def)

lemma read_field_exact [simp, codec_simps]:
  "length a = n \<Longrightarrow> read_field err n label a = Inr (a, [])"
  by (simp add: read_field_def)

lemma read_field_one [simp, codec_simps]:
  "read_field err (Suc 0) label (b # rest) = Inr ([b], rest)"
  by (simp add: read_field_def)

lemma read_field_zero [simp, codec_simps]: "read_field err 0 label buf = Inr ([], buf)"
  by (simp add: read_field_def)

lemma read_field_Inr:
  "read_field err n label buf = Inr (a, rest) \<longleftrightarrow> buf = a @ rest \<and> length a = n"
  by (auto simp: read_field_def)

end
