(* ===== verification/Sample.thy ===== *)
theory Sample
  imports External
begin

text \<open>
  One concrete choice of the external functions, on which the hypotheses about them hold
  together: stored (uncompressed) codecs, an additive checksum, a padded digest, a filter that
  contains everything, and a self-delimiting binary encoding in the role of JSON. It is used
  only to evaluate theorems at concrete inputs.
\<close>

section \<open>A self-delimiting encoding\<close>

definition put_list :: "bytes \<Rightarrow> bytes" where
  "put_list bs = concat (map (\<lambda>b. [1, b]) bs) @ [0]"

fun get_list :: "bytes \<Rightarrow> (bytes \<times> bytes) option" where
  "get_list (c # rest) =
     (if c = 0 then Some ([], rest)
      else case rest of
        [] \<Rightarrow> None
      | b # rest' \<Rightarrow> map_option (\<lambda>(bs, r). (b # bs, r)) (get_list rest'))"
| "get_list [] = None"

lemma get_put_list [simp]: "get_list (put_list bs @ r) = Some (bs, r)"
  by (induction bs) (auto simp: put_list_def)

definition get_u64 :: "bytes \<Rightarrow> (u64 \<times> bytes) option" where
  "get_u64 bs = (if length bs < 8 then None else Some (u64_of_le (take 8 bs), drop 8 bs))"

lemma get_put_u64 [simp]: "get_u64 (u64_le w @ r) = Some (w, r)"
  by (simp add: get_u64_def)

definition put_bool :: "bool \<Rightarrow> bytes" where "put_bool b = [if b then 1 else 0]"

fun get_bool :: "bytes \<Rightarrow> (bool \<times> bytes) option" where
  "get_bool [] = None"
| "get_bool (c # r) = Some (c = 1, r)"

lemma get_put_bool [simp]: "get_bool (put_bool b @ r) = Some (b, r)"
  by (simp add: put_bool_def)

definition put_string :: "string \<Rightarrow> bytes" where
  "put_string s = put_list (map (\<lambda>c. word_of_nat (of_char c)) s)"

definition get_string :: "bytes \<Rightarrow> (string \<times> bytes) option" where
  "get_string bs = map_option (\<lambda>(l, r). (map (\<lambda>b. char_of (unat b)) l, r)) (get_list bs)"

lemma unat_of_char: "unat (word_of_nat (of_char c) :: byte) = of_char c"
  by (simp add: unat_of_nat of_char_mod_256)

lemma get_put_string [simp]: "get_string (put_string s @ r) = Some (s, r)"
  by (simp add: get_string_def put_string_def comp_def unat_of_char del: of_nat_of_char)

definition put_meta :: "SegmentMeta \<Rightarrow> bytes" where
  "put_meta m =
     u64_le (m_segment_id m) @ put_list (m_segment_hash m) @ put_list (m_min_key m) @
     put_list (m_max_key m) @ u64_le (m_min_lsn m) @ u64_le (m_max_lsn m) @
     u64_le (m_record_count m) @ u64_le (m_compressed_bytes m) @ u64_le (m_uncompressed_bytes m) @
     put_string (m_compression m) @ u64_le (m_cohort_bucket m) @ u64_le (m_death_time m) @
     put_list (m_merkle_root m) @ u64_le (m_created_at m) @
     put_bool (m_text_index_stripped m) @ put_bool (m_vector_index_stripped m)"

definition get_meta :: "bytes \<Rightarrow> SegmentMeta option" where
  "get_meta b0 =
     Option.bind (get_u64 b0) (\<lambda>(i, b1). Option.bind (get_list b1) (\<lambda>(h, b2).
     Option.bind (get_list b2) (\<lambda>(lo, b3). Option.bind (get_list b3) (\<lambda>(hi, b4).
     Option.bind (get_u64 b4) (\<lambda>(l1, b5). Option.bind (get_u64 b5) (\<lambda>(l2, b6).
     Option.bind (get_u64 b6) (\<lambda>(n, b7). Option.bind (get_u64 b7) (\<lambda>(cb, b8).
     Option.bind (get_u64 b8) (\<lambda>(ub, b9). Option.bind (get_string b9) (\<lambda>(cs, b10).
     Option.bind (get_u64 b10) (\<lambda>(co, b11). Option.bind (get_u64 b11) (\<lambda>(dt, b12).
     Option.bind (get_list b12) (\<lambda>(mr, b13). Option.bind (get_u64 b13) (\<lambda>(ca, b14).
     Option.bind (get_bool b14) (\<lambda>(ts, b15). Option.bind (get_bool b15) (\<lambda>(vs, b16).
       Some \<lparr> m_segment_id = i, m_segment_hash = h, m_min_key = lo, m_max_key = hi,
         m_min_lsn = l1, m_max_lsn = l2, m_record_count = n, m_compressed_bytes = cb,
         m_uncompressed_bytes = ub, m_compression = cs, m_cohort_bucket = co,
         m_death_time = dt, m_merkle_root = mr, m_created_at = ca,
         m_text_index_stripped = ts, m_vector_index_stripped = vs \<rparr>))))))))))))))))"

lemma get_put_meta [simp]: "get_meta (put_meta m) = Some m"
proof -
  have "get_bool (put_bool b) = Some (b, [])" for b by (simp add: put_bool_def)
  then show ?thesis by (simp add: get_meta_def put_meta_def)
qed

definition put_entry :: "ManifestEntry \<Rightarrow> bytes" where
  "put_entry e = put_bool (me_entry_type e = Add) @ u64_le (me_segment_id e) @
     (case me_meta e of None \<Rightarrow> [0] | Some m \<Rightarrow> 1 # put_meta m)"

definition get_entry :: "bytes \<Rightarrow> ManifestEntry option" where
  "get_entry b0 =
     Option.bind (get_bool b0) (\<lambda>(ty, b1). Option.bind (get_u64 b1) (\<lambda>(i, b2).
       case b2 of
         [] \<Rightarrow> None
       | c # b3 \<Rightarrow>
           (if c = 0 then Some \<lparr> me_entry_type = (if ty then Add else Remove), me_segment_id = i, me_meta = None \<rparr>
            else map_option (\<lambda>m. \<lparr> me_entry_type = (if ty then Add else Remove), me_segment_id = i,
                                 me_meta = Some m \<rparr>) (get_meta b3))))"

lemma get_put_entry [simp]: "get_entry (put_entry e) = Some e"
proof -
  have "\<not> me_entry_type e = Add \<Longrightarrow> me_entry_type e = Remove" by (cases "me_entry_type e") auto
  then show ?thesis
    by (cases "me_meta e") (auto simp: get_entry_def put_entry_def)
qed

section \<open>The sample functions and their laws\<close>

definition sample_ext :: ext where
  "sample_ext = \<lparr>
     lz4_compress = (\<lambda>b. b), lz4_decompress = (\<lambda>b. Some b),
     crc32c = (\<lambda>b. word_of_nat (sum_list (map unat b))),
     blake3 = (\<lambda>b. take 32 (b @ replicate 32 0)),
     zstd_encode = (\<lambda>b. Some b), zstd_decode = (\<lambda>b. Some b),
     xor8_from = (\<lambda>hs. \<lparr> xf_seed = 0, xf_block_length = 0, xf_fingerprints = [] \<rparr>),
     xor8_contains = (\<lambda>f h. True),
     json_meta = put_meta, json_meta_parse = get_meta,
     json_entry = put_entry, json_entry_parse = get_entry \<rparr>"

lemma sample_laws [simp]:
  "lz4_ok sample_ext" "zstd_ok sample_ext" "blake3_ok sample_ext" "xor8_ok sample_ext"
  "json_ok sample_ext"
  by (auto simp: lz4_ok_def zstd_ok_def blake3_ok_def xor8_ok_def json_ok_def sample_ext_def)

end
