(* ===== verification/Framing.thy ===== *)
theory Framing
  imports Sample
begin

text \<open>
  The write-ahead log and the manifest have the same shape on disk: a header, then frames of a
  checksum, a length and a payload. This theory has what the two readers have in common: the
  payloads a reader accepts from a byte string, and what it makes of complete, torn, corrupt
  and oversized frames.
\<close>

definition raw_frame :: "u32 \<Rightarrow> bytes \<Rightarrow> bytes" where
  "raw_frame crc payload = u32_le crc @ u32_le (word_of_nat (length payload)) @ payload"

text \<open>Reading stops at a frame that is cut off or too long, and skips one whose checksum is wrong.\<close>

function payloads :: "(bytes \<Rightarrow> u32) \<Rightarrow> nat \<Rightarrow> bytes \<Rightarrow> bytes list" where
  "payloads crc max_len file =
     (if length file < 8 then []
      else let n = unat (u32_of_le (take 4 (drop 4 file))); body = drop 8 file
           in if n > max_len \<or> length body < n then []
              else if crc (take n body) \<noteq> u32_of_le (take 4 file)
                   then payloads crc max_len (drop n body)
                   else take n body # payloads crc max_len (drop n body))"
  by pat_completeness auto
termination
  by (relation "measure (\<lambda>(crc, m, file). length file)") auto

declare payloads.simps [simp del]

definition checked_frame :: "(bytes \<Rightarrow> u32) \<Rightarrow> bytes \<Rightarrow> bytes" where
  "checked_frame crc p = raw_frame (crc p) p"

definition frames :: "(bytes \<Rightarrow> u32) \<Rightarrow> bytes list \<Rightarrow> bytes" where
  "frames crc ps = concat (map (checked_frame crc) ps)"

lemma frames_simps [simp]:
  "frames crc [] = []" "frames crc (p # ps) = checked_frame crc p @ frames crc ps"
  "frames crc (ps @ qs) = frames crc ps @ frames crc qs"
  by (simp_all add: frames_def)

lemma length_raw_frame [simp]: "length (raw_frame crc p) = 8 + length p"
  by (simp add: raw_frame_def)

lemma length_checked_frame [simp]: "length (checked_frame crc p) = 8 + length p"
  by (simp add: checked_frame_def)

lemma payloads_short: "length file < 8 \<Longrightarrow> payloads crc m file = []"
  by (simp add: payloads.simps)

lemma payloads_raw_frame:
  assumes "length p \<le> m" "m < 4294967296"
  shows "payloads crc m (raw_frame c p @ rest) =
    (if crc p \<noteq> c then payloads crc m rest else p # payloads crc m rest)"
proof -
  have "unat (word_of_nat (length p) :: u32) = length p" using assms by (simp add: unat_u32_of_nat)
  with assms(1) show ?thesis
    by (subst payloads.simps) (simp add: raw_frame_def Let_def del: unsigned_of_nat)
qed

lemma payloads_oversized:
  assumes "m < length p" "length p < 4294967296"
  shows "payloads crc m (raw_frame c p @ rest) = []"
proof -
  have "unat (word_of_nat (length p) :: u32) = length p" using assms by (simp add: unat_u32_of_nat)
  with assms(1) show ?thesis
    by (subst payloads.simps) (simp add: raw_frame_def Let_def del: unsigned_of_nat)
qed

lemma payloads_frames:
  assumes "m < 4294967296"
  shows "\<forall>p \<in> set ps. length p \<le> m \<Longrightarrow> payloads crc m (frames crc ps @ rest) = ps @ payloads crc m rest"
  by (induction ps) (simp_all add: checked_frame_def payloads_raw_frame assms)

lemma payloads_torn:
  assumes "length p \<le> m" "m < 4294967296" "n < 8 + length p"
  shows "payloads crc m (take n (checked_frame crc p)) = []"
proof (cases "n < 8")
  case True
  then show ?thesis by (intro payloads_short) simp
next
  case False
  then have eq: "take n (checked_frame crc p) =
      u32_le (crc p) @ u32_le (word_of_nat (length p)) @ take (n - 8) p"
    using assms(3) by (simp add: checked_frame_def raw_frame_def)
  have len: "unat (word_of_nat (length p) :: u32) = length p" using assms by (simp add: unat_u32_of_nat)
  have short: "n - 8 < length p" using False assms(3) by linarith
  show ?thesis unfolding eq
    by (subst payloads.simps) (use short in \<open>simp add: len Let_def del: unsigned_of_nat\<close>)
qed

lemma payloads_truncated:
  assumes "m < 4294967296" "\<forall>p \<in> set ps. length p \<le> m"
  shows "\<exists>k \<le> length ps. payloads crc m (take n (frames crc ps)) = take k ps \<and>
           length (frames crc (take k ps)) \<le> n \<and>
           (k < length ps \<longrightarrow> n < length (frames crc (take (Suc k) ps)))"
  using assms(2)
proof (induction ps arbitrary: n)
  case Nil
  then show ?case by (simp add: payloads_short)
next
  case (Cons p ps)
  show ?case
  proof (cases "8 + length p \<le> n")
    case True
    let ?n = "n - (8 + length p)"
    have "\<forall>q \<in> set ps. length q \<le> m" using Cons.prems by simp
    from Cons.IH [OF this, of ?n] obtain k where k: "k \<le> length ps"
      "payloads crc m (take ?n (frames crc ps)) = take k ps" "length (frames crc (take k ps)) \<le> ?n"
      "k < length ps \<longrightarrow> ?n < length (frames crc (take (Suc k) ps))" by blast
    have "payloads crc m (take n (frames crc (p # ps))) = p # take k ps"
      using True k(2) Cons.prems assms(1) by (simp add: checked_frame_def payloads_raw_frame)
    with True k show ?thesis by (intro exI [of _ "Suc k"]) auto
  next
    case False
    then have "payloads crc m (take n (frames crc (p # ps))) = []"
      using payloads_torn [of p m n crc] Cons.prems assms(1) by simp
    with False show ?thesis by (intro exI [of _ 0]) auto
  qed
qed

end
