(* ===== verification/Wal.thy ===== *)
theory Wal
  imports Framing
begin

text \<open>
  The write-ahead log of \<open>edgestore/src/wal.rs\<close>: the byte layout of a record, the frame
  \<open>crc32c | length | lz4 payload\<close>, the file header, \<open>WalWriter\<close> and \<open>WalReader\<close>. A writer's
  file handle is the name of its file in the directory.
\<close>

section \<open>Constants\<close>

definition WAL_MAGIC :: bytes where "WAL_MAGIC = [0x45, 0x44, 0x47, 0x57]"
definition WAL_FORMAT_VERSION :: byte where "WAL_FORMAT_VERSION = 1"
definition WAL_HEADER_LEN :: usize where "WAL_HEADER_LEN = 8"
definition MAX_COMPRESSED_LEN :: u32 where "MAX_COMPRESSED_LEN = 64 * 1024 * 1024"

section \<open>Records as bytes\<close>

definition op_byte :: "Operation \<Rightarrow> byte" where
  "op_byte op = (case op of Put \<Rightarrow> 1 | Delete \<Rightarrow> 2)"

definition serialize_record :: "WalRecord \<Rightarrow> bytes" where
  "serialize_record r =
     u64_le (r_txid r) @ u64_le (r_lsn r) @ u64_le (r_timestamp r) @ u32_le (r_ttl r) @
     [op_byte (r_op r)] @ u16_be (r_ns_len r) @ r_ns_bytes r @
     u32_le (word_of_nat (length (r_key_bytes r))) @ r_key_bytes r @
     r_value_hash r @
     u32_le (word_of_nat (length (r_value_bytes r))) @ r_value_bytes r"

definition deserialize_record :: "bytes \<Rightarrow> WalRecord res" where
  "deserialize_record buf =
     (let need = read_field CorruptRecord in
      and_then (need 8 ''txid'' buf) (\<lambda>(txid, b1).
      and_then (need 8 ''lsn'' b1) (\<lambda>(lsn, b2).
      and_then (need 8 ''timestamp'' b2) (\<lambda>(timestamp, b3).
      and_then (need 4 ''ttl'' b3) (\<lambda>(ttl, b4).
      and_then (need 1 ''op'' b4) (\<lambda>(opb, b5).
      and_then (if opb ! 0 = 1 then Inr Put else if opb ! 0 = 2 then Inr Delete
                else Inl (CorruptRecord ''unknown operation byte'')) (\<lambda>op.
      and_then (need 2 ''ns_len'' b5) (\<lambda>(nl, b6).
      and_then (need (unat (u16_of_be nl)) ''ns_bytes'' b6) (\<lambda>(ns_bytes, b7).
      and_then (need 4 ''key_len'' b7) (\<lambda>(kl, b8).
      and_then (need (unat (u32_of_le kl)) ''key_bytes'' b8) (\<lambda>(key_bytes, b9).
      and_then (need 32 ''value_hash'' b9) (\<lambda>(value_hash, b10).
      and_then (need 4 ''val_len'' b10) (\<lambda>(vl, b11).
      and_then (need (unat (u32_of_le vl)) ''val_bytes'' b11) (\<lambda>(value_bytes, b12).
        Inr \<lparr> r_txid = u64_of_le txid, r_lsn = u64_of_le lsn, r_timestamp = u64_of_le timestamp,
              r_ttl = u32_of_le ttl, r_ns_len = u16_of_be nl, r_ns_bytes = ns_bytes,
              r_key_bytes = key_bytes, r_op = op, r_value_hash = value_hash,
              r_value_bytes = value_bytes \<rparr>))))))))))))))"

section \<open>Header, writer\<close>

definition wal_header :: bytes where
  "wal_header = WAL_MAGIC @ [WAL_FORMAT_VERSION, 0, 0, 0]"

text \<open>Reads and checks the header; the result is the rest of the file.\<close>

definition read_and_validate_header :: "bytes \<Rightarrow> bytes res" where
  "read_and_validate_header file =
     (if length file < WAL_HEADER_LEN
      then Inl (CorruptRecord ''WAL file too short to contain header'')
      else if take 4 file \<noteq> WAL_MAGIC then Inl (CorruptRecord ''bad WAL magic'')
      else if file ! 4 \<noteq> WAL_FORMAT_VERSION then Inl (FormatVersion WAL_FORMAT_VERSION (file ! 4))
      else Inr (drop WAL_HEADER_LEN file))"

record WalWriter =
  w_path :: string
  w_bytes_written :: u64
  w_created_at_secs :: u64
  w_max_bytes :: u64
  w_max_age_secs :: u64

definition WalWriter_create ::
  "string \<Rightarrow> EdgestoreConfig \<Rightarrow> u64 \<Rightarrow> dir \<Rightarrow> (WalWriter \<times> dir) res" where
  "WalWriter_create path config now_secs d =
     (if fs_exists d path then Inl (Io AlreadyExists)
      else Inr (\<lparr> w_path = path, w_bytes_written = word_of_nat WAL_HEADER_LEN,
                  w_created_at_secs = now_secs, w_max_bytes = wal_max_bytes config,
                  w_max_age_secs = wal_max_age_secs config \<rparr>,
                fs_write path wal_header d))"

definition WalWriter_open :: "string \<Rightarrow> EdgestoreConfig \<Rightarrow> u64 \<Rightarrow> dir \<Rightarrow> WalWriter res" where
  "WalWriter_open path config now_secs d =
     (case fs_read d path of
        None \<Rightarrow> Inl (Io NotFound)
      | Some file \<Rightarrow>
          and_then (read_and_validate_header file) (\<lambda>_.
            Inr \<lparr> w_path = path, w_bytes_written = word_of_nat (length file),
                  w_created_at_secs = now_secs, w_max_bytes = wal_max_bytes config,
                  w_max_age_secs = wal_max_age_secs config \<rparr>))"

definition wal_frame :: "ext \<Rightarrow> WalRecord \<Rightarrow> bytes" where
  "wal_frame X record =
     (let raw = serialize_record record;
          compressed = lz4_compress X raw;
          crc = crc32c X compressed
      in u32_le crc @ u32_le (word_of_nat (length compressed)) @ compressed)"

definition WalWriter_append :: "ext \<Rightarrow> WalRecord \<Rightarrow> WalWriter \<Rightarrow> dir \<Rightarrow> WalWriter \<times> dir" where
  "WalWriter_append X record w d =
     (let frame = wal_frame X record
      in (w\<lparr>w_bytes_written := w_bytes_written w + word_of_nat (length frame)\<rparr>,
          fs_append (w_path w) frame d))"

definition saturating_sub_u64 :: "u64 \<Rightarrow> u64 \<Rightarrow> u64" where
  "saturating_sub_u64 a b = (if a < b then 0 else a - b)"

definition needs_rotation :: "WalWriter \<Rightarrow> u64 \<Rightarrow> bool" where
  "needs_rotation w now_secs \<longleftrightarrow>
     w_bytes_written w \<ge> w_max_bytes w \<or>
     saturating_sub_u64 now_secs (w_created_at_secs w) \<ge> w_max_age_secs w"

section \<open>Reader\<close>

definition WalReader_open :: "string \<Rightarrow> dir \<Rightarrow> bytes res" where
  "WalReader_open path d =
     (case fs_read d path of None \<Rightarrow> Inl (Io NotFound) | Some file \<Rightarrow> read_and_validate_header file)"

function read_records :: "ext \<Rightarrow> bytes \<Rightarrow> WalRecord list" where
  "read_records X file =
     (if length file < 8 then []
      else
        let crc_stored = u32_of_le (take 4 file);
            compressed_len = u32_of_le (take 4 (drop 4 file));
            body = drop 8 file
        in if compressed_len > MAX_COMPRESSED_LEN then []
           else if length body < unat compressed_len then []
           else
             let compressed = take (unat compressed_len) body;
                 rest = drop (unat compressed_len) body
             in if crc32c X compressed \<noteq> crc_stored then read_records X rest
                else case lz4_decompress X compressed of
                       None \<Rightarrow> read_records X rest
                     | Some raw \<Rightarrow>
                         (case deserialize_record raw of
                            Inr rec \<Rightarrow> rec # read_records X rest
                          | Inl _ \<Rightarrow> read_records X rest))"
  by pat_completeness auto
termination
  by (relation "measure (length \<circ> snd)") auto

declare read_records.simps [simp del]

section \<open>The record layout\<close>

definition record_ok :: "WalRecord \<Rightarrow> bool" where
  "record_ok r \<longleftrightarrow> length (r_ns_bytes r) = unat (r_ns_len r) \<and> length (r_key_bytes r) < 2 ^ 32 \<and>
     length (r_value_hash r) = 32 \<and> length (r_value_bytes r) < 2 ^ 32"

lemma deserialize_serialize:
  assumes "record_ok r"
  shows "deserialize_record (serialize_record r @ rest) = Inr r"
proof -
  have "(r_op r = Put \<longrightarrow> op_byte (r_op r) = 1) \<and> (r_op r = Delete \<longrightarrow> op_byte (r_op r) = 2)"
    by (simp add: op_byte_def)
  with assms show ?thesis
    by (cases "r_op r")
       (simp_all add: deserialize_record_def serialize_record_def record_ok_def unat_u32_of_nat Let_def)
qed

text \<open>
  Decoding inverts encoding for WAL records: a record whose \<open>ns_len\<close> is the length of
  its namespace, whose hash has 32 bytes and whose key and value are shorter than 4 GiB is
  recovered exactly from its serialised bytes.
\<close>

theorem wal_record_roundtrip:
  assumes "length (r_ns_bytes r) = unat (r_ns_len r)" "length (r_value_hash r) = 32"
    and "length (r_key_bytes r) < 2 ^ 32" "length (r_value_bytes r) < 2 ^ 32"
  shows "deserialize_record (serialize_record r) = Inr r"
  using deserialize_serialize [of r "[]"] assms by (simp add: record_ok_def)

definition sample_record :: WalRecord where
  "sample_record = \<lparr> r_txid = 1, r_lsn = 2, r_timestamp = 1700000000, r_ttl = 0, r_ns_len = 2,
     r_ns_bytes = [110, 115], r_key_bytes = [107], r_op = Put, r_value_hash = replicate 32 171,
     r_value_bytes = [118] \<rparr>"

theorem wal_record_roundtrip_witness:
  "deserialize_record (serialize_record sample_record) = Inr sample_record"
proof -
  have "length (r_ns_bytes sample_record) = unat (r_ns_len sample_record)"
    "length (r_value_hash sample_record) = 32"
    "length (r_key_bytes sample_record) < 2 ^ 32" "length (r_value_bytes sample_record) < 2 ^ 32"
    by (simp_all add: sample_record_def)
  then show ?thesis by (rule wal_record_roundtrip)
qed

section \<open>The log as a sequence of frames\<close>

definition wal_log :: "ext \<Rightarrow> WalRecord list \<Rightarrow> bytes" where
  "wal_log X rs = concat (map (wal_frame X) rs)"

definition frame_ok :: "ext \<Rightarrow> WalRecord \<Rightarrow> bool" where
  "frame_ok X r \<longleftrightarrow> record_ok r \<and>
     length (lz4_compress X (serialize_record r)) \<le> 64 * 1024 * 1024"

text \<open>What the reader makes of a payload whose checksum is right.\<close>

definition decode_payload :: "ext \<Rightarrow> bytes \<Rightarrow> WalRecord option" where
  "decode_payload X compressed =
     (case lz4_decompress X compressed of
        None \<Rightarrow> None
      | Some raw \<Rightarrow> (case deserialize_record raw of Inr r \<Rightarrow> Some r | Inl _ \<Rightarrow> None))"

abbreviation wal_payload :: "ext \<Rightarrow> WalRecord \<Rightarrow> bytes" where
  "wal_payload X r \<equiv> lz4_compress X (serialize_record r)"

lemma wal_log_frames: "wal_log X rs = frames (crc32c X) (map (wal_payload X) rs)"
proof -
  have "wal_frame X = checked_frame (crc32c X) \<circ> wal_payload X"
    by (simp add: fun_eq_iff checked_frame_def raw_frame_def wal_frame_def Let_def)
  then show ?thesis by (simp add: wal_log_def frames_def)
qed

lemma wal_log_simps [simp]:
  "wal_log X [] = []" "wal_log X (rs @ rs') = wal_log X rs @ wal_log X rs'"
  by (simp_all add: wal_log_def)

lemma MAX_COMPRESSED_LEN_unat: "unat MAX_COMPRESSED_LEN = 64 * 1024 * 1024"
  by (simp add: MAX_COMPRESSED_LEN_def)

lemma read_records_payloads:
  "read_records X buf =
     List.map_filter (decode_payload X) (payloads (crc32c X) (64 * 1024 * 1024) buf)"
proof (induction buf rule: length_induct)
  case (1 buf)
  let ?len = "u32_of_le (take 4 (drop 4 buf))"
  let ?rest = "drop (unat ?len) (drop 8 buf)"
  have max: "MAX_COMPRESSED_LEN < ?len \<longleftrightarrow> 64 * 1024 * 1024 < unat ?len"
    by (simp only: word_less_nat_alt MAX_COMPRESSED_LEN_unat)
  show ?case
  proof (cases "length buf < 8 \<or> MAX_COMPRESSED_LEN < ?len \<or> length (drop 8 buf) < unat ?len")
    case True
    then show ?thesis unfolding read_records.simps [of X buf] payloads.simps [of _ _ buf] Let_def max
      by (elim disjE) (simp_all add: List.map_filter_simps)
  next
    case False
    then have "length ?rest < length buf" by auto
    with 1 have ih: "read_records X ?rest =
        List.map_filter (decode_payload X) (payloads (crc32c X) (64 * 1024 * 1024) ?rest)" by blast
    from False show ?thesis
      unfolding read_records.simps [of X buf] payloads.simps [of _ _ buf] Let_def max ih
      by (simp add: List.map_filter_simps decode_payload_def [of X "take (unat ?len) (drop 8 buf)"]
            split: option.split sum.split)
  qed
qed

lemma decode_frame_ok:
  assumes "lz4_ok X" "frame_ok X r"
  shows "decode_payload X (wal_payload X r) = Some r"
  using assms deserialize_serialize [of r "[]"]
  by (simp add: decode_payload_def frame_ok_def lz4_ok_def)

lemma decode_frames_ok:
  assumes "lz4_ok X"
  shows "\<forall>r \<in> set rs. frame_ok X r \<Longrightarrow> List.map_filter (decode_payload X) (map (wal_payload X) rs @ ps) =
           rs @ List.map_filter (decode_payload X) ps"
  by (induction rs) (simp_all add: List.map_filter_simps decode_frame_ok assms)

lemma frames_bounded:
  "\<forall>r \<in> set rs. frame_ok X r \<Longrightarrow> \<forall>p \<in> set (map (wal_payload X) rs). length p \<le> 64 * 1024 * 1024"
  by (simp add: frame_ok_def)

lemma read_records_log:
  assumes "lz4_ok X" "\<forall>r \<in> set rs. frame_ok X r"
  shows "read_records X (wal_log X rs @ rest) = rs @ read_records X rest"
  using payloads_frames [OF _ frames_bounded [OF assms(2)]]
  by (simp add: read_records_payloads wal_log_frames decode_frames_ok assms)

lemma read_records_nil [simp]: "read_records X [] = []"
  by (simp add: read_records.simps)

lemma read_records_truncated:
  assumes "lz4_ok X" "\<forall>r \<in> set rs. frame_ok X r"
  shows "\<exists>m \<le> length rs. read_records X (take n (wal_log X rs)) = take m rs \<and>
           length (wal_log X (take m rs)) \<le> n \<and>
           (m < length rs \<longrightarrow> n < length (wal_log X (take (Suc m) rs)))"
proof -
  obtain k where k: "k \<le> length rs"
    "payloads (crc32c X) 67108864 (take n (wal_log X rs)) = map (wal_payload X) (take k rs)"
    "length (wal_log X (take k rs)) \<le> n"
    "k < length rs \<longrightarrow> n < length (wal_log X (take (Suc k) rs))"
    using payloads_truncated [OF _ frames_bounded [OF assms(2)], of "crc32c X" n]
    by (auto simp: wal_log_frames take_map)
  have "\<forall>r \<in> set (take k rs). frame_ok X r" using assms(2) by (meson in_set_takeD)
  then have "read_records X (take n (wal_log X rs)) = take k rs"
    using decode_frames_ok [OF assms(1), of "take k rs" "[]"]
    by (simp add: read_records_payloads k(2) List.map_filter_simps)
  with k show ?thesis by blast
qed

text \<open>
  The log survives a torn write. If a crash leaves only the first \<open>n\<close> bytes of the frames
  of records \<open>rs\<close>, reading the log returns a prefix of \<open>rs\<close>, namely exactly the records whose
  frames lie completely within those \<open>n\<close> bytes.
\<close>

theorem wal_read_truncated_log:
  assumes "lz4_ok X"
    and "\<forall>r \<in> set rs. record_ok r \<and> length (lz4_compress X (serialize_record r)) \<le> 64 * 1024 * 1024"
  shows "\<exists>m \<le> length rs. read_records X (take n (wal_log X rs)) = take m rs \<and>
           length (wal_log X (take m rs)) \<le> n \<and>
           (m < length rs \<longrightarrow> n < length (wal_log X (take (Suc m) rs)))"
  using read_records_truncated [OF assms(1), of rs n] assms(2) by (simp add: frame_ok_def)

theorem wal_read_truncated_log_witness:
  "\<exists>m \<le> length [sample_record, sample_record].
     read_records sample_ext (take 100 (wal_log sample_ext [sample_record, sample_record])) =
       take m [sample_record, sample_record] \<and>
     length (wal_log sample_ext (take m [sample_record, sample_record])) \<le> 100 \<and>
     (m < length [sample_record, sample_record] \<longrightarrow>
        100 < length (wal_log sample_ext (take (Suc m) [sample_record, sample_record])))"
  by (rule wal_read_truncated_log [OF sample_laws(1)])
     (simp add: record_ok_def sample_record_def sample_ext_def serialize_record_def)

text \<open>
  A frame whose checksum does not match its payload is skipped and costs only itself: the
  records before and after it are all read.
\<close>

theorem wal_read_skips_corrupt_frame:
  assumes "lz4_ok X" "\<forall>r \<in> set (rs @ rs'). frame_ok X r"
    and "crc32c X payload \<noteq> crc" "length payload \<le> 64 * 1024 * 1024"
  shows "read_records X (wal_log X rs @ raw_frame crc payload @ wal_log X rs') = rs @ rs'"
proof -
  have "read_records X (raw_frame crc payload @ wal_log X rs') = read_records X (wal_log X rs')"
    using assms(3,4) by (simp add: read_records_payloads payloads_raw_frame)
  with assms read_records_log [OF assms(1), of rs' "[]"] show ?thesis by (simp add: read_records_log)
qed

lemma sample_frame_ok: "frame_ok sample_ext sample_record"
  by (simp add: frame_ok_def record_ok_def sample_record_def sample_ext_def serialize_record_def)

theorem wal_read_skips_corrupt_frame_witness:
  "read_records sample_ext (wal_log sample_ext [sample_record] @ raw_frame 9 [1, 2, 3] @
     wal_log sample_ext [sample_record]) = [sample_record] @ [sample_record]"
  by (rule wal_read_skips_corrupt_frame)
     (simp_all add: sample_frame_ok, simp_all add: sample_ext_def)

text \<open>
  C30: A record whose compressed payload is larger than 64 MiB is written without complaint but
  stops the reader: neither it nor anything that was appended after it is read back.
\<close>

theorem wal_oversized_record_hides_the_rest:
  assumes "lz4_ok X" "\<forall>r \<in> set rs. frame_ok X r"
    and "64 * 1024 * 1024 < length (lz4_compress X (serialize_record big))"
    and "length (lz4_compress X (serialize_record big)) < 2 ^ 32"
  shows "read_records X (wal_log X (rs @ [big] @ rs')) = rs"
proof -
  have "read_records X (wal_log X [big] @ rest) = []" for rest
    using payloads_oversized [OF assms(3)] assms(4)
    by (simp add: read_records_payloads wal_log_frames checked_frame_def List.map_filter_simps)
  then show ?thesis
    using read_records_log [OF assms(1,2)] by (simp only: wal_log_simps append_Nil2)
qed

text \<open>
  The witness uses a codec with a tag byte that stores inputs of 76 bytes with more than
  64 MiB of padding and every other input as it is.
\<close>

definition padding_ext :: ext where
  "padding_ext = sample_ext\<lparr>
     lz4_compress := (\<lambda>b. if length b = 76 then 1 # b @ replicate 100000000 0 else 0 # b),
     lz4_decompress := (\<lambda>c. case c of [] \<Rightarrow> None
                                    | t # b \<Rightarrow> Some (if t = 1 then take 76 b else b))\<rparr>"

lemma padding_lz4_ok: "lz4_ok padding_ext"
  by (simp add: lz4_ok_def padding_ext_def)

theorem wal_oversized_record_hides_the_rest_witness:
  "read_records padding_ext (wal_log padding_ext
     ([sample_record] @ [sample_record\<lparr>r_value_bytes := [1, 2]\<rparr>] @ [sample_record])) = [sample_record]"
  by (rule wal_oversized_record_hides_the_rest [OF padding_lz4_ok])
     (simp_all add: frame_ok_def record_ok_def sample_record_def padding_ext_def serialize_record_def)

end
