(* ===== verification/Memtable.thy ===== *)
theory Memtable
  imports Types
begin

text \<open>
  The in-memory tables of \<open>edgestore/src/memtable.rs\<close>. The trait \<open>MemTable\<close> is the locale
  \<open>memtable\<close>: what every implementation promises, stated against the ordered list that
  \<open>iter\<close> returns. \<open>BTreeMemTable\<close> is modelled over \<open>std::collections::BTreeMap\<close>, which is an
  association list with increasing keys. \<open>BBTreeConcurrentMemTable\<close> sits on the external
  crate \<open>bbtree\<close>; its operations are the fields of a record the definitions take as an
  argument, and what the wrapper relies on is the predicate \<open>bbtree_ok\<close>.
\<close>

section \<open>BTreeMemTable\<close>

type_synonym BTreeMemTable = "kv list"

definition BTreeMemTable_new :: BTreeMemTable where
  "BTreeMemTable_new = []"

fun btree_insert :: "bytes \<Rightarrow> MemEntry \<Rightarrow> BTreeMemTable \<Rightarrow> BTreeMemTable" where
  "btree_insert k e [] = [(k, e)]"
| "btree_insert k e ((k', e') # t) =
     (if k < k' then (k, e) # (k', e') # t
      else if k = k' then (k, e) # t
      else (k', e') # btree_insert k e t)"

definition btree_get :: "BTreeMemTable \<Rightarrow> bytes \<Rightarrow> MemEntry option" where
  "btree_get t k = map_of t k"

text \<open>\<open>BTreeMap::range\<close> panics when the start of the range is beyond its end.\<close>

definition btree_range :: "BTreeMemTable \<Rightarrow> bytes \<Rightarrow> bytes \<Rightarrow> kv list res" where
  "btree_range t start end =
     (if end < start then Inl (Panic ''range start is greater than range end in BTreeMap'')
      else Inr (filter (\<lambda>(k, e). start \<le> k \<and> k < end) t))"

definition btree_prefix :: "BTreeMemTable \<Rightarrow> bytes \<Rightarrow> kv list" where
  "btree_prefix t p =
     takeWhile (\<lambda>(k, e). starts_with k p) (filter (\<lambda>(k, e). p \<le> k) t)"

definition btree_iter :: "BTreeMemTable \<Rightarrow> kv list" where
  "btree_iter t = t"

definition btree_len :: "BTreeMemTable \<Rightarrow> usize" where
  "btree_len t = length t"

definition btree_clear :: "BTreeMemTable \<Rightarrow> BTreeMemTable" where
  "btree_clear t = []"

definition btree_is_empty :: "BTreeMemTable \<Rightarrow> bool" where
  "btree_is_empty t \<longleftrightarrow> btree_len t = 0"

section \<open>BBTreeConcurrentMemTable\<close>

text \<open>
  What the wrapper uses of \<open>bbtree::BBTreeMap\<close>: \<open>bb_insert\<close> returns the new tree and the value
  it replaced, or \<open>None\<close> when allocation fails; \<open>bb_scan\<close> returns the pairs between an
  inclusive lower and an exclusive upper bound in the order in which the callback sees them.
\<close>

record 't bbtree =
  bb_new :: 't
  bb_insert :: "bytes \<Rightarrow> MemEntry \<Rightarrow> 't \<Rightarrow> ('t \<times> MemEntry option) option"
  bb_get_cloned :: "'t \<Rightarrow> bytes \<Rightarrow> MemEntry option"
  bb_scan :: "'t \<Rightarrow> bytes option \<Rightarrow> bytes option \<Rightarrow> kv list"

record 't BBTreeConcurrentMemTable =
  bbc_inner :: 't
  bbc_count :: usize

definition bbc_new :: "'t bbtree \<Rightarrow> 't BBTreeConcurrentMemTable" where
  "bbc_new B = \<lparr> bbc_inner = bb_new B, bbc_count = 0 \<rparr>"

definition bbc_insert ::
  "'t bbtree \<Rightarrow> bytes \<Rightarrow> MemEntry \<Rightarrow> 't BBTreeConcurrentMemTable \<Rightarrow> 't BBTreeConcurrentMemTable res" where
  "bbc_insert B k e t =
     (case bb_insert B k e (bbc_inner t) of
        Some (t', None) \<Rightarrow> Inr (t\<lparr>bbc_inner := t', bbc_count := bbc_count t + 1\<rparr>)
      | Some (t', Some _) \<Rightarrow> Inr (t\<lparr>bbc_inner := t'\<rparr>)
      | None \<Rightarrow> Inl (Panic ''BBTreeConcurrentMemTable: allocation failed''))"

definition bbc_get :: "'t bbtree \<Rightarrow> 't BBTreeConcurrentMemTable \<Rightarrow> bytes \<Rightarrow> MemEntry option" where
  "bbc_get B t k = bb_get_cloned B (bbc_inner t) k"

definition bbc_range ::
  "'t bbtree \<Rightarrow> 't BBTreeConcurrentMemTable \<Rightarrow> bytes \<Rightarrow> bytes \<Rightarrow> kv list" where
  "bbc_range B t start end = bb_scan B (bbc_inner t) (Some start) (Some end)"

text \<open>The callback of \<open>prefix\<close> breaks at the first key without the prefix.\<close>

fun bbc_prefix_scan :: "bytes \<Rightarrow> kv list \<Rightarrow> kv list" where
  "bbc_prefix_scan p [] = []"
| "bbc_prefix_scan p ((k, e) # rest) =
     (if \<not> starts_with k p then [] else (k, e) # bbc_prefix_scan p rest)"

definition bbc_prefix :: "'t bbtree \<Rightarrow> 't BBTreeConcurrentMemTable \<Rightarrow> bytes \<Rightarrow> kv list" where
  "bbc_prefix B t p = bbc_prefix_scan p (bb_scan B (bbc_inner t) (Some p) None)"

definition bbc_iter :: "'t bbtree \<Rightarrow> 't BBTreeConcurrentMemTable \<Rightarrow> kv list" where
  "bbc_iter B t = bb_scan B (bbc_inner t) None None"

definition bbc_len :: "'t BBTreeConcurrentMemTable \<Rightarrow> usize" where
  "bbc_len t = bbc_count t"

definition bbc_clear ::
  "'t bbtree \<Rightarrow> 't BBTreeConcurrentMemTable \<Rightarrow> 't BBTreeConcurrentMemTable" where
  "bbc_clear B t = t\<lparr>bbc_inner := bb_new B, bbc_count := 0\<rparr>"

section \<open>The interface\<close>

locale memtable =
  fixes new :: "'t"
    and insert :: "bytes \<Rightarrow> MemEntry \<Rightarrow> 't \<Rightarrow> 't res"
    and get :: "'t \<Rightarrow> bytes \<Rightarrow> MemEntry option"
    and range :: "'t \<Rightarrow> bytes \<Rightarrow> bytes \<Rightarrow> kv list res"
    and prefix :: "'t \<Rightarrow> bytes \<Rightarrow> kv list"
    and iter :: "'t \<Rightarrow> kv list"
    and len :: "'t \<Rightarrow> usize"
    and inv :: "'t \<Rightarrow> bool"
  assumes inv_new: "inv new"
    and iter_new: "iter new = []"
    and inv_insert: "inv t \<Longrightarrow> insert k e t = Inr t' \<Longrightarrow> inv t'"
    and iter_insert: "inv t \<Longrightarrow> insert k e t = Inr t' \<Longrightarrow>
           map_of (iter t') = (map_of (iter t))(k \<mapsto> e)"
    and iter_sorted: "inv t \<Longrightarrow> ksorted (iter t)"
    and get_iter: "inv t \<Longrightarrow> get t k = map_of (iter t) k"
    and range_iter: "inv t \<Longrightarrow> a \<le> b \<Longrightarrow>
           range t a b = Inr (filter (\<lambda>(k, e). a \<le> k \<and> k < b) (iter t))"
    and prefix_iter: "inv t \<Longrightarrow> prefix t p = filter (\<lambda>(k, e). starts_with k p) (iter t)"
    and len_iter: "inv t \<Longrightarrow> len t = length (iter t)"
begin

fun insert_all :: "kv list \<Rightarrow> 't \<Rightarrow> 't res" where
  "insert_all [] t = Inr t"
| "insert_all ((k, e) # es) t = and_then (insert k e t) (insert_all es)"

lemma get_insert:
  "inv t \<Longrightarrow> insert k e t = Inr t' \<Longrightarrow> get t' x = (if x = k then Some e else get t x)"
  by (simp add: get_iter inv_insert iter_insert)

lemma insert_all_spec:
  "inv t \<Longrightarrow> insert_all es t = Inr t' \<Longrightarrow>
   inv t' \<and> map_of (iter t') = map_of (iter t) ++ map_of (rev es)"
proof (induction es arbitrary: t)
  case Nil
  then show ?case by simp
next
  case (Cons x es)
  obtain k e where x: "x = (k, e)" by (cases x)
  with Cons.prems obtain u where u: "insert k e t = Inr u" "insert_all es u = Inr t'"
    by (auto simp: and_then_Inr_iff)
  with Cons inv_insert have "inv t' \<and> map_of (iter t') = map_of (iter u) ++ map_of (rev es)"
    by blast
  moreover have "map_of (iter u) = (map_of (iter t))(k \<mapsto> e)"
    using iter_insert Cons.prems u by blast
  ultimately show ?case by (simp add: x map_add_assoc)
qed

lemma range_mem:
  "inv t \<Longrightarrow> a \<le> b \<Longrightarrow> range t a b = Inr xs \<Longrightarrow>
   (k, e) \<in> set xs \<longleftrightarrow> get t k = Some e \<and> a \<le> k \<and> k < b"
  using range_iter [of t a b] iter_sorted [of t]
  by (auto simp: get_iter ksorted_map_of_iff)

lemma prefix_mem:
  "inv t \<Longrightarrow> (k, e) \<in> set (prefix t p) \<longleftrightarrow> get t k = Some e \<and> starts_with k p"
  using iter_sorted [of t] by (auto simp: prefix_iter get_iter ksorted_map_of_iff)

lemma same_content_same_iter:
  "inv t \<Longrightarrow> inv u \<Longrightarrow> get t = get u \<Longrightarrow> iter t = iter u"
  using iter_sorted get_iter by (intro ksorted_map_of_unique) (auto simp: fun_eq_iff)

end

section \<open>BTreeMemTable implements the interface\<close>

lemma btree_insert_keys: "set (map fst (btree_insert k e t)) = insert k (set (map fst t))"
  by (induction k e t rule: btree_insert.induct) auto

lemma btree_insert_sorted: "ksorted t \<Longrightarrow> ksorted (btree_insert k e t)"
proof (induction k e t rule: btree_insert.induct)
  case (1 k e)
  then show ?case by simp
next
  case (2 k e k' e' t)
  show ?case
  proof (cases "k' < k")
    case True
    then have nk: "\<not> k < k'" "k \<noteq> k'" by auto
    with 2 have "ksorted (btree_insert k e t)" by simp
    moreover have "\<forall>x \<in> set (map fst (btree_insert k e t)). k' < x"
      using 2(2) True unfolding btree_insert_keys by auto
    ultimately show ?thesis using nk by auto
  next
    case False
    with 2 show ?thesis by (auto intro: less_trans)
  qed
qed

lemma btree_insert_map_of: "map_of (btree_insert k e t) = (map_of t)(k \<mapsto> e)"
  by (induction k e t rule: btree_insert.induct) (auto simp: fun_eq_iff)

lemma starts_with_le: "starts_with k (p :: bytes) \<Longrightarrow> p \<le> k"
  by (auto simp: starts_with_iff)

lemma starts_with_convex:
  fixes p :: bytes
  assumes "p \<le> k" "k \<le> k'" "starts_with k' p"
  shows "starts_with k p"
proof -
  from assms(3) obtain r where r: "k' = p @ r" by (auto simp: starts_with_iff)
  show ?thesis
  proof (cases "k = k'")
    case False
    with assms r have "k < p @ r" by simp
    with assms(1) obtain s where "k = p @ s" using between_append [of p "[]"] by auto
    then show ?thesis by simp
  qed (use assms in simp)
qed

lemma takeWhile_prefix:
  assumes "ksorted t"
  shows "takeWhile (\<lambda>(k, e). starts_with k (p :: bytes)) (filter (\<lambda>(k, e). p \<le> k) t) =
         filter (\<lambda>(k, e). starts_with k p) t"
  using assms
proof (induction t)
  case Nil
  then show ?case by simp
next
  case (Cons x t)
  obtain k e where x: "x = (k, e)" by (cases x)
  show ?case
  proof (cases "p \<le> k \<and> \<not> starts_with k p")
    case True
    have "\<not> starts_with k' p" if "(k', e') \<in> set t" for k' e'
      using starts_with_convex [of p k k'] True Cons.prems that x by fastforce
    then have "filter (\<lambda>(k, e). starts_with k p) t = []" by (auto simp: filter_empty_conv)
    with True x show ?thesis by simp
  next
    case False
    with Cons x starts_with_le show ?thesis by auto
  qed
qed

interpretation btree: memtable BTreeMemTable_new "\<lambda>k e t. Inr (btree_insert k e t)" btree_get
  btree_range btree_prefix btree_iter btree_len ksorted
proof (unfold_locales, goal_cases)
  case (5 t)
  then show ?case by (simp add: btree_iter_def)
next
  case (7 t a b)
  then show ?case by (auto simp: btree_range_def btree_iter_def)
next
  case (8 t p)
  then show ?case by (simp add: btree_prefix_def btree_iter_def takeWhile_prefix)
qed (auto simp: BTreeMemTable_new_def btree_iter_def btree_get_def btree_len_def
       btree_insert_sorted btree_insert_map_of)

section \<open>BBTreeConcurrentMemTable implements it over a correct tree\<close>

text \<open>
  What the wrapper relies on: the tree behaves as an ordered map. \<open>I\<close> is the tree's own
  invariant.
\<close>

definition bbtree_ok :: "'t bbtree \<Rightarrow> ('t \<Rightarrow> bool) \<Rightarrow> bool" where
  "bbtree_ok B I \<longleftrightarrow>
     I (bb_new B) \<and> bb_scan B (bb_new B) None None = [] \<and>
     (\<forall>t. I t \<longrightarrow> ksorted (bb_scan B t None None) \<and>
        (\<forall>k. bb_get_cloned B t k = map_of (bb_scan B t None None) k) \<and>
        (\<forall>lo hi. bb_scan B t lo hi =
           filter (\<lambda>(k, e). (\<forall>a. lo = Some a \<longrightarrow> a \<le> k) \<and> (\<forall>b. hi = Some b \<longrightarrow> k < b))
                  (bb_scan B t None None)) \<and>
        (\<forall>k e t' old. bb_insert B k e t = Some (t', old) \<longrightarrow>
           I t' \<and> old = bb_get_cloned B t k \<and>
           map_of (bb_scan B t' None None) = (map_of (bb_scan B t None None))(k \<mapsto> e)))"

definition bbc_inv :: "'t bbtree \<Rightarrow> ('t \<Rightarrow> bool) \<Rightarrow> 't BBTreeConcurrentMemTable \<Rightarrow> bool" where
  "bbc_inv B I t \<longleftrightarrow> I (bbc_inner t) \<and> bbc_count t = length (bbc_iter B t)"

lemma bbc_prefix_scan_takeWhile:
  "bbc_prefix_scan p xs = takeWhile (\<lambda>(k, e). starts_with k p) xs"
  by (induction p xs rule: bbc_prefix_scan.induct) auto

lemma ksorted_length_dom: "ksorted xs \<Longrightarrow> length xs = card (dom (map_of xs))"
  by (metis distinct_card dom_map_of_conv_image_fst ksorted_distinct length_map set_map)

lemma ksorted_length_upd:
  assumes "ksorted xs" "ksorted ys" "map_of ys = (map_of xs)(k \<mapsto> e)"
  shows "length ys = length xs + (if map_of xs k = None then 1 else 0)"
proof -
  have "dom (map_of ys) = insert k (dom (map_of xs))" using assms(3) by simp
  then show ?thesis
    using assms(1,2) by (auto simp: ksorted_length_dom finite_dom_map_of card_insert_if)
qed

lemma bbtree_okD:
  assumes "bbtree_ok B I" "I t"
  shows "ksorted (bb_scan B t None None)"
    and "bb_get_cloned B t k = map_of (bb_scan B t None None) k"
    and "bb_scan B t (Some a) hi = filter (\<lambda>(k, e). a \<le> k \<and> (\<forall>b. hi = Some b \<longrightarrow> k < b))
           (bb_scan B t None None)"
    and "bb_insert B k e t = Some (t', old) \<Longrightarrow> I t' \<and> old = map_of (bb_scan B t None None) k \<and>
           map_of (bb_scan B t' None None) = (map_of (bb_scan B t None None))(k \<mapsto> e)"
proof -
  note ok = assms(1) [unfolded bbtree_ok_def, THEN conjunct2, THEN conjunct2, rule_format, OF assms(2)]
  note scan = ok [THEN conjunct2, THEN conjunct2, THEN conjunct1, rule_format]
  note ins = ok [THEN conjunct2, THEN conjunct2, THEN conjunct2, rule_format]
  show "ksorted (bb_scan B t None None)" by (rule ok [THEN conjunct1])
  show get: "bb_get_cloned B t k = map_of (bb_scan B t None None) k" for k
    by (rule ok [THEN conjunct2, THEN conjunct1, rule_format])
  show "bb_insert B k e t = Some (t', old) \<Longrightarrow> I t' \<and> old = map_of (bb_scan B t None None) k \<and>
           map_of (bb_scan B t' None None) = (map_of (bb_scan B t None None))(k \<mapsto> e)"
    using ins [of k e t' old] by (simp add: get)
  show "bb_scan B t (Some a) hi = filter (\<lambda>(k, e). a \<le> k \<and> (\<forall>b. hi = Some b \<longrightarrow> k < b))
           (bb_scan B t None None)" by (subst scan) simp
qed

lemma bbc_insert_spec:
  assumes "bbtree_ok B I" "bbc_inv B I t" "bbc_insert B k e t = Inr t'"
  shows "bbc_inv B I t' \<and> map_of (bbc_iter B t') = (map_of (bbc_iter B t))(k \<mapsto> e)"
proof -
  let ?u = "bbc_inner t"
  have I: "I ?u" and cnt: "bbc_count t = length (bb_scan B ?u None None)"
    using assms(2) by (auto simp: bbc_inv_def bbc_iter_def)
  from assms(3) obtain u' old where ins: "bb_insert B k e ?u = Some (u', old)"
    by (auto simp: bbc_insert_def split: option.splits)
  note d = bbtree_okD(4) [OF assms(1) I ins]
  have s: "ksorted (bb_scan B ?u None None)" "ksorted (bb_scan B u' None None)"
    using bbtree_okD(1) [OF assms(1)] I d by auto
  have len: "length (bb_scan B u' None None) =
      length (bb_scan B ?u None None) + (if old = None then 1 else 0)"
    using ksorted_length_upd [OF s] d by simp
  have t': "bbc_inner t' = u'" "bbc_count t' = bbc_count t + (if old = None then 1 else 0)"
    using assms(3) ins by (auto simp: bbc_insert_def split: option.splits)
  with d len cnt show ?thesis by (simp add: bbc_inv_def bbc_iter_def)
qed

text \<open>
  \<open>BBTreeConcurrentMemTable\<close> keeps the contract of the \<open>MemTable\<close> trait whenever the tree
  underneath behaves as an ordered map: its counter is the number of entries, an insert is
  a map update, and \<open>get\<close>, \<open>range\<close>, \<open>prefix\<close>, \<open>iter\<close> and \<open>len\<close> are views of one ordered list.
\<close>

theorem bbc_implements_memtable:
  assumes "bbtree_ok B I"
  shows "memtable (bbc_new B) (bbc_insert B) (bbc_get B) (\<lambda>t a b. Inr (bbc_range B t a b))
           (bbc_prefix B) (bbc_iter B) bbc_len (bbc_inv B I)"
proof (unfold_locales, goal_cases)
  case 1
  then show ?case using assms by (simp add: bbc_inv_def bbc_new_def bbc_iter_def bbtree_ok_def)
next
  case 2
  then show ?case using assms by (simp add: bbc_new_def bbc_iter_def bbtree_ok_def)
next
  case 3
  then show ?case using bbc_insert_spec [OF assms] by blast
next
  case 4
  then show ?case using bbc_insert_spec [OF assms] by blast
next
  case (5 t)
  then show ?case using bbtree_okD(1) [OF assms] by (simp add: bbc_inv_def bbc_iter_def)
next
  case (6 t k)
  then show ?case using bbtree_okD(2) [OF assms] by (simp add: bbc_inv_def bbc_iter_def bbc_get_def)
next
  case (7 t a b)
  then show ?case using bbtree_okD(3) [OF assms]
    by (simp add: bbc_inv_def bbc_iter_def bbc_range_def)
next
  case (8 t p)
  then show ?case using bbtree_okD(1,3) [OF assms]
    by (simp add: bbc_inv_def bbc_iter_def bbc_prefix_def bbc_prefix_scan_takeWhile takeWhile_prefix)
next
  case (9 t)
  then show ?case by (simp add: bbc_inv_def bbc_len_def)
qed

text \<open>
  Seen through \<open>iter\<close>, the operations of \<open>BBTreeConcurrentMemTable\<close>, which configurations choose by
  default, are those of \<open>BTreeMemTable\<close>: what the engine does over the one it does over the other.
  Only a range with its start behind its end differs, on which \<open>BTreeMap\<close> panics.
\<close>

lemma bbc_simulates_btree:
  assumes "bbtree_ok B I" "bbc_inv B I t"
  shows "bbc_iter B (bbc_new B) = BTreeMemTable_new"
    and "bbc_insert B k e t = Inr t' \<Longrightarrow> bbc_inv B I t' \<and> bbc_iter B t' = btree_insert k e (bbc_iter B t)"
    and "bbc_get B t x = btree_get (bbc_iter B t) x"
    and "a \<le> b \<Longrightarrow> Inr (bbc_range B t a b) = btree_range (bbc_iter B t) a b"
    and "bbc_prefix B t p = btree_prefix (bbc_iter B t) p"
    and "bbc_len t = btree_len (bbc_iter B t)"
    and "bbc_iter B (bbc_clear B t) = btree_clear (bbc_iter B t)"
proof -
  note bbc = bbc_implements_memtable [OF assms(1)]
  note sorted = memtable.iter_sorted [OF bbc]
  show "bbc_iter B (bbc_new B) = BTreeMemTable_new" using memtable.iter_new [OF bbc] by (simp add: BTreeMemTable_new_def)
  show "bbc_inv B I t' \<and> bbc_iter B t' = btree_insert k e (bbc_iter B t)" if "bbc_insert B k e t = Inr t'"
    using bbc_insert_spec [OF assms that] sorted assms(2)
    by (auto intro!: ksorted_map_of_unique simp: btree_insert_sorted btree_insert_map_of)
  show "bbc_get B t x = btree_get (bbc_iter B t) x" using memtable.get_iter [OF bbc assms(2)] by (simp add: btree_get_def)
  show "Inr (bbc_range B t a b) = btree_range (bbc_iter B t) a b" if "a \<le> b"
    using memtable.range_iter [OF bbc assms(2) that] btree.range_iter [OF sorted [OF assms(2)] that] by (simp add: btree_iter_def)
  show "bbc_prefix B t p = btree_prefix (bbc_iter B t) p"
    using memtable.prefix_iter [OF bbc assms(2)] btree.prefix_iter [OF sorted [OF assms(2)]] by (simp add: btree_iter_def)
  show "bbc_len t = btree_len (bbc_iter B t)" using memtable.len_iter [OF bbc assms(2)] by (simp add: btree_len_def)
  show "bbc_iter B (bbc_clear B t) = btree_clear (bbc_iter B t)"
    using memtable.iter_new [OF bbc] by (simp add: bbc_clear_def bbc_new_def bbc_iter_def btree_clear_def)
qed

text \<open>A concrete tree for the witness: the ordered association list itself.\<close>

definition alist_bbtree :: "kv list bbtree" where
  "alist_bbtree = \<lparr>
     bb_new = [],
     bb_insert = (\<lambda>k e t. Some (btree_insert k e t, map_of t k)),
     bb_get_cloned = map_of,
     bb_scan = (\<lambda>t lo hi. filter (\<lambda>(k, e).
       (case lo of None \<Rightarrow> True | Some a \<Rightarrow> a \<le> k) \<and> (case hi of None \<Rightarrow> True | Some b \<Rightarrow> k < b)) t) \<rparr>"

lemma alist_bbtree_ok: "bbtree_ok alist_bbtree ksorted"
  by (auto simp: bbtree_ok_def alist_bbtree_def btree_insert_sorted btree_insert_map_of
      intro!: filter_cong split: option.splits)

theorem bbc_implements_memtable_witness:
  "bbtree_ok alist_bbtree ksorted \<and>
   memtable (bbc_new alist_bbtree) (bbc_insert alist_bbtree) (bbc_get alist_bbtree)
     (\<lambda>t a b. Inr (bbc_range alist_bbtree t a b)) (bbc_prefix alist_bbtree) (bbc_iter alist_bbtree)
     bbc_len (bbc_inv alist_bbtree ksorted)"
  using alist_bbtree_ok bbc_implements_memtable [OF alist_bbtree_ok] by blast

end
