(* ===== verification/Recovery.thy ===== *)
theory Recovery
  imports Wal Memtable
begin

text \<open>
  Crash recovery, \<open>edgestore/src/recovery.rs\<close>: which files of a directory are logs, the order
  in which they are replayed, and the replay of their records into a memtable.
\<close>

section \<open>The log files of a directory\<close>

definition is_ascii_hexdigit :: "char \<Rightarrow> bool" where
  "is_ascii_hexdigit c \<longleftrightarrow>
     (CHR ''0'' \<le> c \<and> c \<le> CHR ''9'') \<or> (CHR ''a'' \<le> c \<and> c \<le> CHR ''f'') \<or>
     (CHR ''A'' \<le> c \<and> c \<le> CHR ''F'')"

definition is_wal_name :: "string \<Rightarrow> bool" where
  "is_wal_name name \<longleftrightarrow>
     length name = 24 \<and> starts_with name ''wal-'' \<and> drop (length name - 4) name = ''.log'' \<and>
     list_all is_ascii_hexdigit (take 16 (drop 4 name))"

definition list_wal_files :: "dir \<Rightarrow> string list" where
  "list_wal_files d = sort (filter is_wal_name (fs_names d))"

text \<open>The name the engine gives to the log whose first record has a given LSN: \<open>wal-{:016x}.log\<close>.\<close>

definition wal_file_name :: "Lsn \<Rightarrow> string" where
  "wal_file_name lsn = ''wal-'' @ pad_left 16 (show_base 16 (unat lsn)) @ ''.log''"

section \<open>Replay\<close>

record RecoveryResult =
  rr_records_replayed :: u64
  rr_records_skipped :: u64
  rr_max_lsn :: Lsn
  rr_max_txid :: u64
  rr_wal_files_read :: usize

definition record_entry :: "bytes \<Rightarrow> WalRecord \<Rightarrow> MemEntry" where
  "record_entry encoded_key record =
     \<lparr> e_key = encoded_key,
       e_value = (if r_op record = Put then Some (r_value_bytes record) else None),
       e_op = r_op record, e_lsn = r_lsn record, e_timestamp = r_timestamp record,
       e_ttl = r_ttl record \<rparr>"

fun replay_records ::
  "WalRecord list \<Rightarrow> BTreeMemTable \<times> RecoveryResult \<Rightarrow> (BTreeMemTable \<times> RecoveryResult) res" where
  "replay_records [] st = Inr st"
| "replay_records (record # records) (mt, rr) =
     and_then (encode_key (r_ns_bytes record) (r_key_bytes record)) (\<lambda>encoded_key.
       replay_records records
         (btree_insert encoded_key (record_entry encoded_key record) mt,
          rr\<lparr>rr_max_lsn := (if r_lsn record > rr_max_lsn rr then r_lsn record else rr_max_lsn rr),
             rr_max_txid := (if r_txid record > rr_max_txid rr then r_txid record else rr_max_txid rr),
             rr_records_replayed := rr_records_replayed rr + 1\<rparr>))"

fun replay_files ::
  "ext \<Rightarrow> dir \<Rightarrow> string list \<Rightarrow> BTreeMemTable \<times> RecoveryResult \<Rightarrow>
   (BTreeMemTable \<times> RecoveryResult) res" where
  "replay_files X d [] st = Inr st"
| "replay_files X d (wal_path # wal_files) (mt, rr) =
     (case WalReader_open wal_path d of
        Inr file \<Rightarrow>
          and_then (replay_records (read_records X file)
                      (mt, rr\<lparr>rr_wal_files_read := rr_wal_files_read rr + 1\<rparr>))
            (replay_files X d wal_files)
      | Inl e \<Rightarrow>
          (case e of
             FormatVersion _ _ \<Rightarrow>
               replay_files X d wal_files (mt, rr\<lparr>rr_records_skipped := rr_records_skipped rr + 1\<rparr>)
           | CorruptRecord _ \<Rightarrow>
               replay_files X d wal_files (mt, rr\<lparr>rr_records_skipped := rr_records_skipped rr + 1\<rparr>)
           | _ \<Rightarrow> Inl e))"

definition recover_from_wal :: "ext \<Rightarrow> dir \<Rightarrow> BTreeMemTable \<Rightarrow> (BTreeMemTable \<times> RecoveryResult) res" where
  "recover_from_wal X d mt =
     replay_files X d (list_wal_files d)
       (mt, \<lparr> rr_records_replayed = 0, rr_records_skipped = 0, rr_max_lsn = 0,
                    rr_max_txid = 0, rr_wal_files_read = 0 \<rparr>)"

section \<open>What a replay leaves in the memtable\<close>

definition record_kv :: "WalRecord \<Rightarrow> kv" where
  "record_kv r = (let k = enc (r_ns_bytes r) (r_key_bytes r) in (k, record_entry k r))"

definition max_of :: "('a \<Rightarrow> u64) \<Rightarrow> u64 \<Rightarrow> 'a list \<Rightarrow> u64" where
  "max_of f z xs = fold (\<lambda>x m. max m (f x)) xs z"

lemma max_of_simps [simp]:
  "max_of f z [] = z" "max_of f z (x # xs) = max_of f (max z (f x)) xs"
  "max_of f z (xs @ ys) = max_of f (max_of f z xs) ys"
  by (simp_all add: max_of_def)

lemma max_of_ge: "z \<le> max_of f z xs \<and> (\<forall>x \<in> set xs. f x \<le> max_of f z xs)"
proof (induction xs arbitrary: z)
  case (Cons x xs)
  from Cons [of "max z (f x)"] show ?case by (auto intro: order_trans)
qed simp

lemma max_of_in: "max_of f z xs \<in> insert z (f ` set xs)"
proof (induction xs arbitrary: z)
  case (Cons x xs)
  from Cons [of "max z (f x)"] show ?case by (auto simp: max_def split: if_splits)
qed simp

lemma replay_records_spec:
  assumes "\<forall>r \<in> set rs. ns_ok (r_ns_bytes r)"
  shows "\<exists>t' rr'. replay_records rs (t, rr) = Inr (t', rr') \<and>
           map_of t' = map_of t ++ map_of (rev (map record_kv rs)) \<and>
           (ksorted t \<longrightarrow> ksorted t') \<and>
           rr_max_lsn rr' = max_of r_lsn (rr_max_lsn rr) rs \<and>
           rr_max_txid rr' = max_of r_txid (rr_max_txid rr) rs \<and>
           rr_records_replayed rr' = rr_records_replayed rr + word_of_nat (length rs)"
  using assms
proof (induction rs arbitrary: t rr)
  case (Cons r rs)
  let ?k = "enc (r_ns_bytes r) (r_key_bytes r)"
  let ?t = "btree_insert ?k (record_entry ?k r) t"
  let ?rr = "rr\<lparr>rr_max_lsn := (if r_lsn r > rr_max_lsn rr then r_lsn r else rr_max_lsn rr),
             rr_max_txid := (if r_txid r > rr_max_txid rr then r_txid r else rr_max_txid rr),
             rr_records_replayed := rr_records_replayed rr + 1\<rparr>"
  from Cons.IH [of ?t ?rr] Cons.prems obtain t' rr' where
    *: "replay_records rs (?t, ?rr) = Inr (t', rr')"
       "map_of t' = map_of ?t ++ map_of (rev (map record_kv rs))" "ksorted ?t \<longrightarrow> ksorted t'"
       "rr_max_lsn rr' = max_of r_lsn (rr_max_lsn ?rr) rs"
       "rr_max_txid rr' = max_of r_txid (rr_max_txid ?rr) rs"
       "rr_records_replayed rr' = rr_records_replayed ?rr + word_of_nat (length rs)"
    by auto
  have m: "(if b > a then b else a) = max a b" for a b :: u64 by (auto simp: max_def)
  have "replay_records (r # rs) (t, rr) = Inr (t', rr')"
    using Cons.prems *(1) by (simp add: encode_key_ok)
  moreover have "map_of t' = map_of t ++ map_of (rev (map record_kv (r # rs)))"
    using *(2) by (simp add: btree_insert_map_of record_kv_def Let_def map_add_assoc)
  moreover have "rr_records_replayed rr' = rr_records_replayed rr + word_of_nat (length (r # rs))"
    using *(6) by simp
  ultimately show ?case using *(3-5) by (auto simp: m btree_insert_sorted)
qed simp

text \<open>The log files of a directory with the records that reading each of them returns.\<close>

definition log_contents :: "ext \<Rightarrow> dir \<Rightarrow> (string \<times> WalRecord list) list \<Rightarrow> bool" where
  "log_contents X d fs \<longleftrightarrow> map fst fs = list_wal_files d \<and>
     (\<forall>(n, rs) \<in> set fs. \<exists>body. fs_read d n = Some (wal_header @ body) \<and>
        read_records X body = rs \<and> (\<forall>r \<in> set rs. ns_ok (r_ns_bytes r)))"

lemma read_header [simp]: "read_and_validate_header (wal_header @ body) = Inr body"
  by (simp add: read_and_validate_header_def wal_header_def WAL_MAGIC_def WAL_HEADER_LEN_def
        WAL_FORMAT_VERSION_def)

lemma replay_files_spec:
  assumes "\<forall>(n, rs) \<in> set fs. \<exists>body. fs_read d n = Some (wal_header @ body) \<and>
        read_records X body = rs \<and> (\<forall>r \<in> set rs. ns_ok (r_ns_bytes r))"
  shows "\<exists>t' rr'. replay_files X d (map fst fs) (t, rr) = Inr (t', rr') \<and>
           map_of t' = map_of t ++ map_of (rev (map record_kv (concat (map snd fs)))) \<and>
           (ksorted t \<longrightarrow> ksorted t') \<and>
           rr_max_lsn rr' = max_of r_lsn (rr_max_lsn rr) (concat (map snd fs)) \<and>
           rr_max_txid rr' = max_of r_txid (rr_max_txid rr) (concat (map snd fs)) \<and>
           rr_records_replayed rr' = rr_records_replayed rr + word_of_nat (length (concat (map snd fs)))"
  using assms
proof (induction fs arbitrary: t rr)
  case (Cons f fs)
  obtain n rs where f: "f = (n, rs)" by (cases f)
  with Cons.prems obtain body where b: "fs_read d n = Some (wal_header @ body)"
    "read_records X body = rs" "\<forall>r \<in> set rs. ns_ok (r_ns_bytes r)" by auto
  let ?rr = "rr\<lparr>rr_wal_files_read := rr_wal_files_read rr + 1\<rparr>"
  from replay_records_spec [OF b(3), of t ?rr] obtain t1 rr1 where
    1: "replay_records rs (t, ?rr) = Inr (t1, rr1)"
       "map_of t1 = map_of t ++ map_of (rev (map record_kv rs))" "ksorted t \<longrightarrow> ksorted t1"
       "rr_max_lsn rr1 = max_of r_lsn (rr_max_lsn rr) rs"
       "rr_max_txid rr1 = max_of r_txid (rr_max_txid rr) rs"
       "rr_records_replayed rr1 = rr_records_replayed rr + word_of_nat (length rs)" by auto
  from Cons.IH [of t1 rr1] Cons.prems obtain t2 rr2 where
    2: "replay_files X d (map fst fs) (t1, rr1) = Inr (t2, rr2)"
       "map_of t2 = map_of t1 ++ map_of (rev (map record_kv (concat (map snd fs))))"
       "ksorted t1 \<longrightarrow> ksorted t2"
       "rr_max_lsn rr2 = max_of r_lsn (rr_max_lsn rr1) (concat (map snd fs))"
       "rr_max_txid rr2 = max_of r_txid (rr_max_txid rr1) (concat (map snd fs))"
       "rr_records_replayed rr2 =
          rr_records_replayed rr1 + word_of_nat (length (concat (map snd fs)))" by auto
  have "replay_files X d (map fst (f # fs)) (t, rr) = Inr (t2, rr2)"
    using b 1(1) 2(1) by (simp add: f WalReader_open_def)
  moreover have "map_of t2 = map_of t ++ map_of (rev (map record_kv (concat (map snd (f # fs)))))"
    using 1(2) 2(2) by (simp add: f map_add_assoc)
  moreover have "rr_records_replayed rr2 =
      rr_records_replayed rr + word_of_nat (length (concat (map snd (f # fs))))"
    using 1(6) 2(6) by (simp add: f)
  ultimately show ?case using 1(3-5) 2(3-5) by (auto simp: f)
qed simp

text \<open>
  C5: Recovery rebuilds the memtable from the logs. The log files are all files of the directory with
  a log's name, in the order of their names. When every one but the newest holds complete frames and the newest was cut off after any number of bytes of its frames, recovery
  succeeds. The surviving records are all records of the older files and, of the newest, exactly
  those whose frames lie completely before the cut: the frames of the first \<open>m\<close> records fit, the
  next one does not. The memtable maps every key to the entry of the last surviving record for it
  in file order, and the LSN that is handed on is the greatest LSN of the surviving records.
\<close>

theorem recovery_after_crash:
  assumes "lz4_ok X" "sort (filter is_wal_name (fs_names d)) = map fst fs @ [newest]"
    and "\<forall>(n, rs) \<in> set fs. fs_read d n = Some (wal_header @ wal_log X rs) \<and> (\<forall>r \<in> set rs. frame_ok X r)"
    and "fs_read d newest = Some (wal_header @ take n_cut (wal_log X last_rs))"
    and "\<forall>r \<in> set last_rs. frame_ok X r"
  shows "\<exists>m t rr. recover_from_wal X d BTreeMemTable_new = Inr (t, rr) \<and> m \<le> length last_rs \<and>
           length (wal_log X (take m last_rs)) \<le> n_cut \<and>
           (m < length last_rs \<longrightarrow> n_cut < length (wal_log X (take (Suc m) last_rs))) \<and>
           (let rs = concat (map snd fs) @ take m last_rs
            in (\<forall>k. btree_get t k = map_of (rev (map record_kv rs)) k) \<and> ksorted t \<and>
               rr_max_lsn rr = max_of r_lsn 0 rs)"
proof -
  have ns: "frame_ok X r \<Longrightarrow> ns_ok (r_ns_bytes r)" for r
    using unat_bound [of "r_ns_len r"] by (simp add: frame_ok_def record_ok_def ns_ok_def U16_MAX_def)
  obtain m where m: "m \<le> length last_rs" "read_records X (take n_cut (wal_log X last_rs)) = take m last_rs"
    "m < length last_rs \<longrightarrow> n_cut < length (wal_log X (take (Suc m) last_rs))" "length (wal_log X (take m last_rs)) \<le> n_cut"
    using read_records_truncated [OF assms(1,5)] by blast
  let ?fs = "fs @ [(newest, take m last_rs)]"
  have "\<exists>body. fs_read d n = Some (wal_header @ body) \<and> read_records X body = rs \<and>
      (\<forall>r \<in> set rs. ns_ok (r_ns_bytes r))" if "(n, rs) \<in> set ?fs" for n rs
  proof (cases "(n, rs) \<in> set fs")
    case True
    with assms(3) have "fs_read d n = Some (wal_header @ wal_log X rs)" "\<forall>r \<in> set rs. frame_ok X r"
      by auto
    with ns read_records_log [OF assms(1), of rs "[]"] show ?thesis by auto
  next
    case False
    with that m(2) assms(4,5) ns show ?thesis by (auto dest: in_set_takeD)
  qed
  then have "\<forall>(n, rs) \<in> set ?fs. \<exists>body. fs_read d n = Some (wal_header @ body) \<and>
      read_records X body = rs \<and> (\<forall>r \<in> set rs. ns_ok (r_ns_bytes r))" by blast
  moreover have "list_wal_files d = map fst fs @ [newest]" using assms(2) by (simp add: list_wal_files_def)
  ultimately obtain t rr where "recover_from_wal X d BTreeMemTable_new = Inr (t, rr)"
    "map_of t = map_of (rev (map record_kv (concat (map snd fs) @ take m last_rs)))" "ksorted t"
    "rr_max_lsn rr = max_of r_lsn 0 (concat (map snd fs) @ take m last_rs)"
    using replay_files_spec [of ?fs d X "[]"] by (fastforce simp: recover_from_wal_def BTreeMemTable_new_def)
  then show ?thesis
    by (intro exI [of _ m] exI [of _ t] exI [of _ rr]) (simp add: btree_get_def Let_def m)
qed

section \<open>Log names\<close>

text \<open>Digit strings of one length are ordered like the numbers they denote.\<close>

lemma digit_char_mono: "d < 16 \<Longrightarrow> d' < 16 \<Longrightarrow> digit_char d < digit_char d' \<longleftrightarrow> d < d'"
  by (auto simp: digit_char_def less_char_def)

lemma digit_char_hex: "d < 16 \<Longrightarrow> is_ascii_hexdigit (digit_char d)"
  by (auto simp: digit_char_def is_ascii_hexdigit_def less_eq_char_def)

definition is_digits :: "string \<Rightarrow> bool" where
  "is_digits s \<longleftrightarrow> (\<forall>c \<in> set s. \<exists>d < 16. c = digit_char d)"

lemma is_digits_show_base: "is_digits (show_base 16 n)"
proof (induction "16::nat" n rule: show_base.induct)
  case (1 n)
  show ?case
  proof (cases "n < 16")
    case True
    then show ?thesis by (auto simp: show_base.simps [of 16 n] is_digits_def)
  next
    case False
    moreover have "\<exists>d < 16. digit_char (n mod 16) = digit_char d"
      by (intro exI [of _ "n mod 16"]) simp
    ultimately show ?thesis using 1 by (simp add: show_base.simps [of 16 n] is_digits_def)
  qed
qed

lemma is_digits_pad: "is_digits s \<Longrightarrow> is_digits (pad_left w s)"
proof -
  have "CHR ''0'' = digit_char 0" by code_simp
  then have "\<exists>d < 16. CHR ''0'' = digit_char d" by (intro exI [of _ 0]) simp
  then show "is_digits s \<Longrightarrow> is_digits (pad_left w s)"
    by (auto simp: is_digits_def pad_left_def)
qed

lemma length_show_base: "n < 16 ^ Suc w \<Longrightarrow> length (show_base 16 n) \<le> Suc w"
proof (induction w arbitrary: n)
  case 0
  then show ?case by (simp add: show_base.simps [of 16 n])
next
  case (Suc w)
  then have "n div 16 < 16 ^ Suc w" by (simp add: less_mult_imp_div_less mult.commute)
  with Suc.IH [of "n div 16"] show ?case by (simp add: show_base.simps [of 16 n])
qed

lemma val_base_Cons: "val_base b (c # s) = digit_val c * b ^ length s + val_base b s"
proof -
  have "foldl (\<lambda>a c. a * b + digit_val c) x s = x * b ^ length s + foldl (\<lambda>a c. a * b + digit_val c) 0 s" for x
  proof (induction s arbitrary: x)
    case (Cons a s)
    from Cons [of "x * b + digit_val a"] Cons [of "digit_val a"] show ?case by (simp add: algebra_simps)
  qed simp
  from this [of "digit_val c"] show ?thesis by (simp add: val_base_def)
qed

lemma val_base_less: "is_digits s \<Longrightarrow> val_base 16 s < 16 ^ length s"
proof (induction s)
  case (Cons c s)
  then obtain d where d: "d < 16" "c = digit_char d" by (auto simp: is_digits_def)
  have "val_base 16 s < 16 ^ length s" using Cons by (simp add: is_digits_def)
  moreover have "d * 16 ^ length s \<le> 15 * 16 ^ length s" using d(1) by simp
  moreover have "16 ^ length (c # s) = 15 * 16 ^ length s + (16 ^ length s :: nat)" by simp
  moreover have "val_base 16 (c # s) = d * 16 ^ length s + val_base 16 s"
    using d by (simp add: val_base_Cons digit_val_char)
  ultimately show ?case by linarith
qed (simp add: val_base_def)

lemma digits_less_iff:
  "length s = length s' \<Longrightarrow> is_digits s \<Longrightarrow> is_digits s' \<Longrightarrow> s < s' \<longleftrightarrow> val_base 16 s < val_base 16 s'"
proof (induction s s' rule: list_induct2)
  case (Cons c s c' s')
  obtain d where d: "d < 16" "c = digit_char d" using Cons.prems by (auto simp: is_digits_def)
  obtain d' where d': "d' < 16" "c' = digit_char d'" using Cons.prems by (auto simp: is_digits_def)
  have ds: "is_digits s" "is_digits s'" using Cons.prems by (auto simp: is_digits_def)
  have b: "val_base 16 s < 16 ^ length s" "val_base 16 s' < 16 ^ length s"
    using val_base_less [OF ds(1)] val_base_less [OF ds(2)] Cons.hyps by simp_all
  consider "d < d'" | "d = d'" | "d' < d" by linarith
  then show ?case
  proof cases
    case 1
    then have "(d + 1) * 16 ^ length s \<le> d' * 16 ^ length s" by (intro mult_right_mono) auto
    with 1 d d' b Cons.hyps show ?thesis by (simp add: val_base_Cons digit_val_char digit_char_mono)
  next
    case 2
    with d d' b Cons.hyps Cons.IH [OF ds] show ?thesis by (simp add: val_base_Cons digit_val_char)
  next
    case 3
    then have "(d' + 1) * 16 ^ length s \<le> d * 16 ^ length s" by (intro mult_right_mono) auto
    moreover have "digit_char d' < digit_char d" using 3 d d' by (simp add: digit_char_mono)
    ultimately show ?thesis using d d' b Cons.hyps
      by (auto simp: val_base_Cons digit_val_char)
  qed
qed simp

abbreviation hex16 :: "u64 \<Rightarrow> string" where
  "hex16 n \<equiv> pad_left 16 (show_base 16 (unat n))"

lemma length_hex16 [simp]: "length (hex16 n) = 16"
  using length_show_base [of "unat n" 15] unat_bound [of n] by (simp add: pad_left_def)

lemma val_hex16 [simp]: "val_base 16 (hex16 n) = unat n"
  by (simp add: val_base_pad val_base_show_base)

lemma hex16_less [simp]: "hex16 m < hex16 n \<longleftrightarrow> m < n"
  by (subst digits_less_iff)
     (simp_all add: is_digits_pad is_digits_show_base word_less_nat_alt)

lemma append_less_same_length:
  "length a = length b \<Longrightarrow> (a :: string) @ c < b @ c \<longleftrightarrow> a < b"
  by (induction a b rule: list_induct2) auto

lemma is_wal_name_wal_file_name [simp]: "is_wal_name (wal_file_name lsn)"
proof -
  have "list_all is_ascii_hexdigit (hex16 lsn)"
    using is_digits_pad [OF is_digits_show_base] digit_char_hex by (fastforce simp: is_digits_def list_all_iff)
  then show ?thesis by (simp add: is_wal_name_def wal_file_name_def starts_with_def)
qed

lemma wal_file_name_less [simp]: "wal_file_name a < wal_file_name b \<longleftrightarrow> a < b"
  by (simp add: wal_file_name_def append_less_same_length)

lemma wal_file_name_eq [simp]: "wal_file_name a = wal_file_name b \<longleftrightarrow> a = b"
  using wal_file_name_less [of a b] wal_file_name_less [of b a] by (metis less_irrefl linorder_neqE)

lemma wal_file_name_le [simp]: "wal_file_name a \<le> wal_file_name b \<longleftrightarrow> a \<le> b"
  by (auto simp: order_le_less)

text \<open>
  The names of log files sort chronologically. The name built from any LSN is recognised
  as a log file, and the lexicographic order of the names, in which recovery replays the
  files, is the numeric order of the LSNs; different LSNs give different names.
\<close>

theorem wal_names_sort_by_lsn:
  "is_wal_name (wal_file_name lsn) \<and>
   (wal_file_name lsn < wal_file_name lsn' \<longleftrightarrow> lsn < lsn') \<and>
   (wal_file_name lsn = wal_file_name lsn' \<longleftrightarrow> lsn = lsn')"
  by simp

definition crash_dir :: dir where
  "crash_dir =
     [(wal_file_name 0, wal_header @ wal_log sample_ext [sample_record]),
      (wal_file_name 16, wal_header @ take 90 (wal_log sample_ext [sample_record, sample_record]))]"

theorem recovery_after_crash_witness:
  "\<exists>m t rr. recover_from_wal sample_ext crash_dir BTreeMemTable_new = Inr (t, rr) \<and> m \<le> length [sample_record, sample_record] \<and>
     length (wal_log sample_ext (take m [sample_record, sample_record])) \<le> 90 \<and>
     (m < length [sample_record, sample_record] \<longrightarrow> 90 < length (wal_log sample_ext (take (Suc m) [sample_record, sample_record]))) \<and>
     (let rs = concat (map snd [(wal_file_name 0, [sample_record])]) @ take m [sample_record, sample_record]
      in (\<forall>k. btree_get t k = map_of (rev (map record_kv rs)) k) \<and> ksorted t \<and> rr_max_lsn rr = max_of r_lsn 0 rs)"
  by (rule recovery_after_crash [where newest = "wal_file_name 16"])
     (simp_all add: crash_dir_def list_wal_files_def fs_names_def fs_read_def sample_frame_ok)

end
