(* ===== verification/Manifest.thy ===== *)
theory Manifest
  imports Framing
begin

text \<open>
  The manifest, \<open>edgestore/src/manifest.rs\<close>: an append-only file of framed JSON entries that
  add and remove segments, replayed when the database is opened.

  An operation returns the directory also when it fails, since frames that were written before
  the failure stay in the file.
\<close>

section \<open>Entries and frames\<close>

definition MANIFEST_MAGIC :: u32 where "MANIFEST_MAGIC = 0x4D414E46"
definition MANIFEST_VERSION :: byte where "MANIFEST_VERSION = 1"

definition write_framed_entry :: "ext \<Rightarrow> string \<Rightarrow> ManifestEntry \<Rightarrow> dir \<Rightarrow> dir res" where
  "write_framed_entry X path entry d =
     (let json = json_entry X entry
      in if length json > 1000000 then Inl (ManifestCorrupt ''entry too large'')
         else let crc = crc32c X json; len = (word_of_nat (length json) :: u32)
              in Inr (fs_append path (u32_le crc @ u32_le len @ json) d))"

record Manifest =
  mf_path :: string
  mf_segments :: "SegmentMeta list"

section \<open>Replay and open\<close>

definition apply_entry :: "ManifestEntry \<Rightarrow> SegmentMeta list \<Rightarrow> SegmentMeta list" where
  "apply_entry entry segments =
     (case me_entry_type entry of
        Add \<Rightarrow> (case me_meta entry of Some meta \<Rightarrow> segments @ [meta] | None \<Rightarrow> segments)
      | Remove \<Rightarrow> filter (\<lambda>m. m_segment_id m \<noteq> me_segment_id entry) segments)"

function manifest_replay :: "ext \<Rightarrow> bytes \<Rightarrow> SegmentMeta list \<Rightarrow> SegmentMeta list" where
  "manifest_replay X buf segments =
     (if length buf < 8 then segments
      else
        let stored_crc = u32_of_le (take 4 buf);
            entry_len = unat (u32_of_le (take 4 (drop 4 buf)));
            body = drop 8 buf
        in if entry_len > 1000000 then segments
           else if length body < entry_len then segments
           else
             let json_bytes = take entry_len body;
                 rest = drop entry_len body
             in if crc32c X json_bytes \<noteq> stored_crc then manifest_replay X rest segments
                else case json_entry_parse X json_bytes of
                       None \<Rightarrow> manifest_replay X rest segments
                     | Some entry \<Rightarrow> manifest_replay X rest (apply_entry entry segments))"
  by pat_completeness auto
termination
  by (relation "measure (\<lambda>(X, buf, segments). length buf)") auto

declare manifest_replay.simps [simp del]

definition manifest_header :: bytes where
  "manifest_header = u32_le MANIFEST_MAGIC @ [MANIFEST_VERSION, 0, 0, 0]"

definition Manifest_open :: "ext \<Rightarrow> string \<Rightarrow> dir \<Rightarrow> (Manifest \<times> dir) res" where
  "Manifest_open X path d =
     (case fs_read d path of
        None \<Rightarrow> Inr (\<lparr> mf_path = path, mf_segments = [] \<rparr>, fs_write path manifest_header d)
      | Some file \<Rightarrow>
          if length file < 8 then Inl (ManifestCorrupt ''truncated header'')
          else if u32_of_le (take 4 file) \<noteq> MANIFEST_MAGIC then Inl (ManifestCorrupt ''wrong magic'')
          else if file ! 4 \<noteq> MANIFEST_VERSION then Inl (ManifestCorrupt ''wrong version'')
          else Inr (\<lparr> mf_path = path, mf_segments = manifest_replay X (drop 8 file) [] \<rparr>, d))"

section \<open>Adding and removing segments\<close>

definition add_segment :: "ext \<Rightarrow> SegmentMeta \<Rightarrow> Manifest \<Rightarrow> dir \<Rightarrow> (Manifest \<times> dir) \<times> unit res" where
  "add_segment X meta m d =
     (case write_framed_entry X (mf_path m)
             \<lparr> me_entry_type = Add, me_segment_id = m_segment_id meta, me_meta = Some meta \<rparr> d of
        Inl e \<Rightarrow> ((m, d), Inl e)
      | Inr d' \<Rightarrow> ((m\<lparr>mf_segments := mf_segments m @ [meta]\<rparr>, d'), Inr ()))"

fun write_removals :: "ext \<Rightarrow> string \<Rightarrow> SegmentId list \<Rightarrow> dir \<Rightarrow> dir \<times> unit res" where
  "write_removals X path [] d = (d, Inr ())"
| "write_removals X path (i # ids) d =
     (case write_framed_entry X path \<lparr> me_entry_type = Remove, me_segment_id = i, me_meta = None \<rparr> d of
        Inl e \<Rightarrow> (d, Inl e)
      | Inr d' \<Rightarrow> write_removals X path ids d')"

definition remove_segments ::
  "ext \<Rightarrow> SegmentId list \<Rightarrow> Manifest \<Rightarrow> dir \<Rightarrow> (Manifest \<times> dir) \<times> unit res" where
  "remove_segments X ids m d =
     (case write_removals X (mf_path m) ids d of
        (d', Inl e) \<Rightarrow> ((m, d'), Inl e)
      | (d', Inr _) \<Rightarrow>
          ((m\<lparr>mf_segments := filter (\<lambda>s. m_segment_id s \<notin> set ids) (mf_segments m)\<rparr>, d'), Inr ()))"

definition list_segments :: "Manifest \<Rightarrow> SegmentMeta list" where
  "list_segments m = mf_segments m"

section \<open>Replay as a fold over the accepted entries\<close>

lemma manifest_replay_payloads:
  "manifest_replay X buf segs =
     fold apply_entry (List.map_filter (json_entry_parse X) (payloads (crc32c X) 1000000 buf)) segs"
proof (induction buf arbitrary: segs rule: length_induct)
  case (1 buf)
  let ?n = "unat (u32_of_le (take 4 (drop 4 buf)))"
  let ?rest = "drop ?n (drop 8 buf)"
  show ?case
  proof (cases "length buf < 8 \<or> 1000000 < ?n \<or> length (drop 8 buf) < ?n")
    case True
    then show ?thesis unfolding manifest_replay.simps [of X buf] payloads.simps [of _ _ buf] Let_def
      by (elim disjE) (simp_all add: List.map_filter_simps)
  next
    case False
    then have "length ?rest < length buf" by auto
    with 1 have ih: "manifest_replay X ?rest s =
        fold apply_entry (List.map_filter (json_entry_parse X) (payloads (crc32c X) 1000000 ?rest)) s" for s
      by blast
    from False show ?thesis
      unfolding manifest_replay.simps [of X buf] payloads.simps [of _ _ buf] Let_def ih
      by (simp add: List.map_filter_simps split: option.split)
  qed
qed

definition entry_ok :: "ext \<Rightarrow> ManifestEntry \<Rightarrow> bool" where
  "entry_ok X e \<longleftrightarrow> length (json_entry X e) \<le> 1000000"

definition manifest_log :: "ext \<Rightarrow> ManifestEntry list \<Rightarrow> bytes" where
  "manifest_log X es = frames (crc32c X) (map (json_entry X) es)"

lemma parse_entries:
  assumes "json_ok X"
  shows "List.map_filter (json_entry_parse X) (map (json_entry X) es) = es"
  using assms by (induction es) (simp_all add: List.map_filter_simps json_ok_def)

lemma manifest_replay_log:
  assumes "json_ok X" "\<forall>e \<in> set es. entry_ok X e"
  shows "manifest_replay X (manifest_log X es) segs = fold apply_entry es segs"
proof -
  have "payloads (crc32c X) 1000000 (manifest_log X es) = map (json_entry X) es"
    using payloads_frames [of 1000000 "map (json_entry X) es" "crc32c X" "[]"] assms(2)
    by (simp add: manifest_log_def entry_ok_def payloads_short)
  then show ?thesis by (simp add: manifest_replay_payloads parse_entries assms(1))
qed

lemma manifest_replay_truncated:
  assumes "json_ok X" "\<forall>e \<in> set es. entry_ok X e"
  shows "\<exists>k \<le> length es. manifest_replay X (take n (manifest_log X es)) segs =
           fold apply_entry (take k es) segs \<and> length (manifest_log X (take k es)) \<le> n \<and>
           (k < length es \<longrightarrow> n < length (manifest_log X (take (Suc k) es)))"
proof -
  have "\<forall>p \<in> set (map (json_entry X) es). length p \<le> 1000000" using assms(2) by (simp add: entry_ok_def)
  from payloads_truncated [OF _ this, of "crc32c X" n]
  obtain k where "k \<le> length es"
    "payloads (crc32c X) 1000000 (take n (manifest_log X es)) = map (json_entry X) (take k es)"
    "length (manifest_log X (take k es)) \<le> n"
    "k < length es \<longrightarrow> n < length (manifest_log X (take (Suc k) es))"
    by (auto simp: manifest_log_def take_map)
  then show ?thesis
    by (intro exI [of _ k]) (simp add: manifest_replay_payloads parse_entries assms(1))
qed

section \<open>The file and the list in memory\<close>

text \<open>
  The invariant of an open manifest: its file is a header and a log of entries, and the list
  in memory is what replaying them gives.
\<close>

definition manifest_inv :: "ext \<Rightarrow> Manifest \<Rightarrow> dir \<Rightarrow> bool" where
  "manifest_inv X m d \<longleftrightarrow> (\<exists>es. (\<forall>e \<in> set es. entry_ok X e) \<and>
     fs_read d (mf_path m) = Some (manifest_header @ manifest_log X es) \<and>
     mf_segments m = fold apply_entry es [])"

lemma open_header:
  "fs_read d path = Some (manifest_header @ body) \<Longrightarrow>
   Manifest_open X path d = Inr (\<lparr> mf_path = path, mf_segments = manifest_replay X body [] \<rparr>, d)"
  by (simp add: Manifest_open_def manifest_header_def nth_append)

lemma manifest_inv_create:
  "fs_read d path = None \<Longrightarrow> Manifest_open X path d = Inr (m, d') \<Longrightarrow> manifest_inv X m d'"
  by (auto simp: Manifest_open_def manifest_inv_def manifest_log_def intro!: exI [of _ "[]"])

lemma manifest_inv_reopen:
  assumes "json_ok X" "manifest_inv X m d"
  shows "Manifest_open X (mf_path m) d = Inr (\<lparr> mf_path = mf_path m, mf_segments = mf_segments m \<rparr>, d)"
proof -
  from assms(2) obtain es where "\<forall>e \<in> set es. entry_ok X e"
    "fs_read d (mf_path m) = Some (manifest_header @ manifest_log X es)"
    "mf_segments m = fold apply_entry es []" by (auto simp: manifest_inv_def)
  then show ?thesis by (simp add: open_header manifest_replay_log assms(1))
qed

lemma write_framed_entry_log:
  assumes "fs_read d path = Some (manifest_header @ manifest_log X es)"
    and "write_framed_entry X path e d = Inr d'"
  shows "entry_ok X e \<and> fs_read d' path = Some (manifest_header @ manifest_log X (es @ [e])) \<and>
         (\<forall>q. q \<noteq> path \<longrightarrow> fs_read d' q = fs_read d q)"
  using assms
  by (auto simp: write_framed_entry_def entry_ok_def manifest_log_def checked_frame_def raw_frame_def
        Let_def split: if_splits)

lemma manifest_inv_add:
  assumes "manifest_inv X m d" "add_segment X meta m d = ((m', d'), Inr ())"
  shows "manifest_inv X m' d' \<and> mf_path m' = mf_path m \<and> mf_segments m' = mf_segments m @ [meta]"
proof -
  let ?e = "\<lparr> me_entry_type = Add, me_segment_id = m_segment_id meta, me_meta = Some meta \<rparr>"
  from assms(1) obtain es where es: "\<forall>e \<in> set es. entry_ok X e"
    "fs_read d (mf_path m) = Some (manifest_header @ manifest_log X es)"
    "mf_segments m = fold apply_entry es []" by (auto simp: manifest_inv_def)
  from assms(2) have w: "write_framed_entry X (mf_path m) ?e d = Inr d'"
    and m': "m' = m\<lparr>mf_segments := mf_segments m @ [meta]\<rparr>"
    by (auto simp: add_segment_def split: sum.splits)
  have "\<forall>e \<in> set (es @ [?e]). entry_ok X e"
    "fs_read d' (mf_path m) = Some (manifest_header @ manifest_log X (es @ [?e]))"
    using write_framed_entry_log [OF es(2) w] es(1) by auto
  moreover have "mf_segments m' = fold apply_entry (es @ [?e]) []"
    by (simp add: m' apply_entry_def es(3))
  ultimately have "manifest_inv X m' d'" unfolding manifest_inv_def m' by fastforce
  then show ?thesis by (simp add: m')
qed

definition removal :: "SegmentId \<Rightarrow> ManifestEntry" where
  "removal i = \<lparr> me_entry_type = Remove, me_segment_id = i, me_meta = None \<rparr>"

lemma write_removals_log:
  assumes "fs_read d path = Some (manifest_header @ manifest_log X es)"
    and "write_removals X path ids d = (d', Inr ())"
  shows "(\<forall>i \<in> set ids. entry_ok X (removal i)) \<and>
         fs_read d' path = Some (manifest_header @ manifest_log X (es @ map removal ids))"
  using assms
proof (induction ids arbitrary: d es)
  case (Cons i ids)
  from Cons.prems(2) obtain d1 where d1: "write_framed_entry X path (removal i) d = Inr d1"
    "write_removals X path ids d1 = (d', Inr ())"
    by (auto simp: removal_def split: sum.splits)
  from write_framed_entry_log [OF Cons.prems(1) d1(1)] Cons.IH [OF _ d1(2), of "es @ [removal i]"]
  show ?case by simp
qed simp

lemma fold_removals:
  "fold apply_entry (map removal ids) segs = filter (\<lambda>s. m_segment_id s \<notin> set ids) segs"
  by (induction ids arbitrary: segs)
     (auto simp: removal_def apply_entry_def intro: filter_cong)

lemma manifest_inv_remove:
  assumes "manifest_inv X m d" "remove_segments X ids m d = ((m', d'), Inr ())"
  shows "manifest_inv X m' d' \<and> mf_path m' = mf_path m \<and>
         mf_segments m' = filter (\<lambda>s. m_segment_id s \<notin> set ids) (mf_segments m)"
proof -
  from assms(1) obtain es where es: "\<forall>e \<in> set es. entry_ok X e"
    "fs_read d (mf_path m) = Some (manifest_header @ manifest_log X es)"
    "mf_segments m = fold apply_entry es []" by (auto simp: manifest_inv_def)
  obtain d1 r where r: "write_removals X (mf_path m) ids d = (d1, r)" by fastforce
  with assms(2) have "r = Inr ()" by (cases r) (simp_all add: remove_segments_def)
  with r assms(2) have w: "write_removals X (mf_path m) ids d = (d', Inr ())"
    and m': "m' = m\<lparr>mf_segments := filter (\<lambda>s. m_segment_id s \<notin> set ids) (mf_segments m)\<rparr>"
    by (simp_all add: remove_segments_def)
  let ?es = "es @ map removal ids"
  have "\<forall>e \<in> set ?es. entry_ok X e" "fs_read d' (mf_path m) = Some (manifest_header @ manifest_log X ?es)"
    using write_removals_log [OF es(2) w] es(1) by auto
  moreover have "mf_segments m' = fold apply_entry ?es []" by (simp add: m' fold_removals es(3))
  moreover have "mf_path m' = mf_path m" by (simp add: m')
  ultimately have "manifest_inv X m' d'" unfolding manifest_inv_def by (intro exI [of _ ?es]) simp
  then show ?thesis by (simp add: m')
qed

section \<open>Sequences of operations\<close>

datatype manifest_op = AddSegment SegmentMeta | RemoveSegments "SegmentId list"

fun manifest_step :: "ext \<Rightarrow> manifest_op \<Rightarrow> Manifest \<times> dir \<Rightarrow> (Manifest \<times> dir) \<times> unit res" where
  "manifest_step X (AddSegment meta) (m, d) = add_segment X meta m d"
| "manifest_step X (RemoveSegments ids) (m, d) = remove_segments X ids m d"

text \<open>What an operation means for the set of live segments.\<close>

fun manifest_spec :: "manifest_op \<Rightarrow> SegmentMeta list \<Rightarrow> SegmentMeta list" where
  "manifest_spec (AddSegment meta) segs = segs @ [meta]"
| "manifest_spec (RemoveSegments ids) segs = filter (\<lambda>s. m_segment_id s \<notin> set ids) segs"

fun run_manifest :: "ext \<Rightarrow> manifest_op list \<Rightarrow> Manifest \<times> dir \<Rightarrow> (Manifest \<times> dir) res" where
  "run_manifest X [] st = Inr st"
| "run_manifest X (op # ops) st =
     (case manifest_step X op st of (st', Inl e) \<Rightarrow> Inl e | (st', Inr _) \<Rightarrow> run_manifest X ops st')"

lemma manifest_step_inv:
  assumes "manifest_inv X m d" "manifest_step X op (m, d) = ((m', d'), Inr ())"
  shows "manifest_inv X m' d' \<and> mf_path m' = mf_path m \<and> mf_segments m' = manifest_spec op (mf_segments m)"
proof (cases op)
  case (AddSegment meta)
  with assms manifest_inv_add [OF assms(1), of meta] show ?thesis by simp
next
  case (RemoveSegments ids)
  with assms manifest_inv_remove [OF assms(1), of ids] show ?thesis by simp
qed

lemma run_manifest_inv:
  "manifest_inv X m d \<Longrightarrow> run_manifest X ops (m, d) = Inr (m', d') \<Longrightarrow>
   manifest_inv X m' d' \<and> mf_path m' = mf_path m \<and> mf_segments m' = fold manifest_spec ops (mf_segments m)"
proof (induction ops arbitrary: m d)
  case (Cons op ops)
  obtain m1 d1 r where r: "manifest_step X op (m, d) = ((m1, d1), r)" by (metis surj_pair)
  with Cons.prems(2) have ok: "r = Inr ()" "run_manifest X ops (m1, d1) = Inr (m', d')"
    by (cases r; simp)+
  with manifest_step_inv [OF Cons.prems(1)] r
  have "manifest_inv X m1 d1" "mf_path m1 = mf_path m" "mf_segments m1 = manifest_spec op (mf_segments m)"
    by auto
  with Cons.IH [OF _ ok(2)] show ?case by simp
qed simp

text \<open>
  C10: The manifest refines a list of live segments. Starting from a new manifest, after any
  sequence of successful additions and removals the list in memory is what the operations mean
  for a list of segments, and opening the file again gives back exactly this manifest.
\<close>

theorem manifest_reopen:
  assumes "json_ok X" "fs_read d path = None" "Manifest_open X path d = Inr st"
    and "run_manifest X ops st = Inr (m, d')"
  shows "mf_segments m = fold manifest_spec ops [] \<and> Manifest_open X path d' = Inr (m, d')"
proof -
  obtain m0 d0 where st: "st = (m0, d0)" by (cases st)
  with assms(3) have "manifest_inv X m0 d0" by (simp add: manifest_inv_create [OF assms(2)])
  moreover have "mf_path m0 = path" "mf_segments m0 = []"
    using assms(2,3) st by (auto simp: Manifest_open_def)
  ultimately have "manifest_inv X m d'" "mf_path m = path" "mf_segments m = fold manifest_spec ops []"
    using run_manifest_inv assms(4) st by metis+
  with manifest_inv_reopen [OF assms(1)] show ?thesis by auto
qed

definition sample_meta :: "SegmentId \<Rightarrow> SegmentMeta" where
  "sample_meta i = \<lparr> m_segment_id = i, m_segment_hash = [], m_min_key = [1], m_max_key = [9],
     m_min_lsn = 1, m_max_lsn = 2, m_record_count = 2, m_compressed_bytes = 10,
     m_uncompressed_bytes = 20, m_compression = ''zstd:1'', m_cohort_bucket = 0, m_death_time = 0,
     m_merkle_root = [], m_created_at = 0, m_text_index_stripped = False,
     m_vector_index_stripped = False \<rparr>"

lemma sample_entry_length:
  "length (json_entry sample_ext \<lparr> me_entry_type = ty, me_segment_id = i, me_meta = Some (sample_meta j) \<rparr>) = 105"
  "length (json_entry sample_ext \<lparr> me_entry_type = ty, me_segment_id = i, me_meta = None \<rparr>) = 10"
  by (simp_all add: sample_ext_def put_entry_def put_meta_def put_bool_def put_list_def put_string_def
        sample_meta_def)

theorem manifest_reopen_witness:
  "\<exists>m d'. mf_segments m = fold manifest_spec
       [AddSegment (sample_meta 1), AddSegment (sample_meta 2), RemoveSegments [1]] [] \<and>
     Manifest_open sample_ext ''manifest'' d' = Inr (m, d')"
proof -
  let ?ops = "[AddSegment (sample_meta 1), AddSegment (sample_meta 2), RemoveSegments [1]]"
  obtain st where st: "Manifest_open sample_ext ''manifest'' [] = Inr st"
    by (simp add: Manifest_open_def fs_read_def)
  obtain m d' where "run_manifest sample_ext ?ops st = Inr (m, d')"
    by (cases st) (simp add: add_segment_def remove_segments_def write_framed_entry_def Let_def sample_entry_length)
  from manifest_reopen [OF sample_laws(5) _ st this] show ?thesis by (auto simp: fs_read_def)
qed

text \<open>
  A torn append never makes a manifest unreadable. If a crash leaves the header and the first
  \<open>n\<close> bytes of the entries, opening succeeds, changes nothing on disk and yields the effect of
  exactly the entries that are complete.
\<close>

theorem manifest_open_truncated:
  assumes "json_ok X" "\<forall>e \<in> set es. entry_ok X e"
    and "fs_read d path = Some (manifest_header @ take n (manifest_log X es))"
  shows "\<exists>k \<le> length es. Manifest_open X path d =
           Inr (\<lparr> mf_path = path, mf_segments = fold apply_entry (take k es) [] \<rparr>, d) \<and>
           length (manifest_log X (take k es)) \<le> n \<and>
           (k < length es \<longrightarrow> n < length (manifest_log X (take (Suc k) es)))"
  using manifest_replay_truncated [OF assms(1,2), of n "[]"] open_header [OF assms(3)] by auto

definition addition :: "SegmentMeta \<Rightarrow> ManifestEntry" where
  "addition meta = \<lparr> me_entry_type = Add, me_segment_id = m_segment_id meta, me_meta = Some meta \<rparr>"

lemma sample_entry_ok: "entry_ok sample_ext (addition (sample_meta i))" "entry_ok sample_ext (removal i)"
  using sample_entry_length by (simp_all add: entry_ok_def addition_def removal_def)

theorem manifest_open_truncated_witness:
  "\<exists>k \<le> length [addition (sample_meta 1), removal 1].
     Manifest_open sample_ext ''m''
       [(''m'', manifest_header @ take 120 (manifest_log sample_ext [addition (sample_meta 1), removal 1]))] =
     Inr (\<lparr> mf_path = ''m'', mf_segments = fold apply_entry (take k [addition (sample_meta 1), removal 1]) [] \<rparr>,
        [(''m'', manifest_header @ take 120 (manifest_log sample_ext [addition (sample_meta 1), removal 1]))]) \<and>
     length (manifest_log sample_ext (take k [addition (sample_meta 1), removal 1])) \<le> 120 \<and>
     (k < length [addition (sample_meta 1), removal 1] \<longrightarrow>
        120 < length (manifest_log sample_ext (take (Suc k) [addition (sample_meta 1), removal 1])))"
  by (rule manifest_open_truncated [OF sample_laws(5)]) (simp_all add: sample_entry_ok fs_read_def)

text \<open>
  C29: A manifest that was opened over a torn entry loses what is added next. \<open>open\<close> does not cut
  the torn tail off, so new frames land behind it and the next replay takes them for the missing
  bytes of the torn entry: as long as they are shorter than what is missing, the added segment
  is in the list in memory but not in the list of the next open.
\<close>

theorem manifest_add_after_torn_entry_is_lost:
  assumes "json_ok X" "\<forall>e \<in> set es. entry_ok X e" "entry_ok X torn" "8 \<le> n"
    and "n + 8 + length (json_entry X (addition meta)) < 8 + length (json_entry X torn)"
    and "fs_read d path = Some (manifest_header @ manifest_log X es @
           take n (manifest_log X [torn]))"
    and "Manifest_open X path d = Inr (m, d1)" "add_segment X meta m d1 = ((m', d2), Inr ())"
  shows "mf_segments m' = fold apply_entry es [] @ [meta] \<and>
         Manifest_open X path d2 = Inr (\<lparr> mf_path = path, mf_segments = fold apply_entry es [] \<rparr>, d2)"
proof -
  let ?tail = "take n (manifest_log X [torn])"
  let ?p = "json_entry X torn" and ?q = "json_entry X (addition meta)"
  have bound: "\<forall>p \<in> set (map (json_entry X) es). length p \<le> 1000000"
    using assms(2) by (simp add: entry_ok_def)
  have eq: "?tail = u32_le (crc32c X ?p) @ u32_le (word_of_nat (length ?p)) @ take (n - 8) ?p"
    using assms(4,5) by (simp add: manifest_log_def checked_frame_def raw_frame_def)
  have len: "unat (word_of_nat (length ?p) :: u32) = length ?p"
    using assms(3) by (simp add: unat_u32_of_nat entry_ok_def)
  have "payloads (crc32c X) 1000000 (?tail @ rest) = []" if "n + length rest < 8 + length ?p" for rest
  proof -
    have "n + length rest - 8 < length ?p" using that assms(4) by linarith
    with assms(4) show ?thesis
      unfolding eq by (subst payloads.simps) (simp add: len Let_def del: unsigned_of_nat)
  qed
  then have replay: "manifest_replay X (manifest_log X es @ ?tail @ rest) [] = fold apply_entry es []"
    if "n + length rest < 8 + length ?p" for rest
    using that payloads_frames [OF _ bound] parse_entries [OF assms(1)]
    by (simp add: manifest_replay_payloads manifest_log_def)
  have m: "m = \<lparr> mf_path = path, mf_segments = fold apply_entry es [] \<rparr>" "d1 = d"
    using assms(7) open_header [OF assms(6)] replay [of "[]"] assms(5) by auto
  with assms(8) have m': "m' = m\<lparr>mf_segments := fold apply_entry es [] @ [meta]\<rparr>"
    and d2: "fs_read d2 path = Some (manifest_header @ manifest_log X es @ ?tail @
               checked_frame (crc32c X) ?q)"
    using assms(6)
    by (auto simp: add_segment_def write_framed_entry_def addition_def checked_frame_def raw_frame_def
          Let_def split: sum.splits if_splits)
  show ?thesis using open_header [OF d2] replay [of "checked_frame (crc32c X) ?q"] assms(5) m m' by simp
qed

definition long_meta :: SegmentMeta where
  "long_meta = (sample_meta 1)\<lparr>m_min_key := replicate 100 7\<rparr>"

lemma long_entry_length: "length (json_entry sample_ext (addition long_meta)) = 303"
  by (simp add: sample_ext_def put_entry_def put_meta_def put_bool_def put_list_def put_string_def
        sample_meta_def long_meta_def addition_def comp_def length_concat sum_list_replicate)

definition torn_dir :: dir where
  "torn_dir = [(''m'', manifest_header @ manifest_log sample_ext [] @
                  take 10 (manifest_log sample_ext [addition long_meta]))]"

theorem manifest_add_after_torn_entry_is_lost_witness:
  "\<exists>m m' d2. Manifest_open sample_ext ''m'' torn_dir = Inr (m, torn_dir) \<and>
     add_segment sample_ext (sample_meta 2) m torn_dir = ((m', d2), Inr ()) \<and>
     mf_segments m' = fold apply_entry [] [] @ [sample_meta 2] \<and>
     Manifest_open sample_ext ''m'' d2 = Inr (\<lparr> mf_path = ''m'', mf_segments = fold apply_entry [] [] \<rparr>, d2)"
proof -
  have rd: "fs_read torn_dir ''m'' = Some (manifest_header @ manifest_log sample_ext [] @
      take 10 (manifest_log sample_ext [addition long_meta]))"
    by (simp add: torn_dir_def fs_read_def)
  obtain m where m: "Manifest_open sample_ext ''m'' torn_dir = Inr (m, torn_dir)"
    by (simp add: open_header [OF rd])
  obtain m' d2 where a: "add_segment sample_ext (sample_meta 2) m torn_dir = ((m', d2), Inr ())"
    by (simp add: add_segment_def write_framed_entry_def Let_def sample_entry_length)
  have "entry_ok sample_ext (addition long_meta)"
    "10 + 8 + length (json_entry sample_ext (addition (sample_meta 2)))
       < 8 + length (json_entry sample_ext (addition long_meta))"
    using sample_entry_length(1) [of Add "m_segment_id (sample_meta 2)" 2]
    unfolding addition_def [of "sample_meta 2"] by (simp_all add: entry_ok_def long_entry_length)
  from manifest_add_after_torn_entry_is_lost [OF sample_laws(5) _ this(1) _ this(2) rd m a] m a
  show ?thesis by simp
qed

end
