(* ===== verification/SegmentFile.thy ===== *)
theory SegmentFile
  imports Sample
begin

text \<open>
  One segment on disk, the first half of \<open>edgestore/src/segment.rs\<close>: the layout of an entry, the
  compressed and aligned blocks of the \<open>.dat\<close> file, the sparse index, the xor filter file, the
  writer and the reader.

  File offsets are natural numbers; where the code stores one in a \<open>u64\<close> the conversion is
  written out. \<open>debug_assert!\<close>s are not part of the model. When writing a segment fails, the
  files that were already written belong to no registered segment and no later operation
  reads them, so the failing result does not carry them.
\<close>

section \<open>Constants and file names\<close>

definition SEGMENT_BLOCK_MAGIC :: u32 where "SEGMENT_BLOCK_MAGIC = 0x45445347"
definition SEGMENT_FILE_MAGIC :: u32 where "SEGMENT_FILE_MAGIC = 0x45445347"
definition SEGMENT_FORMAT_VERSION :: byte where "SEGMENT_FORMAT_VERSION = 1"
definition SEGMENT_HEADER_LEN :: usize where "SEGMENT_HEADER_LEN = 8"
definition BLOCK_TARGET_BYTES :: usize where "BLOCK_TARGET_BYTES = 3900"
definition SEGMENT_BLOCK_SIZE :: usize where "SEGMENT_BLOCK_SIZE = 4096"
definition MAX_BLOCK_DECOMPRESSED :: usize where "MAX_BLOCK_DECOMPRESSED = SEGMENT_BLOCK_SIZE * 512"
definition SPARSE_INDEX_STRIDE :: usize where "SPARSE_INDEX_STRIDE = 64"

definition segment_file :: "SegmentId \<Rightarrow> string \<Rightarrow> string" where
  "segment_file i extension = ''segment-'' @ pad_left 8 (show_base 10 (unat i)) @ ''.'' @ extension"

abbreviation dat_path :: "SegmentId \<Rightarrow> string" where "dat_path i \<equiv> segment_file i ''dat''"
abbreviation idx_path :: "SegmentId \<Rightarrow> string" where "idx_path i \<equiv> segment_file i ''idx''"
abbreviation xf_path :: "SegmentId \<Rightarrow> string" where "xf_path i \<equiv> segment_file i ''xf''"
abbreviation meta_path :: "SegmentId \<Rightarrow> string" where "meta_path i \<equiv> segment_file i ''meta''"

section \<open>Entries as bytes\<close>

definition serialize_entry :: "bytes \<Rightarrow> MemEntry \<Rightarrow> bytes" where
  "serialize_entry key entry =
     (let val = (case e_value entry of Some v \<Rightarrow> v | None \<Rightarrow> [])
      in u32_le (word_of_nat (length key)) @ key @
         u32_le (word_of_nat (length val)) @ val @
         u64_le (e_lsn entry) @ u64_le (e_timestamp entry) @ u32_le (e_ttl entry) @
         [case e_op entry of Put \<Rightarrow> 1 | Delete \<Rightarrow> 2])"

text \<open>Decodes one entry and returns it with the bytes behind it.\<close>

definition deserialize_entry :: "bytes \<Rightarrow> (kv \<times> bytes) res" where
  "deserialize_entry buf =
     (let read_bytes = read_field SegmentCorrupt in
      and_then (read_bytes 4 ''key_len'' buf) (\<lambda>(kl, b1).
      and_then (read_bytes (unat (u32_of_le kl)) ''key'' b1) (\<lambda>(key, b2).
      and_then (read_bytes 4 ''val_len'' b2) (\<lambda>(vl, b3).
      and_then (read_bytes (unat (u32_of_le vl)) ''val'' b3) (\<lambda>(val_bytes, b4).
      and_then (read_bytes 8 ''lsn'' b4) (\<lambda>(lsn, b5).
      and_then (read_bytes 8 ''timestamp'' b5) (\<lambda>(timestamp, b6).
      and_then (read_bytes 4 ''ttl'' b6) (\<lambda>(ttl, b7).
      and_then (read_bytes 1 ''op'' b7) (\<lambda>(opb, b8).
      and_then (if opb ! 0 = 1 then Inr Put else if opb ! 0 = 2 then Inr Delete
                else Inl (SegmentCorrupt ''unknown op byte'')) (\<lambda>op.
        Inr ((key, \<lparr> e_key = key, e_value = (if op = Delete then None else Some val_bytes),
                     e_op = op, e_lsn = u64_of_le lsn, e_timestamp = u64_of_le timestamp,
                     e_ttl = u32_of_le ttl \<rparr>), b8)))))))))))"

section \<open>Xor filter\<close>

definition hash_key_to_u64 :: "ext \<Rightarrow> bytes \<Rightarrow> u64" where
  "hash_key_to_u64 X key = u64_of_le (take 8 (blake3 X key))"

definition build_xor_filter :: "ext \<Rightarrow> bytes list \<Rightarrow> xor8" where
  "build_xor_filter X keys = xor8_from X (remdups_adj (sort (map (hash_key_to_u64 X) keys)))"

definition write_xf_file :: "xor8 \<Rightarrow> string \<Rightarrow> dir \<Rightarrow> dir" where
  "write_xf_file f path d =
     fs_write path (u64_le (xf_seed f) @ u64_le (xf_block_length f) @
       u64_le (word_of_nat (length (xf_fingerprints f))) @ xf_fingerprints f) d"

definition read_xf_file :: "string \<Rightarrow> dir \<Rightarrow> xor8 res" where
  "read_xf_file path d =
     (case fs_read d path of
        None \<Rightarrow> Inl (Io NotFound)
      | Some file \<Rightarrow>
          and_then (read_field SegmentCorrupt 8 ''xf: truncated seed'' file) (\<lambda>(seed, b1).
          and_then (read_field SegmentCorrupt 8 ''xf: truncated block_length'' b1) (\<lambda>(bl, b2).
          and_then (read_field SegmentCorrupt 8 ''xf: truncated fingerprints_len'' b2) (\<lambda>(fl, b3).
          if unat (u64_of_le fl) > 1000000
          then Inl (SegmentCorrupt ''xf: fingerprints_len too large'')
          else and_then (read_field SegmentCorrupt (unat (u64_of_le fl)) ''xf: truncated fingerprints'' b3)
            (\<lambda>(fingerprints, b4).
               Inr \<lparr> xf_seed = u64_of_le seed, xf_block_length = u64_of_le bl,
                     xf_fingerprints = fingerprints \<rparr>)))))"

definition filter_contains :: "ext \<Rightarrow> xor8 \<Rightarrow> bytes \<Rightarrow> bool" where
  "filter_contains X f key = xor8_contains X f (hash_key_to_u64 X key)"

section \<open>Sparse index\<close>

type_synonym sparse_index = "(bytes \<times> u64) list"

definition write_idx_file :: "sparse_index \<Rightarrow> string \<Rightarrow> dir \<Rightarrow> dir" where
  "write_idx_file index path d =
     fs_write path (u64_le (word_of_nat (length index)) @
       concat (map (\<lambda>(key, offset). u32_le (word_of_nat (length key)) @ key @ u64_le offset) index)) d"

fun read_idx_entries :: "nat \<Rightarrow> bytes \<Rightarrow> sparse_index res" where
  "read_idx_entries 0 buf = Inr []"
| "read_idx_entries (Suc n) buf =
     and_then (read_field SegmentCorrupt 4 ''idx: truncated key_len'' buf) (\<lambda>(kl, b1).
     and_then (read_field SegmentCorrupt (unat (u32_of_le kl)) ''idx: truncated key'' b1) (\<lambda>(key, b2).
     and_then (read_field SegmentCorrupt 8 ''idx: truncated offset'' b2) (\<lambda>(off, b3).
     and_then (read_idx_entries n b3) (\<lambda>entries. Inr ((key, u64_of_le off) # entries)))))"

definition read_idx_file :: "string \<Rightarrow> dir \<Rightarrow> sparse_index res" where
  "read_idx_file path d =
     (case fs_read d path of
        None \<Rightarrow> Inl (Io NotFound)
      | Some file \<Rightarrow>
          and_then (read_field SegmentCorrupt 8 ''idx: truncated count'' file) (\<lambda>(c, b1).
            let count = unat (u64_of_le c)
            in if count > 10000000 then Inl (SegmentCorrupt ''idx: count too large'')
               else read_idx_entries count b1))"

section \<open>Blocks\<close>

definition aligned_size :: "usize \<Rightarrow> usize" where
  "aligned_size payload_size =
     (if payload_size mod SEGMENT_BLOCK_SIZE = 0 then payload_size
      else (payload_size div SEGMENT_BLOCK_SIZE + 1) * SEGMENT_BLOCK_SIZE)"

text \<open>The bytes \<open>flush_block_to_file\<close> writes; their number is what it returns.\<close>

definition flush_block_to_file :: "ext \<Rightarrow> bytes \<Rightarrow> bytes res" where
  "flush_block_to_file X block =
     (case zstd_encode X block of
        None \<Rightarrow> Inl (SegmentCorrupt ''zstd encode'')
      | Some compressed \<Rightarrow>
          let payload_size = 8 + length compressed;
              padding = aligned_size payload_size - payload_size
          in Inr (u32_le SEGMENT_BLOCK_MAGIC @ u32_le (word_of_nat (length compressed)) @
                  compressed @ replicate padding 0))"

section \<open>SegmentWriter\<close>

record DatWriter =
  dw_dat :: bytes
  dw_current_block :: bytes
  dw_sparse_index :: sparse_index
  dw_block_start_offset :: usize
  dw_file_offset :: usize
  dw_compressed_total :: usize
  dw_uncompressed_total :: usize

definition dat_header :: bytes where
  "dat_header = u32_le SEGMENT_FILE_MAGIC @ [SEGMENT_FORMAT_VERSION, 0, 0, 0]"

definition dat_writer_new :: DatWriter where
  "dat_writer_new = \<lparr> dw_dat = dat_header, dw_current_block = [], dw_sparse_index = [],
     dw_block_start_offset = SEGMENT_HEADER_LEN, dw_file_offset = SEGMENT_HEADER_LEN,
     dw_compressed_total = 0, dw_uncompressed_total = 0 \<rparr>"

text \<open>The body of the loop of \<open>write_dat_and_index\<close>.\<close>

definition write_one_entry :: "ext \<Rightarrow> nat \<Rightarrow> kv \<Rightarrow> DatWriter \<Rightarrow> DatWriter res" where
  "write_one_entry X idx ke w =
     (case ke of (key, entry) \<Rightarrow>
      let serialized = serialize_entry key entry;
          w1 = w\<lparr>dw_uncompressed_total := dw_uncompressed_total w + length serialized,
                 dw_sparse_index := (if idx mod SPARSE_INDEX_STRIDE = 0
                   then dw_sparse_index w @ [(key, word_of_nat (dw_block_start_offset w))]
                   else dw_sparse_index w),
                 dw_current_block := dw_current_block w @ serialized\<rparr>
      in if length (dw_current_block w1) \<ge> BLOCK_TARGET_BYTES
         then and_then (flush_block_to_file X (dw_current_block w1)) (\<lambda>written.
                Inr (w1\<lparr>dw_dat := dw_dat w1 @ written,
                        dw_compressed_total := dw_compressed_total w1 + length written,
                        dw_file_offset := dw_file_offset w1 + length written,
                        dw_block_start_offset := dw_file_offset w1 + length written,
                        dw_current_block := []\<rparr>))
         else Inr w1)"

fun write_all_entries :: "ext \<Rightarrow> nat \<Rightarrow> kv list \<Rightarrow> DatWriter \<Rightarrow> DatWriter res" where
  "write_all_entries X idx [] w = Inr w"
| "write_all_entries X idx (ke # entries) w =
     and_then (write_one_entry X idx ke w) (write_all_entries X (idx + 1) entries)"

definition finish_dat :: "ext \<Rightarrow> DatWriter \<Rightarrow> DatWriter res" where
  "finish_dat X w =
     (if dw_current_block w \<noteq> []
      then and_then (flush_block_to_file X (dw_current_block w)) (\<lambda>written.
             Inr (w\<lparr>dw_dat := dw_dat w @ written,
                    dw_compressed_total := dw_compressed_total w + length written\<rparr>))
      else Inr w)"

definition write_dat_and_index ::
  "ext \<Rightarrow> SegmentId \<Rightarrow> kv list \<Rightarrow> dir \<Rightarrow> (DatWriter \<times> dir) res" where
  "write_dat_and_index X i entries d =
     and_then (write_all_entries X 0 entries dat_writer_new) (\<lambda>w.
     and_then (finish_dat X w) (\<lambda>w'.
       Inr (w', write_idx_file (dw_sparse_index w') (idx_path i) (fs_write (dat_path i) (dw_dat w') d))))"

definition merkle_root_of_keys :: "ext \<Rightarrow> bytes list \<Rightarrow> bytes" where
  "merkle_root_of_keys X keys = blake3 X (concat (sort (map (blake3 X) keys)))"

definition segment_meta_of ::
  "ext \<Rightarrow> SegmentId \<Rightarrow> u64 \<Rightarrow> i64 \<Rightarrow> kv list \<Rightarrow> bytes \<Rightarrow> usize \<Rightarrow> usize \<Rightarrow> i64 \<Rightarrow> SegmentMeta" where
  "segment_meta_of X i window now entries dat compressed uncompressed cohort_bucket =
     \<lparr> m_segment_id = i, m_segment_hash = blake3 X dat,
       m_min_key = fst (hd entries), m_max_key = fst (last entries),
       m_min_lsn = Min (set (map (e_lsn \<circ> snd) entries)),
       m_max_lsn = Max (set (map (e_lsn \<circ> snd) entries)),
       m_record_count = word_of_nat (length entries),
       m_compressed_bytes = word_of_nat compressed, m_uncompressed_bytes = word_of_nat uncompressed,
       m_compression = ''zstd:1'', m_cohort_bucket = cohort_bucket,
       m_death_time = word_of_int (Max (set (map (\<lambda>(k, e).
          sint (death_time_for (e_timestamp e) (e_ttl e) window)) entries))),
       m_merkle_root = merkle_root_of_keys X (map fst entries), m_created_at = now,
       m_text_index_stripped = False, m_vector_index_stripped = False \<rparr>"

definition SegmentWriter_flush ::
  "ext \<Rightarrow> SegmentId \<Rightarrow> u64 \<Rightarrow> i64 \<Rightarrow> kv list \<Rightarrow> dir \<Rightarrow> (SegmentMeta \<times> dir) res" where
  "SegmentWriter_flush X i window now entries d =
     (if entries = [] then Inl (SegmentCorrupt ''empty entries'')
      else
        and_then (write_dat_and_index X i entries d) (\<lambda>(w, d1).
        let d2 = write_xf_file (build_xor_filter X (map fst entries)) (xf_path i) d1;
            first = snd (hd entries)
        in and_then (cohort_bucket_for (e_timestamp first) (e_ttl first) window) (\<lambda>cohort_bucket.
        let meta = segment_meta_of X i window now entries (dw_dat w) (dw_compressed_total w)
                     (dw_uncompressed_total w) cohort_bucket
        in Inr (meta, fs_write (meta_path i) (json_meta X meta) d2))))"

section \<open>SegmentReader\<close>

record SegmentReader =
  sr_segment_id :: SegmentId
  sr_meta :: SegmentMeta
  sr_filter :: xor8
  sr_index :: sparse_index

definition SegmentReader_open :: "ext \<Rightarrow> SegmentId \<Rightarrow> dir \<Rightarrow> SegmentReader res" where
  "SegmentReader_open X i d =
     (case fs_read d (meta_path i) of
        None \<Rightarrow> Inl (Io NotFound)
      | Some file \<Rightarrow>
          (case json_meta_parse X file of
             None \<Rightarrow> Inl (SegmentCorrupt ''meta parse'')
           | Some meta \<Rightarrow>
               and_then (read_xf_file (xf_path i) d) (\<lambda>f.
               and_then (read_idx_file (idx_path i) d) (\<lambda>index.
                 Inr \<lparr> sr_segment_id = i, sr_meta = meta, sr_filter = f, sr_index = index \<rparr>))))"

text \<open>
  \<open>slice::partition_point\<close> returns the number of leading elements that satisfy the predicate
  (of a slice in which these come first, as the keys of an index do).
\<close>

definition find_block_offset :: "sparse_index \<Rightarrow> bytes \<Rightarrow> usize" where
  "find_block_offset index query_key =
     (if index = [] then 8
      else let pos = length (takeWhile (\<lambda>(k, off). k \<le> query_key) index)
           in if pos = 0 then unat (snd (index ! 0)) else unat (snd (index ! (pos - 1))))"

lemma deserialize_entry_shorter:
  "deserialize_entry buf = Inr (ke, rest) \<Longrightarrow> length rest < length buf"
  by (auto simp: deserialize_entry_def Let_def and_then_Inr_iff read_field_Inr split: prod.splits)

text \<open>The loop that decodes the entries of a decompressed block; it stops at the first error.\<close>

function decode_block :: "bytes \<Rightarrow> kv list" where
  "decode_block buf =
     (if buf = [] then []
      else case deserialize_entry buf of
             Inr (ke, rest) \<Rightarrow> ke # decode_block rest
           | Inl e \<Rightarrow> [])"
  by pat_completeness auto
termination
  by (relation "measure length") (auto dest: deserialize_entry_shorter)

declare decode_block.simps [simp del]

definition read_block_at_offset :: "ext \<Rightarrow> bytes \<Rightarrow> usize \<Rightarrow> (kv list \<times> usize) res" where
  "read_block_at_offset X dat offset =
     (let b0 = drop offset dat in
      if length b0 < 4 then Inr ([], 0)
      else if u32_of_le (take 4 b0) \<noteq> SEGMENT_BLOCK_MAGIC then Inr ([], 0)
      else if length (drop 4 b0) < 4 then Inl (Io UnexpectedEof)
      else
        let compressed_len = unat (u32_of_le (take 4 (drop 4 b0)));
            b2 = drop 8 b0
        in if length b2 < compressed_len then Inl (Io UnexpectedEof)
           else case zstd_decode X (take compressed_len b2) of
                  None \<Rightarrow> Inl (SegmentCorrupt ''zstd decode'')
                | Some decompressed \<Rightarrow>
                    if length decompressed > MAX_BLOCK_DECOMPRESSED
                    then Inl (SegmentCorrupt ''decompressed block too large'')
                    else Inr (decode_block decompressed, aligned_size (8 + compressed_len)))"

text \<open>The inner loop of \<open>get\<close>: a definite answer, or go on with the next block.\<close>

fun find_in_block :: "bytes \<Rightarrow> kv list \<Rightarrow> MemEntry option option" where
  "find_in_block key [] = None"
| "find_in_block key ((k, entry) # entries) =
     (if k = key then Some (Some entry)
      else if k > key then Some None
      else find_in_block key entries)"

function get_loop :: "ext \<Rightarrow> bytes \<Rightarrow> bytes \<Rightarrow> usize \<Rightarrow> MemEntry option res" where
  "get_loop X dat key current_offset =
     (if current_offset \<ge> length dat then Inr None
      else case read_block_at_offset X dat current_offset of
             Inl e \<Rightarrow> Inl e
           | Inr (entries, sz) \<Rightarrow>
               if entries = [] \<or> sz = 0 then Inr None
               else case find_in_block key entries of
                      Some answer \<Rightarrow> Inr answer
                    | None \<Rightarrow> get_loop X dat key (current_offset + sz))"
  by pat_completeness auto
termination
  by (relation "measure (\<lambda>(X, dat, key, off). length dat - off)") auto

declare get_loop.simps [simp del]

text \<open>As in release builds, without the debug assertion that the key is not empty (no encoded key is).\<close>

definition SegmentReader_get :: "ext \<Rightarrow> dir \<Rightarrow> SegmentReader \<Rightarrow> bytes \<Rightarrow> MemEntry option res" where
  "SegmentReader_get X d r key =
     (if \<not> filter_contains X (sr_filter r) key then Inr None
      else case fs_read d (dat_path (sr_segment_id r)) of
             None \<Rightarrow> Inl (Io NotFound)
           | Some dat \<Rightarrow> get_loop X dat key (find_block_offset (sr_index r) key))"

text \<open>The inner loop of a scan: the entries in range and whether the end was passed.\<close>

fun scan_block :: "bytes \<Rightarrow> bytes \<Rightarrow> kv list \<Rightarrow> kv list \<times> bool" where
  "scan_block start end [] = ([], False)"
| "scan_block start end ((k, entry) # entries) =
     (if k \<ge> end then ([], True)
      else let (rest, past_end) = scan_block start end entries
           in if k \<ge> start then ((k, entry) # rest, past_end) else (rest, past_end))"

function scan_loop :: "ext \<Rightarrow> bytes \<Rightarrow> bytes \<Rightarrow> bytes \<Rightarrow> usize \<Rightarrow> kv list res" where
  "scan_loop X dat start end current_offset =
     (if current_offset \<ge> length dat then Inr []
      else case read_block_at_offset X dat current_offset of
             Inl e \<Rightarrow> Inl e
           | Inr (entries, sz) \<Rightarrow>
               if entries = [] \<or> sz = 0 then Inr []
               else case scan_block start end entries of
                      (results, past_end) \<Rightarrow>
                        if past_end then Inr results
                        else and_then (scan_loop X dat start end (current_offset + sz))
                               (\<lambda>rest. Inr (results @ rest)))"
  by pat_completeness auto
termination
  by (relation "measure (\<lambda>(X, dat, start, end, off). length dat - off)") auto

declare scan_loop.simps [simp del]

definition SegmentReader_range_scan ::
  "ext \<Rightarrow> dir \<Rightarrow> SegmentReader \<Rightarrow> bytes \<Rightarrow> bytes \<Rightarrow> kv list res" where
  "SegmentReader_range_scan X d r start end =
     (if end < m_min_key (sr_meta r) \<or> start > m_max_key (sr_meta r) then Inr []
      else case fs_read d (dat_path (sr_segment_id r)) of
             None \<Rightarrow> Inl (Io NotFound)
           | Some dat \<Rightarrow> scan_loop X dat start end (find_block_offset (sr_index r) start))"

function parse_dat_loop :: "ext \<Rightarrow> bytes \<Rightarrow> usize \<Rightarrow> kv list res" where
  "parse_dat_loop X data offset =
     (if offset \<ge> length data \<or> offset + 8 > length data then Inr []
      else if u32_of_le (take 4 (drop offset data)) \<noteq> SEGMENT_BLOCK_MAGIC then Inr []
      else
        let compressed_len = unat (u32_of_le (take 4 (drop (offset + 4) data)));
            sz = aligned_size (8 + compressed_len)
        in if offset + 8 + compressed_len > length data then Inr []
           else case zstd_decode X (take compressed_len (drop (offset + 8) data)) of
                  None \<Rightarrow> Inl (SegmentCorrupt ''parse_dat_entries zstd decode'')
                | Some decompressed \<Rightarrow>
                    if length decompressed > MAX_BLOCK_DECOMPRESSED
                    then Inl (SegmentCorrupt ''decompressed block too large'')
                    else and_then (parse_dat_loop X data (offset + sz))
                           (\<lambda>rest. Inr (decode_block decompressed @ rest)))"
  by pat_completeness auto
termination
  by (relation "measure (\<lambda>(X, data, off). length data - off)")
     (auto simp: aligned_size_def SEGMENT_BLOCK_SIZE_def)

declare parse_dat_loop.simps [simp del]

definition parse_dat_entries :: "ext \<Rightarrow> bytes \<Rightarrow> kv list res" where
  "parse_dat_entries X data = parse_dat_loop X data SEGMENT_HEADER_LEN"

end
