(* ===== verification/SegmentFacts.thy ===== *)
theory SegmentFacts
  imports SegmentFile
begin

text \<open>
  What a written segment gives back: the codecs of \<open>SegmentFile\<close> invert each other, the writer
  lays the entries out in blocks that the sparse index points into, and lookups, scans and the
  parser of replicated files see exactly the entries that were written.
\<close>

section \<open>Entries and blocks\<close>

definition entry_wf :: "kv \<Rightarrow> bool" where
  "entry_wf ke \<longleftrightarrow> (case ke of (k, e) \<Rightarrow>
     e_key e = k \<and> (e_op e = Delete \<longleftrightarrow> e_value e = None) \<and> length k < 2 ^ 32 \<and>
     (\<forall>v. e_value e = Some v \<longrightarrow> length v < 2 ^ 32))"

lemma deserialize_serialize_entry:
  assumes "entry_wf (k, e)"
  shows "deserialize_entry (serialize_entry k e @ rest) = Inr ((k, e), rest)"
proof (cases "e_op e")
  case Put
  with assms obtain v where "e_value e = Some v" by (auto simp: entry_wf_def)
  with Put assms show ?thesis
    by (simp add: deserialize_entry_def serialize_entry_def entry_wf_def unat_u32_of_nat Let_def)
next
  case Delete
  with assms show ?thesis
    by (simp add: deserialize_entry_def serialize_entry_def entry_wf_def unat_u32_of_nat Let_def)
qed

lemma serialize_entry_ne [simp]: "serialize_entry k e \<noteq> []"
proof -
  have "length (serialize_entry k e) > 0" by (simp add: serialize_entry_def Let_def)
  then show ?thesis by fastforce
qed

definition ser_block :: "kv list \<Rightarrow> bytes" where
  "ser_block b = concat (map (\<lambda>(k, e). serialize_entry k e) b)"

lemma ser_block_simps [simp]:
  "ser_block [] = []" "ser_block ((k, e) # b) = serialize_entry k e @ ser_block b"
  "ser_block (b @ c) = ser_block b @ ser_block c"
  by (simp_all add: ser_block_def)

lemma ser_block_empty: "ser_block b = [] \<longleftrightarrow> b = []"
  by (cases b) auto

lemma decode_ser_block: "\<forall>ke \<in> set b. entry_wf ke \<Longrightarrow> decode_block (ser_block b) = b"
proof (induction b)
  case Nil
  then show ?case by (simp add: decode_block.simps)
next
  case (Cons ke b)
  obtain k e where "ke = (k, e)" by (cases ke)
  with Cons show ?case
    by (simp add: decode_block.simps [of "serialize_entry k e @ ser_block b"] deserialize_serialize_entry)
qed

lemma aligned_size_ge: "n \<le> aligned_size n"
  unfolding aligned_size_def SEGMENT_BLOCK_SIZE_def
  by (auto intro: less_imp_le dividend_less_div_times)

lemma aligned_size_pos: "0 < n \<Longrightarrow> 0 < aligned_size n"
  using aligned_size_ge [of n] by simp

definition block_ok :: "kv list \<Rightarrow> bool" where
  "block_ok b \<longleftrightarrow> b \<noteq> [] \<and> length (ser_block b) \<le> 2 ^ 21 \<and> (\<forall>ke \<in> set b. entry_wf ke)"

definition block_bytes :: "ext \<Rightarrow> kv list \<Rightarrow> bytes" where
  "block_bytes X b = (case flush_block_to_file X (ser_block b) of Inr bs \<Rightarrow> bs | Inl e \<Rightarrow> [])"

lemma flush_block_ok:
  "zstd_ok X \<Longrightarrow> flush_block_to_file X (ser_block b) = Inr (block_bytes X b)"
proof -
  assume "zstd_ok X"
  then obtain c where "zstd_encode X (ser_block b) = Some c" unfolding zstd_ok_def by blast
  then show ?thesis by (simp add: block_bytes_def flush_block_to_file_def Let_def)
qed

lemma block_bytes_layout:
  assumes "zstd_ok X" "block_ok b"
  obtains c where "zstd_decode X c = Some (ser_block b)" "length c < 2 ^ 32"
    "block_bytes X b = u32_le SEGMENT_BLOCK_MAGIC @ u32_le (word_of_nat (length c)) @ c @
       replicate (aligned_size (8 + length c) - (8 + length c)) 0"
    "length (block_bytes X b) = aligned_size (8 + length c)"
proof -
  from assms obtain c where c: "zstd_encode X (ser_block b) = Some c"
    "zstd_decode X c = Some (ser_block b)" "length c < 2 ^ 32"
    unfolding zstd_ok_def block_ok_def by blast
  then have eq: "block_bytes X b = u32_le SEGMENT_BLOCK_MAGIC @ u32_le (word_of_nat (length c)) @ c @
       replicate (aligned_size (8 + length c) - (8 + length c)) 0"
    by (simp add: block_bytes_def flush_block_to_file_def Let_def)
  moreover have "length (block_bytes X b) = aligned_size (8 + length c)"
    using aligned_size_ge [of "8 + length c"] by (simp add: eq)
  ultimately show ?thesis using that c by blast
qed

lemma block_bytes_ne: "zstd_ok X \<Longrightarrow> block_ok b \<Longrightarrow> 0 < length (block_bytes X b)"
  by (erule (1) block_bytes_layout) (simp add: aligned_size_pos)

lemma read_block_ok:
  assumes "zstd_ok X" "block_ok b"
  shows "read_block_at_offset X (pre @ block_bytes X b @ post) (length pre) =
           Inr (b, length (block_bytes X b))"
proof -
  obtain c where c: "zstd_decode X c = Some (ser_block b)" "length c < 2 ^ 32"
    "block_bytes X b = u32_le SEGMENT_BLOCK_MAGIC @ u32_le (word_of_nat (length c)) @ c @
       replicate (aligned_size (8 + length c) - (8 + length c)) 0"
    "length (block_bytes X b) = aligned_size (8 + length c)"
    using assms by (rule block_bytes_layout)
  have len: "unat (word_of_nat (length c) :: u32) = length c" using c(2) by (simp add: unat_u32_of_nat)
  have d: "decode_block (ser_block b) = b" "length (ser_block b) \<le> MAX_BLOCK_DECOMPRESSED"
    using assms(2)
    by (simp_all add: decode_ser_block block_ok_def MAX_BLOCK_DECOMPRESSED_def SEGMENT_BLOCK_SIZE_def)
  show ?thesis
    unfolding read_block_at_offset_def c(4) unfolding c(3) using c(1) d
    by (simp add: len Let_def del: unsigned_of_nat)
qed

section \<open>The data file\<close>

definition dat_of :: "ext \<Rightarrow> kv list list \<Rightarrow> bytes" where
  "dat_of X bs = dat_header @ concat (map (block_bytes X) bs)"

lemma dat_of_simps [simp]:
  "dat_of X [] = dat_header" "dat_of X (bs @ [b]) = dat_of X bs @ block_bytes X b"
  by (simp_all add: dat_of_def)

lemma dat_of_append: "dat_of X (bs @ bs') = dat_of X bs @ concat (map (block_bytes X) bs')"
  by (simp add: dat_of_def)

lemma length_dat_header [simp]: "length dat_header = 8"
  by (simp add: dat_header_def)

lemma read_block_dat:
  assumes "zstd_ok X" "\<forall>b \<in> set (bs1 @ b # bs2). block_ok b"
  shows "read_block_at_offset X (dat_of X (bs1 @ b # bs2)) (length (dat_of X bs1)) =
           Inr (b, length (block_bytes X b))"
    and "length (dat_of X bs1) + length (block_bytes X b) = length (dat_of X (bs1 @ [b]))"
    and "length (dat_of X bs1) < length (dat_of X (bs1 @ b # bs2))"
    and "0 < length (block_bytes X b)"
  using assms read_block_ok [of X b "dat_of X bs1" "concat (map (block_bytes X) bs2)"]
    block_bytes_ne [of X b]
  by (simp_all add: dat_of_append)

text \<open>
  The loops that walk over the blocks of a file, and how they see its entries: a step of
  \<open>get\<close> or of a scan on a whole block is a step on its entries.
\<close>

lemma find_in_block_spec:
  assumes "ksorted (b @ rest)"
  shows "case find_in_block k b of
           Some r \<Rightarrow> map_of (b @ rest) k = r
         | None \<Rightarrow> map_of (b @ rest) k = map_of rest k"
  using assms
proof (induction b)
  case (Cons ke b)
  obtain k' e where ke: "ke = (k', e)" by (cases ke)
  have "map_of (b @ rest) k = None" if "k < k'"
    using Cons.prems that ke by (intro map_of_None_if) (auto intro: less_asym)
  with Cons ke show ?case by (auto split: option.splits)
qed simp

lemma get_loop_blocks:
  assumes "zstd_ok X"
  shows "\<forall>b \<in> set (bs1 @ bs2). block_ok b \<Longrightarrow> ksorted (concat bs2) \<Longrightarrow>
    get_loop X (dat_of X (bs1 @ bs2)) k (length (dat_of X bs1)) = Inr (map_of (concat bs2) k)"
proof (induction bs2 arbitrary: bs1)
  case Nil
  then show ?case by (simp add: get_loop.simps)
next
  case (Cons b bs2)
  note r = read_block_dat [OF assms Cons.prems(1)]
  have ne: "b \<noteq> []" using Cons.prems(1) by (simp add: block_ok_def)
  have "ksorted (concat bs2)" using Cons.prems(2) by (simp add: sorted_wrt_append)
  with Cons.IH [of "bs1 @ [b]"] Cons.prems(1)
  have ih: "get_loop X (dat_of X (bs1 @ b # bs2)) k (length (dat_of X bs1) + length (block_bytes X b)) =
    Inr (map_of (concat bs2) k)" by (simp add: r(2) del: dat_of_simps)
  show ?case
    by (subst get_loop.simps)
       (use r(1,3,4) ne ih find_in_block_spec [of b "concat bs2" k] Cons.prems(2)
        in \<open>auto split: option.splits\<close>)
qed

lemma scan_block_spec:
  assumes "ksorted (b @ rest)"
  shows "case scan_block lo hi b of (rs, past) \<Rightarrow>
    filter (\<lambda>(k, e). lo \<le> k \<and> k < hi) (b @ rest) =
      rs @ (if past then [] else filter (\<lambda>(k, e). lo \<le> k \<and> k < hi) rest)"
  using assms
proof (induction b)
  case (Cons ke b)
  obtain k e where ke: "ke = (k, e)" by (cases ke)
  have "\<forall>x \<in> set (b @ rest). k < fst x" using Cons.prems ke by auto
  then have "filter (\<lambda>(k, e). lo \<le> k \<and> k < hi) (b @ rest) = []" if "hi \<le> k"
    using that by (intro filter_False) (metis (mono_tags, lifting) case_prodE fst_conv leD less_imp_le order_trans)
  with Cons ke show ?case by (auto split: prod.splits)
qed simp

lemma scan_loop_blocks:
  assumes "zstd_ok X"
  shows "\<forall>b \<in> set (bs1 @ bs2). block_ok b \<Longrightarrow> ksorted (concat bs2) \<Longrightarrow>
    scan_loop X (dat_of X (bs1 @ bs2)) lo hi (length (dat_of X bs1)) =
      Inr (filter (\<lambda>(k, e). lo \<le> k \<and> k < hi) (concat bs2))"
proof (induction bs2 arbitrary: bs1)
  case Nil
  then show ?case by (simp add: scan_loop.simps)
next
  case (Cons b bs2)
  note r = read_block_dat [OF assms Cons.prems(1)]
  have ne: "b \<noteq> []" using Cons.prems(1) by (simp add: block_ok_def)
  have "ksorted (concat bs2)" using Cons.prems(2) by (simp add: sorted_wrt_append)
  with Cons.IH [of "bs1 @ [b]"] Cons.prems(1)
  have ih: "scan_loop X (dat_of X (bs1 @ b # bs2)) lo hi (length (dat_of X bs1) + length (block_bytes X b)) =
    Inr (filter (\<lambda>(k, e). lo \<le> k \<and> k < hi) (concat bs2))" by (simp add: r(2) del: dat_of_simps)
  obtain rs past where s: "scan_block lo hi b = (rs, past)" by fastforce
  have "filter (\<lambda>(k, e). lo \<le> k \<and> k < hi) (concat (b # bs2)) =
      rs @ (if past then [] else filter (\<lambda>(k, e). lo \<le> k \<and> k < hi) (concat bs2))"
    using scan_block_spec [of b "concat bs2" lo hi] Cons.prems(2) s by simp
  then show ?case
    by (subst scan_loop.simps) (use r(1,3,4) ne ih s in auto)
qed

lemma parse_dat_loop_blocks:
  assumes "zstd_ok X"
  shows "\<forall>b \<in> set (bs1 @ bs2). block_ok b \<Longrightarrow>
    parse_dat_loop X (dat_of X (bs1 @ bs2)) (length (dat_of X bs1)) = Inr (concat bs2)"
proof (induction bs2 arbitrary: bs1)
  case Nil
  then show ?case by (simp add: parse_dat_loop.simps)
next
  case (Cons b bs2)
  note r = read_block_dat [OF assms Cons.prems]
  let ?dat = "dat_of X (bs1 @ b # bs2)" and ?n = "length (dat_of X bs1)"
  have b: "block_ok b" using Cons.prems by simp
  obtain c where c: "zstd_decode X c = Some (ser_block b)" "length c < 2 ^ 32"
    "block_bytes X b = u32_le SEGMENT_BLOCK_MAGIC @ u32_le (word_of_nat (length c)) @ c @
       replicate (aligned_size (8 + length c) - (8 + length c)) 0"
    "length (block_bytes X b) = aligned_size (8 + length c)"
    using assms b by (rule block_bytes_layout)
  have len: "unat (word_of_nat (length c) :: u32) = length c" using c(2) by (simp add: unat_u32_of_nat)
  have d: "decode_block (ser_block b) = b" "length (ser_block b) \<le> MAX_BLOCK_DECOMPRESSED"
    using b by (simp_all add: decode_ser_block block_ok_def MAX_BLOCK_DECOMPRESSED_def SEGMENT_BLOCK_SIZE_def)
  from Cons.IH [of "bs1 @ [b]"] Cons.prems
  have ih: "parse_dat_loop X ?dat (?n + aligned_size (8 + length c)) = Inr (concat bs2)"
    by (simp add: r(2) c(4) [symmetric] del: dat_of_simps)
  have drop: "drop (?n + j) ?dat = drop j (block_bytes X b @ concat (map (block_bytes X) bs2))" for j
    by (simp add: dat_of_append)
  have split: "drop ?n ?dat = block_bytes X b @ concat (map (block_bytes X) bs2)"
    using drop [of 0] by simp
  have ge: "8 + length c \<le> aligned_size (8 + length c)" by (rule aligned_size_ge)
  then have long: "?n + 8 + length c \<le> length ?dat" by (simp add: dat_of_append c(4))
  show ?case
    apply (subst parse_dat_loop.simps)
    using long ih d c(1)
    by (simp add: drop split c(3) len Let_def del: unsigned_of_nat)
qed

section \<open>What the writer lays out\<close>

text \<open>
  An index entry points to the start of a block such that all keys before that block are
  smaller than the key of the entry.
\<close>

definition index_ok :: "ext \<Rightarrow> kv list list \<Rightarrow> sparse_index \<Rightarrow> bool" where
  "index_ok X bs index \<longleftrightarrow> (\<forall>(k, off) \<in> set index. \<exists>bs1 bs2. bs = bs1 @ bs2 \<and>
     off = word_of_nat (length (dat_of X bs1)) \<and> (\<forall>x \<in> set (concat bs1). fst x < k))"

definition entry_small :: "kv \<Rightarrow> bool" where
  "entry_small ke \<longleftrightarrow> entry_wf ke \<and> length (serialize_entry (fst ke) (snd ke)) + BLOCK_TARGET_BYTES \<le> 2 ^ 21"

text \<open>The state of the writer after the entries \<open>es\<close>, of which \<open>pend\<close> are not in a block yet.\<close>

definition writer_inv :: "ext \<Rightarrow> kv list \<Rightarrow> kv list list \<Rightarrow> kv list \<Rightarrow> DatWriter \<Rightarrow> bool" where
  "writer_inv X es bs pend w \<longleftrightarrow>
     es = concat bs @ pend \<and> dw_dat w = dat_of X bs \<and> dw_current_block w = ser_block pend \<and>
     length (ser_block pend) < BLOCK_TARGET_BYTES \<and> (\<forall>b \<in> set bs. block_ok b) \<and>
     dw_file_offset w = length (dat_of X bs) \<and> dw_block_start_offset w = length (dat_of X bs) \<and>
     index_ok X bs (dw_sparse_index w) \<and>
     (es \<noteq> [] \<longrightarrow> dw_sparse_index w \<noteq> [] \<and> fst (hd (dw_sparse_index w)) = fst (hd es)) \<and>
     fst ` set (dw_sparse_index w) \<subseteq> fst ` set es \<and>
     length (dw_sparse_index w) = (length es + 63) div 64"

lemma index_ok_snoc: "index_ok X bs index \<Longrightarrow> index_ok X (bs @ [b]) index"
  unfolding index_ok_def by (fastforce intro: append_assoc)

lemma index_ok_add:
  assumes "index_ok X bs index" "\<forall>x \<in> set (concat bs). fst x < k"
  shows "index_ok X bs (index @ [(k, word_of_nat (length (dat_of X bs)))])"
  using assms unfolding index_ok_def by auto

lemma stride_count:
  "(n + 64) div 64 = (if n mod 64 = 0 then Suc ((n + 63) div 64) else (n + 63) div (64 :: nat))"
proof -
  let ?q = "n div 64" and ?r = "n mod 64"
  have n: "n = 64 * ?q + ?r" "?r < 64" by simp_all
  have "(n + 63) div 64 = (if ?r = 0 then ?q else Suc ?q)"
    by (rule div_nat_eqI; cases "?r = 0") (use n in \<open>simp_all, linarith+\<close>)
  moreover have "(n + 64) div 64 = Suc ?q" by simp
  ultimately show ?thesis by simp
qed

lemma writer_inv_new: "writer_inv X [] [] [] dat_writer_new"
  by (simp add: writer_inv_def dat_writer_new_def index_ok_def BLOCK_TARGET_BYTES_def
        SEGMENT_HEADER_LEN_def)

lemma write_one_entry_inv:
  assumes "zstd_ok X" "writer_inv X es bs pend w" "ksorted (es @ [ke])" "\<forall>x \<in> set (es @ [ke]). entry_small x"
  shows "\<exists>bs' pend' w'. write_one_entry X (length es) ke w = Inr w' \<and> writer_inv X (es @ [ke]) bs' pend' w'"
proof -
  obtain k e where ke: "ke = (k, e)" by (cases ke)
  let ?index = "if length es mod SPARSE_INDEX_STRIDE = 0
    then dw_sparse_index w @ [(k, word_of_nat (length (dat_of X bs)))] else dw_sparse_index w"
  note inv = assms(2) [unfolded writer_inv_def]
  have less: "\<forall>x \<in> set (concat bs). fst x < k" using inv assms(3) ke by (auto simp: sorted_wrt_append)
  have iok: "index_ok X bs ?index" using inv less index_ok_add by auto
  have ine: "?index \<noteq> [] \<and> fst (hd ?index) = fst (hd (es @ [ke]))"
  proof (cases es)
    case Nil
    have "length (dw_sparse_index w) = (length es + 63) div 64" using inv by blast
    with Nil ke show ?thesis by (simp add: SPARSE_INDEX_STRIDE_def)
  next
    case (Cons a es')
    have "es \<noteq> [] \<longrightarrow> dw_sparse_index w \<noteq> [] \<and> fst (hd (dw_sparse_index w)) = fst (hd es)"
      using inv by blast
    with Cons show ?thesis by simp
  qed
  have "length (dw_sparse_index w) = (length es + 63) div 64" using inv by blast
  then have len: "length ?index = (length (es @ [ke]) + 63) div 64"
    using stride_count [of "length es"] by (simp add: SPARSE_INDEX_STRIDE_def add.commute)
  have "fst ` set (dw_sparse_index w) \<subseteq> fst ` set es" using inv by blast
  then have keys: "fst ` set ?index \<subseteq> fst ` set (es @ [ke])" using ke by auto
  have wf: "\<forall>x \<in> set (pend @ [ke]). entry_wf x" using inv assms(4) by (auto simp: entry_small_def)
  have small: "length (ser_block (pend @ [ke])) \<le> 2 ^ 21"
    using inv assms(4) by (auto simp: entry_small_def ke)
  show ?thesis
  proof (cases "BLOCK_TARGET_BYTES \<le> length (ser_block (pend @ [ke]))")
    case True
    have ok: "block_ok (pend @ [ke])" using wf small by (simp add: block_ok_def)
    let ?w = "w\<lparr>dw_dat := dw_dat w @ block_bytes X (pend @ [ke]),
       dw_uncompressed_total := dw_uncompressed_total w + length (serialize_entry k e),
       dw_sparse_index := ?index,
       dw_compressed_total := dw_compressed_total w + length (block_bytes X (pend @ [ke])),
       dw_file_offset := dw_file_offset w + length (block_bytes X (pend @ [ke])),
       dw_block_start_offset := dw_file_offset w + length (block_bytes X (pend @ [ke])),
       dw_current_block := []\<rparr>"
    have "write_one_entry X (length es) ke w = Inr ?w"
      using True inv flush_block_ok [OF assms(1), of "pend @ [ke]"]
      by (simp add: write_one_entry_def ke Let_def)
    moreover have "writer_inv X (es @ [ke]) (bs @ [pend @ [ke]]) [] ?w"
      using inv ok iok ine len keys
      by (simp add: writer_inv_def index_ok_snoc BLOCK_TARGET_BYTES_def)
    ultimately show ?thesis by blast
  next
    case False
    let ?w = "w\<lparr>dw_uncompressed_total := dw_uncompressed_total w + length (serialize_entry k e),
       dw_sparse_index := ?index, dw_current_block := dw_current_block w @ serialize_entry k e\<rparr>"
    have "write_one_entry X (length es) ke w = Inr ?w"
      using False inv by (simp add: write_one_entry_def ke Let_def)
    moreover have "writer_inv X (es @ [ke]) bs (pend @ [ke]) ?w"
      using inv False iok ine len keys by (simp add: writer_inv_def ke)
    ultimately show ?thesis by blast
  qed
qed

lemma write_all_entries_inv:
  assumes "zstd_ok X"
  shows "writer_inv X es bs pend w \<Longrightarrow> ksorted (es @ rest) \<Longrightarrow> \<forall>x \<in> set (es @ rest). entry_small x \<Longrightarrow>
    \<exists>bs' pend' w'. write_all_entries X (length es) rest w = Inr w' \<and> writer_inv X (es @ rest) bs' pend' w'"
proof (induction rest arbitrary: es bs pend w)
  case (Cons ke rest)
  have "ksorted (es @ [ke])" using Cons.prems(2) by (auto simp: sorted_wrt_append)
  moreover have "\<forall>x \<in> set (es @ [ke]). entry_small x" using Cons.prems(3) by simp
  ultimately obtain bs1 pend1 w1 where
    1: "write_one_entry X (length es) ke w = Inr w1" "writer_inv X (es @ [ke]) bs1 pend1 w1"
    using write_one_entry_inv [OF assms Cons.prems(1), of ke] by blast
  from Cons.IH [OF 1(2)] Cons.prems show ?case by (simp add: 1(1))
qed auto

lemma write_dat_and_index_spec:
  assumes "zstd_ok X" "ksorted es" "\<forall>x \<in> set es. entry_small x" "es \<noteq> []"
  shows "\<exists>bs w. write_dat_and_index X i es d =
           Inr (w, write_idx_file (dw_sparse_index w) (idx_path i) (fs_write (dat_path i) (dw_dat w) d)) \<and>
         dw_dat w = dat_of X bs \<and> concat bs = es \<and> (\<forall>b \<in> set bs. block_ok b) \<and>
         index_ok X bs (dw_sparse_index w) \<and> dw_sparse_index w \<noteq> [] \<and>
         fst (hd (dw_sparse_index w)) = fst (hd es) \<and> fst ` set (dw_sparse_index w) \<subseteq> fst ` set es \<and>
         length (dw_sparse_index w) = (length es + 63) div 64"
proof -
  from write_all_entries_inv [OF assms(1) writer_inv_new, of es] assms(2,3)
  obtain bs pend w where w: "write_all_entries X 0 es dat_writer_new = Inr w" "writer_inv X es bs pend w"
    by auto
  note inv = w(2) [unfolded writer_inv_def]
  show ?thesis
  proof (cases "pend = []")
    case True
    with inv have "finish_dat X w = Inr w" by (simp add: finish_dat_def)
    with w(1) inv True assms(4) show ?thesis by (auto simp: write_dat_and_index_def)
  next
    case False
    let ?w = "w\<lparr>dw_dat := dw_dat w @ block_bytes X pend,
                dw_compressed_total := dw_compressed_total w + length (block_bytes X pend)\<rparr>"
    have "block_ok pend" using False inv assms(3)
      by (auto simp: block_ok_def BLOCK_TARGET_BYTES_def entry_small_def)
    moreover have "finish_dat X w = Inr ?w"
      using False inv flush_block_ok [OF assms(1)] by (simp add: finish_dat_def ser_block_empty)
    moreover have "concat (bs @ [pend]) = es" "dw_dat ?w = dat_of X (bs @ [pend])"
      "index_ok X (bs @ [pend]) (dw_sparse_index ?w)"
      using inv by (simp_all add: index_ok_snoc)
    moreover have "dw_sparse_index w \<noteq> []" "fst ` set (dw_sparse_index w) \<subseteq> fst ` set es"
      "fst (hd (dw_sparse_index w)) = fst (hd es)"
      "length (dw_sparse_index w) = (length es + 63) div 64" "\<forall>b \<in> set bs. block_ok b"
      using inv assms(4) by blast+
    ultimately show ?thesis
      by (intro exI [of _ "bs @ [pend]"] exI [of _ ?w]) (simp add: w(1) write_dat_and_index_def)
  qed
qed

section \<open>The sidecar files\<close>

lemma read_write_xf:
  assumes "length (xf_fingerprints f) \<le> 1000000"
  shows "read_xf_file p (write_xf_file f p d) = Inr f"
proof -
  have "unat (word_of_nat (length (xf_fingerprints f)) :: u64) = length (xf_fingerprints f)"
    using assms by (intro unat_u64_of_nat) simp
  then show ?thesis using assms
    by (simp add: read_xf_file_def write_xf_file_def del: unsigned_of_nat)
qed

lemma read_idx_entries_ok:
  assumes "\<forall>x \<in> set index. length (fst x) < 2 ^ 32"
  shows "read_idx_entries (length index)
           (concat (map (\<lambda>(key, offset). u32_le (word_of_nat (length key)) @ key @ u64_le offset) index) @ rest) =
         Inr index"
  using assms by (induction index) (auto simp: unat_u32_of_nat)

lemma read_write_idx:
  assumes "\<forall>x \<in> set index. length (fst x) < 2 ^ 32" "length index \<le> 10000000"
  shows "read_idx_file p (write_idx_file index p d) = Inr index"
proof -
  have "unat (word_of_nat (length index) :: u64) = length index"
    using assms(2) by (intro unat_u64_of_nat) simp
  then show ?thesis using read_idx_entries_ok [OF assms(1), of "[]"] assms(2)
    by (simp add: read_idx_file_def write_idx_file_def Let_def del: unsigned_of_nat)
qed

lemma distinct_sorted_remdups_adj:
  "sorted (xs :: 'a::linorder list) \<Longrightarrow> distinct (remdups_adj xs)"
  by (induction xs rule: remdups_adj.induct) (auto simp: less_le)

lemma filter_has_keys:
  assumes "xor8_ok X" "k \<in> set keys"
  shows "filter_contains X (build_xor_filter X keys) k"
proof -
  let ?hs = "remdups_adj (sort (map (hash_key_to_u64 X) keys))"
  have "distinct ?hs" by (intro distinct_sorted_remdups_adj) simp
  moreover have "hash_key_to_u64 X k \<in> set ?hs" using assms(2) by simp
  ultimately show ?thesis
    using assms(1) by (simp add: xor8_ok_def filter_contains_def build_xor_filter_def)
qed

text \<open>File names of a segment: the digits end at the dot, so id and extension can be read off.\<close>

lemma digit_not_dot: "d < 16 \<Longrightarrow> digit_char d \<noteq> CHR ''.''"
proof -
  assume "d < 16"
  then have "digit_char d \<in> digit_char ` set [0..<16]" by (intro imageI) simp
  moreover have "CHR ''.'' \<notin> digit_char ` set [0..<16]" by code_simp
  ultimately show ?thesis by metis
qed

lemma show_base_no_dot: "CHR ''.'' \<notin> set (show_base 10 n)"
proof (induction "10::nat" n rule: show_base.induct)
  case (1 n)
  show ?case
  proof (cases "n < 10")
    case True
    then show ?thesis using digit_not_dot [of n] by (simp add: show_base.simps [of 10 n])
  next
    case False
    moreover have "n mod 10 < 16" by (rule less_trans [of _ 10]) simp_all
    ultimately show ?thesis using 1 digit_not_dot [of "n mod 10"] by (simp add: show_base.simps [of 10 n])
  qed
qed

lemma segment_file_inject [simp]:
  "segment_file i x = segment_file j y \<longleftrightarrow> i = j \<and> x = y"
proof
  assume eq: "segment_file i x = segment_file j y"
  let ?digits = "\<lambda>n :: u64. pad_left 8 (show_base 10 (unat n))"
  have no_dot: "\<forall>c \<in> set (?digits n). c \<noteq> CHR ''.''" for n
    using show_base_no_dot by (auto simp: pad_left_def)
  have split: "takeWhile (\<lambda>c. c \<noteq> CHR ''.'') (?digits n @ ''.'' @ z) = ?digits n"
    "dropWhile (\<lambda>c. c \<noteq> CHR ''.'') (?digits n @ ''.'' @ z) = ''.'' @ z" for n z
    using no_dot [of n] by (simp_all add: takeWhile_append2 dropWhile_append2)
  have e: "?digits i @ ''.'' @ x = ?digits j @ ''.'' @ y" using eq by (simp add: segment_file_def)
  then have "?digits i = ?digits j" "''.'' @ x = ''.'' @ y" using split by metis+
  then have "val_base 10 (?digits i) = val_base 10 (?digits j)" "x = y" by simp_all
  then show "i = j \<and> x = y" by (simp add: val_base_pad val_base_show_base word_unat_eq_iff)
qed auto

section \<open>A segment and its reader\<close>

text \<open>
  A reader stands for a sorted list of entries: the data file holds them in blocks, the index
  points into the blocks, the filter knows every key and the metadata has the bounds.
\<close>

definition segment_inv :: "ext \<Rightarrow> dir \<Rightarrow> SegmentReader \<Rightarrow> kv list \<Rightarrow> bool" where
  "segment_inv X d r es \<longleftrightarrow> (\<exists>bs.
     fs_read d (dat_path (sr_segment_id r)) = Some (dat_of X bs) \<and> length (dat_of X bs) < 2 ^ 64 \<and>
     concat bs = es \<and> (\<forall>b \<in> set bs. block_ok b) \<and> ksorted es \<and> es \<noteq> [] \<and>
     index_ok X bs (sr_index r) \<and> (sr_index r \<noteq> [] \<longrightarrow> fst (hd (sr_index r)) \<le> fst (hd es)) \<and>
     (\<forall>k \<in> fst ` set es. filter_contains X (sr_filter r) k) \<and>
     m_min_key (sr_meta r) = fst (hd es) \<and> m_max_key (sr_meta r) = fst (last es))"

text \<open>Where a lookup or scan starts, everything before is smaller than the key it looks for.\<close>

lemma find_block_offset_spec:
  assumes "index_ok X bs index" "length (dat_of X bs) < 2 ^ 64" "ksorted (concat bs)"
    and "index \<noteq> [] \<longrightarrow> fst (hd index) \<le> fst (hd (concat bs))"
  shows "\<exists>bs1 bs2. bs = bs1 @ bs2 \<and> find_block_offset index k = length (dat_of X bs1) \<and>
           (\<forall>x \<in> set (concat bs1). fst x < k)"
proof (cases "index = []")
  case True
  then show ?thesis by (intro exI [of _ "[]"] exI [of _ bs]) (simp add: find_block_offset_def)
next
  case False
  let ?pos = "length (takeWhile (\<lambda>(k', off). k' \<le> k) index)"
  let ?i = "?pos - 1"
  have i: "?i < length index" using False length_takeWhile_le [of "\<lambda>(k', off). k' \<le> k" index]
    by (cases "?pos") auto
  have off: "find_block_offset index k = unat (snd (index ! ?i))"
    using False by (simp add: find_block_offset_def Let_def)
  obtain bs1 bs2 where bs: "bs = bs1 @ bs2" "snd (index ! ?i) = word_of_nat (length (dat_of X bs1))"
    "\<forall>x \<in> set (concat bs1). fst x < fst (index ! ?i)"
  proof -
    obtain k' off where e: "index ! ?i = (k', off)" by fastforce
    then have "(k', off) \<in> set index" using i by (metis nth_mem)
    with assms(1) that e show ?thesis unfolding index_ok_def by fastforce
  qed
  have "length (dat_of X bs1) < 2 ^ 64" using assms(2) bs(1) by (simp add: dat_of_append)
  then have u: "find_block_offset index k = length (dat_of X bs1)"
    by (simp only: off bs(2) unat_u64_of_nat)
  have "\<forall>x \<in> set (concat bs1). fst x < k"
  proof (cases "?pos = 0")
    case True
    have "concat bs1 = []"
    proof (rule ccontr)
      assume "concat bs1 \<noteq> []"
      then have "hd (concat bs) = hd (concat bs1)" "hd (concat bs1) \<in> set (concat bs1)"
        by (simp_all add: bs(1) del: set_concat)
      with bs(3) assms(4) False True show False by (metis diff_0_eq_0 hd_conv_nth leD)
    qed
    then show ?thesis by (simp only: list.set(1) ball_empty)
  next
    case False
    then have "?i < ?pos" by simp
    then have "index ! ?i \<in> set (takeWhile (\<lambda>(k', off). k' \<le> k) index)"
      by (metis nth_mem takeWhile_nth)
    then have "fst (index ! ?i) \<le> k" by (auto dest: set_takeWhileD)
    with bs(3) show ?thesis by (meson less_le_trans)
  qed
  with bs(1) u show ?thesis by blast
qed

lemma segment_inv_start:
  assumes "segment_inv X d r es"
  obtains bs1 bs2 where "fs_read d (dat_path (sr_segment_id r)) = Some (dat_of X (bs1 @ bs2))"
    "\<forall>b \<in> set (bs1 @ bs2). block_ok b" "es = concat bs1 @ concat bs2"
    "find_block_offset (sr_index r) k = length (dat_of X bs1)" "\<forall>x \<in> set (concat bs1). fst x < k"
proof -
  from assms obtain bs where bs: "fs_read d (dat_path (sr_segment_id r)) = Some (dat_of X bs)"
    "length (dat_of X bs) < 2 ^ 64" "concat bs = es" "\<forall>b \<in> set bs. block_ok b" "ksorted es"
    "index_ok X bs (sr_index r)" "sr_index r \<noteq> [] \<longrightarrow> fst (hd (sr_index r)) \<le> fst (hd es)"
    unfolding segment_inv_def by blast
  then obtain bs1 bs2 where "bs = bs1 @ bs2" "find_block_offset (sr_index r) k = length (dat_of X bs1)"
    "\<forall>x \<in> set (concat bs1). fst x < k"
    using find_block_offset_spec [of X bs "sr_index r" k] by metis
  with bs that show ?thesis by auto
qed

lemma segment_inv_sorted: "segment_inv X d r es \<Longrightarrow> ksorted es"
  by (auto simp: segment_inv_def)

lemma segment_get:
  assumes "zstd_ok X" "segment_inv X d r es"
  shows "SegmentReader_get X d r k = Inr (map_of es k)"
proof (cases "filter_contains X (sr_filter r) k")
  case False
  then have "k \<notin> fst ` set es" using assms(2) by (auto simp: segment_inv_def)
  then have "map_of es k = None" by (simp add: map_of_eq_None_iff)
  with False show ?thesis by (simp add: SegmentReader_get_def)
next
  case True
  obtain bs1 bs2 where b: "fs_read d (dat_path (sr_segment_id r)) = Some (dat_of X (bs1 @ bs2))"
    "\<forall>b \<in> set (bs1 @ bs2). block_ok b" "es = concat bs1 @ concat bs2"
    "find_block_offset (sr_index r) k = length (dat_of X bs1)" "\<forall>x \<in> set (concat bs1). fst x < k"
    using assms(2) by (rule segment_inv_start)
  have "ksorted (concat bs2)" using segment_inv_sorted [OF assms(2)] b(3) by (simp add: sorted_wrt_append)
  then have "get_loop X (dat_of X (bs1 @ bs2)) k (length (dat_of X bs1)) = Inr (map_of (concat bs2) k)"
    by (rule get_loop_blocks [OF assms(1) b(2)])
  moreover have "map_of (concat bs1) k = None" using b(5) by (intro map_of_None_if) auto
  then have "map_of es k = map_of (concat bs2) k" by (simp add: b(3) map_add_def)
  ultimately show ?thesis using True by (simp add: SegmentReader_get_def b(1,4))
qed

lemma segment_range_scan:
  assumes "zstd_ok X" "segment_inv X d r es"
  shows "SegmentReader_range_scan X d r lo hi = Inr (filter (\<lambda>(k, e). lo \<le> k \<and> k < hi) es)"
proof (cases "hi < m_min_key (sr_meta r) \<or> lo > m_max_key (sr_meta r)")
  case True
  have es: "es \<noteq> []" "ksorted es" "m_min_key (sr_meta r) = fst (hd es)" "m_max_key (sr_meta r) = fst (last es)"
    using assms(2) by (auto simp: segment_inv_def)
  have "fst (hd es) \<le> fst x \<and> fst x \<le> fst (last es)" if "x \<in> set es" for x
    using ksorted_bounds [OF es(2) that] .
  then have "filter (\<lambda>(k, e). lo \<le> k \<and> k < hi) es = []"
    using True es(3,4) by (force simp: filter_empty_conv)
  with True show ?thesis by (simp add: SegmentReader_range_scan_def)
next
  case False
  obtain bs1 bs2 where b: "fs_read d (dat_path (sr_segment_id r)) = Some (dat_of X (bs1 @ bs2))"
    "\<forall>b \<in> set (bs1 @ bs2). block_ok b" "es = concat bs1 @ concat bs2"
    "find_block_offset (sr_index r) lo = length (dat_of X bs1)" "\<forall>x \<in> set (concat bs1). fst x < lo"
    using assms(2) by (rule segment_inv_start)
  have "ksorted (concat bs2)" using segment_inv_sorted [OF assms(2)] b(3) by (simp add: sorted_wrt_append)
  then have "scan_loop X (dat_of X (bs1 @ bs2)) lo hi (length (dat_of X bs1)) =
      Inr (filter (\<lambda>(k, e). lo \<le> k \<and> k < hi) (concat bs2))"
    by (rule scan_loop_blocks [OF assms(1) b(2)])
  moreover have "filter (\<lambda>(k, e). lo \<le> k \<and> k < hi) (concat bs1) = []"
    using b(5) by (force simp: filter_empty_conv)
  then have "filter (\<lambda>(k, e). lo \<le> k \<and> k < hi) es = filter (\<lambda>(k, e). lo \<le> k \<and> k < hi) (concat bs2)"
    by (simp only: b(3) filter_append append_Nil)
  ultimately show ?thesis using False by (simp add: SegmentReader_range_scan_def b(1,4))
qed

section \<open>Writing a segment and opening it\<close>

text \<open>What the writer may be asked to write so that the reader can read it back.\<close>

definition flushable :: "ext \<Rightarrow> u64 \<Rightarrow> kv list \<Rightarrow> bool" where
  "flushable X window es \<longleftrightarrow> es \<noteq> [] \<and> ksorted es \<and> (\<forall>x \<in> set es. entry_small x) \<and>
     length es \<le> 640000000 \<and> sint window \<noteq> 0 \<and>
     length (xf_fingerprints (build_xor_filter X (map fst es))) \<le> 1000000"

lemma aligned_size_le: "aligned_size n \<le> n + 4096"
proof -
  have "n div 4096 * 4096 \<le> n" by simp
  then have "(n div 4096 + 1) * 4096 \<le> n + 4096" by simp
  then show ?thesis unfolding aligned_size_def SEGMENT_BLOCK_SIZE_def by simp
qed

lemma length_dat_of:
  assumes "zstd_ok X"
  shows "\<forall>b \<in> set bs. block_ok b \<Longrightarrow> length (dat_of X bs) \<le> 8 + length bs * (2 ^ 32 + 4104)"
proof (induction bs rule: rev_induct)
  case (snoc b bs)
  then have "block_ok b" by simp
  with assms obtain c where "zstd_decode X c = Some (ser_block b)" "length c < 2 ^ 32"
    "block_bytes X b = u32_le SEGMENT_BLOCK_MAGIC @ u32_le (word_of_nat (length c)) @ c @
       replicate (aligned_size (8 + length c) - (8 + length c)) 0"
    "length (block_bytes X b) = aligned_size (8 + length c)"
    by (rule block_bytes_layout)
  then have "length (block_bytes X b) \<le> 2 ^ 32 + 4104" using aligned_size_le [of "8 + length c"] by simp
  with snoc show ?case by simp
qed simp

lemma length_blocks_le: "\<forall>b \<in> set bs. b \<noteq> [] \<Longrightarrow> length bs \<le> length (concat bs)"
proof (induction bs)
  case (Cons b bs)
  then have "1 \<le> length b" by (cases b) auto
  with Cons show ?case by simp
qed simp

lemma dat_fits_u64:
  assumes "zstd_ok X" "\<forall>b \<in> set bs. block_ok b" "length (concat bs) \<le> 640000000"
  shows "length (dat_of X bs) < 2 ^ 64"
proof -
  have "length bs \<le> 640000000"
    using length_blocks_le [of bs] assms(2,3) by (auto simp: block_ok_def)
  then have "length bs * (2 ^ 32 + 4104) \<le> 640000000 * (2 ^ 32 + 4104)" by (rule mult_right_mono) simp
  with length_dat_of [OF assms(1,2)] show ?thesis by simp
qed

lemma cohort_bucket_ok: "sint window \<noteq> 0 \<Longrightarrow> \<exists>b. cohort_bucket_for t ttl window = Inr b"
  by (simp add: cohort_bucket_for_def Let_def)

lemma flush_segment:
  assumes "zstd_ok X" "json_ok X" "xor8_ok X" "flushable X window es"
  shows "\<exists>meta d' r. SegmentWriter_flush X i window now es d = Inr (meta, d') \<and>
     SegmentReader_open X i d' = Inr r \<and> segment_inv X d' r es \<and>
     sr_segment_id r = i \<and> sr_meta r = meta \<and> m_segment_id meta = i \<and>
     (\<exists>dat. fs_read d' (dat_path i) = Some dat \<and> parse_dat_entries X dat = Inr es \<and>
        m_segment_hash meta = blake3 X dat) \<and>
     (\<forall>p. (\<forall>x. p \<noteq> segment_file i x) \<longrightarrow> fs_read d' p = fs_read d p)"
proof -
  let ?f = "build_xor_filter X (map fst es)"
  note fl = assms(4) [unfolded flushable_def]
  obtain bs w where w: "write_dat_and_index X i es d =
      Inr (w, write_idx_file (dw_sparse_index w) (idx_path i) (fs_write (dat_path i) (dw_dat w) d))"
    "dw_dat w = dat_of X bs" "concat bs = es" "\<forall>b \<in> set bs. block_ok b"
    "index_ok X bs (dw_sparse_index w)" "dw_sparse_index w \<noteq> []"
    "fst (hd (dw_sparse_index w)) = fst (hd es)"
    "fst ` set (dw_sparse_index w) \<subseteq> fst ` set es"
    "length (dw_sparse_index w) = (length es + 63) div 64"
    using write_dat_and_index_spec [OF assms(1), of es i d] fl by blast
  obtain cb where cb: "cohort_bucket_for (e_timestamp (snd (hd es))) (e_ttl (snd (hd es))) window = Inr cb"
    using cohort_bucket_ok fl by blast
  define meta where "meta = segment_meta_of X i window now es (dw_dat w) (dw_compressed_total w)
      (dw_uncompressed_total w) cb"
  define d1 where "d1 = fs_write (dat_path i) (dw_dat w) d"
  define d2 where "d2 = write_idx_file (dw_sparse_index w) (idx_path i) d1"
  define d3 where "d3 = write_xf_file ?f (xf_path i) d2"
  define d4 where "d4 = fs_write (meta_path i) (json_meta X meta) d3"
  note defs = d1_def d2_def d3_def d4_def write_idx_file_def write_xf_file_def
  have flush: "SegmentWriter_flush X i window now es d = Inr (meta, d4)"
    using fl w(1) cb by (simp add: SegmentWriter_flush_def Let_def meta_def d1_def d2_def d3_def d4_def)
  have frame: "read_idx_file (idx_path i) d4 = read_idx_file (idx_path i) d2"
    "read_xf_file (xf_path i) d4 = read_xf_file (xf_path i) d3"
    by (simp_all add: read_idx_file_def read_xf_file_def defs)
  have "length (fst x) < 2 ^ 32" if "x \<in> set (dw_sparse_index w)" for x
    using w(8) that fl by (fastforce simp: entry_small_def entry_wf_def)
  moreover have "length (dw_sparse_index w) \<le> 10000000"
  proof -
    have "(length es + 63) div 64 \<le> (640000000 + 63) div 64" using fl by (intro div_le_mono) simp
    with w(9) show ?thesis by simp
  qed
  ultimately have idx: "read_idx_file (idx_path i) d4 = Inr (dw_sparse_index w)"
    unfolding frame d2_def by (intro read_write_idx) blast+
  have xf: "read_xf_file (xf_path i) d4 = Inr ?f"
    unfolding frame d3_def using fl by (intro read_write_xf) blast
  define r where "r = \<lparr> sr_segment_id = i, sr_meta = meta, sr_filter = ?f, sr_index = dw_sparse_index w \<rparr>"
  have op: "SegmentReader_open X i d4 = Inr r"
    using assms(2) idx xf by (simp add: SegmentReader_open_def d4_def [symmetric] r_def json_ok_def)
      (simp add: d4_def)
  have dat: "fs_read d4 (dat_path i) = Some (dat_of X bs)" by (simp add: defs w(2))
  have fits: "length (dat_of X bs) < 2 ^ 64"
    using dat_fits_u64 [OF assms(1) w(4)] w(3) fl by blast
  have "segment_inv X d4 r es"
    unfolding segment_inv_def
    using dat fits w(3-7) fl filter_has_keys [OF assms(3)]
    by (intro exI [of _ bs]) (auto simp: r_def meta_def segment_meta_of_def)
  moreover have "parse_dat_entries X (dat_of X bs) = Inr es"
    using parse_dat_loop_blocks [OF assms(1), of "[]" bs] w(3,4)
    by (simp add: parse_dat_entries_def SEGMENT_HEADER_LEN_def)
  moreover have "fs_read d4 p = fs_read d p" if "\<forall>x. p \<noteq> segment_file i x" for p
    using that by (simp add: defs)
  moreover have "m_segment_hash meta = blake3 X (dat_of X bs)" "m_segment_id meta = i"
    by (simp_all add: meta_def segment_meta_of_def w(2))
  ultimately show ?thesis using flush op dat
    by (intro exI [of _ meta] exI [of _ d4] exI [of _ r]) (simp add: r_def)
qed

text \<open>
  C4: A segment gives back what was written. Sorted entries within the limits (\<open>flushable\<close>: at least
  one, each serialised to at most 2 MiB less the block size) are written successfully; the
  segment can be opened, a lookup of a non-empty key returns its entry or nothing, a scan
  returns exactly the entries from the start up to but without the end, in order, and parsing the
  raw data file (as replication does) returns the entries. (The comment on \<open>range_scan\<close> includes the
  end; the code and its callers do not. Lookups assert in debug builds that the key is not empty.)
\<close>

theorem segment_write_then_read:
  assumes "zstd_ok X" "json_ok X" "xor8_ok X" "flushable X window es"
  shows "\<exists>meta d' r dat. SegmentWriter_flush X i window now es d = Inr (meta, d') \<and>
     SegmentReader_open X i d' = Inr r \<and> sr_meta r = meta \<and>
     (\<forall>k. k \<noteq> [] \<longrightarrow> SegmentReader_get X d' r k = Inr (map_of es k)) \<and>
     (\<forall>lo hi. SegmentReader_range_scan X d' r lo hi = Inr (filter (\<lambda>(k, e). lo \<le> k \<and> k < hi) es)) \<and>
     fs_read d' (dat_path i) = Some dat \<and> parse_dat_entries X dat = Inr es"
  using flush_segment [OF assms, of i now d] segment_get [OF assms(1)] segment_range_scan [OF assms(1)]
  by blast

definition sample_entry :: "bytes \<Rightarrow> byte \<Rightarrow> Lsn \<Rightarrow> kv" where
  "sample_entry k v lsn = (k, \<lparr> e_key = k, e_value = Some [v], e_op = Put, e_lsn = lsn,
     e_timestamp = 1700000000000000000, e_ttl = 0 \<rparr>)"

definition sample_tombstone :: "bytes \<Rightarrow> Lsn \<Rightarrow> kv" where
  "sample_tombstone k lsn = (k, \<lparr> e_key = k, e_value = None, e_op = Delete, e_lsn = lsn,
     e_timestamp = 1700000000000000000, e_ttl = 0 \<rparr>)"

lemma sample_entry_small:
  "length k < 1000 \<Longrightarrow> entry_small (sample_entry k v lsn)"
  "length k < 1000 \<Longrightarrow> entry_small (sample_tombstone k lsn)"
  by (simp_all add: entry_small_def entry_wf_def sample_entry_def sample_tombstone_def
        serialize_entry_def BLOCK_TARGET_BYTES_def)

lemma fst_sample_entry [simp]: "fst (sample_entry k v l) = k" "fst (sample_tombstone k l) = k"
  by (simp_all add: sample_entry_def sample_tombstone_def)

definition sample_run :: "kv list" where
  "sample_run = [sample_entry [1] 10 1, sample_tombstone [2] 2, sample_entry [3, 0] 30 3]"

lemma sample_flushable: "flushable sample_ext 3600 sample_run"
  by (simp add: flushable_def sample_run_def sample_entry_small build_xor_filter_def sample_ext_def)

theorem segment_write_then_read_witness:
  "\<exists>meta d' r dat. SegmentWriter_flush sample_ext 7 3600 0 sample_run [] = Inr (meta, d') \<and>
     SegmentReader_open sample_ext 7 d' = Inr r \<and> sr_meta r = meta \<and>
     (\<forall>k. k \<noteq> [] \<longrightarrow> SegmentReader_get sample_ext d' r k = Inr (map_of sample_run k)) \<and>
     (\<forall>lo hi. SegmentReader_range_scan sample_ext d' r lo hi =
        Inr (filter (\<lambda>(k, e). lo \<le> k \<and> k < hi) sample_run)) \<and>
     fs_read d' (dat_path 7) = Some dat \<and> parse_dat_entries sample_ext dat = Inr sample_run"
  by (rule segment_write_then_read) (simp_all add: sample_flushable)

text \<open>
  A value that makes its block larger than 2 MiB is lost. The writer puts an entry of any size
  into a block, and registers the segment; but the reader refuses to decompress a block of more
  than 2 MiB, so looking up the key fails with an error.
\<close>

theorem oversized_entry_is_unreadable:
  assumes "zstd_ok X" "json_ok X" "xor8_ok X" "sint window \<noteq> 0" "length k < 2 ^ 32"
    and "length (xf_fingerprints (build_xor_filter X [k])) \<le> 1000000"
    and "2 ^ 21 < length (serialize_entry k e)"
    and "zstd_encode X (serialize_entry k e) = Some c" "length c < 2 ^ 32"
  shows "\<exists>meta d' r. SegmentWriter_flush X i window now [(k, e)] d = Inr (meta, d') \<and>
     SegmentReader_open X i d' = Inr r \<and>
     SegmentReader_get X d' r k = Inl (SegmentCorrupt ''decompressed block too large'')"
proof -
  let ?s = "serialize_entry k e" and ?f = "build_xor_filter X [k]" and ?index = "[(k, 8 :: u64)]"
  let ?block = "u32_le SEGMENT_BLOCK_MAGIC @ u32_le (word_of_nat (length c)) @ c @
    replicate (aligned_size (8 + length c) - (8 + length c)) 0"
  have dec: "zstd_decode X c = Some ?s" using assms(1,8) unfolding zstd_ok_def by (metis option.inject)
  obtain cb where cb: "cohort_bucket_for (e_timestamp e) (e_ttl e) window = Inr cb"
    using cohort_bucket_ok assms(4) by blast
  have "flush_block_to_file X ?s = Inr ?block"
    using assms(8) by (simp add: flush_block_to_file_def Let_def)
  then obtain w where w: "write_dat_and_index X i [(k, e)] d =
      Inr (w, write_idx_file (dw_sparse_index w) (idx_path i) (fs_write (dat_path i) (dw_dat w) d))"
    "dw_dat w = dat_header @ ?block" "dw_sparse_index w = ?index"
    using assms(7)
    by (simp add: write_dat_and_index_def write_one_entry_def dat_writer_new_def finish_dat_def Let_def
          BLOCK_TARGET_BYTES_def SEGMENT_HEADER_LEN_def SPARSE_INDEX_STRIDE_def)
  define meta where "meta = segment_meta_of X i window now [(k, e)] (dw_dat w) (dw_compressed_total w)
      (dw_uncompressed_total w) cb"
  define d' where "d' = fs_write (meta_path i) (json_meta X meta) (write_xf_file ?f (xf_path i)
    (write_idx_file ?index (idx_path i) (fs_write (dat_path i) (dw_dat w) d)))"
  have flush: "SegmentWriter_flush X i window now [(k, e)] d = Inr (meta, d')"
    using w(1,3) cb by (simp add: SegmentWriter_flush_def Let_def meta_def d'_def)
  have "read_idx_file (idx_path i) (write_idx_file ?index (idx_path i) d) = Inr ?index"
    using assms(5) by (intro read_write_idx) auto
  moreover have "read_xf_file (xf_path i) (write_xf_file ?f (xf_path i) d) = Inr ?f"
    using assms(6) by (rule read_write_xf)
  ultimately have op: "SegmentReader_open X i d' =
      Inr \<lparr> sr_segment_id = i, sr_meta = meta, sr_filter = ?f, sr_index = ?index \<rparr>"
    using assms(2) by (simp add: SegmentReader_open_def json_ok_def d'_def read_idx_file_def
        read_xf_file_def write_idx_file_def write_xf_file_def)
  have len: "unat (word_of_nat (length c) :: u32) = length c" using assms(9) by (simp add: unat_u32_of_nat)
  have "read_block_at_offset X (dat_header @ ?block) 8 = Inl (SegmentCorrupt ''decompressed block too large'')"
    using dec assms(7)
    by (simp add: read_block_at_offset_def len Let_def MAX_BLOCK_DECOMPRESSED_def SEGMENT_BLOCK_SIZE_def
          del: unsigned_of_nat)
  moreover have "filter_contains X ?f k" by (rule filter_has_keys [OF assms(3)]) simp
  moreover have "fs_read d' (dat_path i) = Some (dat_header @ ?block)"
    by (simp add: d'_def write_xf_file_def write_idx_file_def w(2))
  ultimately have "SegmentReader_get X d' \<lparr> sr_segment_id = i, sr_meta = meta, sr_filter = ?f, sr_index = ?index \<rparr> k
      = Inl (SegmentCorrupt ''decompressed block too large'')"
    by (simp add: SegmentReader_get_def find_block_offset_def get_loop.simps [of _ _ _ 8])
  with flush op show ?thesis by blast
qed

definition big_entry :: MemEntry where
  "big_entry = \<lparr> e_key = [1], e_value = Some (replicate 2097152 0), e_op = Put, e_lsn = 1,
     e_timestamp = 0, e_ttl = 0 \<rparr>"

theorem oversized_entry_is_unreadable_witness:
  "\<exists>meta d' r. SegmentWriter_flush sample_ext 0 3600 0 [([1], big_entry)] [] = Inr (meta, d') \<and>
     SegmentReader_open sample_ext 0 d' = Inr r \<and>
     SegmentReader_get sample_ext d' r [1] = Inl (SegmentCorrupt ''decompressed block too large'')"
proof -
  have len: "length (serialize_entry [1] big_entry) = 2097182"
    by (simp add: serialize_entry_def big_entry_def)
  have enc: "zstd_encode sample_ext (serialize_entry [1] big_entry) = Some (serialize_entry [1] big_entry)"
    by (simp add: sample_ext_def)
  show ?thesis
    by (rule oversized_entry_is_unreadable [OF sample_laws(2,5,4) _ _ _ _ enc])
       (simp_all add: len build_xor_filter_def sample_ext_def)
qed

end
