(* ===== verification/SegmentScan.thy ===== *)
theory SegmentScan
  imports SegmentFacts
begin

text \<open>
  Scans over several segments, the second half of \<open>edgestore/src/segment.rs\<close>: the streaming
  cursor over one segment, and the merge with a binary heap that keeps the newest version of
  every key, drops deletions and stops at a budget.

  The ascending and the descending scan run the same loop; they differ in the order of the
  heap and in where the runs come from. A run is the sequence of entries a cursor still
  yields and the error it ends with, if any.
\<close>

section \<open>Cursors\<close>

record SegmentCursor =
  sc_dat :: bytes
  sc_current_offset :: usize
  sc_start :: bytes
  sc_end :: bytes
  sc_buffer :: "kv list"
  sc_done :: bool

definition SegmentCursor_open ::
  "dir \<Rightarrow> SegmentReader \<Rightarrow> bytes \<Rightarrow> bytes \<Rightarrow> SegmentCursor option res" where
  "SegmentCursor_open d r start end =
     (if end \<le> m_min_key (sr_meta r) \<or> start > m_max_key (sr_meta r) then Inr None
      else case fs_read d (dat_path (sr_segment_id r)) of
             None \<Rightarrow> Inl (Io NotFound)
           | Some dat \<Rightarrow>
               Inr (Some \<lparr> sc_dat = dat, sc_current_offset = find_block_offset (sr_index r) start,
                           sc_start = start, sc_end = end, sc_buffer = [], sc_done = False \<rparr>))"

function cursor_fill :: "ext \<Rightarrow> SegmentCursor \<Rightarrow> SegmentCursor res" where
  "cursor_fill X c =
     (if sc_buffer c \<noteq> [] \<or> sc_done c then Inr c
      else if sc_current_offset c \<ge> length (sc_dat c) then Inr (c\<lparr>sc_done := True\<rparr>)
      else case read_block_at_offset X (sc_dat c) (sc_current_offset c) of
             Inl e \<Rightarrow> Inl e
           | Inr (entries, sz) \<Rightarrow>
               if entries = [] \<or> sz = 0 then Inr (c\<lparr>sc_done := True\<rparr>)
               else case scan_block (sc_start c) (sc_end c) entries of
                      (buffered, past_end) \<Rightarrow>
                        cursor_fill X (c\<lparr>sc_current_offset := sc_current_offset c + sz,
                                        sc_buffer := sc_buffer c @ buffered,
                                        sc_done := sc_done c \<or> past_end\<rparr>))"
  by pat_completeness auto
termination
  by (relation "measure (\<lambda>(X, c). length (sc_dat c) - sc_current_offset c)") auto

declare cursor_fill.simps [simp del]

definition cursor_pop :: "ext \<Rightarrow> SegmentCursor \<Rightarrow> (kv option \<times> SegmentCursor) res" where
  "cursor_pop X c =
     and_then (cursor_fill X c) (\<lambda>c'.
       case sc_buffer c' of
         [] \<Rightarrow> Inr (None, c')
       | ke # rest \<Rightarrow> Inr (Some ke, c'\<lparr>sc_buffer := rest\<rparr>))"

text \<open>A cursor popped until it ends.\<close>

type_synonym run = "kv list \<times> EdgestoreError option"

lemma cursor_fill_measure:
  "cursor_fill X c = Inr c' \<Longrightarrow>
   sc_dat c' = sc_dat c \<and> sc_current_offset c \<le> sc_current_offset c' \<and>
   (c' = c \<or> c' = c\<lparr>sc_done := True\<rparr> \<or>
    (sc_current_offset c < sc_current_offset c' \<and> sc_current_offset c < length (sc_dat c)))"
proof (induction X c arbitrary: c' rule: cursor_fill.induct)
  case (1 X c)
  show ?case
  proof (cases "sc_buffer c \<noteq> [] \<or> sc_done c \<or> sc_current_offset c \<ge> length (sc_dat c)")
    case True
    with 1(2) show ?thesis by (auto simp: cursor_fill.simps [of X c] split: if_splits)
  next
    case False
    show ?thesis
    proof (cases "read_block_at_offset X (sc_dat c) (sc_current_offset c)")
      case (Inl e)
      with False 1(2) show ?thesis by (simp add: cursor_fill.simps [of X c])
    next
      case (Inr p)
      obtain entries sz where p: "p = (entries, sz)" by (cases p)
      obtain b past where s: "scan_block (sc_start c) (sc_end c) entries = (b, past)" by fastforce
      show ?thesis
      proof (cases "entries = [] \<or> sz = 0")
        case True
        with False Inr p 1(2) show ?thesis by (auto simp: cursor_fill.simps [of X c])
      next
        case nonempty: False
        let ?c = "c\<lparr>sc_current_offset := sc_current_offset c + sz, sc_buffer := sc_buffer c @ b,
                   sc_done := sc_done c \<or> past\<rparr>"
        have "cursor_fill X ?c = Inr c'"
          using False Inr p s nonempty 1(2) by (simp add: cursor_fill.simps [of X c])
        with 1(1) [OF _ _ Inr p [symmetric] _ s [symmetric]] False nonempty p
        have "sc_dat c' = sc_dat ?c \<and> sc_current_offset ?c \<le> sc_current_offset c'" by auto
        with False nonempty show ?thesis by simp
      qed
    qed
  qed
qed

lemma cursor_pop_measure:
  assumes "cursor_pop X c = Inr (Some ke, c')"
  shows "length (sc_dat c') - sc_current_offset c' < length (sc_dat c) - sc_current_offset c \<or>
         (length (sc_dat c') - sc_current_offset c' = length (sc_dat c) - sc_current_offset c \<and>
          length (sc_buffer c') < length (sc_buffer c))"
proof -
  from assms obtain c1 where c1: "cursor_fill X c = Inr c1" "sc_buffer c1 = ke # sc_buffer c'"
    "c' = c1\<lparr>sc_buffer := sc_buffer c'\<rparr>"
  proof -
    from assms obtain c1 where 1: "cursor_fill X c = Inr c1" by (cases "cursor_fill X c") (auto simp: cursor_pop_def)
    with assms obtain rest where "sc_buffer c1 = ke # rest" "c' = c1\<lparr>sc_buffer := rest\<rparr>"
      by (cases "sc_buffer c1") (auto simp: cursor_pop_def)
    with 1 that show ?thesis by simp
  qed
  from cursor_fill_measure [OF c1(1)] c1(2) have
    "sc_dat c1 = sc_dat c" "c1 = c \<or> c1 = c\<lparr>sc_done := True\<rparr> \<or>
      (sc_current_offset c < sc_current_offset c1 \<and> sc_current_offset c < length (sc_dat c))" by auto
  moreover have "sc_dat c' = sc_dat c1" "sc_current_offset c' = sc_current_offset c1"
    by (subst c1(3), simp)+
  ultimately show ?thesis using c1(2) by auto
qed

function cursor_run :: "ext \<Rightarrow> SegmentCursor \<Rightarrow> run" where
  "cursor_run X c =
     (case cursor_pop X c of
        Inl e \<Rightarrow> ([], Some e)
      | Inr (None, c') \<Rightarrow> ([], None)
      | Inr (Some ke, c') \<Rightarrow> (case cursor_run X c' of (kes, err) \<Rightarrow> (ke # kes, err)))"
  by pat_completeness auto
termination
  by (relation "measures [\<lambda>(X, c). length (sc_dat c) - sc_current_offset c, \<lambda>(X, c). length (sc_buffer c)]")
     (auto dest!: cursor_pop_measure)

declare cursor_run.simps [simp del]

section \<open>The heap and the merge\<close>

record HeapItem =
  hi_key :: bytes
  hi_entry :: MemEntry
  hi_idx :: usize

text \<open>
  \<open>fwd_before\<close> and \<open>rev_before\<close> say which of two items leaves the heap first, that is, which one
  is the greater one in the order of its \<open>Ord\<close> instance.
\<close>

definition fwd_before :: "HeapItem \<Rightarrow> HeapItem \<Rightarrow> bool" where
  "fwd_before a b \<longleftrightarrow> hi_key a < hi_key b \<or>
     (hi_key a = hi_key b \<and> e_lsn (hi_entry a) < e_lsn (hi_entry b))"

definition rev_before :: "HeapItem \<Rightarrow> HeapItem \<Rightarrow> bool" where
  "rev_before a b \<longleftrightarrow> hi_key b < hi_key a \<or>
     (hi_key a = hi_key b \<and> e_lsn (hi_entry b) < e_lsn (hi_entry a))"

fun heap_first :: "(HeapItem \<Rightarrow> HeapItem \<Rightarrow> bool) \<Rightarrow> HeapItem \<Rightarrow> HeapItem list \<Rightarrow> HeapItem" where
  "heap_first before best [] = best"
| "heap_first before best (x # xs) = heap_first before (if before x best then x else best) xs"

definition heap_pop ::
  "(HeapItem \<Rightarrow> HeapItem \<Rightarrow> bool) \<Rightarrow> HeapItem list \<Rightarrow> (HeapItem \<times> HeapItem list) option" where
  "heap_pop before heap =
     (case heap of [] \<Rightarrow> None
      | x # xs \<Rightarrow> (let item = heap_first before x xs in Some (item, remove1 item heap)))"

text \<open>One \<open>pop\<close> from run \<open>i\<close>, pushed on the heap.\<close>

definition push_from :: "run list \<Rightarrow> nat \<Rightarrow> HeapItem list \<Rightarrow> (HeapItem list \<times> run list) res" where
  "push_from runs i heap =
     (if i \<ge> length runs then Inl (Panic ''index out of bounds'')
      else case runs ! i of
             ([], Some e) \<Rightarrow> Inl e
           | ([], None) \<Rightarrow> Inr (heap, runs)
           | ((k, e) # rest, err) \<Rightarrow>
               Inr (heap @ [\<lparr> hi_key = k, hi_entry = e, hi_idx = i \<rparr>], runs[i := (rest, err)]))"

fun seed_heap :: "nat \<Rightarrow> nat \<Rightarrow> run list \<Rightarrow> HeapItem list \<Rightarrow> (HeapItem list \<times> run list) res" where
  "seed_heap i 0 runs heap = Inr (heap, runs)"
| "seed_heap i (Suc n) runs heap =
     and_then (push_from runs i heap) (\<lambda>(heap', runs'). seed_heap (i + 1) n runs' heap')"

definition emit :: "kv option \<Rightarrow> kv list" where
  "emit pending = (case pending of Some (k, e) \<Rightarrow> if e_op e \<noteq> Delete then [(k, e)] else [] | None \<Rightarrow> [])"

text \<open>
  The loop: \<open>pending\<close> is \<open>last_key\<close> with \<open>last_entry\<close>, the newest version seen so far of the key
  that left the heap last.
\<close>

lemma heap_first_in: "heap_first before b xs \<in> set (b # xs)"
  by (induction before b xs rule: heap_first.induct) auto

lemma heap_pop_length: "heap_pop before heap = Some (item, heap') \<Longrightarrow> length heap = Suc (length heap')"
proof (cases heap)
  case (Cons x xs)
  assume "heap_pop before heap = Some (item, heap')"
  with Cons heap_first_in [of before x xs] show ?thesis
    by (auto simp: heap_pop_def Let_def length_remove1 simp del: remove1.simps)
qed (simp add: heap_pop_def)

definition run_total :: "run list \<Rightarrow> nat" where
  "run_total runs = sum_list (map (length \<circ> fst) runs)"

lemma push_from_total:
  assumes "push_from runs i heap = Inr (heap', runs')"
  shows "length heap' + run_total runs' = length heap + run_total runs"
proof (cases "runs ! i")
  case (Pair kes err)
  have i: "i < length runs" using assms by (auto simp: push_from_def split: if_splits)
  show ?thesis
  proof (cases kes)
    case Nil
    with assms Pair i show ?thesis by (auto simp: push_from_def split: option.splits)
  next
    case (Cons ke rest)
    obtain k e where "ke = (k, e)" by (cases ke)
    with assms Pair Cons i have "heap' = heap @ [\<lparr> hi_key = k, hi_entry = e, hi_idx = i \<rparr>]"
      "runs' = runs[i := (rest, err)]" by (simp_all add: push_from_def)
    moreover have "run_total (runs[i := (rest, err)]) + length kes = run_total runs + length rest"
      using sum_list_update_nat [of i "map (length \<circ> fst) runs" "length rest"] i Pair
      by (simp add: run_total_def map_update)
    with Cons have "Suc (run_total (runs[i := (rest, err)])) = run_total runs" by simp
    ultimately show ?thesis by simp
  qed
qed

function merge_loop ::
  "(HeapItem \<Rightarrow> HeapItem \<Rightarrow> bool) \<Rightarrow> usize option \<Rightarrow> HeapItem list \<Rightarrow> run list \<Rightarrow> kv list \<Rightarrow> kv option \<Rightarrow>
   (kv list \<times> bool) res" where
  "merge_loop before max_items heap runs results pending =
     (case heap_pop before heap of
        None \<Rightarrow> Inr (results @ emit pending, False)
      | Some (item, heap1) \<Rightarrow>
          (case push_from runs (hi_idx item) heap1 of
             Inl e \<Rightarrow> Inl e
           | Inr (heap2, runs2) \<Rightarrow>
               (case pending of
                  Some (lk, le) \<Rightarrow>
                    if lk = hi_key item
                    then merge_loop before max_items heap2 runs2 results
                           (Some (lk, if e_lsn (hi_entry item) > e_lsn le then hi_entry item else le))
                    else if emit pending \<noteq> [] \<and> (\<exists>m \<in> set_option max_items. length results + 1 \<ge> m)
                    then Inr (results @ emit pending, True)
                    else merge_loop before max_items heap2 runs2 (results @ emit pending)
                           (Some (hi_key item, hi_entry item))
                | None \<Rightarrow>
                    merge_loop before max_items heap2 runs2 results (Some (hi_key item, hi_entry item)))))"
  by pat_completeness auto
termination
  by (relation "measure (\<lambda>(before, m, heap, runs, results, pending). length heap + run_total runs)")
     (auto dest!: push_from_total heap_pop_length)

declare merge_loop.simps [simp del]

fun open_cursors :: "dir \<Rightarrow> bytes \<Rightarrow> bytes \<Rightarrow> SegmentReader list \<Rightarrow> SegmentCursor list res" where
  "open_cursors d start end [] = Inr []"
| "open_cursors d start end (r # readers) =
     and_then (SegmentCursor_open d r start end) (\<lambda>c.
     and_then (open_cursors d start end readers) (\<lambda>cursors.
       Inr (case c of Some c \<Rightarrow> c # cursors | None \<Rightarrow> cursors)))"

definition range_scan_budgeted ::
  "ext \<Rightarrow> dir \<Rightarrow> SegmentReader list \<Rightarrow> bytes \<Rightarrow> bytes \<Rightarrow> usize option \<Rightarrow> (kv list \<times> bool) res" where
  "range_scan_budgeted X d readers start end max_items =
     and_then (open_cursors d start end readers) (\<lambda>cursors.
       if cursors = [] then Inr ([], False)
       else and_then (seed_heap 0 (length cursors) (map (cursor_run X) cursors) []) (\<lambda>(heap, runs).
              merge_loop fwd_before max_items heap runs [] None))"

fun load_rev :: "ext \<Rightarrow> dir \<Rightarrow> bytes \<Rightarrow> bytes \<Rightarrow> SegmentReader list \<Rightarrow> kv list list res" where
  "load_rev X d start end [] = Inr []"
| "load_rev X d start end (r # readers) =
     (if end \<le> m_min_key (sr_meta r) \<or> start > m_max_key (sr_meta r)
      then load_rev X d start end readers
      else and_then (SegmentReader_range_scan X d r start end) (\<lambda>seg.
           and_then (load_rev X d start end readers) (\<lambda>segs.
             Inr (if seg \<noteq> [] then seg # segs else segs))))"

text \<open>The descending scan serves every loaded run from its end.\<close>

definition range_scan_rev_budgeted ::
  "ext \<Rightarrow> dir \<Rightarrow> SegmentReader list \<Rightarrow> bytes \<Rightarrow> bytes \<Rightarrow> usize \<Rightarrow> kv list res" where
  "range_scan_rev_budgeted X d readers start end max_items =
     and_then (load_rev X d start end readers) (\<lambda>per_reader.
       if per_reader = [] then Inr []
       else and_then (seed_heap 0 (length per_reader) (map (\<lambda>seg. (rev seg, None)) per_reader) [])
              (\<lambda>(heap, runs).
                and_then (merge_loop rev_before (Some max_items) heap runs [] None) (\<lambda>(results, _).
                  Inr results)))"

section \<open>The newest version of a key\<close>

definition newest :: "kv set \<Rightarrow> bytes \<Rightarrow> MemEntry \<Rightarrow> bool" where
  "newest S k e \<longleftrightarrow> (k, e) \<in> S \<and> (\<forall>e'. (k, e') \<in> S \<longrightarrow> e_lsn e' \<le> e_lsn e)"

definition live_newest :: "kv set \<Rightarrow> kv set" where
  "live_newest S = {(k, e). newest S k e \<and> e_op e \<noteq> Delete}"

text \<open>Two versions of one key with the same sequence number are the same.\<close>

definition lsn_det :: "kv set \<Rightarrow> bool" where
  "lsn_det S \<longleftrightarrow> (\<forall>k e e'. (k, e) \<in> S \<longrightarrow> (k, e') \<in> S \<longrightarrow> e_lsn e = e_lsn e' \<longrightarrow> e = e')"

lemma lsn_det_subset: "lsn_det T \<Longrightarrow> S \<subseteq> T \<Longrightarrow> lsn_det S"
  unfolding lsn_det_def by blast

lemma newest_unique: "lsn_det S \<Longrightarrow> newest S k e \<Longrightarrow> newest S k e' \<Longrightarrow> e = e'"
  unfolding lsn_det_def newest_def by (meson order_antisym)

lemma live_newest_older:
  assumes "lsn_det (insert (k, e) (insert (k, e') T))" "e_lsn e \<le> e_lsn e'"
  shows "live_newest (insert (k, e) (insert (k, e') T)) = live_newest (insert (k, e') T)"
proof -
  have "newest (insert (k, e) (insert (k, e') T)) k' x \<longleftrightarrow> newest (insert (k, e') T) k' x" for k' x
  proof
    assume n: "newest (insert (k, e) (insert (k, e') T)) k' x"
    show "newest (insert (k, e') T) k' x"
    proof (cases "(k', x) = (k, e)")
      case True
      with n have "e_lsn e' \<le> e_lsn e" by (auto simp: newest_def)
      with assms have "e = e'" by (auto simp: lsn_det_def)
      with n show ?thesis by (auto simp: newest_def)
    qed (use n in \<open>auto simp: newest_def\<close>)
  next
    assume n: "newest (insert (k, e') T) k' x"
    with assms(2) show "newest (insert (k, e) (insert (k, e') T)) k' x"
      by (auto simp: newest_def intro: order_trans)
  qed
  then show ?thesis by (simp add: live_newest_def)
qed

lemma live_newest_fresh:
  assumes "\<forall>e'. (k, e') \<notin> S"
  shows "live_newest (insert (k, e) S) = set (emit (Some (k, e))) \<union> live_newest S"
proof -
  have "newest (insert (k, e) S) k' x \<longleftrightarrow> (if k' = k then x = e else newest S k' x)" for k' x
    using assms by (auto simp: newest_def)
  moreover have "(k, x) \<notin> live_newest S" for x using assms by (simp add: live_newest_def newest_def)
  ultimately show ?thesis by (auto simp: live_newest_def emit_def split: if_splits)
qed

lemma live_newest_empty [simp]: "live_newest {} = {}"
  by (simp add: live_newest_def newest_def)

section \<open>The merge, for either direction\<close>

lemma union_update_tl:
  assumes "i < length rs" "rs ! i \<noteq> []"
  shows "\<Union> (set ` set rs) = insert (hd (rs ! i)) (\<Union> (set ` set (rs[i := tl (rs ! i)])))"
proof -
  obtain p q where "rs = p @ rs ! i # q" "length p = i"
    using id_take_nth_drop [OF assms(1)] assms(1) by (metis length_take less_imp_le min.absorb2)
  moreover obtain x r where "rs ! i = x # r" using assms(2) by (cases "rs ! i") auto
  ultimately have "rs = p @ (x # r) # q" "rs ! i = x # r" "rs[i := tl (rs ! i)] = p @ r # q"
    by (metis, simp, metis list.sel(3) list_update_length)
  then show ?thesis by auto
qed

text \<open>
  What the loop needs of an order of scanning: a strict linear order on keys, and an order of
  the heap that follows it.
\<close>

locale scan_order =
  fixes lt :: "bytes \<Rightarrow> bytes \<Rightarrow> bool"
    and before :: "HeapItem \<Rightarrow> HeapItem \<Rightarrow> bool"
  assumes lt_irrefl: "\<not> lt k k"
    and lt_trans: "lt a b \<Longrightarrow> lt b c \<Longrightarrow> lt a c"
    and lt_total: "lt a b \<or> a = b \<or> lt b a"
    and lt_before: "lt (hi_key x) (hi_key y) \<Longrightarrow> before x y"
    and before_asym: "before x y \<Longrightarrow> \<not> before y x"
    and before_weak: "\<not> before x y \<Longrightarrow> \<not> before y z \<Longrightarrow> \<not> before x z"
begin

lemma before_irrefl: "\<not> before x x"
  using before_asym by blast

lemma heap_first_least: "y \<in> set (b # xs) \<Longrightarrow> \<not> before y (heap_first before b xs)"
proof (induction xs arbitrary: b y)
  case Nil
  then show ?case by (simp add: before_irrefl)
next
  case (Cons x xs)
  let ?b = "if before x b then x else b"
  have least: "\<not> before z (heap_first before ?b xs)" if "z \<in> set (?b # xs)" for z
    using Cons.IH that .
  have "\<not> before y ?b \<or> y \<in> set xs"
    using Cons.prems before_irrefl before_asym by (auto split: if_splits)
  then show ?case using least before_weak [of y ?b] by fastforce
qed

lemma heap_pop_least:
  assumes "heap_pop before heap = Some (item, heap')"
  shows "item \<in> set heap \<and> heap' = remove1 item heap \<and> (\<forall>y \<in> set heap. \<not> lt (hi_key y) (hi_key item))"
proof (cases heap)
  case Nil
  with assms show ?thesis by (simp add: heap_pop_def)
next
  case (Cons x xs)
  with assms have item: "item = heap_first before x xs" "heap' = remove1 item heap"
    by (auto simp: heap_pop_def Let_def)
  show ?thesis using heap_first_in [of before x xs] heap_first_least [of _ x xs] lt_before
    unfolding item Cons by blast
qed

text \<open>
  The state of the loop stands for the runs \<open>rs\<close>: the heap holds the head of every run that has
  one, and the streams hold the tails.
\<close>

definition merge_inv :: "HeapItem list \<Rightarrow> run list \<Rightarrow> kv list list \<Rightarrow> bool" where
  "merge_inv heap runs rs \<longleftrightarrow> runs = map (\<lambda>r. (tl r, None)) rs \<and> distinct heap \<and>
     (\<forall>x. x \<in> set heap \<longleftrightarrow> hi_idx x < length rs \<and> rs ! hi_idx x \<noteq> [] \<and>
           hd (rs ! hi_idx x) = (hi_key x, hi_entry x)) \<and>
     (\<forall>r \<in> set rs. sorted_wrt lt (map fst r))"

lemma merge_inv_least:
  assumes "merge_inv heap runs rs" "heap_pop before heap = Some (item, heap')" "r \<in> set rs" "x \<in> set r"
  shows "\<not> lt (fst x) (hi_key item)"
proof -
  from assms(3) obtain i where i: "i < length rs" "r = rs ! i" by (metis in_set_conv_nth)
  obtain k e r' where r: "r = (k, e) # r'" using assms(4) by (cases r) auto
  have "\<lparr> hi_key = k, hi_entry = e, hi_idx = i \<rparr> \<in> set heap"
    using assms(1) i(1) i(2) [symmetric] r unfolding merge_inv_def by simp
  with heap_pop_least [OF assms(2)] have "\<not> lt k (hi_key item)" by fastforce
  moreover have "fst x = k \<or> lt k (fst x)" using assms(1,3,4) r by (auto simp: merge_inv_def)
  ultimately show ?thesis using lt_trans by blast
qed

lemma merge_inv_step:
  assumes inv: "merge_inv heap runs rs" and pop: "heap_pop before heap = Some (item, heap1)"
  shows "\<exists>heap2 runs2 rs2. push_from runs (hi_idx item) heap1 = Inr (heap2, runs2) \<and>
     merge_inv heap2 runs2 rs2 \<and>
     \<Union> (set ` set rs) = insert (hi_key item, hi_entry item) (\<Union> (set ` set rs2))"
proof -
  let ?i = "hi_idx item"
  obtain h: "item \<in> set heap" "heap1 = remove1 item heap" using heap_pop_least [OF pop] by blast
  from inv h(1) have i: "?i < length rs" "rs ! ?i \<noteq> []" "hd (rs ! ?i) = (hi_key item, hi_entry item)"
    by (auto simp: merge_inv_def)
  let ?rs2 = "rs[?i := tl (rs ! ?i)]"
  have runs_i: "?i < length runs" "runs ! ?i = (tl (rs ! ?i), None)" using inv i(1) by (auto simp: merge_inv_def)
  have runs2: "runs[?i := (tl (tl (rs ! ?i)), None)] = map (\<lambda>r. (tl r, None)) ?rs2"
    using inv by (simp add: merge_inv_def map_update)
  have sorted2: "\<forall>r \<in> set ?rs2. sorted_wrt lt (map fst r)"
  proof
    fix r assume "r \<in> set ?rs2"
    then consider "r \<in> set rs" | "r = tl (rs ! ?i)"
      using set_update_subset_insert [of rs ?i "tl (rs ! ?i)"] by auto
    then show "sorted_wrt lt (map fst r)"
    proof cases
      case 1
      then show ?thesis using inv by (simp add: merge_inv_def)
    next
      case 2
      have "sorted_wrt lt (map fst (rs ! ?i))" using inv i(1) by (simp add: merge_inv_def)
      with 2 i(2) show ?thesis by (cases "rs ! ?i") auto
    qed
  qed
  have heap1: "distinct heap1" "set heap1 = set heap - {item}"
    using inv h by (auto simp: merge_inv_def)
  have mem1: "x \<in> set heap1 \<longleftrightarrow> hi_idx x \<noteq> ?i \<and> hi_idx x < length rs \<and> rs ! hi_idx x \<noteq> [] \<and>
      hd (rs ! hi_idx x) = (hi_key x, hi_entry x)" for x
    using inv heap1(2) h(1) by (auto simp: merge_inv_def)
  have un: "\<Union> (set ` set rs) = insert (hi_key item, hi_entry item) (\<Union> (set ` set ?rs2))"
    using union_update_tl [OF i(1,2)] i(3) by simp
  show ?thesis
  proof (cases "tl (rs ! ?i)")
    case Nil
    have "runs[?i := (tl (tl (rs ! ?i)), None)] = runs" using runs_i Nil by (metis list_update_id list.sel(2))
    then have "merge_inv heap1 runs ?rs2"
      using runs2 heap1 sorted2 mem1 Nil i(1) by (auto simp: merge_inv_def nth_list_update)
    moreover have "push_from runs ?i heap1 = Inr (heap1, runs)"
      using runs_i Nil by (simp add: push_from_def)
    ultimately show ?thesis using un by blast
  next
    case (Cons ke rest)
    obtain k e where ke: "ke = (k, e)" by (cases ke)
    let ?new = "\<lparr> hi_key = k, hi_entry = e, hi_idx = ?i \<rparr>"
    let ?runs2 = "runs[?i := (rest, None)]"
    have "push_from runs ?i heap1 = Inr (heap1 @ [?new], ?runs2)"
      using runs_i Cons ke by (simp add: push_from_def)
    moreover have "merge_inv (heap1 @ [?new]) ?runs2 ?rs2"
    proof -
      have "x \<in> set (heap1 @ [?new]) \<longleftrightarrow> hi_idx x < length ?rs2 \<and> ?rs2 ! hi_idx x \<noteq> [] \<and>
          hd (?rs2 ! hi_idx x) = (hi_key x, hi_entry x)" for x
      proof (cases "hi_idx x = ?i")
        case True
        then have "x = ?new \<longleftrightarrow> k = hi_key x \<and> e = hi_entry x" by (cases x) auto
        with True show ?thesis using mem1 [of x] Cons ke i(1) by simp
      next
        case False
        then have "x \<noteq> ?new" by auto
        with False show ?thesis using mem1 [of x] by simp
      qed
      moreover have "distinct (heap1 @ [?new])" using heap1(1) mem1 by simp
      moreover have "?runs2 = map (\<lambda>r. (tl r, None)) ?rs2" using runs2 Cons by simp
      ultimately show ?thesis using sorted2 unfolding merge_inv_def by blast
    qed
    ultimately show ?thesis using un by blast
  qed
qed

lemma merge_inv_empty:
  assumes "merge_inv heap runs rs" "heap_pop before heap = None"
  shows "\<Union> (set ` set rs) = {}"
proof -
  have "heap = []" using assms(2) by (cases heap) (auto simp: heap_pop_def Let_def)
  then have none: "x \<notin> set heap" for x by simp
  have "\<not> (i < length rs \<and> rs ! i \<noteq> [])" for i
    using assms(1) none [of "\<lparr> hi_key = fst (hd (rs ! i)), hi_entry = snd (hd (rs ! i)), hi_idx = i \<rparr>"]
    by (simp add: merge_inv_def)
  then have "r = []" if "r \<in> set rs" for r using that by (metis in_set_conv_nth)
  then show ?thesis by auto
qed

lemma emit_sorted:
  assumes "case pending of None \<Rightarrow> True | Some (lk, le) \<Rightarrow> \<forall>x \<in> S. lt lk (fst x)"
    and "sorted_wrt lt (map fst R)" "set R \<subseteq> S"
  shows "sorted_wrt lt (map fst (emit pending @ R))"
proof (cases pending)
  case (Some p)
  obtain lk le where p: "p = (lk, le)" by (cases p)
  have "\<forall>x \<in> set R. lt lk (fst x)" using assms(1,3) Some p by auto
  with assms(2) Some p show ?thesis by (simp add: emit_def)
qed (use assms(2) in \<open>simp add: emit_def\<close>)

text \<open>
  The loop returns the newest live version of every key in scanning order, or a prefix of
  that list when it stops at the budget.
\<close>

lemma merge_loop_spec:
  assumes "merge_inv heap runs rs" "S = \<Union> (set ` set rs)"
    and "\<forall>(lk, le) \<in> set_option pending. \<forall>x \<in> S. \<not> lt (fst x) lk"
    and "lsn_det (set_option pending \<union> S)"
  shows "\<exists>R R2 t. merge_loop before m heap runs results pending = Inr (results @ R, t) \<and>
     sorted_wrt lt (map fst (R @ R2)) \<and> set (R @ R2) = live_newest (set_option pending \<union> S) \<and>
     (\<not> t \<longrightarrow> R2 = []) \<and> (t \<longrightarrow> (\<exists>n. m = Some n \<and> n \<le> length (results @ R))) \<and>
     (\<forall>n. m = Some n \<longrightarrow> length results < n \<longrightarrow> length (results @ R) \<le> n)"
  using assms
proof (induction "length heap + run_total runs" arbitrary: heap runs rs S results pending rule: less_induct)
  case less
  note unfold = merge_loop.simps [of before m heap runs results pending]
  show ?case
  proof (cases "heap_pop before heap")
    case None
    then have "S = {}" using merge_inv_empty less.prems by simp
    moreover have "live_newest (set_option pending) = set (emit pending)"
      using live_newest_fresh [of _ "{}"] by (cases pending) (auto simp: emit_def)
    moreover have "sorted_wrt lt (map fst (emit pending))" "length (emit pending) \<le> 1"
      by (auto simp: emit_def split: option.split)
    ultimately show ?thesis
      unfolding unfold
      by (intro exI [of _ "emit pending"] exI [of _ "[]"] exI [of _ False]) (auto simp: None)
  next
    case (Some p)
    obtain item heap1 where p: "heap_pop before heap = Some (item, heap1)" using Some by (cases p) auto
    let ?it = "(hi_key item, hi_entry item)"
    obtain heap2 runs2 rs2 where st: "push_from runs (hi_idx item) heap1 = Inr (heap2, runs2)"
      "merge_inv heap2 runs2 rs2" "S = insert ?it (\<Union> (set ` set rs2))"
      using merge_inv_step [OF less.prems(1) p] less.prems(2) by blast
    let ?S2 = "\<Union> (set ` set rs2)"
    have least: "\<not> lt (fst x) (hi_key item)" if "x \<in> S" for x
      using merge_inv_least [OF less.prems(1) p] that less.prems(2) by blast
    have dec: "length heap2 + run_total runs2 < length heap + run_total runs"
      using push_from_total [OF st(1)] heap_pop_length [OF p] by simp
    note IH = less.hyps [OF dec st(2) refl]
    have det: "lsn_det (set_option pending \<union> insert ?it ?S2)" using less.prems(4) st(3) by simp
    have next_item: "\<exists>R R2 t. merge_loop before m heap2 runs2 res (Some ?it) = Inr (res @ R, t) \<and>
       sorted_wrt lt (map fst (R @ R2)) \<and> set (R @ R2) = live_newest S \<and>
       (\<not> t \<longrightarrow> R2 = []) \<and> (t \<longrightarrow> (\<exists>n. m = Some n \<and> n \<le> length (res @ R))) \<and>
       (\<forall>n. m = Some n \<longrightarrow> length res < n \<longrightarrow> length (res @ R) \<le> n)" for res
    proof -
      have a: "\<forall>(lk, le) \<in> set_option (Some ?it). \<forall>x \<in> ?S2. \<not> lt (fst x) lk" using least st(3) by auto
      have b: "lsn_det (set_option (Some ?it) \<union> ?S2)" using det by (rule lsn_det_subset) auto
      show ?thesis using IH [OF a b, of res] by (simp add: st(3))
    qed
    show ?thesis
    proof (cases pending)
      case None
      have "merge_loop before m heap runs results pending = merge_loop before m heap2 runs2 results (Some ?it)"
        unfolding unfold by (simp add: None p st(1))
      then show ?thesis using next_item [of results] by (simp add: None)
    next
      case pend: (Some q)
      obtain lk le where q: "q = (lk, le)" by (cases q)
      show ?thesis
      proof (cases "lk = hi_key item")
        case True
        let ?e = "if e_lsn (hi_entry item) > e_lsn le then hi_entry item else le"
        have eq: "live_newest (insert (lk, le) S) = live_newest (insert (lk, ?e) ?S2)"
          using det live_newest_older [of lk le "hi_entry item" ?S2]
            live_newest_older [of lk "hi_entry item" le ?S2]
          by (simp add: pend q True st(3) insert_commute not_less)
        have "merge_loop before m heap runs results pending =
            merge_loop before m heap2 runs2 results (Some (lk, ?e))"
          unfolding unfold by (simp add: p st(1) pend q True)
        moreover have "\<forall>x \<in> ?S2. \<not> lt (fst x) lk" using least st(3) True by blast
        moreover have "lsn_det (insert (lk, ?e) ?S2)"
          using det by (rule lsn_det_subset) (auto simp: pend q True)
        ultimately show ?thesis using IH [of "Some (lk, ?e)" results] eq by (simp add: pend q)
      next
        case False
        have gt: "\<forall>x \<in> S. lt lk (fst x)"
        proof
          fix x assume "x \<in> S"
          have "\<not> lt (hi_key item) lk" using less.prems(3) pend q st(3) by auto
          with False lt_total have "lt lk (hi_key item)" by blast
          with least [OF \<open>x \<in> S\<close>] lt_total lt_trans show "lt lk (fst x)" by metis
        qed
        then have fresh: "live_newest (insert (lk, le) S) = set (emit pending) \<union> live_newest S"
          unfolding pend q by (intro live_newest_fresh) (use lt_irrefl in fastforce)
        have ln: "live_newest S \<subseteq> S" by (auto simp: live_newest_def newest_def)
        obtain R R2 t where R: "merge_loop before m heap2 runs2 (results @ emit pending) (Some ?it) =
            Inr ((results @ emit pending) @ R, t)"
          "sorted_wrt lt (map fst (R @ R2))" "set (R @ R2) = live_newest S" "\<not> t \<longrightarrow> R2 = []"
          "t \<longrightarrow> (\<exists>n. m = Some n \<and> n \<le> length ((results @ emit pending) @ R))"
          "\<forall>n. m = Some n \<longrightarrow> length (results @ emit pending) < n \<longrightarrow>
             length ((results @ emit pending) @ R) \<le> n"
          using next_item by blast
        have srt: "sorted_wrt lt (map fst (emit pending @ R @ R2))"
        proof (rule emit_sorted [OF _ R(2)])
          show "set (R @ R2) \<subseteq> S" using R(3) ln by simp
        qed (use gt in \<open>simp add: pend q\<close>)
        have em: "emit pending = [] \<or> length (emit pending) = 1"
          by (simp add: pend q emit_def)
        show ?thesis
        proof (cases "emit pending \<noteq> [] \<and> (\<exists>n \<in> set_option m. length results + 1 \<ge> n)")
          case True
          then have "merge_loop before m heap runs results pending = Inr (results @ emit pending, True)"
            unfolding unfold using False by (simp add: p st(1) pend q)
          with True show ?thesis using srt R(3) fresh em
            by (intro exI [of _ "emit pending"] exI [of _ "R @ R2"] exI [of _ True]) (auto simp: pend q)
        next
          case stop: False
          have "merge_loop before m heap runs results pending = Inr (results @ emit pending @ R, t)"
            unfolding unfold using stop False R(1) by (auto simp: p st(1) pend q)
          moreover have "length (results @ emit pending @ R) \<le> n" if "m = Some n" "length results < n" for n
            using R(6) that stop em by (cases "emit pending = []") fastforce+
          ultimately show ?thesis using srt R(3,4,5) fresh
            by (intro exI [of _ "emit pending @ R"] exI [of _ R2] exI [of _ t]) (auto simp: pend q)
        qed
      qed
    qed
  qed
qed

text \<open>Seeding the heap establishes the invariant.\<close>

lemma seed_heap_inv:
  assumes "\<forall>r \<in> set rs. sorted_wrt lt (map fst r)"
  shows "\<exists>heap runs. seed_heap 0 (length rs) (map (\<lambda>r. (r, None)) rs) [] = Inr (heap, runs) \<and>
     merge_inv heap runs rs"
proof -
  let ?seeded = "\<lambda>i heap runs. runs = map (\<lambda>r. (tl r, None)) (take i rs) @ map (\<lambda>r. (r, None)) (drop i rs) \<and>
     distinct heap \<and> (\<forall>x. x \<in> set heap \<longleftrightarrow> hi_idx x < i \<and> rs ! hi_idx x \<noteq> [] \<and>
           hd (rs ! hi_idx x) = (hi_key x, hi_entry x))"
  have "\<exists>heap' runs'. seed_heap i n runs heap = Inr (heap', runs') \<and> ?seeded (i + n) heap' runs'"
    if "?seeded i heap runs" "i + n \<le> length rs" for i n heap runs
    using that
  proof (induction n arbitrary: i heap runs)
    case 0
    then show ?case by simp
  next
    case (Suc n)
    have i: "i < length rs" using Suc.prems(2) by simp
    have runs_i: "runs ! i = (rs ! i, None)" "i < length runs" "length runs = length rs"
      using Suc.prems(1) i by (auto simp: nth_append)
    have upd: "runs[i := (tl (rs ! i), None)] =
        map (\<lambda>r. (tl r, None)) (take (Suc i) rs) @ map (\<lambda>r. (r, None)) (drop (Suc i) rs)"
      using Suc.prems(1) i by (auto simp: list_update_append take_Suc_conv_app_nth Cons_nth_drop_Suc [symmetric])
    show ?case
    proof (cases "rs ! i")
      case Nil
      then have "runs[i := (tl (rs ! i), None)] = runs" using runs_i by (metis list.sel(2) list_update_id)
      with Suc.prems(1) upd Nil have "?seeded (Suc i) heap runs" by (auto simp: less_Suc_eq)
      with Suc.IH [of runs "Suc i" heap] Suc.prems(2) runs_i Nil show ?thesis by (simp add: push_from_def)
    next
      case (Cons ke rest)
      obtain k e where ke: "ke = (k, e)" by (cases ke)
      let ?new = "\<lparr> hi_key = k, hi_entry = e, hi_idx = i \<rparr>"
      have "x \<in> set (heap @ [?new]) \<longleftrightarrow> hi_idx x < Suc i \<and> rs ! hi_idx x \<noteq> [] \<and>
           hd (rs ! hi_idx x) = (hi_key x, hi_entry x)" for x
      proof (cases "hi_idx x = i")
        case True
        then have "x = ?new \<longleftrightarrow> k = hi_key x \<and> e = hi_entry x" by (cases x) auto
        with True Suc.prems(1) Cons ke show ?thesis by simp
      next
        case False
        then have "x \<noteq> ?new" by auto
        with False Suc.prems(1) show ?thesis by (simp add: less_Suc_eq)
      qed
      moreover have "?new \<notin> set heap" using Suc.prems(1) by simp
      ultimately have "?seeded (Suc i) (heap @ [?new]) (runs[i := (tl (rs ! i), None)])"
        using upd Suc.prems(1) by (simp only: distinct_append) simp
      with Suc.IH [of "runs[i := (tl (rs ! i), None)]" "Suc i" "heap @ [?new]"] Suc.prems(2) runs_i Cons ke show ?thesis
        by (simp add: push_from_def)
    qed
  qed
  from this [of "map (\<lambda>r. (r, None)) rs" 0 "[]" "length rs"] assms show ?thesis
    by (auto simp: merge_inv_def)
qed

lemma merge_runs:
  assumes "\<forall>r \<in> set rs. sorted_wrt lt (map fst r)" "lsn_det (\<Union> (set ` set rs))"
  shows "\<exists>heap runs R R2 t. seed_heap 0 (length rs) (map (\<lambda>r. (r, None)) rs) [] = Inr (heap, runs) \<and>
     merge_loop before m heap runs [] None = Inr (R, t) \<and>
     sorted_wrt lt (map fst (R @ R2)) \<and> set (R @ R2) = live_newest (\<Union> (set ` set rs)) \<and>
     (\<not> t \<longrightarrow> R2 = []) \<and> (t \<longrightarrow> (\<exists>n. m = Some n \<and> n \<le> length R)) \<and>
     (\<forall>n. m = Some n \<longrightarrow> 0 < n \<longrightarrow> length R \<le> n)"
proof -
  obtain heap runs where h: "seed_heap 0 (length rs) (map (\<lambda>r. (r, None)) rs) [] = Inr (heap, runs)"
    "merge_inv heap runs rs" using seed_heap_inv [OF assms(1)] by blast
  from merge_loop_spec [OF h(2) refl, of None m "[]"] assms(2) h(1) show ?thesis by simp
qed

end

interpretation fwd: scan_order "(<)" fwd_before
  by unfold_locales (auto simp: fwd_before_def)

interpretation bwd: scan_order "(>)" rev_before
  by unfold_locales (auto simp: rev_before_def)

section \<open>What a cursor yields\<close>

abbreviation in_range :: "bytes \<Rightarrow> bytes \<Rightarrow> kv \<Rightarrow> bool" where
  "in_range lo hi \<equiv> \<lambda>(k, e). lo \<le> k \<and> k < hi"

text \<open>The cursor \<open>c\<close> still has the entries \<open>L\<close> to yield.\<close>

definition cursor_inv :: "ext \<Rightarrow> SegmentCursor \<Rightarrow> kv list \<Rightarrow> bool" where
  "cursor_inv X c L \<longleftrightarrow> (\<exists>bs1 bs2. sc_dat c = dat_of X (bs1 @ bs2) \<and> sc_current_offset c = length (dat_of X bs1) \<and>
     (\<forall>b \<in> set (bs1 @ bs2). block_ok b) \<and> ksorted (concat bs2) \<and>
     L = sc_buffer c @ (if sc_done c then [] else filter (in_range (sc_start c) (sc_end c)) (concat bs2)))"

lemma cursor_fill_inv:
  assumes "zstd_ok X" "cursor_inv X c L"
  shows "\<exists>c'. cursor_fill X c = Inr c' \<and> cursor_inv X c' L \<and> (sc_buffer c' = [] \<longrightarrow> L = [])"
proof (cases "sc_buffer c \<noteq> [] \<or> sc_done c")
  case True
  then have "cursor_fill X c = Inr c" by (simp add: cursor_fill.simps)
  with assms(2) True show ?thesis by (auto simp: cursor_inv_def)
next
  case False
  from assms(2) obtain bs1 bs2 where "sc_dat c = dat_of X (bs1 @ bs2)"
    "sc_current_offset c = length (dat_of X bs1)" "\<forall>b \<in> set (bs1 @ bs2). block_ok b" "ksorted (concat bs2)"
    "L = filter (in_range (sc_start c) (sc_end c)) (concat bs2)"
    using False unfolding cursor_inv_def by auto
  with False show ?thesis
  proof (induction bs2 arbitrary: bs1 c)
    case Nil
    then have "cursor_fill X c = Inr (c\<lparr>sc_done := True\<rparr>)" by (simp add: cursor_fill.simps)
    moreover have "cursor_inv X (c\<lparr>sc_done := True\<rparr>) L" unfolding cursor_inv_def
      using Nil by (intro exI [of _ bs1] exI [of _ "[]"]) simp
    ultimately show ?case using Nil by simp
  next
    case (Cons b bs2)
    note r = read_block_dat [OF assms(1) Cons.prems(4)]
    obtain rs past where s: "scan_block (sc_start c) (sc_end c) b = (rs, past)" by fastforce
    let ?c = "c\<lparr>sc_current_offset := length (dat_of X (bs1 @ [b])), sc_buffer := rs, sc_done := past\<rparr>"
    have ne: "b \<noteq> []" using Cons.prems(4) by (simp add: block_ok_def)
    have srt: "ksorted (concat bs2)" using Cons.prems(5) by (simp add: sorted_wrt_append)
    have L: "L = rs @ (if past then [] else filter (in_range (sc_start c) (sc_end c)) (concat bs2))"
      using scan_block_spec [of b "concat bs2" "sc_start c" "sc_end c"] Cons.prems(5,6) s by simp
    have step: "cursor_fill X c = cursor_fill X ?c"
      using Cons.prems(1-3) r ne s by (subst cursor_fill.simps) (simp del: dat_of_simps)
    have inv: "cursor_inv X ?c L" unfolding cursor_inv_def
      using Cons.prems(2,4) srt L by (intro exI [of _ "bs1 @ [b]"] exI [of _ bs2]) simp
    show ?case
    proof (cases "rs = [] \<and> \<not> past")
      case True
      with Cons.IH [of ?c "bs1 @ [b]"] Cons.prems(2,4) srt L step show ?thesis by simp
    next
      case False
      then have "cursor_fill X ?c = Inr ?c" by (auto simp: cursor_fill.simps)
      with step inv L False show ?thesis by auto
    qed
  qed
qed

lemma cursor_run_inv:
  assumes "zstd_ok X"
  shows "cursor_inv X c L \<Longrightarrow> cursor_run X c = (L, None)"
proof (induction L arbitrary: c)
  case Nil
  from cursor_fill_inv [OF assms Nil] obtain c' where c': "cursor_fill X c = Inr c'" "cursor_inv X c' []" by blast
  then have "sc_buffer c' = []" by (auto simp: cursor_inv_def)
  with c'(1) show ?case by (simp add: cursor_run.simps [of X c] cursor_pop_def)
next
  case (Cons ke L)
  from cursor_fill_inv [OF assms Cons.prems] obtain c' where
    c': "cursor_fill X c = Inr c'" "cursor_inv X c' (ke # L)" "sc_buffer c' \<noteq> []" by blast
  then obtain rest where rest: "sc_buffer c' = ke # rest" by (cases "sc_buffer c'") (auto simp: cursor_inv_def)
  have "cursor_inv X (c'\<lparr>sc_buffer := rest\<rparr>) L"
  proof -
    from c'(2) obtain bs1 bs2 where "sc_dat c' = dat_of X (bs1 @ bs2)"
      "sc_current_offset c' = length (dat_of X bs1)" "\<forall>b \<in> set (bs1 @ bs2). block_ok b" "ksorted (concat bs2)"
      "L = rest @ (if sc_done c' then [] else filter (in_range (sc_start c') (sc_end c')) (concat bs2))"
      unfolding cursor_inv_def rest by auto
    then show ?thesis unfolding cursor_inv_def by (intro exI [of _ bs1] exI [of _ bs2]) simp
  qed
  with Cons.IH c'(1) rest show ?case by (simp add: cursor_run.simps [of X c] cursor_pop_def)
qed

lemma cursor_open_spec:
  assumes "segment_inv X d r es"
  shows "\<exists>c. SegmentCursor_open d r lo hi = Inr c \<and>
     (case c of None \<Rightarrow> filter (in_range lo hi) es = [] | Some c \<Rightarrow> cursor_inv X c (filter (in_range lo hi) es))"
proof (cases "hi \<le> m_min_key (sr_meta r) \<or> lo > m_max_key (sr_meta r)")
  case True
  have es: "es \<noteq> []" "ksorted es" "m_min_key (sr_meta r) = fst (hd es)" "m_max_key (sr_meta r) = fst (last es)"
    using assms by (auto simp: segment_inv_def)
  have "fst (hd es) \<le> fst x \<and> fst x \<le> fst (last es)" if "x \<in> set es" for x
    using ksorted_bounds [OF es(2) that] .
  then have "filter (in_range lo hi) es = []" using True es(3,4) by (force simp: filter_empty_conv)
  with True show ?thesis by (simp add: SegmentCursor_open_def)
next
  case False
  obtain bs1 bs2 where b: "fs_read d (dat_path (sr_segment_id r)) = Some (dat_of X (bs1 @ bs2))"
    "\<forall>b \<in> set (bs1 @ bs2). block_ok b" "es = concat bs1 @ concat bs2"
    "find_block_offset (sr_index r) lo = length (dat_of X bs1)" "\<forall>x \<in> set (concat bs1). fst x < lo"
    using assms by (rule segment_inv_start)
  have "ksorted (concat bs2)" using segment_inv_sorted [OF assms] b(3) by (simp add: sorted_wrt_append)
  moreover have "filter (in_range lo hi) (concat bs1) = []" using b(5) by (force simp: filter_empty_conv)
  then have "filter (in_range lo hi) es = filter (in_range lo hi) (concat bs2)"
    by (simp only: b(3) filter_append append_Nil)
  ultimately show ?thesis using False b(1,2,4) by (auto simp: SegmentCursor_open_def cursor_inv_def)
qed

text \<open>The readers of a store and the sorted lists they stand for, in the same order.\<close>

definition store_inv :: "ext \<Rightarrow> dir \<Rightarrow> SegmentReader list \<Rightarrow> kv list list \<Rightarrow> bool" where
  "store_inv X d readers ess \<longleftrightarrow> list_all2 (segment_inv X d) readers ess"

lemma open_cursors_spec:
  assumes "zstd_ok X" "store_inv X d readers ess"
  shows "\<exists>cs. open_cursors d lo hi readers = Inr cs \<and>
     map (cursor_run X) cs = map (\<lambda>r. (r, None)) (map (fst \<circ> cursor_run X) cs) \<and>
     (\<forall>r \<in> set (map (fst \<circ> cursor_run X) cs). ksorted r) \<and>
     \<Union> (set ` set (map (fst \<circ> cursor_run X) cs)) = \<Union> (set ` set (map (filter (in_range lo hi)) ess))"
  using assms(2) unfolding store_inv_def
proof (induction readers ess rule: list_all2_induct)
  case Nil
  then show ?case by simp
next
  case (Cons r readers es ess)
  from Cons.IH obtain cs where cs: "open_cursors d lo hi readers = Inr cs"
    "map (cursor_run X) cs = map (\<lambda>r. (r, None)) (map (fst \<circ> cursor_run X) cs)"
    "\<forall>r \<in> set (map (fst \<circ> cursor_run X) cs). ksorted r"
    "\<Union> (set ` set (map (fst \<circ> cursor_run X) cs)) = \<Union> (set ` set (map (filter (in_range lo hi)) ess))"
    by blast
  from cursor_open_spec [OF Cons.hyps(1), of lo hi] obtain c where c: "SegmentCursor_open d r lo hi = Inr c"
    "case c of None \<Rightarrow> filter (in_range lo hi) es = [] | Some c \<Rightarrow> cursor_inv X c (filter (in_range lo hi) es)"
    by blast
  show ?case
  proof (cases c)
    case None
    with c cs show ?thesis by (intro exI [of _ cs]) auto
  next
    case (Some c')
    with c(2) have "cursor_run X c' = (filter (in_range lo hi) es, None)"
      using cursor_run_inv [OF assms(1)] by simp
    moreover have "ksorted (filter (in_range lo hi) es)"
      using segment_inv_sorted [OF Cons.hyps(1)] by (rule ksorted_filter)
    ultimately show ?thesis using Some c(1) cs by (intro exI [of _ "c' # cs"]) auto
  qed
qed

section \<open>Scans of a store\<close>

definition entries_between :: "bytes \<Rightarrow> bytes \<Rightarrow> kv list list \<Rightarrow> kv set" where
  "entries_between lo hi ess = {x \<in> \<Union> (set ` set ess). in_range lo hi x}"

lemma entries_between_filter: "\<Union> (set ` set (map (filter (in_range lo hi)) ess)) = entries_between lo hi ess"
  by (auto simp: entries_between_def)

lemma range_scan_budgeted_spec:
  assumes "zstd_ok X" "store_inv X d readers ess" "lsn_det (entries_between lo hi ess)"
  shows "\<exists>R R2 t. range_scan_budgeted X d readers lo hi m = Inr (R, t) \<and>
     ksorted (R @ R2) \<and> set (R @ R2) = live_newest (entries_between lo hi ess) \<and>
     (\<not> t \<longrightarrow> R2 = []) \<and> (t \<longrightarrow> (\<exists>n. m = Some n \<and> n \<le> length R)) \<and>
     (\<forall>n. m = Some n \<longrightarrow> 0 < n \<longrightarrow> length R \<le> n)"
proof -
  from open_cursors_spec [OF assms(1,2), of lo hi] obtain cs where cs: "open_cursors d lo hi readers = Inr cs"
    "map (cursor_run X) cs = map (\<lambda>r. (r, None)) (map (fst \<circ> cursor_run X) cs)"
    "\<forall>r \<in> set (map (fst \<circ> cursor_run X) cs). ksorted r"
    "\<Union> (set ` set (map (fst \<circ> cursor_run X) cs)) = entries_between lo hi ess"
    unfolding entries_between_filter by blast
  show ?thesis
  proof (cases "cs = []")
    case True
    then have "entries_between lo hi ess = {}" using cs(4) by simp
    with True cs(1) show ?thesis
      by (intro exI [of _ "[]"] exI [of _ False]) (simp add: range_scan_budgeted_def)
  next
    case False
    let ?rs = "map (fst \<circ> cursor_run X) cs"
    have "lsn_det (\<Union> (set ` set ?rs))" using assms(3) unfolding cs(4) .
    from fwd.merge_runs [OF cs(3) this, of m] obtain heap runs R R2 t where
      "seed_heap 0 (length ?rs) (map (\<lambda>r. (r, None)) ?rs) [] = Inr (heap, runs)"
      "merge_loop fwd_before m heap runs [] None = Inr (R, t)"
      "ksorted (R @ R2)" "set (R @ R2) = live_newest (entries_between lo hi ess)"
      "\<not> t \<longrightarrow> R2 = []" "t \<longrightarrow> (\<exists>n. m = Some n \<and> n \<le> length R)"
      "\<forall>n. m = Some n \<longrightarrow> 0 < n \<longrightarrow> length R \<le> n"
      unfolding cs(4) by blast
    moreover from this(1) have "seed_heap 0 (length cs) (map (cursor_run X) cs) [] = Inr (heap, runs)"
      unfolding cs(2) by simp
    ultimately show ?thesis using False cs(1) by (auto simp: range_scan_budgeted_def)
  qed
qed

lemma load_rev_spec:
  assumes "zstd_ok X" "store_inv X d readers ess"
  shows "\<exists>segs. load_rev X d lo hi readers = Inr segs \<and> (\<forall>r \<in> set segs. ksorted r) \<and>
     \<Union> (set ` set segs) = entries_between lo hi ess"
  using assms(2) unfolding store_inv_def
proof (induction readers ess rule: list_all2_induct)
  case Nil
  then show ?case by (simp add: entries_between_def)
next
  case (Cons r readers es ess)
  from Cons.IH obtain segs where segs: "load_rev X d lo hi readers = Inr segs" "\<forall>r \<in> set segs. ksorted r"
    "\<Union> (set ` set segs) = entries_between lo hi ess" by blast
  have eb: "entries_between lo hi (es # ess) = set (filter (in_range lo hi) es) \<union> entries_between lo hi ess"
    by (auto simp: entries_between_def)
  have srt: "ksorted (filter (in_range lo hi) es)"
    using segment_inv_sorted [OF Cons.hyps(1)] by (rule ksorted_filter)
  show ?case
  proof (cases "hi \<le> m_min_key (sr_meta r) \<or> lo > m_max_key (sr_meta r)")
    case True
    then have "SegmentCursor_open d r lo hi = Inr None" by (simp add: SegmentCursor_open_def)
    with cursor_open_spec [OF Cons.hyps(1), of lo hi] have "filter (in_range lo hi) es = []" by auto
    with True segs eb show ?thesis by simp
  next
    case False
    from segment_range_scan [OF assms(1) Cons.hyps(1)]
    have "SegmentReader_range_scan X d r lo hi = Inr (filter (in_range lo hi) es)" .
    with False segs srt show ?thesis unfolding eb
      by (cases "filter (in_range lo hi) es = []") auto
  qed
qed

lemma range_scan_rev_budgeted_spec:
  assumes "zstd_ok X" "store_inv X d readers ess" "lsn_det (entries_between lo hi ess)"
  shows "\<exists>R R2. range_scan_rev_budgeted X d readers lo hi m = Inr R \<and>
     ksorted (rev (R @ R2)) \<and> set (R @ R2) = live_newest (entries_between lo hi ess) \<and>
     (R2 \<noteq> [] \<longrightarrow> m \<le> length R) \<and> (0 < m \<longrightarrow> length R \<le> m)"
proof -
  from load_rev_spec [OF assms(1,2), of lo hi] obtain segs where segs:
    "load_rev X d lo hi readers = Inr segs" "\<forall>r \<in> set segs. ksorted r"
    "\<Union> (set ` set segs) = entries_between lo hi ess" by blast
  show ?thesis
  proof (cases "segs = []")
    case True
    then have "entries_between lo hi ess = {}" using segs(3) by simp
    with True segs(1) show ?thesis
      by (intro exI [of _ "[]"]) (simp add: range_scan_rev_budgeted_def)
  next
    case False
    let ?rs = "map rev segs"
    have srt: "\<forall>r \<in> set ?rs. sorted_wrt (>) (map fst r)"
      using segs(2) by (simp add: rev_map [symmetric] sorted_wrt_rev)
    have un: "\<Union> (set ` set ?rs) = entries_between lo hi ess" using segs(3) by auto
    with assms(3) have "lsn_det (\<Union> (set ` set ?rs))" by simp
    from bwd.merge_runs [OF srt this, of "Some m"] obtain heap runs R R2 t where R:
      "seed_heap 0 (length ?rs) (map (\<lambda>r. (r, None)) ?rs) [] = Inr (heap, runs)"
      "merge_loop rev_before (Some m) heap runs [] None = Inr (R, t)"
      "sorted_wrt (>) (map fst (R @ R2))" "set (R @ R2) = live_newest (entries_between lo hi ess)"
      "\<not> t \<longrightarrow> R2 = []" "t \<longrightarrow> (\<exists>n. Some m = Some n \<and> n \<le> length R)"
      "\<forall>n. Some m = Some n \<longrightarrow> 0 < n \<longrightarrow> length R \<le> n"
      unfolding un by blast
    have "range_scan_rev_budgeted X d readers lo hi m = Inr R"
      using False segs(1) R(1,2) by (simp add: range_scan_rev_budgeted_def comp_def)
    moreover have "ksorted (rev (R @ R2))"
      using R(3) unfolding rev_map [symmetric] sorted_wrt_rev .
    moreover have "R2 \<noteq> [] \<longrightarrow> m \<le> length R" "0 < m \<longrightarrow> length R \<le> m" using R(5-7) by auto
    ultimately show ?thesis using R(4) by blast
  qed
qed

lemma segment_inv_frame:
  "segment_inv X d r es \<Longrightarrow>
   fs_read d' (dat_path (sr_segment_id r)) = fs_read d (dat_path (sr_segment_id r)) \<Longrightarrow> segment_inv X d' r es"
  by (simp add: segment_inv_def)

definition sample_run2 :: "kv list" where
  "sample_run2 = [sample_entry [1] 11 4, sample_entry [2] 20 5, sample_tombstone [3, 0] 6, sample_entry [4] 40 7]"

lemma sample_store: "\<exists>d readers. store_inv sample_ext d readers [sample_run, sample_run2]"
proof -
  have f2: "flushable sample_ext 3600 sample_run2"
    by (simp add: flushable_def sample_run2_def sample_entry_small build_xor_filter_def sample_ext_def)
  obtain meta1 d1 r1 where 1: "SegmentWriter_flush sample_ext 1 3600 0 sample_run [] = Inr (meta1, d1)"
    "segment_inv sample_ext d1 r1 sample_run" "sr_segment_id r1 = 1"
    using flush_segment [OF sample_laws(2,5,4) sample_flushable, of 1 0 "[]"] by blast
  obtain meta2 d2 r2 where 2: "SegmentWriter_flush sample_ext 2 3600 0 sample_run2 d1 = Inr (meta2, d2)"
    "segment_inv sample_ext d2 r2 sample_run2" "sr_segment_id r2 = 2"
    "\<forall>p. (\<forall>x. p \<noteq> segment_file 2 x) \<longrightarrow> fs_read d2 p = fs_read d1 p"
    using flush_segment [OF sample_laws(2,5,4) f2, of 2 0 d1] by blast
  have "segment_inv sample_ext d2 r1 sample_run"
    using 1(2) by (rule segment_inv_frame) (simp add: 1(3) 2(4))
  with 2(2) have "store_inv sample_ext d2 [r1, r2] [sample_run, sample_run2]" by (simp add: store_inv_def)
  then show ?thesis by blast
qed

lemma sample_store_det: "lsn_det (entries_between lo hi [sample_run, sample_run2])"
  by (auto simp: lsn_det_def entries_between_def sample_run_def sample_run2_def sample_entry_def
        sample_tombstone_def)

text \<open>
  C7: An ascending scan of a store returns, for every key in the range that some segment has, the
  version with the highest LSN over all segments, unless that version is a deletion; keys come
  in increasing order, each once. With a budget the result is a prefix of that list which is
  cut only when the budget is used up, and the truncation flag is set whenever it is cut.
\<close>

theorem range_scan_returns_newest:
  assumes "zstd_ok X" "store_inv X d readers ess" "lsn_det (entries_between lo hi ess)"
  shows "\<exists>R R2 t. range_scan_budgeted X d readers lo hi m = Inr (R, t) \<and>
     ksorted (R @ R2) \<and> set (R @ R2) = live_newest (entries_between lo hi ess) \<and>
     (\<not> t \<longrightarrow> R2 = []) \<and> (t \<longrightarrow> (\<exists>n. m = Some n \<and> n \<le> length R)) \<and>
     (\<forall>n. m = Some n \<longrightarrow> 0 < n \<longrightarrow> length R \<le> n)"
  using assms by (rule range_scan_budgeted_spec)

theorem range_scan_returns_newest_witness:
  "\<exists>d readers R R2 t. store_inv sample_ext d readers [sample_run, sample_run2] \<and>
     range_scan_budgeted sample_ext d readers [1] [4] (Some 2) = Inr (R, t) \<and> ksorted (R @ R2) \<and>
     set (R @ R2) = live_newest (entries_between [1] [4] [sample_run, sample_run2])"
proof -
  obtain d readers where s: "store_inv sample_ext d readers [sample_run, sample_run2]"
    using sample_store by blast
  from range_scan_returns_newest [OF sample_laws(2) s sample_store_det, of "[1]" "[4]" "Some 2"] s
  show ?thesis by blast
qed

text \<open>
  A descending scan returns the same newest live versions in decreasing order of keys, cut
  only when the budget is used up.
\<close>

theorem range_scan_rev_returns_newest:
  assumes "zstd_ok X" "store_inv X d readers ess" "lsn_det (entries_between lo hi ess)"
  shows "\<exists>R R2. range_scan_rev_budgeted X d readers lo hi m = Inr R \<and>
     ksorted (rev (R @ R2)) \<and> set (R @ R2) = live_newest (entries_between lo hi ess) \<and>
     (R2 \<noteq> [] \<longrightarrow> m \<le> length R) \<and> (0 < m \<longrightarrow> length R \<le> m)"
  using assms by (rule range_scan_rev_budgeted_spec)

theorem range_scan_rev_returns_newest_witness:
  "\<exists>d readers R R2. store_inv sample_ext d readers [sample_run, sample_run2] \<and>
     range_scan_rev_budgeted sample_ext d readers [1] [4] 2 = Inr R \<and> ksorted (rev (R @ R2)) \<and>
     set (R @ R2) = live_newest (entries_between [1] [4] [sample_run, sample_run2])"
proof -
  obtain d readers where s: "store_inv sample_ext d readers [sample_run, sample_run2]"
    using sample_store by blast
  from range_scan_rev_returns_newest [OF sample_laws(2) s sample_store_det, of "[1]" "[4]" 2] s
  show ?thesis by blast
qed

end
