(* ===== verification/Transaction.thy ===== *)
theory Transaction
  imports Sample
begin

text \<open>
  \<open>edgestore/src/transaction.rs\<close>: a transaction collects WAL records until it is committed
  or rolled back. The state machine has three states; only an active transaction accepts
  records or hands them over.
\<close>

section \<open>State and operations\<close>

datatype TxState = Active | Committed | RolledBack

record Transaction =
  t_pending :: "WalRecord list"
  t_txid :: u64
  t_state :: TxState

definition tx_new :: "u64 \<Rightarrow> Transaction" where
  "tx_new txid = \<lparr> t_pending = [], t_txid = txid, t_state = Active \<rparr>"

definition tx_put ::
  "ext \<Rightarrow> Transaction \<Rightarrow> bytes \<Rightarrow> bytes \<Rightarrow> bytes \<Rightarrow> Lsn \<Rightarrow> i64 \<Rightarrow> Transaction res" where
  "tx_put X tx ns key val lsn timestamp =
     (if t_state tx \<noteq> Active then Inl (InvalidOperation ''transaction not active'')
      else Inr (tx\<lparr>t_pending := t_pending tx @ [\<lparr>
        r_txid = t_txid tx, r_lsn = lsn, r_timestamp = timestamp, r_ttl = 0,
        r_ns_len = word_of_nat (length ns), r_ns_bytes = ns, r_key_bytes = key, r_op = Put,
        r_value_hash = blake3 X val, r_value_bytes = val\<rparr>]\<rparr>))"

definition tx_put_with_ttl ::
  "ext \<Rightarrow> Transaction \<Rightarrow> bytes \<Rightarrow> bytes \<Rightarrow> bytes \<Rightarrow> u32 \<Rightarrow> Lsn \<Rightarrow> i64 \<Rightarrow> Transaction res" where
  "tx_put_with_ttl X tx ns key val ttl_secs lsn timestamp =
     (if t_state tx \<noteq> Active then Inl (InvalidOperation ''transaction not active'')
      else Inr (tx\<lparr>t_pending := t_pending tx @ [\<lparr>
        r_txid = t_txid tx, r_lsn = lsn, r_timestamp = timestamp, r_ttl = ttl_secs,
        r_ns_len = word_of_nat (length ns), r_ns_bytes = ns, r_key_bytes = key, r_op = Put,
        r_value_hash = blake3 X val, r_value_bytes = val\<rparr>]\<rparr>))"

definition tx_delete ::
  "ext \<Rightarrow> Transaction \<Rightarrow> bytes \<Rightarrow> bytes \<Rightarrow> Lsn \<Rightarrow> i64 \<Rightarrow> Transaction res" where
  "tx_delete X tx ns key lsn timestamp =
     (if t_state tx \<noteq> Active then Inl (InvalidOperation ''transaction not active'')
      else Inr (tx\<lparr>t_pending := t_pending tx @ [\<lparr>
        r_txid = t_txid tx, r_lsn = lsn, r_timestamp = timestamp, r_ttl = 0,
        r_ns_len = word_of_nat (length ns), r_ns_bytes = ns, r_key_bytes = key, r_op = Delete,
        r_value_hash = blake3 X [], r_value_bytes = []\<rparr>]\<rparr>))"

definition tx_rollback_self :: "Transaction \<Rightarrow> Transaction" where
  "tx_rollback_self tx = tx\<lparr>t_state := RolledBack, t_pending := []\<rparr>"

definition tx_take_pending :: "Transaction \<Rightarrow> (WalRecord list \<times> Transaction) res" where
  "tx_take_pending tx =
     (case t_state tx of
        Active \<Rightarrow> Inr (t_pending tx, tx\<lparr>t_state := Committed, t_pending := []\<rparr>)
      | Committed \<Rightarrow> Inl (InvalidOperation ''already committed'')
      | RolledBack \<Rightarrow> Inl (InvalidOperation ''already rolled back''))"

definition tx_is_active :: "Transaction \<Rightarrow> bool" where
  "tx_is_active tx \<longleftrightarrow> t_state tx = Active"

section \<open>Runs of a transaction\<close>

text \<open>The calls a client makes on one transaction, as steps that may fail.\<close>

inductive tx_step :: "ext \<Rightarrow> Transaction \<Rightarrow> Transaction \<Rightarrow> bool" for X where
  put: "tx_put X tx ns k v lsn ts = Inr tx' \<Longrightarrow> tx_step X tx tx'"
| put_ttl: "tx_put_with_ttl X tx ns k v ttl lsn ts = Inr tx' \<Longrightarrow> tx_step X tx tx'"
| delete: "tx_delete X tx ns k lsn ts = Inr tx' \<Longrightarrow> tx_step X tx tx'"
| rollback: "tx_step X tx (tx_rollback_self tx)"
| commit: "tx_take_pending tx = Inr (rs, tx') \<Longrightarrow> tx_step X tx tx'"

inductive tx_reach :: "ext \<Rightarrow> u64 \<Rightarrow> Transaction \<Rightarrow> bool" for X txid where
  start: "tx_reach X txid (tx_new txid)"
| step: "tx_reach X txid tx \<Longrightarrow> tx_step X tx tx' \<Longrightarrow> tx_reach X txid tx'"

definition tx_inv :: "u64 \<Rightarrow> Transaction \<Rightarrow> bool" where
  "tx_inv txid tx \<longleftrightarrow> t_txid tx = txid \<and> (\<forall>r \<in> set (t_pending tx). r_txid r = txid) \<and>
     (t_state tx \<noteq> Active \<longrightarrow> t_pending tx = [])"

lemmas tx_defs = tx_put_def tx_put_with_ttl_def tx_delete_def tx_rollback_self_def tx_take_pending_def

lemma tx_step_inv: "tx_step X tx tx' \<Longrightarrow> tx_inv txid tx \<Longrightarrow> tx_inv txid tx'"
  by (induction rule: tx_step.induct)
     (auto simp: tx_defs tx_inv_def split: if_splits TxState.splits)

lemma tx_reach_inv: "tx_reach X txid tx \<Longrightarrow> tx_inv txid tx"
proof (induction rule: tx_reach.induct)
  case start
  then show ?case by (simp add: tx_inv_def tx_new_def)
next
  case (step tx tx')
  then show ?case using tx_step_inv by blast
qed

lemma tx_step_inactive: "tx_step X tx tx' \<Longrightarrow> t_state tx \<noteq> Active \<Longrightarrow> t_state tx' \<noteq> Active"
  by (induction rule: tx_step.induct) (auto simp: tx_defs split: if_splits TxState.splits)

text \<open>
  Whatever calls a client makes on a transaction, every pending record carries the
  transaction's own id, and once the transaction has been committed or rolled back it holds
  no records, refuses every further \<open>put\<close>, \<open>put_with_ttl\<close>, \<open>delete\<close> and \<open>take_pending\<close> with
  \<open>InvalidOperation\<close>, and no later call makes it active again.
\<close>

theorem transaction_closed_forever:
  assumes "tx_reach X txid tx"
  shows "(\<forall>r \<in> set (t_pending tx). r_txid r = txid) \<and>
    (t_state tx \<noteq> Active \<longrightarrow>
       t_pending tx = [] \<and>
       tx_put X tx ns k v lsn ts = Inl (InvalidOperation ''transaction not active'') \<and>
       tx_put_with_ttl X tx ns k v ttl lsn ts = Inl (InvalidOperation ''transaction not active'') \<and>
       tx_delete X tx ns k lsn ts = Inl (InvalidOperation ''transaction not active'') \<and>
       (\<exists>msg. tx_take_pending tx = Inl (InvalidOperation msg)) \<and>
       (\<forall>tx'. tx_step X tx tx' \<longrightarrow> t_state tx' \<noteq> Active))"
proof -
  have "tx_inv txid tx" using assms by (rule tx_reach_inv)
  then show ?thesis
    using tx_step_inactive [of X tx]
    by (auto simp: tx_inv_def tx_put_def tx_put_with_ttl_def tx_delete_def tx_take_pending_def
        split: TxState.splits)
qed

theorem transaction_closed_forever_witness:
  "t_state (tx_rollback_self (tx_new 7)) \<noteq> Active \<and>
   tx_delete sample_ext (tx_rollback_self (tx_new 7)) [1] [2] 0 0 =
     Inl (InvalidOperation ''transaction not active'')"
proof -
  have r: "tx_reach sample_ext 7 (tx_rollback_self (tx_new 7))"
    by (rule tx_reach.step [OF tx_reach.start tx_step.rollback])
  have "t_state (tx_rollback_self (tx_new 7)) \<noteq> Active" by (simp add: tx_rollback_self_def)
  with transaction_closed_forever [OF r, where ns = "[1]" and k = "[2]" and lsn = 0 and ts = 0]
  show ?thesis by blast
qed

end
