(* ===== verification/SegmentStore.thy ===== *)
theory SegmentStore
  imports SegmentScan Manifest Memtable
begin

text \<open>
  \<open>SegmentStore\<close> of \<open>edgestore/src/segment.rs\<close>: the manifest, the open readers and the counter for
  segment ids, the three phases of a flush, replacement and removal of segments, and lookups
  over all segments. Operations return the store and the directory also when they fail.
\<close>

section \<open>State\<close>

record SegmentStore =
  ss_manifest :: Manifest
  ss_readers :: "SegmentReader list"
  ss_next_segment_id :: SegmentId
  ss_cohort_window_secs :: u64

definition manifest_path :: string where "manifest_path = ''manifest.mf''"

fun open_readers :: "ext \<Rightarrow> dir \<Rightarrow> SegmentMeta list \<Rightarrow> SegmentId \<Rightarrow> (SegmentReader list \<times> SegmentId) res" where
  "open_readers X d [] next_id = Inr ([], next_id)"
| "open_readers X d (meta # metas) next_id =
     and_then (SegmentReader_open X (m_segment_id meta) d) (\<lambda>reader.
     and_then (open_readers X d metas
                (if m_segment_id meta \<ge> next_id then m_segment_id meta + 1 else next_id))
       (\<lambda>(readers, next_id'). Inr (reader # readers, next_id')))"

definition SegmentStore_open :: "ext \<Rightarrow> u64 \<Rightarrow> dir \<Rightarrow> (SegmentStore \<times> dir) res" where
  "SegmentStore_open X window d =
     and_then (Manifest_open X manifest_path d) (\<lambda>(manifest, d1).
     and_then (open_readers X d1 (list_segments manifest) 0) (\<lambda>(readers, next_id).
       Inr (\<lparr> ss_manifest = manifest, ss_readers = readers, ss_next_segment_id = next_id,
              ss_cohort_window_secs = window \<rparr>, d1)))"

section \<open>Flushing\<close>

record FlushWork =
  fw_entries :: "kv list"
  fw_segment_id :: SegmentId
  fw_cohort_window_secs :: u64
  fw_flushed_max_lsn :: u64

definition prepare_flush :: "BTreeMemTable \<Rightarrow> SegmentStore \<Rightarrow> SegmentStore \<times> FlushWork option" where
  "prepare_flush mt s =
     (let entries = btree_iter mt
      in if entries = [] then (s, None)
         else (s\<lparr>ss_next_segment_id := ss_next_segment_id s + 1\<rparr>,
               Some \<lparr> fw_entries = entries, fw_segment_id = ss_next_segment_id s,
                      fw_cohort_window_secs = ss_cohort_window_secs s,
                      fw_flushed_max_lsn = Max (set (map (e_lsn \<circ> snd) entries)) \<rparr>))"

definition FlushWork_execute :: "ext \<Rightarrow> i64 \<Rightarrow> FlushWork \<Rightarrow> dir \<Rightarrow> (SegmentMeta \<times> dir) res" where
  "FlushWork_execute X now w d =
     SegmentWriter_flush X (fw_segment_id w) (fw_cohort_window_secs w) now (fw_entries w) d"

definition finalize_segment ::
  "ext \<Rightarrow> SegmentMeta \<Rightarrow> SegmentStore \<Rightarrow> dir \<Rightarrow> (SegmentStore \<times> dir) \<times> unit res" where
  "finalize_segment X meta s d =
     (case add_segment X meta (ss_manifest s) d of
        ((m, d1), Inl e) \<Rightarrow> ((s\<lparr>ss_manifest := m\<rparr>, d1), Inl e)
      | ((m, d1), Inr _) \<Rightarrow>
          (case SegmentReader_open X (m_segment_id meta) d1 of
             Inl e \<Rightarrow> ((s\<lparr>ss_manifest := m\<rparr>, d1), Inl e)
           | Inr reader \<Rightarrow>
               ((s\<lparr>ss_manifest := m, ss_readers := ss_readers s @ [reader]\<rparr>, d1), Inr ())))"

section \<open>Accessors and imports\<close>

definition segment_ids :: "SegmentStore \<Rightarrow> SegmentId list" where
  "segment_ids s = map sr_segment_id (ss_readers s)"

definition clone_readers_for :: "SegmentId list \<Rightarrow> SegmentStore \<Rightarrow> SegmentReader list" where
  "clone_readers_for ids s = filter (\<lambda>r. sr_segment_id r \<in> set ids) (ss_readers s)"

definition list_segment_metas :: "SegmentStore \<Rightarrow> SegmentMeta list" where
  "list_segment_metas s = list_segments (ss_manifest s)"

definition alloc_segment_id :: "SegmentStore \<Rightarrow> SegmentStore \<times> SegmentId" where
  "alloc_segment_id s =
     (s\<lparr>ss_next_segment_id := ss_next_segment_id s + 1\<rparr>, ss_next_segment_id s)"

definition add_imported_segment ::
  "ext \<Rightarrow> SegmentMeta \<Rightarrow> SegmentReader \<Rightarrow> SegmentStore \<Rightarrow> dir \<Rightarrow> (SegmentStore \<times> dir) \<times> unit res" where
  "add_imported_segment X meta reader s d =
     (case add_segment X meta (ss_manifest s) d of
        ((m, d1), Inl e) \<Rightarrow> ((s\<lparr>ss_manifest := m\<rparr>, d1), Inl e)
      | ((m, d1), Inr _) \<Rightarrow>
          ((s\<lparr>ss_manifest := m, ss_readers := ss_readers s @ [reader]\<rparr>, d1), Inr ()))"

definition reader_for :: "SegmentId \<Rightarrow> SegmentStore \<Rightarrow> SegmentReader option" where
  "reader_for i s = find (\<lambda>r. sr_segment_id r = i) (ss_readers s)"

section \<open>Replacing and removing segments\<close>

definition delete_segment_files :: "SegmentId \<Rightarrow> dir \<Rightarrow> dir" where
  "delete_segment_files i d =
     fold (\<lambda>extension d. fs_remove (segment_file i extension) d) [''dat'', ''idx'', ''xf'', ''meta''] d"

definition replace_segment ::
  "ext \<Rightarrow> SegmentId \<Rightarrow> SegmentMeta \<Rightarrow> SegmentReader \<Rightarrow> SegmentStore \<Rightarrow> dir \<Rightarrow> (SegmentStore \<times> dir) \<times> unit res" where
  "replace_segment X old_id new_meta new_reader s d =
     (case remove_segments X [old_id] (ss_manifest s) d of
        ((m, d1), Inl e) \<Rightarrow> ((s\<lparr>ss_manifest := m\<rparr>, d1), Inl e)
      | ((m, d1), Inr _) \<Rightarrow>
          let s1 = s\<lparr>ss_manifest := m,
                     ss_readers := filter (\<lambda>r. sr_segment_id r \<noteq> old_id) (ss_readers s)\<rparr>
          in (case add_segment X new_meta m d1 of
                ((m2, d2), Inl e) \<Rightarrow> ((s1\<lparr>ss_manifest := m2\<rparr>, d2), Inl e)
              | ((m2, d2), Inr _) \<Rightarrow>
                  ((s1\<lparr>ss_manifest := m2, ss_readers := ss_readers s1 @ [new_reader]\<rparr>,
                    delete_segment_files old_id d2), Inr ())))"

definition remove_segment ::
  "ext \<Rightarrow> SegmentId \<Rightarrow> SegmentStore \<Rightarrow> dir \<Rightarrow> (SegmentStore \<times> dir) \<times> unit res" where
  "remove_segment X i s d =
     (case remove_segments X [i] (ss_manifest s) d of
        ((m, d1), Inl e) \<Rightarrow> ((s\<lparr>ss_manifest := m\<rparr>, d1), Inl e)
      | ((m, d1), Inr _) \<Rightarrow>
          ((s\<lparr>ss_manifest := m,
              ss_readers := filter (\<lambda>r. sr_segment_id r \<noteq> i) (ss_readers s)\<rparr>,
            delete_segment_files i d1), Inr ()))"

section \<open>Lookup\<close>

fun get_first :: "ext \<Rightarrow> dir \<Rightarrow> bytes \<Rightarrow> SegmentReader list \<Rightarrow> MemEntry option res" where
  "get_first X d key [] = Inr None"
| "get_first X d key (reader # readers) =
     and_then (SegmentReader_get X d reader key) (\<lambda>r.
       case r of Some entry \<Rightarrow> Inr (Some entry) | None \<Rightarrow> get_first X d key readers)"

definition SegmentStore_get :: "ext \<Rightarrow> dir \<Rightarrow> SegmentStore \<Rightarrow> bytes \<Rightarrow> MemEntry option res" where
  "SegmentStore_get X d s key = get_first X d key (rev (ss_readers s))"

section \<open>Lookup finds the last segment that has the key\<close>

lemma get_first_spec:
  assumes "zstd_ok X" "list_all2 (segment_inv X d) readers ess"
  shows "get_first X d k readers = Inr (map_of (concat ess) k)"
  using assms(2)
  by (induction readers ess rule: list_all2_induct)
     (auto simp: segment_get [OF assms(1)] map_add_def split: option.split)

lemma store_get:
  assumes "zstd_ok X" "store_inv X d (ss_readers s) ess"
  shows "SegmentStore_get X d s k = Inr (map_of (concat (rev ess)) k)"
  unfolding SegmentStore_get_def using assms(2)
  by (intro get_first_spec [OF assms(1)]) (simp add: store_inv_def)

text \<open>Later segments hold later versions, or the same one again.\<close>

definition lsn_ordered :: "kv list list \<Rightarrow> bool" where
  "lsn_ordered ess \<longleftrightarrow> sorted_wrt (\<lambda>es es'. \<forall>x \<in> set es. \<forall>y \<in> set es'.
      fst x = fst y \<longrightarrow> e_lsn (snd x) < e_lsn (snd y) \<or> snd x = snd y) ess"

lemma newest_last_segment:
  assumes "\<forall>es \<in> set ess. ksorted es" "lsn_ordered ess"
  shows "map_of (concat (rev ess)) k = Some e \<longleftrightarrow> newest (\<Union> (set ` set ess)) k e"
  using assms
proof (induction ess rule: rev_induct)
  case Nil
  then show ?case by (simp add: newest_def)
next
  case (snoc es ess)
  have srt: "ksorted es" and IH: "map_of (concat (rev ess)) k = Some e \<longleftrightarrow> newest (\<Union> (set ` set ess)) k e"
    and less: "\<And>e1 e2. (k, e1) \<in> \<Union> (set ` set ess) \<Longrightarrow> (k, e2) \<in> set es \<Longrightarrow> e_lsn e1 < e_lsn e2 \<or> e1 = e2"
    using snoc by (simp_all add: lsn_ordered_def sorted_wrt_append) fastforce
  show ?case
  proof (cases "map_of es k")
    case None
    then have "(k, x) \<notin> set es" for x by (force simp: map_of_eq_None_iff)
    then have "newest (\<Union> (set ` set (ess @ [es]))) k e \<longleftrightarrow> newest (\<Union> (set ` set ess)) k e"
      by (auto simp: newest_def)
    with None IH show ?thesis by (simp add: map_add_def)
  next
    case (Some x)
    then have x: "(k, y) \<in> set es \<longleftrightarrow> y = x" for y using ksorted_map_of_iff [OF srt, of k y] by auto
    have "newest (\<Union> (set ` set (ess @ [es]))) k e \<longleftrightarrow> e = x"
    proof
      assume n: "newest (\<Union> (set ` set (ess @ [es]))) k e"
      show "e = x"
      proof (rule ccontr)
        assume "e \<noteq> x"
        with n x have "(k, e) \<in> \<Union> (set ` set ess)" by (auto simp: newest_def)
        with less x \<open>e \<noteq> x\<close> have "e_lsn e < e_lsn x" by blast
        moreover have "e_lsn x \<le> e_lsn e" using n x by (simp add: newest_def)
        ultimately show False by simp
      qed
    next
      assume "e = x"
      then show "newest (\<Union> (set ` set (ess @ [es]))) k e"
        using less x by (force simp: newest_def intro: less_imp_le)
    qed
    with Some show ?thesis by (auto simp: map_add_def)
  qed
qed

text \<open>
  Point lookups and scans agree. When segments were added in the order of their LSNs, a lookup
  returns exactly the version with the highest LSN over all segments, which is the version a
  scan returns for that key (a deletion is returned as such and left out of scans).
\<close>

theorem store_get_is_newest:
  assumes "zstd_ok X" "store_inv X d (ss_readers s) ess" "lsn_ordered ess"
  shows "\<exists>r. SegmentStore_get X d s k = Inr r \<and> (\<forall>e. r = Some e \<longleftrightarrow> newest (\<Union> (set ` set ess)) k e)"
proof -
  have "\<forall>es \<in> set ess. ksorted es"
    using assms(2) segment_inv_sorted unfolding store_inv_def
    by (metis in_set_conv_nth list_all2_conv_all_nth)
  with newest_last_segment assms(3) store_get [OF assms(1,2)] show ?thesis by simp
qed

text \<open>An existing store with two segments, the second one newer.\<close>

lemma sample_lsn_ordered: "lsn_ordered [sample_run, sample_run2]"
  by (simp add: lsn_ordered_def sample_run_def sample_run2_def sample_entry_def sample_tombstone_def)

theorem store_get_is_newest_witness:
  "\<exists>d s r. store_inv sample_ext d (ss_readers s) [sample_run, sample_run2] \<and>
     SegmentStore_get sample_ext d s [2] = Inr r \<and>
     (\<forall>e. r = Some e \<longleftrightarrow> newest (\<Union> (set ` set [sample_run, sample_run2])) [2] e)"
proof -
  obtain d readers where "store_inv sample_ext d readers [sample_run, sample_run2]"
    using sample_store by blast
  then have s: "store_inv sample_ext d (ss_readers \<lparr> ss_manifest = \<lparr> mf_path = [], mf_segments = [] \<rparr>,
      ss_readers = readers, ss_next_segment_id = 0, ss_cohort_window_secs = 0 \<rparr>) [sample_run, sample_run2]"
    by simp
  from store_get_is_newest [OF sample_laws(2) s sample_lsn_ordered, of "[2]"] s show ?thesis by blast
qed

section \<open>The store on disk\<close>

text \<open>
  The invariant of an open store: the manifest file matches the manifest, its segments are those
  of the readers, each reader is what opening its files gives and stands for a list of \<open>ess\<close>,
  ids are distinct and below the counter.
\<close>

definition store_ok :: "ext \<Rightarrow> dir \<Rightarrow> SegmentStore \<Rightarrow> kv list list \<Rightarrow> bool" where
  "store_ok X d s ess \<longleftrightarrow>
     manifest_inv X (ss_manifest s) d \<and> mf_path (ss_manifest s) = manifest_path \<and>
     store_inv X d (ss_readers s) ess \<and>
     (\<forall>r \<in> set (ss_readers s). SegmentReader_open X (sr_segment_id r) d = Inr r) \<and>
     map sr_segment_id (ss_readers s) = map m_segment_id (mf_segments (ss_manifest s)) \<and>
     distinct (map sr_segment_id (ss_readers s)) \<and>
     (\<forall>r \<in> set (ss_readers s). sr_segment_id r < ss_next_segment_id s)"

lemma manifest_path_not_segment [simp]: "manifest_path \<noteq> segment_file i x"
  by (simp add: manifest_path_def segment_file_def)

lemma segment_not_manifest [simp]: "segment_file i x \<noteq> manifest_path"
  using manifest_path_not_segment by metis

lemma reader_open_frame:
  "\<forall>x. fs_read d' (segment_file i x) = fs_read d (segment_file i x) \<Longrightarrow>
   SegmentReader_open X i d' = SegmentReader_open X i d"
proof -
  assume f: "\<forall>x. fs_read d' (segment_file i x) = fs_read d (segment_file i x)"
  then have "read_xf_file (xf_path i) d' = read_xf_file (xf_path i) d"
    "read_idx_file (idx_path i) d' = read_idx_file (idx_path i) d"
    by (simp_all add: read_xf_file_def read_idx_file_def)
  with f show ?thesis unfolding SegmentReader_open_def by (simp split: option.split)
qed

lemma manifest_inv_frame:
  "manifest_inv X m d \<Longrightarrow> fs_read d' (mf_path m) = fs_read d (mf_path m) \<Longrightarrow> manifest_inv X m d'"
  by (simp add: manifest_inv_def)

text \<open>A step that leaves the manifest and the files of the open segments alone keeps the invariant.\<close>

lemma store_ok_frame:
  assumes "store_ok X d s ess" "fs_read d' manifest_path = fs_read d manifest_path"
    and "\<forall>r \<in> set (ss_readers s). \<forall>x. fs_read d' (segment_file (sr_segment_id r) x) =
           fs_read d (segment_file (sr_segment_id r) x)"
  shows "store_ok X d' s ess"
proof -
  note ok = assms(1) [unfolded store_ok_def]
  have "manifest_inv X (ss_manifest s) d'"
    using ok assms(2) manifest_inv_frame [of X "ss_manifest s" d d'] by metis
  moreover have "store_inv X d' (ss_readers s) ess"
    unfolding store_inv_def
  proof (rule list.rel_mono_strong)
    show "list_all2 (segment_inv X d) (ss_readers s) ess" using ok by (simp only: store_inv_def)
    show "segment_inv X d' r es" if "r \<in> set (ss_readers s)" "segment_inv X d r es" for r es
      using that(2) assms(3) that(1) by (blast intro: segment_inv_frame)
  qed
  moreover have "SegmentReader_open X (sr_segment_id r) d' = Inr r" if "r \<in> set (ss_readers s)" for r
    using ok assms(3) that reader_open_frame [of d' "sr_segment_id r" d X] by simp
  ultimately show ?thesis using ok unfolding store_ok_def by blast
qed

text \<open>Registering a segment whose files have been written.\<close>

lemma add_segment_frame:
  assumes "add_segment X meta m d = ((m', d'), Inr ())" "p \<noteq> mf_path m"
  shows "fs_read d' p = fs_read d p"
  using assms by (auto simp: add_segment_def write_framed_entry_def Let_def split: sum.splits if_splits)

lemma add_segment_ok:
  assumes "entry_ok X (addition meta)"
  shows "\<exists>m' d'. add_segment X meta m d = ((m', d'), Inr ())"
  using assms by (simp add: add_segment_def write_framed_entry_def Let_def entry_ok_def addition_def)

lemma finalize_ok:
  assumes "store_ok X d s ess" "entry_ok X (addition meta)" "m_segment_id meta = i"
    and "SegmentReader_open X i d = Inr r" "segment_inv X d r es" "sr_segment_id r = i"
    and "i < ss_next_segment_id s" "i \<notin> set (segment_ids s)"
  shows "\<exists>s' d'. finalize_segment X meta s d = ((s', d'), Inr ()) \<and> store_ok X d' s' (ess @ [es]) \<and>
     ss_next_segment_id s' = ss_next_segment_id s \<and> ss_cohort_window_secs s' = ss_cohort_window_secs s \<and>
     ss_readers s' = ss_readers s @ [r] \<and> (\<forall>p. p \<noteq> manifest_path \<longrightarrow> fs_read d' p = fs_read d p)"
proof -
  note ok = assms(1) [unfolded store_ok_def]
  have path: "mf_path (ss_manifest s) = manifest_path" and minv: "manifest_inv X (ss_manifest s) d"
    and dist: "distinct (map sr_segment_id (ss_readers s))"
    using ok by blast+
  obtain m' d' where a: "add_segment X meta (ss_manifest s) d = ((m', d'), Inr ())"
    using add_segment_ok [OF assms(2)] by blast
  have frame: "fs_read d' p = fs_read d p" if "p \<noteq> manifest_path" for p
    using add_segment_frame [OF a] path that by simp
  have open': "SegmentReader_open X j d' = SegmentReader_open X j d" for j
    by (rule reader_open_frame) (simp add: frame)
  let ?s' = "s\<lparr>ss_manifest := m', ss_readers := ss_readers s @ [r]\<rparr>"
  have fin: "finalize_segment X meta s d = ((?s', d'), Inr ())"
    using a assms(3,4) open' by (simp add: finalize_segment_def)
  have m': "manifest_inv X m' d'" "mf_path m' = manifest_path" "mf_segments m' = mf_segments (ss_manifest s) @ [meta]"
    using manifest_inv_add [OF minv a] path by auto
  have "list_all2 (segment_inv X d') (ss_readers s) ess"
    using ok unfolding store_inv_def by (auto elim!: list_all2_mono intro: segment_inv_frame simp: frame)
  moreover have "segment_inv X d' r es" using assms(5) by (rule segment_inv_frame) (simp add: frame)
  ultimately have "store_inv X d' (ss_readers ?s') (ess @ [es])"
    by (simp add: store_inv_def list_all2_appendI)
  moreover have "\<forall>q \<in> set (ss_readers ?s'). SegmentReader_open X (sr_segment_id q) d' = Inr q"
    using ok assms(4,6) open' by auto
  moreover have "map sr_segment_id (ss_readers ?s') = map m_segment_id (mf_segments (ss_manifest ?s'))"
    using ok assms(3,6) m'(3) by simp
  moreover have "distinct (map sr_segment_id (ss_readers ?s'))"
    using dist assms(6,8) by (simp add: segment_ids_def)
  moreover have "\<forall>q \<in> set (ss_readers ?s'). sr_segment_id q < ss_next_segment_id ?s'"
    using ok assms(6,7) by auto
  ultimately have "store_ok X d' ?s' (ess @ [es])" using m'(1,2) by (simp add: store_ok_def)
  then show ?thesis using fin frame by auto
qed

lemma next_id_fresh:
  assumes "store_ok X d s ess"
  shows "ss_next_segment_id s \<notin> set (segment_ids s)"
proof -
  have "\<forall>r \<in> set (ss_readers s). sr_segment_id r < ss_next_segment_id s"
    using assms unfolding store_ok_def by blast
  then show ?thesis by (auto simp: segment_ids_def)
qed

lemma word_less_Suc_self: "w + 1 \<noteq> 0 \<Longrightarrow> w < w + (1 :: u64)"
proof -
  assume "w + 1 \<noteq> 0"
  then have "unat (w + 1) = Suc (unat w)" using unatSuc [of w] by (simp add: add.commute)
  then show ?thesis by (simp add: word_less_nat_alt)
qed

lemma flush_ok:
  assumes "zstd_ok X" "json_ok X" "xor8_ok X" "store_ok X d s ess"
    and "flushable X (ss_cohort_window_secs s) mt" "ss_next_segment_id s + 1 \<noteq> 0"
  shows "\<exists>s1 work meta d1. prepare_flush mt s = (s1, Some work) \<and>
     FlushWork_execute X now work d = Inr (meta, d1) \<and> fw_entries work = mt \<and>
     store_ok X d1 s1 ess \<and> m_segment_id meta = ss_next_segment_id s \<and>
     (\<forall>p. (\<forall>x. p \<noteq> segment_file (ss_next_segment_id s) x) \<longrightarrow> fs_read d1 p = fs_read d p) \<and>
     (entry_ok X (addition meta) \<longrightarrow>
       (\<exists>s' d2. finalize_segment X meta s1 d1 = ((s', d2), Inr ()) \<and> store_ok X d2 s' (ess @ [mt]) \<and>
          ss_next_segment_id s' = ss_next_segment_id s + 1 \<and>
          ss_cohort_window_secs s' = ss_cohort_window_secs s \<and>
          (\<forall>p. p \<noteq> manifest_path \<longrightarrow> fs_read d2 p = fs_read d1 p)))"
proof -
  let ?i = "ss_next_segment_id s"
  let ?s1 = "s\<lparr>ss_next_segment_id := ?i + 1\<rparr>"
  obtain work where prep: "prepare_flush mt s = (?s1, Some work)" "fw_entries work = mt"
    "fw_segment_id work = ?i" "fw_cohort_window_secs work = ss_cohort_window_secs s"
    using assms(5) by (simp add: prepare_flush_def btree_iter_def flushable_def Let_def)
  obtain meta d1 r where fl: "SegmentWriter_flush X ?i (ss_cohort_window_secs s) now mt d = Inr (meta, d1)"
    "SegmentReader_open X ?i d1 = Inr r" "segment_inv X d1 r mt" "sr_segment_id r = ?i" "m_segment_id meta = ?i"
    "\<forall>p. (\<forall>x. p \<noteq> segment_file ?i x) \<longrightarrow> fs_read d1 p = fs_read d p"
    using flush_segment [OF assms(1-3,5)] by blast
  have ids: "?i \<notin> set (segment_ids s)" by (rule next_id_fresh [OF assms(4)])
  have lt: "?i < ?i + 1" using assms(6) by (rule word_less_Suc_self)
  have "store_ok X d1 s ess"
  proof (rule store_ok_frame [OF assms(4)], use fl(6) in simp, intro ballI allI)
    fix q x assume "q \<in> set (ss_readers s)"
    then have "sr_segment_id q \<noteq> ?i" using ids by (metis image_eqI list.set_map segment_ids_def)
    then show "fs_read d1 (segment_file (sr_segment_id q) x) = fs_read d (segment_file (sr_segment_id q) x)"
      using fl(6) by simp
  qed
  then have ok1: "store_ok X d1 ?s1 ess"
    unfolding store_ok_def using lt by (auto intro: less_trans)
  have ex: "FlushWork_execute X now work d = Inr (meta, d1)"
    using fl(1) prep(2-4) by (simp add: FlushWork_execute_def)
  have "\<exists>s' d2. finalize_segment X meta ?s1 d1 = ((s', d2), Inr ()) \<and> store_ok X d2 s' (ess @ [mt]) \<and>
      ss_next_segment_id s' = ?i + 1 \<and> ss_cohort_window_secs s' = ss_cohort_window_secs s \<and>
      (\<forall>p. p \<noteq> manifest_path \<longrightarrow> fs_read d2 p = fs_read d1 p)" if "entry_ok X (addition meta)"
    using finalize_ok [OF ok1 that fl(5,2,3,4)] lt ids by (auto simp: segment_ids_def)
  with prep ex ok1 fl(5,6) show ?thesis by blast
qed

lemma open_readers_ok:
  assumes "\<forall>r \<in> set readers. SegmentReader_open X (sr_segment_id r) d = Inr r"
    and "map sr_segment_id readers = map m_segment_id metas"
    and "\<forall>r \<in> set readers. sr_segment_id r < bound" "n \<le> bound"
  shows "\<exists>n'. open_readers X d metas n = Inr (readers, n') \<and> n \<le> n' \<and> n' \<le> bound \<and>
     (\<forall>r \<in> set readers. sr_segment_id r < n')"
  using assms
proof (induction metas arbitrary: readers n)
  case (Cons meta metas)
  then obtain r rs where rs: "readers = r # rs" "sr_segment_id r = m_segment_id meta" by (cases readers) auto
  let ?n = "if m_segment_id meta \<ge> n then m_segment_id meta + 1 else n"
  have lt: "m_segment_id meta < bound" using Cons.prems(3) rs by simp
  then have "m_segment_id meta + 1 \<noteq> 0" by (metis add_eq_0_iff2 word_not_simps(3))
  then have "m_segment_id meta < m_segment_id meta + 1" "m_segment_id meta + 1 \<le> bound"
    using word_less_Suc_self [of "m_segment_id meta"] lt by (auto simp: inc_le)
  then have n: "?n \<le> bound" "n \<le> ?n" "m_segment_id meta < ?n" using Cons.prems(4) by auto
  obtain n' where "open_readers X d metas ?n = Inr (rs, n')" "?n \<le> n'" "n' \<le> bound"
    "\<forall>q \<in> set rs. sr_segment_id q < n'"
    using Cons.IH [of rs ?n] Cons.prems(1-3) rs n(1) by auto
  with rs n Cons.prems(1) show ?case by (auto intro: order_trans less_le_trans)
qed simp

lemma store_reopen:
  assumes "json_ok X" "store_ok X d s ess"
  shows "\<exists>s'. SegmentStore_open X window d = Inr (s', d) \<and> ss_readers s' = ss_readers s \<and>
     mf_segments (ss_manifest s') = mf_segments (ss_manifest s) \<and>
     ss_next_segment_id s' \<le> ss_next_segment_id s \<and> ss_cohort_window_secs s' = window \<and> store_ok X d s' ess"
proof -
  note ok = assms(2) [unfolded store_ok_def]
  let ?m = "\<lparr> mf_path = manifest_path, mf_segments = mf_segments (ss_manifest s) \<rparr>"
  have mo: "Manifest_open X manifest_path d = Inr (?m, d)"
    using manifest_inv_reopen [OF assms(1), of "ss_manifest s" d] ok by auto
  have "\<forall>r \<in> set (ss_readers s). SegmentReader_open X (sr_segment_id r) d = Inr r"
    "map sr_segment_id (ss_readers s) = map m_segment_id (mf_segments (ss_manifest s))"
    "\<forall>r \<in> set (ss_readers s). sr_segment_id r < ss_next_segment_id s"
    using ok by blast+
  from open_readers_ok [OF this, of 0] obtain n where n:
    "open_readers X d (mf_segments (ss_manifest s)) 0 = Inr (ss_readers s, n)" "n \<le> ss_next_segment_id s"
    "\<forall>r \<in> set (ss_readers s). sr_segment_id r < n" by auto
  let ?s' = "\<lparr> ss_manifest = ?m, ss_readers = ss_readers s, ss_next_segment_id = n,
     ss_cohort_window_secs = window \<rparr>"
  have "SegmentStore_open X window d = Inr (?s', d)"
    using mo n(1) by (simp add: SegmentStore_open_def list_segments_def)
  moreover have "manifest_inv X ?m d" using ok by (auto simp: manifest_inv_def)
  then have "store_ok X d ?s' ess" using ok n(3) unfolding store_ok_def by auto
  ultimately show ?thesis using n(2) by auto
qed

text \<open>
  A flush is durable. Flushing a sorted memtable through the three phases writes a segment and,
  when its metadata fits a manifest entry, registers it; after the store is opened again from
  the files, every key of the memtable has the flushed entry and every other key has what it
  had before.
\<close>

theorem flush_survives_reopen:
  assumes "zstd_ok X" "json_ok X" "xor8_ok X" "store_ok X d s ess"
    and "flushable X (ss_cohort_window_secs s) mt" "ss_next_segment_id s + 1 \<noteq> 0"
  shows "\<exists>s1 work meta d1. prepare_flush mt s = (s1, Some work) \<and>
     FlushWork_execute X now work d = Inr (meta, d1) \<and>
     (entry_ok X (addition meta) \<longrightarrow>
       (\<exists>s2 d2 s3. finalize_segment X meta s1 d1 = ((s2, d2), Inr ()) \<and>
          SegmentStore_open X window d2 = Inr (s3, d2) \<and> ss_readers s3 = ss_readers s2 \<and>
          (\<forall>k. SegmentStore_get X d2 s3 k =
            (case map_of mt k of Some e \<Rightarrow> Inr (Some e) | None \<Rightarrow> SegmentStore_get X d s k))))"
proof -
  obtain s1 work meta d1 where 1: "prepare_flush mt s = (s1, Some work)"
    "FlushWork_execute X now work d = Inr (meta, d1)"
    "entry_ok X (addition meta) \<longrightarrow>
       (\<exists>s2 d2. finalize_segment X meta s1 d1 = ((s2, d2), Inr ()) \<and> store_ok X d2 s2 (ess @ [mt]))"
    using flush_ok [OF assms, of now] by blast
  have "\<exists>s2 d2 s3. finalize_segment X meta s1 d1 = ((s2, d2), Inr ()) \<and>
      SegmentStore_open X window d2 = Inr (s3, d2) \<and> ss_readers s3 = ss_readers s2 \<and>
      (\<forall>k. SegmentStore_get X d2 s3 k =
        (case map_of mt k of Some e \<Rightarrow> Inr (Some e) | None \<Rightarrow> SegmentStore_get X d s k))"
    if "entry_ok X (addition meta)"
  proof -
    from 1(3) that obtain s2 d2 where 2: "finalize_segment X meta s1 d1 = ((s2, d2), Inr ())"
      "store_ok X d2 s2 (ess @ [mt])" by blast
    obtain s3 where 3: "SegmentStore_open X window d2 = Inr (s3, d2)" "ss_readers s3 = ss_readers s2"
      "store_ok X d2 s3 (ess @ [mt])" using store_reopen [OF assms(2) 2(2)] by blast
    have "SegmentStore_get X d2 s3 k = Inr (map_of (concat (rev (ess @ [mt]))) k)"
      "SegmentStore_get X d s k = Inr (map_of (concat (rev ess)) k)" for k
      using store_get [OF assms(1)] 3(3) assms(4) unfolding store_ok_def by blast+
    then show ?thesis using 2(1) 3(1,2) by (auto simp: map_add_def split: option.split)
  qed
  with 1(1,2) show ?thesis by blast
qed

text \<open>A new store, as opening an empty directory creates it.\<close>

definition new_store :: SegmentStore where
  "new_store = \<lparr> ss_manifest = \<lparr> mf_path = manifest_path, mf_segments = [] \<rparr>, ss_readers = [],
     ss_next_segment_id = 0, ss_cohort_window_secs = 3600 \<rparr>"

definition new_dir :: dir where "new_dir = [(manifest_path, manifest_header)]"

lemma new_store_open: "SegmentStore_open X 3600 [] = Inr (new_store, new_dir)"
  by (simp add: SegmentStore_open_def Manifest_open_def fs_read_def new_store_def new_dir_def
        list_segments_def fs_write_def fs_remove_def)

lemma new_store_ok: "store_ok X new_dir new_store []"
proof -
  have "manifest_inv X \<lparr> mf_path = manifest_path, mf_segments = [] \<rparr> new_dir"
    unfolding manifest_inv_def
    by (intro exI [of _ "[]"]) (simp add: new_dir_def fs_read_def manifest_log_def)
  then show ?thesis by (simp add: store_ok_def new_store_def store_inv_def)
qed

theorem flush_survives_reopen_witness:
  "\<exists>s1 work meta d1. prepare_flush sample_run new_store = (s1, Some work) \<and>
     FlushWork_execute sample_ext 0 work new_dir = Inr (meta, d1) \<and>
     (entry_ok sample_ext (addition meta) \<longrightarrow>
       (\<exists>s2 d2 s3. finalize_segment sample_ext meta s1 d1 = ((s2, d2), Inr ()) \<and>
          SegmentStore_open sample_ext 3600 d2 = Inr (s3, d2) \<and> ss_readers s3 = ss_readers s2 \<and>
          (\<forall>k. SegmentStore_get sample_ext d2 s3 k =
            (case map_of sample_run k of Some e \<Rightarrow> Inr (Some e)
             | None \<Rightarrow> SegmentStore_get sample_ext new_dir new_store k))))"
  by (rule flush_survives_reopen [OF sample_laws(2,5,4) new_store_ok])
     (simp_all add: new_store_def sample_flushable)

end
