(* ===== verification/ReaderMerge.thy ===== *)
theory ReaderMerge
  imports SegmentScan
begin

text \<open>
  Reads over a list of segment readers as \<open>Snapshot\<close> and \<open>ImmutableEngine\<close> do them: a lookup asks
  every reader and keeps the entry with the highest LSN, a scan merges the runs of all readers
  and decodes what is live. Both types contain this code, once over readers of files and once
  over readers of bytes in memory; here the lookup and the scan of one reader are arguments.
  What they have to promise is the locale \<open>segment_readers\<close>.
\<close>

section \<open>The code the two types share\<close>

fun best_entry ::
  "('r \<Rightarrow> bytes \<Rightarrow> MemEntry option res) \<Rightarrow> bytes \<Rightarrow> 'r list \<Rightarrow> MemEntry option \<Rightarrow> MemEntry option res" where
  "best_entry get key [] best = Inr best"
| "best_entry get key (reader # readers) best =
     and_then (get reader key) (\<lambda>r.
       best_entry get key readers
         (case r of
            None \<Rightarrow> best
          | Some entry \<Rightarrow>
              (case best of
                 None \<Rightarrow> Some entry
               | Some b \<Rightarrow> if e_lsn entry > e_lsn b then Some entry else Some b)))"

definition put_value :: "MemEntry option \<Rightarrow> bytes option" where
  "put_value best = (case best of Some e \<Rightarrow> if e_op e = Put then e_value e else None | None \<Rightarrow> None)"

fun scan_all ::
  "('r \<Rightarrow> bytes \<Rightarrow> bytes \<Rightarrow> kv list res) \<Rightarrow> bytes \<Rightarrow> bytes \<Rightarrow> 'r list \<Rightarrow> kv list list res" where
  "scan_all scan start end [] = Inr []"
| "scan_all scan start end (reader # readers) =
     and_then (scan reader start end) (\<lambda>seg.
     and_then (scan_all scan start end readers) (\<lambda>segs. Inr (sort_key fst seg # segs)))"

text \<open>
  The pairs that are emitted: the key without its namespace and the value. The loop decodes
  the key when it emits an entry; a key that does not decode makes the whole scan fail.
\<close>

fun decode_items :: "kv list \<Rightarrow> (bytes \<times> bytes) list res" where
  "decode_items [] = Inr []"
| "decode_items ((k, e) # items) =
     and_then (decode_key k) (\<lambda>(_, user_key).
     and_then (decode_items items) (\<lambda>rest.
       Inr (case e_value e of Some v \<Rightarrow> (user_key, v) # rest | None \<Rightarrow> rest)))"

definition merge_readers ::
  "('r \<Rightarrow> bytes \<Rightarrow> bytes \<Rightarrow> kv list res) \<Rightarrow> bytes \<Rightarrow> bytes \<Rightarrow> 'r list \<Rightarrow> (bytes \<times> bytes) list res" where
  "merge_readers scan enc_start enc_end readers =
     and_then (scan_all scan enc_start enc_end readers) (\<lambda>per_reader.
     and_then (seed_heap 0 (length per_reader) (map (\<lambda>seg. (seg, None)) per_reader) []) (\<lambda>(heap, runs).
     and_then (merge_loop fwd_before None heap runs [] None) (\<lambda>(items, _). decode_items items)))"

text \<open>Reads depend only on what the readers of the list answer.\<close>

lemma best_entry_cong:
  "\<forall>r \<in> set readers. get' r k = get r k \<Longrightarrow> best_entry get' k readers b = best_entry get k readers b"
proof (induction readers arbitrary: b)
  case (Cons r readers)
  then show ?case by (cases "get r k") simp_all
qed simp

lemma merge_readers_cong:
  assumes "\<forall>r \<in> set readers. scan' r lo hi = scan r lo hi"
  shows "merge_readers scan' lo hi readers = merge_readers scan lo hi readers"
proof -
  have "scan_all scan' lo hi readers = scan_all scan lo hi readers"
    using assms
  proof (induction readers)
    case (Cons r readers)
    then show ?case by (cases "scan r lo hi") simp_all
  qed simp
  then show ?thesis by (simp add: merge_readers_def)
qed

section \<open>Scans in terms of user keys\<close>

lemma newest_entries_between:
  "newest (entries_between lo hi ess) k e \<longleftrightarrow> newest (\<Union> (set ` set ess)) k e \<and> lo \<le> k \<and> k < hi"
  by (auto simp: newest_def entries_between_def)

text \<open>The pairs a scan of namespace \<open>ns\<close> emits for entries of that namespace.\<close>

definition user_pairs :: "kv list \<Rightarrow> (bytes \<times> bytes) list" where
  "user_pairs U = concat (map (\<lambda>(uk, e). case e_value e of Some v \<Rightarrow> [(uk, v)] | None \<Rightarrow> []) U)"

lemma user_pairs_mem: "(uk, v) \<in> set (user_pairs U) \<longleftrightarrow> (\<exists>e. (uk, e) \<in> set U \<and> e_value e = Some v)"
  by (force simp: user_pairs_def split: option.splits)

lemma user_pairs_sorted: "ksorted U \<Longrightarrow> ksorted (user_pairs U)"
proof (induction U)
  case (Cons x U)
  obtain uk e where x: "x = (uk, e)" by (cases x)
  have "uk < fst p" if "p \<in> set (user_pairs U)" for p
  proof -
    obtain k' v where p: "p = (k', v)" by (cases p)
    with that obtain e' where "(k', e') \<in> set U" by (auto simp: user_pairs_mem)
    with Cons.prems x p show ?thesis by force
  qed
  with Cons x show ?case by (auto simp: user_pairs_def split: option.split)
qed (simp add: user_pairs_def)

lemma decode_items_enc:
  assumes "ns_ok ns"
  shows "decode_items (map (\<lambda>(uk, e). (enc ns uk, e)) U) = Inr (user_pairs U)"
  by (induction U) (auto simp: user_pairs_def decode_enc [OF assms] split: option.split)

lemma enc_preimage:
  assumes "\<forall>x \<in> set R. enc ns lo \<le> fst x \<and> fst x < enc ns hi" "ksorted R"
  shows "\<exists>U. R = map (\<lambda>(uk, e). (enc ns uk, e)) U \<and> ksorted U \<and> (\<forall>x \<in> set U. lo \<le> fst x \<and> fst x < hi)"
  using assms
proof (induction R)
  case (Cons x R)
  obtain k e where x: "x = (k, e)" by (cases x)
  from Cons obtain U where U: "R = map (\<lambda>(uk, e). (enc ns uk, e)) U" "ksorted U"
    "\<forall>x \<in> set U. lo \<le> fst x \<and> fst x < hi" by auto
  from Cons.prems(1) x obtain uk where uk: "k = enc ns uk" "lo \<le> uk" "uk < hi"
    using between_enc [of ns lo k hi] by auto
  have "uk < fst y" if "y \<in> set U" for y
  proof -
    obtain yk ye where y: "y = (yk, ye)" by (cases y)
    have "(enc ns yk, ye) \<in> set R" unfolding U(1) using that y by force
    with Cons.prems(2) x have "k < enc ns yk" by force
    then show ?thesis using uk(1) y by simp
  qed
  with U uk show ?case by (intro exI [of _ "(uk, e) # U"]) (auto simp: x)
qed simp

text \<open>A sorted list of the newest live versions, decoded.\<close>

lemma decode_live_newest:
  assumes "ns_ok ns" "ksorted R" "set R = live_newest (entries_between (enc ns lo) (enc ns hi) ess)"
  shows "\<exists>L. decode_items R = Inr L \<and> ksorted L \<and>
     (\<forall>uk v. (uk, v) \<in> set L \<longleftrightarrow> lo \<le> uk \<and> uk < hi \<and>
        (\<exists>e. newest (\<Union> (set ` set ess)) (enc ns uk) e \<and> e_op e \<noteq> Delete \<and> e_value e = Some v))"
proof -
  have mem: "(k, e) \<in> set R \<longleftrightarrow> newest (\<Union> (set ` set ess)) k e \<and> enc ns lo \<le> k \<and> k < enc ns hi \<and> e_op e \<noteq> Delete"
    for k e using assms(3) by (auto simp: live_newest_def newest_entries_between)
  then have "\<forall>x \<in> set R. enc ns lo \<le> fst x \<and> fst x < enc ns hi" by (metis prod.collapse)
  from enc_preimage [OF this assms(2)] obtain U where U: "R = map (\<lambda>(uk, e). (enc ns uk, e)) U" "ksorted U"
    by blast
  have "(uk, e) \<in> set U \<longleftrightarrow> (enc ns uk, e) \<in> set R" for uk e
    using enc_inject [OF assms(1) assms(1)] by (force simp: U(1))
  with mem have "(uk, v) \<in> set (user_pairs U) \<longleftrightarrow> lo \<le> uk \<and> uk < hi \<and>
        (\<exists>e. newest (\<Union> (set ` set ess)) (enc ns uk) e \<and> e_op e \<noteq> Delete \<and> e_value e = Some v)" for uk v
    by (auto simp: user_pairs_mem)
  then show ?thesis using decode_items_enc [OF assms(1), of U] user_pairs_sorted [OF U(2)] U(1) by simp
qed

section \<open>What a reader promises\<close>

text \<open>\<open>holds r es\<close>: the segment behind reader \<open>r\<close> has the entries \<open>es\<close>.\<close>

locale segment_readers =
  fixes get :: "'r \<Rightarrow> bytes \<Rightarrow> MemEntry option res"
    and scan :: "'r \<Rightarrow> bytes \<Rightarrow> bytes \<Rightarrow> kv list res"
    and holds :: "'r \<Rightarrow> kv list \<Rightarrow> bool"
  assumes holds_sorted: "holds r es \<Longrightarrow> ksorted es"
    and get_holds: "holds r es \<Longrightarrow> get r k = Inr (map_of es k)"
    and scan_holds: "holds r es \<Longrightarrow> scan r lo hi = Inr (filter (in_range lo hi) es)"
begin

lemma best_entry_newest:
  assumes "list_all2 holds readers ess"
    and "lsn_det ((\<lambda>e. (k, e)) ` set_option best \<union> \<Union> (set ` set ess))"
  shows "\<exists>r. best_entry get k readers best = Inr r \<and>
     (\<forall>e. r = Some e \<longleftrightarrow> newest ((\<lambda>e. (k, e)) ` set_option best \<union> \<Union> (set ` set ess)) k e)"
  using assms
proof (induction readers ess arbitrary: best rule: list_all2_induct)
  case Nil
  then show ?case by (cases best) (auto simp: newest_def)
next
  case (Cons r readers es ess)
  let ?S = "\<Union> (set ` set ess)"
  let ?B = "\<lambda>b. (\<lambda>e. (k, e)) ` set_option b"
  let ?b = "case map_of es k of None \<Rightarrow> best
      | Some entry \<Rightarrow> (case best of None \<Rightarrow> Some entry
          | Some b \<Rightarrow> if e_lsn entry > e_lsn b then Some entry else Some b)"
  have mem: "(k, x) \<in> set es \<longleftrightarrow> map_of es k = Some x" for x
    using ksorted_map_of_iff [OF holds_sorted [OF Cons.hyps(1)]] by simp
  have step: "best_entry get k (r # readers) best = best_entry get k readers ?b"
    using get_holds [OF Cons.hyps(1)] by simp
  have sub: "?B ?b \<union> ?S \<subseteq> ?B best \<union> \<Union> (set ` set (es # ess))"
    using mem by (auto split: option.splits if_splits)
  have "newest (?B ?b \<union> ?S) k e \<longleftrightarrow> newest (?B best \<union> \<Union> (set ` set (es # ess))) k e" for e
  proof (cases "map_of es k")
    case None
    then have "(k, x) \<notin> set es" for x using mem by simp
    with None show ?thesis by (auto simp: newest_def)
  next
    case (Some x)
    then have x: "(k, y) \<in> set es \<longleftrightarrow> y = x" for y using mem by auto
    show ?thesis
    proof (cases best)
      case None
      with Some x show ?thesis by (auto simp: newest_def)
    next
      case b: (Some b)
      have "(k, x) \<in> ?B best \<union> \<Union> (set ` set (es # ess))" "(k, b) \<in> ?B best \<union> \<Union> (set ` set (es # ess))"
        using x b by auto
      with Cons.prems have det: "e_lsn x = e_lsn b \<longrightarrow> x = b" unfolding lsn_det_def by blast
      show ?thesis
      proof (cases "e_lsn x > e_lsn b")
        case True
        with Some x b show ?thesis by (auto simp: newest_def dest: less_imp_le leD)
      next
        case False
        with Some x b det show ?thesis by (auto simp: newest_def not_less intro: order_antisym)
      qed
    qed
  qed
  with Cons.IH [of ?b] lsn_det_subset [OF Cons.prems sub] step show ?case by simp
qed

lemma lookup_newest:
  assumes "list_all2 holds readers ess" "lsn_det (\<Union> (set ` set ess))"
  shows "\<exists>b. best_entry get k readers None = Inr b \<and>
     (\<forall>v. put_value b = Some v \<longleftrightarrow>
        (\<exists>e. newest (\<Union> (set ` set ess)) k e \<and> e_op e = Put \<and> e_value e = Some v))"
proof -
  from best_entry_newest [OF assms(1), of k None] assms(2)
  obtain b where b: "best_entry get k readers None = Inr b"
    "\<forall>e. newest (\<Union> (set ` set ess)) k e \<longleftrightarrow> b = Some e" by auto
  then show ?thesis by (cases b) (auto simp: put_value_def)
qed

lemma scan_all_holds:
  assumes "list_all2 holds readers ess"
  shows "scan_all scan lo hi readers = Inr (map (filter (in_range lo hi)) ess)"
  using assms
proof (induction readers ess rule: list_all2_induct)
  case (Cons r readers es ess)
  have "ksorted (filter (in_range lo hi) es)"
    using holds_sorted [OF Cons.hyps(1)] by (rule ksorted_filter)
  then have "sorted (map fst (filter (in_range lo hi) es))" by (rule strict_sorted_imp_sorted)
  then have "sort_key fst (filter (in_range lo hi) es) = filter (in_range lo hi) es" by (rule sort_key_id_if_sorted)
  with Cons scan_holds [OF Cons.hyps(1)] show ?case by simp
qed simp

lemma merge_readers_newest:
  assumes "list_all2 holds readers ess" "lsn_det (\<Union> (set ` set ess))" "ns_ok ns"
  shows "\<exists>L. merge_readers scan (enc ns lo) (enc ns hi) readers = Inr L \<and> ksorted L \<and>
     (\<forall>uk v. (uk, v) \<in> set L \<longleftrightarrow> lo \<le> uk \<and> uk < hi \<and>
        (\<exists>e. newest (\<Union> (set ` set ess)) (enc ns uk) e \<and> e_op e \<noteq> Delete \<and> e_value e = Some v))"
proof -
  let ?lo = "enc ns lo" and ?hi = "enc ns hi"
  let ?rs = "map (filter (in_range ?lo ?hi)) ess"
  have "\<forall>r \<in> set ?rs. ksorted r"
    using assms(1) holds_sorted ksorted_filter
    by (fastforce simp: list_all2_conv_all_nth in_set_conv_nth)
  moreover have "lsn_det (\<Union> (set ` set ?rs))"
    using assms(2) by (rule lsn_det_subset) auto
  ultimately obtain heap runs R R2 t where R:
    "seed_heap 0 (length ?rs) (map (\<lambda>r. (r, None)) ?rs) [] = Inr (heap, runs)"
    "merge_loop fwd_before None heap runs [] None = Inr (R, t)" "ksorted (R @ R2)"
    "set (R @ R2) = live_newest (\<Union> (set ` set ?rs))" "\<not> t \<longrightarrow> R2 = []" "t \<longrightarrow> (\<exists>n. None = Some n \<and> n \<le> length R)"
    using fwd.merge_runs [of ?rs None] by blast
  then have R2: "R2 = []" by auto
  have "merge_readers scan ?lo ?hi readers = decode_items R"
    using R(1,2) scan_all_holds [OF assms(1), of ?lo ?hi] by (simp add: merge_readers_def)
  moreover have "set R = live_newest (entries_between ?lo ?hi ess)"
    using R(4) unfolding R2 append_Nil2 entries_between_filter .
  ultimately show ?thesis using decode_live_newest [OF assms(3), of R lo hi ess] R(3) R2 by simp
qed

end

text \<open>The readers of segment files.\<close>

interpretation disk: segment_readers "SegmentReader_get X d" "SegmentReader_range_scan X d"
    "\<lambda>r es. zstd_ok X \<and> segment_inv X d r es" for X d
  by unfold_locales (auto simp: segment_inv_sorted segment_get segment_range_scan)

end
