(* ===== verification/Snapshot.thy ===== *)
theory Snapshot
  imports SegmentStore ReaderMerge
begin

text \<open>
  Snapshots, \<open>edgestore/src/snapshot.rs\<close>: the registry of pinned segments and reads over the
  readers a snapshot holds. The shared, locked registry is a value that operations return
  updated; a lock that is poisoned cannot occur here, since no operation panics while it is held.
\<close>

section \<open>The registry\<close>

record SnapshotRegistry =
  sg_next_id :: u64
  sg_pinned :: "(u64 \<times> SegmentId list) list"

definition registry_new :: SnapshotRegistry where
  "registry_new = \<lparr> sg_next_id = 1, sg_pinned = [] \<rparr>"

definition registry_register :: "SegmentId list \<Rightarrow> SnapshotRegistry \<Rightarrow> SnapshotRegistry \<times> u64" where
  "registry_register ids g =
     (let i = sg_next_id g
      in (g\<lparr>sg_next_id := i + 1, sg_pinned := (i, ids) # filter (\<lambda>(j, _). j \<noteq> i) (sg_pinned g)\<rparr>, i))"

definition registry_release :: "u64 \<Rightarrow> SnapshotRegistry \<Rightarrow> SnapshotRegistry" where
  "registry_release i g = g\<lparr>sg_pinned := filter (\<lambda>(j, _). j \<noteq> i) (sg_pinned g)\<rparr>"

definition is_pinned :: "SegmentId \<Rightarrow> SnapshotRegistry \<Rightarrow> bool" where
  "is_pinned s g = list_ex (\<lambda>(i, ids). s \<in> set ids) (sg_pinned g)"

definition pinned_ids :: "SnapshotRegistry \<Rightarrow> SegmentId set" where
  "pinned_ids g = set (concat (map snd (sg_pinned g)))"

section \<open>Reads\<close>

record Snapshot =
  sn_snapshot_id :: u64
  sn_readers :: "SegmentReader list"

definition Snapshot_get :: "ext \<Rightarrow> dir \<Rightarrow> Snapshot \<Rightarrow> bytes \<Rightarrow> bytes \<Rightarrow> bytes option res" where
  "Snapshot_get X d sn ns key =
     and_then (encode_key ns key) (\<lambda>encoded.
     and_then (best_entry (SegmentReader_get X d) encoded (sn_readers sn) None) (\<lambda>best.
       Inr (put_value best)))"

definition Snapshot_range ::
  "ext \<Rightarrow> dir \<Rightarrow> Snapshot \<Rightarrow> bytes \<Rightarrow> bytes \<Rightarrow> bytes \<Rightarrow> (bytes \<times> bytes) list res" where
  "Snapshot_range X d sn ns start end =
     and_then (encode_key ns start) (\<lambda>enc_start.
     and_then (encode_key ns end) (\<lambda>enc_end.
       merge_readers (SegmentReader_range_scan X d) enc_start enc_end (sn_readers sn)))"

section \<open>Pins\<close>

text \<open>Snapshot ids that were handed out and not released.\<close>

definition registry_inv :: "SnapshotRegistry \<Rightarrow> bool" where
  "registry_inv g \<longleftrightarrow> distinct (map fst (sg_pinned g)) \<and> (\<forall>i \<in> fst ` set (sg_pinned g). i < sg_next_id g)"

lemma registry_inv_new: "registry_inv registry_new"
  by (simp add: registry_inv_def registry_new_def)

lemma registry_inv_release: "registry_inv g \<Longrightarrow> registry_inv (registry_release i g)"
  by (auto simp: registry_inv_def registry_release_def distinct_map_filter)

lemma registry_register_spec:
  assumes "registry_inv g" "sg_next_id g + 1 \<noteq> 0" "registry_register ids g = (g', i)"
  shows "registry_inv g' \<and> pinned_ids g' = set ids \<union> pinned_ids g \<and> (i, ids) \<in> set (sg_pinned g') \<and>
     i \<notin> fst ` set (sg_pinned g)"
proof -
  have g': "g' = g\<lparr>sg_next_id := i + 1, sg_pinned := (i, ids) # filter (\<lambda>(j, _). j \<noteq> i) (sg_pinned g)\<rparr>"
    and i: "i = sg_next_id g" using assms(3) by (auto simp: registry_register_def Let_def)
  have fresh: "i \<notin> fst ` set (sg_pinned g)" using assms(1) i by (auto simp: registry_inv_def)
  then have flt: "filter (\<lambda>(j, _). j \<noteq> i) (sg_pinned g) = sg_pinned g"
    by (intro filter_True) (auto simp: image_iff)
  have "i < i + 1" using assms(2) i word_less_Suc_self by blast
  with assms(1) have "\<forall>j \<in> fst ` set (sg_pinned g). j < i + 1"
    by (auto simp: registry_inv_def i intro: less_trans)
  with assms(1) fresh \<open>i < i + 1\<close> show ?thesis
    by (simp add: g' flt registry_inv_def pinned_ids_def)
qed

lemma pinned_release:
  assumes "registry_inv g" "(i, ids) \<in> set (sg_pinned g)" "i \<noteq> j"
  shows "set ids \<subseteq> pinned_ids (registry_release j g)"
  using assms by (auto simp: pinned_ids_def registry_release_def)

lemma is_pinned_pinned_ids: "is_pinned s g \<longleftrightarrow> s \<in> pinned_ids g"
  by (force simp: is_pinned_def pinned_ids_def list_ex_iff)

section \<open>What a snapshot reads\<close>

lemma store_inv_disk:
  "zstd_ok X \<Longrightarrow> store_inv X d readers ess \<Longrightarrow>
   list_all2 (\<lambda>r es. zstd_ok X \<and> segment_inv X d r es) readers ess"
  by (auto simp: store_inv_def elim: list_all2_mono)

text \<open>
  A snapshot lookup returns the newest version over the segments the snapshot holds, whatever
  the order of its readers: the value when that version is a put, nothing when it is a deletion
  or there is none.
\<close>

theorem snapshot_get_newest:
  assumes "zstd_ok X" "store_inv X d (sn_readers sn) ess" "lsn_det (\<Union> (set ` set ess))" "ns_ok ns"
  shows "\<exists>r. Snapshot_get X d sn ns key = Inr r \<and>
     (\<forall>v. r = Some v \<longleftrightarrow> (\<exists>e. newest (\<Union> (set ` set ess)) (enc ns key) e \<and> e_op e = Put \<and> e_value e = Some v))"
  using disk.lookup_newest [OF store_inv_disk [OF assms(1,2)] assms(3), of "enc ns key"]
  by (auto simp: Snapshot_get_def encode_key_ok [OF assms(4)])

theorem snapshot_get_newest_witness:
  "\<exists>d sn r. store_inv sample_ext d (sn_readers sn) [sample_run, sample_run2] \<and>
     Snapshot_get sample_ext d sn [110] [1] = Inr r \<and>
     (\<forall>v. r = Some v \<longleftrightarrow> (\<exists>e. newest (\<Union> (set ` set [sample_run, sample_run2])) (enc [110] [1]) e \<and>
        e_op e = Put \<and> e_value e = Some v))"
proof -
  obtain d readers where "store_inv sample_ext d readers [sample_run, sample_run2]"
    using sample_store by blast
  then have s: "store_inv sample_ext d (sn_readers \<lparr> sn_snapshot_id = 1, sn_readers = readers \<rparr>)
      [sample_run, sample_run2]" by simp
  have det: "lsn_det (\<Union> (set ` set [sample_run, sample_run2]))"
    by (auto simp: lsn_det_def sample_run_def sample_run2_def sample_entry_def sample_tombstone_def)
  have ns: "ns_ok [110]" by (simp add: ns_ok_def U16_MAX_def)
  from snapshot_get_newest [OF sample_laws(2) s det ns, of "[1]"] s show ?thesis by blast
qed

text \<open>
  A snapshot scan returns exactly the user keys of the namespace in \<open>[start, end)\<close> whose newest
  version in the snapshot is a put, with their values, in increasing order.
\<close>

theorem snapshot_range_newest:
  assumes "zstd_ok X" "store_inv X d (sn_readers sn) ess" "lsn_det (\<Union> (set ` set ess))" "ns_ok ns"
  shows "\<exists>L. Snapshot_range X d sn ns lo hi = Inr L \<and> ksorted L \<and>
     (\<forall>uk v. (uk, v) \<in> set L \<longleftrightarrow> lo \<le> uk \<and> uk < hi \<and>
        (\<exists>e. newest (\<Union> (set ` set ess)) (enc ns uk) e \<and> e_op e \<noteq> Delete \<and> e_value e = Some v))"
  using disk.merge_readers_newest [OF store_inv_disk [OF assms(1,2)] assms(3,4), of lo hi]
  by (simp add: Snapshot_range_def encode_key_ok [OF assms(4)])

theorem snapshot_range_newest_witness:
  "\<exists>d sn L. store_inv sample_ext d (sn_readers sn) [sample_run, sample_run2] \<and>
     Snapshot_range sample_ext d sn [110] [] [9] = Inr L \<and> ksorted L"
proof -
  obtain d readers where "store_inv sample_ext d readers [sample_run, sample_run2]"
    using sample_store by blast
  then have s: "store_inv sample_ext d (sn_readers \<lparr> sn_snapshot_id = 1, sn_readers = readers \<rparr>)
      [sample_run, sample_run2]" by simp
  have det: "lsn_det (\<Union> (set ` set [sample_run, sample_run2]))"
    by (auto simp: lsn_det_def sample_run_def sample_run2_def sample_entry_def sample_tombstone_def)
  have ns: "ns_ok [110]" by (simp add: ns_ok_def U16_MAX_def)
  from snapshot_range_newest [OF sample_laws(2) s det ns, of "[]" "[9]"] s show ?thesis by blast
qed

end
