(* ===== verification/Compactor.thy ===== *)
theory Compactor
  imports Snapshot "HOL-Library.Product_Lexorder" "HOL-Library.Multiset"
begin

text \<open>
  Cohort compaction, \<open>edgestore/src/compactor.rs\<close>. The compactor works on the manifest and the
  files of the database directory. A \<open>HashMap\<close> is iterated in an order that the program does
  not fix: \<open>hash_order\<close> is that order for the cohorts, an argument of which only
  \<open>hash_order_ok\<close> is assumed. The order of the merged entries cannot be observed, since they are
  sorted by key before they are written. \<open>clock i\<close> is the time at which segment \<open>i\<close> is written.
\<close>

section \<open>Cohorts\<close>

record CohortInfo =
  ci_cohort_bucket :: i64
  ci_segment_ids :: "SegmentId list"
  ci_max_death_time_nanos :: i64
  ci_total_records :: u64
  ci_dead_record_estimate :: u64
  ci_is_fully_expired :: bool

record CompactionStats =
  cs_cohorts_collected :: u64
  cs_segments_removed :: u64
  cs_segments_written :: u64
  cs_bytes_written :: u64
  cs_live_records_relocated :: u64

definition CompactionStats_default :: CompactionStats where
  "CompactionStats_default = \<lparr> cs_cohorts_collected = 0, cs_segments_removed = 0,
     cs_segments_written = 0, cs_bytes_written = 0, cs_live_records_relocated = 0 \<rparr>"

record Compactor =
  cp_write_budget_bytes :: u64
  cp_cohort_window_secs :: u64

fun max_i64 :: "i64 list \<Rightarrow> i64 option" where
  "max_i64 [] = None"
| "max_i64 (x # xs) = Some (fold (\<lambda>y m. if sint m \<le> sint y then y else m) xs x)"

definition cohort_of :: "SegmentMeta list \<Rightarrow> i64 \<Rightarrow> i64 \<Rightarrow> CohortInfo" where
  "cohort_of segments now_nanos bucket =
     (let segs = filter (\<lambda>s. m_cohort_bucket s = bucket) segments;
          max_death_time_nanos = (case max_i64 (map m_death_time segs) of Some t \<Rightarrow> t | None \<Rightarrow> 0)
      in \<lparr> ci_cohort_bucket = bucket, ci_segment_ids = map m_segment_id segs,
           ci_max_death_time_nanos = max_death_time_nanos,
           ci_total_records = sum_list (map m_record_count segs), ci_dead_record_estimate = 0,
           ci_is_fully_expired = (sint now_nanos > sint max_death_time_nanos) \<rparr>)"

definition identify_cohorts :: "(i64 list \<Rightarrow> i64 list) \<Rightarrow> SegmentMeta list \<Rightarrow> i64 \<Rightarrow> CohortInfo list" where
  "identify_cohorts hash_order segments now_nanos =
     sort_key (\<lambda>c. (\<not> ci_is_fully_expired c, sint (ci_max_death_time_nanos c)))
       (map (cohort_of segments now_nanos) (hash_order (remdups (map m_cohort_bucket segments))))"

section \<open>Collecting and rewriting a cohort\<close>

definition collect_expired_cohort ::
  "ext \<Rightarrow> CohortInfo \<Rightarrow> CompactionStats \<Rightarrow> Manifest \<Rightarrow> dir \<Rightarrow> (Manifest \<times> dir) \<times> CompactionStats res" where
  "collect_expired_cohort X cohort stats m d =
     (case remove_segments X (ci_segment_ids cohort) m d of
        (st, Inl e) \<Rightarrow> (st, Inl e)
      | ((m1, d1), Inr _) \<Rightarrow>
          ((m1, fold delete_segment_files (ci_segment_ids cohort) d1),
           Inr (stats\<lparr>cs_segments_removed := cs_segments_removed stats + word_of_nat (length (ci_segment_ids cohort)),
                      cs_cohorts_collected := cs_cohorts_collected stats + 1\<rparr>)))"

definition merge_by_lsn :: "kv \<Rightarrow> kv list \<Rightarrow> kv list" where
  "merge_by_lsn = (\<lambda>(key, entry) merged.
     let existing_lsn = (case map_of merged key of Some e \<Rightarrow> e_lsn e | None \<Rightarrow> 0)
     in if e_lsn entry > existing_lsn then btree_insert key entry merged else merged)"

definition compaction_range_end :: bytes where
  "compaction_range_end = replicate 256 0xFF"

fun merge_cohort :: "ext \<Rightarrow> dir \<Rightarrow> SegmentId list \<Rightarrow> kv list \<Rightarrow> kv list res" where
  "merge_cohort X d [] merged = Inr merged"
| "merge_cohort X d (seg_id # ids) merged =
     and_then (SegmentReader_open X seg_id d) (\<lambda>reader.
     and_then (SegmentReader_range_scan X d reader [] compaction_range_end) (\<lambda>entries.
       merge_cohort X d ids (fold merge_by_lsn entries merged)))"

definition survives :: "u64 \<Rightarrow> i64 \<Rightarrow> MemEntry \<Rightarrow> bool" where
  "survives window now_nanos entry =
     (if e_op entry = Delete then False
      else sint (death_time_for (e_timestamp entry) (e_ttl entry) window) > sint now_nanos)"

definition compact_partial_cohort ::
  "ext \<Rightarrow> (SegmentId \<Rightarrow> i64) \<Rightarrow> Compactor \<Rightarrow> CohortInfo \<Rightarrow> i64 \<Rightarrow> SegmentId \<Rightarrow> CompactionStats \<Rightarrow>
   Manifest \<Rightarrow> dir \<Rightarrow> (Manifest \<times> dir) \<times> CompactionStats res" where
  "compact_partial_cohort X clock C cohort now_nanos next_segment_id stats m d =
     (case merge_cohort X d (ci_segment_ids cohort) [] of
        Inl e \<Rightarrow> ((m, d), Inl e)
      | Inr merged \<Rightarrow>
          let survivors = filter (\<lambda>(k, entry). survives (cp_cohort_window_secs C) now_nanos entry) merged
          in if survivors = [] then collect_expired_cohort X cohort stats m d
             else
               let sorted_survivors = sort_key fst survivors
               in (case SegmentWriter_flush X next_segment_id (cp_cohort_window_secs C)
                          (clock next_segment_id) sorted_survivors d of
                     Inl e \<Rightarrow> ((m, d), Inl e)
                   | Inr (new_meta, d1) \<Rightarrow>
                       (case add_segment X new_meta m d1 of
                          (st, Inl e) \<Rightarrow> (st, Inl e)
                        | ((m2, d2), Inr _) \<Rightarrow>
                            (case remove_segments X (ci_segment_ids cohort) m2 d2 of
                               (st, Inl e) \<Rightarrow> (st, Inl e)
                             | ((m3, d3), Inr _) \<Rightarrow>
                                 ((m3, fold delete_segment_files (ci_segment_ids cohort) d3),
                                  Inr \<lparr> cs_cohorts_collected = cs_cohorts_collected stats + 1,
                                     cs_segments_removed = cs_segments_removed stats +
                                       word_of_nat (length (ci_segment_ids cohort)),
                                     cs_segments_written = cs_segments_written stats + 1,
                                     cs_bytes_written = cs_bytes_written stats + m_compressed_bytes new_meta,
                                     cs_live_records_relocated = cs_live_records_relocated stats +
                                       word_of_nat (length sorted_survivors) \<rparr>)))))"

section \<open>A cycle\<close>

fun compact_cohorts ::
  "ext \<Rightarrow> (SegmentId \<Rightarrow> i64) \<Rightarrow> Compactor \<Rightarrow> i64 \<Rightarrow> SegmentId set \<Rightarrow> CohortInfo list \<Rightarrow> SegmentId \<Rightarrow>
   CompactionStats \<Rightarrow> Manifest \<Rightarrow> dir \<Rightarrow> (Manifest \<times> dir) \<times> CompactionStats res" where
  "compact_cohorts X clock C now pinned [] next_id stats m d = ((m, d), Inr stats)"
| "compact_cohorts X clock C now pinned (cohort # cohorts) next_id stats m d =
     (if cs_bytes_written stats \<ge> cp_write_budget_bytes C then ((m, d), Inr stats)
      else if list_ex (\<lambda>i. i \<in> pinned) (ci_segment_ids cohort)
      then compact_cohorts X clock C now pinned cohorts next_id stats m d
      else if ci_is_fully_expired cohort then
        (case collect_expired_cohort X cohort stats m d of
           (st, Inl e) \<Rightarrow> (st, Inl e)
         | ((m1, d1), Inr stats1) \<Rightarrow> compact_cohorts X clock C now pinned cohorts next_id stats1 m1 d1)
      else
        (case compact_partial_cohort X clock C cohort now next_id stats m d of
           (st, Inl e) \<Rightarrow> (st, Inl e)
         | ((m1, d1), Inr stats1) \<Rightarrow>
             compact_cohorts X clock C now pinned cohorts (next_id + 1) stats1 m1 d1))"

definition max_segment_id :: "SegmentMeta list \<Rightarrow> SegmentId" where
  "max_segment_id segments = fold (\<lambda>s a. max (m_segment_id s) a) segments 0"

definition compact_cycle ::
  "ext \<Rightarrow> (SegmentId \<Rightarrow> i64) \<Rightarrow> (i64 list \<Rightarrow> i64 list) \<Rightarrow> Compactor \<Rightarrow> i64 \<Rightarrow> SegmentId set \<Rightarrow>
   Manifest \<Rightarrow> dir \<Rightarrow> (Manifest \<times> dir) \<times> CompactionStats res" where
  "compact_cycle X clock hash_order C now_nanos pinned m d =
     (let segments = filter (\<lambda>s. m_segment_id s \<notin> pinned) (list_segments m);
          cohorts = identify_cohorts hash_order segments now_nanos;
          next_segment_id = max_segment_id (list_segments m) + 1
      in compact_cohorts X clock C now_nanos pinned cohorts next_segment_id CompactionStats_default m d)"

section \<open>Cohorts partition the segments\<close>

text \<open>Iterating a hash map visits every key once.\<close>

definition hash_order_ok :: "(i64 list \<Rightarrow> i64 list) \<Rightarrow> bool" where
  "hash_order_ok h \<longleftrightarrow> (\<forall>xs. distinct xs \<longrightarrow> set (h xs) = set xs \<and> distinct (h xs))"

lemma fold_max_i64:
  fixes y :: i64
  defines "f \<equiv> \<lambda>y m :: i64. if sint m \<le> sint y then y else m"
  shows "fold f ys y \<in> set (y # ys) \<and> (\<forall>x \<in> set (y # ys). sint x \<le> sint (fold f ys y))"
proof (induction ys arbitrary: y)
  case (Cons z ys)
  have z: "f z y \<in> {y, z}" "sint y \<le> sint (f z y)" "sint z \<le> sint (f z y)" by (auto simp: f_def)
  define m where "m = fold f ys (f z y)"
  from Cons [of "f z y"] z have "m \<in> set (y # z # ys) \<and> (\<forall>x \<in> set (y # z # ys). sint x \<le> sint m)"
    unfolding m_def [symmetric] by auto
  then show ?case by (simp add: m_def)
qed simp

lemma max_i64_spec:
  "max_i64 xs = Some m \<Longrightarrow> m \<in> set xs \<and> (\<forall>x \<in> set xs. sint x \<le> sint m)"
  using fold_max_i64 by (cases xs) auto

lemma cohort_of_simps [simp]:
  "ci_segment_ids (cohort_of segs now b) = map m_segment_id (filter (\<lambda>s. m_cohort_bucket s = b) segs)"
  "ci_cohort_bucket (cohort_of segs now b) = b"
  "ci_is_fully_expired (cohort_of segs now b) = (sint (ci_max_death_time_nanos (cohort_of segs now b)) < sint now)"
  by (simp_all add: cohort_of_def Let_def)

lemma cohort_max_death:
  assumes "s \<in> set segs" "m_cohort_bucket s = b"
  shows "sint (m_death_time s) \<le> sint (ci_max_death_time_nanos (cohort_of segs now b))"
proof -
  let ?ts = "map m_death_time (filter (\<lambda>s. m_cohort_bucket s = b) segs)"
  have mem: "m_death_time s \<in> set ?ts" using assms by auto
  then obtain t where "max_i64 ?ts = Some t" by (cases ?ts) auto
  with max_i64_spec [OF this] assms show ?thesis by (simp add: cohort_of_def Let_def)
qed

lemma cohort_max_attained:
  assumes "b \<in> m_cohort_bucket ` set segs"
  shows "\<exists>s \<in> set segs. m_cohort_bucket s = b \<and> ci_max_death_time_nanos (cohort_of segs now b) = m_death_time s"
proof -
  let ?ts = "map m_death_time (filter (\<lambda>s. m_cohort_bucket s = b) segs)"
  have "?ts \<noteq> []" using assms by (auto simp: filter_empty_conv)
  then obtain t where "max_i64 ?ts = Some t" by (cases ?ts) auto
  with max_i64_spec [OF this] show ?thesis by (auto simp: cohort_of_def Let_def)
qed

lemma set_identify_cohorts:
  "hash_order_ok h \<Longrightarrow>
   set (identify_cohorts h segs now) = cohort_of segs now ` (m_cohort_bucket ` set segs)"
  unfolding identify_cohorts_def hash_order_ok_def by (simp add: set_sort)

lemma mset_filter_by_bucket:
  assumes "distinct bs"
  shows "mset (concat (map (\<lambda>b. filter (\<lambda>x. f x = b) xs) bs)) = filter_mset (\<lambda>x. f x \<in> set bs) (mset xs)"
  using assms by (induction bs) (auto intro!: multiset_eqI simp: mset_filter)

lemma mset_concat_map_mset: "mset xs = mset ys \<Longrightarrow> mset (concat (map f xs)) = mset (concat (map f ys))"
  by (simp add: mset_concat flip: sum_mset_sum_list)

text \<open>
  Compaction works on every segment once and in the intended order. The cohorts of a list of
  segments contain the id of every segment, each in exactly one cohort; cohorts in which every
  segment is past its death time come first, and within each group they are ordered by their
  last death time.
\<close>

theorem identify_cohorts_partition:
  assumes "hash_order_ok h"
  shows "mset (concat (map ci_segment_ids (identify_cohorts h segs now))) = mset (map m_segment_id segs) \<and>
     sorted_wrt (\<lambda>a b. (ci_is_fully_expired b \<longrightarrow> ci_is_fully_expired a) \<and>
        (ci_is_fully_expired a = ci_is_fully_expired b \<longrightarrow>
           sint (ci_max_death_time_nanos a) \<le> sint (ci_max_death_time_nanos b))) (identify_cohorts h segs now) \<and>
     (\<forall>c \<in> set (identify_cohorts h segs now). ci_is_fully_expired c \<longleftrightarrow>
        (\<forall>s \<in> set segs. m_segment_id s \<in> set (ci_segment_ids c) \<and> m_cohort_bucket s = ci_cohort_bucket c \<longrightarrow>
           sint (m_death_time s) < sint now))"
proof (intro conjI)
  let ?bs = "h (remdups (map m_cohort_bucket segs))"
  let ?key = "\<lambda>c. (\<not> ci_is_fully_expired c, sint (ci_max_death_time_nanos c))"
  have bs: "distinct ?bs" "set ?bs = m_cohort_bucket ` set segs"
    using assms by (simp_all add: hash_order_ok_def)
  have "mset (concat (map ci_segment_ids (identify_cohorts h segs now))) =
      mset (concat (map ci_segment_ids (map (cohort_of segs now) ?bs)))"
    unfolding identify_cohorts_def by (rule mset_concat_map_mset) simp
  also have "\<dots> = image_mset m_segment_id (mset (concat (map (\<lambda>b. filter (\<lambda>s. m_cohort_bucket s = b) segs) ?bs)))"
    by (simp add: comp_def map_concat flip: mset_map)
  also have "\<dots> = mset (map m_segment_id segs)"
  proof -
    have "filter_mset (\<lambda>s. m_cohort_bucket s \<in> m_cohort_bucket ` set segs) (mset segs) = mset segs"
      by (auto simp: filter_mset_eq_conv)
    then show ?thesis unfolding mset_filter_by_bucket [OF bs(1)] bs(2) by simp
  qed
  finally show "mset (concat (map ci_segment_ids (identify_cohorts h segs now))) = mset (map m_segment_id segs)" .
  have "sorted (map ?key (identify_cohorts h segs now))" unfolding identify_cohorts_def by (rule sorted_sort_key)
  then show "sorted_wrt (\<lambda>a b. (ci_is_fully_expired b \<longrightarrow> ci_is_fully_expired a) \<and>
        (ci_is_fully_expired a = ci_is_fully_expired b \<longrightarrow>
           sint (ci_max_death_time_nanos a) \<le> sint (ci_max_death_time_nanos b))) (identify_cohorts h segs now)"
    unfolding sorted_map by (rule sorted_wrt_mono_rel [rotated]) (auto simp: less_eq_prod_def)
  show "\<forall>c \<in> set (identify_cohorts h segs now). ci_is_fully_expired c \<longleftrightarrow>
        (\<forall>s \<in> set segs. m_segment_id s \<in> set (ci_segment_ids c) \<and> m_cohort_bucket s = ci_cohort_bucket c \<longrightarrow>
           sint (m_death_time s) < sint now)"
  proof
    fix c assume "c \<in> set (identify_cohorts h segs now)"
    then obtain b where b: "c = cohort_of segs now b" "b \<in> m_cohort_bucket ` set segs"
      using set_identify_cohorts [OF assms] by auto
    then obtain s where s: "s \<in> set segs" "m_cohort_bucket s = b"
      "ci_max_death_time_nanos c = m_death_time s" using cohort_max_attained by metis
    show "ci_is_fully_expired c \<longleftrightarrow>
        (\<forall>s \<in> set segs. m_segment_id s \<in> set (ci_segment_ids c) \<and> m_cohort_bucket s = ci_cohort_bucket c \<longrightarrow>
           sint (m_death_time s) < sint now)"
    proof
      assume "ci_is_fully_expired c"
      then have "sint (ci_max_death_time_nanos c) < sint now" by (simp add: b(1))
      with cohort_max_death b(1) show "\<forall>s \<in> set segs. m_segment_id s \<in> set (ci_segment_ids c) \<and>
          m_cohort_bucket s = ci_cohort_bucket c \<longrightarrow> sint (m_death_time s) < sint now"
        by (metis cohort_of_simps(2) le_less_trans)
    next
      assume "\<forall>s \<in> set segs. m_segment_id s \<in> set (ci_segment_ids c) \<and>
          m_cohort_bucket s = ci_cohort_bucket c \<longrightarrow> sint (m_death_time s) < sint now"
      then have "sint (m_death_time s) < sint now" using s b(1) by simp
      with s(3) show "ci_is_fully_expired c" unfolding b(1) by simp
    qed
  qed
qed

theorem identify_cohorts_partition_witness:
  "mset (concat (map ci_segment_ids (identify_cohorts rev [sample_meta 3, sample_meta 5] 9))) = {#3, 5#}"
proof -
  have "hash_order_ok rev" by (simp add: hash_order_ok_def)
  from identify_cohorts_partition [OF this, of "[sample_meta 3, sample_meta 5]" 9]
  show ?thesis by (simp add: sample_meta_def)
qed

section \<open>Removing segments from a store\<close>

lemma delete_files_frame:
  "(\<forall>i \<in> set ids. \<forall>x. p \<noteq> segment_file i x) \<Longrightarrow> fs_read (fold delete_segment_files ids d) p = fs_read d p"
  by (induction ids arbitrary: d) (auto simp: delete_segment_files_def)

lemma write_removals_ok:
  assumes "\<forall>i \<in> set ids. entry_ok X (removal i)"
  shows "\<exists>d'. write_removals X path ids d = (d', Inr ())"
  using assms
  by (induction ids arbitrary: d) (auto simp: entry_ok_def removal_def write_framed_entry_def Let_def)

lemma remove_segments_ok:
  assumes "\<forall>i \<in> set ids. entry_ok X (removal i)"
  shows "\<exists>m' d'. remove_segments X ids m d = ((m', d'), Inr ())"
  using write_removals_ok [OF assms, of "mf_path m" d] by (auto simp: remove_segments_def)

lemma write_framed_frame:
  "write_framed_entry X path e d = Inr d' \<Longrightarrow> p \<noteq> path \<Longrightarrow> fs_read d' p = fs_read d p"
  by (auto simp: write_framed_entry_def Let_def split: if_splits)

lemma write_removals_frame:
  "write_removals X path ids d = (d', r) \<Longrightarrow> p \<noteq> path \<Longrightarrow> fs_read d' p = fs_read d p"
  by (induction ids arbitrary: d) (auto dest: write_framed_frame split: sum.splits)

lemma remove_segments_frame:
  assumes "remove_segments X ids m d = ((m', d'), r)"
  shows "(p \<noteq> mf_path m \<longrightarrow> fs_read d' p = fs_read d p) \<and> mf_path m' = mf_path m \<and>
     (\<forall>s \<in> set (mf_segments m). m_segment_id s \<notin> set ids \<longrightarrow> s \<in> set (mf_segments m'))"
proof -
  obtain d1 q where w: "write_removals X (mf_path m) ids d = (d1, q)" by fastforce
  with assms write_removals_frame [OF w] show ?thesis by (cases q) (auto simp: remove_segments_def)
qed

text \<open>The runs of the segments that are not in \<open>ids\<close>.\<close>

definition other_runs :: "SegmentId list \<Rightarrow> SegmentStore \<Rightarrow> kv list list \<Rightarrow> kv list list" where
  "other_runs ids s ess = map snd (filter (\<lambda>(i, es). i \<notin> set ids) (zip (segment_ids s) ess))"

lemma list_all2_filter_zip:
  assumes "list_all2 P rs ess"
  shows "list_all2 P (filter (\<lambda>r. f r \<notin> I) rs) (map snd (filter (\<lambda>(i, es). i \<notin> I) (zip (map f rs) ess)))"
  using assms by (induction rule: list_all2_induct) auto

lemma remove_from_store_ok:
  assumes "store_ok X d s ess" "remove_segments X ids (ss_manifest s) d = ((m', d'), Inr ())"
  shows "store_ok X (fold delete_segment_files ids d')
     (s\<lparr>ss_manifest := m', ss_readers := filter (\<lambda>r. sr_segment_id r \<notin> set ids) (ss_readers s)\<rparr>)
     (other_runs ids s ess)"
proof -
  note ok = assms(1) [unfolded store_ok_def]
  let ?d = "fold delete_segment_files ids d'"
  let ?rs = "filter (\<lambda>r. sr_segment_id r \<notin> set ids) (ss_readers s)"
  have minv: "manifest_inv X (ss_manifest s) d" and path: "mf_path (ss_manifest s) = manifest_path"
    and ids: "map sr_segment_id (ss_readers s) = map m_segment_id (mf_segments (ss_manifest s))"
    and sinv: "list_all2 (segment_inv X d) (ss_readers s) ess"
    and op: "\<forall>r \<in> set (ss_readers s). SegmentReader_open X (sr_segment_id r) d = Inr r"
    using ok by (simp_all add: store_inv_def)
  have m': "manifest_inv X m' d'" "mf_path m' = manifest_path"
    "mf_segments m' = filter (\<lambda>s. m_segment_id s \<notin> set ids) (mf_segments (ss_manifest s))"
    using manifest_inv_remove [OF minv assms(2)] path by auto
  have "fs_read ?d manifest_path = fs_read d' manifest_path" by (rule delete_files_frame) simp
  with m' have "manifest_inv X m' ?d" by (intro manifest_inv_frame [OF m'(1)]) simp
  moreover have frame: "fs_read ?d (segment_file j x) = fs_read d (segment_file j x)" if "j \<notin> set ids" for j x
  proof -
    have "fs_read ?d (segment_file j x) = fs_read d' (segment_file j x)"
      using that by (intro delete_files_frame) auto
    then show ?thesis using remove_segments_frame [OF assms(2), of "segment_file j x"] path by simp
  qed
  have "list_all2 (segment_inv X d) ?rs (other_runs ids s ess)"
    unfolding other_runs_def segment_ids_def using sinv by (rule list_all2_filter_zip)
  then have "list_all2 (segment_inv X ?d) ?rs (other_runs ids s ess)"
    by (rule list.rel_mono_strong) (auto intro: segment_inv_frame simp: frame)
  moreover have "\<forall>r \<in> set ?rs. SegmentReader_open X (sr_segment_id r) ?d = Inr r"
  proof
    fix r assume "r \<in> set ?rs"
    then have r: "sr_segment_id r \<notin> set ids" "SegmentReader_open X (sr_segment_id r) d = Inr r" using op by auto
    with reader_open_frame [of ?d "sr_segment_id r" d X] frame show "SegmentReader_open X (sr_segment_id r) ?d = Inr r"
      by simp
  qed
  moreover have "map sr_segment_id ?rs = map m_segment_id (mf_segments m')"
  proof -
    have "map sr_segment_id ?rs = filter (\<lambda>i. i \<notin> set ids) (map sr_segment_id (ss_readers s))"
      by (simp add: filter_map comp_def)
    then show ?thesis by (simp add: ids m'(3) filter_map comp_def)
  qed
  moreover have "distinct (map sr_segment_id ?rs)" using ok distinct_map_filter by blast
  moreover have "\<forall>r \<in> set ?rs. sr_segment_id r < ss_next_segment_id s" using ok by simp
  ultimately show ?thesis using m'(2) by (simp add: store_ok_def store_inv_def)
qed

section \<open>Merging a cohort\<close>

text \<open>\<open>merged\<close> holds the newest version of every key of \<open>S\<close>.\<close>

definition merged_of :: "kv set \<Rightarrow> kv list \<Rightarrow> bool" where
  "merged_of S merged \<longleftrightarrow> ksorted merged \<and>
     (\<forall>k e. map_of merged k = Some e \<longrightarrow> newest S k e) \<and>
     (\<forall>k. map_of merged k = None \<longrightarrow> (\<forall>e. (k, e) \<notin> S))"

lemma merged_of_empty: "merged_of {} []"
  by (simp add: merged_of_def)

lemma merged_of_mem:
  assumes "merged_of S merged" "lsn_det S"
  shows "(k, e) \<in> set merged \<longleftrightarrow> newest S k e"
proof -
  have "(k, e) \<in> set merged \<longleftrightarrow> map_of merged k = Some e"
    using assms(1) ksorted_map_of_iff [of merged k e] by (simp add: merged_of_def)
  also have "\<dots> \<longleftrightarrow> newest S k e"
  proof
    assume n: "newest S k e"
    then obtain e' where e': "map_of merged k = Some e'"
      using assms(1) unfolding merged_of_def newest_def by (cases "map_of merged k") auto
    then have "newest S k e'" using assms(1) by (simp add: merged_of_def)
    with n assms(2) have "e = e'" unfolding newest_def lsn_det_def by (meson order_antisym)
    with e' show "map_of merged k = Some e" by simp
  qed (use assms(1) in \<open>simp add: merged_of_def\<close>)
  finally show ?thesis .
qed

lemma merge_by_lsn_step:
  assumes "merged_of S merged" "0 < e_lsn e"
  shows "merged_of (insert (k, e) S) (merge_by_lsn (k, e) merged)"
proof -
  have srt: "ksorted merged" and new: "\<And>k e. map_of merged k = Some e \<Longrightarrow> newest S k e"
    and none: "\<And>k e. map_of merged k = None \<Longrightarrow> (k, e) \<notin> S" using assms(1) by (auto simp: merged_of_def)
  have other: "newest (insert (k, e) S) k' x \<longleftrightarrow> newest S k' x" if "k' \<noteq> k" for k' x
    using that by (auto simp: newest_def)
  show ?thesis
  proof (cases "e_lsn e > (case map_of merged k of Some e \<Rightarrow> e_lsn e | None \<Rightarrow> 0)")
    case True
    have "newest (insert (k, e) S) k e"
    proof (cases "map_of merged k")
      case None
      then show ?thesis using none by (auto simp: newest_def)
    next
      case (Some x)
      then have "e_lsn y \<le> e_lsn e" if "(k, y) \<in> S" for y
        using new [OF Some] True that unfolding newest_def by (auto intro: order_trans less_imp_le)
      then show ?thesis by (auto simp: newest_def)
    qed
    then have "newest (insert (k, e) S) k' y" if "((map_of merged)(k \<mapsto> e)) k' = Some y" for k' y
      using that new other by (cases "k' = k") auto
    moreover have "(k', y) \<notin> insert (k, e) S" if "((map_of merged)(k \<mapsto> e)) k' = None" for k' y
      using that none by (cases "k' = k") auto
    moreover have "merge_by_lsn (k, e) merged = btree_insert k e merged"
      using True by (simp add: merge_by_lsn_def Let_def)
    ultimately show ?thesis using srt by (simp add: merged_of_def btree_insert_sorted btree_insert_map_of)
  next
    case False
    then obtain x where x: "map_of merged k = Some x" "e_lsn e \<le> e_lsn x"
      using assms(2) by (cases "map_of merged k") auto
    have "newest (insert (k, e) S) k x" using new [OF x(1)] x(2) by (auto simp: newest_def)
    then have "newest (insert (k, e) S) k' y" if "map_of merged k' = Some y" for k' y
      using that x(1) new other by (cases "k' = k") auto
    moreover have "(k', y) \<notin> insert (k, e) S" if "map_of merged k' = None" for k' y
      using that x(1) none by auto
    moreover have "merge_by_lsn (k, e) merged = merged" using False by (simp add: merge_by_lsn_def Let_def)
    ultimately show ?thesis using srt by (simp add: merged_of_def)
  qed
qed

lemma merge_run:
  assumes "merged_of S merged" "\<forall>(k, e) \<in> set es. 0 < e_lsn e"
  shows "merged_of (S \<union> set es) (fold merge_by_lsn es merged)"
  using assms
proof (induction es arbitrary: S merged)
  case (Cons x es)
  obtain k e where x: "x = (k, e)" by (cases x)
  with Cons.prems have "merged_of (insert x S) (merge_by_lsn x merged)" using merge_by_lsn_step by simp
  from Cons.IH [OF this] Cons.prems(2) show ?case by simp
qed simp

text \<open>Runs of the segments with the given ids, as their files give them.\<close>

definition runs_of :: "ext \<Rightarrow> dir \<Rightarrow> SegmentId list \<Rightarrow> kv list list \<Rightarrow> bool" where
  "runs_of X d ids ess \<longleftrightarrow>
     list_all2 (\<lambda>i es. \<exists>r. SegmentReader_open X i d = Inr r \<and> segment_inv X d r es) ids ess"

definition compactable :: "kv set \<Rightarrow> bool" where
  "compactable S \<longleftrightarrow> (\<forall>(k, e) \<in> S. 0 < e_lsn e \<and> k < compaction_range_end)"

lemma merge_cohort_spec:
  assumes "zstd_ok X" "runs_of X d ids ess" "merged_of S merged" "compactable (\<Union> (set ` set ess))"
  shows "\<exists>merged'. merge_cohort X d ids merged = Inr merged' \<and> merged_of (S \<union> \<Union> (set ` set ess)) merged'"
  using assms(2-4) unfolding runs_of_def
proof (induction ids ess arbitrary: S merged rule: list_all2_induct)
  case (Cons i ids es ess)
  obtain r where r: "SegmentReader_open X i d = Inr r" "segment_inv X d r es" using Cons.hyps by blast
  have es: "\<forall>(k, e) \<in> set es. 0 < e_lsn e" and "filter (in_range [] compaction_range_end) es = es"
    using Cons.prems(2) by (auto simp: compactable_def intro!: filter_True)
  then have scan: "SegmentReader_range_scan X d r [] compaction_range_end = Inr es"
    using segment_range_scan [OF assms(1) r(2)] by simp
  have "compactable (\<Union> (set ` set ess))" using Cons.prems(2) by (auto simp: compactable_def)
  from Cons.IH [OF merge_run [OF Cons.prems(1) es] this] scan r(1) show ?case by (simp add: Un_assoc)
qed simp

section \<open>Rewriting a cohort of a store\<close>

lemma store_okD:
  assumes "store_ok X d s ess"
  shows "manifest_inv X (ss_manifest s) d" "mf_path (ss_manifest s) = manifest_path"
    "list_all2 (segment_inv X d) (ss_readers s) ess"
    "\<forall>r \<in> set (ss_readers s). SegmentReader_open X (sr_segment_id r) d = Inr r"
    "segment_ids s = map m_segment_id (mf_segments (ss_manifest s))"
    "distinct (segment_ids s)" "\<forall>j \<in> set (segment_ids s). j < ss_next_segment_id s"
  unfolding segment_ids_def list.set_map ball_simps
  using assms [unfolded store_ok_def store_inv_def] by blast+

lemma runs_of_store:
  assumes "store_ok X d s ess" "set ids \<subseteq> set (segment_ids s)"
  shows "runs_of X d ids (map (the \<circ> map_of (zip (segment_ids s) ess)) ids)"
proof -
  have inv: "list_all2 (segment_inv X d) (ss_readers s) ess"
    and op: "\<forall>r \<in> set (ss_readers s). SegmentReader_open X (sr_segment_id r) d = Inr r"
    and dist: "distinct (segment_ids s)"
    using store_okD [OF assms(1)] by blast+
  have "\<exists>r. SegmentReader_open X i d = Inr r \<and> segment_inv X d r (the (map_of (zip (segment_ids s) ess) i))"
    if "i \<in> set ids" for i
  proof -
    from that assms(2) obtain n where n: "n < length (ss_readers s)" "sr_segment_id (ss_readers s ! n) = i"
      unfolding segment_ids_def by (metis in_set_conv_nth length_map nth_map subsetD)
    have len: "length ess = length (ss_readers s)" using inv by (simp add: list_all2_lengthD)
    have "map_of (zip (segment_ids s) ess) (segment_ids s ! n) = Some (ess ! n)"
      using n(1) len dist by (intro map_of_zip_nth) (simp_all add: segment_ids_def)
    then have "the (map_of (zip (segment_ids s) ess) i) = ess ! n" using n by (simp add: segment_ids_def)
    moreover have "segment_inv X d (ss_readers s ! n) (ess ! n)" using inv n(1) by (rule list_all2_nthD)
    moreover have "SegmentReader_open X i d = Inr (ss_readers s ! n)" using op n by (metis nth_mem)
    ultimately show ?thesis by auto
  qed
  then show ?thesis by (simp add: runs_of_def list_all2_map2 list.rel_refl_strong)
qed

text \<open>All versions that the segments in \<open>ids\<close> hold.\<close>

definition cohort_versions :: "SegmentId list \<Rightarrow> SegmentStore \<Rightarrow> kv list list \<Rightarrow> kv set" where
  "cohort_versions ids s ess = \<Union> (set ` set (map (the \<circ> map_of (zip (segment_ids s) ess)) ids))"

lemma finalize_add:
  "finalize_segment X meta s d = ((s', d'), Inr ()) \<Longrightarrow>
   add_segment X meta (ss_manifest s) d = ((ss_manifest s', d'), Inr ())"
  by (auto simp: finalize_segment_def split: prod.splits sum.splits)

lemma store_ok_next:
  assumes "store_ok X d s ess" "\<forall>j \<in> set (segment_ids s). j < i"
  shows "store_ok X d (s\<lparr>ss_next_segment_id := i\<rparr>) ess"
proof -
  have "\<forall>r \<in> set (ss_readers s). sr_segment_id r < i" using assms(2) by (simp only: segment_ids_def) simp
  then show ?thesis using assms(1)
    unfolding store_ok_def by (elim conjE, intro conjI) simp_all
qed

lemma compact_survivors:
  assumes "zstd_ok X" "store_ok X d s ess" "set ids \<subseteq> set (segment_ids s)"
    and "compactable (cohort_versions ids s ess)" "lsn_det (cohort_versions ids s ess)"
  shows "\<exists>merged. merge_cohort X d ids [] = Inr merged \<and> ksorted merged \<and>
     (\<forall>k e. (k, e) \<in> set merged \<longleftrightarrow> newest (cohort_versions ids s ess) k e)"
proof -
  from merge_cohort_spec [OF assms(1) runs_of_store [OF assms(2,3)] merged_of_empty] assms(4)
  obtain merged where m: "merge_cohort X d ids [] = Inr merged" "merged_of (cohort_versions ids s ess) merged"
    unfolding cohort_versions_def by auto
  with merged_of_mem [OF m(2) assms(5)] show ?thesis by (auto simp: merged_of_def)
qed

lemma compact_partial_cohort_ok:
  assumes "zstd_ok X" "json_ok X" "xor8_ok X" "store_ok X d s ess" "set ids \<subseteq> set (segment_ids s)"
    and "ids = ci_segment_ids cohort" "\<forall>j \<in> set ids. entry_ok X (removal j)"
    and "merge_cohort X d ids [] = Inr merged" "ksorted merged"
    and "out = filter (\<lambda>(k, e). survives (cp_cohort_window_secs C) now e) merged"
    and "\<forall>j \<in> set (segment_ids s). j < i" "i + 1 \<noteq> 0"
    and "out \<noteq> [] \<longrightarrow> flushable X (cp_cohort_window_secs C) out \<and>
       (\<forall>meta d1. SegmentWriter_flush X i (cp_cohort_window_secs C) (clock i) out d = Inr (meta, d1) \<longrightarrow>
          entry_ok X (addition meta))"
  shows "\<exists>d' s' stats'. compact_partial_cohort X clock C cohort now i stats (ss_manifest s) d =
       ((ss_manifest s', d'), Inr stats') \<and>
     store_ok X d' s' (other_runs ids s ess @ (if out = [] then [] else [out]))"
proof (cases "out = []")
  case True
  obtain m' d1 where rm: "remove_segments X ids (ss_manifest s) d = ((m', d1), Inr ())"
    using remove_segments_ok [OF assms(7)] by blast
  let ?s' = "s\<lparr>ss_manifest := m', ss_readers := filter (\<lambda>r. sr_segment_id r \<notin> set ids) (ss_readers s)\<rparr>"
  have "\<exists>stats'. compact_partial_cohort X clock C cohort now i stats (ss_manifest s) d =
      ((m', fold delete_segment_files ids d1), Inr stats')"
    using rm assms(6,8) True unfolding assms(10)
    by (auto simp: compact_partial_cohort_def collect_expired_cohort_def Let_def)
  with remove_from_store_ok [OF assms(4) rm] True show ?thesis
    by (intro exI [of _ "fold delete_segment_files ids d1"] exI [of _ ?s']) auto
next
  case False
  let ?w = "cp_cohort_window_secs C"
  let ?s0 = "s\<lparr>ss_next_segment_id := i + 1\<rparr>"
  have fl: "flushable X ?w out" using assms(13) False by blast
  obtain meta d1 r where w: "SegmentWriter_flush X i ?w (clock i) out d = Inr (meta, d1)"
    "SegmentReader_open X i d1 = Inr r" "segment_inv X d1 r out" "sr_segment_id r = i" "m_segment_id meta = i"
    "\<forall>p. (\<forall>x. p \<noteq> segment_file i x) \<longrightarrow> fs_read d1 p = fs_read d p"
    using flush_segment [OF assms(1-3) fl] by blast
  have fit: "entry_ok X (addition meta)" using assms(13) False w(1) by blast
  have new: "i \<notin> set (segment_ids s)" using assms(11) by blast
  have lt: "i < i + 1" using assms(12) by (rule word_less_Suc_self)
  have "store_ok X d1 s ess"
  proof (rule store_ok_frame [OF assms(4)], use w(6) in simp, intro ballI allI)
    fix q x assume "q \<in> set (ss_readers s)"
    then have "sr_segment_id q \<noteq> i" using new by (auto simp: segment_ids_def)
    then show "fs_read d1 (segment_file (sr_segment_id q) x) = fs_read d (segment_file (sr_segment_id q) x)"
      using w(6) by simp
  qed
  moreover have "\<forall>j \<in> set (segment_ids s). j < i + 1" using assms(11) lt by (blast intro: less_trans)
  ultimately have ok0: "store_ok X d1 ?s0 ess" by (rule store_ok_next)
  obtain s2 d2 where fin: "finalize_segment X meta ?s0 d1 = ((s2, d2), Inr ())" "store_ok X d2 s2 (ess @ [out])"
    "ss_readers s2 = ss_readers s @ [r]"
    using finalize_ok [OF ok0 fit w(5,2,3,4)] lt new by (auto simp: segment_ids_def)
  have add: "add_segment X meta (ss_manifest s) d1 = ((ss_manifest s2, d2), Inr ())"
    using finalize_add [OF fin(1)] by simp
  obtain m3 d3 where rm: "remove_segments X ids (ss_manifest s2) d2 = ((m3, d3), Inr ())"
    using remove_segments_ok [OF assms(7)] by blast
  have "i \<notin> set ids" using new assms(5) by blast
  then have "other_runs ids s2 (ess @ [out]) = other_runs ids s ess @ [out]"
    using list_all2_lengthD [OF store_okD(3) [OF assms(4)]] w(4)
    by (simp add: other_runs_def segment_ids_def fin(3))
  with remove_from_store_ok [OF fin(2) rm]
  have ok3: "store_ok X (fold delete_segment_files ids d3)
      (s2\<lparr>ss_manifest := m3, ss_readers := filter (\<lambda>r. sr_segment_id r \<notin> set ids) (ss_readers s2)\<rparr>)
      (other_runs ids s ess @ [out])" by simp
  have "sort_key fst out = out"
    unfolding assms(10) by (rule sort_key_id_if_sorted) (intro strict_sorted_imp_sorted ksorted_filter assms(9))
  then have "\<exists>stats'. compact_partial_cohort X clock C cohort now i stats (ss_manifest s) d =
      ((m3, fold delete_segment_files ids d3), Inr stats')"
    using w(1) add rm False assms(6,8) unfolding compact_partial_cohort_def
    by (simp add: Let_def flip: assms(10))
  with ok3 False show ?thesis
    by (intro exI [of _ "fold delete_segment_files ids d3"] exI [of _ "s2\<lparr>ss_manifest := m3,
        ss_readers := filter (\<lambda>r. sr_segment_id r \<notin> set ids) (ss_readers s2)\<rparr>"]) simp
qed

lemma compact_partial_effect:
  assumes "zstd_ok X" "json_ok X" "xor8_ok X" "store_ok X d s ess"
    and "set (ci_segment_ids cohort) \<subseteq> set (segment_ids s)"
    and "\<forall>j \<in> set (ci_segment_ids cohort). entry_ok X (removal j)"
    and "compactable (cohort_versions (ci_segment_ids cohort) s ess)"
    and "lsn_det (cohort_versions (ci_segment_ids cohort) s ess)"
    and "\<forall>j \<in> set (segment_ids s). j < i" "i + 1 \<noteq> 0"
  shows "\<exists>out. ksorted out \<and>
     (\<forall>k e. (k, e) \<in> set out \<longleftrightarrow> newest (cohort_versions (ci_segment_ids cohort) s ess) k e \<and> e_op e = Put \<and>
        sint now < sint (death_time_for (e_timestamp e) (e_ttl e) (cp_cohort_window_secs C))) \<and>
     ((out \<noteq> [] \<longrightarrow> flushable X (cp_cohort_window_secs C) out \<and>
        (\<forall>meta d1. SegmentWriter_flush X i (cp_cohort_window_secs C) (clock i) out d = Inr (meta, d1) \<longrightarrow>
           entry_ok X (addition meta))) \<longrightarrow>
      (\<exists>m' d' stats' s'. compact_partial_cohort X clock C cohort now i stats (ss_manifest s) d = ((m', d'), Inr stats') \<and>
         SegmentStore_open X window d' = Inr (s', d') \<and>
         (\<forall>k. SegmentStore_get X d' s' k = Inr (case map_of out k of Some e \<Rightarrow> Some e
            | None \<Rightarrow> map_of (concat (rev (other_runs (ci_segment_ids cohort) s ess))) k))))"
proof -
  let ?ids = "ci_segment_ids cohort"
  obtain merged where m: "merge_cohort X d ?ids [] = Inr merged" "ksorted merged"
    "\<forall>k e. (k, e) \<in> set merged \<longleftrightarrow> newest (cohort_versions ?ids s ess) k e"
    using compact_survivors [OF assms(1,4,5,7,8)] by blast
  define out where "out = filter (\<lambda>(k, e). survives (cp_cohort_window_secs C) now e) merged"
  have op: "e_op e \<noteq> Delete \<longleftrightarrow> e_op e = Put" for e :: MemEntry by (cases "e_op e") auto
  have mem: "(k, e) \<in> set out \<longleftrightarrow> newest (cohort_versions ?ids s ess) k e \<and> e_op e = Put \<and>
      sint now < sint (death_time_for (e_timestamp e) (e_ttl e) (cp_cohort_window_secs C))" for k e
    using m(3) op [of e] by (auto simp: out_def survives_def)
  have "\<exists>m' d' stats' s'. compact_partial_cohort X clock C cohort now i stats (ss_manifest s) d = ((m', d'), Inr stats') \<and>
         SegmentStore_open X window d' = Inr (s', d') \<and>
         (\<forall>k. SegmentStore_get X d' s' k = Inr (case map_of out k of Some e \<Rightarrow> Some e
            | None \<Rightarrow> map_of (concat (rev (other_runs ?ids s ess))) k))"
    if fit: "out \<noteq> [] \<longrightarrow> flushable X (cp_cohort_window_secs C) out \<and>
        (\<forall>meta d1. SegmentWriter_flush X i (cp_cohort_window_secs C) (clock i) out d = Inr (meta, d1) \<longrightarrow>
           entry_ok X (addition meta))"
  proof -
    obtain d' s1 stats' where c: "compact_partial_cohort X clock C cohort now i stats (ss_manifest s) d =
        ((ss_manifest s1, d'), Inr stats')"
      "store_ok X d' s1 (other_runs ?ids s ess @ (if out = [] then [] else [out]))"
      using compact_partial_cohort_ok [OF assms(1-5) refl assms(6) m(1,2) out_def assms(9,10), of clock stats] fit
      by blast
    obtain s' where s': "SegmentStore_open X window d' = Inr (s', d')"
      "store_ok X d' s' (other_runs ?ids s ess @ (if out = [] then [] else [out]))"
      using store_reopen [OF assms(2) c(2)] by blast
    have "SegmentStore_get X d' s' k = Inr (map_of (concat (rev (other_runs ?ids s ess @ (if out = [] then [] else [out])))) k)"
      for k by (rule store_get [OF assms(1)]) (use s'(2) in \<open>unfold store_ok_def, blast\<close>)
    then show ?thesis using c(1) s'(1) by (auto simp: map_add_def split: option.split)
  qed
  moreover have "ksorted out" unfolding out_def by (rule ksorted_filter [OF m(2)])
  ultimately show ?thesis using mem by blast
qed

section \<open>A store with two segments\<close>

lemma flush_meta_of:
  "SegmentWriter_flush X i window now es d = Inr (meta, d') \<Longrightarrow>
   \<exists>dat c u cb. meta = segment_meta_of X i window now es dat c u cb"
  by (auto simp: SegmentWriter_flush_def Let_def and_then_Inr_iff split: if_splits)

lemma length_put_list [simp]: "length (put_list bs) = 2 * length bs + 1"
  by (induction bs) (simp_all add: put_list_def)

lemma sample_flush_fits:
  assumes "SegmentWriter_flush sample_ext i window now es d = Inr (meta, d')"
    and "length (fst (hd es)) < 1000" "length (fst (last es)) < 1000"
  shows "entry_ok sample_ext (addition meta)"
proof -
  obtain dat c u cb where "meta = segment_meta_of sample_ext i window now es dat c u cb"
    using flush_meta_of [OF assms(1)] by blast
  then have "length (put_meta meta) \<le> 10000"
    using assms(2,3)
    by (simp add: put_meta_def put_string_def put_bool_def segment_meta_of_def merkle_root_of_keys_def sample_ext_def)
  then show ?thesis by (simp add: entry_ok_def addition_def sample_ext_def put_entry_def put_bool_def)
qed

lemma sample_flushable2: "flushable sample_ext 3600 sample_run2"
  by (simp add: flushable_def sample_run2_def sample_entry_small build_xor_filter_def sample_ext_def)

lemma sample_flush_store:
  assumes "store_ok sample_ext d s ess" "flushable sample_ext (ss_cohort_window_secs s) es"
    and "ss_next_segment_id s + 1 \<noteq> 0" "length (fst (hd es)) < 1000" "length (fst (last es)) < 1000"
  shows "\<exists>d' s'. store_ok sample_ext d' s' (ess @ [es]) \<and>
     ss_next_segment_id s' = ss_next_segment_id s + 1 \<and> ss_cohort_window_secs s' = ss_cohort_window_secs s \<and>
     segment_ids s' = segment_ids s @ [ss_next_segment_id s]"
proof -
  obtain s1 work meta d1 where 1: "prepare_flush es s = (s1, Some work)"
    "FlushWork_execute sample_ext 0 work d = Inr (meta, d1)" "fw_entries work = es"
    "m_segment_id meta = ss_next_segment_id s"
    "entry_ok sample_ext (addition meta) \<longrightarrow>
       (\<exists>s' d2. finalize_segment sample_ext meta s1 d1 = ((s', d2), Inr ()) \<and> store_ok sample_ext d2 s' (ess @ [es]) \<and>
          ss_next_segment_id s' = ss_next_segment_id s + 1 \<and> ss_cohort_window_secs s' = ss_cohort_window_secs s)"
    using flush_ok [OF sample_laws(2,5,4) assms(1-3), of 0] by blast
  have "entry_ok sample_ext (addition meta)"
    using 1(2,3) assms(4,5) sample_flush_fits unfolding FlushWork_execute_def by blast
  with 1(5) obtain s' d2 where s': "finalize_segment sample_ext meta s1 d1 = ((s', d2), Inr ())"
    "store_ok sample_ext d2 s' (ess @ [es])" "ss_next_segment_id s' = ss_next_segment_id s + 1"
    "ss_cohort_window_secs s' = ss_cohort_window_secs s" by blast
  have "mf_segments (ss_manifest s1) = mf_segments (ss_manifest s)"
    using 1(1) by (auto simp: prepare_flush_def Let_def split: if_splits)
  moreover have "mf_segments (ss_manifest s') = mf_segments (ss_manifest s1) @ [meta]"
    using finalize_add [OF s'(1)] by (auto simp: add_segment_def split: sum.splits dest!: sym [of _ "ss_manifest s'"])
  ultimately have "segment_ids s' = segment_ids s @ [ss_next_segment_id s]"
    using store_okD(5) [OF s'(2)] store_okD(5) [OF assms(1)] 1(4) by simp
  with s'(2-4) show ?thesis by blast
qed

lemma sample_store_ok:
  "\<exists>d s. store_ok sample_ext d s [sample_run, sample_run2] \<and> segment_ids s = [0, 1] \<and>
     ss_next_segment_id s = 2 \<and> ss_cohort_window_secs s = 3600"
proof -
  obtain d1 s1 where 1: "store_ok sample_ext d1 s1 [sample_run]" "ss_next_segment_id s1 = 1"
    "ss_cohort_window_secs s1 = 3600" "segment_ids s1 = [0]"
    using sample_flush_store [OF new_store_ok, of sample_run] sample_flushable
    by (auto simp: new_store_def segment_ids_def sample_run_def sample_entry_def)
  then obtain d2 s2 where "store_ok sample_ext d2 s2 [sample_run, sample_run2]" "ss_next_segment_id s2 = 2"
    "ss_cohort_window_secs s2 = 3600" "segment_ids s2 = [0, 1]"
    using sample_flush_store [OF 1(1), of sample_run2] sample_flushable2
    by (auto simp: sample_run2_def sample_entry_def)
  then show ?thesis by blast
qed

lemma sample_other_runs:
  assumes "segment_ids s = [0, 1]"
  shows "other_runs [1] s [sample_run, sample_run2] = [sample_run]"
    "cohort_versions [1] s [sample_run, sample_run2] = set sample_run2"
  by (simp_all add: other_runs_def cohort_versions_def assms)

lemma newest_run: "ksorted es \<Longrightarrow> newest (set es) k e \<longleftrightarrow> (k, e) \<in> set es"
  unfolding newest_def by (metis ksorted_map_of option.inject order_refl)

lemma sample_run2_sorted: "ksorted sample_run2"
  by (simp add: sample_run2_def sample_entry_def sample_tombstone_def)

lemma below_range_end: "b < 255 \<Longrightarrow> b # bs < compaction_range_end"
  using replicate_Suc [of 255 "255 :: byte"] by (simp add: compaction_range_end_def)

lemma sample_compactable: "compactable (set sample_run2)" "lsn_det (set sample_run2)"
  by (auto simp: compactable_def lsn_det_def sample_run2_def sample_entry_def sample_tombstone_def
        intro!: below_range_end)

definition sample_cohort :: CohortInfo where
  "sample_cohort = \<lparr> ci_cohort_bucket = 0, ci_segment_ids = [1], ci_max_death_time_nanos = 0,
     ci_total_records = 4, ci_dead_record_estimate = 0, ci_is_fully_expired = False \<rparr>"

definition sample_compactor :: Compactor where
  "sample_compactor = \<lparr> cp_write_budget_bytes = 1000000, cp_cohort_window_secs = 3600 \<rparr>"

text \<open>
  Compacting a cohort keeps exactly what is live in it. From the versions its segments hold,
  the output segment gets the newest version of every key that is a put and whose death time
  has not come; after the rewrite, a store opened from the files answers every lookup from the
  output if the key is in it and from the segments outside the cohort otherwise. (The output
  has to be a list the segment writer can write and the manifest can register.)
\<close>

theorem compact_partial_cohort_effect:
  assumes "zstd_ok X" "json_ok X" "xor8_ok X" "store_ok X d s ess"
    and "set (ci_segment_ids cohort) \<subseteq> set (segment_ids s)"
    and "\<forall>j \<in> set (ci_segment_ids cohort). entry_ok X (removal j)"
    and "compactable (cohort_versions (ci_segment_ids cohort) s ess)"
    and "lsn_det (cohort_versions (ci_segment_ids cohort) s ess)"
    and "\<forall>j \<in> set (segment_ids s). j < i" "i + 1 \<noteq> 0"
  shows "\<exists>out. ksorted out \<and>
     (\<forall>k e. (k, e) \<in> set out \<longleftrightarrow> newest (cohort_versions (ci_segment_ids cohort) s ess) k e \<and> e_op e = Put \<and>
        sint now < sint (death_time_for (e_timestamp e) (e_ttl e) (cp_cohort_window_secs C))) \<and>
     ((out \<noteq> [] \<longrightarrow> flushable X (cp_cohort_window_secs C) out \<and>
        (\<forall>meta d1. SegmentWriter_flush X i (cp_cohort_window_secs C) (clock i) out d = Inr (meta, d1) \<longrightarrow>
           entry_ok X (addition meta))) \<longrightarrow>
      (\<exists>m' d' stats' s'. compact_partial_cohort X clock C cohort now i stats (ss_manifest s) d = ((m', d'), Inr stats') \<and>
         SegmentStore_open X window d' = Inr (s', d') \<and>
         (\<forall>k. SegmentStore_get X d' s' k = Inr (case map_of out k of Some e \<Rightarrow> Some e
            | None \<Rightarrow> map_of (concat (rev (other_runs (ci_segment_ids cohort) s ess))) k))))"
  using assms by (rule compact_partial_effect)

theorem compact_partial_cohort_effect_witness:
  "\<exists>d s out. store_ok sample_ext d s [sample_run, sample_run2] \<and> ksorted out \<and>
     (\<forall>k e. (k, e) \<in> set out \<longleftrightarrow> newest (set sample_run2) k e \<and> e_op e = Put \<and>
        sint (0 :: i64) < sint (death_time_for (e_timestamp e) (e_ttl e) 3600))"
proof -
  obtain d s where s: "store_ok sample_ext d s [sample_run, sample_run2]" "segment_ids s = [0, 1]"
    using sample_store_ok by blast
  have ids: "ci_segment_ids sample_cohort = [1]" by (simp add: sample_cohort_def)
  from compact_partial_cohort_effect [OF sample_laws(2,5,4) s(1), where cohort = sample_cohort and i = 2
      and now = 0 and C = sample_compactor and clock = "\<lambda>i. 0" and stats = CompactionStats_default and window = 3600]
  obtain out where "ksorted out" "\<forall>k e. (k, e) \<in> set out \<longleftrightarrow> newest (set sample_run2) k e \<and> e_op e = Put \<and>
        sint (0 :: i64) < sint (death_time_for (e_timestamp e) (e_ttl e) 3600)"
    unfolding ids sample_other_runs [OF s(2)]
    using sample_compactable s(2) sample_entry_ok(2) by (auto simp: sample_compactor_def)
  with s(1) show ?thesis by blast
qed

text \<open>
  C31: Compaction brings deleted keys back. The rewrite drops every tombstone of the cohort, also
  when a segment of another cohort still holds an older version of the key. In a store whose
  second segment deletes key \<open>[3, 0]\<close> of the first, the key is deleted before and has its old
  value after the second segment's cohort was compacted and the store opened again.
\<close>

theorem compaction_revives_deleted_key:
  "\<exists>d s e d' m' stats' s' e'. store_ok sample_ext d s [sample_run, sample_run2] \<and>
     SegmentStore_get sample_ext d s [3, 0] = Inr (Some e) \<and> e_op e = Delete \<and>
     compact_partial_cohort sample_ext (\<lambda>i. 0) sample_compactor sample_cohort 0 2 CompactionStats_default
       (ss_manifest s) d = ((m', d'), Inr stats') \<and>
     SegmentStore_open sample_ext 3600 d' = Inr (s', d') \<and>
     SegmentStore_get sample_ext d' s' [3, 0] = Inr (Some e') \<and> e_op e' = Put \<and> e_lsn e' < e_lsn e"
proof -
  let ?live = "[sample_entry [1] 11 4, sample_entry [2] 20 5, sample_entry [4] 40 7]"
  have fl: "flushable sample_ext 3600 ?live"
    by (simp add: flushable_def sample_entry_small build_xor_filter_def sample_ext_def)
  have alive: "sint (0 :: i64) < sint (death_time_for 1700000000000000000 0 3600)" by code_simp
  obtain d s where s: "store_ok sample_ext d s [sample_run, sample_run2]" "segment_ids s = [0, 1]"
    using sample_store_ok by blast
  have ids: "ci_segment_ids sample_cohort = [1]" by (simp add: sample_cohort_def)
  from compact_partial_effect [OF sample_laws(2,5,4) s(1), where cohort = sample_cohort and i = 2
      and now = 0 and C = sample_compactor and clock = "\<lambda>i. 0" and stats = CompactionStats_default and window = 3600]
  obtain out where out: "ksorted out" "\<forall>k e. (k, e) \<in> set out \<longleftrightarrow> newest (set sample_run2) k e \<and> e_op e = Put \<and>
        sint (0 :: i64) < sint (death_time_for (e_timestamp e) (e_ttl e) 3600)"
    and eff: "(out \<noteq> [] \<longrightarrow> flushable sample_ext 3600 out \<and>
        (\<forall>meta d1. SegmentWriter_flush sample_ext 2 3600 0 out d = Inr (meta, d1) \<longrightarrow> entry_ok sample_ext (addition meta))) \<longrightarrow>
      (\<exists>m' d' stats' s'. compact_partial_cohort sample_ext (\<lambda>i. 0) sample_compactor sample_cohort 0 2
           CompactionStats_default (ss_manifest s) d = ((m', d'), Inr stats') \<and>
         SegmentStore_open sample_ext 3600 d' = Inr (s', d') \<and>
         (\<forall>k. SegmentStore_get sample_ext d' s' k = Inr (case map_of out k of Some e \<Rightarrow> Some e
            | None \<Rightarrow> map_of (concat (rev [sample_run])) k)))"
    unfolding ids sample_other_runs [OF s(2)]
    using sample_compactable s(2) sample_entry_ok(2) by (auto simp: sample_compactor_def)
  have "set out = set ?live"
  proof (rule set_eqI, clarify)
    fix k e
    have "newest (set sample_run2) k e \<and> e_op e = Put \<longleftrightarrow> (k, e) \<in> set ?live"
      unfolding newest_run [OF sample_run2_sorted]
      by (auto simp: sample_run2_def sample_entry_def sample_tombstone_def)
    moreover have "(k, e) \<in> set ?live \<Longrightarrow> sint (0 :: i64) < sint (death_time_for (e_timestamp e) (e_ttl e) 3600)"
      using alive by (auto simp: sample_entry_def)
    ultimately show "(k, e) \<in> set out \<longleftrightarrow> (k, e) \<in> set ?live" using out(2) by blast
  qed
  then have "out = ?live" by (intro ksorted_set_unique out(1)) (auto simp: sample_entry_def)
  note out_eq = this
  have "entry_ok sample_ext (addition meta)" if "SegmentWriter_flush sample_ext 2 3600 0 ?live d = Inr (meta, d1)"
    for meta d1 using that by (rule sample_flush_fits) (simp_all add: sample_entry_def)
  with fl have "?live \<noteq> [] \<longrightarrow> flushable sample_ext 3600 ?live \<and>
      (\<forall>meta d1. SegmentWriter_flush sample_ext 2 3600 0 ?live d = Inr (meta, d1) \<longrightarrow> entry_ok sample_ext (addition meta))"
    by blast
  from eff [unfolded out_eq, THEN mp, OF this] obtain m' d' stats' s' where
    c: "compact_partial_cohort sample_ext (\<lambda>i. 0) sample_compactor sample_cohort 0 2
           CompactionStats_default (ss_manifest s) d = ((m', d'), Inr stats')"
      "SegmentStore_open sample_ext 3600 d' = Inr (s', d')"
      "\<forall>k. SegmentStore_get sample_ext d' s' k = Inr (case map_of ?live k of Some e \<Rightarrow> Some e
            | None \<Rightarrow> map_of (concat (rev [sample_run])) k)"
    by blast
  have "SegmentStore_get sample_ext d s [3, 0] = Inr (map_of (concat (rev [sample_run, sample_run2])) [3, 0])"
    by (rule store_get) (use s(1) in \<open>simp_all add: store_ok_def\<close>)
  with s(1) c show ?thesis
    by (intro exI [of _ d] exI [of _ s] exI [of _ d'] exI [of _ m'] exI [of _ stats'] exI [of _ s'] exI conjI)
       (auto simp: sample_run_def sample_run2_def sample_entry_def sample_tombstone_def)
qed

section \<open>Pinned segments\<close>

text \<open>Segment \<open>j\<close> is left as it is: its files and its manifest entries.\<close>

definition keeps_segment :: "SegmentId \<Rightarrow> Manifest \<times> dir \<Rightarrow> Manifest \<times> dir \<Rightarrow> bool" where
  "keeps_segment j st st' \<longleftrightarrow>
     (\<forall>x. fs_read (snd st') (segment_file j x) = fs_read (snd st) (segment_file j x)) \<and>
     mf_path (fst st') = mf_path (fst st) \<and>
     (\<forall>s \<in> set (mf_segments (fst st)). m_segment_id s = j \<longrightarrow> s \<in> set (mf_segments (fst st')))"

lemma keeps_refl [simp]: "keeps_segment j st st"
  by (simp add: keeps_segment_def)

lemma keeps_trans: "keeps_segment j a b \<Longrightarrow> keeps_segment j b c \<Longrightarrow> keeps_segment j a c"
  by (simp add: keeps_segment_def)

lemma flush_frame:
  "SegmentWriter_flush X i window now es d = Inr (meta, d') \<Longrightarrow> (\<forall>x. p \<noteq> segment_file i x) \<Longrightarrow>
   fs_read d' p = fs_read d p"
  by (auto simp: SegmentWriter_flush_def write_dat_and_index_def write_xf_file_def write_idx_file_def Let_def
        and_then_Inr_iff split: if_splits)

lemma keeps_delete:
  "j \<notin> set ids \<Longrightarrow> keeps_segment j (m, d) (m, fold delete_segment_files ids d)"
  by (auto simp: keeps_segment_def intro!: delete_files_frame)

lemma keeps_remove:
  assumes "remove_segments X ids m d = (st, r)" "mf_path m = manifest_path" "j \<notin> set ids"
  shows "keeps_segment j (m, d) st"
proof -
  obtain m' d' where "st = (m', d')" by (cases st)
  with remove_segments_frame [of X ids m d m' d' r] assms show ?thesis by (auto simp: keeps_segment_def)
qed

lemma keeps_add:
  "add_segment X meta m d = (st, r) \<Longrightarrow> mf_path m = manifest_path \<Longrightarrow> keeps_segment j (m, d) st"
  by (auto simp: add_segment_def keeps_segment_def write_framed_frame split: sum.splits)

lemma keeps_collect:
  assumes "collect_expired_cohort X cohort stats m d = (st, r)" "mf_path m = manifest_path"
    and "j \<notin> set (ci_segment_ids cohort)"
  shows "keeps_segment j (m, d) st"
proof -
  obtain m1 d1 q where rm: "remove_segments X (ci_segment_ids cohort) m d = ((m1, d1), q)"
    by (metis prod.exhaust)
  have k: "keeps_segment j (m, d) (m1, d1)" by (rule keeps_remove [OF rm assms(2,3)])
  from rm assms(1) show ?thesis
    by (cases q) (auto simp: collect_expired_cohort_def intro: k keeps_trans [OF k keeps_delete [OF assms(3)]])
qed

lemma keeps_partial:
  assumes "compact_partial_cohort X clock C cohort now i stats m d = (st, r)" "mf_path m = manifest_path"
    and "j \<notin> set (ci_segment_ids cohort)" "j \<noteq> i"
  shows "keeps_segment j (m, d) st"
proof (cases "merge_cohort X d (ci_segment_ids cohort) []")
  case (Inl e)
  with assms(1) show ?thesis by (auto simp: compact_partial_cohort_def)
next
  case (Inr merged)
  let ?ids = "ci_segment_ids cohort"
  let ?sv = "filter (\<lambda>(k, entry). survives (cp_cohort_window_secs C) now entry) merged"
  let ?fl = "SegmentWriter_flush X i (cp_cohort_window_secs C) (clock i) (sort_key fst ?sv) d"
  consider (none) "?sv = []" | (fail) e where "?sv \<noteq> []" "?fl = Inl e"
    | (ok) meta d1 where "?sv \<noteq> []" "?fl = Inr (meta, d1)" by (cases ?fl) auto
  then show ?thesis
  proof cases
    case none
    with assms Inr keeps_collect show ?thesis by (auto simp: compact_partial_cohort_def Let_def)
  next
    case fail
    with assms(1) Inr show ?thesis by (auto simp: compact_partial_cohort_def Let_def)
  next
    case ok
    have "keeps_segment j (m, d) (m, d1)"
      using flush_frame [OF ok(2)] assms(4) by (simp add: keeps_segment_def)
    moreover obtain m2 d2 q2 where add: "add_segment X meta m d1 = ((m2, d2), q2)" by (metis prod.exhaust)
    ultimately have k2: "keeps_segment j (m, d) (m2, d2)" and p2: "mf_path m2 = manifest_path"
      using keeps_add [OF add assms(2), of j] keeps_trans assms(2) by (auto simp: keeps_segment_def)
    obtain m3 d3 q3 where rm: "remove_segments X ?ids m2 d2 = ((m3, d3), q3)" by (metis prod.exhaust)
    have k3: "keeps_segment j (m, d) (m3, d3)" by (rule keeps_trans [OF k2 keeps_remove [OF rm p2 assms(3)]])
    from k2 k3 keeps_trans [OF k3 keeps_delete [OF assms(3)]] assms(1) Inr ok add rm show ?thesis
      by (auto simp: compact_partial_cohort_def Let_def split: sum.splits)
  qed
qed

lemma keeps_cohorts:
  assumes "compact_cohorts X clock C now pinned cohorts i stats m d = (st, r)" "mf_path m = manifest_path"
    and "j \<in> pinned" "j < i" "unat i + length cohorts < 2 ^ 64"
  shows "keeps_segment j (m, d) st"
  using assms
proof (induction cohorts arbitrary: i stats m d)
  case (Cons cohort cohorts)
  have here: "keeps_segment j (m, d) st"
    if step: "keeps_segment j (m, d) (m1, d1)" and rest: "compact_cohorts X clock C now pinned cohorts i' stats1 m1 d1 = (st, r)"
      and i': "i' = i \<or> i' = i + 1" for m1 d1 i' stats1
  proof -
    have "unat (i + 1) = unat i + 1" using Cons.prems(5) by (simp add: unat_word_ariths)
    then have "j < i'" "unat i' + length cohorts < 2 ^ 64"
      using i' Cons.prems(4,5) by (auto simp: word_less_nat_alt)
    moreover have "mf_path m1 = manifest_path" using step Cons.prems(2) by (simp add: keeps_segment_def)
    ultimately show ?thesis using Cons.IH [OF rest _ Cons.prems(3)] keeps_trans [OF step] by blast
  qed
  show ?case
  proof (cases "cs_bytes_written stats \<ge> cp_write_budget_bytes C \<or> list_ex (\<lambda>i. i \<in> pinned) (ci_segment_ids cohort)")
    case True
    with Cons.prems(1) here [OF keeps_refl] show ?thesis by (auto split: if_splits)
  next
    case False
    then have j: "j \<notin> set (ci_segment_ids cohort)" using Cons.prems(3) by (auto simp: list_ex_iff)
    let ?c = "collect_expired_cohort X cohort stats m d"
    let ?p = "compact_partial_cohort X clock C cohort now i stats m d"
    have c: "keeps_segment j (m, d) (fst ?c)"
      using keeps_collect [OF _ Cons.prems(2) j, of X stats d "fst ?c" "snd ?c"] by simp
    have p: "keeps_segment j (m, d) (fst ?p)"
      using keeps_partial [OF _ Cons.prems(2) j, of X clock C now i stats d "fst ?p" "snd ?p"] Cons.prems(4) by simp
    show ?thesis
    proof (cases "ci_is_fully_expired cohort")
      case True
      with Cons.prems(1) False c show ?thesis by (auto split: prod.splits sum.splits intro: here)
    next
      case expired: False
      with Cons.prems(1) False p show ?thesis by (auto split: prod.splits sum.splits intro: here)
    qed
  qed
qed simp

lemma max_segment_id_ge: "s \<in> set segs \<Longrightarrow> m_segment_id s \<le> max_segment_id segs"
proof -
  have "a \<le> fold (\<lambda>s a. max (m_segment_id s) a) segs a \<and>
      (\<forall>s \<in> set segs. m_segment_id s \<le> fold (\<lambda>s a. max (m_segment_id s) a) segs a)" for a
  proof (induction segs arbitrary: a)
    case (Cons s segs)
    from Cons [of "max (m_segment_id s) a"] show ?case by (auto simp: max.bounded_iff)
  qed simp
  then show "s \<in> set segs \<Longrightarrow> m_segment_id s \<le> max_segment_id segs" by (simp add: max_segment_id_def)
qed

lemma length_identify_cohorts:
  assumes "hash_order_ok h"
  shows "length (identify_cohorts h segs now) \<le> length segs"
proof -
  let ?bs = "remdups (map m_cohort_bucket segs)"
  have "set (h ?bs) = set ?bs" "distinct (h ?bs)" using assms by (simp_all add: hash_order_ok_def)
  then have "length (h ?bs) = length ?bs" by (metis distinct_card distinct_remdups)
  also have "\<dots> \<le> length segs" using length_remdups_leq [of "map m_cohort_bucket segs"] by simp
  finally show ?thesis by (simp add: identify_cohorts_def)
qed

lemma keeps_cycle:
  assumes "hash_order_ok h" "compact_cycle X clock h C now pinned m d = (st, r)" "mf_path m = manifest_path"
    and "j \<in> pinned" "j \<in> m_segment_id ` set (mf_segments m)"
    and "unat (max_segment_id (mf_segments m)) + length (mf_segments m) + 1 < 2 ^ 64"
  shows "keeps_segment j (m, d) st"
proof -
  let ?segs = "filter (\<lambda>s. m_segment_id s \<notin> pinned) (mf_segments m)"
  let ?i = "max_segment_id (mf_segments m) + 1"
  have i: "unat ?i = unat (max_segment_id (mf_segments m)) + 1" using assms(6) by (simp add: unat_word_ariths)
  have "j \<le> max_segment_id (mf_segments m)" using assms(5) max_segment_id_ge by auto
  then have "j < ?i" using i by (simp add: word_less_nat_alt word_le_nat_alt)
  moreover have "unat ?i + length (identify_cohorts h ?segs now) < 2 ^ 64"
  proof -
    have "length (identify_cohorts h ?segs now) \<le> length (mf_segments m)"
      by (rule order_trans [OF length_identify_cohorts [OF assms(1)] length_filter_le])
    then show ?thesis using assms(6) i by linarith
  qed
  ultimately show ?thesis
    using assms(2-4) keeps_cohorts by (auto simp: compact_cycle_def list_segments_def Let_def)
qed

lemma reader_frame:
  assumes "fs_read d' (dat_path (sr_segment_id r)) = fs_read d (dat_path (sr_segment_id r))"
  shows "SegmentReader_get X d' r k = SegmentReader_get X d r k"
    "SegmentReader_range_scan X d' r lo hi = SegmentReader_range_scan X d r lo hi"
  using assms by (simp_all add: SegmentReader_get_def SegmentReader_range_scan_def)

text \<open>
  C9: Compaction never disturbs a snapshot. Whatever a compaction cycle does and whether it
  succeeds or stops at an error, as long as the segments of a snapshot are pinned, are listed
  in the manifest and segment ids do not run out, the snapshot answers every lookup and every
  scan from the directory after the cycle as it did before, and its segments stay listed.
\<close>

theorem compaction_keeps_snapshots:
  assumes "hash_order_ok h" "compact_cycle X clock h C now (pinned_ids g) m d = ((m', d'), r)"
    and "mf_path m = manifest_path" "(sn_snapshot_id sn, map sr_segment_id (sn_readers sn)) \<in> set (sg_pinned g)"
    and "set (map sr_segment_id (sn_readers sn)) \<subseteq> m_segment_id ` set (mf_segments m)"
    and "unat (max_segment_id (mf_segments m)) + length (mf_segments m) + 1 < 2 ^ 64"
  shows "Snapshot_get X d' sn ns key = Snapshot_get X d sn ns key \<and>
     Snapshot_range X d' sn ns lo hi = Snapshot_range X d sn ns lo hi \<and>
     set (map sr_segment_id (sn_readers sn)) \<subseteq> m_segment_id ` set (mf_segments m')"
proof -
  have keep: "keeps_segment (sr_segment_id q) (m, d) (m', d')" if "q \<in> set (sn_readers sn)" for q
  proof (rule keeps_cycle [OF assms(1-3)])
    show "sr_segment_id q \<in> pinned_ids g" using assms(4) that by (force simp: pinned_ids_def)
    show "sr_segment_id q \<in> m_segment_id ` set (mf_segments m)" using assms(5) that by auto
  qed (use assms(6) in simp)
  have frame: "\<forall>q \<in> set (sn_readers sn). fs_read d' (dat_path (sr_segment_id q)) = fs_read d (dat_path (sr_segment_id q))"
    using keep by (simp add: keeps_segment_def)
  have "sr_segment_id q \<in> m_segment_id ` set (mf_segments m')" if q: "q \<in> set (sn_readers sn)" for q
    using keep [OF q] assms(5) q by (force simp: keeps_segment_def)
  moreover have "best_entry (SegmentReader_get X d') k (sn_readers sn) b =
      best_entry (SegmentReader_get X d) k (sn_readers sn) b" for k b
    by (intro best_entry_cong ballI reader_frame) (use frame in blast)
  moreover have "merge_readers (SegmentReader_range_scan X d') l u (sn_readers sn) =
      merge_readers (SegmentReader_range_scan X d) l u (sn_readers sn)" for l u
    by (intro merge_readers_cong ballI reader_frame) (use frame in blast)
  ultimately show ?thesis by (auto simp: Snapshot_get_def Snapshot_range_def)
qed

theorem compaction_keeps_snapshots_witness:
  "\<exists>d s m' d' r. store_ok sample_ext d s [sample_run, sample_run2] \<and>
     compact_cycle sample_ext (\<lambda>i. 0) rev sample_compactor 0 {0, 1} (ss_manifest s) d = ((m', d'), r) \<and>
     Snapshot_get sample_ext d' \<lparr> sn_snapshot_id = 1, sn_readers = ss_readers s \<rparr> [110] [1] =
       Snapshot_get sample_ext d \<lparr> sn_snapshot_id = 1, sn_readers = ss_readers s \<rparr> [110] [1]"
proof -
  obtain d s where s: "store_ok sample_ext d s [sample_run, sample_run2]" "segment_ids s = [0, 1]"
    using sample_store_ok by blast
  let ?sn = "\<lparr> sn_snapshot_id = 1, sn_readers = ss_readers s \<rparr>"
  let ?g = "\<lparr> sg_next_id = 2, sg_pinned = [(1, [0, 1])] \<rparr>"
  have ids: "map m_segment_id (mf_segments (ss_manifest s)) = [0, 1]" "map sr_segment_id (ss_readers s) = [0, 1]"
    using store_okD(5) [OF s(1)] s(2) by (simp_all add: segment_ids_def)
  then obtain a b where ab: "mf_segments (ss_manifest s) = [a, b]" "m_segment_id a = 0" "m_segment_id b = 1"
    by (auto simp: map_eq_Cons_conv)
  have h: "hash_order_ok rev" by (simp add: hash_order_ok_def)
  have pins: "pinned_ids ?g = {0, 1}" by (simp add: pinned_ids_def)
  obtain m' d' r where c: "compact_cycle sample_ext (\<lambda>i. 0) rev sample_compactor 0 (pinned_ids ?g) (ss_manifest s) d = ((m', d'), r)"
    by (metis prod.exhaust)
  have "Snapshot_get sample_ext d' ?sn [110] [1] = Snapshot_get sample_ext d ?sn [110] [1]"
    using compaction_keeps_snapshots [OF h c store_okD(2) [OF s(1)], of ?sn "[110]" "[1]" "[]" "[]"] ids ab
    by (simp add: max_segment_id_def)
  with s(1) c show ?thesis unfolding pins by blast
qed

end
