(* ===== verification/Engine.thy ===== *)
theory Engine
  imports Recovery Transaction Compactor
begin

text \<open>
  The engine, \<open>edgestore/src/engine/mod.rs\<close>: one writer that owns the write-ahead log, the
  memtable, the segment store and the snapshot registry. An operation takes and returns the
  engine together with the directory; the state is returned also when the operation fails,
  since a log record or a file that was written before the failure stays.

  The memtable is the default of \<open>config.memtable_factory\<close>, \<open>BTreeMemTable\<close>. The times that
  \<open>SystemTime::now\<close> returns during an operation are the fields of its argument \<open>T\<close>. Counters of
  \<open>metrics\<close>, the flush callback and the vector indexes do not influence what is modelled here.
\<close>

section \<open>State\<close>

record Clock =
  ck_nanos :: i64
  ck_secs :: u64
  ck_flush :: i64

record QueryStats =
  segments_scanned :: u32
  bytes_scanned :: u64
  items_examined :: u64

definition QueryStats_default :: QueryStats where
  "QueryStats_default = \<lparr> segments_scanned = 0, bytes_scanned = 0, items_examined = 0 \<rparr>"

record ScanBudget =
  max_items :: "usize option"
  max_bytes :: "u64 option"

record 'a BudgetedScan =
  bs_items :: "'a list"
  bs_truncated :: bool
  bs_stats :: QueryStats

record RangePage =
  rp_items :: "(bytes \<times> bytes) list"
  rp_next_key :: "bytes option"

text \<open>
  The memtable is the ordered list that the trait object shows through \<open>iter\<close>: the operations on it
  are those of \<open>BTreeMemTable\<close>, and those of the default \<open>BBTreeConcurrentMemTable\<close> under
  \<open>bbc_simulates_btree\<close>.
\<close>

record Engine =
  en_config :: EdgestoreConfig
  en_wal :: WalWriter
  en_memtable :: BTreeMemTable
  en_lsn_counter :: u64
  en_txid_counter :: u64
  en_segment_store :: SegmentStore
  en_snapshot_registry :: SnapshotRegistry
  en_write_token :: u64

type_synonym est = "Engine \<times> dir"

text \<open>The \<open>?\<close> operator in a method that changes the engine.\<close>

fun st_then :: "'s \<times> 'a res \<Rightarrow> ('s \<Rightarrow> 'a \<Rightarrow> 's \<times> 'b res) \<Rightarrow> 's \<times> 'b res" where
  "st_then (s, Inl e) f = (s, Inl e)"
| "st_then (s, Inr v) f = f s v"

definition AVG_ENTRY_SIZE_ESTIMATE :: u64 where "AVG_ENTRY_SIZE_ESTIMATE = 256"

section \<open>Opening\<close>

definition wtoken_path :: string where "wtoken_path = ''WTOKEN''"

definition load_write_token_from_path :: "dir \<Rightarrow> u64" where
  "load_write_token_from_path d =
     (case fs_read d wtoken_path of
        Some bs \<Rightarrow> if length bs = 8 then u64_of_le bs else 0
      | None \<Rightarrow> 0)"

definition set_write_token :: "u64 \<Rightarrow> est \<Rightarrow> est" where
  "set_write_token token = (\<lambda>(E, d). (E\<lparr>en_write_token := token\<rparr>, fs_write wtoken_path (u64_le token) d))"

definition open_lock :: "dir \<Rightarrow> dir" where
  "open_lock d = (if fs_exists d ''LOCK'' then d else fs_write ''LOCK'' [] d)"

definition open_wal :: "EdgestoreConfig \<Rightarrow> Clock \<Rightarrow> Lsn \<Rightarrow> dir \<Rightarrow> (WalWriter \<times> dir) res" where
  "open_wal config T lsn_counter d =
     (let wal_files = list_wal_files d
      in if wal_files = [] then WalWriter_create (wal_file_name lsn_counter) config (ck_secs T) d
         else and_then (WalWriter_open (last wal_files) config (ck_secs T) d) (\<lambda>opened.
                if needs_rotation opened (ck_secs T)
                then WalWriter_create (wal_file_name (lsn_counter + 1)) config (ck_secs T) d
                else Inr (opened, d)))"

text \<open>\<open>busy\<close>: another process holds the lock file.\<close>

definition Engine_open :: "ext \<Rightarrow> EdgestoreConfig \<Rightarrow> Clock \<Rightarrow> bool \<Rightarrow> dir \<Rightarrow> est res" where
  "Engine_open X config T busy d0 =
     (let d = open_lock d0
      in if busy then Inl WriterBusy
         else
           and_then (recover_from_wal X d BTreeMemTable_new) (\<lambda>(memtable, result).
           and_then (open_wal config T (rr_max_lsn result) d) (\<lambda>(wal, d1).
           and_then (SegmentStore_open X (cohort_window_secs config) d1) (\<lambda>(segment_store, d2).
             Inr (\<lparr> en_config = config, en_wal = wal, en_memtable = memtable,
                    en_lsn_counter = rr_max_lsn result, en_txid_counter = rr_max_txid result,
                    en_segment_store = segment_store, en_snapshot_registry = registry_new,
                    en_write_token = load_write_token_from_path d2 \<rparr>, d2)))))"

definition Engine_open_readonly :: "ext \<Rightarrow> EdgestoreConfig \<Rightarrow> Clock \<Rightarrow> bool \<Rightarrow> dir \<Rightarrow> est res" where
  "Engine_open_readonly X config T busy d = Engine_open X (config\<lparr>readonly := True\<rparr>) T busy d"

section \<open>Accessors\<close>

definition confirmed_lsn :: "Engine \<Rightarrow> Lsn" where
  "confirmed_lsn E = fold max (map m_max_lsn (list_segment_metas (en_segment_store E))) 0"

definition current_lsn :: "Engine \<Rightarrow> Lsn" where
  "current_lsn E = en_lsn_counter E"

definition wal_segment_count :: "dir \<Rightarrow> usize" where
  "wal_segment_count d = length (list_wal_files d)"

definition pending_wal_bytes :: "Engine \<Rightarrow> u64" where
  "pending_wal_bytes E = w_bytes_written (en_wal E)"

definition write_token :: "Engine \<Rightarrow> u64" where
  "write_token E = en_write_token E"

definition ns_to_slug :: "bytes \<Rightarrow> string" where
  "ns_to_slug ns = map (\<lambda>b.
     if (48 \<le> b \<and> b \<le> 57) \<or> (65 \<le> b \<and> b \<le> 90) \<or> (97 \<le> b \<and> b \<le> 122) \<or> b = 45 \<or> b = 95
     then char_of (unat b) else CHR ''_'') ns"

section \<open>Rotation and flush\<close>

definition rotate_wal_if_needed :: "Clock \<Rightarrow> est \<Rightarrow> est \<times> unit res" where
  "rotate_wal_if_needed T = (\<lambda>(E, d).
     if \<not> needs_rotation (en_wal E) (ck_secs T) then ((E, d), Inr ())
     else case WalWriter_create (wal_file_name (en_lsn_counter E)) (en_config E) (ck_secs T) d of
            Inl e \<Rightarrow> ((E, d), Inl e)
          | Inr (wal, d') \<Rightarrow> ((E\<lparr>en_wal := wal\<rparr>, d'), Inr ()))"

definition begin_flush :: "Engine \<Rightarrow> Engine \<times> FlushWork option" where
  "begin_flush E =
     (if btree_is_empty (en_memtable E) then (E, None)
      else case prepare_flush (en_memtable E) (en_segment_store E) of
             (s, work) \<Rightarrow> (E\<lparr>en_segment_store := s\<rparr>, work))"

definition retire_wal_files :: "string \<Rightarrow> dir \<Rightarrow> dir" where
  "retire_wal_files current d = fold fs_remove (filter (\<lambda>n. n \<noteq> current) (list_wal_files d)) d"

definition finalize_flush :: "ext \<Rightarrow> SegmentMeta \<Rightarrow> u64 \<Rightarrow> est \<Rightarrow> est \<times> unit res" where
  "finalize_flush X meta flushed_max_lsn = (\<lambda>(E, d).
     case finalize_segment X meta (en_segment_store E) d of
       ((s, d1), Inl e) \<Rightarrow> ((E\<lparr>en_segment_store := s\<rparr>, d1), Inl e)
     | ((s, d1), Inr _) \<Rightarrow>
         let remaining = filter (\<lambda>(_, e). e_lsn e > flushed_max_lsn) (btree_iter (en_memtable E));
             memtable = fold (\<lambda>(k, e) t. btree_insert k e t) remaining BTreeMemTable_new
         in ((E\<lparr>en_segment_store := s, en_memtable := memtable\<rparr>,
              retire_wal_files (w_path (en_wal E)) d1), Inr ()))"

definition flush_to_segments :: "ext \<Rightarrow> Clock \<Rightarrow> est \<Rightarrow> est \<times> SegmentMeta res" where
  "flush_to_segments X T = (\<lambda>(E, d).
     case begin_flush E of
       (E1, None) \<Rightarrow> ((E1, d), Inl (SegmentCorrupt ''memtable is empty''))
     | (E1, Some work) \<Rightarrow>
         (case FlushWork_execute X (ck_flush T) work d of
            Inl e \<Rightarrow> ((E1, d), Inl e)
          | Inr (meta, d1) \<Rightarrow>
              st_then (finalize_flush X meta (fw_flushed_max_lsn work) (E1, d1)) (\<lambda>st _. (st, Inr meta))))"

section \<open>Writes\<close>

text \<open>
  As in release builds: the debug assertions of \<open>write_entry\<close>, that the namespace is not empty and
  the LSN does not wrap, are no branches of the model. (\<open>op_ready\<close> asks for both.)
\<close>

definition write_entry :: "ext \<Rightarrow> Clock \<Rightarrow> bytes \<Rightarrow> bytes \<Rightarrow> bytes \<Rightarrow> u32 \<Rightarrow> est \<Rightarrow> est \<times> Lsn res" where
  "write_entry X T ns key val ttl_secs = (\<lambda>(E, d).
     let lsn = en_lsn_counter E + 1;
         timestamp = ck_nanos T;
         record = \<lparr> r_txid = 0, r_lsn = lsn, r_timestamp = timestamp, r_ttl = ttl_secs,
                    r_ns_len = word_of_nat (length ns), r_ns_bytes = ns, r_key_bytes = key, r_op = Put,
                    r_value_hash = blake3 X val, r_value_bytes = val \<rparr>
     in case WalWriter_append X record (en_wal E) d of
          (wal, d1) \<Rightarrow>
            st_then (rotate_wal_if_needed T (E\<lparr>en_lsn_counter := lsn, en_wal := wal\<rparr>, d1)) (\<lambda>(E2, d2) _.
              case encode_key ns key of
                Inl e \<Rightarrow> ((E2, d2), Inl e)
              | Inr encoded_key \<Rightarrow>
                  let entry = \<lparr> e_key = encoded_key, e_value = Some val, e_op = Put, e_lsn = lsn,
                                e_timestamp = timestamp, e_ttl = ttl_secs \<rparr>
                  in ((E2\<lparr>en_memtable := btree_insert encoded_key entry (en_memtable E2)\<rparr>, d2), Inr lsn)))"

definition Engine_put :: "ext \<Rightarrow> Clock \<Rightarrow> bytes \<Rightarrow> bytes \<Rightarrow> bytes \<Rightarrow> est \<Rightarrow> est \<times> Lsn res" where
  "Engine_put X T ns key val = (\<lambda>(E, d).
     if readonly (en_config E) then ((E, d), Inl ReadOnly)
     else if length ns > U16_MAX then ((E, d), Inl (NamespaceTooLong (length ns) U16_MAX))
     else st_then (write_entry X T ns key val 0 (E, d)) (\<lambda>(E1, d1) lsn.
            if word_of_nat (btree_len (en_memtable E1)) * AVG_ENTRY_SIZE_ESTIMATE \<ge> memtable_max_bytes (en_config E1)
            then st_then (flush_to_segments X T (E1, d1)) (\<lambda>st _. (st, Inr lsn))
            else ((E1, d1), Inr lsn)))"

definition Engine_put_with_ttl ::
  "ext \<Rightarrow> Clock \<Rightarrow> bytes \<Rightarrow> bytes \<Rightarrow> bytes \<Rightarrow> u32 \<Rightarrow> est \<Rightarrow> est \<times> Lsn res" where
  "Engine_put_with_ttl X T ns key val ttl_secs = (\<lambda>(E, d).
     if readonly (en_config E) then ((E, d), Inl ReadOnly)
     else if length ns > U16_MAX then ((E, d), Inl (NamespaceTooLong (length ns) U16_MAX))
     else write_entry X T ns key val ttl_secs (E, d))"

definition Engine_delete :: "ext \<Rightarrow> Clock \<Rightarrow> bytes \<Rightarrow> bytes \<Rightarrow> est \<Rightarrow> est \<times> Lsn res" where
  "Engine_delete X T ns key = (\<lambda>(E, d).
     if readonly (en_config E) then ((E, d), Inl ReadOnly)
     else
       let lsn = en_lsn_counter E + 1;
           timestamp = ck_nanos T;
           record = \<lparr> r_txid = 0, r_lsn = lsn, r_timestamp = timestamp, r_ttl = 0,
                      r_ns_len = word_of_nat (length ns), r_ns_bytes = ns, r_key_bytes = key, r_op = Delete,
                      r_value_hash = blake3 X [], r_value_bytes = [] \<rparr>
       in case WalWriter_append X record (en_wal E) d of
            (wal, d1) \<Rightarrow>
              st_then (rotate_wal_if_needed T (E\<lparr>en_lsn_counter := lsn, en_wal := wal\<rparr>, d1)) (\<lambda>(E2, d2) _.
                case encode_key ns key of
                  Inl e \<Rightarrow> ((E2, d2), Inl e)
                | Inr encoded_key \<Rightarrow>
                    let entry = \<lparr> e_key = encoded_key, e_value = None, e_op = Delete, e_lsn = lsn,
                                  e_timestamp = timestamp, e_ttl = 0 \<rparr>
                    in ((E2\<lparr>en_memtable := btree_insert encoded_key entry (en_memtable E2)\<rparr>, d2), Inr lsn)))"

section \<open>Transactions\<close>

definition Engine_begin :: "Engine \<Rightarrow> Engine \<times> Transaction" where
  "Engine_begin E =
     (let txid = en_txid_counter E + 1 in (E\<lparr>en_txid_counter := txid\<rparr>, tx_new txid))"

fun commit_records :: "ext \<Rightarrow> WalRecord list \<Rightarrow> Lsn \<Rightarrow> est \<Rightarrow> est \<times> Lsn res" where
  "commit_records X [] last_lsn st = (st, Inr last_lsn)"
| "commit_records X (record # records) last_lsn (E, d) =
     (let lsn = en_lsn_counter E + 1;
          record = record\<lparr>r_lsn := lsn\<rparr>
      in case WalWriter_append X record (en_wal E) d of
           (wal, d1) \<Rightarrow>
             let E1 = E\<lparr>en_lsn_counter := lsn, en_wal := wal\<rparr>
             in (case encode_key (r_ns_bytes record) (r_key_bytes record) of
                   Inl e \<Rightarrow> ((E1, d1), Inl e)
                 | Inr encoded_key \<Rightarrow>
                     commit_records X records lsn
                       (E1\<lparr>en_memtable := btree_insert encoded_key (record_entry encoded_key record) (en_memtable E1)\<rparr>, d1)))"

definition commit_transaction :: "ext \<Rightarrow> Clock \<Rightarrow> Transaction \<Rightarrow> est \<Rightarrow> est \<times> Lsn res" where
  "commit_transaction X T tx = (\<lambda>(E, d).
     case tx_take_pending tx of
       Inl e \<Rightarrow> ((E, d), Inl e)
     | Inr (records, _) \<Rightarrow>
         st_then (commit_records X records (en_lsn_counter E) (E, d)) (\<lambda>st last_lsn.
         st_then (rotate_wal_if_needed T st) (\<lambda>st _. (st, Inr last_lsn))))"

definition rollback_transaction :: "Transaction \<Rightarrow> est \<Rightarrow> est \<times> Transaction" where
  "rollback_transaction tx st = (st, tx_rollback_self tx)"

section \<open>Compaction and snapshots\<close>

definition compact_once ::
  "ext \<Rightarrow> Clock \<Rightarrow> (SegmentId \<Rightarrow> i64) \<Rightarrow> (i64 list \<Rightarrow> i64 list) \<Rightarrow> est \<Rightarrow> est \<times> CompactionStats res" where
  "compact_once X T clock hash_order = (\<lambda>(E, d).
     let pinned = pinned_ids (en_snapshot_registry E);
         compactor = \<lparr> cp_write_budget_bytes = compaction_write_budget_bytes (en_config E),
                       cp_cohort_window_secs = cohort_window_secs (en_config E) \<rparr>
     in case Manifest_open X manifest_path d of
          Inl e \<Rightarrow> ((E, d), Inl e)
        | Inr (manifest, d1) \<Rightarrow>
            (case compact_cycle X clock hash_order compactor (ck_nanos T) pinned manifest d1 of
               ((m, d2), Inl e) \<Rightarrow> ((E, d2), Inl e)
             | ((m, d2), Inr stats) \<Rightarrow>
                 (case SegmentStore_open X (cohort_window_secs (en_config E)) d2 of
                    Inl e \<Rightarrow> ((E, d2), Inl e)
                  | Inr (s, d3) \<Rightarrow> ((E\<lparr>en_segment_store := s\<rparr>, d3), Inr stats))))"

definition Engine_snapshot :: "Engine \<Rightarrow> Engine \<times> Snapshot" where
  "Engine_snapshot E =
     (let ids = segment_ids (en_segment_store E);
          readers = clone_readers_for ids (en_segment_store E)
      in case registry_register ids (en_snapshot_registry E) of
           (g, sid) \<Rightarrow> (E\<lparr>en_snapshot_registry := g\<rparr>, \<lparr> sn_snapshot_id = sid, sn_readers = readers \<rparr>))"

section \<open>Point reads\<close>

definition Engine_get :: "ext \<Rightarrow> est \<Rightarrow> bytes \<Rightarrow> bytes \<Rightarrow> bytes option res" where
  "Engine_get X = (\<lambda>(E, d) ns key.
     and_then (encode_key ns key) (\<lambda>encoded_key.
       case btree_get (en_memtable E) encoded_key of
         Some entry \<Rightarrow> if e_op entry = Delete then Inr None else Inr (e_value entry)
       | None \<Rightarrow>
           and_then (SegmentStore_get X d (en_segment_store E) encoded_key) (\<lambda>r.
             case r of
               Some entry \<Rightarrow> if e_op entry = Delete then Inr None else Inr (e_value entry)
             | None \<Rightarrow> Inr None)))"

definition Engine_get_with_stats :: "ext \<Rightarrow> est \<Rightarrow> bytes \<Rightarrow> bytes \<Rightarrow> (bytes option \<times> QueryStats) res" where
  "Engine_get_with_stats X = (\<lambda>(E, d) ns key.
     and_then (encode_key ns key) (\<lambda>encoded_key.
     let in_memtable = (btree_get (en_memtable E) encoded_key \<noteq> None)
     in and_then (Engine_get X (E, d) ns key) (\<lambda>val.
          if val = None \<and> \<not> in_memtable then Inr (None, QueryStats_default)
          else
            let bytes = (case val of Some v \<Rightarrow> word_of_nat (length v) | None \<Rightarrow> 0) + word_of_nat (length encoded_key)
            in Inr (val, \<lparr> segments_scanned = (if in_memtable then 0 else 1),
                           bytes_scanned = bytes, items_examined = 1 \<rparr>))))"

definition Engine_get_into :: "ext \<Rightarrow> est \<Rightarrow> bytes \<Rightarrow> bytes \<Rightarrow> bytes \<Rightarrow> (bool \<times> bytes) res" where
  "Engine_get_into X st ns key buf =
     and_then (Engine_get X st ns key) (\<lambda>r. case r of Some val \<Rightarrow> Inr (True, val) | None \<Rightarrow> Inr (False, buf))"

section \<open>Scans\<close>

fun merge_sorted_scans :: "kv list \<Rightarrow> kv list \<Rightarrow> kv list" where
  "merge_sorted_scans [] mem = mem"
| "merge_sorted_scans seg [] = seg"
| "merge_sorted_scans (s # seg) (m # mem) =
     (if fst s \<le> fst m then s # merge_sorted_scans seg (m # mem) else m # merge_sorted_scans (s # seg) mem)"

text \<open>
  One round of the loop of \<open>dedup_filter_scan\<close>: the entries with the key of the first entry are
  consumed and the one with the highest LSN is kept.
\<close>

definition same_key :: "bytes \<Rightarrow> kv \<Rightarrow> bool" where "same_key k = (\<lambda>(k', _). k' = k)"

definition best_of :: "kv list \<Rightarrow> MemEntry \<Rightarrow> MemEntry" where
  "best_of run e = fold (\<lambda>(_, e') best. if e_lsn e' > e_lsn best then e' else best) run e"

definition examine :: "kv \<Rightarrow> QueryStats \<Rightarrow> QueryStats" where
  "examine = (\<lambda>(k, e) stats. stats\<lparr>
     bytes_scanned := bytes_scanned stats + word_of_nat (length k) +
       (case e_value e of Some v \<Rightarrow> word_of_nat (length v) | None \<Rightarrow> 0),
     items_examined := items_examined stats + 1\<rparr>)"

definition over_budget :: "ScanBudget option \<Rightarrow> usize \<Rightarrow> QueryStats \<Rightarrow> bool" where
  "over_budget budget n stats =
     (case budget of
        None \<Rightarrow> False
      | Some b \<Rightarrow>
          (case max_items b of Some m \<Rightarrow> n \<ge> m | None \<Rightarrow> False) \<or>
          (case max_bytes b of Some m \<Rightarrow> bytes_scanned stats \<ge> m | None \<Rightarrow> False))"

function dedup_loop ::
  "ScanBudget option \<Rightarrow> kv list \<Rightarrow> (bytes \<times> bytes) list \<Rightarrow> QueryStats \<Rightarrow> bool \<Rightarrow> (bytes \<times> bytes) BudgetedScan res" where
  "dedup_loop budget [] out stats truncated =
     Inr \<lparr> bs_items = out, bs_truncated = truncated, bs_stats = stats \<rparr>"
| "dedup_loop budget ((k, e) # merged) out stats truncated =
     (let run = takeWhile (same_key k) merged;
          rest = dropWhile (same_key k) merged;
          best = best_of run e;
          stats' = fold examine ((k, e) # run) stats
      in if e_op best = Delete then dedup_loop budget rest out stats' truncated
         else case e_value best of
                None \<Rightarrow> dedup_loop budget rest out stats' truncated
              | Some val \<Rightarrow>
                  (case decode_key k of
                     Inl err \<Rightarrow> Inl err
                   | Inr (_, raw_key) \<Rightarrow>
                       let out' = out @ [(raw_key, val)]
                       in if over_budget budget (length out') stats'
                          then Inr \<lparr> bs_items = out', bs_truncated = truncated \<or> rest \<noteq> [], bs_stats = stats' \<rparr>
                          else dedup_loop budget rest out' stats' truncated))"
  by pat_completeness auto
termination
  by (relation "measure (\<lambda>(budget, merged, _). length merged)") (auto simp: le_imp_less_Suc length_dropWhile_le)

declare dedup_loop.simps [simp del]

definition dedup_filter_scan ::
  "kv list \<Rightarrow> bool \<Rightarrow> ScanBudget option \<Rightarrow> bool \<Rightarrow> (bytes \<times> bytes) BudgetedScan res" where
  "dedup_filter_scan merged has_seg budget seg_truncated =
     dedup_loop budget merged [] (QueryStats_default\<lparr>segments_scanned := (if has_seg then 1 else 0)\<rparr>) seg_truncated"

definition range_core ::
  "ext \<Rightarrow> est \<Rightarrow> bytes \<Rightarrow> bytes \<Rightarrow> bytes \<Rightarrow> ScanBudget option \<Rightarrow> (bytes \<times> bytes) BudgetedScan res" where
  "range_core X = (\<lambda>(E, d) ns start end budget.
     and_then (encode_key ns start) (\<lambda>enc_start.
     and_then (encode_key ns end) (\<lambda>enc_end.
     and_then (range_scan_budgeted X d (ss_readers (en_segment_store E)) enc_start enc_end
                 (Option.bind budget max_items)) (\<lambda>(seg_results, seg_truncated).
     and_then (btree_range (en_memtable E) enc_start enc_end) (\<lambda>mem_results.
       dedup_filter_scan (merge_sorted_scans seg_results mem_results) (seg_results \<noteq> []) budget seg_truncated)))))"

definition prefix_core ::
  "ext \<Rightarrow> est \<Rightarrow> bytes \<Rightarrow> bytes \<Rightarrow> ScanBudget option \<Rightarrow> (bytes \<times> bytes) BudgetedScan res" where
  "prefix_core X = (\<lambda>(E, d) ns prefix budget.
     and_then (encode_key ns prefix) (\<lambda>enc_prefix.
     and_then
       (case prefix_upper_bound enc_prefix of
          Some enc_end \<Rightarrow>
            and_then (range_scan_budgeted X d (ss_readers (en_segment_store E)) enc_prefix enc_end
                        (Option.bind budget max_items)) (\<lambda>(raw, trunc).
              Inr (filter (\<lambda>(k, _). starts_with k enc_prefix) raw, trunc))
        | None \<Rightarrow> Inr ([], False)) (\<lambda>(seg_results, seg_truncated).
       dedup_filter_scan (merge_sorted_scans seg_results (btree_prefix (en_memtable E) enc_prefix))
         (seg_results \<noteq> []) budget seg_truncated)))"

definition Engine_range :: "ext \<Rightarrow> est \<Rightarrow> bytes \<Rightarrow> bytes \<Rightarrow> bytes \<Rightarrow> (bytes \<times> bytes) list res" where
  "Engine_range X st ns start end = and_then (range_core X st ns start end None) (\<lambda>b. Inr (bs_items b))"

definition Engine_range_with_stats ::
  "ext \<Rightarrow> est \<Rightarrow> bytes \<Rightarrow> bytes \<Rightarrow> bytes \<Rightarrow> ((bytes \<times> bytes) list \<times> QueryStats) res" where
  "Engine_range_with_stats X st ns start end =
     and_then (range_core X st ns start end None) (\<lambda>b. Inr (bs_items b, bs_stats b))"

definition Engine_range_budgeted ::
  "ext \<Rightarrow> est \<Rightarrow> bytes \<Rightarrow> bytes \<Rightarrow> bytes \<Rightarrow> ScanBudget \<Rightarrow> (bytes \<times> bytes) BudgetedScan res" where
  "Engine_range_budgeted X st ns start end budget = range_core X st ns start end (Some budget)"

definition Engine_prefix :: "ext \<Rightarrow> est \<Rightarrow> bytes \<Rightarrow> bytes \<Rightarrow> (bytes \<times> bytes) list res" where
  "Engine_prefix X st ns prefix = and_then (prefix_core X st ns prefix None) (\<lambda>b. Inr (bs_items b))"

definition Engine_prefix_with_stats ::
  "ext \<Rightarrow> est \<Rightarrow> bytes \<Rightarrow> bytes \<Rightarrow> ((bytes \<times> bytes) list \<times> QueryStats) res" where
  "Engine_prefix_with_stats X st ns prefix =
     and_then (prefix_core X st ns prefix None) (\<lambda>b. Inr (bs_items b, bs_stats b))"

definition Engine_prefix_budgeted ::
  "ext \<Rightarrow> est \<Rightarrow> bytes \<Rightarrow> bytes \<Rightarrow> ScanBudget \<Rightarrow> (bytes \<times> bytes) BudgetedScan res" where
  "Engine_prefix_budgeted X st ns prefix budget = prefix_core X st ns prefix (Some budget)"

definition range_page ::
  "ext \<Rightarrow> est \<Rightarrow> bytes \<Rightarrow> bytes \<Rightarrow> bytes \<Rightarrow> bytes option \<Rightarrow> usize \<Rightarrow> RangePage res" where
  "range_page X st ns start end cursor page_size =
     (if page_size = 0 then Inr \<lparr> rp_items = [], rp_next_key = None \<rparr>
      else
        let effective_start = (case cursor of Some c \<Rightarrow> c @ [0] | None \<Rightarrow> start);
            budget = \<lparr> max_items = Some page_size, max_bytes = None \<rparr>
        in and_then (Engine_range_budgeted X st ns effective_start end budget) (\<lambda>scan.
             Inr \<lparr> rp_items = bs_items scan,
                   rp_next_key = (if bs_truncated scan \<and> bs_items scan \<noteq> []
                                  then Some (fst (last (bs_items scan))) else None) \<rparr>))"

fun merge_descending :: "kv list \<Rightarrow> kv list \<Rightarrow> kv list" where
  "merge_descending [] mem = mem"
| "merge_descending seg [] = seg"
| "merge_descending (s # seg) (m # mem) =
     (if fst s \<ge> fst m then s # merge_descending seg (m # mem) else m # merge_descending (s # seg) mem)"

function dedup_page :: "usize \<Rightarrow> kv list \<Rightarrow> (bytes \<times> bytes) list \<Rightarrow> (bytes \<times> bytes) list res" where
  "dedup_page page_size [] out = Inr out"
| "dedup_page page_size ((k, e) # merged) out =
     (let run = takeWhile (same_key k) merged;
          rest = dropWhile (same_key k) merged;
          best = best_of run e
      in if e_op best = Delete then dedup_page page_size rest out
         else case e_value best of
                None \<Rightarrow> dedup_page page_size rest out
              | Some val \<Rightarrow>
                  (case decode_key k of
                     Inl err \<Rightarrow> Inl err
                   | Inr (_, raw_key) \<Rightarrow>
                       let out' = out @ [(raw_key, val)]
                       in if length out' \<ge> page_size then Inr out'
                          else dedup_page page_size rest out'))"
  by pat_completeness auto
termination
  by (relation "measure (\<lambda>(n, merged, _). length merged)") (auto simp: le_imp_less_Suc length_dropWhile_le)

declare dedup_page.simps [simp del]

definition range_rev_page ::
  "ext \<Rightarrow> est \<Rightarrow> bytes \<Rightarrow> bytes \<Rightarrow> bytes \<Rightarrow> bytes option \<Rightarrow> usize \<Rightarrow> RangePage res" where
  "range_rev_page X = (\<lambda>(E, d) ns start end cursor page_size.
     if page_size = 0 then Inr \<lparr> rp_items = [], rp_next_key = None \<rparr>
     else
       let effective_end = (case cursor of Some c \<Rightarrow> c | None \<Rightarrow> end)
       in and_then (encode_key ns start) (\<lambda>enc_start.
          and_then (encode_key ns effective_end) (\<lambda>enc_end.
            if enc_end \<le> enc_start then Inr \<lparr> rp_items = [], rp_next_key = None \<rparr>
            else
              and_then (range_scan_rev_budgeted X d (ss_readers (en_segment_store E)) enc_start enc_end page_size)
                (\<lambda>seg_results.
              and_then (btree_range (en_memtable E) enc_start enc_end) (\<lambda>mem_asc.
              and_then (dedup_page page_size (merge_descending seg_results (rev mem_asc)) []) (\<lambda>out.
                Inr \<lparr> rp_items = out,
                      rp_next_key = (if length out \<ge> page_size \<and> out \<noteq> [] then Some (fst (last out)) else None) \<rparr>))))))"

section \<open>Stripping and pruning segments\<close>

definition text_prefix :: bytes where "text_prefix = map (\<lambda>c. word_of_nat (of_char c)) ''__text__''"
definition vec_prefix :: bytes where "vec_prefix = map (\<lambda>c. word_of_nat (of_char c)) ''__vec__''"

definition outside_namespaces :: "bytes \<Rightarrow> kv list \<Rightarrow> kv list" where
  "outside_namespaces p = filter (\<lambda>(k, _).
     case decode_key k of Inr (ns, _) \<Rightarrow> \<not> starts_with ns p | Inl _ \<Rightarrow> True)"

text \<open>Writing the entries that are kept as a new segment and replacing the old one.\<close>

definition rewrite_segment ::
  "ext \<Rightarrow> Clock \<Rightarrow> SegmentId \<Rightarrow> kv list \<Rightarrow> (SegmentMeta \<Rightarrow> SegmentMeta) \<Rightarrow> est \<Rightarrow> est \<times> SegmentMeta res" where
  "rewrite_segment X T segment_id filtered mark = (\<lambda>(E, d).
     case alloc_segment_id (en_segment_store E) of
       (s1, new_id) \<Rightarrow>
         let E1 = E\<lparr>en_segment_store := s1\<rparr>
         in (case SegmentWriter_flush X new_id (cohort_window_secs (en_config E)) (ck_flush T) filtered d of
               Inl e \<Rightarrow> ((E1, d), Inl e)
             | Inr (meta, d1) \<Rightarrow>
                 let new_meta = mark meta
                 in (case SegmentReader_open X new_id d1 of
                       Inl e \<Rightarrow> ((E1, d1), Inl e)
                     | Inr new_reader \<Rightarrow>
                         (case replace_segment X segment_id new_meta new_reader s1 d1 of
                            ((s2, d2), Inl e) \<Rightarrow> ((E1\<lparr>en_segment_store := s2\<rparr>, d2), Inl e)
                          | ((s2, d2), Inr _) \<Rightarrow> ((E1\<lparr>en_segment_store := s2\<rparr>, d2), Inr new_meta)))))"

definition strip_text_index :: "ext \<Rightarrow> Clock \<Rightarrow> SegmentId \<Rightarrow> est \<Rightarrow> est \<times> SegmentMeta res" where
  "strip_text_index X T segment_id = (\<lambda>(E, d).
     case find (\<lambda>m. m_segment_id m = segment_id) (list_segment_metas (en_segment_store E)) of
       None \<Rightarrow> ((E, d), Inl (InvalidOperation ''strip_text_index: segment not found''))
     | Some old_meta \<Rightarrow>
         if m_text_index_stripped old_meta then ((E, d), Inr old_meta)
         else case reader_for segment_id (en_segment_store E) of
                None \<Rightarrow> ((E, d), Inl (InvalidOperation ''strip_text_index: no reader for segment''))
              | Some reader \<Rightarrow>
                  (case SegmentReader_range_scan X d reader [] (replicate 1024 0xFF) of
                     Inl e \<Rightarrow> ((E, d), Inl e)
                   | Inr entries \<Rightarrow>
                       let filtered = outside_namespaces text_prefix entries
                       in if length filtered = unat (m_record_count old_meta) then ((E, d), Inr old_meta)
                          else if filtered = [] then ((E, d), Inr old_meta)
                          else rewrite_segment X T segment_id filtered (m_text_index_stripped_update (\<lambda>_. True)) (E, d)))"

definition strip_vector_index :: "ext \<Rightarrow> Clock \<Rightarrow> SegmentId \<Rightarrow> est \<Rightarrow> est \<times> SegmentMeta res" where
  "strip_vector_index X T segment_id = (\<lambda>(E, d).
     case find (\<lambda>m. m_segment_id m = segment_id) (list_segment_metas (en_segment_store E)) of
       None \<Rightarrow> ((E, d), Inl (InvalidOperation ''strip_vector_index: segment not found''))
     | Some old_meta \<Rightarrow>
         if m_vector_index_stripped old_meta then ((E, d), Inr old_meta)
         else case reader_for segment_id (en_segment_store E) of
                None \<Rightarrow> ((E, d), Inl (InvalidOperation ''strip_vector_index: no reader for segment''))
              | Some reader \<Rightarrow>
                  (case SegmentReader_range_scan X d reader [] (replicate 1024 0xFF) of
                     Inl e \<Rightarrow> ((E, d), Inl e)
                   | Inr entries \<Rightarrow>
                       let filtered = outside_namespaces vec_prefix entries
                       in if length filtered = unat (m_record_count old_meta) \<or> filtered = [] then ((E, d), Inr old_meta)
                          else rewrite_segment X T segment_id filtered (m_vector_index_stripped_update (\<lambda>_. True)) (E, d)))"

definition prune_local_segment :: "ext \<Rightarrow> SegmentId \<Rightarrow> est \<Rightarrow> est \<times> unit res" where
  "prune_local_segment X segment_id = (\<lambda>(E, d).
     case remove_segment X segment_id (en_segment_store E) d of
       ((s, d1), r) \<Rightarrow> ((E\<lparr>en_segment_store := s\<rparr>, d1), r))"

end
