(* ===== verification/EngineFacts.thy ===== *)
theory EngineFacts
  imports Engine
begin

text \<open>
  The engine as a map: what each operation does to the entries it stands for, and the
  refinement of a key-value map by sequences of operations.
\<close>

section \<open>The entries an engine stands for\<close>

definition view :: "BTreeMemTable \<Rightarrow> kv list list \<Rightarrow> bytes \<rightharpoonup> MemEntry" where
  "view mt ess = map_of (concat (rev ess)) ++ map_of mt"

definition visible :: "MemEntry option \<Rightarrow> bytes option" where
  "visible r = (case r of Some e \<Rightarrow> if e_op e = Delete then None else e_value e | None \<Rightarrow> None)"

definition engine_inv :: "ext \<Rightarrow> Engine \<Rightarrow> dir \<Rightarrow> kv list list \<Rightarrow> bool" where
  "engine_inv X E d ess \<longleftrightarrow>
     store_ok X d (en_segment_store E) ess \<and> ksorted (en_memtable E) \<and>
     ss_cohort_window_secs (en_segment_store E) = cohort_window_secs (en_config E) \<and>
     is_wal_name (w_path (en_wal E))"

lemma engine_invD:
  assumes "engine_inv X E d ess"
  shows "store_ok X d (en_segment_store E) ess" "ksorted (en_memtable E)"
    "ss_cohort_window_secs (en_segment_store E) = cohort_window_secs (en_config E)"
    "is_wal_name (w_path (en_wal E))"
  using assms by (simp_all add: engine_inv_def)

lemma view_simps:
  "view [] (ess @ [mt]) = view mt ess"
  "view (btree_insert k e mt) ess = (view mt ess)(k \<mapsto> e)"
  by (simp_all add: view_def btree_insert_map_of)

lemma engine_get_view:
  assumes "zstd_ok X" "engine_inv X E d ess" "ns_ok ns"
  shows "Engine_get X (E, d) ns key = Inr (visible (view (en_memtable E) ess (enc ns key)))"
proof -
  have "SegmentStore_get X d (en_segment_store E) (enc ns key) = Inr (map_of (concat (rev ess)) (enc ns key))"
    using engine_invD(1) [OF assms(2)] unfolding store_ok_def by (intro store_get [OF assms(1)]) blast
  then show ?thesis
    by (simp add: Engine_get_def encode_key_ok [OF assms(3)] btree_get_def view_def visible_def map_add_def
          split: option.split)
qed

section \<open>Directories\<close>

text \<open>Files that are neither the manifest nor of a segment, and files that are not logs.\<close>

lemma wal_not_segment [simp]: "is_wal_name n \<Longrightarrow> n \<noteq> segment_file i x" "is_wal_name n \<Longrightarrow> n \<noteq> manifest_path"
  by (auto simp: is_wal_name_def segment_file_def manifest_path_def starts_with_def)

lemma store_ok_wal_frame:
  assumes "store_ok X d s ess" "\<forall>p. \<not> is_wal_name p \<longrightarrow> fs_read d' p = fs_read d p"
  shows "store_ok X d' s ess"
proof (rule store_ok_frame [OF assms(1)])
  show "fs_read d' manifest_path = fs_read d manifest_path" using assms(2) wal_not_segment(2) by metis
  show "\<forall>r \<in> set (ss_readers s). \<forall>x. fs_read d' (segment_file (sr_segment_id r) x) = fs_read d (segment_file (sr_segment_id r) x)"
    using assms(2) wal_not_segment(1) by metis
qed

lemma list_wal_files_set: "set (list_wal_files d) = {n. is_wal_name n \<and> fs_read d n \<noteq> None}"
  by (auto simp: list_wal_files_def set_fs_names)

lemma list_wal_files_eqI:
  assumes "fs_wf d" "fs_wf d'" "\<And>n. is_wal_name n \<Longrightarrow> fs_read d' n = None \<longleftrightarrow> fs_read d n = None"
  shows "list_wal_files d' = list_wal_files d"
proof (rule sorted_distinct_set_unique)
  show "set (list_wal_files d') = set (list_wal_files d)" unfolding list_wal_files_set using assms(3) by metis
qed (use assms(1,2) in \<open>simp_all add: list_wal_files_def fs_wf_def\<close>)

lemma retire_wal_files_read:
  "fs_read (retire_wal_files cur d) p = (if is_wal_name p \<and> p \<noteq> cur then None else fs_read d p)"
proof -
  have rm: "fs_read (fold fs_remove ns d) p = (if p \<in> set ns then None else fs_read d p)" for ns
    by (induction ns arbitrary: d) auto
  show ?thesis
    unfolding retire_wal_files_def rm by (auto simp: list_wal_files_set)
qed

section \<open>Rotation\<close>

lemma rotate_spec:
  assumes "rotate_wal_if_needed T (E, d) = ((E', d'), r)"
  shows "E' = E\<lparr>en_wal := en_wal E'\<rparr> \<and>
     ((en_wal E' = en_wal E \<and> d' = d) \<or>
      (w_path (en_wal E') = wal_file_name (en_lsn_counter E) \<and> fs_read d (wal_file_name (en_lsn_counter E)) = None \<and>
       d' = fs_write (wal_file_name (en_lsn_counter E)) wal_header d))"
  using assms
  by (auto simp: rotate_wal_if_needed_def WalWriter_create_def fs_exists_def split: if_splits)

lemma rotate_frame:
  assumes "rotate_wal_if_needed T (E, d) = ((E', d'), r)" "\<not> is_wal_name p"
  shows "fs_read d' p = fs_read d p"
  using rotate_spec [OF assms(1)] assms(2) by (auto simp: is_wal_name_wal_file_name)

lemma rotate_ok:
  assumes "fs_read d (wal_file_name (en_lsn_counter E)) = None"
  shows "\<exists>E' d'. rotate_wal_if_needed T (E, d) = ((E', d'), Inr ())"
  using assms by (simp add: rotate_wal_if_needed_def WalWriter_create_def fs_exists_def)

lemma rotate_path:
  "rotate_wal_if_needed T (E, d) = ((E', d'), r) \<Longrightarrow> is_wal_name (w_path (en_wal E)) \<Longrightarrow> is_wal_name (w_path (en_wal E'))"
  using rotate_spec by fastforce

section \<open>Logged writes\<close>

text \<open>
  What put, delete and each record of a commit have in common: a record is logged under the
  next LSN and its entry is put into the memtable.
\<close>

definition put_record :: "ext \<Rightarrow> Clock \<Rightarrow> bytes \<Rightarrow> bytes \<Rightarrow> bytes \<Rightarrow> u32 \<Rightarrow> Lsn \<Rightarrow> WalRecord" where
  "put_record X T ns key val ttl lsn =
     \<lparr> r_txid = 0, r_lsn = lsn, r_timestamp = ck_nanos T, r_ttl = ttl,
       r_ns_len = word_of_nat (length ns), r_ns_bytes = ns, r_key_bytes = key, r_op = Put,
       r_value_hash = blake3 X val, r_value_bytes = val \<rparr>"

definition delete_record :: "ext \<Rightarrow> Clock \<Rightarrow> bytes \<Rightarrow> bytes \<Rightarrow> Lsn \<Rightarrow> WalRecord" where
  "delete_record X T ns key lsn =
     \<lparr> r_txid = 0, r_lsn = lsn, r_timestamp = ck_nanos T, r_ttl = 0,
       r_ns_len = word_of_nat (length ns), r_ns_bytes = ns, r_key_bytes = key, r_op = Delete,
       r_value_hash = blake3 X [], r_value_bytes = [] \<rparr>"

definition logged :: "ext \<Rightarrow> Clock \<Rightarrow> WalRecord \<Rightarrow> est \<Rightarrow> est \<times> Lsn res" where
  "logged X T record = (\<lambda>(E, d).
     case WalWriter_append X record (en_wal E) d of
       (wal, d1) \<Rightarrow>
         st_then (rotate_wal_if_needed T (E\<lparr>en_lsn_counter := r_lsn record, en_wal := wal\<rparr>, d1)) (\<lambda>(E2, d2) _.
           ((E2\<lparr>en_memtable := btree_insert (fst (record_kv record)) (snd (record_kv record)) (en_memtable E2)\<rparr>, d2),
            Inr (r_lsn record))))"

lemma write_entry_logged:
  assumes "ns_ok ns"
  shows "write_entry X T ns key val ttl (E, d) = logged X T (put_record X T ns key val ttl (en_lsn_counter E + 1)) (E, d)"
  by (simp add: write_entry_def logged_def put_record_def record_kv_def record_entry_def encode_key_ok [OF assms] Let_def)

lemma delete_logged:
  assumes "ns_ok ns" "\<not> readonly (en_config E)"
  shows "Engine_delete X T ns key (E, d) = logged X T (delete_record X T ns key (en_lsn_counter E + 1)) (E, d)"
  using assms(2)
  by (simp add: Engine_delete_def logged_def delete_record_def record_kv_def record_entry_def encode_key_ok [OF assms(1)] Let_def)

lemma record_kv_put:
  "record_kv (put_record X T ns key val ttl lsn) = (enc ns key, \<lparr> e_key = enc ns key, e_value = Some val, e_op = Put,
     e_lsn = lsn, e_timestamp = ck_nanos T, e_ttl = ttl \<rparr>)"
  by (simp add: record_kv_def record_entry_def put_record_def Let_def)

lemma record_kv_delete:
  "record_kv (delete_record X T ns key lsn) = (enc ns key, \<lparr> e_key = enc ns key, e_value = None, e_op = Delete,
     e_lsn = lsn, e_timestamp = ck_nanos T, e_ttl = 0 \<rparr>)"
  by (simp add: record_kv_def record_entry_def delete_record_def Let_def)

lemma append_frame:
  "WalWriter_append X record w d = (w', d1) \<Longrightarrow> w_path w' = w_path w \<and> d1 = fs_append (w_path w) (wal_frame X record) d"
  by (auto simp: WalWriter_append_def Let_def)

lemma logged_spec:
  assumes "logged X T record (E, d) = ((E', d'), Inr lsn)" "engine_inv X E d ess"
  shows "lsn = r_lsn record \<and> engine_inv X E' d' ess \<and> en_lsn_counter E' = r_lsn record \<and>
     view (en_memtable E') ess = (view (en_memtable E) ess)(fst (record_kv record) \<mapsto> snd (record_kv record)) \<and>
     en_memtable E' = btree_insert (fst (record_kv record)) (snd (record_kv record)) (en_memtable E) \<and>
     en_config E' = en_config E \<and> en_segment_store E' = en_segment_store E \<and>
     en_txid_counter E' = en_txid_counter E \<and> en_snapshot_registry E' = en_snapshot_registry E"
proof -
  obtain w1 d1 where w1: "WalWriter_append X record (en_wal E) d = (w1, d1)" by fastforce
  let ?E1 = "E\<lparr>en_lsn_counter := r_lsn record, en_wal := w1\<rparr>"
  obtain E2 d2 q where r: "rotate_wal_if_needed T (?E1, d1) = ((E2, d2), q)" by (metis prod.exhaust)
  have q: "q = Inr ()" using assms(1) w1 r by (cases q) (auto simp: logged_def)
  have E': "E' = E2\<lparr>en_memtable := btree_insert (fst (record_kv record)) (snd (record_kv record)) (en_memtable E2)\<rparr>"
    "d' = d2" "lsn = r_lsn record" using assms(1) w1 r q by (auto simp: logged_def)
  have E2: "E2 = ?E1\<lparr>en_wal := en_wal E2\<rparr>" using rotate_spec [OF r] by blast
  note app = append_frame [OF w1]
  have wal: "is_wal_name (w_path (en_wal E))" using assms(2) by (rule engine_invD)
  have "fs_read d2 p = fs_read d p" if "\<not> is_wal_name p" for p
  proof -
    have "fs_read d1 p = fs_read d p" using app that wal by auto
    then show ?thesis using rotate_frame [OF r that] by simp
  qed
  then have ok: "store_ok X d2 (en_segment_store E) ess"
    using engine_invD(1) [OF assms(2)] store_ok_wal_frame by blast
  have "is_wal_name (w_path (en_wal E2))" using rotate_path [OF r] wal app by simp
  moreover have eqs: "en_memtable E2 = en_memtable E" "en_config E2 = en_config E" "en_segment_store E2 = en_segment_store E"
    "en_lsn_counter E2 = r_lsn record" "en_txid_counter E2 = en_txid_counter E"
    "en_snapshot_registry E2 = en_snapshot_registry E"
    by (subst E2, simp)+
  ultimately have "engine_inv X E' d' ess"
    using ok assms(2) E' by (simp add: engine_inv_def btree_insert_sorted)
  with E' eqs show ?thesis by (simp add: view_simps)
qed

section \<open>Flushing\<close>

lemma max_lsn_filter_empty:
  assumes "mt \<noteq> []"
  shows "filter (\<lambda>(_, e). e_lsn e > Max (set (map (e_lsn \<circ> snd) mt))) mt = []"
proof -
  have "e_lsn (snd x) \<le> Max (set (map (e_lsn \<circ> snd) mt))" if "x \<in> set mt" for x
    using that by (intro Max_ge) auto
  then show ?thesis by (force simp: filter_empty_conv not_less)
qed

lemma prepare_flush_max:
  "prepare_flush mt s = (s1, Some work) \<Longrightarrow> mt \<noteq> [] \<and> fw_flushed_max_lsn work = Max (set (map (e_lsn \<circ> snd) mt))"
  by (auto simp: prepare_flush_def btree_iter_def Let_def split: if_splits)

lemma add_segment_fits: "add_segment X meta m d = (st, Inr u) \<Longrightarrow> entry_ok X (addition meta)"
  by (auto simp: add_segment_def write_framed_entry_def entry_ok_def addition_def Let_def split: sum.splits if_splits)

lemma finalize_fits: "finalize_segment X meta s d = (st, Inr u) \<Longrightarrow> entry_ok X (addition meta)"
  using add_segment_fits by (fastforce simp: finalize_segment_def split: prod.splits sum.splits)

lemma flush_steps:
  assumes "zstd_ok X" "json_ok X" "xor8_ok X" "engine_inv X E d ess"
    and "flushable X (cohort_window_secs (en_config E)) (en_memtable E)"
    and "ss_next_segment_id (en_segment_store E) + 1 \<noteq> 0"
  shows "\<exists>s1 work meta d1. prepare_flush (en_memtable E) (en_segment_store E) = (s1, Some work) \<and>
     FlushWork_execute X (ck_flush T) work d = Inr (meta, d1) \<and>
     (\<forall>p. (\<forall>x. p \<noteq> segment_file (ss_next_segment_id (en_segment_store E)) x) \<longrightarrow> fs_read d1 p = fs_read d p) \<and>
     (entry_ok X (addition meta) \<longrightarrow>
       (\<exists>s' d2. finalize_segment X meta s1 d1 = ((s', d2), Inr ()) \<and> store_ok X d2 s' (ess @ [en_memtable E]) \<and>
          ss_next_segment_id s' = ss_next_segment_id (en_segment_store E) + 1 \<and>
          ss_cohort_window_secs s' = ss_cohort_window_secs (en_segment_store E) \<and>
          (\<forall>p. p \<noteq> manifest_path \<longrightarrow> fs_read d2 p = fs_read d1 p)))"
proof -
  note inv = engine_invD [OF assms(4)]
  have "flushable X (ss_cohort_window_secs (en_segment_store E)) (en_memtable E)" using assms(5) inv(3) by simp
  from flush_ok [OF assms(1-3) inv(1) this assms(6), of "ck_flush T"] show ?thesis by metis
qed

lemma flush_to_segments_steps:
  assumes "prepare_flush (en_memtable E) (en_segment_store E) = (s1, Some work)"
    and "FlushWork_execute X (ck_flush T) work d = Inr (meta, d1)" "en_memtable E \<noteq> []"
  shows "flush_to_segments X T (E, d) =
     (case finalize_segment X meta s1 d1 of
        ((s, d2), Inl e) \<Rightarrow> ((E\<lparr>en_segment_store := s\<rparr>, d2), Inl e)
      | ((s, d2), Inr _) \<Rightarrow>
          ((E\<lparr>en_segment_store := s, en_memtable := []\<rparr>, retire_wal_files (w_path (en_wal E)) d2), Inr meta))"
proof -
  have "filter (\<lambda>(_, e). e_lsn e > fw_flushed_max_lsn work) (en_memtable E) = []"
    using max_lsn_filter_empty [OF assms(3)] prepare_flush_max [OF assms(1)] by metis
  with assms show ?thesis
    by (simp add: flush_to_segments_def begin_flush_def btree_is_empty_def btree_len_def finalize_flush_def btree_iter_def
          BTreeMemTable_new_def Let_def split: prod.split sum.split)
qed

lemma flush_success:
  assumes "zstd_ok X" "json_ok X" "xor8_ok X" "engine_inv X E d ess"
    and "flushable X (cohort_window_secs (en_config E)) (en_memtable E)"
    and "ss_next_segment_id (en_segment_store E) + 1 \<noteq> 0"
    and "flush_to_segments X T (E, d) = ((E', d'), Inr meta)"
  shows "engine_inv X E' d' (ess @ [en_memtable E]) \<and>
     E' = E\<lparr>en_memtable := [], en_segment_store := en_segment_store E'\<rparr> \<and>
     ss_next_segment_id (en_segment_store E') = ss_next_segment_id (en_segment_store E) + 1 \<and>
     (\<forall>p. p \<noteq> manifest_path \<and> (\<forall>i x. p \<noteq> segment_file i x) \<longrightarrow>
        fs_read d' p = (if is_wal_name p \<and> p \<noteq> w_path (en_wal E) then None else fs_read d p))"
proof -
  let ?s = "en_segment_store E"
  note inv = engine_invD [OF assms(4)]
  obtain s1 work meta0 d1 where f: "prepare_flush (en_memtable E) ?s = (s1, Some work)"
    "FlushWork_execute X (ck_flush T) work d = Inr (meta0, d1)"
    "\<forall>p. (\<forall>x. p \<noteq> segment_file (ss_next_segment_id ?s) x) \<longrightarrow> fs_read d1 p = fs_read d p"
    "entry_ok X (addition meta0) \<longrightarrow>
       (\<exists>s' d2. finalize_segment X meta0 s1 d1 = ((s', d2), Inr ()) \<and> store_ok X d2 s' (ess @ [en_memtable E]) \<and>
          ss_next_segment_id s' = ss_next_segment_id ?s + 1 \<and>
          ss_cohort_window_secs s' = ss_cohort_window_secs ?s \<and>
          (\<forall>p. p \<noteq> manifest_path \<longrightarrow> fs_read d2 p = fs_read d1 p))"
    using flush_steps [OF assms(1-6), of T] by metis
  have ne: "en_memtable E \<noteq> []" using assms(5) by (simp add: flushable_def)
  note steps = flush_to_segments_steps [OF f(1,2) ne]
  obtain st q where fin: "finalize_segment X meta0 s1 d1 = (st, q)" by fastforce
  with steps assms(7) obtain u where "q = Inr u" by (cases q) (auto split: prod.splits)
  with fin f(4) finalize_fits obtain s' d2 where s': "finalize_segment X meta0 s1 d1 = ((s', d2), Inr ())"
    "store_ok X d2 s' (ess @ [en_memtable E])" "ss_next_segment_id s' = ss_next_segment_id ?s + 1"
    "ss_cohort_window_secs s' = ss_cohort_window_secs ?s"
    "\<forall>p. p \<noteq> manifest_path \<longrightarrow> fs_read d2 p = fs_read d1 p" by blast
  have E': "E' = E\<lparr>en_segment_store := s', en_memtable := []\<rparr>" "d' = retire_wal_files (w_path (en_wal E)) d2"
    using steps s'(1) assms(7) by simp_all
  have read: "fs_read d' p = (if is_wal_name p \<and> p \<noteq> w_path (en_wal E) then None else fs_read d2 p)" for p
    unfolding E'(2) by (rule retire_wal_files_read)
  have "store_ok X d' s' (ess @ [en_memtable E])"
    using s'(2) by (rule store_ok_wal_frame) (simp add: read)
  then have "engine_inv X E' d' (ess @ [en_memtable E])" using inv s'(4) by (simp add: engine_inv_def E'(1))
  moreover have "fs_read d2 p = fs_read d p" if "p \<noteq> manifest_path" "\<forall>i x. p \<noteq> segment_file i x" for p
    using f(3) s'(5) that by simp
  ultimately show ?thesis using read s'(3) by (simp add: E'(1))
qed

lemma flush_returns:
  assumes "zstd_ok X" "json_ok X" "xor8_ok X" "engine_inv X E d ess"
    and "flushable X (cohort_window_secs (en_config E)) (en_memtable E)"
    and "ss_next_segment_id (en_segment_store E) + 1 \<noteq> 0"
    and "\<And>meta d1. SegmentWriter_flush X (ss_next_segment_id (en_segment_store E)) (cohort_window_secs (en_config E))
       (ck_flush T) (en_memtable E) d = Inr (meta, d1) \<Longrightarrow> entry_ok X (addition meta)"
  shows "\<exists>E' d' meta. flush_to_segments X T (E, d) = ((E', d'), Inr meta)"
proof -
  let ?s = "en_segment_store E"
  obtain s1 work meta d1 where f: "prepare_flush (en_memtable E) ?s = (s1, Some work)"
    "FlushWork_execute X (ck_flush T) work d = Inr (meta, d1)"
    "entry_ok X (addition meta) \<longrightarrow> (\<exists>s' d2. finalize_segment X meta s1 d1 = ((s', d2), Inr ()))"
    using flush_steps [OF assms(1-6), of T] by metis
  have "fw_entries work = en_memtable E" "fw_segment_id work = ss_next_segment_id ?s"
    "fw_cohort_window_secs work = cohort_window_secs (en_config E)"
    using f(1) engine_invD(3) [OF assms(4)] by (auto simp: prepare_flush_def btree_iter_def Let_def split: if_splits)
  with f(2) have "entry_ok X (addition meta)" using assms(7) by (simp add: FlushWork_execute_def)
  moreover have "en_memtable E \<noteq> []" using assms(5) by (simp add: flushable_def)
  ultimately show ?thesis using flush_to_segments_steps [OF f(1,2)] f(3) by auto
qed

section \<open>Puts, deletes and commits\<close>

definition flush_due :: "Engine \<Rightarrow> BTreeMemTable \<Rightarrow> bool" where
  "flush_due E mt \<longleftrightarrow> word_of_nat (btree_len mt) * AVG_ENTRY_SIZE_ESTIMATE \<ge> memtable_max_bytes (en_config E)"

text \<open>A memtable that can be written as a segment.\<close>

definition fits :: "ext \<Rightarrow> Engine \<Rightarrow> BTreeMemTable \<Rightarrow> bool" where
  "fits X E mt \<longleftrightarrow> flushable X (cohort_window_secs (en_config E)) mt \<and> ss_next_segment_id (en_segment_store E) + 1 \<noteq> 0"

lemma put_success:
  assumes "zstd_ok X" "json_ok X" "xor8_ok X" "engine_inv X E d ess"
    and "Engine_put X T ns key val (E, d) = ((E', d'), Inr lsn)"
    and "r = put_record X T ns key val 0 (en_lsn_counter E + 1)"
    and "mt' = btree_insert (fst (record_kv r)) (snd (record_kv r)) (en_memtable E)"
    and "flush_due E mt' \<Longrightarrow> fits X E mt'"
  shows "ns_ok ns \<and> lsn = en_lsn_counter E + 1 \<and> en_config E' = en_config E \<and> en_lsn_counter E' = lsn \<and>
     (\<exists>ess'. engine_inv X E' d' ess' \<and>
        (ess' = ess \<and> en_memtable E' = mt' \<or> ess' = ess @ [mt'] \<and> en_memtable E' = []) \<and>
        view (en_memtable E') ess' = (view (en_memtable E) ess)(fst (record_kv r) \<mapsto> snd (record_kv r)))"
proof -
  have ns: "ns_ok ns" and w: "\<not> readonly (en_config E)"
    using assms(5) by (auto simp: Engine_put_def ns_ok_def split: if_splits)
  obtain E1 d1 q where l: "logged X T r (E, d) = ((E1, d1), q)" by (metis prod.exhaust)
  have put: "Engine_put X T ns key val (E, d) = st_then ((E1, d1), q) (\<lambda>(E1, d1) lsn.
      if flush_due E1 (en_memtable E1) then st_then (flush_to_segments X T (E1, d1)) (\<lambda>st _. (st, Inr lsn))
      else ((E1, d1), Inr lsn))"
    using ns w l by (simp add: Engine_put_def write_entry_logged [OF ns] assms(6) ns_ok_def flush_due_def not_less)
  obtain l1 where q: "q = Inr l1" using put assms(5) by (cases q) auto
  note sp = logged_spec [OF l [unfolded q] assms(4)]
  have mt: "en_memtable E1 = mt'" "en_config E1 = en_config E" "en_segment_store E1 = en_segment_store E"
    "l1 = en_lsn_counter E + 1" "engine_inv X E1 d1 ess" "en_lsn_counter E1 = l1"
    using sp by (simp_all add: assms(6,7) put_record_def)
  show ?thesis
  proof (cases "flush_due E1 mt'")
    case False
    with put q mt(1) assms(5) have "E' = E1" "d' = d1" "lsn = l1" by simp_all
    with sp ns mt show ?thesis by auto
  next
    case True
    then have "fits X E mt'" using assms(8) mt(2) by (simp add: flush_due_def)
    then have f: "flushable X (cohort_window_secs (en_config E1)) (en_memtable E1)"
      "ss_next_segment_id (en_segment_store E1) + 1 \<noteq> 0" using mt by (simp_all add: fits_def)
    obtain st fr where fl: "flush_to_segments X T (E1, d1) = (st, fr)" by fastforce
    with True put q mt(1) assms(5) obtain meta where "fr = Inr meta" "st = (E', d')" "lsn = l1"
      by (cases fr) auto
    from flush_success [OF assms(1-3) mt(5) f fl [unfolded this(1,2)]] this(3)
    have "engine_inv X E' d' (ess @ [en_memtable E1])" "en_memtable E' = []" "lsn = l1"
      "en_config E' = en_config E1" "en_lsn_counter E' = en_lsn_counter E1"
      by (metis Engine.select_convs Engine.surjective Engine.update_convs)+
    then show ?thesis using sp ns mt by (auto simp: view_simps)
  qed
qed

abbreviation insert_record :: "WalRecord \<Rightarrow> BTreeMemTable \<Rightarrow> BTreeMemTable" where
  "insert_record r \<equiv> btree_insert (fst (record_kv r)) (snd (record_kv r))"

lemma commit_records_spec:
  assumes "\<forall>r \<in> set rs. ns_ok (r_ns_bytes r)" "engine_inv X E d ess"
  shows "\<exists>E' d' l. commit_records X rs last_lsn (E, d) = ((E', d'), Inr l) \<and> engine_inv X E' d' ess \<and>
     en_config E' = en_config E \<and> en_segment_store E' = en_segment_store E \<and> w_path (en_wal E') = w_path (en_wal E) \<and>
     en_lsn_counter E' = en_lsn_counter E + word_of_nat (length rs) \<and>
     (\<exists>rs'. list_all2 (\<lambda>r r'. r' = r\<lparr>r_lsn := r_lsn r'\<rparr>) rs rs' \<and>
        map r_lsn rs' = map (\<lambda>i. en_lsn_counter E + word_of_nat i) [1..<Suc (length rs)] \<and>
        en_memtable E' = fold insert_record rs' (en_memtable E) \<and>
        view (en_memtable E') ess = view (en_memtable E) ess ++ map_of (rev (map record_kv rs')))"
  using assms
proof (induction rs arbitrary: E d last_lsn)
  case Nil
  then show ?case by auto
next
  case (Cons r rs)
  let ?lsn = "en_lsn_counter E + 1"
  let ?r = "r\<lparr>r_lsn := ?lsn\<rparr>"
  have ns: "ns_ok (r_ns_bytes r)" using Cons.prems by simp
  obtain w1 d1 where w1: "WalWriter_append X ?r (en_wal E) d = (w1, d1)" by fastforce
  let ?E1 = "E\<lparr>en_lsn_counter := ?lsn, en_wal := w1,
     en_memtable := btree_insert (fst (record_kv ?r)) (snd (record_kv ?r)) (en_memtable E)\<rparr>"
  have step: "commit_records X (r # rs) last_lsn (E, d) = commit_records X rs ?lsn (?E1, d1)"
    using w1 by (simp add: encode_key_ok [OF ns] record_kv_def Let_def)
  have "fs_read d1 p = fs_read d p" if "\<not> is_wal_name p" for p
    using append_frame [OF w1] engine_invD(4) [OF Cons.prems(2)] that by auto
  then have "store_ok X d1 (en_segment_store E) ess"
    using engine_invD(1) [OF Cons.prems(2)] store_ok_wal_frame by blast
  then have "engine_inv X ?E1 d1 ess"
    using Cons.prems(2) append_frame [OF w1] by (simp add: engine_inv_def btree_insert_sorted)
  with Cons.IH [of ?E1 d1 ?lsn] Cons.prems(1) obtain E' d' l rs' where ih:
    "commit_records X rs ?lsn (?E1, d1) = ((E', d'), Inr l)" "engine_inv X E' d' ess" "en_config E' = en_config E"
    "en_segment_store E' = en_segment_store E" "w_path (en_wal E') = w_path w1"
    "en_lsn_counter E' = ?lsn + word_of_nat (length rs)"
    "list_all2 (\<lambda>r r'. r' = r\<lparr>r_lsn := r_lsn r'\<rparr>) rs rs'"
    "map r_lsn rs' = map (\<lambda>i. ?lsn + word_of_nat i) [1..<Suc (length rs)]"
    "en_memtable E' = fold insert_record rs' (en_memtable ?E1)"
    "view (en_memtable E') ess = view (en_memtable ?E1) ess ++ map_of (rev (map record_kv rs'))" by auto
  have w: "w_path (en_wal E') = w_path (en_wal E)" using ih(5) append_frame [OF w1] by simp
  have lsns: "map r_lsn (?r # rs') = map (\<lambda>i. en_lsn_counter E + word_of_nat i) [1..<Suc (length (r # rs))]"
    using ih(8) by (simp add: upt_conv_Cons map_Suc_upt [symmetric] add.assoc add.commute del: upt_Suc)
  have "view (en_memtable E') ess = view (en_memtable E) ess ++ map_of (rev (map record_kv (?r # rs')))"
    using ih(10) by (simp add: view_simps map_add_assoc)
  moreover have "en_memtable E' = fold insert_record (?r # rs') (en_memtable E)" using ih(9) by simp
  moreover have "list_all2 (\<lambda>r r'. r' = r\<lparr>r_lsn := r_lsn r'\<rparr>) (r # rs) (?r # rs')" using ih(7) by simp
  moreover have "en_lsn_counter E' = en_lsn_counter E + word_of_nat (length (r # rs))" using ih(6) by simp
  ultimately show ?case using lsns ih(1-4) w unfolding step by blast
qed

section \<open>The key-value map that sequences of operations refine\<close>

datatype engine_op =
    OpPut bytes bytes bytes
  | OpPutTtl bytes bytes bytes u32
  | OpDelete bytes bytes
  | OpCommit Transaction
  | OpFlush
  | OpSnapshot

definition completed :: "'s \<times> 'a res \<Rightarrow> 's \<times> unit res" where
  "completed r = st_then r (\<lambda>st _. (st, Inr ()))"

fun engine_exec :: "ext \<Rightarrow> Clock \<Rightarrow> engine_op \<Rightarrow> est \<Rightarrow> est \<times> unit res" where
  "engine_exec X T (OpPut ns k v) st = completed (Engine_put X T ns k v st)"
| "engine_exec X T (OpPutTtl ns k v ttl) st = completed (Engine_put_with_ttl X T ns k v ttl st)"
| "engine_exec X T (OpDelete ns k) st = completed (Engine_delete X T ns k st)"
| "engine_exec X T (OpCommit tx) st = completed (commit_transaction X T tx st)"
| "engine_exec X T OpFlush st = completed (flush_to_segments X T st)"
| "engine_exec X T OpSnapshot (E, d) = ((fst (Engine_snapshot E), d), Inr ())"

text \<open>
  What has to hold for an operation to be within the limits of the formats: namespaces are
  short enough, and a memtable that is about to be flushed can be written as a segment.
\<close>

fun op_fits :: "ext \<Rightarrow> Clock \<Rightarrow> engine_op \<Rightarrow> est \<Rightarrow> bool" where
  "op_fits X T (OpPut ns k v) (E, d) =
     (let r = record_kv (put_record X T ns k v 0 (en_lsn_counter E + 1));
          mt = btree_insert (fst r) (snd r) (en_memtable E)
      in flush_due E mt \<longrightarrow> fits X E mt)"
| "op_fits X T (OpPutTtl ns k v ttl) (E, d) = True"
| "op_fits X T (OpDelete ns k) (E, d) = ns_ok ns"
| "op_fits X T (OpCommit tx) (E, d) = (\<forall>r \<in> set (t_pending tx). ns_ok (r_ns_bytes r))"
| "op_fits X T OpFlush (E, d) = fits X E (en_memtable E)"
| "op_fits X T OpSnapshot (E, d) = True"

text \<open>The specification: a partial function from namespace and key to the value.\<close>

type_synonym kvmap = "bytes \<times> bytes \<rightharpoonup> bytes"

definition spec_record :: "WalRecord \<Rightarrow> kvmap \<Rightarrow> kvmap" where
  "spec_record r m = m((r_ns_bytes r, r_key_bytes r) := (if r_op r = Put then Some (r_value_bytes r) else None))"

fun spec_op :: "engine_op \<Rightarrow> kvmap \<Rightarrow> kvmap" where
  "spec_op (OpPut ns k v) m = m((ns, k) \<mapsto> v)"
| "spec_op (OpPutTtl ns k v ttl) m = m((ns, k) \<mapsto> v)"
| "spec_op (OpDelete ns k) m = m((ns, k) := None)"
| "spec_op (OpCommit tx) m = fold spec_record (t_pending tx) m"
| "spec_op OpFlush m = m"
| "spec_op OpSnapshot m = m"

inductive engine_run :: "ext \<Rightarrow> est \<Rightarrow> (Clock \<times> engine_op) list \<Rightarrow> est \<Rightarrow> bool" for X where
  run_nil: "engine_run X st [] st"
| run_cons: "op_fits X T op st \<Longrightarrow> engine_exec X T op st = (st1, Inr ()) \<Longrightarrow> engine_run X st1 ops st2 \<Longrightarrow>
    engine_run X st ((T, op) # ops) st2"

definition represents :: "(bytes \<rightharpoonup> MemEntry) \<Rightarrow> kvmap \<Rightarrow> bool" where
  "represents v m \<longleftrightarrow> (\<forall>ns k. ns_ok ns \<longrightarrow> visible (v (enc ns k)) = m (ns, k))"

lemma represents_update:
  assumes "represents v m" "ns_ok ns"
  shows "represents (v(enc ns k \<mapsto> e)) (m((ns, k) := visible (Some e)))"
  using assms by (auto simp: represents_def enc_inject)

lemma represents_record:
  "represents v m \<Longrightarrow> ns_ok (r_ns_bytes r) \<Longrightarrow>
   represents (v(fst (record_kv r) \<mapsto> snd (record_kv r))) (spec_record r m)"
  using represents_update [of v m "r_ns_bytes r" "r_key_bytes r" "snd (record_kv r)"]
  by (cases "r_op r") (simp_all add: record_kv_def record_entry_def Let_def visible_def spec_record_def)

lemma represents_records:
  assumes "list_all2 (\<lambda>r r'. r' = r\<lparr>r_lsn := r_lsn r'\<rparr>) rs rs'" "\<forall>r \<in> set rs. ns_ok (r_ns_bytes r)" "represents v m"
  shows "represents (v ++ map_of (rev (map record_kv rs'))) (fold spec_record rs m)"
  using assms
proof (induction rs rs' arbitrary: v m rule: list_all2_induct)
  case (Cons r rs r' rs')
  obtain l where "r' = r\<lparr>r_lsn := l\<rparr>" using Cons.hyps by blast
  then have "spec_record r' m = spec_record r m" "ns_ok (r_ns_bytes r')"
    using Cons.prems(1) by (simp_all add: spec_record_def)
  with represents_record [OF Cons.prems(2), of r'] Cons.IH Cons.prems(1)
  have "represents (v(fst (record_kv r') \<mapsto> snd (record_kv r')) ++ map_of (rev (map record_kv rs'))) (fold spec_record (r # rs) m)"
    by simp
  then show ?case by (simp add: map_add_assoc)
qed simp

lemma spec_records [simp]:
  "spec_record (put_record X T ns k v ttl l) m = m((ns, k) \<mapsto> v)"
  "spec_record (delete_record X T ns k l) m = m((ns, k) := None)"
  "r_ns_bytes (put_record X T ns k v ttl l) = ns" "r_ns_bytes (delete_record X T ns k l) = ns"
  by (simp_all add: spec_record_def put_record_def delete_record_def)

lemma logged_represents:
  assumes "logged X T r (E, d) = ((E', d'), Inr lsn)" "engine_inv X E d ess"
    and "represents (view (en_memtable E) ess) m" "ns_ok (r_ns_bytes r)"
  shows "engine_inv X E' d' ess \<and> represents (view (en_memtable E') ess) (spec_record r m)"
  using logged_spec [OF assms(1,2)] represents_record [OF assms(3,4)] by metis

lemma engine_exec_step:
  assumes "zstd_ok X" "json_ok X" "xor8_ok X" "engine_inv X E d ess" "represents (view (en_memtable E) ess) m"
    and "op_fits X T op (E, d)" "engine_exec X T op (E, d) = ((E', d'), Inr ())"
  shows "\<exists>ess'. engine_inv X E' d' ess' \<and> represents (view (en_memtable E') ess') (spec_op op m)"
proof (cases op)
  case (OpPut ns k v)
  let ?r = "put_record X T ns k v 0 (en_lsn_counter E + 1)"
  obtain lsn where p: "Engine_put X T ns k v (E, d) = ((E', d'), Inr lsn)"
    using assms(7) OpPut by (auto simp: completed_def elim: st_then.elims)
  from put_success [OF assms(1-4) p refl refl] assms(6) OpPut
  obtain ess' where "ns_ok ns" "engine_inv X E' d' ess'"
    "view (en_memtable E') ess' = (view (en_memtable E) ess)(fst (record_kv ?r) \<mapsto> snd (record_kv ?r))"
    by (auto simp: Let_def)
  with represents_record [OF assms(5), of ?r] OpPut show ?thesis by (intro exI [of _ ess']) simp
next
  case (OpPutTtl ns k v ttl)
  let ?r = "put_record X T ns k v ttl (en_lsn_counter E + 1)"
  obtain lsn where p: "Engine_put_with_ttl X T ns k v ttl (E, d) = ((E', d'), Inr lsn)"
    using assms(7) OpPutTtl by (auto simp: completed_def elim: st_then.elims)
  then have ns: "ns_ok ns" by (auto simp: Engine_put_with_ttl_def ns_ok_def split: if_splits)
  with p have "logged X T ?r (E, d) = ((E', d'), Inr lsn)"
    by (auto simp: Engine_put_with_ttl_def write_entry_logged split: if_splits)
  from logged_represents [OF this assms(4,5)] ns OpPutTtl show ?thesis by auto
next
  case (OpDelete ns k)
  let ?r = "delete_record X T ns k (en_lsn_counter E + 1)"
  obtain lsn where p: "Engine_delete X T ns k (E, d) = ((E', d'), Inr lsn)"
    using assms(7) OpDelete by (auto simp: completed_def elim: st_then.elims)
  then have w: "\<not> readonly (en_config E)" by (auto simp: Engine_delete_def split: if_splits)
  have ns: "ns_ok ns" using assms(6) OpDelete by simp
  from p have "logged X T ?r (E, d) = ((E', d'), Inr lsn)" using delete_logged [OF ns w] by simp
  from logged_represents [OF this assms(4,5)] ns OpDelete show ?thesis by auto
next
  case (OpCommit tx)
  have ns: "\<forall>r \<in> set (t_pending tx). ns_ok (r_ns_bytes r)" using assms(6) OpCommit by simp
  obtain E1 d1 l rs' where c: "commit_records X (t_pending tx) (en_lsn_counter E) (E, d) = ((E1, d1), Inr l)"
    "engine_inv X E1 d1 ess" "list_all2 (\<lambda>r r'. r' = r\<lparr>r_lsn := r_lsn r'\<rparr>) (t_pending tx) rs'"
    "view (en_memtable E1) ess = view (en_memtable E) ess ++ map_of (rev (map record_kv rs'))"
    using commit_records_spec [OF ns assms(4)] by blast
  obtain st q where r: "rotate_wal_if_needed T (E1, d1) = (st, q)" by fastforce
  have "t_state tx = Active \<and> st = (E', d')"
    using assms(7) OpCommit c(1) r
    by (cases q; cases "t_state tx") (auto simp: completed_def commit_transaction_def tx_take_pending_def)
  then have rot: "rotate_wal_if_needed T (E1, d1) = ((E', d'), q)" using r by simp
  have eqs: "en_memtable E' = en_memtable E1" "en_segment_store E' = en_segment_store E1" "en_config E' = en_config E1"
  proof -
    have "E' = E1\<lparr>en_wal := en_wal E'\<rparr>" using rotate_spec [OF rot] by blast
    then show "en_memtable E' = en_memtable E1" "en_segment_store E' = en_segment_store E1" "en_config E' = en_config E1"
      by (metis Engine.select_convs Engine.surjective Engine.update_convs(2))+
  qed
  have "store_ok X d' (en_segment_store E1) ess"
    using engine_invD(1) [OF c(2)] store_ok_wal_frame rotate_frame [OF rot] by blast
  then have "engine_inv X E' d' ess"
    using c(2) rotate_path [OF rot] by (simp add: engine_inv_def eqs)
  with represents_records [OF c(3) ns assms(5)] c(4) eqs(1) OpCommit show ?thesis by auto
next
  case OpFlush
  obtain meta where p: "flush_to_segments X T (E, d) = ((E', d'), Inr meta)"
    using assms(7) OpFlush by (auto simp: completed_def elim: st_then.elims)
  have f: "flushable X (cohort_window_secs (en_config E)) (en_memtable E)" "ss_next_segment_id (en_segment_store E) + 1 \<noteq> 0"
    using assms(6) OpFlush by (simp_all add: fits_def)
  from flush_success [OF assms(1-4) f p] have "engine_inv X E' d' (ess @ [en_memtable E])" "en_memtable E' = []"
    by (metis Engine.select_convs(3) Engine.surjective Engine.update_convs(3,6))+
  with assms(5) OpFlush view_simps(1) show ?thesis by (metis spec_op.simps(5))
next
  case OpSnapshot
  with assms(7) have "E' = fst (Engine_snapshot E)" "d' = d" by auto
  then have "engine_inv X E' d' ess" "en_memtable E' = en_memtable E"
    using assms(4) by (auto simp: Engine_snapshot_def engine_inv_def Let_def registry_register_def)
  with assms(5) OpSnapshot show ?thesis by auto
qed

lemma engine_run_spec:
  assumes "zstd_ok X" "json_ok X" "xor8_ok X" "engine_run X st ops st'"
    and "engine_inv X (fst st) (snd st) ess" "represents (view (en_memtable (fst st)) ess) m"
  shows "\<exists>ess'. engine_inv X (fst st') (snd st') ess' \<and>
     represents (view (en_memtable (fst st')) ess') (fold (spec_op \<circ> snd) ops m)"
  using assms(4-6)
proof (induction arbitrary: ess m rule: engine_run.induct)
  case (run_cons T op st st1 ops st2)
  obtain E d E1 d1 where st: "st = (E, d)" "st1 = (E1, d1)" by (metis prod.exhaust)
  from engine_exec_step [OF assms(1-3), of E d ess m T op E1 d1] run_cons.hyps(1,2) run_cons.prems
  obtain ess1 where "engine_inv X E1 d1 ess1" "represents (view (en_memtable E1) ess1) (spec_op op m)"
    unfolding st by auto
  with run_cons.IH [of ess1 "spec_op op m"] show ?case by (simp add: st)
qed auto

end
