(* ===== verification/EngineDurability.thy ===== *)
theory EngineDurability
  imports EngineFacts
begin

text \<open>
  The engine and its log: writes that never fail, an invariant that ties the memtable to the
  records in the log files, and what an engine that is opened again from the files returns.
\<close>

section \<open>Well-formed directories\<close>

lemma fs_wf_fold_remove [simp]: "fs_wf d \<Longrightarrow> fs_wf (fold fs_remove ns d)"
  by (induction ns arbitrary: d) auto

lemma fs_wf_retire [simp]: "fs_wf d \<Longrightarrow> fs_wf (retire_wal_files cur d)"
  by (simp add: retire_wal_files_def)

lemma fs_wf_flush: "SegmentWriter_flush X i w now es d = Inr (meta, d') \<Longrightarrow> fs_wf d \<Longrightarrow> fs_wf d'"
  by (auto simp: SegmentWriter_flush_def write_dat_and_index_def write_xf_file_def write_idx_file_def Let_def
        and_then_Inr_iff split: if_splits)

lemma fs_wf_add: "add_segment X meta m d = ((m', d'), r) \<Longrightarrow> fs_wf d \<Longrightarrow> fs_wf d'"
  by (auto simp: add_segment_def write_framed_entry_def Let_def split: sum.splits if_splits)

lemma fs_wf_finalize: "finalize_segment X meta s d = ((s', d'), r) \<Longrightarrow> fs_wf d \<Longrightarrow> fs_wf d'"
  by (auto simp: finalize_segment_def split: prod.splits sum.splits dest: fs_wf_add)

lemma fs_wf_flush_to_segments:
  assumes "flush_to_segments X T (E, d) = ((E', d'), r)" "fs_wf d"
  shows "fs_wf d'"
proof -
  obtain E1 w where b: "begin_flush E = (E1, w)" by fastforce
  show ?thesis
  proof (cases w)
    case None
    with b assms show ?thesis by (auto simp: flush_to_segments_def)
  next
    case (Some work)
    show ?thesis
    proof (cases "FlushWork_execute X (ck_flush T) work d")
      case (Inl e)
      with b Some assms show ?thesis by (auto simp: flush_to_segments_def)
    next
      case (Inr md)
      obtain meta d1 where md: "md = (meta, d1)" by fastforce
      have "fs_wf d1" using Inr md assms(2) fs_wf_flush unfolding FlushWork_execute_def by blast
      moreover obtain s2 d2 q where fin: "finalize_segment X meta (en_segment_store E1) d1 = ((s2, d2), q)" by (metis prod.exhaust)
      ultimately have "fs_wf d2" using fs_wf_finalize by blast
      then show ?thesis using assms(1) b Some Inr md fin
        by (cases q) (auto simp: flush_to_segments_def finalize_flush_def Let_def)
    qed
  qed
qed

section \<open>The log files\<close>

lemma list_wal_files_append [simp]:
  "fs_wf d \<Longrightarrow> list_wal_files (fs_append p c d) = list_wal_files d"
  by (rule list_wal_files_eqI) (auto split: option.splits)

lemma list_wal_files_new:
  assumes "fs_wf d" "is_wal_name n" "fs_read d n = None" "\<forall>m \<in> set (list_wal_files d). m < n"
  shows "list_wal_files (fs_write n c d) = list_wal_files d @ [n]"
proof (rule sorted_distinct_set_unique)
  show "set (list_wal_files (fs_write n c d)) = set (list_wal_files d @ [n])"
    using assms(2) by (auto simp: list_wal_files_set)
  show "sorted (list_wal_files d @ [n])"
    using assms(4) by (auto simp: sorted_append list_wal_files_def)
  show "distinct (list_wal_files d @ [n])" using assms(1,4) by (auto simp: list_wal_files_def fs_wf_def)
qed (use assms(1) fs_wf_write [of d n c] in \<open>simp_all add: list_wal_files_def fs_wf_def\<close>)

text \<open>
  The older log files \<open>fs\<close> and the current one hold complete frames, and every file is named
  after an LSN that is not beyond the counter.
\<close>

definition wal_inv :: "ext \<Rightarrow> Engine \<Rightarrow> dir \<Rightarrow> (string \<times> WalRecord list) list \<Rightarrow> WalRecord list \<Rightarrow> bool" where
  "wal_inv X E d fs rs \<longleftrightarrow> fs_wf d \<and>
     list_wal_files d = map fst fs @ [w_path (en_wal E)] \<and>
     (\<forall>(n, l) \<in> set fs. fs_read d n = Some (wal_header @ wal_log X l) \<and> (\<forall>r \<in> set l. frame_ok X r)) \<and>
     fs_read d (w_path (en_wal E)) = Some (wal_header @ wal_log X rs) \<and> (\<forall>r \<in> set rs. frame_ok X r)"

definition names_ok :: "Engine \<Rightarrow> bool" where
  "names_ok E \<longleftrightarrow> w_path (en_wal E) \<le> wal_file_name (en_lsn_counter E)"

definition replayed :: "(string \<times> WalRecord list) list \<Rightarrow> WalRecord list \<Rightarrow> bytes \<rightharpoonup> MemEntry" where
  "replayed fs rs = map_of (rev (map record_kv (concat (map snd fs) @ rs)))"

lemma replayed_simps:
  "replayed fs (rs @ [r]) = (replayed fs rs)(fst (record_kv r) \<mapsto> snd (record_kv r))"
  "replayed (fs @ [(n, rs)]) [] = replayed fs rs"
  by (simp_all add: replayed_def)

lemma replayed_current: "replayed [] rs \<subseteq>\<^sub>m replayed fs rs"
  by (simp add: replayed_def map_le_map_add)

definition durable :: "ext \<Rightarrow> Engine \<Rightarrow> dir \<Rightarrow> kv list list \<Rightarrow> bool" where
  "durable X E d ess \<longleftrightarrow> engine_inv X E d ess \<and>
     (\<exists>fs rs. wal_inv X E d fs rs \<and> map_of (en_memtable E) \<subseteq>\<^sub>m replayed fs rs \<and>
        replayed fs rs \<subseteq>\<^sub>m view (en_memtable E) ess)"

text \<open>Appending a record to the current log.\<close>

lemma wal_inv_append:
  assumes "wal_inv X E d fs rs" "frame_ok X r" "WalWriter_append X r (en_wal E) d = (w1, d1)" "en_wal E1 = w1"
  shows "wal_inv X E1 d1 fs (rs @ [r])"
proof -
  have app: "w_path w1 = w_path (en_wal E)" "d1 = fs_append (w_path (en_wal E)) (wal_frame X r) d"
    using append_frame [OF assms(3)] by auto
  have wf: "fs_wf d" and l: "list_wal_files d = map fst fs @ [w_path (en_wal E)]" using assms(1) by (auto simp: wal_inv_def)
  have "distinct (list_wal_files d)" using wf by (simp add: list_wal_files_def fs_wf_def)
  then have new: "w_path (en_wal E) \<notin> fst ` set fs" using l by auto
  have cur: "fs_read d (w_path (en_wal E)) = Some (wal_header @ wal_log X rs)" using assms(1) by (simp add: wal_inv_def)
  have "fs_read d1 n = fs_read d n" if "(n, l) \<in> set fs" for n l
    using new that unfolding app(2) by (force split: option.split)
  then have "\<forall>(n, l) \<in> set fs. fs_read d1 n = Some (wal_header @ wal_log X l) \<and> (\<forall>r \<in> set l. frame_ok X r)"
    using assms(1) unfolding wal_inv_def by fastforce
  moreover have "fs_read d1 (w_path w1) = Some (wal_header @ wal_log X (rs @ [r]))"
    using cur by (simp add: app wal_log_def)
  moreover have "fs_wf d1" "list_wal_files d1 = map fst fs @ [w_path w1]" using wf l by (simp_all add: app)
  moreover have "\<forall>q \<in> set (rs @ [r]). frame_ok X q" using assms(1,2) by (simp add: wal_inv_def)
  ultimately show ?thesis unfolding wal_inv_def assms(4) by blast
qed

text \<open>Rotation closes the current log and starts an empty one whose name sorts last.\<close>

lemma rotate_wal_inv:
  assumes "wal_inv X E d fs rs" "is_wal_name (w_path (en_wal E))" "w_path (en_wal E) < wal_file_name (en_lsn_counter E)"
  shows "\<exists>E' d'. rotate_wal_if_needed T (E, d) = ((E', d'), Inr ()) \<and> names_ok E' \<and>
     (\<exists>fs' rs'. wal_inv X E' d' fs' rs' \<and> replayed fs' rs' = replayed fs rs)"
proof -
  let ?n = "wal_file_name (en_lsn_counter E)" and ?cur = "w_path (en_wal E)"
  have wf: "fs_wf d" and l: "list_wal_files d = map fst fs @ [?cur]"
    and files: "\<forall>(n, l) \<in> set fs. fs_read d n = Some (wal_header @ wal_log X l) \<and> (\<forall>r \<in> set l. frame_ok X r)"
    and cur: "fs_read d ?cur = Some (wal_header @ wal_log X rs)" "\<forall>r \<in> set rs. frame_ok X r"
    using assms(1) unfolding wal_inv_def by blast+
  have "sorted (map fst fs @ [?cur])" using l by (metis list_wal_files_def sorted_sort)
  then have less: "\<forall>m \<in> set (list_wal_files d). m < ?n" using assms(3) l by (auto simp: sorted_append)
  then have "?n \<notin> set (list_wal_files d)" by blast
  then have none: "fs_read d ?n = None" by (simp add: list_wal_files_set)
  show ?thesis
  proof (cases "needs_rotation (en_wal E) (ck_secs T)")
    case False
    then have "rotate_wal_if_needed T (E, d) = ((E, d), Inr ())" by (simp add: rotate_wal_if_needed_def)
    moreover have "names_ok E" using assms(3) by (simp add: names_ok_def)
    ultimately show ?thesis using assms(1) by blast
  next
    case True
    with none obtain w where w: "WalWriter_create ?n (en_config E) (ck_secs T) d = Inr (w, fs_write ?n wal_header d)" "w_path w = ?n"
      by (simp add: WalWriter_create_def fs_exists_def)
    let ?E = "E\<lparr>en_wal := w\<rparr>" and ?d = "fs_write ?n wal_header d" and ?fs = "fs @ [(?cur, rs)]"
    have rot: "rotate_wal_if_needed T (E, d) = ((?E, ?d), Inr ())"
      using True w by (simp add: rotate_wal_if_needed_def)
    have "list_wal_files ?d = map fst ?fs @ [?n]"
      using list_wal_files_new [OF wf _ none less] l by (simp add: is_wal_name_wal_file_name)
    moreover have "\<forall>(n, l) \<in> set ?fs. fs_read ?d n = Some (wal_header @ wal_log X l) \<and> (\<forall>r \<in> set l. frame_ok X r)"
    proof (clarify, intro conjI)
      fix n l assume "(n, l) \<in> set ?fs"
      then have n: "fs_read d n = Some (wal_header @ wal_log X l)" "\<forall>r \<in> set l. frame_ok X r" using files cur by auto
      then have "n \<noteq> ?n" using none by auto
      with n show "fs_read ?d n = Some (wal_header @ wal_log X l)" by simp
      show "\<forall>r \<in> set l. frame_ok X r" by (rule n)
    qed
    ultimately have "wal_inv X ?E ?d ?fs []" using wf w(2) by (simp add: wal_inv_def)
    moreover have "names_ok ?E" by (simp add: names_ok_def w(2))
    moreover have "replayed ?fs [] = replayed fs rs" by (rule replayed_simps)
    ultimately show ?thesis using rot by blast
  qed
qed

text \<open>A logged write succeeds and keeps the invariant.\<close>

lemma logged_durable:
  assumes "durable X E d ess" "names_ok E" "frame_ok X r" "r_lsn r = en_lsn_counter E + 1" "r_lsn r \<noteq> 0"
  shows "\<exists>E' d'. logged X T r (E, d) = ((E', d'), Inr (r_lsn r)) \<and> durable X E' d' ess \<and> names_ok E'"
proof -
  obtain fs rs where inv: "engine_inv X E d ess" "wal_inv X E d fs rs"
    "map_of (en_memtable E) \<subseteq>\<^sub>m replayed fs rs" "replayed fs rs \<subseteq>\<^sub>m view (en_memtable E) ess"
    using assms(1) by (auto simp: durable_def)
  obtain w1 d1 where w1: "WalWriter_append X r (en_wal E) d = (w1, d1)" by fastforce
  let ?E1 = "E\<lparr>en_lsn_counter := r_lsn r, en_wal := w1\<rparr>"
  have w1': "wal_inv X ?E1 d1 fs (rs @ [r])" by (rule wal_inv_append [OF inv(2) assms(3) w1]) simp
  have path: "w_path w1 = w_path (en_wal E)" using append_frame [OF w1] by simp
  have "en_lsn_counter E < r_lsn r" using assms(4,5) word_less_Suc_self [of "en_lsn_counter E"] by simp
  then have "wal_file_name (en_lsn_counter E) < wal_file_name (r_lsn r)" by simp
  with assms(2) path have lt: "w_path (en_wal ?E1) < wal_file_name (en_lsn_counter ?E1)"
    by (simp add: names_ok_def del: wal_file_name_less)
  from rotate_wal_inv [OF w1' _ lt, of T] engine_invD(4) [OF inv(1)] path
  obtain E2 d2 fs' rs' where r: "rotate_wal_if_needed T (?E1, d1) = ((E2, d2), Inr ())" "names_ok E2"
    "wal_inv X E2 d2 fs' rs'" "replayed fs' rs' = replayed fs (rs @ [r])" by auto
  let ?kv = "record_kv r"
  let ?E3 = "E2\<lparr>en_memtable := btree_insert (fst ?kv) (snd ?kv) (en_memtable E2)\<rparr>"
  have l: "logged X T r (E, d) = ((?E3, d2), Inr (r_lsn r))" using w1 r(1) by (simp add: logged_def)
  note sp = logged_spec [OF l inv(1)]
  have mt: "en_memtable ?E3 = btree_insert (fst ?kv) (snd ?kv) (en_memtable E)" using sp by blast
  have "map_of (en_memtable ?E3) \<subseteq>\<^sub>m replayed fs' rs'"
    unfolding mt r(4) replayed_simps btree_insert_map_of by (rule map_le_upd [OF inv(3)])
  moreover have "replayed fs' rs' \<subseteq>\<^sub>m view (en_memtable ?E3) ess"
    unfolding mt r(4) replayed_simps view_simps by (rule map_le_upd [OF inv(4)])
  moreover have "wal_inv X ?E3 d2 fs' rs'" using r(3) by (simp add: wal_inv_def)
  moreover have "engine_inv X ?E3 d2 ess" using sp by blast
  ultimately have "durable X ?E3 d2 ess" unfolding durable_def by blast
  moreover have "names_ok ?E3" using r(2) by (simp add: names_ok_def)
  ultimately show ?thesis using l by blast
qed

lemma flush_durable:
  assumes "zstd_ok X" "json_ok X" "xor8_ok X" "durable X E d ess" "fits X E (en_memtable E)"
    and "flush_to_segments X T (E, d) = ((E', d'), Inr meta)"
  shows "durable X E' d' (ess @ [en_memtable E]) \<and> (names_ok E \<longrightarrow> names_ok E') \<and> en_lsn_counter E' = en_lsn_counter E"
proof -
  obtain fs rs where inv: "engine_inv X E d ess" "wal_inv X E d fs rs"
    "map_of (en_memtable E) \<subseteq>\<^sub>m replayed fs rs" "replayed fs rs \<subseteq>\<^sub>m view (en_memtable E) ess"
    using assms(4) by (auto simp: durable_def)
  have fl: "flushable X (cohort_window_secs (en_config E)) (en_memtable E)"
    "ss_next_segment_id (en_segment_store E) + 1 \<noteq> 0" using assms(5) by (simp_all add: fits_def)
  note s = flush_success [OF assms(1-3) inv(1) fl assms(6)]
  have E': "E' = E\<lparr>en_memtable := [], en_segment_store := en_segment_store E'\<rparr>" using s by blast
  have eqs: "en_wal E' = en_wal E" "en_memtable E' = []" "en_lsn_counter E' = en_lsn_counter E" by (subst E', simp)+
  let ?cur = "w_path (en_wal E)"
  have cur: "is_wal_name ?cur" "fs_read d ?cur = Some (wal_header @ wal_log X rs)" "\<forall>r \<in> set rs. frame_ok X r" "fs_wf d"
    using inv(2) engine_invD(4) [OF inv(1)] by (simp_all add: wal_inv_def)
  have read: "fs_read d' p = (if p = ?cur then fs_read d p else None)" if "is_wal_name p" for p
    using s that wal_not_segment by simp
  have wf: "fs_wf d'" using fs_wf_flush_to_segments [OF assms(6) cur(4)] .
  have "list_wal_files d' = [?cur]"
  proof (rule sorted_distinct_set_unique)
    show "set (list_wal_files d') = set [?cur]" using read cur(1,2) by (auto simp: list_wal_files_set split: if_splits)
  qed (use wf in \<open>simp_all add: list_wal_files_def fs_wf_def\<close>)
  then have "wal_inv X E' d' [] rs" using wf cur read [OF cur(1)] by (simp add: wal_inv_def eqs)
  moreover have "replayed [] rs \<subseteq>\<^sub>m view (en_memtable E') (ess @ [en_memtable E])"
    unfolding eqs view_simps using replayed_current inv(4) by (rule map_le_trans)
  moreover have "engine_inv X E' d' (ess @ [en_memtable E])" using s by blast
  moreover have "map_of (en_memtable E') \<subseteq>\<^sub>m replayed [] rs" by (simp add: eqs)
  ultimately have "durable X E' d' (ess @ [en_memtable E])" unfolding durable_def by blast
  then show ?thesis by (simp add: names_ok_def eqs)
qed

section \<open>Opening again\<close>

lemma not_wal_names [simp]:
  "\<not> is_wal_name ''LOCK''" "\<not> is_wal_name ''WTOKEN''" "\<not> is_wal_name manifest_path" "\<not> is_wal_name (segment_file i x)"
  using wal_not_segment by (auto simp: is_wal_name_def)

lemmas not_wal_LOCK = not_wal_names(1)

lemma lock_not_store [simp]: "manifest_path \<noteq> ''LOCK''" "segment_file i x \<noteq> ''LOCK''"
  by (simp_all add: manifest_path_def segment_file_def)

lemma open_lock_read [simp]: "p \<noteq> ''LOCK'' \<Longrightarrow> fs_read (open_lock d) p = fs_read d p"
  by (simp add: open_lock_def)

lemma open_lock_wal_files: "fs_wf d \<Longrightarrow> list_wal_files (open_lock d) = list_wal_files d"
  by (rule list_wal_files_eqI) (auto simp: open_lock_def)

text \<open>Replaying the logs over the segments gives the entries the engine had.\<close>

lemma replay_view:
  assumes "map_of mt \<subseteq>\<^sub>m R" "R \<subseteq>\<^sub>m view mt ess" "map_of mt' = R"
  shows "view mt' ess = view mt ess"
proof
  fix k
  show "view mt' ess k = view mt ess k"
  proof (cases "R k")
    case None
    then have "map_of mt k = None" using assms(1) by (cases "map_of mt k") (auto simp: map_le_def dom_def)
    with None show ?thesis by (simp add: view_def map_add_def assms(3))
  next
    case (Some e)
    then have "view mt ess k = Some e" using assms(2) by (auto simp: map_le_def dom_def)
    with Some show ?thesis by (simp add: view_def map_add_def assms(3))
  qed
qed

lemma reopen_durable:
  assumes "lz4_ok X" "json_ok X" "durable X E d ess"
    and "fs_read d (w_path (en_wal E)) = Some file" "word_of_nat (length file) < wal_max_bytes config" "wal_max_age_secs config > 0"
  shows "\<exists>E' d'. Engine_open X config T False d = Inr (E', d') \<and> engine_inv X E' d' ess \<and>
     view (en_memtable E') ess = view (en_memtable E) ess \<and> en_config E' = config"
proof -
  obtain fs rs where inv: "engine_inv X E d ess" "wal_inv X E d fs rs"
    "map_of (en_memtable E) \<subseteq>\<^sub>m replayed fs rs" "replayed fs rs \<subseteq>\<^sub>m view (en_memtable E) ess"
    using assms(3) by (auto simp: durable_def)
  let ?cur = "w_path (en_wal E)" and ?d = "open_lock d"
  have wf: "fs_wf d" and l: "list_wal_files d = map fst fs @ [?cur]"
    and files: "\<forall>(n, l) \<in> set (fs @ [(?cur, rs)]). fs_read d n = Some (wal_header @ wal_log X l) \<and> (\<forall>r \<in> set l. frame_ok X r)"
    using inv(2) by (simp_all add: wal_inv_def)
  have lw: "list_wal_files ?d = map fst fs @ [?cur]" using open_lock_wal_files [OF wf] l by simp
  have ns: "frame_ok X r \<Longrightarrow> ns_ok (r_ns_bytes r)" for r
    using unat_bound [of "r_ns_len r"] by (simp add: frame_ok_def record_ok_def ns_ok_def U16_MAX_def)
  have "\<forall>(n, l) \<in> set (fs @ [(?cur, rs)]). \<exists>body. fs_read ?d n = Some (wal_header @ body) \<and> read_records X body = l \<and>
      (\<forall>r \<in> set l. ns_ok (r_ns_bytes r))"
  proof (clarify, intro exI conjI)
    fix n l assume nl: "(n, l) \<in> set (fs @ [(?cur, rs)])"
    have "n \<in> set (list_wal_files d)" using nl l by force
    then have "n \<noteq> ''LOCK''" using list_wal_files_set [of d] not_wal_LOCK by auto
    then show "fs_read ?d n = Some (wal_header @ wal_log X l)" using files nl by auto
    show "read_records X (wal_log X l) = l"
      using read_records_log [OF assms(1), of l "[]"] files nl by auto
    show "\<forall>r \<in> set l. ns_ok (r_ns_bytes r)" using files nl ns by blast
  qed
  from replay_files_spec [OF this, of "[]"] lw obtain mt rr where
    rec: "recover_from_wal X ?d BTreeMemTable_new = Inr (mt, rr)"
      "map_of mt = replayed fs rs" "ksorted mt"
    by (fastforce simp: recover_from_wal_def BTreeMemTable_new_def replayed_def)
  have cur: "is_wal_name ?cur" using inv(1) by (rule engine_invD)
  have hdr: "file = wal_header @ wal_log X rs" using files assms(4) by auto
  have "fs_read ?d ?cur = Some file" using assms(4) cur not_wal_LOCK by (metis open_lock_read)
  moreover have "saturating_sub_u64 s s = 0" for s by (simp add: saturating_sub_u64_def)
  ultimately have "\<exists>w. open_wal config T (rr_max_lsn rr) ?d = Inr (w, ?d) \<and> w_path w = ?cur"
    using lw assms(5,6) by (auto simp: open_wal_def WalWriter_open_def hdr needs_rotation_def Let_def not_le)
  then obtain w where w: "open_wal config T (rr_max_lsn rr) ?d = Inr (w, ?d)" "w_path w = ?cur" by blast
  have "store_ok X ?d (en_segment_store E) ess"
    using engine_invD(1) [OF inv(1)] by (rule store_ok_frame) simp_all
  from store_reopen [OF assms(2) this, of "cohort_window_secs config"] obtain s where
    s: "SegmentStore_open X (cohort_window_secs config) ?d = Inr (s, ?d)" "store_ok X ?d s ess"
      "ss_cohort_window_secs s = cohort_window_secs config" by blast
  let ?E' = "\<lparr> en_config = config, en_wal = w, en_memtable = mt, en_lsn_counter = rr_max_lsn rr,
     en_txid_counter = rr_max_txid rr, en_segment_store = s, en_snapshot_registry = registry_new,
     en_write_token = load_write_token_from_path ?d \<rparr>"
  have "Engine_open X config T False d = Inr (?E', ?d)"
    using rec(1) w(1) s(1) by (simp add: Engine_open_def Let_def)
  moreover have "engine_inv X ?E' ?d ess" using s(2,3) rec(3) w(2) cur by (simp add: engine_inv_def)
  moreover have "view mt ess = view (en_memtable E) ess" using replay_view [OF inv(3,4) rec(2)] .
  ultimately show ?thesis by auto
qed

section \<open>Operations succeed and keep the invariant\<close>

lemma commit_records_durable:
  assumes "durable X E d ess" "names_ok E" "\<forall>r \<in> set rs. \<forall>l. frame_ok X (r\<lparr>r_lsn := l\<rparr>)"
    and "unat (en_lsn_counter E) + length rs < 2 ^ 64"
  shows "\<exists>E' d' l. commit_records X rs last_lsn (E, d) = ((E', d'), Inr l) \<and> durable X E' d' ess \<and> names_ok E' \<and>
     (rs \<noteq> [] \<longrightarrow> w_path (en_wal E') < wal_file_name (en_lsn_counter E'))"
  using assms
proof (induction rs arbitrary: E d last_lsn)
  case (Cons r rs)
  let ?lsn = "en_lsn_counter E + 1"
  let ?r = "r\<lparr>r_lsn := ?lsn\<rparr>" and ?kv = "record_kv (r\<lparr>r_lsn := en_lsn_counter E + 1\<rparr>)"
  obtain fs rs0 where inv: "engine_inv X E d ess" "wal_inv X E d fs rs0"
    "map_of (en_memtable E) \<subseteq>\<^sub>m replayed fs rs0" "replayed fs rs0 \<subseteq>\<^sub>m view (en_memtable E) ess"
    using Cons.prems(1) by (auto simp: durable_def)
  have fr: "frame_ok X ?r" using Cons.prems(3) by simp
  then have ns: "ns_ok (r_ns_bytes r)"
    using unat_bound [of "r_ns_len r"] by (simp add: frame_ok_def record_ok_def ns_ok_def U16_MAX_def)
  obtain w1 d1 where w1: "WalWriter_append X ?r (en_wal E) d = (w1, d1)" by fastforce
  let ?E1 = "E\<lparr>en_lsn_counter := ?lsn, en_wal := w1, en_memtable := btree_insert (fst ?kv) (snd ?kv) (en_memtable E)\<rparr>"
  have step: "commit_records X (r # rs) last_lsn (E, d) = commit_records X rs ?lsn (?E1, d1)"
    using w1 by (simp add: encode_key_ok [OF ns] record_kv_def Let_def)
  have path: "w_path w1 = w_path (en_wal E)" using append_frame [OF w1] by simp
  have lsn: "unat ?lsn = unat (en_lsn_counter E) + 1" using Cons.prems(4) by (simp add: unat_word_ariths)
  then have "wal_file_name (en_lsn_counter E) < wal_file_name ?lsn" by (simp add: word_less_nat_alt)
  with Cons.prems(2) path have lt: "w_path (en_wal ?E1) < wal_file_name (en_lsn_counter ?E1)"
    by (simp add: names_ok_def del: wal_file_name_less)
  have "fs_read d1 p = fs_read d p" if "\<not> is_wal_name p" for p
    using append_frame [OF w1] engine_invD(4) [OF inv(1)] that by auto
  then have "store_ok X d1 (en_segment_store E) ess" using engine_invD(1) [OF inv(1)] store_ok_wal_frame by blast
  then have "engine_inv X ?E1 d1 ess" using inv(1) path by (simp add: engine_inv_def btree_insert_sorted)
  moreover have "wal_inv X ?E1 d1 fs (rs0 @ [?r])" by (rule wal_inv_append [OF inv(2) fr w1]) simp
  moreover have "map_of (en_memtable ?E1) \<subseteq>\<^sub>m replayed fs (rs0 @ [?r])"
    using map_le_upd [OF inv(3)] by (simp add: replayed_simps btree_insert_map_of)
  moreover have "replayed fs (rs0 @ [?r]) \<subseteq>\<^sub>m view (en_memtable ?E1) ess"
    using map_le_upd [OF inv(4)] by (simp add: replayed_simps view_simps)
  ultimately have "durable X ?E1 d1 ess" unfolding durable_def by blast
  moreover have "names_ok ?E1" using lt by (simp add: names_ok_def)
  moreover have "unat (en_lsn_counter ?E1) + length rs < 2 ^ 64" using lsn Cons.prems(4) by simp
  ultimately obtain E' d' l where ih: "commit_records X rs ?lsn (?E1, d1) = ((E', d'), Inr l)"
    "durable X E' d' ess" "names_ok E'" "rs \<noteq> [] \<longrightarrow> w_path (en_wal E') < wal_file_name (en_lsn_counter E')"
    using Cons.IH [of ?E1 d1 ?lsn] Cons.prems(3) by auto
  moreover have "w_path (en_wal E') < wal_file_name (en_lsn_counter E')"
    using ih lt by (cases "rs = []") auto
  ultimately show ?case unfolding step by blast
qed simp

text \<open>
  Within the limits of the formats: the engine may be written to, namespaces are short enough,
  LSNs and segment ids do not run out, log records fit a frame, and a memtable that is about to
  be flushed fits a segment and its metadata a manifest entry. A transaction is not empty.
\<close>

definition registers :: "ext \<Rightarrow> Clock \<Rightarrow> Engine \<Rightarrow> BTreeMemTable \<Rightarrow> bool" where
  "registers X T E mt \<longleftrightarrow> fits X E mt \<and>
     (\<forall>d meta d'. SegmentWriter_flush X (ss_next_segment_id (en_segment_store E)) (cohort_window_secs (en_config E))
        (ck_flush T) mt d = Inr (meta, d') \<longrightarrow> entry_ok X (addition meta))"

fun op_ready :: "ext \<Rightarrow> Clock \<Rightarrow> engine_op \<Rightarrow> Engine \<Rightarrow> bool" where
  "op_ready X T (OpPut ns k v) E =
     (let r = put_record X T ns k v 0 (en_lsn_counter E + 1);
          mt = btree_insert (fst (record_kv r)) (snd (record_kv r)) (en_memtable E)
      in \<not> readonly (en_config E) \<and> ns \<noteq> [] \<and> ns_ok ns \<and> en_lsn_counter E + 1 \<noteq> 0 \<and> frame_ok X r \<and> (flush_due E mt \<longrightarrow> registers X T E mt))"
| "op_ready X T (OpPutTtl ns k v ttl) E =
     (\<not> readonly (en_config E) \<and> ns \<noteq> [] \<and> ns_ok ns \<and> en_lsn_counter E + 1 \<noteq> 0 \<and> frame_ok X (put_record X T ns k v ttl (en_lsn_counter E + 1)))"
| "op_ready X T (OpDelete ns k) E =
     (\<not> readonly (en_config E) \<and> ns \<noteq> [] \<and> ns_ok ns \<and> en_lsn_counter E + 1 \<noteq> 0 \<and> frame_ok X (delete_record X T ns k (en_lsn_counter E + 1)))"
| "op_ready X T (OpCommit tx) E =
     (\<not> readonly (en_config E) \<and> tx_is_active tx \<and> t_pending tx \<noteq> [] \<and> (\<forall>r \<in> set (t_pending tx). \<forall>l. frame_ok X (r\<lparr>r_lsn := l\<rparr>)) \<and>
      unat (en_lsn_counter E) + length (t_pending tx) < 2 ^ 64)"
| "op_ready X T OpFlush E = registers X T E (en_memtable E)"
| "op_ready X T OpSnapshot E = True"

lemma frame_ok_ns: "frame_ok X r \<Longrightarrow> ns_ok (r_ns_bytes r)"
  using unat_bound [of "r_ns_len r"] by (simp add: frame_ok_def record_ok_def ns_ok_def U16_MAX_def)

lemma flush_ready:
  assumes "zstd_ok X" "json_ok X" "xor8_ok X" "durable X E d ess" "names_ok E" "registers X T E (en_memtable E)"
  shows "\<exists>E' d' meta ess'. flush_to_segments X T (E, d) = ((E', d'), Inr meta) \<and> durable X E' d' ess' \<and> names_ok E'"
proof -
  have fl: "flushable X (cohort_window_secs (en_config E)) (en_memtable E)"
    "ss_next_segment_id (en_segment_store E) + 1 \<noteq> 0" using assms(6) by (simp_all add: registers_def fits_def)
  have "engine_inv X E d ess" using assms(4) by (simp add: durable_def)
  from flush_returns [OF assms(1-3) this fl, of T] assms(6)
  obtain E' d' meta where "flush_to_segments X T (E, d) = ((E', d'), Inr meta)" unfolding registers_def by blast
  with flush_durable [OF assms(1-4) _ this] assms(5,6) show ?thesis unfolding registers_def by blast
qed

lemma put_ready:
  assumes "zstd_ok X" "json_ok X" "xor8_ok X" "durable X E d ess" "names_ok E" "op_ready X T (OpPut ns k v) E"
  shows "\<exists>E' d' ess'. Engine_put X T ns k v (E, d) = ((E', d'), Inr (en_lsn_counter E + 1)) \<and> durable X E' d' ess' \<and> names_ok E'"
proof -
  let ?r = "put_record X T ns k v 0 (en_lsn_counter E + 1)"
  let ?mt = "btree_insert (fst (record_kv ?r)) (snd (record_kv ?r)) (en_memtable E)"
  have ready: "\<not> readonly (en_config E)" "ns_ok ns" "en_lsn_counter E + 1 \<noteq> 0" "frame_ok X ?r"
    "flush_due E ?mt \<longrightarrow> registers X T E ?mt" using assms(6) by (simp_all add: Let_def)
  have r: "r_lsn ?r = en_lsn_counter E + 1" by (simp add: put_record_def)
  obtain E1 d1 where l: "logged X T ?r (E, d) = ((E1, d1), Inr (r_lsn ?r))" "durable X E1 d1 ess" "names_ok E1"
    using logged_durable [OF assms(4,5) ready(4) r, of T] ready(3) r by auto
  have "engine_inv X E d ess" using assms(4) by (simp add: durable_def)
  note sp = logged_spec [OF l(1) this]
  have E1: "en_memtable E1 = ?mt" "en_config E1 = en_config E" "en_segment_store E1 = en_segment_store E" using sp by blast+
  have put: "Engine_put X T ns k v (E, d) =
      (if flush_due E1 ?mt then st_then (flush_to_segments X T (E1, d1)) (\<lambda>st _. (st, Inr (r_lsn ?r)))
       else ((E1, d1), Inr (r_lsn ?r)))"
    using ready(1,2) l(1) E1(1) by (simp add: Engine_put_def write_entry_logged ns_ok_def flush_due_def not_less)
  show ?thesis
  proof (cases "flush_due E1 ?mt")
    case False
    with put l r show ?thesis by auto
  next
    case True
    then have "registers X T E ?mt" using ready(5) E1(2) by (simp add: flush_due_def)
    then have "registers X T E1 (en_memtable E1)" unfolding E1(1) by (simp add: registers_def fits_def E1)
    from flush_ready [OF assms(1-3) l(2,3) this] put True r show ?thesis by auto
  qed
qed

lemma engine_op_returns:
  assumes "zstd_ok X" "json_ok X" "xor8_ok X" "durable X E d ess" "names_ok E" "op_ready X T op E"
  shows "\<exists>E' d' ess'. engine_exec X T op (E, d) = ((E', d'), Inr ()) \<and> op_fits X T op (E, d) \<and> durable X E' d' ess' \<and> names_ok E'"
proof (cases op)
  case (OpPut ns k v)
  have "op_fits X T op (E, d)" using assms(6) OpPut by (auto simp: Let_def registers_def)
  moreover obtain E' d' ess' where "Engine_put X T ns k v (E, d) = ((E', d'), Inr (en_lsn_counter E + 1))"
    "durable X E' d' ess'" "names_ok E'" using put_ready [OF assms(1-5)] assms(6) OpPut by blast
  ultimately show ?thesis using OpPut by (auto simp: completed_def)
next
  case (OpPutTtl ns k v ttl)
  let ?r = "put_record X T ns k v ttl (en_lsn_counter E + 1)"
  have r: "r_lsn ?r = en_lsn_counter E + 1" "frame_ok X ?r" "r_lsn ?r \<noteq> 0" "ns_ok ns" "\<not> readonly (en_config E)"
    using assms(6) OpPutTtl by (simp_all add: put_record_def)
  then have "Engine_put_with_ttl X T ns k v ttl (E, d) = logged X T ?r (E, d)"
    by (simp add: Engine_put_with_ttl_def write_entry_logged ns_ok_def not_less)
  with logged_durable [OF assms(4,5) r(2,1,3), of T] OpPutTtl show ?thesis by (auto simp: completed_def)
next
  case (OpDelete ns k)
  let ?r = "delete_record X T ns k (en_lsn_counter E + 1)"
  have r: "r_lsn ?r = en_lsn_counter E + 1" "frame_ok X ?r" "r_lsn ?r \<noteq> 0" "ns_ok ns" "\<not> readonly (en_config E)"
    using assms(6) OpDelete by (simp_all add: delete_record_def)
  then have "Engine_delete X T ns k (E, d) = logged X T ?r (E, d)" by (simp add: delete_logged)
  with logged_durable [OF assms(4,5) r(2,1,3), of T] OpDelete r(4) show ?thesis by (auto simp: completed_def)
next
  case (OpCommit tx)
  have t: "t_state tx = Active" "t_pending tx \<noteq> []" "\<forall>r \<in> set (t_pending tx). \<forall>l. frame_ok X (r\<lparr>r_lsn := l\<rparr>)"
    "unat (en_lsn_counter E) + length (t_pending tx) < 2 ^ 64"
    using assms(6) OpCommit by (simp_all add: tx_is_active_def)
  obtain E1 d1 l where c: "commit_records X (t_pending tx) (en_lsn_counter E) (E, d) = ((E1, d1), Inr l)"
    "durable X E1 d1 ess" "w_path (en_wal E1) < wal_file_name (en_lsn_counter E1)"
    using commit_records_durable [OF assms(4,5) t(3,4)] t(2) by blast
  obtain fs rs where inv: "engine_inv X E1 d1 ess" "wal_inv X E1 d1 fs rs"
    "map_of (en_memtable E1) \<subseteq>\<^sub>m replayed fs rs" "replayed fs rs \<subseteq>\<^sub>m view (en_memtable E1) ess"
    using c(2) by (auto simp: durable_def)
  obtain E2 d2 fs' rs' where r: "rotate_wal_if_needed T (E1, d1) = ((E2, d2), Inr ())" "names_ok E2"
    "wal_inv X E2 d2 fs' rs'" "replayed fs' rs' = replayed fs rs"
    using rotate_wal_inv [OF inv(2) engine_invD(4) [OF inv(1)] c(3)] by blast
  have E2: "E2 = E1\<lparr>en_wal := en_wal E2\<rparr>" using rotate_spec [OF r(1)] by blast
  have eqs: "en_memtable E2 = en_memtable E1" "en_segment_store E2 = en_segment_store E1" "en_config E2 = en_config E1"
    by (subst E2, simp)+
  have "store_ok X d2 (en_segment_store E1) ess"
    using engine_invD(1) [OF inv(1)] store_ok_wal_frame rotate_frame [OF r(1)] by blast
  then have "engine_inv X E2 d2 ess"
    using inv(1) rotate_path [OF r(1)] by (simp add: engine_inv_def eqs)
  with r(3,4) inv(3,4) have "durable X E2 d2 ess" unfolding durable_def eqs by metis
  moreover have "engine_exec X T op (E, d) = ((E2, d2), Inr ())"
    using OpCommit t(1) c(1) r(1) by (simp add: completed_def commit_transaction_def tx_take_pending_def)
  moreover have "op_fits X T op (E, d)"
    using t(3) OpCommit frame_ok_ns by (fastforce dest: bspec)
  ultimately show ?thesis using r(2) by blast
next
  case OpFlush
  then have "registers X T E (en_memtable E)" using assms(6) by simp
  from flush_ready [OF assms(1-5) this] this OpFlush show ?thesis by (auto simp: completed_def registers_def)
next
  case OpSnapshot
  have "durable X (fst (Engine_snapshot E)) d ess" "names_ok (fst (Engine_snapshot E))"
    using assms(4,5) by (auto simp: Engine_snapshot_def durable_def engine_inv_def wal_inv_def names_ok_def registry_register_def Let_def)
  with OpSnapshot show ?thesis by auto
qed

section \<open>A new database\<close>

definition sample_clock :: Clock where
  "sample_clock = \<lparr> ck_nanos = 1700000000000000000, ck_secs = 1700000000, ck_flush = 1700000000000000000 \<rparr>"

definition new_db :: est where
  "new_db = (\<lparr> en_config = EdgestoreConfig_new,
     en_wal = \<lparr> w_path = wal_file_name 0, w_bytes_written = 8, w_created_at_secs = 1700000000,
                w_max_bytes = wal_max_bytes EdgestoreConfig_new, w_max_age_secs = wal_max_age_secs EdgestoreConfig_new \<rparr>,
     en_memtable = [], en_lsn_counter = 0, en_txid_counter = 0, en_segment_store = new_store,
     en_snapshot_registry = registry_new, en_write_token = 0 \<rparr>,
    [(manifest_path, manifest_header), (wal_file_name 0, wal_header), (''LOCK'', [])])"

lemma wal_name_neq [simp]:
  "wal_file_name n \<noteq> ''LOCK''" "''LOCK'' \<noteq> wal_file_name n" "wal_file_name n \<noteq> ''WTOKEN''" "''WTOKEN'' \<noteq> wal_file_name n"
  "wal_file_name n \<noteq> manifest_path" "manifest_path \<noteq> wal_file_name n"
  "manifest_path \<noteq> ''LOCK''" "''LOCK'' \<noteq> manifest_path" "manifest_path \<noteq> ''WTOKEN''" "''WTOKEN'' \<noteq> manifest_path"
  using not_wal_names is_wal_name_wal_file_name by (metis, metis, metis, metis, metis, metis, simp_all add: manifest_path_def)

lemma new_db_open: "Engine_open X EdgestoreConfig_new sample_clock False [] = Inr new_db"
proof -
  have "recover_from_wal X [(''LOCK'', [])] BTreeMemTable_new =
      Inr ([], \<lparr> rr_records_replayed = 0, rr_records_skipped = 0, rr_max_lsn = 0, rr_max_txid = 0, rr_wal_files_read = 0 \<rparr>)"
    by (simp add: recover_from_wal_def list_wal_files_def fs_names_def BTreeMemTable_new_def)
  moreover have "open_wal EdgestoreConfig_new sample_clock 0 [(''LOCK'', [])] =
      Inr (en_wal (fst new_db), [(wal_file_name 0, wal_header), (''LOCK'', [])])"
    by (simp add: open_wal_def list_wal_files_def fs_names_def WalWriter_create_def fs_exists_def fs_read_def fs_write_def
          fs_remove_def new_db_def sample_clock_def WAL_HEADER_LEN_def)
  ultimately show ?thesis
    by (simp add: Engine_open_def open_lock_def fs_exists_def fs_read_def fs_write_def fs_remove_def SegmentStore_open_def
          Manifest_open_def list_segments_def new_db_def new_store_def load_write_token_from_path_def wtoken_path_def
          EdgestoreConfig_new_def)
qed

lemma new_db_inv: "engine_inv X (fst new_db) (snd new_db) []"
proof -
  have "store_ok X new_dir new_store []" by (rule new_store_ok)
  then have "store_ok X (snd new_db) new_store []"
    by (rule store_ok_frame) (simp_all add: new_db_def new_dir_def new_store_def fs_read_def)
  then show ?thesis by (simp add: engine_inv_def new_db_def new_store_def EdgestoreConfig_new_def)
qed

definition sample_ops :: "(Clock \<times> engine_op) list" where
  "sample_ops = [(sample_clock, OpPutTtl [110] [1] [7] 0), (sample_clock, OpPutTtl [110] [2] [8] 60),
     (sample_clock, OpDelete [110] [1])]"

lemma ns_ok_singleton [simp]: "ns_ok [b]"
  by (simp add: ns_ok_def U16_MAX_def)

lemma new_db_durable: "durable X (fst new_db) (snd new_db) []"
proof -
  have "list_wal_files (snd new_db) = [wal_file_name 0]"
    by (simp add: list_wal_files_def fs_names_def new_db_def)
  then have "wal_inv X (fst new_db) (snd new_db) [] []"
    by (simp add: wal_inv_def fs_wf_def fs_names_def new_db_def fs_read_def)
  then show ?thesis using new_db_inv unfolding durable_def
    by (intro conjI exI [of _ "[]"]) (simp_all add: new_db_def replayed_def view_def)
qed

lemma new_db_names: "names_ok (fst new_db)"
  by (simp add: names_ok_def new_db_def)

text \<open>Small records fit a frame of the sample functions.\<close>

lemma sample_frames:
  assumes "length ns < 1000" "length k < 1000" "length v < 1000"
  shows "frame_ok sample_ext (put_record sample_ext T ns k v ttl l)" "frame_ok sample_ext (delete_record sample_ext T ns k l)"
proof -
  have h: "blake3 sample_ext b = take 32 (b @ replicate 32 0)" "length (take 32 (b @ replicate 32 0)) = 32" for b :: bytes
    by (simp_all add: sample_ext_def)
  then have 32: "length (blake3 sample_ext b) = 32" for b by simp
  have lz: "lz4_compress sample_ext b = b" for b by (simp add: sample_ext_def)
  show "frame_ok sample_ext (put_record sample_ext T ns k v ttl l)" "frame_ok sample_ext (delete_record sample_ext T ns k l)"
    using assms
    by (simp_all add: frame_ok_def record_ok_def put_record_def delete_record_def serialize_record_def 32 lz unat_u16_of_nat)
qed

text \<open>
  C3: Within the limits of the formats every operation succeeds and keeps the log and the store
  consistent. From an engine whose files satisfy the invariant (the logs hold complete frames,
  replaying them gives the memtable and nothing that is not the newest version), a put, put
  with TTL, delete, commit of a non-empty transaction, flush or snapshot returns without an
  error and leaves an engine that satisfies the invariant again. The limits are \<open>op_ready\<close>: the
  engine is not read-only (the code lets a commit pass on a read-only engine, against its
  documentation), namespaces are not empty (which puts assert in debug builds) and have at most
  65535 bytes, every record fits a frame of the log, LSNs and segment ids do not run out, and a
  memtable that is flushed has entries within the block limit of 2 MiB.
\<close>

theorem engine_operations_succeed:
  assumes "zstd_ok X" "json_ok X" "xor8_ok X" "durable X E d ess" "names_ok E" "op_ready X T op E"
  shows "\<exists>E' d' ess'. engine_exec X T op (E, d) = ((E', d'), Inr ()) \<and> durable X E' d' ess' \<and> names_ok E'"
  using engine_op_returns [OF assms] by blast

theorem engine_operations_succeed_witness:
  "\<exists>E' d' ess'. engine_exec sample_ext sample_clock (OpPutTtl [110] [2] [8] 60) new_db = ((E', d'), Inr ()) \<and>
     durable sample_ext E' d' ess' \<and> names_ok E'"
  using engine_operations_succeed [OF sample_laws(2,5,4) new_db_durable new_db_names, of sample_clock "OpPutTtl [110] [2] [8] 60"]
  by (simp add: sample_frames) (simp add: new_db_def EdgestoreConfig_new_def)

text \<open>
  C1: The engine is a key-value map. After any sequence of puts, puts with a TTL, deletes,
  transaction commits, flushes and snapshots that complete, with whatever times the clock
  showed, every lookup returns what the same sequence makes of the map that lookups showed at
  the start; automatic flushes and log rotations cannot be seen. Every step has to be within the
  limits of the formats (\<open>op_fits\<close>): a memtable that is flushed, by request or by the put that fills
  it, must be \<open>flushable\<close>, which asks above all that each entry is serialised to at most 2 MiB less
  the block size, there is a next segment id, and namespaces have at most 65535 bytes. Beyond the
  block limit the claim is false: see \<open>oversized_entry_is_unreadable\<close> in \<open>SegmentFacts\<close>.
\<close>

theorem engine_refines_map:
  assumes "zstd_ok X" "json_ok X" "xor8_ok X" "engine_inv X E d ess" "engine_run X (E, d) ops st'"
    and "\<forall>ns k. ns_ok ns \<longrightarrow> Engine_get X (E, d) ns k = Inr (m (ns, k))" "ns_ok ns"
  shows "Engine_get X st' ns k = Inr (fold (spec_op \<circ> snd) ops m (ns, k))"
proof -
  have "represents (view (en_memtable E) ess) m"
    using assms(6) engine_get_view [OF assms(1,4)] by (simp add: represents_def)
  with engine_run_spec [OF assms(1-3,5)] assms(4) obtain ess' where
    "engine_inv X (fst st') (snd st') ess'"
    "represents (view (en_memtable (fst st')) ess') (fold (spec_op \<circ> snd) ops m)" by auto
  then show ?thesis
    using engine_get_view [OF assms(1) _ assms(7), of "fst st'" "snd st'" ess'] assms(7) by (simp add: represents_def)
qed

text \<open>Logged writes on a database with the sample functions.\<close>

lemma sample_step:
  assumes "durable sample_ext E d ess" "names_ok E" "en_config E = EdgestoreConfig_new" "en_lsn_counter E + 1 \<noteq> 0"
    and "op = OpPutTtl ns k v ttl \<or> op = OpDelete ns k" "length ns < 1000" "length k < 1000" "length v < 1000"
  shows "\<exists>E' d'. engine_exec sample_ext T op (E, d) = ((E', d'), Inr ()) \<and> op_fits sample_ext T op (E, d) \<and>
     durable sample_ext E' d' ess \<and> names_ok E' \<and> en_config E' = EdgestoreConfig_new \<and> en_lsn_counter E' = en_lsn_counter E + 1"
proof -
  let ?l = "en_lsn_counter E + 1"
  define r where "r = (if op = OpDelete ns k then delete_record sample_ext T ns k ?l else put_record sample_ext T ns k v ttl ?l)"
  have ns: "ns_ok ns" using assms(6) by (simp add: ns_ok_def U16_MAX_def)
  have w: "\<not> readonly (en_config E)" by (simp add: assms(3) EdgestoreConfig_new_def)
  have r: "frame_ok sample_ext r" "r_lsn r = ?l"
    using sample_frames [OF assms(6-8)] by (simp_all add: r_def put_record_def delete_record_def)
  obtain E' d' where l: "logged sample_ext T r (E, d) = ((E', d'), Inr ?l)" "durable sample_ext E' d' ess" "names_ok E'"
    using logged_durable [OF assms(1,2) r, of T] r(2) assms(4) by auto
  have "engine_inv sample_ext E d ess" using assms(1) by (simp add: durable_def)
  note sp = logged_spec [OF l(1) this]
  have "engine_exec sample_ext T op (E, d) = ((E', d'), Inr ())"
  proof (cases "op = OpDelete ns k")
    case True
    with l(1) delete_logged [OF ns w] show ?thesis by (simp add: r_def completed_def)
  next
    case False
    with assms(5) l(1) w ns write_entry_logged [OF ns] show ?thesis
      by (simp add: r_def completed_def Engine_put_with_ttl_def ns_ok_def)
  qed
  moreover have "op_fits sample_ext T op (E, d)" using assms(5) ns by auto
  moreover have "en_config E' = EdgestoreConfig_new" "en_lsn_counter E' = ?l"
    using sp r(2) assms(3) by (metis, metis)
  ultimately show ?thesis using l(2,3) by blast
qed

lemma sample_run_exists: "\<exists>E' d'. engine_run sample_ext new_db sample_ops (E', d') \<and> durable sample_ext E' d' [] \<and> names_ok E'"
proof -
  let ?T = sample_clock
  have c0: "en_config (fst new_db) = EdgestoreConfig_new" "en_lsn_counter (fst new_db) = 0" by (simp_all add: new_db_def)
  obtain E1 d1 where 1: "engine_exec sample_ext ?T (OpPutTtl [110] [1] [7] 0) (fst new_db, snd new_db) = ((E1, d1), Inr ())"
    "op_fits sample_ext ?T (OpPutTtl [110] [1] [7] 0) (fst new_db, snd new_db)" "durable sample_ext E1 d1 []" "names_ok E1"
    "en_config E1 = EdgestoreConfig_new" "en_lsn_counter E1 = 1"
    using sample_step [OF new_db_durable new_db_names c0(1), of "OpPutTtl [110] [1] [7] 0" "[110]" "[1]" "[7]" 0 ?T] c0(2) by auto
  obtain E2 d2 where 2: "engine_exec sample_ext ?T (OpPutTtl [110] [2] [8] 60) (E1, d1) = ((E2, d2), Inr ())"
    "op_fits sample_ext ?T (OpPutTtl [110] [2] [8] 60) (E1, d1)" "durable sample_ext E2 d2 []" "names_ok E2"
    "en_config E2 = EdgestoreConfig_new" "en_lsn_counter E2 = 2"
    using sample_step [OF 1(3-5), of "OpPutTtl [110] [2] [8] 60" "[110]" "[2]" "[8]" 60 ?T] 1(6) by auto
  obtain E3 d3 where 3: "engine_exec sample_ext ?T (OpDelete [110] [1]) (E2, d2) = ((E3, d3), Inr ())"
    "op_fits sample_ext ?T (OpDelete [110] [1]) (E2, d2)" "durable sample_ext E3 d3 []" "names_ok E3"
    using sample_step [OF 2(3-5), of "OpDelete [110] [1]" "[110]" "[1]" "[]" 0 ?T] 2(6) by auto
  have "engine_run sample_ext new_db sample_ops (E3, d3)"
    unfolding sample_ops_def
    by (rule run_cons [OF 1(2,1) [unfolded prod.collapse] run_cons [OF 2(2,1) run_cons [OF 3(2,1) run_nil]]])
  with 3(3,4) show ?thesis by blast
qed

theorem engine_refines_map_witness:
  "\<exists>st'. engine_run sample_ext new_db sample_ops st' \<and>
     Engine_get sample_ext st' [110] [1] = Inr None \<and> Engine_get sample_ext st' [110] [2] = Inr (Some [8])"
proof -
  obtain st' where r: "engine_run sample_ext (fst new_db, snd new_db) sample_ops st'"
    using sample_run_exists unfolding prod.collapse by blast
  have empty: "\<forall>ns k. ns_ok ns \<longrightarrow> Engine_get sample_ext (fst new_db, snd new_db) ns k = Inr (Map.empty (ns, k))"
    using engine_get_view [OF sample_laws(2) new_db_inv] by (simp add: view_def visible_def new_db_def)
  have "Engine_get sample_ext st' [110] k = Inr (fold (spec_op \<circ> snd) sample_ops Map.empty ([110], k))" for k
    by (rule engine_refines_map [OF sample_laws(2,5,4) new_db_inv r empty ns_ok_singleton])
  then have "Engine_get sample_ext st' [110] [1] = Inr None" "Engine_get sample_ext st' [110] [2] = Inr (Some [8])"
    by (simp_all add: sample_ops_def)
  with r show ?thesis by (intro exI [of _ st']) simp
qed

text \<open>
  C2: Nothing that was written is lost when the database is closed or the process dies between
  operations. An engine opened from the files of an engine that satisfies the invariant, with
  any clock and any configuration under which the newest log needs no rotation, opens without
  an error and answers every lookup as the old engine did; with the previous property this
  holds after every sequence of operations within the limits.
\<close>

theorem reopen_returns_same_values:
  assumes "lz4_ok X" "zstd_ok X" "json_ok X" "durable X E d ess"
    and "fs_read d (w_path (en_wal E)) = Some file" "word_of_nat (length file) < wal_max_bytes config"
    and "wal_max_age_secs config > 0"
  shows "\<exists>E' d'. Engine_open X config T False d = Inr (E', d') \<and>
     (\<forall>ns k. ns_ok ns \<longrightarrow> Engine_get X (E', d') ns k = Engine_get X (E, d) ns k)"
proof -
  obtain E' d' where o: "Engine_open X config T False d = Inr (E', d')" "engine_inv X E' d' ess"
    "view (en_memtable E') ess = view (en_memtable E) ess" using reopen_durable [OF assms(1,3-7)] by blast
  have "engine_inv X E d ess" using assms(4) by (simp add: durable_def)
  with o engine_get_view [OF assms(2)] show ?thesis by auto
qed

lemma logged_no_rotation:
  assumes "WalWriter_append X r (en_wal E) d = (w1, d1)" "\<not> needs_rotation w1 (ck_secs T)"
  shows "logged X T r (E, d) = ((E\<lparr>en_lsn_counter := r_lsn r, en_wal := w1,
     en_memtable := btree_insert (fst (record_kv r)) (snd (record_kv r)) (en_memtable E)\<rparr>, d1), Inr (r_lsn r))"
  using assms by (simp add: logged_def rotate_wal_if_needed_def)

lemma sample_first_put:
  obtains E d content where
    "logged sample_ext sample_clock (put_record sample_ext sample_clock [110] [2] [8] 60 1) new_db = ((E, d), Inr 1)"
    "fs_read d (w_path (en_wal E)) = Some content" "length content < 1000"
proof -
  let ?r = "put_record sample_ext sample_clock [110] [2] [8] 60 1"
  let ?fr = "wal_frame sample_ext ?r"
  have 32: "length (blake3 sample_ext b) = 32" for b using sample_laws(3) by (simp add: blake3_ok_def)
  have len: "length ?fr < 500"
    by (simp add: wal_frame_def put_record_def serialize_record_def 32) (simp add: sample_ext_def put_record_def serialize_record_def)
  obtain w d1 where a: "WalWriter_append sample_ext ?r (en_wal (fst new_db)) (snd new_db) = (w, d1)" by fastforce
  have w: "w = (en_wal (fst new_db))\<lparr>w_bytes_written := 8 + word_of_nat (length ?fr)\<rparr>"
    "d1 = fs_append (wal_file_name 0) ?fr (snd new_db)"
    using a by (auto simp: WalWriter_append_def new_db_def Let_def)
  have "8 + word_of_nat (length ?fr) < (64 * 1024 * 1024 :: u64)"
    using len by (simp add: word_less_nat_alt unat_word_ariths unat_of_nat)
  then have "\<not> needs_rotation w (ck_secs sample_clock)"
    by (simp add: needs_rotation_def w(1) new_db_def EdgestoreConfig_new_def sample_clock_def saturating_sub_u64_def not_le)
  from logged_no_rotation [OF a this, unfolded prod.collapse]
  have "logged sample_ext sample_clock ?r new_db = (((fst new_db)\<lparr>en_lsn_counter := 1, en_wal := w,
     en_memtable := btree_insert (fst (record_kv ?r)) (snd (record_kv ?r)) (en_memtable (fst new_db))\<rparr>, d1), Inr 1)"
    by (simp add: put_record_def)
  moreover have "fs_read d1 (w_path w) = Some (wal_header @ ?fr)"
  proof -
    have "fs_read (snd new_db) (wal_file_name 0) = Some wal_header" "w_path w = wal_file_name 0"
      by (simp_all add: w(1) new_db_def fs_read_def)
    then show ?thesis by (simp add: w(2))
  qed
  moreover have "length (wal_header @ ?fr) < 1000" using len by (simp add: wal_header_def WAL_MAGIC_def)
  ultimately show thesis
    by (intro that [where content = "wal_header @ ?fr"]) (assumption, simp_all)
qed

theorem reopen_returns_same_values_witness:
  "\<exists>E d E' d'. engine_exec sample_ext sample_clock (OpPutTtl [110] [2] [8] 60) new_db = ((E, d), Inr ()) \<and>
     Engine_open sample_ext EdgestoreConfig_new sample_clock False d = Inr (E', d') \<and>
     (\<forall>ns k. ns_ok ns \<longrightarrow> Engine_get sample_ext (E', d') ns k = Engine_get sample_ext (E, d) ns k)"
proof -
  let ?op = "OpPutTtl [110] [2] [8] 60"
  obtain E d content where l: "logged sample_ext sample_clock (put_record sample_ext sample_clock [110] [2] [8] 60 1) new_db = ((E, d), Inr 1)"
    "fs_read d (w_path (en_wal E)) = Some content" "length content < 1000" by (rule sample_first_put)
  have c0: "en_config (fst new_db) = EdgestoreConfig_new" "en_lsn_counter (fst new_db) = 0" by (simp_all add: new_db_def)
  then have put: "Engine_put_with_ttl sample_ext sample_clock [110] [2] [8] 60 (fst new_db, snd new_db) = ((E, d), Inr 1)"
    using l(1) write_entry_logged [OF ns_ok_singleton [of 110], of sample_ext sample_clock "[2]" "[8]" 60 "fst new_db" "snd new_db"]
    unfolding Engine_put_with_ttl_def prod.case by (simp add: EdgestoreConfig_new_def U16_MAX_def)
  then have ex: "engine_exec sample_ext sample_clock ?op new_db = ((E, d), Inr ())" by (simp add: completed_def)
  obtain E1 d1 where "engine_exec sample_ext sample_clock ?op (fst new_db, snd new_db) = ((E1, d1), Inr ())" "durable sample_ext E1 d1 []"
    using sample_step [OF new_db_durable new_db_names c0(1), of ?op "[110]" "[2]" "[8]" 60 sample_clock] c0(2) by auto
  with ex have dur: "durable sample_ext E d []" by simp
  have "word_of_nat (length content) < wal_max_bytes EdgestoreConfig_new" "wal_max_age_secs EdgestoreConfig_new > 0"
    using l(3) by (simp_all add: EdgestoreConfig_new_def word_less_nat_alt unat_of_nat)
  from reopen_returns_same_values [OF sample_laws(1,2,5) dur l(2) this, of sample_clock] ex show ?thesis by blast
qed

text \<open>
  A read-only engine never writes. Put, put with TTL and delete on an engine that was opened
  read-only return the error \<open>ReadOnly\<close> and leave the engine and every content as they were.
\<close>

theorem readonly_never_writes:
  assumes "Engine_open_readonly X config T busy d0 = Inr (E, d)"
  shows "Engine_put X T' ns k v (E, d) = ((E, d), Inl ReadOnly) \<and>
     Engine_put_with_ttl X T' ns k v ttl (E, d) = ((E, d), Inl ReadOnly) \<and>
     Engine_delete X T' ns k (E, d) = ((E, d), Inl ReadOnly)"
proof -
  have "readonly (en_config E)"
    using assms by (auto simp: Engine_open_readonly_def Engine_open_def Let_def and_then_Inr_iff split: if_splits)
  then show ?thesis by (simp add: Engine_put_def Engine_put_with_ttl_def Engine_delete_def)
qed

theorem readonly_never_writes_witness:
  "\<exists>E d. Engine_open_readonly sample_ext (EdgestoreConfig_new\<lparr>wal_max_bytes := 9\<rparr>) sample_clock False (snd new_db) = Inr (E, d) \<and>
     Engine_put sample_ext sample_clock [110] [1] [2] (E, d) = ((E, d), Inl ReadOnly)"
proof -
  let ?c = "EdgestoreConfig_new\<lparr>wal_max_bytes := 9\<rparr>"
  have "fs_read (snd new_db) (w_path (en_wal (fst new_db))) = Some wal_header" by (simp add: new_db_def fs_read_def)
  then obtain E d where "Engine_open_readonly sample_ext ?c sample_clock False (snd new_db) = Inr (E, d)"
    using reopen_durable [OF sample_laws(1,5) new_db_durable, of wal_header "?c\<lparr>readonly := True\<rparr>" sample_clock]
    by (auto simp: Engine_open_readonly_def EdgestoreConfig_new_def wal_header_def WAL_MAGIC_def)
  with readonly_never_writes [OF this] show ?thesis by blast
qed

end
