(* ===== verification/EngineScan.thy ===== *)
theory EngineScan
  imports EngineDurability
begin

text \<open>
  Scans of the engine, which merge the segments with the memtable: they agree with point
  lookups, pages enumerate a range, and the order of versions on which this rests is kept by
  every operation.
\<close>

section \<open>The newest version of every key of a sorted list\<close>

definition live :: "kv \<Rightarrow> bool" where
  "live x \<longleftrightarrow> e_op (snd x) \<noteq> Delete \<and> e_value (snd x) \<noteq> None"

function newest_list :: "kv list \<Rightarrow> kv list" where
  "newest_list [] = []"
| "newest_list ((k, e) # merged) =
     (k, best_of (takeWhile (same_key k) merged) e) # newest_list (dropWhile (same_key k) merged)"
  by pat_completeness auto
termination
  by (relation "measure length") (auto simp: le_imp_less_Suc length_dropWhile_le)

lemma best_of_spec:
  "lsn_det (set ((k, e) # run)) \<Longrightarrow> \<forall>x \<in> set run. fst x = k \<Longrightarrow> newest (set ((k, e) # run)) k (best_of run e)"
proof (induction run arbitrary: e)
  case Nil
  then show ?case by (simp add: best_of_def newest_def)
next
  case (Cons x run)
  obtain e' where x: "x = (k, e')" using Cons.prems(2) by (cases x) auto
  let ?b = "if e_lsn e' > e_lsn e then e' else e"
  have step: "best_of (x # run) e = best_of run ?b" by (simp add: best_of_def x)
  have "lsn_det (set ((k, ?b) # run))" using Cons.prems(1) by (rule lsn_det_subset) (auto simp: x)
  with Cons.IH Cons.prems(2) have n: "newest (set ((k, ?b) # run)) k (best_of run ?b)" by simp
  then have "e_lsn e \<le> e_lsn (best_of run ?b)" "e_lsn e' \<le> e_lsn (best_of run ?b)"
    by (auto simp: newest_def split: if_splits)
  with n show ?case unfolding step unfolding newest_def x by (auto split: if_splits)
qed

lemma sorted_split_key:
  assumes "sorted (map fst ((k, e) # merged))"
  shows "\<forall>x \<in> set (takeWhile (same_key k) merged). fst x = k" "\<forall>x \<in> set (dropWhile (same_key k) merged). k < fst x"
    "sorted (map fst (dropWhile (same_key k) merged))"
proof -
  show "\<forall>x \<in> set (takeWhile (same_key k) merged). fst x = k"
    by (auto dest!: set_takeWhileD simp: same_key_def)
  have srt: "sorted (map fst merged)" "\<forall>x \<in> set merged. k \<le> fst x" using assms by auto
  then show "sorted (map fst (dropWhile (same_key k) merged))"
    by (metis dropWhile_eq_drop drop_map sorted_wrt_drop)
  from srt show "\<forall>x \<in> set (dropWhile (same_key k) merged). k < fst x"
  proof (induction merged)
    case (Cons y ys)
    show ?case
    proof (cases "fst y = k")
      case True
      with Cons show ?thesis by (auto simp: same_key_def split: prod.splits)
    next
      case False
      then have "k < fst y" using Cons.prems(2) by (simp add: order_less_le)
      with False Cons.prems(1) show ?thesis by (auto simp: same_key_def split: prod.splits)
    qed
  qed simp
qed

lemma newest_list_spec:
  assumes "sorted (map fst merged)" "lsn_det (set merged)"
  shows "ksorted (newest_list merged) \<and> (\<forall>k e. (k, e) \<in> set (newest_list merged) \<longleftrightarrow> newest (set merged) k e)"
  using assms
proof (induction merged rule: newest_list.induct)
  case 1
  then show ?case by (simp add: newest_def)
next
  case (2 k e merged)
  let ?run = "takeWhile (same_key k) merged" and ?rest = "dropWhile (same_key k) merged"
  note sp = sorted_split_key [OF "2.prems"(1)]
  have mem: "set merged = set ?run \<union> set ?rest" by (metis set_append takeWhile_dropWhile_id)
  have "lsn_det (set ?rest)" "lsn_det (set ((k, e) # ?run))"
    using "2.prems"(2) by (rule lsn_det_subset; simp add: mem; blast)+
  with "2.IH" sp have IH: "ksorted (newest_list ?rest)" "\<And>k e. (k, e) \<in> set (newest_list ?rest) \<longleftrightarrow> newest (set ?rest) k e"
    by simp_all
  have best: "newest (set ((k, e) # ?run)) k (best_of ?run e)"
    using \<open>lsn_det (set ((k, e) # ?run))\<close> sp(1) by (rule best_of_spec)
  have off: "(k, x) \<notin> set ?rest" for x using sp(2) by auto
  have on: "k' = k" if "(k', x) \<in> set ((k, e) # ?run)" for k' x using that sp(1) by auto
  have bestM: "newest (set ((k, e) # merged)) k (best_of ?run e)"
    using best off unfolding newest_def list.set mem by auto
  have "newest (set ((k, e) # merged)) k' x \<longleftrightarrow> (k' = k \<and> x = best_of ?run e) \<or> newest (set ?rest) k' x" for k' x
  proof (cases "k' = k")
    case True
    have "\<not> newest (set ?rest) k x" using off by (simp add: newest_def)
    with True bestM newest_unique [OF "2.prems"(2)] show ?thesis by blast
  next
    case False
    then have "(k', y) \<in> set ((k, e) # merged) \<longleftrightarrow> (k', y) \<in> set ?rest" for y using on by (auto simp: mem)
    with False show ?thesis by (auto simp: newest_def)
  qed
  moreover have "k < k'" if "(k', x) \<in> set (newest_list ?rest)" for k' x
    using that IH(2) sp(2) by (auto simp: newest_def)
  ultimately show ?case using IH by auto
qed

section \<open>The loop over merged entries\<close>

text \<open>The entries of one namespace.\<close>

definition enc_kv :: "bytes \<Rightarrow> kv \<Rightarrow> kv" where
  "enc_kv ns = (\<lambda>(uk, e). (enc ns uk, e))"

definition user_items :: "kv list \<Rightarrow> (bytes \<times> bytes) list" where
  "user_items L = map (\<lambda>(k, e). (snd (projr (decode_key k)), the (e_value e))) (filter live L)"

lemma user_items_simps [simp]:
  "user_items [] = []"
  "ns_ok ns \<Longrightarrow> user_items ((enc ns uk, e) # L) =
     (if e_op e = Delete then user_items L
      else case e_value e of None \<Rightarrow> user_items L | Some v \<Rightarrow> (uk, v) # user_items L)"
  by (auto simp: user_items_def live_def decode_enc split: option.split)

definition item_limit :: "ScanBudget option \<Rightarrow> usize option" where
  "item_limit budget = Option.bind budget max_items"

fun take_opt :: "usize option \<Rightarrow> 'a list \<Rightarrow> 'a list" where
  "take_opt None xs = xs"
| "take_opt (Some n) xs = take n xs"

lemma dedup_loop_spec:
  assumes "ns_ok ns" "\<forall>x \<in> set merged. \<exists>uk. fst x = enc ns uk" "\<forall>b. budget = Some b \<longrightarrow> max_bytes b = None"
    and "\<forall>n. item_limit budget = Some n \<longrightarrow> length out < n"
  shows "\<exists>b. dedup_loop budget merged out stats tr = Inr b \<and>
     bs_items b = take_opt (item_limit budget) (out @ user_items (newest_list merged)) \<and>
     (tr \<longrightarrow> bs_truncated b) \<and>
     (\<not> bs_truncated b \<longrightarrow> bs_items b = out @ user_items (newest_list merged))"
  using assms(2,4)
proof (induction merged arbitrary: out stats tr rule: newest_list.induct)
  case 1
  then show ?case by (cases "item_limit budget") (auto simp: dedup_loop.simps)
next
  case (2 k e merged)
  let ?run = "takeWhile (same_key k) merged" and ?rest = "dropWhile (same_key k) merged"
  let ?best = "best_of ?run e" and ?stats = "fold examine ((k, e) # ?run) stats"
  obtain uk where k: "k = enc ns uk" using "2.prems"(1) by auto
  have pre: "\<forall>x \<in> set ?rest. \<exists>uk. fst x = enc ns uk" using "2.prems"(1) by (auto dest: set_dropWhileD)
  note IH = "2.IH" [OF pre]
  show ?case
  proof (cases "e_op ?best = Delete \<or> e_value ?best = None")
    case True
    then have "dedup_loop budget ((k, e) # merged) out stats tr = dedup_loop budget ?rest out ?stats tr"
      by (auto simp: dedup_loop.simps(2) [of budget k e merged] Let_def)
    moreover have "user_items (newest_list ((k, e) # merged)) = user_items (newest_list ?rest)"
      using True by (auto simp: k assms(1))
    ultimately show ?thesis using IH [OF "2.prems"(2)] by auto
  next
    case False
    then obtain v where v: "e_value ?best = Some v" "e_op ?best \<noteq> Delete" by auto
    have items: "user_items (newest_list ((k, e) # merged)) = (uk, v) # user_items (newest_list ?rest)"
      using v by (simp add: k assms(1))
    have step: "dedup_loop budget ((k, e) # merged) out stats tr =
       (if over_budget budget (Suc (length out)) ?stats
        then Inr \<lparr> bs_items = out @ [(uk, v)], bs_truncated = tr \<or> ?rest \<noteq> [], bs_stats = ?stats \<rparr>
        else dedup_loop budget ?rest (out @ [(uk, v)]) ?stats tr)"
      using v decode_enc [OF assms(1), of uk, folded k]
      by (simp add: dedup_loop.simps(2) [of budget k e merged] Let_def del: dropWhile_eq_Nil_conv)
    have over: "over_budget budget (Suc (length out)) ?stats \<longleftrightarrow> item_limit budget = Some (Suc (length out))"
      using "2.prems"(2) assms(3)
      by (cases budget; cases "Option.bind budget max_items") (auto simp: over_budget_def item_limit_def)
    show ?thesis
    proof (cases "item_limit budget = Some (Suc (length out))")
      case True
      have "?rest = [] \<longrightarrow> user_items (newest_list ?rest) = []" by (metis newest_list.simps(1) user_items_simps(1))
      with True step over show ?thesis unfolding items by (auto simp del: dropWhile_eq_Nil_conv)
    next
      case False
      then have "\<forall>n. item_limit budget = Some n \<longrightarrow> length (out @ [(uk, v)]) < n"
        using "2.prems"(2) by (metis Suc_lessI length_append_singleton)
      from IH [OF this, of ?stats tr] show ?thesis using False step over items by auto
    qed
  qed
qed

lemma dedup_all:
  assumes "ns_ok ns" "\<forall>x \<in> set merged. \<exists>uk. fst x = enc ns uk"
  shows "\<exists>b. dedup_filter_scan merged hs None tr = Inr b \<and> bs_items b = user_items (newest_list merged)"
proof -
  let ?s = "QueryStats_default\<lparr>segments_scanned := (if hs then 1 else 0)\<rparr>"
  from dedup_loop_spec [OF assms, of None "[]" ?s tr] show ?thesis
    unfolding dedup_filter_scan_def item_limit_def by auto
qed

lemma dedup_limited:
  assumes "ns_ok ns" "\<forall>x \<in> set merged. \<exists>uk. fst x = enc ns uk" "0 < n"
  shows "\<exists>b. dedup_filter_scan merged hs (Some \<lparr> max_items = Some n, max_bytes = None \<rparr>) tr = Inr b \<and>
     bs_items b = take n (user_items (newest_list merged)) \<and> (tr \<longrightarrow> bs_truncated b) \<and>
     (\<not> bs_truncated b \<longrightarrow> bs_items b = user_items (newest_list merged))"
proof -
  let ?s = "QueryStats_default\<lparr>segments_scanned := (if hs then 1 else 0)\<rparr>"
  let ?b = "Some \<lparr> max_items = Some n, max_bytes = None \<rparr>"
  have lim: "item_limit ?b = Some n" by (simp add: item_limit_def)
  have "\<forall>m. item_limit ?b = Some m \<longrightarrow> length ([] :: (bytes \<times> bytes) list) < m"
    "\<forall>b. ?b = Some b \<longrightarrow> max_bytes b = None" using assms(3) lim by simp_all
  from dedup_loop_spec [OF assms(1,2) this(2,1), of ?s tr] show ?thesis
    unfolding dedup_filter_scan_def lim by simp
qed

section \<open>Merging segments and memtable\<close>

lemma merge_sorted_scans_set [simp]: "set (merge_sorted_scans A B) = set A \<union> set B"
  by (induction A B rule: merge_sorted_scans.induct) auto

lemma merge_sorted_scans_sorted:
  "sorted (map fst A) \<Longrightarrow> sorted (map fst B) \<Longrightarrow> sorted (map fst (merge_sorted_scans A B))"
  by (induction A B rule: merge_sorted_scans.induct) (auto simp: less_imp_le intro: order_trans)

lemma merge_ksorted: "ksorted A \<Longrightarrow> ksorted B \<Longrightarrow> sorted (map fst (merge_sorted_scans A B))"
  by (intro merge_sorted_scans_sorted strict_sorted_imp_sorted)

text \<open>
  \<open>P\<close> selects the keys of a scan. The segments contribute their newest live versions, the memtable
  all its entries.
\<close>

lemma newest_merged:
  assumes "ksorted mt" "\<forall>es \<in> set ess. ksorted es" "lsn_ordered (ess @ [mt])"
    and "ksorted A" "set A = live_newest {x \<in> \<Union> (set ` set ess). P (fst x)}"
    and "ksorted B" "set B = {x \<in> set mt. P (fst x)}"
  shows "ksorted (newest_list (merge_sorted_scans A B))"
    "live (k, e) \<Longrightarrow> (k, e) \<in> set (newest_list (merge_sorted_scans A B)) \<longleftrightarrow> P k \<and> view mt ess k = Some e"
    "lsn_det (set A \<union> set B)"
proof -
  have ord: "lsn_ordered ess" "\<And>x y. x \<in> \<Union> (set ` set ess) \<Longrightarrow> y \<in> set mt \<Longrightarrow> fst x = fst y \<Longrightarrow>
      e_lsn (snd x) < e_lsn (snd y) \<or> snd x = snd y"
    using assms(3) by (auto simp: lsn_ordered_def sorted_wrt_append)
  have seg: "(k, e) \<in> set A \<longleftrightarrow> P k \<and> map_of (concat (rev ess)) k = Some e \<and> e_op e \<noteq> Delete" for k e
    unfolding assms(5) newest_last_segment [OF assms(2) ord(1)] by (auto simp: live_newest_def newest_def)
  have mem: "(k, e) \<in> set B \<longleftrightarrow> P k \<and> map_of mt k = Some e" for k e
    using ksorted_map_of_iff [OF assms(1), of k e] by (auto simp: assms(7))
  have over: "e_lsn e < e_lsn e' \<or> e = e'" if "(k, e) \<in> set A" "(k, e') \<in> set B" for k e e'
    using that ord(2) [of "(k, e)" "(k, e')"] by (auto simp: assms(5,7) live_newest_def newest_def)
  have one: "e = e'" if "(k, e) \<in> set A \<and> (k, e') \<in> set A \<or> (k, e) \<in> set B \<and> (k, e') \<in> set B" for k e e'
    using that seg mem by auto
  show detU: "lsn_det (set A \<union> set B)"
    unfolding lsn_det_def using over one by (metis UnE order_less_irrefl)
  then have det: "lsn_det (set (merge_sorted_scans A B))" by simp
  have srt: "sorted (map fst (merge_sorted_scans A B))"
    using assms(4,6) by (rule merge_ksorted)
  show "ksorted (newest_list (merge_sorted_scans A B))" using newest_list_spec [OF srt det] by blast
  show "live (k, e) \<Longrightarrow> (k, e) \<in> set (newest_list (merge_sorted_scans A B)) \<longleftrightarrow> P k \<and> view mt ess k = Some e"
  proof -
    assume live: "live (k, e)"
    have new: "(k, e) \<in> set (newest_list (merge_sorted_scans A B)) \<longleftrightarrow> newest (set A \<union> set B) k e"
      using newest_list_spec [OF srt det] by simp
    show ?thesis
    proof (cases "map_of mt k")
      case None
      then have "(k, y) \<notin> set B" for y using mem by simp
      then have "newest (set A \<union> set B) k e \<longleftrightarrow> (k, e) \<in> set A"
        using one [of k e] unfolding newest_def by blast
      with None new seg live show ?thesis by (auto simp: view_def map_add_def live_def)
    next
      case (Some x)
      have "newest (set A \<union> set B) k e \<longleftrightarrow> P k \<and> e = x"
      proof
        assume n: "newest (set A \<union> set B) k e"
        then have "P k" using seg mem by (auto simp: newest_def)
        then have x: "(k, x) \<in> set B" using Some mem by simp
        with n have "e_lsn x \<le> e_lsn e" by (simp add: newest_def)
        moreover have "(k, e) \<in> set A \<or> (k, e) \<in> set B" using n by (simp add: newest_def)
        ultimately show "P k \<and> e = x" using \<open>P k\<close> over one x by (meson leD)
      next
        assume "P k \<and> e = x"
        then have x: "(k, e) \<in> set B" using Some mem by simp
        then show "newest (set A \<union> set B) k e" using over one by (fastforce simp: newest_def)
      qed
      with Some new show ?thesis by (auto simp: view_def)
    qed
  qed
qed

lemma user_items_spec:
  assumes "ns_ok ns" "ksorted L" "\<forall>x \<in> set L. \<exists>uk. fst x = enc ns uk"
  shows "ksorted (user_items L)"
    "(uk, v) \<in> set (user_items L) \<longleftrightarrow> (\<exists>e. (enc ns uk, e) \<in> set L \<and> live (enc ns uk, e) \<and> e_value e = Some v)"
proof -
  show mem: "(uk, v) \<in> set (user_items L) \<longleftrightarrow> (\<exists>e. (enc ns uk, e) \<in> set L \<and> live (enc ns uk, e) \<and> e_value e = Some v)"
    for uk v using assms(3)
  proof (induction L)
    case (Cons x L)
    then obtain k e where "x = (enc ns k, e)" by (cases x) auto
    with Cons enc_inject [OF assms(1) assms(1)] show ?case
      by (auto simp: assms(1) live_def split: option.splits if_splits)
  qed simp
  show "ksorted (user_items L)" using assms(2,3)
  proof (induction L)
    case (Cons x L)
    then obtain k e where x: "x = (enc ns k, e)" by (cases x) auto
    have "k < fst p" if p: "p \<in> set (user_items L)" for p
    proof -
      obtain y where y: "y \<in> set L" "fst p = snd (projr (decode_key (fst y)))"
        using p by (auto simp: user_items_def)
      then obtain uk where "fst y = enc ns uk" using Cons.prems(2) by auto
      moreover have "enc ns k < fst y" using Cons.prems(1) x y(1) by auto
      ultimately show ?thesis using y(2) decode_enc [OF assms(1)] by simp
    qed
    with Cons x show ?case by (auto simp: assms(1) split: option.split)
  qed simp
qed

section \<open>Scans and lookups agree\<close>

definition scan_input :: "kv list list \<Rightarrow> BTreeMemTable \<Rightarrow> bytes \<Rightarrow> (bytes \<Rightarrow> bool) \<Rightarrow> kv list \<Rightarrow> kv list \<Rightarrow> bool" where
  "scan_input ess mt ns P A B \<longleftrightarrow>
     (\<forall>k. P k \<longrightarrow> (\<exists>uk. k = enc ns uk)) \<and>
     ksorted A \<and> set A = live_newest {x \<in> \<Union> (set ` set ess). P (fst x)} \<and>
     ksorted B \<and> set B = {x \<in> set mt. P (fst x)}"

lemma engine_inv_runs_sorted: "engine_inv X E d ess \<Longrightarrow> \<forall>es \<in> set ess. ksorted es"
  using engine_invD(1) segment_inv_sorted unfolding store_ok_def store_inv_def
  by (metis in_set_conv_nth list_all2_conv_all_nth)

lemma visible_Some: "visible r = Some v \<longleftrightarrow> (\<exists>e. r = Some e \<and> e_op e \<noteq> Delete \<and> e_value e = Some v)"
  by (auto simp: visible_def split: option.split)

lemma scan_items:
  assumes "zstd_ok X" "engine_inv X E d ess" "lsn_ordered (ess @ [en_memtable E])" "ns_ok ns"
    and "scan_input ess (en_memtable E) ns P A B"
  shows "\<forall>x \<in> set (merge_sorted_scans A B). \<exists>uk. fst x = enc ns uk"
    "ksorted (user_items (newest_list (merge_sorted_scans A B)))"
    "(uk, v) \<in> set (user_items (newest_list (merge_sorted_scans A B))) \<longleftrightarrow>
       P (enc ns uk) \<and> Engine_get X (E, d) ns uk = Inr (Some v)"
proof -
  let ?M = "merge_sorted_scans A B"
  have inp: "\<And>k. P k \<Longrightarrow> \<exists>uk. k = enc ns uk" "ksorted A" "set A = live_newest {x \<in> \<Union> (set ` set ess). P (fst x)}"
    "ksorted B" "set B = {x \<in> set (en_memtable E). P (fst x)}"
    using assms(5) unfolding scan_input_def by blast+
  have P: "P (fst x)" if "x \<in> set ?M" for x
    using that unfolding merge_sorted_scans_set inp(3,5) by (auto simp: live_newest_def newest_def)
  then show keys: "\<forall>x \<in> set ?M. \<exists>uk. fst x = enc ns uk" using inp(1) by blast
  note new = newest_merged [OF engine_invD(2) [OF assms(2)] engine_inv_runs_sorted [OF assms(2)] assms(3) inp(2-5)]
  have sub: "\<forall>x \<in> set (newest_list L). fst x \<in> fst ` set L" for L
  proof (induction L rule: newest_list.induct)
    case (2 k e merged)
    have "fst ` set (dropWhile (same_key k) merged) \<subseteq> fst ` set merged" by (auto dest: set_dropWhileD)
    with 2 show ?case by auto
  qed simp
  have keysN: "\<forall>x \<in> set (newest_list ?M). \<exists>uk. fst x = enc ns uk" using sub [of ?M] keys by fastforce
  show "ksorted (user_items (newest_list ?M))" by (rule user_items_spec(1) [OF assms(4) new(1) keysN])
  show "(uk, v) \<in> set (user_items (newest_list ?M)) \<longleftrightarrow> P (enc ns uk) \<and> Engine_get X (E, d) ns uk = Inr (Some v)"
    unfolding user_items_spec(2) [OF assms(4) new(1) keysN] engine_get_view [OF assms(1,2,4)]
    using new(2) by (auto simp: visible_Some live_def)
qed

lemma lsn_ordered_det:
  assumes "lsn_ordered ess" "\<forall>es \<in> set ess. ksorted es"
  shows "lsn_det (\<Union> (set ` set ess))"
  using assms
proof (induction ess)
  case (Cons es ess)
  have "e = e'" if "(k, e) \<in> set es" "(k, e') \<in> set es" for k e e'
    using that Cons.prems(2) ksorted_map_of_iff [of es k] by (metis list.set_intros(1) option.inject)
  moreover have "e_lsn e < e_lsn e' \<or> e = e'" if "(k, e) \<in> set es" "(k, e') \<in> \<Union> (set ` set ess)" for k e e'
    using that Cons.prems(1) by (fastforce simp: lsn_ordered_def)
  moreover have "lsn_det (\<Union> (set ` set ess))" using Cons by (auto simp: lsn_ordered_def)
  ultimately show ?case unfolding lsn_det_def list.set image_insert Union_insert
    by (metis UnE order_less_irrefl)
qed (simp add: lsn_det_def)

lemma range_input:
  assumes "zstd_ok X" "engine_inv X E d ess" "lsn_ordered (ess @ [en_memtable E])" "lo \<le> hi"
  shows "\<exists>R R2 t B. range_scan_budgeted X d (ss_readers (en_segment_store E)) (enc ns lo) (enc ns hi) m = Inr (R, t) \<and>
     btree_range (en_memtable E) (enc ns lo) (enc ns hi) = Inr B \<and>
     scan_input ess (en_memtable E) ns (\<lambda>k. enc ns lo \<le> k \<and> k < enc ns hi) (R @ R2) B \<and>
     (\<not> t \<longrightarrow> R2 = []) \<and> (t \<longrightarrow> (\<exists>n. m = Some n \<and> n \<le> length R)) \<and>
     (\<forall>n. m = Some n \<longrightarrow> 0 < n \<longrightarrow> length R \<le> n)"
proof -
  have store: "store_inv X d (ss_readers (en_segment_store E)) ess"
    using engine_invD(1) [OF assms(2)] unfolding store_ok_def by blast
  have "lsn_ordered ess" using assms(3) by (simp add: lsn_ordered_def sorted_wrt_append)
  then have det: "lsn_det (entries_between (enc ns lo) (enc ns hi) ess)"
    using lsn_ordered_det engine_inv_runs_sorted [OF assms(2)]
    by (rule_tac lsn_det_subset) (auto simp: entries_between_def)
  have P: "\<exists>uk. k = enc ns uk" if "enc ns lo \<le> k \<and> k < enc ns hi" for k
    using that between_enc [of ns lo k hi] by auto
  have eb: "entries_between (enc ns lo) (enc ns hi) ess = {x \<in> \<Union> (set ` set ess). enc ns lo \<le> fst x \<and> fst x < enc ns hi}"
    by (auto simp: entries_between_def)
  let ?B = "filter (\<lambda>(k, e). enc ns lo \<le> k \<and> k < enc ns hi) (en_memtable E)"
  have B: "btree_range (en_memtable E) (enc ns lo) (enc ns hi) = Inr ?B"
    using assms(4) by (simp add: btree_range_def not_less)
  have mem: "ksorted ?B" "set ?B = {x \<in> set (en_memtable E). enc ns lo \<le> fst x \<and> fst x < enc ns hi}"
    using engine_invD(2) [OF assms(2)] ksorted_filter by (blast, auto)
  from range_scan_budgeted_spec [OF assms(1) store det, of m] P B mem show ?thesis
    unfolding scan_input_def eb by blast
qed

lemma starts_with_enc_iff: "starts_with k (enc ns p) \<longleftrightarrow> (\<exists>uk. k = enc ns uk \<and> starts_with uk p)"
proof
  assume "starts_with k (enc ns p)"
  then obtain r where "k = enc ns p @ r" by (auto simp: starts_with_iff)
  then show "\<exists>uk. k = enc ns uk \<and> starts_with uk p" by (intro exI [of _ "p @ r"]) (simp add: enc_def)
next
  assume "\<exists>uk. k = enc ns uk \<and> starts_with uk p"
  then obtain r where "k = enc ns (p @ r)" by (auto simp: starts_with_iff)
  then show "starts_with k (enc ns p)" by (simp add: enc_def starts_with_iff)
qed

lemma prefix_input:
  assumes "zstd_ok X" "engine_inv X E d ess" "lsn_ordered (ess @ [en_memtable E])"
    and "prefix_upper_bound (enc ns p) = Some u"
  shows "\<exists>R t. range_scan_budgeted X d (ss_readers (en_segment_store E)) (enc ns p) u None = Inr (R, t) \<and>
     filter (\<lambda>(k, _). starts_with k (enc ns p)) R = R \<and>
     scan_input ess (en_memtable E) ns (\<lambda>k. starts_with k (enc ns p)) R (btree_prefix (en_memtable E) (enc ns p))"
proof -
  have store: "store_inv X d (ss_readers (en_segment_store E)) ess"
    using engine_invD(1) [OF assms(2)] unfolding store_ok_def by blast
  have "lsn_ordered ess" using assms(3) by (simp add: lsn_ordered_def sorted_wrt_append)
  then have det: "lsn_det (entries_between (enc ns p) u ess)"
    using lsn_ordered_det engine_inv_runs_sorted [OF assms(2)]
    by (rule_tac lsn_det_subset) (auto simp: entries_between_def)
  have bound: "enc ns p \<le> k \<and> k < u \<longleftrightarrow> starts_with k (enc ns p)" for k
    using prefix_upper_bound_spec [of "enc ns p"] assms(4) by simp
  have eb: "entries_between (enc ns p) u ess = {x \<in> \<Union> (set ` set ess). starts_with (fst x) (enc ns p)}"
    unfolding entries_between_def bound [symmetric] case_prod_beta by simp
  from range_scan_budgeted_spec [OF assms(1) store det, of None] obtain R R2 t where R:
    "range_scan_budgeted X d (ss_readers (en_segment_store E)) (enc ns p) u None = Inr (R, t)"
    "ksorted (R @ R2)" "set (R @ R2) = live_newest (entries_between (enc ns p) u ess)" "R2 = []"
    by blast
  have "\<forall>x \<in> set R. starts_with (fst x) (enc ns p)"
    using R(3) unfolding R(4) eb by (auto simp: live_newest_def newest_def)
  then have flt: "filter (\<lambda>(k, _). starts_with k (enc ns p)) R = R" by (intro filter_True) auto
  have srt: "ksorted (en_memtable E)" by (rule engine_invD(2) [OF assms(2)])
  have B: "btree_prefix (en_memtable E) (enc ns p) = filter (\<lambda>(k, e). starts_with k (enc ns p)) (en_memtable E)"
    unfolding btree_prefix_def by (rule takeWhile_prefix [OF srt])
  have "ksorted (btree_prefix (en_memtable E) (enc ns p))"
    "set (btree_prefix (en_memtable E) (enc ns p)) = {x \<in> set (en_memtable E). starts_with (fst x) (enc ns p)}"
    unfolding B using ksorted_filter [OF srt] by (blast, auto)
  with R flt show ?thesis unfolding scan_input_def eb starts_with_enc_iff by auto
qed

text \<open>An engine with two segments and a memtable.\<close>

definition sample_memtable :: "BTreeMemTable" where
  "sample_memtable = [sample_entry (enc [110] [1]) 12 8, sample_tombstone (enc [110] [2]) 9, sample_entry (enc [110] [5]) 50 10]"

lemma sample_engine:
  "\<exists>E d. engine_inv sample_ext E d [sample_run, sample_run2] \<and> en_memtable E = sample_memtable \<and>
     lsn_ordered ([sample_run, sample_run2] @ [en_memtable E]) \<and> en_lsn_counter E = 10"
proof -
  obtain d s where s: "store_ok sample_ext d s [sample_run, sample_run2]" "ss_cohort_window_secs s = 3600"
    using sample_store_ok by blast
  have m: "ksorted sample_memtable"
    by (simp add: sample_memtable_def sample_entry_def sample_tombstone_def)
  have o: "lsn_ordered ([sample_run, sample_run2] @ [sample_memtable])"
    by (simp add: lsn_ordered_def sample_run_def sample_run2_def sample_memtable_def sample_entry_def sample_tombstone_def)
  define E where "E = (fst new_db)\<lparr>en_segment_store := s, en_memtable := sample_memtable, en_lsn_counter := 10\<rparr>"
  have "engine_inv sample_ext E d [sample_run, sample_run2]"
    using s m by (simp add: E_def engine_inv_def new_db_def EdgestoreConfig_new_def)
  with o show ?thesis by (intro exI [of _ E] exI [of _ d]) (simp add: E_def)
qed

lemma engine_range_spec:
  assumes "zstd_ok X" "engine_inv X E d ess" "lsn_ordered (ess @ [en_memtable E])" "ns_ok ns" "lo \<le> hi"
  shows "\<exists>L. Engine_range X (E, d) ns lo hi = Inr L \<and> ksorted L \<and>
     (\<forall>uk v. (uk, v) \<in> set L \<longleftrightarrow> lo \<le> uk \<and> uk < hi \<and> Engine_get X (E, d) ns uk = Inr (Some v))"
proof -
  from range_input [OF assms(1-3,5), of ns None] obtain R R2 t B where r:
    "range_scan_budgeted X d (ss_readers (en_segment_store E)) (enc ns lo) (enc ns hi) None = Inr (R, t)"
    "btree_range (en_memtable E) (enc ns lo) (enc ns hi) = Inr B"
    "scan_input ess (en_memtable E) ns (\<lambda>k. enc ns lo \<le> k \<and> k < enc ns hi) (R @ R2) B" "R2 = []" by blast
  note sc = scan_items [OF assms(1-4) r(3) [unfolded r(4) append_Nil2]]
  obtain b where "dedup_filter_scan (merge_sorted_scans R B) (R \<noteq> []) None t = Inr b"
    "bs_items b = user_items (newest_list (merge_sorted_scans R B))"
    using dedup_all [OF assms(4) sc(1)] by blast
  then have "Engine_range X (E, d) ns lo hi = Inr (user_items (newest_list (merge_sorted_scans R B)))"
    using r(1,2) by (simp add: Engine_range_def range_core_def encode_key_ok [OF assms(4)])
  then show ?thesis using sc(2,3) by auto
qed

text \<open>
  C6: A range scan and point lookups agree: the scan of a namespace returns exactly the user keys
  between the bounds for which a lookup returns a value, with that value, in increasing order,
  whether a version is in the memtable or in a segment. The start must not be behind the end, and
  later segments and the memtable must hold later versions of a key (\<open>lsn_ordered\<close>). Every run of
  completed operations keeps that order, as the property \<open>versions_stay_ordered\<close> says; it can be lost
  when the engine is opened again after a log rotation and a flush, because the LSN counter then
  restarts below the LSNs in the segments, and by an import; then scans and lookups may disagree.
\<close>

theorem range_agrees_with_get:
  assumes "zstd_ok X" "engine_inv X E d ess" "lsn_ordered (ess @ [en_memtable E])" "ns_ok ns" "lo \<le> hi"
  shows "\<exists>L. Engine_range X (E, d) ns lo hi = Inr L \<and> ksorted L \<and>
     (\<forall>uk v. (uk, v) \<in> set L \<longleftrightarrow> lo \<le> uk \<and> uk < hi \<and> Engine_get X (E, d) ns uk = Inr (Some v))"
  using assms by (rule engine_range_spec)

theorem range_agrees_with_get_witness:
  "\<exists>E d L. en_memtable E = sample_memtable \<and> Engine_range sample_ext (E, d) [110] [] [9] = Inr L \<and> ksorted L \<and>
     (\<forall>uk v. (uk, v) \<in> set L \<longleftrightarrow> [] \<le> uk \<and> uk < [9] \<and> Engine_get sample_ext (E, d) [110] uk = Inr (Some v))"
proof -
  obtain E d where "engine_inv sample_ext E d [sample_run, sample_run2]" "en_memtable E = sample_memtable"
    "lsn_ordered ([sample_run, sample_run2] @ [en_memtable E])" using sample_engine by blast
  from range_agrees_with_get [OF sample_laws(2) this(1,3) ns_ok_singleton, of "[]" "[9]" 110] this(2)
  show ?thesis by auto
qed

lemma engine_prefix_spec:
  assumes "zstd_ok X" "engine_inv X E d ess" "lsn_ordered (ess @ [en_memtable E])" "length ns < U16_MAX"
  shows "\<exists>L. Engine_prefix X (E, d) ns p = Inr L \<and> ksorted L \<and>
     (\<forall>uk v. (uk, v) \<in> set L \<longleftrightarrow> starts_with uk p \<and> Engine_get X (E, d) ns uk = Inr (Some v))"
proof -
  have ns: "ns_ok ns" using assms(4) by (simp add: ns_ok_def)
  have "prefix_upper_bound (enc ns p) \<noteq> None"
  proof
    assume "prefix_upper_bound (enc ns p) = None"
    then have "enc ns p = replicate (length (enc ns p)) 255"
      using prefix_upper_bound_spec [of "enc ns p"] by simp
    then have "take 2 (enc ns p) = take 2 (replicate (length (enc ns p)) 255)" by (rule arg_cong)
    then have "u16_be (word_of_nat (length ns)) = [255, 255]" by (simp add: enc_def)
    then have "u16_of_be (u16_be (word_of_nat (length ns))) = u16_of_be [255, 255]" by simp
    then have "(word_of_nat (length ns) :: u16) = 65535"
      unfolding u16_of_be_u16_be by (simp add: u16_of_be_def)
    then have "unat (word_of_nat (length ns) :: u16) = 65535" by simp
    then show False using assms(4) by (simp add: unat_u16_of_nat U16_MAX_def)
  qed
  then obtain u where u: "prefix_upper_bound (enc ns p) = Some u" by blast
  from prefix_input [OF assms(1-3) u] obtain R t where r:
    "range_scan_budgeted X d (ss_readers (en_segment_store E)) (enc ns p) u None = Inr (R, t)"
    "filter (\<lambda>(k, _). starts_with k (enc ns p)) R = R"
    "scan_input ess (en_memtable E) ns (\<lambda>k. starts_with k (enc ns p)) R (btree_prefix (en_memtable E) (enc ns p))" by blast
  note sc = scan_items [OF assms(1-3) ns r(3)]
  let ?M = "merge_sorted_scans R (btree_prefix (en_memtable E) (enc ns p))"
  obtain b where "dedup_filter_scan ?M (R \<noteq> []) None t = Inr b" "bs_items b = user_items (newest_list ?M)"
    using dedup_all [OF ns sc(1)] by blast
  then have "Engine_prefix X (E, d) ns p = Inr (user_items (newest_list ?M))"
    using r(1,2) u by (simp add: Engine_prefix_def prefix_core_def encode_key_ok [OF ns])
  moreover have "starts_with (enc ns uk) (enc ns p) \<longleftrightarrow> starts_with uk p" for uk
    using enc_inject [OF ns ns] by (auto simp: starts_with_enc_iff)
  ultimately show ?thesis using sc(2,3) by auto
qed

text \<open>
  A prefix scan and point lookups agree: it returns exactly the keys with the prefix for which
  a lookup returns a value, in increasing order. The encoded prefix must not consist of \<open>0xFF\<close>
  bytes only (it never does for a namespace shorter than 65535 bytes).
\<close>

theorem prefix_agrees_with_get:
  assumes "zstd_ok X" "engine_inv X E d ess" "lsn_ordered (ess @ [en_memtable E])" "length ns < U16_MAX"
  shows "\<exists>L. Engine_prefix X (E, d) ns p = Inr L \<and> ksorted L \<and>
     (\<forall>uk v. (uk, v) \<in> set L \<longleftrightarrow> starts_with uk p \<and> Engine_get X (E, d) ns uk = Inr (Some v))"
  using assms by (rule engine_prefix_spec)

theorem prefix_agrees_with_get_witness:
  "\<exists>E d L. en_memtable E = sample_memtable \<and> Engine_prefix sample_ext (E, d) [110] [1] = Inr L \<and> ksorted L \<and>
     (\<forall>uk v. (uk, v) \<in> set L \<longleftrightarrow> starts_with uk [1] \<and> Engine_get sample_ext (E, d) [110] uk = Inr (Some v))"
proof -
  obtain E d where "engine_inv sample_ext E d [sample_run, sample_run2]" "en_memtable E = sample_memtable"
    "lsn_ordered ([sample_run, sample_run2] @ [en_memtable E])" using sample_engine by blast
  from prefix_agrees_with_get [OF sample_laws(2) this(1,3), of "[110]" "[1]"] this(2)
  show ?thesis by (auto simp: U16_MAX_def)
qed

section \<open>Pages\<close>

text \<open>Sorted lists that agree up to a key have the same first elements.\<close>

lemma ksorted_filter_take:
  assumes "ksorted xs"
  shows "filter (\<lambda>x. fst x \<le> m) xs = take (length (filter (\<lambda>x. fst x \<le> m) xs)) xs"
  using assms
proof (induction xs)
  case (Cons x xs)
  show ?case
  proof (cases "fst x \<le> m")
    case False
    then have "filter (\<lambda>x. fst x \<le> m) xs = []" using Cons.prems by (force simp: filter_empty_conv)
    with False show ?thesis by simp
  qed (use Cons in simp)
qed simp

lemma take_eq_upto:
  assumes "ksorted xs" "ksorted ys" "filter (\<lambda>x. fst x \<le> m) xs = filter (\<lambda>x. fst x \<le> m) ys"
    and "n \<le> length (filter (\<lambda>x. fst x \<le> m) xs)"
  shows "take n xs = take n ys"
proof -
  let ?l = "length (filter (\<lambda>x. fst x \<le> m) xs)"
  have "take ?l xs = take ?l ys" using ksorted_filter_take [OF assms(1)] ksorted_filter_take [OF assms(2)] assms(3) by metis
  then have "take n (take ?l xs) = take n (take ?l ys)" by simp
  with assms(4) show ?thesis by (simp add: min_def)
qed

text \<open>
  The merge with a truncated list of segment entries: what is cut lies behind the last key \<open>m\<close>.
\<close>

lemma newest_list_upto:
  assumes "ksorted A" "ksorted B" "lsn_det (set A \<union> set B)" "A = R @ R2" "R \<noteq> []" "m = fst (last R)"
  shows "filter (\<lambda>x. fst x \<le> m) (newest_list (merge_sorted_scans R B)) =
     filter (\<lambda>x. fst x \<le> m) (newest_list (merge_sorted_scans A B))"
proof (rule ksorted_set_unique)
  have R: "ksorted R" using assms(1) unfolding assms(4) ksorted_append by blast
  have srt: "sorted (map fst (merge_sorted_scans A B))" "sorted (map fst (merge_sorted_scans R B))"
    using merge_ksorted assms(1,2) R by blast+
  have det: "lsn_det (set (merge_sorted_scans A B))" "lsn_det (set (merge_sorted_scans R B))"
    using assms(3) by simp (rule lsn_det_subset [OF assms(3)], use assms(4) in auto)
  note spA = newest_list_spec [OF srt(1) det(1)] and spR = newest_list_spec [OF srt(2) det(2)]
  show "ksorted (filter (\<lambda>x. fst x \<le> m) (newest_list (merge_sorted_scans R B)))"
    "ksorted (filter (\<lambda>x. fst x \<le> m) (newest_list (merge_sorted_scans A B)))"
    using spA spR ksorted_filter by blast+
  have "(k, e) \<in> set R \<longleftrightarrow> (k, e) \<in> set A" if "k \<le> m" for k e
  proof -
    have "m < fst x" if "x \<in> set R2" for x
      using assms(1) last_in_set [OF assms(5)] that unfolding assms(4,6) ksorted_append by blast
    with that show ?thesis unfolding assms(4) by fastforce
  qed
  then have "newest (set R \<union> set B) k e \<longleftrightarrow> newest (set A \<union> set B) k e" if "k \<le> m" for k e
    using that by (simp add: newest_def)
  then have "(k, e) \<in> set (filter (\<lambda>x. fst x \<le> m) (newest_list (merge_sorted_scans R B))) \<longleftrightarrow>
      (k, e) \<in> set (filter (\<lambda>x. fst x \<le> m) (newest_list (merge_sorted_scans A B)))" for k e
    using spA spR by auto
  then show "set (filter (\<lambda>x. fst x \<le> m) (newest_list (merge_sorted_scans R B))) =
      set (filter (\<lambda>x. fst x \<le> m) (newest_list (merge_sorted_scans A B)))" unfolding set_eq_iff by (metis surj_pair)
qed

lemma newest_list_subset:
  assumes "sorted (map fst M)" "lsn_det (set M)"
  shows "set (newest_list M) \<subseteq> set M" "fst ` set (newest_list M) = fst ` set M"
proof -
  note sp = newest_list_spec [OF assms]
  show sub: "set (newest_list M) \<subseteq> set M" using sp by (auto simp: newest_def)
  have "k \<in> fst ` set (newest_list M)" if "(k, e) \<in> set M" for k e
  proof -
    let ?L = "{e_lsn x | x. (k, x) \<in> set M}"
    have "finite ?L" using finite_imageI [OF finite_set, of "\<lambda>x. e_lsn (snd x)" M] by (rule rev_finite_subset) force
    moreover have "?L \<noteq> {}" using that by auto
    ultimately have "Max ?L \<in> ?L" by (rule Max_in)
    then obtain x where x: "(k, x) \<in> set M" "e_lsn x = Max ?L" by auto
    have "e_lsn y \<le> Max ?L" if "(k, y) \<in> set M" for y
      using \<open>finite ?L\<close> by (rule Max_ge) (use that in blast)
    with x have "newest (set M) k x" by (simp add: newest_def)
    then have "(k, x) \<in> set (newest_list M)" using sp by blast
    then show ?thesis by force
  qed
  with sub show "fst ` set (newest_list M) = fst ` set M" by auto
qed

lemma truncated_merge_take:
  assumes "ksorted A" "ksorted B" "lsn_det (set A \<union> set B)" "A = R @ R2" "R2 \<noteq> [] \<longrightarrow> n \<le> length R" "0 < n"
  shows "take n (newest_list (merge_sorted_scans R B)) = take n (newest_list (merge_sorted_scans A B))"
proof (cases "R2 = []")
  case False
  then have n: "n \<le> length R" "R \<noteq> []" using assms(5,6) by auto
  define m where "m = fst (last R)"
  let ?M = "merge_sorted_scans R B"
  have R: "ksorted R" using assms(1) unfolding assms(4) ksorted_append by blast
  have srt: "sorted (map fst (merge_sorted_scans A B))" "sorted (map fst ?M)"
    using merge_ksorted assms(1,2) R by blast+
  have det: "lsn_det (set (merge_sorted_scans A B))" "lsn_det (set ?M)"
    using assms(3) by simp (rule lsn_det_subset [OF assms(3)], use assms(4) in auto)
  have k: "ksorted (newest_list ?M)" "ksorted (newest_list (merge_sorted_scans A B))"
    using newest_list_spec [OF srt(2) det(2)] newest_list_spec [OF srt(1) det(1)] by blast+
  have last: "fst x \<le> m" if "x \<in> set R" for x
    using that R n(2) unfolding m_def by (cases R rule: rev_cases) (auto simp: sorted_wrt_append less_imp_le)
  have "fst ` set R \<subseteq> fst ` set (filter (\<lambda>x. fst x \<le> m) (newest_list ?M))"
  proof
    fix q assume q: "q \<in> fst ` set R"
    then have "q \<in> fst ` set (newest_list ?M)" unfolding newest_list_subset(2) [OF srt(2) det(2)] by auto
    moreover have "q \<le> m" using q last by blast
    ultimately show "q \<in> fst ` set (filter (\<lambda>x. fst x \<le> m) (newest_list ?M))" unfolding set_filter by blast
  qed
  then have "card (fst ` set R) \<le> card (fst ` set (filter (\<lambda>x. fst x \<le> m) (newest_list ?M)))"
    by (intro card_mono) auto
  also have "\<dots> \<le> card (set (filter (\<lambda>x. fst x \<le> m) (newest_list ?M)))" by (rule card_image_le) simp
  also have "\<dots> \<le> length (filter (\<lambda>x. fst x \<le> m) (newest_list ?M))" by (rule card_length)
  finally have "n \<le> length (filter (\<lambda>x. fst x \<le> m) (newest_list ?M))"
    using n(1) distinct_card [OF ksorted_distinct [OF R]] by simp
  with take_eq_upto [OF k newest_list_upto [OF assms(1-4) n(2) m_def]] show ?thesis by blast
qed (use assms(4) in simp)

text \<open>Entries of segments have a value unless they are deletions.\<close>

lemma segment_values:
  assumes "engine_inv X E d ess" "es \<in> set ess" "x \<in> set es"
  shows "e_op (snd x) = Delete \<longleftrightarrow> e_value (snd x) = None"
proof -
  obtain r where "segment_inv X d r es"
    using engine_invD(1) [OF assms(1)] assms(2) unfolding store_ok_def store_inv_def
    by (metis in_set_conv_nth list_all2_conv_all_nth)
  then obtain bs where "concat bs = es" "\<forall>b \<in> set bs. block_ok b" unfolding segment_inv_def by blast
  with assms(3) have "entry_wf x" by (auto simp: block_ok_def)
  then show ?thesis by (cases x) (simp add: entry_wf_def)
qed

definition page_start :: "bytes option \<Rightarrow> bytes \<Rightarrow> bytes" where
  "page_start cursor start = (case cursor of Some c \<Rightarrow> c @ [0] | None \<Rightarrow> start)"

lemma user_items_live: "\<forall>x \<in> set L. live x \<Longrightarrow> user_items L = map (\<lambda>(k, e). (snd (projr (decode_key k)), the (e_value e))) L"
  by (simp add: user_items_def)

lemma range_page_spec:
  assumes "zstd_ok X" "engine_inv X E d ess" "lsn_ordered (ess @ [en_memtable E])" "ns_ok ns"
    and "page_start cursor start \<le> hi" "0 < n"
    and "\<forall>x \<in> set (en_memtable E). live x"
  shows "\<exists>p L. range_page X (E, d) ns start hi cursor n = Inr p \<and>
     Engine_range X (E, d) ns (page_start cursor start) hi = Inr L \<and> ksorted L \<and> (\<forall>x \<in> set L. page_start cursor start \<le> fst x) \<and>
     rp_items p = take n L \<and>
     (case rp_next_key p of None \<Rightarrow> rp_items p = L | Some k \<Rightarrow> rp_items p \<noteq> [] \<and> k = fst (last (rp_items p)))"
proof -
  let ?lo = "page_start cursor start" and ?b = "Some \<lparr> max_items = Some n, max_bytes = None \<rparr>"
  let ?page = "\<lambda>b. \<lparr> rp_items = bs_items b,
     rp_next_key = (if bs_truncated b \<and> bs_items b \<noteq> [] then Some (fst (last (bs_items b))) else None) \<rparr>"
  from range_input [OF assms(1-3,5), of ns "Some n"] obtain R R2 t B where r:
    "range_scan_budgeted X d (ss_readers (en_segment_store E)) (enc ns ?lo) (enc ns hi) (Some n) = Inr (R, t)"
    "btree_range (en_memtable E) (enc ns ?lo) (enc ns hi) = Inr B"
    "scan_input ess (en_memtable E) ns (\<lambda>k. enc ns ?lo \<le> k \<and> k < enc ns hi) (R @ R2) B"
    "\<not> t \<longrightarrow> R2 = []" "t \<longrightarrow> (\<exists>m. Some n = Some m \<and> m \<le> length R)" by blast
  from range_input [OF assms(1-3,5), of ns None] obtain R' R2' t' B' where r':
    "range_scan_budgeted X d (ss_readers (en_segment_store E)) (enc ns ?lo) (enc ns hi) None = Inr (R', t')"
    "btree_range (en_memtable E) (enc ns ?lo) (enc ns hi) = Inr B'"
    "scan_input ess (en_memtable E) ns (\<lambda>k. enc ns ?lo \<le> k \<and> k < enc ns hi) (R' @ R2') B'" "R2' = []" by blast
  have same: "R' = R @ R2" "B' = B"
    using r(2,3) r'(2-4) unfolding scan_input_def by (auto intro: ksorted_set_unique)
  let ?U = "user_items (newest_list (merge_sorted_scans (R @ R2) B))" and ?V = "user_items (newest_list (merge_sorted_scans R B))"
  have inp: "ksorted (R @ R2)" "set (R @ R2) = live_newest {x \<in> \<Union> (set ` set ess). enc ns ?lo \<le> fst x \<and> fst x < enc ns hi}"
    "ksorted B" "set B = {x \<in> set (en_memtable E). enc ns ?lo \<le> fst x \<and> fst x < enc ns hi}"
    using r(3) unfolding scan_input_def by blast+
  note sc = scan_items [OF assms(1-4) r(3)]
  have keys: "\<forall>x \<in> set (merge_sorted_scans R B). \<exists>uk. fst x = enc ns uk" using sc(1) by auto
  note det = newest_merged(3) [OF engine_invD(2) [OF assms(2)] engine_inv_runs_sorted [OF assms(2)] assms(3) inp]
  have R: "ksorted R" using inp(1) unfolding ksorted_append by blast
  have det': "lsn_det (set R \<union> set B)" using det by (rule lsn_det_subset) auto
  have lv: "live x" if "x \<in> set (R @ R2) \<union> set B" for x
    using that assms(7) segment_values [OF assms(2)] unfolding inp(2,4) live_newest_def newest_def live_def by fastforce
  have sub: "set (newest_list (merge_sorted_scans (R @ R2) B)) \<subseteq> set (R @ R2) \<union> set B"
    "set (newest_list (merge_sorted_scans R B)) \<subseteq> set R \<union> set B"
    using newest_list_subset(1) [OF merge_ksorted [OF inp(1,3)]] newest_list_subset(1) [OF merge_ksorted [OF R inp(3)]] det det'
    by simp_all
  have take: "take n ?V = take n ?U"
  proof -
    have "take n (newest_list (merge_sorted_scans R B)) = take n (newest_list (merge_sorted_scans (R @ R2) B))"
      using r(4,5) assms(6) by (intro truncated_merge_take [OF inp(1,3) det refl]) auto
    moreover have "\<forall>x \<in> set (newest_list (merge_sorted_scans (R @ R2) B)). live x"
      "\<forall>x \<in> set (newest_list (merge_sorted_scans R B)). live x" using sub lv by auto
    ultimately show ?thesis by (simp add: user_items_live take_map)
  qed
  obtain b where b: "dedup_filter_scan (merge_sorted_scans R B) (R \<noteq> []) ?b t = Inr b" "bs_items b = take n ?V"
    "t \<longrightarrow> bs_truncated b" "\<not> bs_truncated b \<longrightarrow> bs_items b = ?V"
    using dedup_limited [OF assms(4) keys assms(6)] by blast
  obtain b' where "dedup_filter_scan (merge_sorted_scans (R @ R2) B) (R @ R2 \<noteq> []) None t' = Inr b'" "bs_items b' = ?U"
    using dedup_all [OF assms(4) sc(1)] by blast
  then have rng: "Engine_range X (E, d) ns ?lo hi = Inr ?U"
    using r'(1,2) unfolding same by (simp add: Engine_range_def range_core_def encode_key_ok [OF assms(4)])
  have page: "range_page X (E, d) ns start hi cursor n = Inr (?page b)"
    using r(1,2) b(1) assms(6)
    by (simp add: range_page_def Engine_range_budgeted_def range_core_def encode_key_ok [OF assms(4)]
          page_start_def [symmetric] Let_def)
  have full: "bs_items b = ?U" if "\<not> (bs_truncated b \<and> bs_items b \<noteq> [])"
  proof (cases "bs_truncated b")
    case True
    then have "take n ?U = []" using that b(2) take by metis
    then have "?U = []" using assms(6) unfolding take_eq_Nil by (metis less_not_refl)
    moreover have "bs_items b = []" using that True by blast
    ultimately show ?thesis by metis
  next
    case False
    then have "R2 = []" "bs_items b = ?V" using b(3,4) r(4) by blast+
    then show ?thesis by (metis append_Nil2)
  qed
  have low: "\<forall>x \<in> set ?U. ?lo \<le> fst x"
  proof
    fix x assume "x \<in> set ?U"
    then have "enc ns ?lo \<le> enc ns (fst x)" using sc(3) [of "fst x" "snd x"] unfolding prod.collapse by blast
    then show "?lo \<le> fst x" by simp
  qed
  have tk: "bs_items b = take n ?U" using b(2) take by (rule trans)
  show ?thesis
  proof (rule exI, rule exI, intro conjI)
    show "range_page X (E, d) ns start hi cursor n = Inr (?page b)" by (rule page)
    show "Engine_range X (E, d) ns ?lo hi = Inr ?U" by (rule rng)
    show "case rp_next_key (?page b) of
        None \<Rightarrow> rp_items (?page b) = ?U
      | Some k \<Rightarrow> rp_items (?page b) \<noteq> [] \<and>
          k = fst (last (rp_items (?page b)))"
      using full by (cases "bs_truncated b \<and> bs_items b \<noteq> []") simp_all
  qed (use sc(2) low tk in simp_all)
qed

text \<open>A client that follows the cursors, page by page.\<close>

fun collect_pages :: "(bytes option \<Rightarrow> RangePage res) \<Rightarrow> nat \<Rightarrow> bytes option \<Rightarrow> (bytes \<times> bytes) list option" where
  "collect_pages fetch 0 cursor = None"
| "collect_pages fetch (Suc fuel) cursor =
     (case fetch cursor of
        Inl _ \<Rightarrow> None
      | Inr p \<Rightarrow> (case rp_next_key p of
            None \<Rightarrow> Some (rp_items p)
          | Some k \<Rightarrow> map_option (append (rp_items p)) (collect_pages fetch fuel (Some k))))"

lemma snoc_zero_le: "c @ [0] \<le> k \<longleftrightarrow> (c :: bytes) < k"
proof (induction c arbitrary: k)
  case Nil
  then show ?case by (cases k) (auto simp: word_neq_0_conv)
next
  case (Cons a c)
  then show ?case by (cases k) auto
qed

lemma ksorted_drop_mem:
  assumes "ksorted L" "take n L \<noteq> []" "c = fst (last (take n L))"
  shows "x \<in> set (drop n L) \<longleftrightarrow> x \<in> set L \<and> c < fst x" "c \<in> fst ` set L"
proof -
  let ?T = "take n L" and ?D = "drop n L"
  have split: "ksorted (?T @ ?D)" using assms(1) by simp
  have c: "last ?T \<in> set ?T" using assms(2) by simp
  have T: "fst y \<le> c" if "y \<in> set ?T" for y
    using that split assms(2) unfolding assms(3) by (cases ?T rule: rev_cases) (auto simp: sorted_wrt_append less_imp_le)
  have D: "c < fst y" if "y \<in> set ?D" for y
    using that split c unfolding assms(3) ksorted_append by blast
  have L: "set L = set ?T \<union> set ?D" by (metis append_take_drop_id set_append)
  show "x \<in> set ?D \<longleftrightarrow> x \<in> set L \<and> c < fst x" unfolding L using T D by (blast dest: leD)
  show "c \<in> fst ` set L" unfolding L assms(3) using c by blast
qed

lemma collect_pages_spec:
  assumes "zstd_ok X" "engine_inv X E d ess" "lsn_ordered (ess @ [en_memtable E])" "ns_ok ns" "0 < n"
    and "\<forall>x \<in> set (en_memtable E). live x"
    and "page_start cursor start \<le> hi" "Engine_range X (E, d) ns (page_start cursor start) hi = Inr L" "length L < fuel"
  shows "collect_pages (\<lambda>c. range_page X (E, d) ns start hi c n) fuel cursor = Some L"
  using assms(7-9)
proof (induction fuel arbitrary: cursor L)
  case (Suc fuel)
  from range_page_spec [OF assms(1-4) Suc.prems(1) assms(5,6)] Suc.prems(2) obtain p where p:
    "range_page X (E, d) ns start hi cursor n = Inr p" "ksorted L" "rp_items p = take n L"
    "case rp_next_key p of None \<Rightarrow> rp_items p = L | Some k \<Rightarrow> rp_items p \<noteq> [] \<and> k = fst (last (rp_items p))" by auto
  show ?case
  proof (cases "rp_next_key p")
    case None
    then show ?thesis using p by simp
  next
    case (Some c)
    have c: "take n L \<noteq> []" "c = fst (last (take n L))" using p(3,4) Some by auto
    note mem = ksorted_drop_mem [OF p(2) c]
    from engine_range_spec [OF assms(1-4) Suc.prems(1)] Suc.prems(2)
    have L: "(uk, v) \<in> set L \<longleftrightarrow> page_start cursor start \<le> uk \<and> uk < hi \<and> Engine_get X (E, d) ns uk = Inr (Some v)" for uk v
      by auto
    then have "page_start cursor start \<le> c" "c < hi" using mem(2) by auto
    then have hi: "page_start (Some c) start \<le> hi" by (simp add: page_start_def snoc_zero_le)
    from engine_range_spec [OF assms(1-4) hi] obtain L' where L': "Engine_range X (E, d) ns (page_start (Some c) start) hi = Inr L'"
      "ksorted L'" "\<And>uk v. (uk, v) \<in> set L' \<longleftrightarrow> c < uk \<and> uk < hi \<and> Engine_get X (E, d) ns uk = Inr (Some v)"
      by (auto simp: page_start_def snoc_zero_le)
    have "set L' = set (drop n L)"
      unfolding set_eq_iff
    proof
      fix x :: "bytes \<times> bytes"
      obtain uk v where x: "x = (uk, v)" by (cases x)
      have "c < uk \<Longrightarrow> page_start cursor start \<le> uk" using \<open>page_start cursor start \<le> c\<close> by simp
      then show "x \<in> set L' \<longleftrightarrow> x \<in> set (drop n L)" unfolding x mem(1) L L'(3) by auto
    qed
    moreover have "ksorted (drop n L)" using p(2) by (simp add: drop_map [symmetric] sorted_wrt_drop)
    ultimately have eq: "L' = drop n L" using L'(2) by (intro ksorted_set_unique)
    moreover have "length (drop n L) < fuel" using c(1) Suc.prems(3) assms(5) by (cases L) auto
    ultimately have "collect_pages (\<lambda>c. range_page X (E, d) ns start hi c n) fuel (Some c) = Some (drop n L)"
      using Suc.IH [OF hi] L'(1) by simp
    with p(1,3) Some show ?thesis by simp
  qed
qed simp

text \<open>
  C23: Following the cursors of \<open>range_page\<close> enumerates a range: whatever the page size, the pages
  one after the other are the result of the unbounded scan and their number is bounded by its
  length, when no version in the memtable is a deletion (deletions that are already in a
  segment do no harm).
\<close>

theorem pages_enumerate_range:
  assumes "zstd_ok X" "engine_inv X E d ess" "lsn_ordered (ess @ [en_memtable E])" "ns_ok ns" "0 < n" "lo \<le> hi"
    and "\<forall>x \<in> set (en_memtable E). live x"
  shows "\<exists>L. Engine_range X (E, d) ns lo hi = Inr L \<and>
     collect_pages (\<lambda>c. range_page X (E, d) ns lo hi c n) (Suc (length L)) None = Some L"
proof -
  obtain L where L: "Engine_range X (E, d) ns lo hi = Inr L" using engine_range_spec [OF assms(1-4,6)] by blast
  with collect_pages_spec [OF assms(1-5,7), of None lo hi L "Suc (length L)"] assms(6) show ?thesis
    by (simp add: page_start_def)
qed

theorem pages_enumerate_range_witness:
  "\<exists>E d L. en_memtable E = [sample_entry (enc [110] [1]) 12 8] \<and> Engine_range sample_ext (E, d) [110] [] [9] = Inr L \<and>
     collect_pages (\<lambda>c. range_page sample_ext (E, d) [110] [] [9] c 2) (Suc (length L)) None = Some L"
proof -
  let ?mt = "[sample_entry (enc [110] [1]) 12 8]"
  obtain E0 d where E0: "engine_inv sample_ext E0 d [sample_run, sample_run2]" using sample_engine by blast
  let ?E = "E0\<lparr>en_memtable := ?mt\<rparr>"
  have inv: "engine_inv sample_ext ?E d [sample_run, sample_run2]"
    using E0 by (simp add: engine_inv_def sample_entry_def)
  have o: "lsn_ordered ([sample_run, sample_run2] @ [en_memtable ?E])"
    by (simp add: lsn_ordered_def sample_run_def sample_run2_def sample_entry_def sample_tombstone_def)
  have lv: "\<forall>x \<in> set (en_memtable ?E). live x" by (simp add: live_def sample_entry_def)
  from pages_enumerate_range [OF sample_laws(2) inv o ns_ok_singleton _ _ lv, of 2 "[]" "[9]" 110] show ?thesis
    by (intro exI [of _ ?E] exI [of _ d]) auto
qed

section \<open>The order of versions is kept\<close>

text \<open>
  Later segments and the memtable hold later versions and the LSN counter is beyond all of them.
\<close>

definition versions_ok :: "kv list list \<Rightarrow> BTreeMemTable \<Rightarrow> Lsn \<Rightarrow> bool" where
  "versions_ok ess mt l \<longleftrightarrow> lsn_ordered (ess @ [mt]) \<and>
     (\<forall>es \<in> set (ess @ [mt]). \<forall>x \<in> set es. e_lsn (snd x) \<le> l)"

lemma btree_insert_set: "set (btree_insert k e t) \<subseteq> insert (k, e) (set t)"
  by (induction k e t rule: btree_insert.induct) auto

lemma versions_insert:
  assumes "versions_ok ess mt l" "l < e_lsn e"
  shows "versions_ok ess (btree_insert k e mt) (e_lsn e)"
proof -
  have sub: "x = (k, e) \<or> x \<in> set mt" if "x \<in> set (btree_insert k e mt)" for x
    using that btree_insert_set by fastforce
  have old: "e_lsn (snd x) < e_lsn e" if "es \<in> set (ess @ [mt])" "x \<in> set es" for es x
    using assms that unfolding versions_ok_def by (blast intro: le_less_trans)
  have mem: "e_lsn (snd x) \<le> e_lsn e" if "x \<in> set (btree_insert k e mt)" for x
    using sub [OF that] old [of mt x] by (auto simp: less_imp_le)
  have seg: "e_lsn (snd x) \<le> e_lsn e" if "es \<in> set ess" "x \<in> set es" for es x
    using old [of es x] that by (simp add: less_imp_le)
  have ord: "lsn_ordered ess" "\<And>es x y. es \<in> set ess \<Longrightarrow> x \<in> set es \<Longrightarrow> y \<in> set mt \<Longrightarrow> fst x = fst y \<Longrightarrow>
      e_lsn (snd x) < e_lsn (snd y) \<or> snd x = snd y"
    using assms(1) unfolding versions_ok_def lsn_ordered_def sorted_wrt_append by auto
  have "e_lsn (snd x) < e_lsn (snd y) \<or> snd x = snd y"
    if "es \<in> set ess" "x \<in> set es" "y \<in> set (btree_insert k e mt)" "fst x = fst y" for es x y
    using sub [OF that(3)] ord(2) [OF that(1,2) _ that(4)] old [of es x] that(1,2) by auto
  then have "lsn_ordered (ess @ [btree_insert k e mt])"
    using ord(1) unfolding lsn_ordered_def sorted_wrt_append by simp
  with mem seg show ?thesis by (auto simp: versions_ok_def)
qed

lemma record_kv_lsn: "e_lsn (snd (record_kv r)) = r_lsn r"
  by (simp add: record_kv_def record_entry_def Let_def)

lemma versions_inserts:
  assumes "versions_ok ess mt l" "map r_lsn rs = map (\<lambda>i. l + word_of_nat i) [1..<Suc (length rs)]"
    and "unat l + length rs < 2 ^ 64"
  shows "versions_ok ess (fold insert_record rs mt) (l + word_of_nat (length rs))"
  using assms
proof (induction rs arbitrary: mt l)
  case (Cons r rs)
  have r: "r_lsn r = l + 1" and rs: "map r_lsn rs = map (\<lambda>i. (l + 1) + word_of_nat i) [1..<Suc (length rs)]"
    using Cons.prems(2) by (simp_all add: upt_conv_Cons map_Suc_upt [symmetric] add.assoc add.commute del: upt_Suc)
  have u: "unat (l + 1) = unat l + 1" using Cons.prems(3) by (simp add: unat_word_ariths)
  then have "l < e_lsn (snd (record_kv r))" by (simp add: record_kv_lsn r word_less_nat_alt)
  from versions_insert [OF Cons.prems(1) this]
  have "versions_ok ess (insert_record r mt) (l + 1)" by (simp add: record_kv_lsn r)
  from Cons.IH [OF this rs] Cons.prems(3) u show ?case by (simp add: add.assoc)
qed simp

lemma versions_flush: "versions_ok ess mt l \<Longrightarrow> versions_ok (ess @ [mt]) [] l"
  by (auto simp: versions_ok_def lsn_ordered_def sorted_wrt_append)

text \<open>How many LSNs an operation consumes.\<close>

fun op_writes :: "engine_op \<Rightarrow> nat" where
  "op_writes (OpPut ns k v) = 1"
| "op_writes (OpPutTtl ns k v ttl) = 1"
| "op_writes (OpDelete ns k) = 1"
| "op_writes (OpCommit tx) = length (t_pending tx)"
| "op_writes OpFlush = 0"
| "op_writes OpSnapshot = 0"

text \<open>
  Every operation inserts entries under consecutive LSNs into the memtable and possibly makes
  the memtable the last segment.
\<close>

definition op_effect :: "nat \<Rightarrow> kv list list \<Rightarrow> Engine \<Rightarrow> kv list list \<Rightarrow> Engine \<Rightarrow> bool" where
  "op_effect n ess E ess' E' \<longleftrightarrow> en_lsn_counter E' = en_lsn_counter E + word_of_nat n \<and>
     (\<exists>rs. length rs = n \<and> map r_lsn rs = map (\<lambda>i. en_lsn_counter E + word_of_nat i) [1..<Suc n] \<and>
        (let mt = fold insert_record rs (en_memtable E)
         in ess' = ess \<and> en_memtable E' = mt \<or> ess' = ess @ [mt] \<and> en_memtable E' = []))"

lemma logged_effect:
  assumes "logged X T r (E, d) = ((E', d'), Inr lsn)" "engine_inv X E d ess" "r_lsn r = en_lsn_counter E + 1"
  shows "engine_inv X E' d' ess \<and> op_effect 1 ess E ess E'"
  using logged_spec [OF assms(1,2)] assms(3) unfolding op_effect_def Let_def
  by (intro conjI exI [of _ "[r]"]) simp_all

lemma engine_exec_effect:
  assumes "zstd_ok X" "json_ok X" "xor8_ok X" "engine_inv X E d ess"
    and "op_fits X T op (E, d)" "engine_exec X T op (E, d) = ((E', d'), Inr ())"
  shows "\<exists>ess'. engine_inv X E' d' ess' \<and> op_effect (op_writes op) ess E ess' E'"
proof (cases op)
  case (OpPut ns k v)
  let ?r = "put_record X T ns k v 0 (en_lsn_counter E + 1)"
  obtain lsn where p: "Engine_put X T ns k v (E, d) = ((E', d'), Inr lsn)"
    using assms(6) OpPut by (auto simp: completed_def elim: st_then.elims)
  from put_success [OF assms(1-4) p refl refl] assms(5) OpPut obtain ess' where
    "en_lsn_counter E' = en_lsn_counter E + 1" "engine_inv X E' d' ess'"
    "ess' = ess \<and> en_memtable E' = insert_record ?r (en_memtable E) \<or>
     ess' = ess @ [insert_record ?r (en_memtable E)] \<and> en_memtable E' = []"
    by (auto simp: Let_def)
  then show ?thesis using OpPut unfolding op_effect_def Let_def
    by (intro exI [of _ ess'] conjI exI [of _ "[?r]"]) (simp_all add: put_record_def)
next
  case (OpPutTtl ns k v ttl)
  let ?r = "put_record X T ns k v ttl (en_lsn_counter E + 1)"
  obtain lsn where p: "Engine_put_with_ttl X T ns k v ttl (E, d) = ((E', d'), Inr lsn)"
    using assms(6) OpPutTtl by (auto simp: completed_def elim: st_then.elims)
  then have "ns_ok ns" by (auto simp: Engine_put_with_ttl_def ns_ok_def split: if_splits)
  with p have "logged X T ?r (E, d) = ((E', d'), Inr lsn)"
    by (auto simp: Engine_put_with_ttl_def write_entry_logged split: if_splits)
  from logged_effect [OF this assms(4)] OpPutTtl show ?thesis by (auto simp: put_record_def)
next
  case (OpDelete ns k)
  let ?r = "delete_record X T ns k (en_lsn_counter E + 1)"
  obtain lsn where p: "Engine_delete X T ns k (E, d) = ((E', d'), Inr lsn)"
    using assms(6) OpDelete by (auto simp: completed_def elim: st_then.elims)
  then have w: "\<not> readonly (en_config E)" by (auto simp: Engine_delete_def split: if_splits)
  from p have "logged X T ?r (E, d) = ((E', d'), Inr lsn)"
    using delete_logged [OF _ w] assms(5) OpDelete by simp
  from logged_effect [OF this assms(4)] OpDelete show ?thesis by (auto simp: delete_record_def)
next
  case (OpCommit tx)
  have ns: "\<forall>r \<in> set (t_pending tx). ns_ok (r_ns_bytes r)" using assms(5) OpCommit by simp
  obtain E1 d1 l rs' where c: "commit_records X (t_pending tx) (en_lsn_counter E) (E, d) = ((E1, d1), Inr l)"
    "engine_inv X E1 d1 ess" "list_all2 (\<lambda>r r'. r' = r\<lparr>r_lsn := r_lsn r'\<rparr>) (t_pending tx) rs'"
    "map r_lsn rs' = map (\<lambda>i. en_lsn_counter E + word_of_nat i) [1..<Suc (length (t_pending tx))]"
    "en_memtable E1 = fold insert_record rs' (en_memtable E)"
    "en_lsn_counter E1 = en_lsn_counter E + word_of_nat (length (t_pending tx))"
    using commit_records_spec [OF ns assms(4)] by blast
  obtain st q where r: "rotate_wal_if_needed T (E1, d1) = (st, q)" by fastforce
  have "st = (E', d')"
    using assms(6) OpCommit c(1) r
    by (cases q; cases "t_state tx") (auto simp: completed_def commit_transaction_def tx_take_pending_def)
  then have rot: "rotate_wal_if_needed T (E1, d1) = ((E', d'), q)" using r by simp
  have E': "E' = E1\<lparr>en_wal := en_wal E'\<rparr>" using rotate_spec [OF rot] by blast
  have eqs: "en_memtable E' = en_memtable E1" "en_segment_store E' = en_segment_store E1" "en_config E' = en_config E1"
    "en_lsn_counter E' = en_lsn_counter E1" by (subst E', simp)+
  have "store_ok X d' (en_segment_store E1) ess"
    using engine_invD(1) [OF c(2)] store_ok_wal_frame rotate_frame [OF rot] by blast
  then have "engine_inv X E' d' ess"
    using c(2) rotate_path [OF rot] by (simp add: engine_inv_def eqs)
  then show ?thesis using c(3-6) OpCommit unfolding op_effect_def Let_def
    by (intro exI [of _ ess] conjI exI [of _ rs']) (simp_all add: eqs list_all2_lengthD del: upt_Suc)
next
  case OpFlush
  obtain meta where p: "flush_to_segments X T (E, d) = ((E', d'), Inr meta)"
    using assms(6) OpFlush by (auto simp: completed_def elim: st_then.elims)
  have f: "flushable X (cohort_window_secs (en_config E)) (en_memtable E)" "ss_next_segment_id (en_segment_store E) + 1 \<noteq> 0"
    using assms(5) OpFlush by (simp_all add: fits_def)
  from flush_success [OF assms(1-4) f p] have inv: "engine_inv X E' d' (ess @ [en_memtable E])"
    and E': "E' = E\<lparr>en_memtable := [], en_segment_store := en_segment_store E'\<rparr>" by blast+
  have "en_memtable E' = []" "en_lsn_counter E' = en_lsn_counter E" by (subst E', simp)+
  with inv OpFlush show ?thesis unfolding op_effect_def Let_def by (intro exI [of _ "ess @ [en_memtable E]"]) simp
next
  case OpSnapshot
  with assms(6) have "E' = fst (Engine_snapshot E)" "d' = d" by auto
  then have "engine_inv X E' d' ess" "en_memtable E' = en_memtable E" "en_lsn_counter E' = en_lsn_counter E"
    using assms(4) by (auto simp: Engine_snapshot_def engine_inv_def Let_def registry_register_def)
  with OpSnapshot show ?thesis by (auto simp: op_effect_def)
qed

lemma effect_versions:
  assumes "op_effect n ess E ess' E'" "versions_ok ess (en_memtable E) (en_lsn_counter E)"
    and "unat (en_lsn_counter E) + n < 2 ^ 64"
  shows "versions_ok ess' (en_memtable E') (en_lsn_counter E') \<and> unat (en_lsn_counter E') = unat (en_lsn_counter E) + n"
proof -
  obtain rs where rs: "length rs = n" "map r_lsn rs = map (\<lambda>i. en_lsn_counter E + word_of_nat i) [1..<Suc (length rs)]"
    "ess' = ess \<and> en_memtable E' = fold insert_record rs (en_memtable E) \<or>
     ess' = ess @ [fold insert_record rs (en_memtable E)] \<and> en_memtable E' = []"
    "en_lsn_counter E' = en_lsn_counter E + word_of_nat (length rs)"
    using assms(1) by (auto simp: op_effect_def Let_def)
  have "unat (en_lsn_counter E') = unat (en_lsn_counter E) + n"
    using assms(3) rs(1,4) by (simp add: unat_word_ariths unat_of_nat)
  with versions_inserts [OF assms(2) rs(2)] versions_flush rs(1,3,4) assms(3) show ?thesis by auto
qed

text \<open>
  C21: The order of versions is an invariant: every completed operation leaves later segments with
  later versions, the memtable with the latest ones and the LSN counter beyond all of them, and
  the counter grows by exactly the number of entries written, up to \<open>2 ^ 64\<close> entries.
\<close>

theorem versions_stay_ordered:
  assumes "zstd_ok X" "json_ok X" "xor8_ok X" "engine_inv X E d ess" "op_fits X T op (E, d)"
    and "engine_exec X T op (E, d) = ((E', d'), Inr ())"
    and "versions_ok ess (en_memtable E) (en_lsn_counter E)" "unat (en_lsn_counter E) + op_writes op < 2 ^ 64"
  shows "\<exists>ess'. engine_inv X E' d' ess' \<and> versions_ok ess' (en_memtable E') (en_lsn_counter E') \<and>
     unat (en_lsn_counter E') = unat (en_lsn_counter E) + op_writes op"
  using engine_exec_effect [OF assms(1-6)] effect_versions assms(7,8) by blast

theorem versions_stay_ordered_witness:
  "\<exists>E' d' ess'. engine_exec sample_ext sample_clock (OpPutTtl [110] [2] [8] 60) new_db = ((E', d'), Inr ()) \<and>
     versions_ok ess' (en_memtable E') (en_lsn_counter E') \<and> unat (en_lsn_counter E') = 1"
proof -
  let ?op = "OpPutTtl [110] [2] [8] 60"
  have c0: "en_config (fst new_db) = EdgestoreConfig_new" "en_lsn_counter (fst new_db) = 0" "en_memtable (fst new_db) = []"
    by (simp_all add: new_db_def)
  obtain E1 d1 where ex: "engine_exec sample_ext sample_clock ?op (fst new_db, snd new_db) = ((E1, d1), Inr ())"
    using sample_step [OF new_db_durable new_db_names c0(1), of ?op "[110]" "[2]" "[8]" 60 sample_clock] c0(2) by auto
  have v: "versions_ok [] (en_memtable (fst new_db)) (en_lsn_counter (fst new_db))"
    by (simp add: versions_ok_def lsn_ordered_def c0)
  have "op_fits sample_ext sample_clock ?op (fst new_db, snd new_db)" by (simp only: op_fits.simps)
  from versions_stay_ordered [OF sample_laws(2,5,4) new_db_inv this ex v] ex c0(2) show ?thesis by auto
qed

section \<open>Pages over a memtable with deletions\<close>

definition page_run :: "kv list" where
  "page_run = [sample_entry (enc [110] [1]) 10 1, sample_entry (enc [110] [2]) 20 2]"

definition page_memtable :: BTreeMemTable where
  "page_memtable = [sample_tombstone (enc [110] [1]) 3, sample_entry (enc [110] [3]) 30 4]"

lemma page_engine:
  "\<exists>E d. engine_inv sample_ext E d [page_run] \<and> en_memtable E = page_memtable \<and>
     versions_ok [page_run] (en_memtable E) (en_lsn_counter E)"
proof -
  have "flushable sample_ext 3600 page_run"
    by (simp add: flushable_def page_run_def sample_entry_small build_xor_filter_def sample_ext_def enc_def)
  then obtain d s where s: "store_ok sample_ext d s [page_run]" "ss_cohort_window_secs s = 3600"
    using sample_flush_store [OF new_store_ok, of page_run] by (auto simp: new_store_def page_run_def enc_def)
  define E where "E = (fst new_db)\<lparr>en_segment_store := s, en_memtable := page_memtable, en_lsn_counter := 4\<rparr>"
  have "engine_inv sample_ext E d [page_run]"
    using s by (simp add: E_def engine_inv_def new_db_def EdgestoreConfig_new_def page_memtable_def)
  moreover have "versions_ok [page_run] page_memtable 4"
    by (simp add: versions_ok_def lsn_ordered_def page_run_def page_memtable_def sample_entry_def sample_tombstone_def enc_inject)
  ultimately show ?thesis by (intro exI [of _ E] exI [of _ d]) (simp add: E_def)
qed

text \<open>
  C32: With deletions in the memtable a page can pass over a key that exists. The budget cuts the
  list of segment entries before the memtable is merged in; when the memtable deletes the
  entries that were kept, its own later keys fill the page and the cursor jumps over the
  segment entries that were cut: a page of one item returns key 3 and continues behind it,
  although key 2 has a value.
\<close>

theorem page_skips_existing_key:
  "\<exists>E d p. engine_inv sample_ext E d [page_run] \<and> versions_ok [page_run] (en_memtable E) (en_lsn_counter E) \<and>
     range_page sample_ext (E, d) [110] [] [9] None 1 = Inr p \<and>
     rp_items p = [([3], [30])] \<and> rp_next_key p = Some [3] \<and> Engine_get sample_ext (E, d) [110] [2] = Inr (Some [20])"
proof -
  obtain E d where E: "engine_inv sample_ext E d [page_run]" "en_memtable E = page_memtable"
    "versions_ok [page_run] (en_memtable E) (en_lsn_counter E)" using page_engine by blast
  have o: "lsn_ordered ([page_run] @ [en_memtable E])" using E(3) by (simp add: versions_ok_def)
  let ?P = "\<lambda>k. enc [110] [] \<le> k \<and> k < enc [110] [9]"
  have "([] :: bytes) \<le> [9]" by simp
  from range_input [OF sample_laws(2) E(1) o this, of "[110]" "Some 1"] obtain R R2 t B where r:
    "range_scan_budgeted sample_ext d (ss_readers (en_segment_store E)) (enc [110] []) (enc [110] [9]) (Some 1) = Inr (R, t)"
    "btree_range (en_memtable E) (enc [110] []) (enc [110] [9]) = Inr B"
    "scan_input [page_run] (en_memtable E) [110] ?P (R @ R2) B" "\<not> t \<longrightarrow> R2 = []"
    "\<forall>n. Some 1 = Some n \<longrightarrow> 0 < n \<longrightarrow> length R \<le> n" "t \<longrightarrow> (\<exists>m. Some 1 = Some m \<and> m \<le> length R)" by blast
  have B: "B = page_memtable"
    using r(2) E(2) by (simp add: btree_range_def page_memtable_def sample_entry_def sample_tombstone_def)
  have "{x \<in> \<Union> (set ` set [page_run]). ?P (fst x)} = set page_run"
    by (auto simp: page_run_def sample_entry_def)
  then have "set (R @ R2) = live_newest (set page_run)"
    using r(3) unfolding scan_input_def by metis
  also have "\<dots> = set page_run"
    by (auto simp: live_newest_def newest_def page_run_def sample_entry_def enc_inject)
  finally have "R @ R2 = page_run"
    using r(3) unfolding scan_input_def by (intro ksorted_set_unique) (auto simp: page_run_def)
  then have app: "R @ R2 = [sample_entry (enc [110] [1]) 10 1, sample_entry (enc [110] [2]) 20 2]" by (simp add: page_run_def)
  then have "length R + length R2 = 2" unfolding length_append [symmetric] by simp
  moreover have "length R \<le> 1" using r(5) by simp
  ultimately have t: "t" using r(4) by fastforce
  then have "1 \<le> length R" using r(6) by simp
  then have "length R = 1" using \<open>length R \<le> 1\<close> by simp
  then have R: "R = [sample_entry (enc [110] [1]) 10 1]" using app by (cases R) auto
  let ?M = "merge_sorted_scans R B"
  have M: "?M = [sample_entry (enc [110] [1]) 10 1, sample_tombstone (enc [110] [1]) 3, sample_entry (enc [110] [3]) 30 4]"
    by (simp add: R B page_memtable_def)
  have keys: "\<forall>x \<in> set ?M. \<exists>uk. fst x = enc [110] uk" unfolding M by auto
  have items: "user_items (newest_list ?M) = [([3], [30])]"
    unfolding M
    by (simp add: sample_entry_def sample_tombstone_def same_key_def enc_inject best_of_def)
  obtain b where "dedup_filter_scan ?M (R \<noteq> []) (Some \<lparr> max_items = Some 1, max_bytes = None \<rparr>) t = Inr b"
    "bs_items b = [([3], [30])]" "bs_truncated b"
    using dedup_limited [OF ns_ok_singleton keys, of 1 "R \<noteq> []" t] t unfolding items by auto
  then have "range_page sample_ext (E, d) [110] [] [9] None 1 = Inr \<lparr> rp_items = [([3], [30])], rp_next_key = Some [3] \<rparr>"
    using r(1,2) by (simp add: range_page_def Engine_range_budgeted_def range_core_def encode_key_ok Let_def)
  moreover have "Engine_get sample_ext (E, d) [110] [2] = Inr (Some [20])"
    unfolding engine_get_view [OF sample_laws(2) E(1) ns_ok_singleton]
    by (simp add: E(2) view_def visible_def page_run_def page_memtable_def sample_entry_def sample_tombstone_def enc_inject)
  ultimately show ?thesis using E(1,3) by (intro exI [of _ E] exI [of _ d]) auto
qed

end
