(* ===== verification/Merkle.thy ===== *)
theory Merkle
  imports External "HOL-Library.Multiset"
begin

text \<open>
  The range Merkle tree of \<open>edgestore/src/merkle.rs\<close>: sixteen buckets by the leading nibble of
  the smallest key of a segment, each with a hash over the roots of its segments.
\<close>

section \<open>The tree\<close>

record RangeMerkleTree =
  buckets :: "bytes list"

definition zero_hash :: bytes where
  "zero_hash = replicate 32 0"

definition RangeMerkleTree_empty :: RangeMerkleTree where
  "RangeMerkleTree_empty = \<lparr> buckets = replicate 16 zero_hash \<rparr>"

definition bucket_idx :: "SegmentMeta \<Rightarrow> nat" where
  "bucket_idx seg = unat (drop_bit 4 (case m_min_key seg of [] \<Rightarrow> 0 | b # _ \<Rightarrow> b))"

definition bucket_group :: "SegmentMeta list \<Rightarrow> nat \<Rightarrow> (SegmentId \<times> bytes) list" where
  "bucket_group segments i =
     map (\<lambda>seg. (m_segment_id seg, m_merkle_root seg)) (filter (\<lambda>seg. bucket_idx seg = i) segments)"

text \<open>\<open>blake3::Hasher\<close> hashes the concatenation of what it is updated with.\<close>

definition bucket_hash :: "ext \<Rightarrow> (SegmentId \<times> bytes) list \<Rightarrow> bytes" where
  "bucket_hash X grp =
     (if grp = [] then zero_hash else blake3 X (concat (map snd (sort_key fst grp))))"

definition RangeMerkleTree_build :: "ext \<Rightarrow> SegmentMeta list \<Rightarrow> RangeMerkleTree" where
  "RangeMerkleTree_build X segments =
     \<lparr> buckets = map (\<lambda>i. bucket_hash X (bucket_group segments i)) [0..<16] \<rparr>"

definition tree_root :: "ext \<Rightarrow> RangeMerkleTree \<Rightarrow> bytes" where
  "tree_root X t = blake3 X (concat (buckets t))"

definition differing_buckets :: "RangeMerkleTree \<Rightarrow> RangeMerkleTree \<Rightarrow> nat list" where
  "differing_buckets t t' = filter (\<lambda>i. buckets t ! i \<noteq> buckets t' ! i) [0..<16]"

section \<open>What the tree says about the segments\<close>

lemma bucket_idx_bound: "bucket_idx seg < 16"
proof -
  have "unat (drop_bit 4 (b :: byte)) < 16" for b
    using unat_bound [of b] by (simp add: drop_bit_eq_div unat_div less_mult_imp_div_less)
  then show ?thesis by (simp add: bucket_idx_def)
qed

lemma build_nth: "i < 16 \<Longrightarrow> buckets (RangeMerkleTree_build X segs) ! i = bucket_hash X (bucket_group segs i)"
  by (simp add: RangeMerkleTree_build_def)

lemma build_length [simp]: "length (buckets (RangeMerkleTree_build X segs)) = 16"
  by (simp add: RangeMerkleTree_build_def)

text \<open>The order of the segments does not matter as long as their ids differ.\<close>

lemma bucket_hash_perm:
  assumes "mset g = mset g'" "distinct (map fst g)"
  shows "bucket_hash X g = bucket_hash X g'"
proof -
  have "inj_on fst (set g)" using assms(2) by (simp add: distinct_map)
  then have "sort_key fst g = sort_key fst g'"
    using assms(1) by (intro sort_key_inj_key_eq) simp_all
  moreover have "g = [] \<longleftrightarrow> g' = []" using assms(1) by (metis mset.simps(1) mset_zero_iff)
  ultimately show ?thesis by (simp add: bucket_hash_def)
qed

lemma distinct_bucket_group: "distinct (map m_segment_id segs) \<Longrightarrow> distinct (map fst (bucket_group segs i))"
  by (simp add: bucket_group_def comp_def distinct_map_filter)

lemma bucket_group_mset: "mset segs = mset segs' \<Longrightarrow> mset (bucket_group segs i) = mset (bucket_group segs' i)"
  by (simp add: bucket_group_def)

lemma build_perm:
  assumes "mset segs = mset segs'" "distinct (map m_segment_id segs)"
  shows "RangeMerkleTree_build X segs = RangeMerkleTree_build X segs'"
  using bucket_hash_perm [OF bucket_group_mset [OF assms(1)] distinct_bucket_group [OF assms(2)]]
  by (simp add: RangeMerkleTree_build_def)

text \<open>Only buckets whose segments differ are reported, and none when the roots are built from the same buckets.\<close>

lemma differing_buckets_sound:
  assumes "i \<in> set (differing_buckets (RangeMerkleTree_build X segs) (RangeMerkleTree_build X segs'))"
    and "distinct (map m_segment_id segs)"
  shows "i < 16 \<and> mset (bucket_group segs i) \<noteq> mset (bucket_group segs' i)"
proof -
  have i: "i < 16" "bucket_hash X (bucket_group segs i) \<noteq> bucket_hash X (bucket_group segs' i)"
    using assms(1) by (auto simp: differing_buckets_def build_nth)
  with bucket_hash_perm [OF _ distinct_bucket_group [OF assms(2)]] show ?thesis by blast
qed

lemma no_differing_buckets:
  assumes "length (buckets t) = 16" "length (buckets t') = 16"
  shows "differing_buckets t t' = [] \<longleftrightarrow> buckets t = buckets t'"
proof
  assume "differing_buckets t t' = []"
  then show "buckets t = buckets t'"
    using assms by (intro nth_equalityI) (auto simp: differing_buckets_def filter_empty_conv)
qed (simp add: differing_buckets_def)

text \<open>Equal-sized pieces are determined by their concatenation.\<close>

lemma concat_eq_pieces:
  assumes "concat xs = concat ys" "\<forall>x \<in> set xs. length x = n" "\<forall>y \<in> set ys. length y = n" "0 < n"
  shows "xs = ys"
  using assms
proof (induction xs arbitrary: ys)
  case Nil
  then show ?case by (cases ys) auto
next
  case (Cons x xs)
  then obtain y ys' where ys: "ys = y # ys'" by (cases ys) auto
  have "x = y" "concat xs = concat ys'" using Cons.prems by (auto simp: ys append_eq_append_conv)
  with Cons.IH [of ys'] Cons.prems show ?case by (simp add: ys)
qed

lemma bucket_hash_length: "blake3_ok X \<Longrightarrow> length (bucket_hash X g) = 32"
  by (simp add: bucket_hash_def zero_hash_def blake3_ok_def)

lemma equal_roots_equal_buckets:
  assumes "blake3_ok X" "tree_root X (RangeMerkleTree_build X segs) = tree_root X (RangeMerkleTree_build X segs')"
    and "\<And>a b. a = concat (buckets (RangeMerkleTree_build X segs)) \<Longrightarrow> b = concat (buckets (RangeMerkleTree_build X segs')) \<Longrightarrow>
      blake3 X a = blake3 X b \<Longrightarrow> a = b"
  shows "differing_buckets (RangeMerkleTree_build X segs) (RangeMerkleTree_build X segs') = []"
proof -
  have "concat (buckets (RangeMerkleTree_build X segs)) = concat (buckets (RangeMerkleTree_build X segs'))"
    using assms(2,3) by (simp add: tree_root_def)
  then have "buckets (RangeMerkleTree_build X segs) = buckets (RangeMerkleTree_build X segs')"
    using bucket_hash_length [OF assms(1)]
    by (intro concat_eq_pieces [where n = 32]) (auto simp: RangeMerkleTree_build_def)
  then show ?thesis by (simp add: no_differing_buckets)
qed

end
