(* ===== verification/Replication.thy ===== *)
theory Replication
  imports EngineScan Merkle
begin

text \<open>
  The replication interface of the engine, \<open>edgestore/src/engine/replication.rs\<close>: the manifest a
  peer compares with, the import of a segment with last-writer-wins per record, and the Merkle
  root that two nodes compare.
\<close>

section \<open>Manifests\<close>

record SegmentRef =
  ref_segment_hash :: bytes
  ref_segment_id :: u64

definition hash_hex :: "bytes \<Rightarrow> string" where
  "hash_hex hash = concat (map (\<lambda>b. pad_left 2 (show_base 16 (unat b))) hash)"

definition export_manifest :: "Engine \<Rightarrow> SegmentRef list" where
  "export_manifest E =
     map (\<lambda>meta.
       let src = m_segment_hash meta; copy_len = min (length src) 32
       in \<lparr> ref_segment_hash = take copy_len src @ replicate (32 - copy_len) 0, ref_segment_id = m_segment_id meta \<rparr>)
     (list_segment_metas (en_segment_store E))"

definition missing_segments :: "Engine \<Rightarrow> SegmentRef list \<Rightarrow> bytes list" where
  "missing_segments E peer_segments =
     (let local_set = set (map m_segment_hash (list_segment_metas (en_segment_store E)))
      in map ref_segment_hash (filter (\<lambda>s. ref_segment_hash s \<notin> local_set) peer_segments))"

section \<open>Import\<close>

text \<open>The reason of a rejection is the text of the error.\<close>

datatype ImportResult =
    Applied u64 u64
  | Skipped
  | HashMismatch
  | Rejected EdgestoreError

definition put_with_timestamp ::
  "ext \<Rightarrow> Clock \<Rightarrow> bytes \<Rightarrow> bytes \<Rightarrow> bytes \<Rightarrow> i64 \<Rightarrow> est \<Rightarrow> est \<times> Lsn res" where
  "put_with_timestamp X T ns key val timestamp = (\<lambda>(E, d).
     if length ns > U16_MAX then ((E, d), Inl (NamespaceTooLong (length ns) U16_MAX))
     else
       let lsn = en_lsn_counter E + 1;
           record = \<lparr> r_txid = 0, r_lsn = lsn, r_timestamp = timestamp, r_ttl = 0,
                      r_ns_len = word_of_nat (length ns), r_ns_bytes = ns, r_key_bytes = key, r_op = Put,
                      r_value_hash = blake3 X val, r_value_bytes = val \<rparr>
       in case WalWriter_append X record (en_wal E) d of
            (wal, d1) \<Rightarrow>
              st_then (rotate_wal_if_needed T (E\<lparr>en_lsn_counter := lsn, en_wal := wal\<rparr>, d1)) (\<lambda>(E2, d2) _.
                case encode_key ns key of
                  Inl e \<Rightarrow> ((E2, d2), Inl e)
                | Inr encoded_key \<Rightarrow>
                    let entry = \<lparr> e_key = encoded_key, e_value = Some val, e_op = Put, e_lsn = lsn,
                                  e_timestamp = timestamp, e_ttl = 0 \<rparr>
                    in ((E2\<lparr>en_memtable := btree_insert encoded_key entry (en_memtable E2)\<rparr>, d2), Inr lsn)))"

definition delete_with_timestamp ::
  "ext \<Rightarrow> Clock \<Rightarrow> bytes \<Rightarrow> bytes \<Rightarrow> i64 \<Rightarrow> est \<Rightarrow> est \<times> Lsn res" where
  "delete_with_timestamp X T ns key timestamp = (\<lambda>(E, d).
     let lsn = en_lsn_counter E + 1;
         record = \<lparr> r_txid = 0, r_lsn = lsn, r_timestamp = timestamp, r_ttl = 0,
                    r_ns_len = word_of_nat (length ns), r_ns_bytes = ns, r_key_bytes = key, r_op = Delete,
                    r_value_hash = blake3 X [], r_value_bytes = [] \<rparr>
     in case WalWriter_append X record (en_wal E) d of
          (wal, d1) \<Rightarrow>
            st_then (rotate_wal_if_needed T (E\<lparr>en_lsn_counter := lsn, en_wal := wal\<rparr>, d1)) (\<lambda>(E2, d2) _.
              case encode_key ns key of
                Inl e \<Rightarrow> ((E2, d2), Inl e)
              | Inr encoded_key \<Rightarrow>
                  let entry = \<lparr> e_key = encoded_key, e_value = None, e_op = Delete, e_lsn = lsn,
                                e_timestamp = timestamp, e_ttl = 0 \<rparr>
                  in ((E2\<lparr>en_memtable := btree_insert encoded_key entry (en_memtable E2)\<rparr>, d2), Inr lsn)))"

text \<open>The variables of the loop over the parsed records.\<close>

record ImportAcc =
  ia_keys_written :: u64
  ia_keys_skipped :: u64
  ia_segment_keys :: "bytes list"
  ia_min_key :: "bytes option"
  ia_max_key :: "bytes option"
  ia_min_lsn :: Lsn
  ia_max_lsn :: Lsn

definition import_acc_new :: ImportAcc where
  "import_acc_new = \<lparr> ia_keys_written = 0, ia_keys_skipped = 0, ia_segment_keys = [], ia_min_key = None,
     ia_max_key = None, ia_min_lsn = - 1, ia_max_lsn = 0 \<rparr>"

definition note_entry :: "kv \<Rightarrow> ImportAcc \<Rightarrow> ImportAcc" where
  "note_entry = (\<lambda>(encoded_key, incoming) a. a\<lparr>
     ia_segment_keys := ia_segment_keys a @ [encoded_key],
     ia_min_key := Some (case ia_min_key a of None \<Rightarrow> encoded_key | Some mk \<Rightarrow> if encoded_key < mk then encoded_key else mk),
     ia_max_key := Some (case ia_max_key a of None \<Rightarrow> encoded_key | Some mk \<Rightarrow> if encoded_key > mk then encoded_key else mk),
     ia_min_lsn := (if e_lsn incoming < ia_min_lsn a then e_lsn incoming else ia_min_lsn a),
     ia_max_lsn := (if e_lsn incoming > ia_max_lsn a then e_lsn incoming else ia_max_lsn a)\<rparr>)"

definition local_entry :: "ext \<Rightarrow> est \<Rightarrow> bytes \<Rightarrow> MemEntry option" where
  "local_entry X = (\<lambda>(E, d) encoded_key.
     case btree_get (en_memtable E) encoded_key of
       Some entry \<Rightarrow> Some entry
     | None \<Rightarrow> (case SegmentStore_get X d (en_segment_store E) encoded_key of Inr r \<Rightarrow> r | Inl _ \<Rightarrow> None))"

definition lww_applies :: "MemEntry option \<Rightarrow> MemEntry \<Rightarrow> bool" where
  "lww_applies loc incoming =
     (case loc of None \<Rightarrow> True | Some l \<Rightarrow> sint (e_timestamp incoming) > sint (e_timestamp l))"

definition import_entry :: "ext \<Rightarrow> Clock \<Rightarrow> kv \<Rightarrow> est \<times> ImportAcc \<Rightarrow> (est \<times> ImportAcc) \<times> unit res" where
  "import_entry X T = (\<lambda>(encoded_key, incoming) (st, acc).
     let a = note_entry (encoded_key, incoming) acc
     in if lww_applies (local_entry X st encoded_key) incoming
        then case decode_key encoded_key of
               Inl _ \<Rightarrow> ((st, a), Inr ())
             | Inr (ns, key) \<Rightarrow>
                 if e_op incoming = Put
                 then case e_value incoming of
                        None \<Rightarrow> ((st, a\<lparr>ia_keys_skipped := ia_keys_skipped a + 1\<rparr>), Inr ())
                      | Some val \<Rightarrow>
                          (case put_with_timestamp X T ns key val (e_timestamp incoming) st of
                             (st', Inl e) \<Rightarrow> ((st', a), Inl e)
                           | (st', Inr _) \<Rightarrow> ((st', a\<lparr>ia_keys_written := ia_keys_written a + 1\<rparr>), Inr ()))
                 else (case delete_with_timestamp X T ns key (e_timestamp incoming) st of
                         (st', Inl e) \<Rightarrow> ((st', a), Inl e)
                       | (st', Inr _) \<Rightarrow> ((st', a\<lparr>ia_keys_written := ia_keys_written a + 1\<rparr>), Inr ()))
        else ((st, a\<lparr>ia_keys_skipped := ia_keys_skipped a + 1\<rparr>), Inr ()))"

fun import_entries :: "ext \<Rightarrow> Clock \<Rightarrow> kv list \<Rightarrow> est \<times> ImportAcc \<Rightarrow> (est \<times> ImportAcc) \<times> unit res" where
  "import_entries X T [] s = (s, Inr ())"
| "import_entries X T (x # xs) s =
     (case import_entry X T x s of
        (s', Inl e) \<Rightarrow> (s', Inl e)
      | (s', Inr _) \<Rightarrow> import_entries X T xs s')"

definition import_meta :: "Clock \<Rightarrow> SegmentId \<Rightarrow> bytes \<Rightarrow> bytes \<Rightarrow> ImportAcc \<Rightarrow> SegmentMeta" where
  "import_meta T i data hash a =
     \<lparr> m_segment_id = i, m_segment_hash = hash,
       m_min_key = (case ia_min_key a of Some k \<Rightarrow> k | None \<Rightarrow> []),
       m_max_key = (case ia_max_key a of Some k \<Rightarrow> k | None \<Rightarrow> []),
       m_min_lsn = (if ia_min_lsn a = - 1 then 0 else ia_min_lsn a), m_max_lsn = ia_max_lsn a,
       m_record_count = ia_keys_written a + ia_keys_skipped a,
       m_compressed_bytes = word_of_nat (length data), m_uncompressed_bytes = word_of_nat (length data),
       m_compression = ''zstd:1'', m_cohort_bucket = 0, m_death_time = 0, m_merkle_root = hash,
       m_created_at = ck_flush T, m_text_index_stripped = False, m_vector_index_stripped = False \<rparr>"

definition import_segment :: "ext \<Rightarrow> Clock \<Rightarrow> bytes \<Rightarrow> bytes \<Rightarrow> est \<Rightarrow> est \<times> ImportResult res" where
  "import_segment X T data hash = (\<lambda>(E, d).
     if list_ex (\<lambda>m. m_segment_hash m = hash) (list_segment_metas (en_segment_store E))
     then ((E, d), Inr Skipped)
     else if blake3 X data \<noteq> hash then ((E, d), Inr HashMismatch)
     else
       let tmp_path = hash_hex hash @ ''.tmp'';
           hash_dat = hash_hex hash @ ''.dat'';
           d1 = fs_rename tmp_path hash_dat (fs_write tmp_path data d)
       in case parse_dat_entries X data of
            Inl e \<Rightarrow> ((E, d1), Inr (Rejected e))
          | Inr parsed \<Rightarrow>
              (case import_entries X T parsed ((E, d1), import_acc_new) of
                 ((st, _), Inl e) \<Rightarrow> (st, Inl e)
               | (((E2, d2), a), Inr _) \<Rightarrow>
                   (case alloc_segment_id (en_segment_store E2) of
                      (s3, new_segment_id) \<Rightarrow>
                        let E3 = E2\<lparr>en_segment_store := s3\<rparr>;
                            d3 = fs_rename hash_dat (dat_path new_segment_id) d2;
                            meta = import_meta T new_segment_id data hash a;
                            d4 = write_idx_file [([], 8)] (idx_path new_segment_id) d3;
                            d5 = write_xf_file (build_xor_filter X (ia_segment_keys a)) (xf_path new_segment_id) d4;
                            d6 = fs_write (meta_path new_segment_id) (json_meta X meta) d5
                        in (case SegmentReader_open X new_segment_id d6 of
                              Inl e \<Rightarrow> ((E3, d6), Inl e)
                            | Inr reader \<Rightarrow>
                                (case add_imported_segment X meta reader s3 d6 of
                                   ((s, d7), Inl e) \<Rightarrow> ((E3\<lparr>en_segment_store := s\<rparr>, d7), Inl e)
                                 | ((s, d7), Inr _) \<Rightarrow>
                                     ((E3\<lparr>en_segment_store := s\<rparr>, d7),
                                      Inr (Applied (ia_keys_written a) (ia_keys_skipped a))))))))"

section \<open>Merkle root\<close>

definition range_merkle_root :: "ext \<Rightarrow> Engine \<Rightarrow> bytes" where
  "range_merkle_root X E =
     (let metas = list_segment_metas (en_segment_store E)
      in if metas = [] then zero_hash else blake3 X (concat (sort (map m_segment_hash metas))))"

definition compare_merkle :: "ext \<Rightarrow> Engine \<Rightarrow> bytes \<Rightarrow> bool" where
  "compare_merkle X E other_root \<longleftrightarrow> range_merkle_root X E = other_root"

end
