(* ===== verification/ReplicationFacts.thy ===== *)
theory ReplicationFacts
  imports Replication
begin

text \<open>
  What an import does to the entries of an engine, and what the Merkle probe decides.
\<close>

section \<open>Names of transferred files\<close>

lemma hex_chars: "c \<in> set (show_base 16 n) \<Longrightarrow> is_ascii_hexdigit c"
proof (induction "16 :: nat" n rule: show_base.induct)
  case (1 n)
  show ?case
  proof (cases "n < 16")
    case True
    with "1.prems" show ?thesis by (simp add: show_base.simps [of 16 n] digit_char_hex)
  next
    case False
    then have "c \<in> set (show_base 16 (n div 16)) \<or> c = digit_char (n mod 16)"
      using "1.prems" by (auto simp: show_base.simps [of 16 n])
    with "1.hyps" False show ?thesis by (auto simp: digit_char_hex)
  qed
qed

lemma hash_hex_chars: "c \<in> set (hash_hex h) \<Longrightarrow> is_ascii_hexdigit c"
  by (auto simp: hash_hex_def pad_left_def is_ascii_hexdigit_def dest: hex_chars split: if_splits)

lemma hash_name_hd:
  assumes "p = hash_hex h @ CHR ''.'' # x"
  shows "hd p = CHR ''.'' \<or> is_ascii_hexdigit (hd p)" "p \<noteq> []"
  using assms hash_hex_chars [of "hd (hash_hex h)" h] by (cases "hash_hex h"; simp)+

lemma hash_name_other [simp]:
  assumes "p = hash_hex h @ CHR ''.'' # x"
  shows "\<not> is_wal_name p" "p \<noteq> manifest_path" "p \<noteq> segment_file i y" "p \<noteq> ''LOCK''"
proof -
  have no: "hd p \<noteq> CHR ''w''" "hd p \<noteq> CHR ''m''" "hd p \<noteq> CHR ''s''" "hd p \<noteq> CHR ''L''"
    using hash_name_hd(1) [OF assms] by (auto simp: is_ascii_hexdigit_def)
  then show "p \<noteq> manifest_path" "p \<noteq> segment_file i y" "p \<noteq> ''LOCK''"
    by (auto simp: manifest_path_def segment_file_def)
  show "\<not> is_wal_name p"
  proof
    assume "is_wal_name p"
    then have "starts_with p ''wal-''" by (simp add: is_wal_name_def)
    then show False using no(1) by (auto simp: starts_with_iff)
  qed
qed

section \<open>Writes with a given timestamp\<close>

lemma put_with_timestamp_logged:
  assumes "ns_ok ns"
  shows "put_with_timestamp X T ns key val ts (E, d) =
     logged X T (put_record X (T\<lparr>ck_nanos := ts\<rparr>) ns key val 0 (en_lsn_counter E + 1)) (E, d)"
  using assms
  by (simp add: put_with_timestamp_def logged_def put_record_def record_kv_def record_entry_def
        encode_key_ok ns_ok_def Let_def not_less)

lemma delete_with_timestamp_logged:
  assumes "ns_ok ns"
  shows "delete_with_timestamp X T ns key ts (E, d) =
     logged X T (delete_record X (T\<lparr>ck_nanos := ts\<rparr>) ns key (en_lsn_counter E + 1)) (E, d)"
  by (simp add: delete_with_timestamp_def logged_def delete_record_def record_kv_def record_entry_def
        encode_key_ok [OF assms] Let_def)

text \<open>The record that an applied entry is logged as, and the entry that goes to the memtable.\<close>

definition incoming_record :: "ext \<Rightarrow> Clock \<Rightarrow> kv \<Rightarrow> Lsn \<Rightarrow> WalRecord" where
  "incoming_record X T = (\<lambda>(k, e) lsn.
     case projr (decode_key k) of (ns, key) \<Rightarrow>
       (case e_value e of
          Some v \<Rightarrow> put_record X (T\<lparr>ck_nanos := e_timestamp e\<rparr>) ns key v 0 lsn
        | None \<Rightarrow> delete_record X (T\<lparr>ck_nanos := e_timestamp e\<rparr>) ns key lsn))"

definition restamped :: "MemEntry \<Rightarrow> Lsn \<Rightarrow> MemEntry" where
  "restamped e lsn = e\<lparr>e_lsn := lsn, e_ttl := 0\<rparr>"

definition importable :: "ext \<Rightarrow> Clock \<Rightarrow> kv \<Rightarrow> bool" where
  "importable X T x \<longleftrightarrow> entry_wf x \<and> (\<exists>ns key. ns_ok ns \<and> fst x = enc ns key) \<and> (\<forall>l. frame_ok X (incoming_record X T x l))"

lemma incoming_record_kv:
  assumes "importable X T (k, e)"
  shows "record_kv (incoming_record X T (k, e) l) = (k, restamped e l)" "r_lsn (incoming_record X T (k, e) l) = l"
proof -
  obtain ns key where k: "ns_ok ns" "k = enc ns key" and wf: "entry_wf (k, e)"
    using assms by (auto simp: importable_def)
  have "e_op e = Delete \<longleftrightarrow> e_value e = None" "e_key e = k" using wf by (auto simp: entry_wf_def)
  then show "record_kv (incoming_record X T (k, e) l) = (k, restamped e l)" "r_lsn (incoming_record X T (k, e) l) = l"
    using k(1) by (cases e; cases "e_value e"; cases "e_op e";
      simp add: incoming_record_def k(2) decode_enc record_kv_put record_kv_delete restamped_def
        put_record_def delete_record_def record_kv_def record_entry_def Let_def)+
qed

lemma import_entry_steps:
  assumes "importable X T (k, e)" "lww_applies (local_entry X (E, d) k) e"
  shows "import_entry X T (k, e) ((E, d), acc) =
     (case logged X T (incoming_record X T (k, e) (en_lsn_counter E + 1)) (E, d) of
        (st', Inl err) \<Rightarrow> ((st', note_entry (k, e) acc), Inl err)
      | (st', Inr _) \<Rightarrow> ((st', (note_entry (k, e) acc)\<lparr>ia_keys_written := ia_keys_written acc + 1\<rparr>), Inr ()))"
proof -
  obtain ns key where k: "ns_ok ns" "k = enc ns key" and wf: "entry_wf (k, e)"
    using assms(1) by (auto simp: importable_def)
  have n: "ia_keys_written (note_entry (k, e) acc) = ia_keys_written acc" by (simp add: note_entry_def)
  have dec: "decode_key k = Inr (ns, key)" using decode_enc [OF k(1)] k(2) by simp
  have "e_op e = Delete \<longleftrightarrow> e_value e = None" using wf by (auto simp: entry_wf_def)
  then show ?thesis
    using assms(2) put_with_timestamp_logged [OF k(1)] delete_with_timestamp_logged [OF k(1)]
    by (cases "e_value e"; cases "e_op e") (simp_all add: import_entry_def dec incoming_record_def n Let_def)
qed

lemma logged_frame:
  assumes "logged X T r (E, d) = ((E', d'), q)" "is_wal_name (w_path (en_wal E))" "\<not> is_wal_name p"
  shows "fs_read d' p = fs_read d p"
proof -
  obtain w1 d1 where w1: "WalWriter_append X r (en_wal E) d = (w1, d1)" by fastforce
  let ?E1 = "E\<lparr>en_lsn_counter := r_lsn r, en_wal := w1\<rparr>"
  obtain E2 d2 q' where rot: "rotate_wal_if_needed T (?E1, d1) = ((E2, d2), q')" by (metis prod.exhaust)
  have "d' = d2" using assms(1) w1 rot by (cases q') (auto simp: logged_def)
  moreover have "fs_read d1 p = fs_read d p" using append_frame [OF w1] assms(2,3) by auto
  ultimately show ?thesis using rotate_frame [OF rot assms(3)] by simp
qed

lemma local_entry_view:
  assumes "zstd_ok X" "engine_inv X E d ess"
  shows "local_entry X (E, d) k = view (en_memtable E) ess k"
proof -
  have "SegmentStore_get X d (en_segment_store E) k = Inr (map_of (concat (rev ess)) k)"
    using engine_invD(1) [OF assms(2)] unfolding store_ok_def by (intro store_get [OF assms(1)]) blast
  then show ?thesis by (simp add: local_entry_def btree_get_def view_def map_add_def split: option.split)
qed

text \<open>One record of a transferred segment.\<close>

lemma import_entry_spec:
  assumes "zstd_ok X" "importable X T (k, e)" "durable X E d ess" "names_ok E" "en_lsn_counter E + 1 \<noteq> 0"
  shows "\<exists>E' d' w s. import_entry X T (k, e) ((E, d), acc) =
       (((E', d'), (note_entry (k, e) acc)\<lparr>ia_keys_written := w, ia_keys_skipped := s\<rparr>), Inr ()) \<and>
     durable X E' d' ess \<and> names_ok E' \<and> en_segment_store E' = en_segment_store E \<and> en_config E' = en_config E \<and>
     (en_lsn_counter E' = en_lsn_counter E \<or> en_lsn_counter E' = en_lsn_counter E + 1) \<and>
     (\<forall>p. \<not> is_wal_name p \<longrightarrow> fs_read d' p = fs_read d p) \<and>
     map_of (en_memtable E') = (if lww_applies (view (en_memtable E) ess k) e
       then (map_of (en_memtable E))(k \<mapsto> restamped e (en_lsn_counter E + 1)) else map_of (en_memtable E))"
proof (cases "lww_applies (view (en_memtable E) ess k) e")
  case False
  have inv: "engine_inv X E d ess" using assms(3) by (simp add: durable_def)
  have "import_entry X T (k, e) ((E, d), acc) =
     (((E, d), (note_entry (k, e) acc)\<lparr>ia_keys_written := ia_keys_written acc, ia_keys_skipped := ia_keys_skipped acc + 1\<rparr>), Inr ())"
    using False by (simp add: import_entry_def local_entry_view [OF assms(1) inv] note_entry_def Let_def)
  then show ?thesis using assms(3,4) False by auto
next
  case True
  let ?l = "en_lsn_counter E + 1"
  let ?r = "incoming_record X T (k, e) ?l"
  have inv: "engine_inv X E d ess" using assms(3) by (simp add: durable_def)
  have fr: "frame_ok X ?r" using assms(2) by (simp add: importable_def)
  note kv = incoming_record_kv [OF assms(2), of ?l]
  obtain E' d' where l: "logged X T ?r (E, d) = ((E', d'), Inr ?l)" "durable X E' d' ess" "names_ok E'"
    using logged_durable [OF assms(3,4) fr, of T] kv(2) assms(5) by auto
  have ap: "lww_applies (local_entry X (E, d) k) e" using True local_entry_view [OF assms(1) inv] by simp
  have "import_entry X T (k, e) ((E, d), acc) =
     (((E', d'), (note_entry (k, e) acc)\<lparr>ia_keys_written := ia_keys_written acc + 1, ia_keys_skipped := ia_keys_skipped acc\<rparr>), Inr ())"
    using import_entry_steps [OF assms(2) ap, of acc] l(1) by (simp add: note_entry_def)
  moreover have "en_segment_store E' = en_segment_store E" "en_config E' = en_config E" "en_lsn_counter E' = ?l"
    "en_memtable E' = btree_insert k (restamped e ?l) (en_memtable E)"
    using logged_spec [OF l(1) inv] unfolding kv by simp_all
  moreover have "\<forall>p. \<not> is_wal_name p \<longrightarrow> fs_read d' p = fs_read d p"
    using logged_frame [OF l(1) engine_invD(4) [OF inv]] by blast
  ultimately show ?thesis using True l(2,3) by (auto simp: btree_insert_map_of)
qed

lemma note_entry_counts:
  "note_entry x (acc\<lparr>ia_keys_written := w, ia_keys_skipped := s\<rparr>) = (note_entry x acc)\<lparr>ia_keys_written := w, ia_keys_skipped := s\<rparr>"
  by (simp add: note_entry_def split: prod.split)

lemma fold_note_counts:
  "fold note_entry es (acc\<lparr>ia_keys_written := w, ia_keys_skipped := s\<rparr>) =
   (fold note_entry es acc)\<lparr>ia_keys_written := w, ia_keys_skipped := s\<rparr>"
  by (induction es arbitrary: acc) (simp_all add: note_entry_counts)

definition merged_entry :: "(bytes \<rightharpoonup> MemEntry) \<Rightarrow> (bytes \<rightharpoonup> MemEntry) \<Rightarrow> kv list \<Rightarrow> bytes \<Rightarrow> Lsn \<Rightarrow> MemEntry option" where
  "merged_entry loc mt es k l =
     (case map_of es k of
        Some inc \<Rightarrow> if lww_applies (loc k) inc then Some (restamped inc l) else mt k
      | None \<Rightarrow> mt k)"

lemma import_entries_spec:
  assumes "zstd_ok X" "\<forall>x \<in> set es. importable X T x" "distinct (map fst es)" "durable X E d ess" "names_ok E"
    and "unat (en_lsn_counter E) + length es < 2 ^ 64"
  shows "\<exists>E' d' w s. import_entries X T es ((E, d), acc) =
       (((E', d'), (fold note_entry es acc)\<lparr>ia_keys_written := w, ia_keys_skipped := s\<rparr>), Inr ()) \<and>
     durable X E' d' ess \<and> names_ok E' \<and> en_segment_store E' = en_segment_store E \<and> en_config E' = en_config E \<and>
     (\<forall>p. \<not> is_wal_name p \<longrightarrow> fs_read d' p = fs_read d p) \<and>
     (\<forall>k. \<exists>l. map_of (en_memtable E') k = merged_entry (view (en_memtable E) ess) (map_of (en_memtable E)) es k l)"
  using assms(2-6)
proof (induction es arbitrary: E d acc)
  case Nil
  then show ?case
    by (intro exI [of _ E] exI [of _ d] exI [of _ "ia_keys_written acc"] exI [of _ "ia_keys_skipped acc"])
       (simp add: merged_entry_def)
next
  case (Cons x es)
  obtain k e where x: "x = (k, e)" by (cases x)
  have u: "unat (en_lsn_counter E + 1) = unat (en_lsn_counter E) + 1" using Cons.prems(5) by (simp add: unat_word_ariths)
  then have nz: "en_lsn_counter E + 1 \<noteq> 0" by auto
  from import_entry_spec [OF assms(1) _ Cons.prems(3,4) nz, of T k e acc] Cons.prems(1) x
  obtain E1 d1 w1 s1 where 1: "import_entry X T x ((E, d), acc) =
       (((E1, d1), (note_entry x acc)\<lparr>ia_keys_written := w1, ia_keys_skipped := s1\<rparr>), Inr ())"
     "durable X E1 d1 ess" "names_ok E1" "en_segment_store E1 = en_segment_store E" "en_config E1 = en_config E"
     "en_lsn_counter E1 = en_lsn_counter E \<or> en_lsn_counter E1 = en_lsn_counter E + 1"
     "\<forall>p. \<not> is_wal_name p \<longrightarrow> fs_read d1 p = fs_read d p"
     "map_of (en_memtable E1) = (if lww_applies (view (en_memtable E) ess k) e
       then (map_of (en_memtable E))(k \<mapsto> restamped e (en_lsn_counter E + 1)) else map_of (en_memtable E))" by auto
  have room: "unat (en_lsn_counter E1) + length es < 2 ^ 64" using 1(6) u Cons.prems(5) by auto
  have pre: "\<forall>x \<in> set es. importable X T x" "distinct (map fst es)" using Cons.prems(1,2) by simp_all
  obtain E' d' w s where 2: "import_entries X T es ((E1, d1), (note_entry x acc)\<lparr>ia_keys_written := w1, ia_keys_skipped := s1\<rparr>) =
       (((E', d'), (fold note_entry es ((note_entry x acc)\<lparr>ia_keys_written := w1, ia_keys_skipped := s1\<rparr>))\<lparr>ia_keys_written := w,
          ia_keys_skipped := s\<rparr>), Inr ())" "durable X E' d' ess" "names_ok E'" "en_segment_store E' = en_segment_store E1"
     "en_config E' = en_config E1" "\<forall>p. \<not> is_wal_name p \<longrightarrow> fs_read d' p = fs_read d1 p"
     "\<And>k. \<exists>l. map_of (en_memtable E') k = merged_entry (view (en_memtable E1) ess) (map_of (en_memtable E1)) es k l"
    using Cons.IH [OF pre 1(2,3) room, of "(note_entry x acc)\<lparr>ia_keys_written := w1, ia_keys_skipped := s1\<rparr>"] by blast
  have new: "k \<notin> fst ` set es" using Cons.prems(2) x by simp
  have "\<exists>l. map_of (en_memtable E') q = merged_entry (view (en_memtable E) ess) (map_of (en_memtable E)) (x # es) q l" for q
  proof (cases "q = k")
    case True
    then have "map_of es q = None" using new by (simp add: map_of_eq_None_iff)
    with 2(7) [of q] 1(8) True show ?thesis by (auto simp: merged_entry_def x)
  next
    case False
    then have same: "map_of (en_memtable E1) q = map_of (en_memtable E) q" using 1(8) by auto
    then have "view (en_memtable E1) ess q = view (en_memtable E) ess q" by (simp add: view_def map_add_def)
    moreover obtain l where "map_of (en_memtable E') q = merged_entry (view (en_memtable E1) ess) (map_of (en_memtable E1)) es q l"
      using 2(7) [of q] by blast
    ultimately show ?thesis using same False by (intro exI [of _ l]) (cases "map_of es q"; simp add: merged_entry_def x)
  qed
  moreover have "import_entries X T (x # es) ((E, d), acc) =
       (((E', d'), (fold note_entry (x # es) acc)\<lparr>ia_keys_written := w, ia_keys_skipped := s\<rparr>), Inr ())"
    using 1(1) 2(1) by (simp add: fold_note_counts)
  ultimately show ?case using 1(4,5,7) 2(2-6) by auto
qed

section \<open>The imported segment\<close>

lemma fold_note_keys: "ia_segment_keys (fold note_entry es acc) = ia_segment_keys acc @ map fst es"
  by (induction es arbitrary: acc) (simp_all add: note_entry_def split: prod.split)

lemma fold_note_bounds:
  assumes "ksorted es" "es \<noteq> []"
  shows "ia_min_key (fold note_entry es import_acc_new) = Some (fst (hd es)) \<and>
     ia_max_key (fold note_entry es import_acc_new) = Some (fst (last es))"
  using assms
proof (induction es rule: rev_induct)
  case (snoc x es)
  obtain k e where x: "x = (k, e)" by (cases x)
  show ?case
  proof (cases "es = []")
    case True
    then show ?thesis by (simp add: note_entry_def import_acc_new_def x)
  next
    case False
    have srt: "ksorted es" "\<forall>y \<in> set es. fst y < k" using snoc.prems(1) by (auto simp: sorted_wrt_append x)
    then have "\<not> k < fst (hd es)" "fst (last es) < k" using False by (auto simp: less_imp_le not_less)
    with snoc.IH [OF srt(1) False] False show ?thesis by (simp add: note_entry_def x)
  qed
qed simp

lemma add_imported_finalize:
  assumes "SegmentReader_open X (m_segment_id meta) d = Inr reader" "mf_path (ss_manifest s) = manifest_path"
  shows "add_imported_segment X meta reader s d = finalize_segment X meta s d"
proof -
  obtain m d1 q where a: "add_segment X meta (ss_manifest s) d = ((m, d1), q)" by (metis prod.exhaust)
  show ?thesis
  proof (cases q)
    case (Inr u)
    then have "add_segment X meta (ss_manifest s) d = ((m, d1), Inr ())" using a by simp
    then have "SegmentReader_open X (m_segment_id meta) d1 = SegmentReader_open X (m_segment_id meta) d"
      using add_segment_frame assms(2) by (intro reader_open_frame) simp
    with a Inr assms(1) show ?thesis by (simp add: add_imported_segment_def finalize_segment_def)
  qed (use a in \<open>simp add: add_imported_segment_def finalize_segment_def\<close>)
qed

lemma index_ok_later: "index_ok X [] index \<Longrightarrow> index_ok X bs index"
  by (induction bs rule: rev_induct) (auto intro: index_ok_snoc)

text \<open>The files an import writes for the segment \<open>i\<close>, which come from a peer's segment.\<close>

definition import_files :: "ext \<Rightarrow> SegmentId \<Rightarrow> SegmentMeta \<Rightarrow> bytes list \<Rightarrow> string \<Rightarrow> dir \<Rightarrow> dir" where
  "import_files X i meta keys hash_dat d =
     fs_write (meta_path i) (json_meta X meta)
       (write_xf_file (build_xor_filter X keys) (xf_path i)
         (write_idx_file [([], 8)] (idx_path i) (fs_rename hash_dat (dat_path i) d)))"

lemma import_files_open:
  assumes "zstd_ok X" "json_ok X" "xor8_ok X" "segment_inv X dp rp es"
    and "fs_read dp (dat_path (sr_segment_id rp)) = Some data"
    and "length (xf_fingerprints (build_xor_filter X (map fst es))) \<le> 1000000"
    and "fs_read d (hash_hex h @ ''.dat'') = Some data"
    and "m_min_key meta = fst (hd es)" "m_max_key meta = fst (last es)"
    and d': "d' = import_files X i meta (map fst es) (hash_hex h @ ''.dat'') d"
  shows "\<exists>r. SegmentReader_open X i d' = Inr r \<and> segment_inv X d' r es \<and> sr_segment_id r = i"
    "\<forall>p. (\<forall>x. p \<noteq> segment_file i x) \<and> p \<noteq> hash_hex h @ ''.dat'' \<longrightarrow> fs_read d' p = fs_read d p"
proof -
  let ?n = "hash_hex h @ ''.dat''" and ?f = "build_xor_filter X (map fst es)"
  have n: "?n \<noteq> segment_file j x" for j x by (rule hash_name_other(3)) simp
  define d1 where "d1 = fs_rename ?n (dat_path i) d"
  define d2 where "d2 = write_idx_file [([], 8)] (idx_path i) d1"
  define d3 where "d3 = write_xf_file ?f (xf_path i) d2"
  have D: "d' = fs_write (meta_path i) (json_meta X meta) d3" by (simp add: d' import_files_def d1_def d2_def d3_def)
  note defs = D d3_def d2_def d1_def write_idx_file_def write_xf_file_def
  have rn: "fs_read d1 p = (if p = dat_path i then Some data else if p = ?n then None else fs_read d p)" for p
    unfolding d1_def by (rule fs_read_rename [OF assms(7)])
  show "\<forall>p. (\<forall>x. p \<noteq> segment_file i x) \<and> p \<noteq> ?n \<longrightarrow> fs_read d' p = fs_read d p"
    by (simp add: D d3_def d2_def write_idx_file_def write_xf_file_def rn)
  have idx: "read_idx_file (idx_path i) d' = Inr [([], 8)]"
  proof -
    have "read_idx_file (idx_path i) d' = read_idx_file (idx_path i) d2"
      by (simp add: read_idx_file_def D d3_def write_xf_file_def)
    also have "\<dots> = Inr [([], 8)]" unfolding d2_def by (rule read_write_idx) simp_all
    finally show ?thesis .
  qed
  have xf: "read_xf_file (xf_path i) d' = Inr ?f"
  proof -
    have "read_xf_file (xf_path i) d' = read_xf_file (xf_path i) d3" by (simp add: read_xf_file_def D)
    also have "\<dots> = Inr ?f" unfolding d3_def by (rule read_write_xf [OF assms(6)])
    finally show ?thesis .
  qed
  define r where "r = \<lparr> sr_segment_id = i, sr_meta = meta, sr_filter = ?f, sr_index = [([], 8 :: u64)] \<rparr>"
  have op: "SegmentReader_open X i d' = Inr r"
    using assms(2) idx xf by (simp add: SegmentReader_open_def r_def json_ok_def) (simp add: D)
  obtain bs where bs: "data = dat_of X bs" "length (dat_of X bs) < 2 ^ 64" "concat bs = es" "\<forall>b \<in> set bs. block_ok b"
    "ksorted es" "es \<noteq> []" using assms(4,5) unfolding segment_inv_def by auto
  have dat: "fs_read d' (dat_path i) = Some (dat_of X bs)"
    by (simp add: D d3_def d2_def write_idx_file_def write_xf_file_def rn bs(1))
  have "index_ok X [] ([] @ [([], word_of_nat (length (dat_of X [])))])" by (rule index_ok_add) (simp_all add: index_ok_def)
  then have "index_ok X [] [([], 8)]" by (simp add: dat_header_def)
  then have io: "index_ok X bs [([], 8)]" by (rule index_ok_later)
  have "segment_inv X d' r es"
    unfolding segment_inv_def using dat bs(2-6) io filter_has_keys [OF assms(3)] assms(8,9)
    by (intro exI [of _ bs]) (auto simp: r_def)
  with op show "\<exists>r. SegmentReader_open X i d' = Inr r \<and> segment_inv X d' r es \<and> sr_segment_id r = i"
    by (auto simp: r_def)
qed

lemma durable_other_file:
  assumes "durable X E d ess" "\<forall>q. q \<noteq> p \<longrightarrow> fs_read d' q = fs_read d q" "fs_wf d'"
    and "\<not> is_wal_name p" "p \<noteq> manifest_path" "\<forall>i x. p \<noteq> segment_file i x"
  shows "durable X E d' ess"
proof -
  obtain fs rs where inv: "engine_inv X E d ess" "wal_inv X E d fs rs" "map_of (en_memtable E) \<subseteq>\<^sub>m replayed fs rs"
    "replayed fs rs \<subseteq>\<^sub>m view (en_memtable E) ess" using assms(1) unfolding durable_def by blast
  have read: "fs_read d' q = fs_read d q" if "is_wal_name q" for q using assms(2,4) that by auto
  have wf: "fs_wf d" using inv(2) by (simp add: wal_inv_def)
  have files: "list_wal_files d' = list_wal_files d" by (rule list_wal_files_eqI [OF wf assms(3)]) (simp add: read)
  have names: "is_wal_name n" if "n \<in> set (list_wal_files d)" for n using that by (simp add: list_wal_files_set)
  have l: "list_wal_files d = map fst fs @ [w_path (en_wal E)]" using inv(2) by (simp add: wal_inv_def)
  have cur: "fs_read d' (w_path (en_wal E)) = fs_read d (w_path (en_wal E))" using names l by (intro read) simp
  have old: "fs_read d' n = fs_read d n" if "(n, q) \<in> set fs" for n q
  proof (rule read)
    have "n \<in> set (map fst fs)" using image_eqI [OF _ that, of n fst] by simp
    then show "is_wal_name n" using names l by simp
  qed
  have "\<forall>(n, q) \<in> set fs. fs_read d' n = Some (wal_header @ wal_log X q) \<and> (\<forall>r \<in> set q. frame_ok X r)"
    using inv(2) old unfolding wal_inv_def by fastforce
  then have "wal_inv X E d' fs rs"
    using inv(2) assms(3) cur unfolding wal_inv_def files by simp
  moreover have "store_ok X d' (en_segment_store E) ess"
  proof (rule store_ok_frame [OF engine_invD(1) [OF inv(1)]])
    show "fs_read d' manifest_path = fs_read d manifest_path" using assms(2,5) by metis
    show "\<forall>r \<in> set (ss_readers (en_segment_store E)). \<forall>x. fs_read d' (segment_file (sr_segment_id r) x) =
        fs_read d (segment_file (sr_segment_id r) x)" using assms(2,6) by metis
  qed
  then have "engine_inv X E d' ess" using inv(1) by (simp add: engine_inv_def)
  ultimately show ?thesis using inv(3,4) unfolding durable_def by blast
qed

lemma received_file:
  assumes "fs_wf d" "d1 = fs_rename (hash_hex h @ ''.tmp'') (hash_hex h @ ''.dat'') (fs_write (hash_hex h @ ''.tmp'') data d)"
  shows "fs_read d1 (hash_hex h @ ''.dat'') = Some data" "fs_wf d1"
    "q \<noteq> hash_hex h @ ''.dat'' \<Longrightarrow> q \<noteq> hash_hex h @ ''.tmp'' \<Longrightarrow> fs_read d1 q = fs_read d q"
    "fs_read d1 (hash_hex h @ ''.tmp'') = None"
proof -
  have w: "fs_read (fs_write (hash_hex h @ ''.tmp'') data d) (hash_hex h @ ''.tmp'') = Some data" by simp
  note r = fs_read_rename [OF w, of "hash_hex h @ ''.dat''", folded assms(2)]
  show "fs_read d1 (hash_hex h @ ''.dat'') = Some data" "fs_read d1 (hash_hex h @ ''.tmp'') = None"
    "q \<noteq> hash_hex h @ ''.dat'' \<Longrightarrow> q \<noteq> hash_hex h @ ''.tmp'' \<Longrightarrow> fs_read d1 q = fs_read d q"
    unfolding r by simp_all
  show "fs_wf d1" using assms(1) unfolding assms(2) fs_rename_def by simp
qed

lemma durable_received:
  assumes "durable X E d ess" "d1 = fs_rename (hash_hex h @ ''.tmp'') (hash_hex h @ ''.dat'') (fs_write (hash_hex h @ ''.tmp'') data d)"
  shows "durable X E d1 ess"
proof -
  have wf: "fs_wf d" using assms(1) by (auto simp: durable_def wal_inv_def)
  note rf = received_file [OF wf assms(2)]
  let ?d = "fs_write (hash_hex h @ ''.dat'') data d"
  have "durable X E ?d ess"
    by (rule durable_other_file [OF assms(1), where p = "hash_hex h @ ''.dat''"]) (use wf in simp_all)
  then show ?thesis
    by (rule durable_other_file [where p = "hash_hex h @ ''.tmp''"]) (use rf in auto)
qed

lemma import_segment_spec:
  assumes "zstd_ok X" "json_ok X" "xor8_ok X" "durable X E d ess" "names_ok E"
    and "segment_inv X dp rp es" "fs_read dp (dat_path (sr_segment_id rp)) = Some data"
    and "\<forall>x \<in> set es. importable X T x" "length (xf_fingerprints (build_xor_filter X (map fst es))) \<le> 1000000"
    and "blake3 X data \<notin> set (map m_segment_hash (list_segment_metas (en_segment_store E)))"
    and "ss_next_segment_id (en_segment_store E) + 1 \<noteq> 0" "unat (en_lsn_counter E) + length es < 2 ^ 64"
    and "\<And>w s. entry_ok X (addition (import_meta T (ss_next_segment_id (en_segment_store E)) data (blake3 X data)
       ((fold note_entry es import_acc_new)\<lparr>ia_keys_written := w, ia_keys_skipped := s\<rparr>)))"
  shows "\<exists>E' d' w s. import_segment X T data (blake3 X data) (E, d) = ((E', d'), Inr (Applied w s)) \<and>
     engine_inv X E' d' (ess @ [es]) \<and>
     (\<forall>k. \<exists>l. map_of (en_memtable E') k = merged_entry (view (en_memtable E) ess) (map_of (en_memtable E)) es k l)"
proof -
  let ?h = "blake3 X data" and ?i = "ss_next_segment_id (en_segment_store E)"
  let ?dat = "hash_hex ?h @ ''.dat''" and ?tmp = "hash_hex ?h @ ''.tmp''"
  define d1 where "d1 = fs_rename ?tmp ?dat (fs_write ?tmp data d)"
  have srt: "ksorted es" "es \<noteq> []" using assms(6) by (auto simp: segment_inv_def)
  have parse: "parse_dat_entries X data = Inr es"
  proof -
    obtain bs where "data = dat_of X bs" "concat bs = es" "\<forall>b \<in> set bs. block_ok b"
      using assms(6,7) unfolding segment_inv_def by auto
    then show ?thesis using parse_dat_loop_blocks [OF assms(1), of "[]" bs] by (simp add: parse_dat_entries_def SEGMENT_HEADER_LEN_def)
  qed
  have dur1: "durable X E d1 ess" by (rule durable_received [OF assms(4) d1_def])
  have "fs_wf d" using assms(4) by (auto simp: durable_def wal_inv_def)
  note rf = received_file [OF this d1_def]
  obtain E2 d2 w s where imp: "import_entries X T es ((E, d1), import_acc_new) =
       (((E2, d2), (fold note_entry es import_acc_new)\<lparr>ia_keys_written := w, ia_keys_skipped := s\<rparr>), Inr ())"
     "durable X E2 d2 ess" "en_segment_store E2 = en_segment_store E" "en_config E2 = en_config E"
     "\<forall>p. \<not> is_wal_name p \<longrightarrow> fs_read d2 p = fs_read d1 p"
     "\<forall>k. \<exists>l. map_of (en_memtable E2) k = merged_entry (view (en_memtable E) ess) (map_of (en_memtable E)) es k l"
    using import_entries_spec [OF assms(1,8) ksorted_distinct [OF srt(1)] dur1 assms(5,12), of import_acc_new] by blast
  define a where "a = (fold note_entry es import_acc_new)\<lparr>ia_keys_written := w, ia_keys_skipped := s\<rparr>"
  define meta where "meta = import_meta T ?i data ?h a"
  have bounds: "m_min_key meta = fst (hd es)" "m_max_key meta = fst (last es)" "m_segment_id meta = ?i"
    using fold_note_bounds [OF srt] by (simp_all add: meta_def import_meta_def a_def)
  have keys: "ia_segment_keys a = map fst es" by (simp add: a_def fold_note_keys import_acc_new_def)
  have inv2: "engine_inv X E2 d2 ess" using imp(2) by (simp add: durable_def)
  have st2: "store_ok X d2 (en_segment_store E) ess" using engine_invD(1) [OF inv2] imp(3) by simp
  have "\<not> is_wal_name ?dat" by (rule hash_name_other(1)) simp
  then have stored: "fs_read d2 ?dat = Some data" using imp(5) rf(1) by simp
  define d6 where "d6 = import_files X ?i meta (map fst es) ?dat d2"
  from import_files_open [OF assms(1-3,6,7,9) stored bounds(1,2) d6_def] obtain r where r:
    "SegmentReader_open X ?i d6 = Inr r" "segment_inv X d6 r es" "sr_segment_id r = ?i"
    and frame: "\<forall>p. (\<forall>x. p \<noteq> segment_file ?i x) \<and> p \<noteq> ?dat \<longrightarrow> fs_read d6 p = fs_read d2 p" by blast
  let ?s3 = "(en_segment_store E)\<lparr>ss_next_segment_id := ?i + 1\<rparr>"
  have fresh: "?i \<notin> set (segment_ids (en_segment_store E))" by (rule next_id_fresh [OF st2])
  have "?dat \<noteq> segment_file j x" "?dat \<noteq> manifest_path" for j x by (rule hash_name_other(3) hash_name_other(2), simp)+
  note nd = this
  have "store_ok X d6 (en_segment_store E) ess"
  proof (rule store_ok_frame [OF st2])
    show "fs_read d6 manifest_path = fs_read d2 manifest_path" using frame nd(2) by (metis manifest_path_not_segment)
    show "\<forall>q \<in> set (ss_readers (en_segment_store E)). \<forall>x. fs_read d6 (segment_file (sr_segment_id q) x) =
        fs_read d2 (segment_file (sr_segment_id q) x)"
    proof (intro ballI allI)
      fix q x assume "q \<in> set (ss_readers (en_segment_store E))"
      then have "sr_segment_id q \<noteq> ?i" using fresh by (metis image_eqI list.set_map segment_ids_def)
      then show "fs_read d6 (segment_file (sr_segment_id q) x) = fs_read d2 (segment_file (sr_segment_id q) x)"
        using frame nd(1) by (metis segment_file_inject)
    qed
  qed
  then have ok3: "store_ok X d6 ?s3 ess"
    unfolding store_ok_def using word_less_Suc_self [OF assms(11)] by (auto intro: less_trans)
  have eo: "entry_ok X (addition meta)" unfolding meta_def a_def by (rule assms(13))
  obtain s' d7 where fin: "finalize_segment X meta ?s3 d6 = ((s', d7), Inr ())" "store_ok X d7 s' (ess @ [es])"
    "ss_cohort_window_secs s' = ss_cohort_window_secs (en_segment_store E)"
    using finalize_ok [OF ok3 eo bounds(3) r] fresh word_less_Suc_self [OF assms(11)] by (auto simp: segment_ids_def)
  have "mf_path (ss_manifest ?s3) = manifest_path" using ok3 unfolding store_ok_def by blast
  then have add: "add_imported_segment X meta r ?s3 d6 = ((s', d7), Inr ())"
    using add_imported_finalize [of X meta d6 r ?s3] r(1) bounds(3) fin(1) by simp
  let ?E' = "E2\<lparr>en_segment_store := s'\<rparr>"
  have "\<not> list_ex (\<lambda>m. m_segment_hash m = ?h) (list_segment_metas (en_segment_store E))"
    using assms(10) by (force simp: list_ex_iff)
  then have "import_segment X T data ?h (E, d) = ((?E', d7), Inr (Applied w s))"
    using parse imp(1,3) r(1) add keys
    by (simp add: import_segment_def d1_def [symmetric] alloc_segment_id_def Let_def a_def [symmetric] meta_def [symmetric]
          import_files_def [symmetric] d6_def [symmetric]) (simp add: a_def)
  moreover have "engine_inv X ?E' d7 (ess @ [es])"
    using inv2 fin(2,3) by (simp add: engine_inv_def imp(3))
  ultimately show ?thesis using imp(6) by auto
qed

section \<open>Last writer wins\<close>

text \<open>The version that last-writer-wins keeps: the incoming one when there is no local one or it is older.\<close>

definition lww_winner :: "MemEntry option \<Rightarrow> MemEntry option \<Rightarrow> MemEntry option" where
  "lww_winner loc incoming =
     (case incoming of
        None \<Rightarrow> loc
      | Some inc \<Rightarrow> (case loc of
            None \<Rightarrow> Some inc
          | Some l \<Rightarrow> if sint (e_timestamp l) < sint (e_timestamp inc) then Some inc else Some l))"

lemma lww_winner_applies: "lww_winner loc (Some inc) = (if lww_applies loc inc then Some inc else loc)"
  by (cases loc) (simp_all add: lww_winner_def lww_applies_def)

lemma lww_winner_None [simp]: "lww_winner loc None = loc"
  by (simp add: lww_winner_def)

lemma visible_restamped: "visible (Some (restamped e l)) = visible (Some e)"
  by (simp add: visible_def restamped_def)

lemma view_snoc:
  "view mt (ess @ [es]) k = (case map_of mt k of Some e \<Rightarrow> Some e
     | None \<Rightarrow> (case map_of es k of Some e \<Rightarrow> Some e | None \<Rightarrow> map_of (concat (rev ess)) k))"
  by (simp add: view_def map_add_def split: option.split)

lemma merged_view:
  assumes "map_of mt' k = merged_entry (view mt ess) (map_of mt) es k l"
  shows "visible (view mt' (ess @ [es]) k) =
     (if map_of es k \<noteq> None \<and> \<not> lww_applies (view mt ess k) (the (map_of es k)) \<and> map_of mt k = None
      then visible (map_of es k) else visible (lww_winner (view mt ess k) (map_of es k)))"
  using assms
  by (cases "map_of es k"; cases "map_of mt k")
     (auto simp: merged_entry_def lww_winner_applies view_snoc view_def map_add_def visible_restamped split: option.split)

text \<open>What an import needs: a consistent engine, the data file of a segment of a peer, and limits of the formats.\<close>

definition import_ready :: "ext \<Rightarrow> Clock \<Rightarrow> Engine \<Rightarrow> dir \<Rightarrow> kv list list \<Rightarrow> bytes \<Rightarrow> kv list \<Rightarrow> bool" where
  "import_ready X T E d ess data es \<longleftrightarrow> durable X E d ess \<and> names_ok E \<and>
     (\<exists>dp rp. segment_inv X dp rp es \<and> fs_read dp (dat_path (sr_segment_id rp)) = Some data) \<and>
     (\<forall>x \<in> set es. importable X T x) \<and> length (xf_fingerprints (build_xor_filter X (map fst es))) \<le> 1000000 \<and>
     blake3 X data \<notin> set (map m_segment_hash (list_segment_metas (en_segment_store E))) \<and>
     ss_next_segment_id (en_segment_store E) + 1 \<noteq> 0 \<and> unat (en_lsn_counter E) + length es < 2 ^ 64 \<and>
     (\<forall>w s. entry_ok X (addition (import_meta T (ss_next_segment_id (en_segment_store E)) data (blake3 X data)
       ((fold note_entry es import_acc_new)\<lparr>ia_keys_written := w, ia_keys_skipped := s\<rparr>))))"

lemma import_get:
  assumes "zstd_ok X" "json_ok X" "xor8_ok X" "import_ready X T E d ess data es"
  shows "\<exists>E' d' w s. import_segment X T data (blake3 X data) (E, d) = ((E', d'), Inr (Applied w s)) \<and>
     engine_inv X E' d' (ess @ [es]) \<and>
     (\<forall>ns key. ns_ok ns \<longrightarrow> Engine_get X (E', d') ns key = Inr
       (let k = enc ns key; inc = map_of es k; loc = view (en_memtable E) ess k
        in if inc \<noteq> None \<and> \<not> lww_applies loc (the inc) \<and> map_of (en_memtable E) k = None
           then visible inc else visible (lww_winner loc inc)))"
proof -
  from assms(4) obtain dp rp where r: "durable X E d ess" "names_ok E" "segment_inv X dp rp es"
    "fs_read dp (dat_path (sr_segment_id rp)) = Some data" "\<forall>x \<in> set es. importable X T x"
    "length (xf_fingerprints (build_xor_filter X (map fst es))) \<le> 1000000"
    "blake3 X data \<notin> set (map m_segment_hash (list_segment_metas (en_segment_store E)))"
    "ss_next_segment_id (en_segment_store E) + 1 \<noteq> 0" "unat (en_lsn_counter E) + length es < 2 ^ 64"
    "\<And>w s. entry_ok X (addition (import_meta T (ss_next_segment_id (en_segment_store E)) data (blake3 X data)
       ((fold note_entry es import_acc_new)\<lparr>ia_keys_written := w, ia_keys_skipped := s\<rparr>)))"
    unfolding import_ready_def by blast
  obtain E' d' w s where i: "import_segment X T data (blake3 X data) (E, d) = ((E', d'), Inr (Applied w s))"
    "engine_inv X E' d' (ess @ [es])"
    "\<And>k. \<exists>l. map_of (en_memtable E') k = merged_entry (view (en_memtable E) ess) (map_of (en_memtable E)) es k l"
    using import_segment_spec [OF assms(1-3) r] by blast
  have "Engine_get X (E', d') ns key = Inr (let k = enc ns key; inc = map_of es k; loc = view (en_memtable E) ess k
        in if inc \<noteq> None \<and> \<not> lww_applies loc (the inc) \<and> map_of (en_memtable E) k = None
           then visible inc else visible (lww_winner loc inc))" if "ns_ok ns" for ns key
  proof -
    obtain l where "map_of (en_memtable E') (enc ns key) =
        merged_entry (view (en_memtable E) ess) (map_of (en_memtable E)) es (enc ns key) l" using i(3) by blast
    from merged_view [OF this] show ?thesis unfolding engine_get_view [OF assms(1) i(2) that] Let_def by simp
  qed
  with i(1,2) show ?thesis by blast
qed

section \<open>A sample import\<close>

definition run_of :: "bytes \<Rightarrow> i64 \<Rightarrow> kv list" where
  "run_of v ts = [(enc [110] [2], \<lparr> e_key = enc [110] [2], e_value = Some v, e_op = Put, e_lsn = 1,
     e_timestamp = ts, e_ttl = 0 \<rparr>)]"

lemma run_of_flushable: "length v < 1000 \<Longrightarrow> flushable sample_ext 3600 (run_of v ts)"
  by (simp add: flushable_def run_of_def entry_small_def entry_wf_def enc_def serialize_entry_def Let_def
        BLOCK_TARGET_BYTES_def build_xor_filter_def sample_ext_def)

lemma single_entry_file:
  assumes "segment_inv X d r [x]"
  shows "fs_read d (dat_path (sr_segment_id r)) = Some (dat_of X [[x]])"
proof -
  obtain bs where bs: "fs_read d (dat_path (sr_segment_id r)) = Some (dat_of X bs)" "concat bs = [x]" "\<forall>b \<in> set bs. block_ok b"
    using assms unfolding segment_inv_def by blast
  then obtain b bs' where "bs = b # bs'" "b \<noteq> []" by (cases bs) (auto simp: block_ok_def)
  with bs(2,3) have "bs = [[x]]" by (cases bs') (auto simp: block_ok_def append_eq_Cons_conv)
  with bs(1) show ?thesis by simp
qed

lemma run_of_file:
  assumes "length v < 1000"
  obtains dp rp where "segment_inv sample_ext dp rp (run_of v ts)"
    "fs_read dp (dat_path (sr_segment_id rp)) = Some (dat_of sample_ext [run_of v ts])"
proof -
  obtain meta d r where "segment_inv sample_ext d r (run_of v ts)"
    using flush_segment [OF sample_laws(2,5,4) run_of_flushable [OF assms], where d = "[]"] by blast
  with single_entry_file [of sample_ext d r] that show ?thesis by (simp add: run_of_def)
qed

lemma sample_hash:
  "blake3 sample_ext (dat_of sample_ext [b]) = blake3 sample_ext (dat_of sample_ext [b']) \<Longrightarrow>
   (word_of_nat (length (ser_block b)) :: u32) = word_of_nat (length (ser_block b'))"
proof -
  assume "blake3 sample_ext (dat_of sample_ext [b]) = blake3 sample_ext (dat_of sample_ext [b'])"
  then have "drop 12 (take 16 (blake3 sample_ext (dat_of sample_ext [b]))) =
      drop 12 (take 16 (blake3 sample_ext (dat_of sample_ext [b'])))" by simp
  then have "u32_le (word_of_nat (length (ser_block b))) = u32_le (word_of_nat (length (ser_block b')))"
    by (simp add: sample_ext_def dat_of_def dat_header_def block_bytes_def flush_block_to_file_def Let_def)
  then show ?thesis by (metis u32_of_le_u32_le)
qed

lemma run_of_hash:
  assumes "length v < 1000" "length v' < 1000" "length v \<noteq> length v'"
  shows "blake3 sample_ext (dat_of sample_ext [run_of v ts]) \<noteq> blake3 sample_ext (dat_of sample_ext [run_of v' ts'])"
proof
  assume "blake3 sample_ext (dat_of sample_ext [run_of v ts]) = blake3 sample_ext (dat_of sample_ext [run_of v' ts'])"
  from sample_hash [OF this] have "(word_of_nat (33 + length v) :: u32) = word_of_nat (33 + length v')"
    by (simp add: ser_block_def run_of_def serialize_entry_def enc_def)
  then have "unat (word_of_nat (33 + length v) :: u32) = unat (word_of_nat (33 + length v') :: u32)" by simp
  moreover have "unat (word_of_nat (33 + length v) :: u32) = 33 + length v"
    "unat (word_of_nat (33 + length v') :: u32) = 33 + length v'"
    using assms(1,2) by (simp_all only: unat_u32_of_nat)
  ultimately show False using assms(3) by simp
qed

lemma run_of_importable:
  assumes "length v < 1000" "x \<in> set (run_of v ts)"
  shows "importable sample_ext T x"
proof -
  have "incoming_record sample_ext T x l = put_record sample_ext (T\<lparr>ck_nanos := ts\<rparr>) [110] [2] v 0 l" for l
    using assms(2) by (simp add: run_of_def incoming_record_def decode_enc)
  then have "frame_ok sample_ext (incoming_record sample_ext T x l)" for l
    using sample_frames(1) [of "[110]" "[2]" v] assms(1) by simp
  moreover have "entry_wf x" using assms run_of_flushable [OF assms(1)] by (simp add: flushable_def entry_small_def)
  moreover have "\<exists>ns key. ns_ok ns \<and> fst x = enc ns key"
    using assms(2) by (intro exI [of _ "[110]"] exI [of _ "[2]"]) (simp add: run_of_def)
  ultimately show ?thesis by (simp add: importable_def)
qed

lemma sample_import_ready:
  assumes "durable sample_ext E d ess" "names_ok E" "length v < 1000" "ss_next_segment_id (en_segment_store E) < 100"
    and "unat (en_lsn_counter E) < 100"
    and "blake3 sample_ext (dat_of sample_ext [run_of v ts]) \<notin> set (map m_segment_hash (list_segment_metas (en_segment_store E)))"
  shows "import_ready sample_ext T E d ess (dat_of sample_ext [run_of v ts]) (run_of v ts)"
proof -
  let ?a = "\<lambda>w s. (fold note_entry (run_of v ts) import_acc_new)\<lparr>ia_keys_written := w, ia_keys_skipped := s\<rparr>"
  have "length (put_meta (import_meta T i data (blake3 sample_ext data) (?a w s))) \<le> 10000" for i data w s
    by (simp add: put_meta_def put_string_def put_bool_def import_meta_def run_of_def note_entry_def import_acc_new_def
          enc_def sample_ext_def)
  then have "length (put_meta (import_meta T i data (blake3 sample_ext data) (?a w s))) \<le> 999990" for i data w s
    by (rule order_trans) simp
  then have "entry_ok sample_ext (addition (import_meta T i data (blake3 sample_ext data) (?a w s)))" for i data w s
    by (simp add: entry_ok_def addition_def sample_ext_def put_entry_def put_bool_def)
  moreover have "unat (ss_next_segment_id (en_segment_store E) + 1) = unat (ss_next_segment_id (en_segment_store E)) + 1"
    using assms(4) by (simp add: word_less_nat_alt unat_word_ariths)
  then have "ss_next_segment_id (en_segment_store E) + 1 \<noteq> 0" by auto
  moreover obtain dp rp where "segment_inv sample_ext dp rp (run_of v ts)"
    "fs_read dp (dat_path (sr_segment_id rp)) = Some (dat_of sample_ext [run_of v ts])" using run_of_file [OF assms(3)] .
  moreover have "length (xf_fingerprints (build_xor_filter sample_ext (map fst (run_of v ts)))) \<le> 1000000"
    using run_of_flushable [OF assms(3)] by (simp add: flushable_def)
  moreover have "unat (en_lsn_counter E) + length (run_of v ts) < 2 ^ 64" using assms(5) by (simp add: run_of_def)
  ultimately show ?thesis unfolding import_ready_def using assms(1,2,6) run_of_importable [OF assms(3)] by blast
qed

text \<open>
  C8: Importing a segment of a peer merges it by last-writer-wins. The import succeeds, and
  afterwards every lookup returns the value of the version with the later timestamp, the local
  one on a tie; keys that the segment does not have are unchanged. This holds when the local
  versions that win are still in the memtable.
\<close>

theorem import_is_last_writer_wins:
  assumes "zstd_ok X" "json_ok X" "xor8_ok X" "import_ready X T E d ess data es"
    and "\<forall>(k, inc) \<in> set es. \<forall>l. view (en_memtable E) ess k = Some l \<longrightarrow>
       sint (e_timestamp inc) \<le> sint (e_timestamp l) \<longrightarrow> map_of (en_memtable E) k \<noteq> None"
  shows "\<exists>E' d' w s. import_segment X T data (blake3 X data) (E, d) = ((E', d'), Inr (Applied w s)) \<and>
     engine_inv X E' d' (ess @ [es]) \<and>
     (\<forall>ns key. ns_ok ns \<longrightarrow> Engine_get X (E', d') ns key =
        Inr (visible (lww_winner (view (en_memtable E) ess (enc ns key)) (map_of es (enc ns key)))))"
proof -
  have "\<not> (map_of es k \<noteq> None \<and> \<not> lww_applies (view (en_memtable E) ess k) (the (map_of es k)) \<and> map_of (en_memtable E) k = None)" for k
    using assms(5) by (cases "map_of es k"; cases "view (en_memtable E) ess k") (auto simp: lww_applies_def dest!: map_of_SomeD)
  note win = this
  obtain E' d' w s where i: "import_segment X T data (blake3 X data) (E, d) = ((E', d'), Inr (Applied w s))"
    "engine_inv X E' d' (ess @ [es])" and g: "\<And>ns key. ns_ok ns \<Longrightarrow> Engine_get X (E', d') ns key = Inr
       (let k = enc ns key; inc = map_of es k; loc = view (en_memtable E) ess k
        in if inc \<noteq> None \<and> \<not> lww_applies loc (the inc) \<and> map_of (en_memtable E) k = None
           then visible inc else visible (lww_winner loc inc))" using import_get [OF assms(1-4)] by blast
  have "Engine_get X (E', d') ns key =
        Inr (visible (lww_winner (view (en_memtable E) ess (enc ns key)) (map_of es (enc ns key))))" if "ns_ok ns" for ns key
    unfolding g [OF that] Let_def if_not_P [OF win] ..
  with i show ?thesis by blast
qed

theorem import_is_last_writer_wins_witness:
  "\<exists>E' d' w s. import_segment sample_ext sample_clock (dat_of sample_ext [run_of [7] 10])
       (blake3 sample_ext (dat_of sample_ext [run_of [7] 10])) new_db = ((E', d'), Inr (Applied w s)) \<and>
     Engine_get sample_ext (E', d') [110] [2] = Inr (visible (lww_winner None (map_of (run_of [7] 10) (enc [110] [2]))))"
proof -
  have e: "en_memtable (fst new_db) = []" "list_segment_metas (en_segment_store (fst new_db)) = []"
    by (simp_all add: new_db_def list_segment_metas_def list_segments_def new_store_def)
  have "import_ready sample_ext sample_clock (fst new_db) (snd new_db) [] (dat_of sample_ext [run_of [7] 10]) (run_of [7] 10)"
    by (rule sample_import_ready [OF new_db_durable new_db_names]) (simp_all add: e, simp_all add: new_db_def new_store_def)
  from import_is_last_writer_wins [OF sample_laws(2,5,4) this] obtain E' d' w s where
    "import_segment sample_ext sample_clock (dat_of sample_ext [run_of [7] 10]) (blake3 sample_ext (dat_of sample_ext [run_of [7] 10]))
       (fst new_db, snd new_db) = ((E', d'), Inr (Applied w s))"
    "\<forall>ns key. ns_ok ns \<longrightarrow> Engine_get sample_ext (E', d') ns key =
        Inr (visible (lww_winner (view [] [] (enc ns key)) (map_of (run_of [7] 10) (enc ns key))))"
    unfolding e by (auto simp: lww_applies_def view_def)
  then show ?thesis by (intro exI [of _ E'] exI [of _ d'] exI [of _ w] exI [of _ s]) (simp add: view_def)
qed

text \<open>
  C33: An import makes an older version visible when the newer local one is in a segment. The
  record is counted as skipped, but the segment that contains it is added behind the local
  segments, and lookups take the first match from the last segment: the local version that won
  is not returned any more.
\<close>

theorem import_shadows_newer_local_version:
  assumes "zstd_ok X" "json_ok X" "xor8_ok X" "import_ready X T E d ess data es" "ns_ok ns"
    and "map_of es (enc ns key) = Some inc" "map_of (en_memtable E) (enc ns key) = None"
    and "view (en_memtable E) ess (enc ns key) = Some loc" "sint (e_timestamp inc) < sint (e_timestamp loc)"
  shows "Engine_get X (E, d) ns key = Inr (visible (Some loc)) \<and>
     (\<exists>E' d' w s. import_segment X T data (blake3 X data) (E, d) = ((E', d'), Inr (Applied w s)) \<and>
        Engine_get X (E', d') ns key = Inr (visible (Some inc)))"
proof -
  have "engine_inv X E d ess" using assms(4) by (auto simp: import_ready_def durable_def)
  then have "Engine_get X (E, d) ns key = Inr (visible (Some loc))"
    using engine_get_view [OF assms(1) _ assms(5)] assms(8) by metis
  moreover have "\<not> lww_applies (Some loc) inc" using assms(9) by (simp add: lww_applies_def)
  moreover obtain E' d' w s where i: "import_segment X T data (blake3 X data) (E, d) = ((E', d'), Inr (Applied w s))"
    and g: "\<And>ns key. ns_ok ns \<Longrightarrow> Engine_get X (E', d') ns key = Inr
       (let k = enc ns key; inc = map_of es k; loc = view (en_memtable E) ess k
        in if inc \<noteq> None \<and> \<not> lww_applies loc (the inc) \<and> map_of (en_memtable E) k = None
           then visible inc else visible (lww_winner loc inc))" using import_get [OF assms(1-4)] by blast
  moreover have "Engine_get X (E', d') ns key = Inr (visible (Some inc))"
    using g [OF assms(5), of key] assms(6-8) \<open>\<not> lww_applies (Some loc) inc\<close> by (simp add: Let_def)
  ultimately show ?thesis by blast
qed

text \<open>A database whose only segment has a newer version of the key.\<close>

lemma flushed_db_parts:
  "\<exists>E d meta. durable sample_ext E d [run_of [8] 20] \<and> wal_inv sample_ext E d [] [] \<and> names_ok E \<and>
     en_memtable E = [] \<and> en_lsn_counter E = 0 \<and> ss_next_segment_id (en_segment_store E) = 1 \<and>
     list_segment_metas (en_segment_store E) = [meta] \<and> m_segment_id meta = 0 \<and>
     m_segment_hash meta = blake3 sample_ext (dat_of sample_ext [run_of [8] 20]) \<and>
     m_min_key meta = enc [110] [2] \<and> m_max_key meta = enc [110] [2] \<and>
     fs_read d (dat_path 0) = Some (dat_of sample_ext [run_of [8] 20]) \<and> segment_ids (en_segment_store E) = [0]"
proof -
  let ?es = "run_of [8] 20"
  have st0: "store_ok sample_ext (snd new_db) new_store []" using engine_invD(1) [OF new_db_inv] by (simp add: new_db_def)
  have fl: "flushable sample_ext 3600 ?es" by (rule run_of_flushable) simp
  obtain meta d1 r where f: "SegmentWriter_flush sample_ext 0 3600 0 ?es (snd new_db) = Inr (meta, d1)"
    "SegmentReader_open sample_ext 0 d1 = Inr r" "segment_inv sample_ext d1 r ?es" "sr_segment_id r = 0" "m_segment_id meta = 0"
    "sr_meta r = meta"
    "\<exists>dat. fs_read d1 (dat_path 0) = Some dat \<and> m_segment_hash meta = blake3 sample_ext dat"
    "\<forall>p. (\<forall>x. p \<noteq> segment_file 0 x) \<longrightarrow> fs_read d1 p = fs_read (snd new_db) p"
    using flush_segment [OF sample_laws(2,5,4) fl, of 0 0 "snd new_db"] by blast
  have dat: "fs_read d1 (dat_path 0) = Some (dat_of sample_ext [?es])"
    using single_entry_file [of sample_ext d1 r] f(3,4) by (simp add: run_of_def)
  with f(7) have hash: "m_segment_hash meta = blake3 sample_ext (dat_of sample_ext [?es])" by simp
  let ?s1 = "new_store\<lparr>ss_next_segment_id := 1\<rparr>"
  have "store_ok sample_ext d1 new_store []"
    by (rule store_ok_frame [OF st0]) (use f(8) in \<open>simp_all add: new_store_def\<close>)
  then have ok1: "store_ok sample_ext d1 ?s1 []" by (simp add: store_ok_def new_store_def)
  have eo: "entry_ok sample_ext (addition meta)" by (rule sample_flush_fits [OF f(1)]) (simp_all add: run_of_def enc_def)
  obtain s d2 where fin: "finalize_segment sample_ext meta ?s1 d1 = ((s, d2), Inr ())" "store_ok sample_ext d2 s [?es]"
    "ss_next_segment_id s = 1" "ss_cohort_window_secs s = 3600" "\<forall>p. p \<noteq> manifest_path \<longrightarrow> fs_read d2 p = fs_read d1 p"
    using finalize_ok [OF ok1 eo f(5,2,3,4)] by (auto simp: segment_ids_def new_store_def)
  obtain m' where "add_segment sample_ext meta (ss_manifest ?s1) d1 = ((m', d2), Inr ())" "ss_manifest s = m'"
    using fin(1) by (auto simp: finalize_segment_def split: prod.splits sum.splits)
  moreover have "manifest_inv sample_ext (ss_manifest ?s1) d1" using ok1 unfolding store_ok_def by blast
  ultimately have metas: "list_segment_metas s = [meta]"
    using manifest_inv_add by (fastforce simp: list_segment_metas_def list_segments_def new_store_def)
  define E where "E = (fst new_db)\<lparr>en_segment_store := s\<rparr>"
  have wal: "wal_inv sample_ext (fst new_db) (snd new_db) [] []"
    by (simp add: wal_inv_def fs_wf_def fs_names_def list_wal_files_def new_db_def fs_read_def)
  have wf: "fs_wf d2" using fs_wf_finalize [OF fin(1)] fs_wf_flush [OF f(1)] wal by (simp add: wal_inv_def)
  have read: "fs_read d2 p = fs_read (snd new_db) p" if "is_wal_name p" for p
    using fin(5) f(8) that wal_not_segment by metis
  have files: "list_wal_files d2 = list_wal_files (snd new_db)"
    using wal by (intro list_wal_files_eqI [OF _ wf]) (simp_all add: wal_inv_def read)
  have path: "is_wal_name (w_path (en_wal (fst new_db)))" by (rule engine_invD(4) [OF new_db_inv])
  have wal2: "wal_inv sample_ext E d2 [] []"
    using wal wf read [OF path] by (simp add: wal_inv_def files E_def)
  have "engine_inv sample_ext E d2 [?es]"
    using fin(2,4) path by (simp add: engine_inv_def E_def) (simp add: new_db_def EdgestoreConfig_new_def)
  with wal2 have "durable sample_ext E d2 [?es]"
    unfolding durable_def by (intro conjI exI [of _ "[]"]) (simp_all add: replayed_def E_def, simp add: new_db_def)
  moreover have "names_ok E" using new_db_names by (simp add: names_ok_def E_def)
  moreover have "m_min_key meta = enc [110] [2]" "m_max_key meta = enc [110] [2]"
    using f(3) unfolding segment_inv_def f(6) by (auto simp: run_of_def)
  moreover have "fs_read d2 (dat_path 0) = Some (dat_of sample_ext [?es])" using fin(5) dat by simp
  moreover have "segment_ids s = [0]"
    using fin(2) metas f(5) unfolding store_ok_def
    by (simp add: segment_ids_def list_segment_metas_def list_segments_def)
  ultimately show ?thesis using wal2 metas hash f(5) fin(3)
    by (intro exI [of _ E] exI [of _ d2] exI [of _ meta]) (simp add: E_def, simp add: new_db_def)
qed

lemma flushed_db:
  "\<exists>E d. durable sample_ext E d [run_of [8] 20] \<and> names_ok E \<and> en_memtable E = [] \<and> en_lsn_counter E = 0 \<and>
     ss_next_segment_id (en_segment_store E) = 1 \<and>
     map m_segment_hash (list_segment_metas (en_segment_store E)) = [blake3 sample_ext (dat_of sample_ext [run_of [8] 20])]"
  using flushed_db_parts by (elim exE conjE) (intro exI conjI; assumption?; simp)


theorem import_shadows_newer_local_version_witness:
  "\<exists>E d E' d' w s. Engine_get sample_ext (E, d) [110] [2] = Inr (Some [8]) \<and>
     import_segment sample_ext sample_clock (dat_of sample_ext [run_of [9, 9] 10])
       (blake3 sample_ext (dat_of sample_ext [run_of [9, 9] 10])) (E, d) = ((E', d'), Inr (Applied w s)) \<and>
     Engine_get sample_ext (E', d') [110] [2] = Inr (Some [9, 9])"
proof -
  obtain E d where E: "durable sample_ext E d [run_of [8] 20]" "names_ok E" "en_memtable E = []" "en_lsn_counter E = 0"
     "ss_next_segment_id (en_segment_store E) = 1"
     "map m_segment_hash (list_segment_metas (en_segment_store E)) = [blake3 sample_ext (dat_of sample_ext [run_of [8] 20])]"
    using flushed_db by (elim exE conjE) (rule that)
  have ready: "import_ready sample_ext sample_clock E d [run_of [8] 20] (dat_of sample_ext [run_of [9, 9] 10]) (run_of [9, 9] 10)"
    by (rule sample_import_ready [OF E(1,2)]) (use run_of_hash [of "[9, 9]" "[8]" 10 20] in \<open>simp_all add: E(4-6)\<close>)
  have "map_of (run_of [9, 9] 10) (enc [110] [2]) = Some (snd (hd (run_of [9, 9] 10)))"
    "view (en_memtable E) [run_of [8] 20] (enc [110] [2]) = Some (snd (hd (run_of [8] 20)))"
    "map_of (en_memtable E) (enc [110] [2]) = None"
    "sint (e_timestamp (snd (hd (run_of [9, 9] 10)))) < sint (e_timestamp (snd (hd (run_of [8] 20))))"
    by (simp_all add: run_of_def view_def E(3))
  note im = import_shadows_newer_local_version [OF sample_laws(2,5,4) ready ns_ok_singleton this(1,3,2,4)]
  have "visible (Some (snd (hd (run_of [8] 20)))) = Some [8]" "visible (Some (snd (hd (run_of [9, 9] 10)))) = Some [9, 9]"
    by (simp_all add: visible_def run_of_def)
  note im [unfolded this]
  then obtain E' d' w s where "Engine_get sample_ext (E, d) [110] [2] = Inr (Some [8])"
    "import_segment sample_ext sample_clock (dat_of sample_ext [run_of [9, 9] 10])
       (blake3 sample_ext (dat_of sample_ext [run_of [9, 9] 10])) (E, d) = ((E', d'), Inr (Applied w s))"
    "Engine_get sample_ext (E', d') [110] [2] = Inr (Some [9, 9])" by (elim conjE exE) (rule that)
  then show ?thesis
    by (intro exI [of _ E] exI [of _ d] exI [of _ E'] exI [of _ d'] exI [of _ w] exI [of _ s] conjI)
qed

end
