(* ===== verification/AntiEntropy.thy ===== *)
theory AntiEntropy
  imports ReplicationFacts
begin

text \<open>
  One cycle of the pull-only anti-entropy loop, \<open>edgestore-repl/src/anti_entropy.rs\<close>, and the
  promotion of a replica, \<open>edgestore-repl/src/replicated_engine.rs\<close>. The peer behind the HTTP
  client is a record of the answers it gives during the cycle, the MessagePack codec of the
  cursor file is a parameter. Messages on standard error are left out; a failure to write the
  cursor file, which the code only reports, does not occur in the model of the directory.
\<close>

section \<open>State\<close>

record PeerCursor =
  last_known_merkle_root :: bytes
  segments_pending :: "bytes list"
  last_attempt_secs :: u64
  segments_applied_total :: u64
  last_known_wtoken :: u64

definition PeerCursor_default :: PeerCursor where
  "PeerCursor_default = \<lparr> last_known_merkle_root = [], segments_pending = [], last_attempt_secs = 0,
     segments_applied_total = 0, last_known_wtoken = 0 \<rparr>"

record WatermarkResponse =
  wm_confirmed_lsn :: u64
  wm_wtoken :: u64

record peer =
  p_watermark :: "WatermarkResponse res"
  p_merkle_root :: "bytes res"
  p_list_segments :: "SegmentRef list res"
  p_fetch_segment :: "bytes \<Rightarrow> bytes res"

text \<open>\<open>rmp_serde::to_vec\<close> and \<open>rmp_serde::from_read\<close> for the cursor.\<close>

record codec =
  mp_encode :: "PeerCursor \<Rightarrow> bytes"
  mp_decode :: "bytes \<Rightarrow> PeerCursor option"

definition codec_ok :: "codec \<Rightarrow> bool" where
  "codec_ok M \<longleftrightarrow> (\<forall>c. mp_decode M (mp_encode M c) = Some c)"

section \<open>The cursor file\<close>

definition cursor_file_path :: "string \<Rightarrow> string" where
  "cursor_file_path peer_id = ''sync/'' @ peer_id @ ''.cursor''"

definition load_cursor :: "codec \<Rightarrow> string \<Rightarrow> dir \<Rightarrow> PeerCursor" where
  "load_cursor M path d =
     (case fs_read d path of
        Some bs \<Rightarrow> (case mp_decode M bs of Some c \<Rightarrow> c | None \<Rightarrow> PeerCursor_default)
      | None \<Rightarrow> PeerCursor_default)"

definition flush_cursor :: "codec \<Rightarrow> PeerCursor \<Rightarrow> string \<Rightarrow> dir \<Rightarrow> dir" where
  "flush_cursor M cursor path d =
     (let tmp_path = path @ ''.tmp'' in fs_rename tmp_path path (fs_write tmp_path (mp_encode M cursor) d))"

section \<open>One cycle\<close>

text \<open>
  One pending hash: the segment is fetched and imported. The last component collects what is
  given to the remote store.
\<close>

definition pull_segment ::
  "ext \<Rightarrow> codec \<Rightarrow> Clock \<Rightarrow> peer \<Rightarrow> string \<Rightarrow> bool \<Rightarrow> bytes \<Rightarrow>
   est \<times> PeerCursor \<times> (bytes \<times> bytes) list \<Rightarrow> est \<times> PeerCursor \<times> (bytes \<times> bytes) list" where
  "pull_segment X M T P cursor_path has_remote hash_vec = (\<lambda>(st, cursor, uploads).
     if length hash_vec \<noteq> 32 then (st, cursor, uploads)
     else case p_fetch_segment P hash_vec of
            Inl e \<Rightarrow> (st, cursor, uploads)
          | Inr data \<Rightarrow>
              let drop_pending = cursor\<lparr>segments_pending := filter (\<lambda>h. h \<noteq> hash_vec) (segments_pending cursor)\<rparr>
              in (case import_segment X T data hash_vec st of
                    ((E, d), Inr (Applied keys_written keys_skipped)) \<Rightarrow>
                      let cursor' = drop_pending\<lparr>segments_applied_total := segments_applied_total cursor + 1\<rparr>
                      in ((E, flush_cursor M cursor' cursor_path d), cursor',
                          if has_remote then uploads @ [(hash_vec, data)] else uploads)
                  | ((E, d), Inr Skipped) \<Rightarrow>
                      let cursor' = drop_pending\<lparr>segments_applied_total := segments_applied_total cursor + 1\<rparr>
                      in ((E, flush_cursor M cursor' cursor_path d), cursor', uploads)
                  | (st', Inr HashMismatch) \<Rightarrow> (st', cursor, uploads)
                  | ((E, d), Inr (Rejected reason)) \<Rightarrow>
                      ((E, flush_cursor M drop_pending cursor_path d), drop_pending, uploads)
                  | (st', Inl e) \<Rightarrow> (st', cursor, uploads)))"

definition note_watermark :: "codec \<Rightarrow> peer \<Rightarrow> string \<Rightarrow> PeerCursor \<times> dir \<Rightarrow> PeerCursor \<times> dir" where
  "note_watermark M P cursor_path = (\<lambda>(cursor, d).
     case p_watermark P of
       Inl e \<Rightarrow> (cursor, d)
     | Inr wm \<Rightarrow>
         if wm_wtoken wm > last_known_wtoken cursor
         then let cursor' = cursor\<lparr>last_known_wtoken := wm_wtoken wm\<rparr>
              in (cursor', flush_cursor M cursor' cursor_path d)
         else (cursor, d))"

definition run_once ::
  "ext \<Rightarrow> codec \<Rightarrow> Clock \<Rightarrow> peer \<Rightarrow> string \<Rightarrow> bool \<Rightarrow> est \<Rightarrow> est \<times> (bytes \<times> bytes) list" where
  "run_once X M T P peer_id has_remote = (\<lambda>(E, d).
     let cursor_path = cursor_file_path peer_id;
         cursor0 = (load_cursor M cursor_path d)\<lparr>last_attempt_secs := ck_secs T\<rparr>
     in case note_watermark M P cursor_path (cursor0, flush_cursor M cursor0 cursor_path d) of
          (cursor1, d1) \<Rightarrow>
            (case p_merkle_root P of
               Inl e \<Rightarrow> ((E, d1), [])
             | Inr peer_root \<Rightarrow>
                 if compare_merkle X E peer_root
                 then let cursor2 = cursor1\<lparr>last_known_merkle_root := peer_root\<rparr>
                      in ((E, flush_cursor M cursor2 cursor_path d1), [])
                 else
                   case p_list_segments P of
                     Inl e \<Rightarrow> ((E, d1), [])
                   | Inr peer_segments \<Rightarrow>
                       let cursor2 = cursor1\<lparr>segments_pending := missing_segments E peer_segments\<rparr>;
                           d2 = flush_cursor M cursor2 cursor_path d1
                       in (case fold (pull_segment X M T P cursor_path has_remote) (segments_pending cursor2)
                                  ((E, d2), cursor2, []) of
                             ((E3, d3), cursor3, uploads) \<Rightarrow>
                               let cursor4 = cursor3\<lparr>last_known_merkle_root := peer_root\<rparr>
                               in ((E3, flush_cursor M cursor4 cursor_path d3), uploads))))"

section \<open>Promotion\<close>

definition promote_to_primary ::
  "ext \<Rightarrow> EdgestoreConfig \<Rightarrow> Clock \<Rightarrow> bool \<Rightarrow> peer option \<Rightarrow> dir \<Rightarrow> est res" where
  "promote_to_primary X config T busy old_primary d =
     and_then (Engine_open X config T busy d) (\<lambda>(E, d1).
       let fetched_wtoken = (case old_primary of
             None \<Rightarrow> None
           | Some P \<Rightarrow> (case p_watermark P of Inr wm \<Rightarrow> Some (wm_wtoken wm) | Inl e \<Rightarrow> None));
           new_token = max (case fetched_wtoken of Some t \<Rightarrow> t | None \<Rightarrow> 0) (write_token E) + 1
       in Inr (set_write_token new_token (E, d1)))"

section \<open>The Merkle probe\<close>

abbreviation segment_hashes :: "Engine \<Rightarrow> bytes list" where
  "segment_hashes E \<equiv> map m_segment_hash (list_segment_metas (en_segment_store E))"

text \<open>
  The Merkle probe is exact. Two nodes compare equal exactly when their manifests hold the same
  segment hashes, in whatever order they were added, provided the hash function does not
  collide on the two lists that are hashed.
\<close>

theorem merkle_probe_exact:
  assumes "\<forall>h \<in> set (segment_hashes E) \<union> set (segment_hashes E'). length h = 32"
    and "\<forall>F \<in> {E, E'}. blake3 X (concat (sort (segment_hashes F))) \<noteq> zero_hash"
    and "blake3 X (concat (sort (segment_hashes E))) = blake3 X (concat (sort (segment_hashes E'))) \<longrightarrow>
       concat (sort (segment_hashes E)) = concat (sort (segment_hashes E'))"
  shows "compare_merkle X E (range_merkle_root X E') \<longleftrightarrow> mset (segment_hashes E) = mset (segment_hashes E')"
proof -
  let ?h = "segment_hashes E" and ?h' = "segment_hashes E'"
  have root: "range_merkle_root X F = (if segment_hashes F = [] then zero_hash else blake3 X (concat (sort (segment_hashes F))))" for F
    by (simp add: range_merkle_root_def Let_def)
  have pieces: "concat (sort ?h) = concat (sort ?h') \<longleftrightarrow> sort ?h = sort ?h'"
  proof
    assume c: "concat (sort ?h) = concat (sort ?h')"
    have "\<forall>x \<in> set (sort ?h). length x = 32" "\<forall>x \<in> set (sort ?h'). length x = 32"
      using assms(1) unfolding set_sort by blast+
    then show "sort ?h = sort ?h'" by (intro concat_eq_pieces [OF c, of 32]) simp_all
  qed (rule arg_cong)
  have sorted: "sort ?h = sort ?h' \<longleftrightarrow> mset ?h = mset ?h'"
  proof
    assume "sort ?h = sort ?h'"
    then have "mset (sort ?h) = mset (sort ?h')" by (rule arg_cong)
    then show "mset ?h = mset ?h'" unfolding mset_sort .
  next
    assume "mset ?h = mset ?h'"
    then have "mset (sort ?h') = mset ?h" unfolding mset_sort by (rule sym)
    then show "sort ?h = sort ?h'" by (rule properties_for_sort) simp
  qed
  show ?thesis
  proof (cases "?h = [] \<or> ?h' = []")
    case True
    then have "range_merkle_root X E = range_merkle_root X E' \<longleftrightarrow> ?h = ?h'"
      using assms(2) unfolding root by auto
    moreover have "?h = ?h' \<longleftrightarrow> mset ?h = mset ?h'" using True by auto
    ultimately show ?thesis by (simp only: compare_merkle_def)
  next
    case False
    then have "range_merkle_root X E = range_merkle_root X E' \<longleftrightarrow> concat (sort ?h) = concat (sort ?h')"
      using assms(3) unfolding root by auto
    then show ?thesis by (simp only: compare_merkle_def pieces sorted)
  qed
qed

definition hash_engine :: "bytes list \<Rightarrow> Engine" where
  "hash_engine hs = (fst new_db)\<lparr>en_segment_store := new_store\<lparr>ss_manifest := \<lparr> mf_path = manifest_path,
     mf_segments = map (\<lambda>h. (sample_meta 0)\<lparr>m_segment_hash := h\<rparr>) hs \<rparr>\<rparr>\<rparr>"

lemma hash_engine_hashes: "segment_hashes (hash_engine hs) = hs"
  by (simp add: hash_engine_def list_segment_metas_def list_segments_def comp_def)

theorem merkle_probe_exact_witness:
  "compare_merkle sample_ext (hash_engine [replicate 32 1, replicate 32 2])
     (range_merkle_root sample_ext (hash_engine [replicate 32 2, replicate 32 1])) \<and>
   \<not> compare_merkle sample_ext (hash_engine [replicate 32 1]) (range_merkle_root sample_ext (hash_engine [replicate 32 2]))"
proof -
  have less: "replicate 32 (1 :: byte) < replicate 32 2" by (simp add: numeral_eq_Suc)
  then have srt: "sort [replicate 32 (1 :: byte), replicate 32 2] = [replicate 32 1, replicate 32 2]"
    "sort [replicate 32 (2 :: byte), replicate 32 1] = [replicate 32 1, replicate 32 2]" by auto
  have b: "blake3 sample_ext (replicate 32 c @ r) = replicate 32 c" for c r by (simp add: sample_ext_def)
  have nz: "replicate 32 (1 :: byte) \<noteq> zero_hash" "replicate 32 (2 :: byte) \<noteq> zero_hash"
    by (simp_all add: zero_hash_def replicate_eq_replicate)
  have 1: "compare_merkle sample_ext (hash_engine [replicate 32 1, replicate 32 2])
     (range_merkle_root sample_ext (hash_engine [replicate 32 2, replicate 32 1])) \<longleftrightarrow>
     mset (segment_hashes (hash_engine [replicate 32 1, replicate 32 2])) = mset (segment_hashes (hash_engine [replicate 32 2, replicate 32 1]))"
    by (rule merkle_probe_exact) (simp_all add: hash_engine_hashes srt b nz del: sort_key_simps)
  have 2: "compare_merkle sample_ext (hash_engine [replicate 32 1]) (range_merkle_root sample_ext (hash_engine [replicate 32 2])) \<longleftrightarrow>
     mset (segment_hashes (hash_engine [replicate 32 1])) = mset (segment_hashes (hash_engine [replicate 32 2]))"
    using b [of _ "[]"] by (intro merkle_probe_exact) (simp_all add: hash_engine_hashes nz)
  show ?thesis unfolding 1 2 unfolding hash_engine_hashes by (simp add: add_mset_commute replicate_eq_replicate)
qed

section \<open>What a cycle pulls\<close>

lemma rotate_keeps_store: "rotate_wal_if_needed T (E, d) = ((E', d'), r) \<Longrightarrow> en_segment_store E' = en_segment_store E"
  by (auto simp: rotate_wal_if_needed_def split: if_splits sum.splits)

lemma put_with_timestamp_store:
  "put_with_timestamp X T ns key val ts (E, d) = ((E', d'), r) \<Longrightarrow> en_segment_store E' = en_segment_store E"
  by (auto simp: put_with_timestamp_def Let_def split: if_splits prod.splits sum.splits elim!: st_then.elims
        dest!: rotate_keeps_store)

lemma delete_with_timestamp_store:
  "delete_with_timestamp X T ns key ts (E, d) = ((E', d'), r) \<Longrightarrow> en_segment_store E' = en_segment_store E"
  by (auto simp: delete_with_timestamp_def Let_def split: if_splits prod.splits sum.splits elim!: st_then.elims
        dest!: rotate_keeps_store)

lemma import_entry_store:
  "import_entry X T x ((E, d), a) = (((E', d'), a'), r) \<Longrightarrow> en_segment_store E' = en_segment_store E"
  by (auto simp: import_entry_def Let_def split: if_splits prod.splits sum.splits option.splits
        dest!: put_with_timestamp_store delete_with_timestamp_store)

lemma import_entries_store:
  "import_entries X T xs ((E, d), a) = (((E', d'), a'), r) \<Longrightarrow> en_segment_store E' = en_segment_store E"
proof (induction xs arbitrary: E d a)
  case (Cons x xs)
  obtain E1 d1 a1 r1 where 1: "import_entry X T x ((E, d), a) = (((E1, d1), a1), r1)" by (metis prod.exhaust)
  with Cons show ?case using import_entry_store [OF 1] by (cases r1) auto
qed simp

lemma add_segment_manifest:
  "add_segment X meta m d = ((m', d'), r) \<Longrightarrow> mf_segments m' = (case r of Inl _ \<Rightarrow> mf_segments m | Inr _ \<Rightarrow> mf_segments m @ [meta])"
  by (auto simp: add_segment_def Let_def split: sum.splits if_splits prod.splits)

lemma import_segment_hashes:
  assumes "import_segment X T data hash (E, d) = ((E', d'), r)"
  shows "set (segment_hashes E) \<subseteq> set (segment_hashes E') \<and>
     (r = Inr Skipped \<or> (\<exists>w s. r = Inr (Applied w s)) \<longrightarrow> hash \<in> set (segment_hashes E')) \<and>
     (\<forall>e. r = Inr (Rejected e) \<longrightarrow> parse_dat_entries X data = Inl e)"
proof (cases "list_ex (\<lambda>m. m_segment_hash m = hash) (list_segment_metas (en_segment_store E)) \<or> blake3 X data \<noteq> hash")
  case True
  with assms show ?thesis by (auto simp: import_segment_def list_ex_iff split: if_splits)
next
  case False
  let ?tmp = "hash_hex hash @ ''.tmp''" and ?dat = "hash_hex hash @ ''.dat''"
  define d1 where "d1 = fs_rename ?tmp ?dat (fs_write ?tmp data d)"
  show ?thesis
  proof (cases "parse_dat_entries X data")
    case (Inl e)
    with assms False show ?thesis by (auto simp: import_segment_def Let_def)
  next
    case (Inr parsed)
    obtain E2 d2 a r2 where i: "import_entries X T parsed ((E, d1), import_acc_new) = (((E2, d2), a), r2)" by (metis prod.exhaust)
    have st: "en_segment_store E2 = en_segment_store E" by (rule import_entries_store [OF i])
    show ?thesis
    proof (cases r2)
      case (Inl e)
      with assms False Inr i st show ?thesis by (auto simp: import_segment_def Let_def d1_def)
    next
      case r2: (Inr u)
      let ?i = "ss_next_segment_id (en_segment_store E)"
      let ?s3 = "(en_segment_store E)\<lparr>ss_next_segment_id := ?i + 1\<rparr>"
      define meta where "meta = import_meta T ?i data hash a"
      define d6 where "d6 = import_files X ?i meta (ia_segment_keys a) ?dat d2"
      have imp: "import_segment X T data hash (E, d) =
         (case SegmentReader_open X ?i d6 of
            Inl e \<Rightarrow> ((E2\<lparr>en_segment_store := ?s3\<rparr>, d6), Inl e)
          | Inr reader \<Rightarrow>
              (case add_imported_segment X meta reader ?s3 d6 of
                 ((s, d7), Inl e) \<Rightarrow> ((E2\<lparr>en_segment_store := s\<rparr>, d7), Inl e)
               | ((s, d7), Inr _) \<Rightarrow> ((E2\<lparr>en_segment_store := s\<rparr>, d7), Inr (Applied (ia_keys_written a) (ia_keys_skipped a)))))"
        using False Inr i r2 st
        by (simp add: import_segment_def d1_def [symmetric] alloc_segment_id_def Let_def meta_def
              import_files_def d6_def split: sum.split prod.split)
      have hash: "m_segment_hash meta = hash" by (simp add: meta_def import_meta_def)
      show ?thesis
      proof (cases "SegmentReader_open X ?i d6")
        case (Inl e)
        with assms imp show ?thesis by (auto simp: list_segment_metas_def)
      next
        case (Inr reader)
        obtain m7 d7 q where add: "add_segment X meta (ss_manifest ?s3) d6 = ((m7, d7), q)" by (metis prod.exhaust)
        from add_segment_manifest [OF add] assms imp Inr add hash show ?thesis
          by (cases q) (auto simp: add_imported_segment_def list_segment_metas_def list_segments_def)
      qed
    qed
  qed
qed

text \<open>The peer answers with a segment that cannot be parsed.\<close>

definition rejected :: "ext \<Rightarrow> peer \<Rightarrow> bytes \<Rightarrow> bool" where
  "rejected X P h \<longleftrightarrow> (case p_fetch_segment P h of
     Inr data \<Rightarrow> (case parse_dat_entries X data of Inl e \<Rightarrow> True | Inr es \<Rightarrow> False) | Inl e \<Rightarrow> False)"

definition accounted :: "ext \<Rightarrow> peer \<Rightarrow> Engine \<Rightarrow> PeerCursor \<Rightarrow> bytes \<Rightarrow> bool" where
  "accounted X P E cursor h \<longleftrightarrow> h \<in> set (segment_hashes E) \<or> h \<in> set (segments_pending cursor) \<or> rejected X P h"

lemma pull_segment_step:
  assumes "pull_segment X M T P path has_remote h ((E, d), cursor, ups) = ((E', d'), cursor', ups')"
  shows "set (segment_hashes E) \<subseteq> set (segment_hashes E') \<and>
     set (segments_pending cursor') \<subseteq> set (segments_pending cursor) \<and>
     (\<forall>x. accounted X P E cursor x \<longrightarrow> accounted X P E' cursor' x)"
proof (cases "length h \<noteq> 32")
  case True
  with assms show ?thesis by (auto simp: pull_segment_def)
next
  case False
  show ?thesis
  proof (cases "p_fetch_segment P h")
    case (Inl e)
    with assms False show ?thesis by (auto simp: pull_segment_def)
  next
    case (Inr data)
    obtain E1 d1 r where i: "import_segment X T data h (E, d) = ((E1, d1), r)" by (metis prod.exhaust)
    note ih = import_segment_hashes [OF i]
    have E': "E' = E1" using assms False Inr i
      by (auto simp: pull_segment_def Let_def split: sum.splits ImportResult.splits)
    have pend: "segments_pending cursor' = segments_pending cursor \<or>
       segments_pending cursor' = filter (\<lambda>x. x \<noteq> h) (segments_pending cursor) \<and>
         (h \<in> set (segment_hashes E1) \<or> rejected X P h)"
      using assms False Inr i ih
      by (auto simp: pull_segment_def Let_def rejected_def split: sum.splits ImportResult.splits)
    then have sub: "set (segments_pending cursor') \<subseteq> set (segments_pending cursor)" by auto
    have "accounted X P E1 cursor' x" if "accounted X P E cursor x" for x
      using that pend ih unfolding accounted_def by (cases "x = h") auto
    with ih sub E' show ?thesis by blast
  qed
qed

lemma pull_all:
  assumes "fold (pull_segment X M T P path has_remote) hs ((E, d), cursor, ups) = ((E', d'), cursor', ups')"
  shows "set (segment_hashes E) \<subseteq> set (segment_hashes E') \<and>
     set (segments_pending cursor') \<subseteq> set (segments_pending cursor) \<and>
     (\<forall>x. accounted X P E cursor x \<longrightarrow> accounted X P E' cursor' x)"
  using assms
proof (induction hs arbitrary: E d cursor ups)
  case (Cons h hs)
  obtain E1 d1 c1 u1 where 1: "pull_segment X M T P path has_remote h ((E, d), cursor, ups) = ((E1, d1), c1, u1)"
    by (metis prod.exhaust)
  with Cons.prems have "fold (pull_segment X M T P path has_remote) hs ((E1, d1), c1, u1) = ((E', d'), cursor', ups')" by simp
  from Cons.IH [OF this] pull_segment_step [OF 1] show ?case by (meson subset_trans)
qed simp

lemma load_flushed:
  assumes "codec_ok M"
  shows "load_cursor M path (flush_cursor M c path d) = c"
proof -
  have "fs_read (fs_write (path @ ''.tmp'') (mp_encode M c) d) (path @ ''.tmp'') = Some (mp_encode M c)" by simp
  from fs_read_rename [OF this] show ?thesis
    using assms by (simp add: load_cursor_def flush_cursor_def Let_def codec_ok_def)
qed

text \<open>
  C36: A synchronisation cycle loses track of nothing. When the roots differ and the peer lists its
  segments, then after the cycle every segment of the peer is in the local manifest, or is
  recorded as pending in the cursor file (it could not be fetched or imported and is tried
  again), or was rejected because its bytes do not parse; local segments stay.
\<close>

theorem sync_cycle_accounts_for_all:
  assumes "codec_ok M" "p_merkle_root P = Inr root" "\<not> compare_merkle X E root" "p_list_segments P = Inr segs"
    and "run_once X M T P peer_id has_remote (E, d) = ((E', d'), uploads)"
  shows "set (segment_hashes E) \<subseteq> set (segment_hashes E') \<and>
     (\<forall>s \<in> set segs. accounted X P E' (load_cursor M (cursor_file_path peer_id) d') (ref_segment_hash s)) \<and>
     last_known_merkle_root (load_cursor M (cursor_file_path peer_id) d') = root"
proof -
  let ?path = "cursor_file_path peer_id"
  let ?c0 = "(load_cursor M ?path d)\<lparr>last_attempt_secs := ck_secs T\<rparr>"
  obtain c1 d1 where n: "note_watermark M P ?path (?c0, flush_cursor M ?c0 ?path d) = (c1, d1)" by fastforce
  let ?c2 = "c1\<lparr>segments_pending := missing_segments E segs\<rparr>"
  obtain E3 d3 c3 u where f: "fold (pull_segment X M T P ?path has_remote) (segments_pending ?c2)
      ((E, flush_cursor M ?c2 ?path d1), ?c2, []) = ((E3, d3), c3, u)" by (metis prod.exhaust)
  let ?c4 = "c3\<lparr>last_known_merkle_root := root\<rparr>"
  have "((E', d'), uploads) = ((E3, flush_cursor M ?c4 ?path d3), u)"
    using assms(2-5) n f by (simp add: run_once_def Let_def)
  then have E': "E' = E3" and c: "load_cursor M ?path d' = ?c4" using load_flushed [OF assms(1)] by auto
  note all = pull_all [OF f]
  have "accounted X P E ?c2 (ref_segment_hash s)" if "s \<in> set segs" for s
    using that by (auto simp: accounted_def missing_segments_def)
  with all have "accounted X P E3 c3 (ref_segment_hash s)" if "s \<in> set segs" for s using that by blast
  then have "accounted X P E' ?c4 (ref_segment_hash s)" if "s \<in> set segs" for s
    using that unfolding E' by (simp add: accounted_def)
  with all E' c show ?thesis by auto
qed

text \<open>A concrete codec and peer.\<close>

definition put_lists :: "bytes list \<Rightarrow> bytes" where
  "put_lists hs = concat (map (\<lambda>h. 1 # put_list h) hs) @ [0]"

fun get_lists :: "nat \<Rightarrow> bytes \<Rightarrow> (bytes list \<times> bytes) option" where
  "get_lists (Suc n) (c # rest) =
     (if c = 0 then Some ([], rest)
      else Option.bind (get_list rest) (\<lambda>(h, r). map_option (\<lambda>(hs, r'). (h # hs, r')) (get_lists n r)))"
| "get_lists n bs = None"

lemma get_put_lists: "length hs < n \<Longrightarrow> get_lists n (put_lists hs @ r) = Some (hs, r)"
proof (induction hs arbitrary: n)
  case Nil
  then show ?case by (cases n) (simp_all add: put_lists_def)
next
  case (Cons h hs)
  then obtain m where n: "n = Suc m" "length hs < m" by (cases n) auto
  have "put_lists (h # hs) @ r = 1 # put_list h @ put_lists hs @ r" by (simp add: put_lists_def)
  then show ?case using Cons.IH [OF n(2)] by (simp add: n(1))
qed

definition sample_codec :: codec where
  "sample_codec = \<lparr>
     mp_encode = (\<lambda>c. put_list (last_known_merkle_root c) @ u64_le (last_attempt_secs c) @ u64_le (segments_applied_total c) @
       u64_le (last_known_wtoken c) @ put_lists (segments_pending c)),
     mp_decode = (\<lambda>b0. Option.bind (get_list b0) (\<lambda>(root, b1). Option.bind (get_u64 b1) (\<lambda>(attempt, b2).
       Option.bind (get_u64 b2) (\<lambda>(total, b3). Option.bind (get_u64 b3) (\<lambda>(token, b4).
       map_option (\<lambda>(hs, _). \<lparr> last_known_merkle_root = root, segments_pending = hs, last_attempt_secs = attempt,
         segments_applied_total = total, last_known_wtoken = token \<rparr>) (get_lists (length b4) b4)))))) \<rparr>"

lemma sample_codec_ok: "codec_ok sample_codec"
proof -
  have "length hs < length (put_lists hs)" for hs by (induction hs) (simp_all add: put_lists_def)
  then have "get_lists (length (put_lists hs)) (put_lists hs) = Some (hs, [])" for hs
    using get_put_lists [of hs _ "[]"] by simp
  then show ?thesis by (simp add: codec_ok_def sample_codec_def)
qed

definition sample_peer :: peer where
  "sample_peer = \<lparr> p_watermark = Inr \<lparr> wm_confirmed_lsn = 1, wm_wtoken = 3 \<rparr>, p_merkle_root = Inr [1],
     p_list_segments = Inr [\<lparr> ref_segment_hash = replicate 32 9, ref_segment_id = 4 \<rparr>],
     p_fetch_segment = (\<lambda>h. Inr []) \<rparr>"

theorem sync_cycle_accounts_for_all_witness:
  "\<exists>E' d' uploads. run_once sample_ext sample_codec sample_clock sample_peer ''primary'' True new_db = ((E', d'), uploads) \<and>
     accounted sample_ext sample_peer E' (load_cursor sample_codec (cursor_file_path ''primary'') d') (replicate 32 9)"
proof -
  have p: "p_merkle_root sample_peer = Inr [1]" "p_list_segments sample_peer = Inr [\<lparr> ref_segment_hash = replicate 32 9, ref_segment_id = 4 \<rparr>]"
    by (simp_all add: sample_peer_def)
  have "range_merkle_root sample_ext (fst new_db) = zero_hash"
    by (simp add: range_merkle_root_def new_db_def new_store_def list_segment_metas_def list_segments_def)
  then have c: "\<not> compare_merkle sample_ext (fst new_db) [1]" by (simp add: compare_merkle_def zero_hash_def numeral_eq_Suc)
  obtain E' d' u where r: "run_once sample_ext sample_codec sample_clock sample_peer ''primary'' True (fst new_db, snd new_db) = ((E', d'), u)"
    by (metis prod.exhaust)
  from sync_cycle_accounts_for_all [OF sample_codec_ok p(1) c p(2) r]
  have "accounted sample_ext sample_peer E' (load_cursor sample_codec (cursor_file_path ''primary'') d') (replicate 32 9)" by simp
  with r show ?thesis by (intro exI [of _ E'] exI [of _ d'] exI [of _ u]) simp
qed

section \<open>Fencing\<close>

lemma write_token_stored: "load_write_token_from_path (snd (set_write_token token (E, d))) = token"
  by (simp add: load_write_token_from_path_def set_write_token_def)

lemma max_plus_one:
  assumes "a \<noteq> - 1" "b \<noteq> - 1"
  shows "a < max a b + 1" "b < max a (b :: u64) + 1"
proof -
  have "max a b + 1 \<noteq> 0" using assms by (metis add_eq_0_iff2 max_def)
  then have "max a b < max a b + 1" by (rule word_less_Suc_self)
  then show "a < max a b + 1" "b < max a b + 1" by (auto intro: le_less_trans)
qed

text \<open>
  C37: A promoted node fences off the old primary. Its write token is stored in the directory and is
  strictly larger than the token it had before and than the token the old primary reported,
  unless one of them is already the largest 64-bit number.
\<close>

theorem promotion_raises_token:
  assumes "promote_to_primary X config T busy (Some P) d = Inr (E, d')" "p_watermark P = Inr wm"
    and "Engine_open X config T busy d = Inr (E0, d0)" "write_token E0 \<noteq> - 1" "wm_wtoken wm \<noteq> - 1"
  shows "write_token E0 < write_token E \<and> wm_wtoken wm < write_token E \<and> load_write_token_from_path d' = write_token E"
proof -
  let ?t = "max (wm_wtoken wm) (write_token E0) + 1"
  have st: "(E, d') = set_write_token ?t (E0, d0)" using assms(1-3) by (simp add: promote_to_primary_def Let_def)
  then have "write_token E = ?t" by (auto simp: set_write_token_def write_token_def)
  moreover have "load_write_token_from_path d' = ?t" using write_token_stored [of ?t E0 d0] unfolding st [symmetric] by simp
  ultimately show ?thesis using max_plus_one [OF assms(5,4)] by simp
qed

theorem promotion_raises_token_witness:
  "\<exists>E d'. promote_to_primary sample_ext EdgestoreConfig_new sample_clock False (Some sample_peer) [] = Inr (E, d') \<and>
     3 < write_token E \<and> load_write_token_from_path d' = write_token E"
proof -
  have w: "p_watermark sample_peer = Inr \<lparr> wm_confirmed_lsn = 1, wm_wtoken = 3 \<rparr>" by (simp add: sample_peer_def)
  obtain E0 d0 where n: "new_db = (E0, d0)" by (cases new_db)
  then have o: "Engine_open sample_ext EdgestoreConfig_new sample_clock False [] = Inr (E0, d0)" by (simp add: new_db_open)
  have "E0 = fst new_db" by (simp add: n)
  then have t: "write_token E0 \<noteq> - 1" by (simp add: write_token_def new_db_def)
  obtain E d' where p: "promote_to_primary sample_ext EdgestoreConfig_new sample_clock False (Some sample_peer) [] = Inr (E, d')"
    by (simp add: promote_to_primary_def Let_def set_write_token_def o)
  from promotion_raises_token [OF p w o t] p show ?thesis by auto
qed

end
