(* ===== verification/Hex.thy ===== *)
theory Hex
  imports Prelude
begin

text \<open>
  Bytes in hexadecimal: \<open>hex::encode\<close> and the identical \<open>hash_to_hex\<close> of \<open>edgestore-repl/src/wire.rs\<close>
  and \<open>hex_hash\<close> of \<open>edgestore-tier/src/lib.rs\<close>, and \<open>u8::from_str_radix\<close> with radix 16 on two
  characters.
\<close>

definition hex_byte :: "byte \<Rightarrow> string" where
  "hex_byte b = pad_left 2 (show_base 16 (unat b))"

definition hex_encode :: "bytes \<Rightarrow> string" where
  "hex_encode bs = concat (map hex_byte bs)"

definition hash_to_hex :: "bytes \<Rightarrow> string" where
  "hash_to_hex hash = concat (map hex_byte hash)"

definition hex_digit :: "char \<Rightarrow> nat option" where
  "hex_digit c =
     (let n = (of_char c :: nat)
      in if 48 \<le> n \<and> n \<le> 57 then Some (n - 48)
         else if 97 \<le> n \<and> n \<le> 102 then Some (n - 87)
         else if 65 \<le> n \<and> n \<le> 70 then Some (n - 55)
         else None)"

text \<open>A leading plus sign is accepted in front of a digit, as for every integer type.\<close>

definition hex_pair :: "char \<Rightarrow> char \<Rightarrow> byte option" where
  "hex_pair a b =
     (if a = CHR ''+'' then map_option word_of_nat (hex_digit b)
      else case (hex_digit a, hex_digit b) of
             (Some x, Some y) \<Rightarrow> Some (word_of_nat (16 * x + y)) | _ \<Rightarrow> None)"

fun hex_pairs :: "string \<Rightarrow> bytes option" where
  "hex_pairs [] = Some []"
| "hex_pairs [a] = None"
| "hex_pairs (a # b # s) =
     (case hex_pair a b of
        None \<Rightarrow> None | Some x \<Rightarrow> map_option (Cons x) (hex_pairs s))"

lemma hex_byte_digits: "hex_byte b = [digit_char (unat b div 16), digit_char (unat b mod 16)]"
proof -
  have "unat b < 256" using unsigned_less [of b, where 'a = nat] by simp
  then have d: "unat b div 16 < 16" by simp
  show ?thesis
  proof (cases "unat b < 16")
    case True
    then have "hex_byte b = [CHR ''0'', digit_char (unat b)]"
      by (simp add: hex_byte_def show_base.simps [of 16 "unat b"] pad_left_def)
    moreover have "CHR ''0'' = digit_char 0" by code_simp
    ultimately show ?thesis using True by simp
  next
    case False
    with d show ?thesis
      by (simp add: hex_byte_def show_base.simps [of 16 "unat b"] show_base.simps [of 16 "unat b div 16"] pad_left_def)
  qed
qed

lemma hex_digit_char: "d < 16 \<Longrightarrow> hex_digit (digit_char d) = Some d" "d < 16 \<Longrightarrow> digit_char d \<noteq> CHR ''+''"
proof -
  assume d: "d < 16"
  have "of_char (digit_char d) = (if d < 10 then 48 + d else 87 + d)"
    using d by (simp add: digit_char_def)
  with d show "hex_digit (digit_char d) = Some d" "digit_char d \<noteq> CHR ''+''"
    by (auto simp: hex_digit_def Let_def split: if_splits)
qed

lemma hex_pairs_encode [simp, codec_simps]: "hex_pairs (hex_encode bs) = Some bs"
proof (induction bs)
  case (Cons b bs)
  have "unat b < 256" using unsigned_less [of b, where 'a = nat] by simp
  then have d: "unat b div 16 < 16" "unat b mod 16 < 16" by simp_all
  have "word_of_nat (16 * (unat b div 16) + unat b mod 16) = b" by simp
  then have "hex_pair (digit_char (unat b div 16)) (digit_char (unat b mod 16)) = Some b"
    using d by (simp only: hex_pair_def hex_digit_char if_False prod.case option.case)
  with Cons show ?case by (simp add: hex_encode_def hex_byte_digits)
qed (simp add: hex_encode_def)

lemma length_hex_encode [simp, codec_simps]: "length (hex_encode bs) = 2 * length bs"
  by (induction bs) (simp_all add: hex_encode_def hex_byte_digits)

lemma hash_to_hex_encode: "hash_to_hex h = hex_encode h"
  by (simp add: hash_to_hex_def hex_encode_def)

lemma hex_encode_inject [simp]: "hex_encode a = hex_encode b \<longleftrightarrow> a = b"
  by (metis hex_pairs_encode option.inject)

lemma hex_encode_no_dot: "CHR ''.'' \<notin> set (hex_encode bs)"
proof (induction bs)
  case (Cons b bs)
  have "CHR ''.'' \<noteq> digit_char d" if "d < 16" for d
  proof -
    have "hex_digit (CHR ''.'') = None" by code_simp
    with hex_digit_char(1) [OF that] show ?thesis by (metis option.distinct(1))
  qed
  moreover have "unat b < 256" using unsigned_less [of b, where 'a = nat] by simp
  then have "unat b div 16 < 16" "unat b mod 16 < 16" by simp_all
  ultimately have "CHR ''.'' \<notin> set (hex_byte b)" by (simp add: hex_byte_digits)
  with Cons show ?case by (simp add: hex_encode_def)
qed (simp add: hex_encode_def)

end
