(* ===== verification/RemoteStore.thy ===== *)
theory RemoteStore
  imports Hex Types
begin

text \<open>
  The durable, content-addressed store behind a tiered engine: the trait \<open>RemoteStore\<close> of
  \<open>edgestore/src/remote_store.rs\<close> as a record of operations over a state, what a client may rely
  on as a locale, and \<open>FilesystemRemoteStore\<close> of \<open>edgestore-repl/src/filesystem_remote_store.rs\<close>,
  whose state is its directory. File names are ASCII strings.
\<close>

section \<open>The operations of the trait\<close>

record 'r remote_ops =
  ro_upload :: "bytes \<Rightarrow> bytes \<Rightarrow> 'r \<Rightarrow> 'r \<times> unit res"
  ro_upload_if_absent :: "bytes \<Rightarrow> bytes \<Rightarrow> 'r \<Rightarrow> 'r \<times> bool res"
  ro_download :: "bytes \<Rightarrow> 'r \<Rightarrow> 'r \<times> bytes res"
  ro_list :: "'r \<Rightarrow> 'r \<times> bytes list res"
  ro_delete :: "bytes \<Rightarrow> 'r \<Rightarrow> 'r \<times> unit res"
  ro_upload_aux :: "bytes \<Rightarrow> string \<Rightarrow> bytes \<Rightarrow> 'r \<Rightarrow> 'r \<times> unit res"
  ro_download_aux :: "bytes \<Rightarrow> string \<Rightarrow> 'r \<Rightarrow> 'r \<times> bytes res"

text \<open>The bodies the trait gives to three of its methods.\<close>

definition default_upload_if_absent ::
  "(bytes \<Rightarrow> bytes \<Rightarrow> 'r \<Rightarrow> 'r \<times> unit res) \<Rightarrow> bytes \<Rightarrow> bytes \<Rightarrow> 'r \<Rightarrow> 'r \<times> bool res" where
  "default_upload_if_absent upload hash data r =
     (case upload hash data r of (r', Inl e) \<Rightarrow> (r', Inl e) | (r', Inr _) \<Rightarrow> (r', Inr True))"

definition default_upload_aux :: "bytes \<Rightarrow> string \<Rightarrow> bytes \<Rightarrow> 'r \<Rightarrow> 'r \<times> unit res" where
  "default_upload_aux hash extension data r =
     (r, Inl (InvalidOperation ''upload_aux not implemented for this RemoteStore''))"

definition default_download_aux :: "bytes \<Rightarrow> string \<Rightarrow> 'r \<Rightarrow> 'r \<times> bytes res" where
  "default_download_aux hash extension r =
     (r, Inl (InvalidOperation ''download_aux not implemented for this RemoteStore''))"

section \<open>A store in a directory\<close>

definition seg_path :: "bytes \<Rightarrow> string" where
  "seg_path hash = hash_to_hex hash @ ''.seg''"

definition aux_path :: "bytes \<Rightarrow> string \<Rightarrow> string res" where
  "aux_path hash extension =
     (if extension = [] \<or> \<not> list_all (\<lambda>c. CHR ''a'' \<le> c \<and> c \<le> CHR ''z'') extension
      then Inl (InvalidOperation ''invalid sidecar ext'')
      else Inr (hash_to_hex hash @ ''.'' @ extension))"

definition fsr_upload :: "bytes \<Rightarrow> bytes \<Rightarrow> dir \<Rightarrow> dir \<times> unit res" where
  "fsr_upload hash data d =
     (let dest = seg_path hash; tmp = hash_to_hex hash @ ''.tmp''
      in if fs_exists d dest then (d, Inr ())
         else (fs_rename tmp dest (fs_write tmp data d), Inr ()))"

definition fsr_upload_if_absent :: "bytes \<Rightarrow> bytes \<Rightarrow> dir \<Rightarrow> dir \<times> bool res" where
  "fsr_upload_if_absent hash data d =
     (let dest = seg_path hash
      in if fs_exists d dest then (d, Inr False)
         else (fs_append dest data (fs_write dest [] d), Inr True))"

definition fsr_download :: "bytes \<Rightarrow> dir \<Rightarrow> dir \<times> bytes res" where
  "fsr_download hash d =
     (d, case fs_read d (seg_path hash) of
           Some data \<Rightarrow> Inr data | None \<Rightarrow> Inl (ReplicationError ''segment not found''))"

definition ends_with :: "string \<Rightarrow> string \<Rightarrow> bool" where
  "ends_with s suffix \<longleftrightarrow> length suffix \<le> length s \<and> drop (length s - length suffix) s = suffix"

definition hash_of_name :: "string \<Rightarrow> bytes option" where
  "hash_of_name name =
     (if \<not> ends_with name ''.seg'' then None
      else let stem = take (length name - 4) name
           in if length stem \<noteq> 64 then None else hex_pairs stem)"

definition fsr_list :: "dir \<Rightarrow> dir \<times> bytes list res" where
  "fsr_list d = (d, Inr (List.map_filter hash_of_name (fs_names d)))"

definition fsr_delete :: "bytes \<Rightarrow> dir \<Rightarrow> dir \<times> unit res" where
  "fsr_delete hash d = (fs_remove (seg_path hash) d, Inr ())"

definition fsr_upload_aux :: "bytes \<Rightarrow> string \<Rightarrow> bytes \<Rightarrow> dir \<Rightarrow> dir \<times> unit res" where
  "fsr_upload_aux hash extension data d =
     (case aux_path hash extension of
        Inl e \<Rightarrow> (d, Inl e)
      | Inr dest \<Rightarrow>
          if fs_exists d dest then (d, Inr ())
          else let tmp = hash_to_hex hash @ ''.'' @ extension @ ''.tmp''
               in (fs_rename tmp dest (fs_write tmp data d), Inr ()))"

definition fsr_download_aux :: "bytes \<Rightarrow> string \<Rightarrow> dir \<Rightarrow> dir \<times> bytes res" where
  "fsr_download_aux hash extension d =
     (d, and_then (aux_path hash extension) (\<lambda>path.
           case fs_read d path of
             Some data \<Rightarrow> Inr data | None \<Rightarrow> Inl (ReplicationError ''sidecar not found'')))"

definition filesystem_remote :: "dir remote_ops" where
  "filesystem_remote = \<lparr> ro_upload = fsr_upload, ro_upload_if_absent = fsr_upload_if_absent,
     ro_download = fsr_download, ro_list = fsr_list, ro_delete = fsr_delete,
     ro_upload_aux = fsr_upload_aux, ro_download_aux = fsr_download_aux \<rparr>"

section \<open>What a client may rely on\<close>

text \<open>
  \<open>contents r\<close> is the map from hashes to segments that the state \<open>r\<close> stands for. An operation may
  fail, as a network does, and then it changes no segment; an upload that succeeds stores the
  bytes unless there are some already, and a download that succeeds returns what is stored.
\<close>

locale remote_store =
  fixes ops :: "'r remote_ops"
    and contents :: "'r \<Rightarrow> bytes \<Rightarrow> bytes option"
  assumes upload_if_absent_ok: "ro_upload_if_absent ops h data r = (r', Inr b) \<Longrightarrow>
      contents r' = (if contents r h = None then (contents r)(h \<mapsto> data) else contents r) \<and> b = (contents r h = None)"
    and upload_if_absent_err: "ro_upload_if_absent ops h data r = (r', Inl e) \<Longrightarrow> contents r' = contents r"
    and download_state: "contents (fst (ro_download ops h r)) = contents r"
    and download_ok: "snd (ro_download ops h r) = Inr data \<Longrightarrow> contents r h = Some data"
    and upload_aux_state: "ext \<in> {''idx'', ''xf'', ''meta''} \<Longrightarrow>
      contents (fst (ro_upload_aux ops h ext data r)) = contents r"

text \<open>A store in which nothing fails.\<close>

locale reliable_remote = remote_store +
  assumes upload_if_absent_total: "\<exists>r' b. ro_upload_if_absent ops h data r = (r', Inr b)"
    and download_total: "contents r h = Some data \<Longrightarrow> snd (ro_download ops h r) = Inr data"
begin

lemma upload_then_download:
  assumes "contents r h = None"
  shows "snd (ro_download ops h (fst (ro_upload_if_absent ops h data r))) = Inr data"
proof -
  obtain r' b where "ro_upload_if_absent ops h data r = (r', Inr b)" using upload_if_absent_total by blast
  with upload_if_absent_ok [OF this] assms download_total show ?thesis by simp
qed

end

definition fsr_contents :: "dir \<Rightarrow> bytes \<Rightarrow> bytes option" where
  "fsr_contents d hash = fs_read d (seg_path hash)"

lemma seg_path_inject [simp]: "seg_path a = seg_path b \<longleftrightarrow> a = b"
  by (simp add: seg_path_def hash_to_hex_encode)

lemma seg_path_ending: "dropWhile (\<lambda>c. c \<noteq> CHR ''.'') (seg_path h) = ''.seg''"
  unfolding seg_path_def hash_to_hex_encode
  by (subst dropWhile_append2) (use hex_encode_no_dot [of h] in auto)

lemma dotted_neq_seg_path:
  assumes "x \<noteq> ''seg''"
  shows "hash_to_hex g @ CHR ''.'' # x \<noteq> seg_path h"
proof
  assume "hash_to_hex g @ CHR ''.'' # x = seg_path h"
  then have "dropWhile (\<lambda>c. c \<noteq> CHR ''.'') (hash_to_hex g @ CHR ''.'' # x) = ''.seg''" by (simp add: seg_path_ending)
  moreover have "dropWhile (\<lambda>c. c \<noteq> CHR ''.'') (hash_to_hex g @ CHR ''.'' # x) = CHR ''.'' # x"
    using hex_encode_no_dot [of g] by (subst dropWhile_append2) (auto simp: hash_to_hex_encode)
  ultimately show False using assms by simp
qed

lemma fsr_aux_contents:
  assumes "ext \<in> {''idx'', ''xf'', ''meta''}"
  shows "fsr_contents (fst (fsr_upload_aux h ext data d)) = fsr_contents d"
proof
  fix g
  have ne: "hash_to_hex h @ CHR ''.'' # ext \<noteq> seg_path g" "hash_to_hex h @ CHR ''.'' # ext @ ''.tmp'' \<noteq> seg_path g"
    by (rule dotted_neq_seg_path; use assms in auto)+
  then show "fsr_contents (fst (fsr_upload_aux h ext data d)) g = fsr_contents d g"
    by (auto simp: fsr_upload_aux_def aux_path_def fsr_contents_def fs_rename_def Let_def)
qed

interpretation fsr: reliable_remote filesystem_remote fsr_contents
proof unfold_locales
  fix ext h data r
  assume "ext \<in> {''idx'', ''xf'', ''meta''}"
  then show "fsr_contents (fst (ro_upload_aux filesystem_remote h ext data r)) = fsr_contents r"
    by (simp only: filesystem_remote_def remote_ops.simps fsr_aux_contents)
qed (auto simp: filesystem_remote_def fsr_upload_if_absent_def fsr_download_def fsr_contents_def
       fs_exists_def fs_append_def Let_def fun_eq_iff split: if_splits option.splits)

section \<open>Crashes\<close>

text \<open>
  The directories a crash during an operation can leave behind: a file that is being written
  holds any prefix of its bytes, renaming is atomic.
\<close>

definition upload_crash :: "bytes \<Rightarrow> bytes \<Rightarrow> dir \<Rightarrow> dir \<Rightarrow> bool" where
  "upload_crash hash data d d' \<longleftrightarrow> d' = d \<or> d' = fst (fsr_upload hash data d) \<or>
     (\<not> fs_exists d (seg_path hash) \<and>
      (\<exists>n \<le> length data. d' = fs_write (hash_to_hex hash @ ''.tmp'') (take n data) d))"

definition upload_if_absent_crash :: "bytes \<Rightarrow> bytes \<Rightarrow> dir \<Rightarrow> dir \<Rightarrow> bool" where
  "upload_if_absent_crash hash data d d' \<longleftrightarrow> d' = d \<or> d' = fst (fsr_upload_if_absent hash data d) \<or>
     (\<not> fs_exists d (seg_path hash) \<and>
      (\<exists>n \<le> length data. d' = fs_append (seg_path hash) (take n data) (fs_write (seg_path hash) [] d)))"

lemma tmp_neq_seg_path [simp]:
  "hash_to_hex g @ ''.tmp'' \<noteq> seg_path h" "seg_path h \<noteq> hash_to_hex g @ ''.tmp''"
  using dotted_neq_seg_path [of "''tmp''" g h] by (simp_all add: eq_commute)

lemma fsr_contents_tmp [simp]: "fsr_contents (fs_write (hash_to_hex g @ ''.tmp'') data d) = fsr_contents d"
  by (simp add: fsr_contents_def fun_eq_iff)

lemma fsr_upload_contents:
  "fsr_contents (fst (fsr_upload h data d)) =
     (if fsr_contents d h = None then (fsr_contents d)(h \<mapsto> data) else fsr_contents d)"
proof (cases "fs_exists d (seg_path h)")
  case False
  have "fsr_contents (fst (fsr_upload h data d)) g = (if g = h then Some data else fsr_contents d g)" for g
    using False by (simp add: fsr_upload_def Let_def fsr_contents_def fs_rename_def)
  with False show ?thesis by (auto simp: fsr_contents_def fs_exists_def)
qed (auto simp: fsr_upload_def Let_def fsr_contents_def fs_exists_def)

text \<open>
  An upload through a temporary file is atomic. A crash at any moment of \<open>upload\<close> leaves the
  segments of the store as they were, or with the new segment complete; after the upload is
  tried again the segment can be downloaded with exactly its bytes, and no other segment has
  changed.
\<close>

theorem upload_is_atomic:
  assumes "upload_crash h data d d'"
  shows "fsr_contents d' \<in> {fsr_contents d, (fsr_contents d)(h \<mapsto> data)} \<and>
     (fsr_contents d h = None \<longrightarrow>
        snd (fsr_download h (fst (fsr_upload h data d'))) = Inr data \<and>
        fsr_contents (fst (fsr_upload h data d')) = (fsr_contents d)(h \<mapsto> data))"
proof -
  have "fsr_contents d' = fsr_contents d \<or> (fsr_contents d h = None \<and> fsr_contents d' = (fsr_contents d)(h \<mapsto> data))"
    using assms fsr_upload_contents [of h data d] unfolding upload_crash_def
    by (auto split: if_splits)
  moreover have "snd (fsr_download h e) = Inr data" if "fsr_contents e h = Some data" for e
    using that by (simp add: fsr_download_def fsr_contents_def)
  ultimately show ?thesis by (auto simp: fsr_upload_contents)
qed

theorem upload_is_atomic_witness:
  "fsr_contents (fs_write (hash_to_hex [1] @ ''.tmp'') [7] []) \<in> {fsr_contents [], (fsr_contents [])([1] \<mapsto> [7, 8])} \<and>
   snd (fsr_download [1] (fst (fsr_upload [1] [7, 8] (fs_write (hash_to_hex [1] @ ''.tmp'') [7] [])))) = Inr [7, 8]"
proof -
  have "upload_crash [1] [7, 8] [] (fs_write (hash_to_hex [1] @ ''.tmp'') [7] [])"
    unfolding upload_crash_def by (auto simp: fs_exists_def fs_read_def intro!: exI [of _ 1])
  moreover have "fsr_contents [] [1] = None" by (simp add: fsr_contents_def fs_read_def)
  ultimately show ?thesis using upload_is_atomic [of "[1]" "[7, 8]" "[]"] by blast
qed

text \<open>
  An interrupted \<open>upload_if_absent\<close> writes into the final file, so what a crash leaves is kept by
  every later call as if it were the segment.
\<close>

lemma torn_upload_stays:
  assumes "fsr_contents d h = None" "n < length data"
    and "d' = fs_append (seg_path h) (take n data) (fs_write (seg_path h) [] d)"
  shows "upload_if_absent_crash h data d d'" "fsr_upload_if_absent h data d' = (d', Inr False)"
    "fsr_contents d' h = Some (take n data)"
  using assms by (auto simp: upload_if_absent_crash_def fsr_upload_if_absent_def fs_exists_def fsr_contents_def
      fs_append_def Let_def intro!: exI [of _ n])

text \<open>Every hash that was uploaded is listed.\<close>

lemma hash_of_seg_path: "length h = 32 \<Longrightarrow> hash_of_name (seg_path h) = Some h"
  by (simp add: hash_of_name_def ends_with_def seg_path_def hash_to_hex_encode)

lemma fsr_list_contents:
  assumes "length h = 32" "fsr_contents d h \<noteq> None"
  shows "\<exists>hs. fsr_list d = (d, Inr hs) \<and> h \<in> set hs"
proof -
  have "seg_path h \<in> set (fs_names d)"
    using assms(2) by (auto simp: fsr_contents_def fs_read_def fs_names_def dom_map_of_conv_image_fst [symmetric])
  then show ?thesis using hash_of_seg_path [OF assms(1)] by (force simp: fsr_list_def List.map_filter_def)
qed

end
