(* ===== verification/InMemory.thy ===== *)
theory InMemory
  imports ReaderMerge
begin

text \<open>
  Segments held in memory: \<open>edgestore/src/segment/in_memory.rs\<close> parses the bytes of a \<open>.dat\<close> file,
  rebuilds the sparse index with one key per block and the xor filter, and serves lookups and
  scans.
\<close>

section \<open>The reader\<close>

record InMemorySegmentReader =
  im_segment_id :: SegmentId
  im_segment_hash :: bytes
  im_data :: bytes
  im_index :: sparse_index
  im_filter :: xor8
  im_meta :: SegmentMeta

text \<open>
  The head of the loop body that construction, lookup and scan have in common: the block at
  an offset, decompressed, and the distance to the next one; or that the loop is left. \<open>what\<close>
  is the text of the error.
\<close>

definition block_at :: "ext \<Rightarrow> string \<Rightarrow> bytes \<Rightarrow> usize \<Rightarrow> (bytes \<times> usize) option res" where
  "block_at X what bytes offset =
     (if offset + 8 > length bytes then Inr None
      else if u32_of_le (take 4 (drop offset bytes)) \<noteq> SEGMENT_BLOCK_MAGIC then Inr None
      else
        let compressed_len = unat (u32_of_le (take 4 (drop (offset + 4) bytes)))
        in if offset + 8 + compressed_len > length bytes then Inr None
           else case zstd_decode X (take compressed_len (drop (offset + 8) bytes)) of
                  None \<Rightarrow> Inl (SegmentCorrupt what)
                | Some decompressed \<Rightarrow> Inr (Some (decompressed, aligned_size (8 + compressed_len))))"

lemma block_at_progress:
  "block_at X what bytes offset = Inr (Some (b, sz)) \<Longrightarrow> offset < length bytes \<and> 0 < sz"
  by (auto simp: block_at_def Let_def aligned_size_def SEGMENT_BLOCK_SIZE_def
      split: if_splits option.splits)

function index_loop :: "ext \<Rightarrow> bytes \<Rightarrow> usize \<Rightarrow> (bytes list \<times> sparse_index) res" where
  "index_loop X bytes offset =
     (case block_at X ''in-memory zstd decode'' bytes offset of
        Inl e \<Rightarrow> Inl e
      | Inr None \<Rightarrow> Inr ([], [])
      | Inr (Some (decompressed, sz)) \<Rightarrow>
          let keys = map fst (decode_block decompressed)
          in and_then (index_loop X bytes (offset + sz)) (\<lambda>(all_keys, index).
               Inr (keys @ all_keys,
                    (case keys of [] \<Rightarrow> index | key # _ \<Rightarrow> (key, word_of_nat offset) # index))))"
  by pat_completeness auto
termination
  by (relation "measure (\<lambda>(X, bytes, off). length bytes - off)") (auto dest!: block_at_progress)

declare index_loop.simps [simp del]

definition InMemory_from_bytes ::
  "ext \<Rightarrow> SegmentId \<Rightarrow> bytes \<Rightarrow> SegmentMeta \<Rightarrow> bytes \<Rightarrow> InMemorySegmentReader res" where
  "InMemory_from_bytes X i segment_hash meta bytes =
     (if length bytes < 8 then Inl (SegmentCorrupt ''in-memory segment too short'')
      else and_then (index_loop X bytes 8) (\<lambda>(all_keys, index).
             Inr \<lparr> im_segment_id = i, im_segment_hash = segment_hash, im_data = bytes, im_index = index,
                   im_filter = build_xor_filter X all_keys, im_meta = meta \<rparr>))"

text \<open>The entries of one block for a lookup: the best version so far and whether the key occurred.\<close>

fun best_in_block :: "bytes \<Rightarrow> kv list \<Rightarrow> MemEntry option \<Rightarrow> bool \<Rightarrow> MemEntry option \<times> bool" where
  "best_in_block key [] best has = (best, has)"
| "best_in_block key ((k, entry) # entries) best has =
     (if k = key
      then best_in_block key entries
             (case best of None \<Rightarrow> Some entry
              | Some b \<Rightarrow> if e_lsn entry > e_lsn b then Some entry else Some b) True
      else if k > key then (best, has)
      else best_in_block key entries best has)"

function mem_get_loop ::
  "ext \<Rightarrow> sparse_index \<Rightarrow> bytes \<Rightarrow> bytes \<Rightarrow> usize \<Rightarrow> MemEntry option \<Rightarrow> MemEntry option res" where
  "mem_get_loop X index bytes key current_offset best =
     (case block_at X ''in-memory get zstd'' bytes current_offset of
        Inl e \<Rightarrow> Inl e
      | Inr None \<Rightarrow> Inr best
      | Inr (Some (decompressed, sz)) \<Rightarrow>
          (case best_in_block key (decode_block decompressed) best False of
             (best', block_has_key) \<Rightarrow>
               (case List.find (\<lambda>(_, off). unat off = current_offset) index of
                  Some (first, _) \<Rightarrow>
                    if first > key \<and> \<not> block_has_key then Inr best'
                    else mem_get_loop X index bytes key (current_offset + sz) best'
                | None \<Rightarrow> mem_get_loop X index bytes key (current_offset + sz) best')))"
  by pat_completeness auto
termination
  by (relation "measure (\<lambda>(X, index, bytes, key, off, best). length bytes - off)")
     (auto dest!: block_at_progress)

declare mem_get_loop.simps [simp del]

definition InMemory_get :: "ext \<Rightarrow> InMemorySegmentReader \<Rightarrow> bytes \<Rightarrow> MemEntry option res" where
  "InMemory_get X r key =
     (if \<not> filter_contains X (im_filter r) key then Inr None
      else mem_get_loop X (im_index r) (im_data r) key (find_block_offset (im_index r) key) None)"

function mem_scan_loop :: "ext \<Rightarrow> bytes \<Rightarrow> bytes \<Rightarrow> bytes \<Rightarrow> usize \<Rightarrow> kv list res" where
  "mem_scan_loop X bytes start end current_offset =
     (case block_at X ''in-memory range zstd'' bytes current_offset of
        Inl e \<Rightarrow> Inl e
      | Inr None \<Rightarrow> Inr []
      | Inr (Some (decompressed, sz)) \<Rightarrow>
          (case scan_block start end (decode_block decompressed) of
             (results, past_end) \<Rightarrow>
               if past_end then Inr results
               else and_then (mem_scan_loop X bytes start end (current_offset + sz))
                      (\<lambda>rest. Inr (results @ rest))))"
  by pat_completeness auto
termination
  by (relation "measure (\<lambda>(X, bytes, start, end, off). length bytes - off)")
     (auto dest!: block_at_progress)

declare mem_scan_loop.simps [simp del]

definition InMemory_range_scan :: "ext \<Rightarrow> InMemorySegmentReader \<Rightarrow> bytes \<Rightarrow> bytes \<Rightarrow> kv list res" where
  "InMemory_range_scan X r start end =
     (if end < m_min_key (im_meta r) \<or> start > m_max_key (im_meta r) then Inr []
      else mem_scan_loop X (im_data r) start end (find_block_offset (im_index r) start))"

section \<open>Blocks that were written\<close>

lemma block_at_written:
  assumes "zstd_ok X" "\<forall>b \<in> set (bs1 @ b # bs2). block_ok b"
  shows "block_at X what (dat_of X (bs1 @ b # bs2)) (length (dat_of X bs1)) =
           Inr (Some (ser_block b, length (block_bytes X b)))"
proof -
  let ?dat = "dat_of X (bs1 @ b # bs2)" and ?n = "length (dat_of X bs1)"
  obtain c where c: "zstd_decode X c = Some (ser_block b)" "length c < 2 ^ 32"
    "block_bytes X b = u32_le SEGMENT_BLOCK_MAGIC @ u32_le (word_of_nat (length c)) @ c @
       replicate (aligned_size (8 + length c) - (8 + length c)) 0"
    "length (block_bytes X b) = aligned_size (8 + length c)"
    using assms by (auto intro: block_bytes_layout [of X b])
  have len: "unat (word_of_nat (length c) :: u32) = length c" using c(2) by (simp add: unat_u32_of_nat)
  have drop: "drop (?n + j) ?dat = drop j (block_bytes X b @ concat (map (block_bytes X) bs2))" for j
    by (simp add: dat_of_append)
  have split: "drop ?n ?dat = block_bytes X b @ concat (map (block_bytes X) bs2)"
    using drop [of 0] by simp
  have "8 + length c \<le> aligned_size (8 + length c)" by (rule aligned_size_ge)
  then have "?n + 8 + length c \<le> length ?dat" by (simp add: dat_of_append c(4))
  then show ?thesis unfolding block_at_def c(4) using c(1)
    by (simp add: drop split c(3) len Let_def del: unsigned_of_nat)
qed

lemma block_at_end: "block_at X what bytes (length bytes) = Inr None"
  by (simp add: block_at_def)

text \<open>The index that construction builds for the blocks \<open>bs\<close>, the first of which is at \<open>off\<close>.\<close>

fun block_index :: "ext \<Rightarrow> nat \<Rightarrow> kv list list \<Rightarrow> sparse_index" where
  "block_index X off [] = []"
| "block_index X off (b # bs) = (fst (hd b), word_of_nat off) # block_index X (off + length (block_bytes X b)) bs"

lemma index_loop_blocks:
  assumes "zstd_ok X"
  shows "\<forall>b \<in> set (bs1 @ bs2). block_ok b \<Longrightarrow>
    index_loop X (dat_of X (bs1 @ bs2)) (length (dat_of X bs1)) =
      Inr (map fst (concat bs2), block_index X (length (dat_of X bs1)) bs2)"
proof (induction bs2 arbitrary: bs1)
  case Nil
  then show ?case by (simp add: index_loop.simps block_at_end)
next
  case (Cons b bs2)
  note r = read_block_dat [OF assms Cons.prems]
  have b: "b \<noteq> []" "decode_block (ser_block b) = b"
    using Cons.prems by (simp_all add: block_ok_def decode_ser_block)
  from Cons.IH [of "bs1 @ [b]"] Cons.prems
  have ih: "index_loop X (dat_of X (bs1 @ b # bs2)) (length (dat_of X bs1) + length (block_bytes X b)) =
    Inr (map fst (concat bs2), block_index X (length (dat_of X bs1) + length (block_bytes X b)) bs2)"
    by (simp add: r(2) del: dat_of_simps)
  show ?case
    by (subst index_loop.simps)
       (use b ih in \<open>simp add: block_at_written [OF assms Cons.prems] neq_Nil_conv split: list.split; force\<close>)
qed

lemma block_index_ok:
  assumes "ksorted (concat (bs1 @ bs2))" "\<forall>b \<in> set (bs1 @ bs2). block_ok b"
  shows "index_ok X (bs1 @ bs2) (block_index X (length (dat_of X bs1)) bs2)"
  using assms
proof (induction bs2 arbitrary: bs1)
  case (Cons b bs2)
  have "b \<noteq> []" using Cons.prems(2) by (simp add: block_ok_def)
  then have "hd b \<in> set b" by simp
  then have lt: "\<forall>x \<in> set (concat bs1). fst x < fst (hd b)"
    using Cons.prems(1) by (auto simp: sorted_wrt_append)
  have "index_ok X (bs1 @ b # bs2) (block_index X (length (dat_of X bs1) + length (block_bytes X b)) bs2)"
    using Cons.IH [of "bs1 @ [b]"] Cons.prems by simp
  with lt show ?case unfolding index_ok_def by auto
qed (simp add: index_ok_def)

text \<open>The block that starts at an offset has its first key in the index.\<close>

lemma block_index_find:
  assumes "\<forall>b \<in> set (bs1 @ b # bs2). 0 < length (block_bytes X b)"
    and "off + length (concat (map (block_bytes X) (bs1 @ b # bs2))) < 2 ^ 64"
  shows "List.find (\<lambda>(_, o'). unat o' = off + length (concat (map (block_bytes X) bs1)))
           (block_index X off (bs1 @ b # bs2)) =
         Some (fst (hd b), word_of_nat (off + length (concat (map (block_bytes X) bs1))))"
  using assms
proof (induction bs1 arbitrary: off)
  case Nil
  then have "unat (word_of_nat off :: u64) = off" by (intro unat_u64_of_nat) simp
  then show ?case by (simp del: unsigned_of_nat)
next
  case (Cons a bs1)
  have "unat (word_of_nat off :: u64) = off" using Cons.prems(2) by (intro unat_u64_of_nat) simp
  moreover have "0 < length (block_bytes X a)" using Cons.prems(1) by simp
  ultimately show ?case
    using Cons.IH [of "off + length (block_bytes X a)"] Cons.prems
    by (simp add: add.assoc del: unsigned_of_nat)
qed

lemma best_in_block_spec:
  assumes "ksorted b"
  shows "best_in_block key b None has = (map_of b key, has \<or> map_of b key \<noteq> None)"
    and "\<forall>x \<in> set b. key < fst x \<Longrightarrow> best_in_block key b (Some e) has = (Some e, has)"
proof -
  show later: "best_in_block key b (Some e) has = (Some e, has)" if "\<forall>x \<in> set b. key < fst x" for e b has
    using that by (cases b) auto
  show "best_in_block key b None has = (map_of b key, has \<or> map_of b key \<noteq> None)"
    using assms
  proof (induction b)
    case (Cons x b)
    obtain k e where x: "x = (k, e)" by (cases x)
    with Cons.prems have gt: "\<forall>y \<in> set b. k < fst y" by auto
    then have "map_of b key = None" if "key \<le> k" using that by (intro map_of_None_if) force
    with Cons x gt show ?case by (auto simp: later not_less)
  qed simp
qed

lemma mem_get_loop_blocks:
  assumes "zstd_ok X" "length (dat_of X (bs1 @ bs2)) < 2 ^ 64"
    and "\<forall>b \<in> set (bs1 @ bs2). block_ok b" "ksorted (concat bs2)"
    and "best \<noteq> None \<longrightarrow> (\<forall>x \<in> set (concat bs2). k < fst x)"
  shows "mem_get_loop X (block_index X 8 (bs1 @ bs2)) (dat_of X (bs1 @ bs2)) k (length (dat_of X bs1)) best =
     Inr (case best of Some e \<Rightarrow> Some e | None \<Rightarrow> map_of (concat bs2) k)"
  using assms(2-)
proof (induction bs2 arbitrary: bs1 best)
  case Nil
  then show ?case by (subst mem_get_loop.simps) (simp add: block_at_end split: option.split)
next
  case (Cons b bs2)
  let ?index = "block_index X 8 (bs1 @ b # bs2)" and ?dat = "dat_of X (bs1 @ b # bs2)"
  note r = read_block_dat [OF assms(1) Cons.prems(2)]
  have b: "b \<noteq> []" "decode_block (ser_block b) = b"
    using Cons.prems(2) by (simp_all add: block_ok_def decode_ser_block)
  have sorted: "ksorted b" "ksorted (concat bs2)" "\<forall>x \<in> set b. \<forall>y \<in> set (concat bs2). fst x < fst y"
    using Cons.prems(3) by (auto simp: sorted_wrt_append)
  have find: "List.find (\<lambda>(_, off). unat off = length (dat_of X bs1)) ?index =
      Some (fst (hd b), word_of_nat (length (dat_of X bs1)))"
    using block_index_find [of bs1 b bs2 X 8] Cons.prems(1,2) block_bytes_ne [OF assms(1)]
    by (simp add: dat_of_def)
  let ?best = "fst (best_in_block k b best False)" and ?has = "snd (best_in_block k b best False)"
  have bb: "?best = (case best of Some e \<Rightarrow> Some e | None \<Rightarrow> map_of b k) \<and>
      ?has = (best = None \<and> map_of b k \<noteq> None)"
    using best_in_block_spec [OF sorted(1)] Cons.prems(4) by (cases best) auto
  have hd_in: "hd b \<in> set b" using b(1) by simp
  have res: "(case ?best of Some e \<Rightarrow> Some e | None \<Rightarrow> map_of (concat bs2) k) =
      (case best of Some e \<Rightarrow> Some e | None \<Rightarrow> map_of (concat (b # bs2)) k)"
    using bb by (auto simp: map_add_def map_add_None split: option.splits)
  have unfold: "mem_get_loop X ?index ?dat k (length (dat_of X bs1)) best =
     (if fst (hd b) > k \<and> \<not> ?has then Inr ?best
      else mem_get_loop X ?index ?dat k (length (dat_of X bs1) + length (block_bytes X b)) ?best)"
    by (subst mem_get_loop.simps)
       (simp add: block_at_written [OF assms(1) Cons.prems(2)] b(2) find case_prod_beta)
  show ?case
  proof (cases "fst (hd b) > k \<and> \<not> ?has")
    case True
    have "\<forall>y \<in> set (concat bs2). k < fst y" using True sorted(3) hd_in by fastforce
    then have "map_of (concat bs2) k = None" by (intro map_of_None_if) force
    then show ?thesis unfolding unfold res [symmetric] using True by (simp split: option.split)
  next
    case False
    have "?best \<noteq> None \<longrightarrow> (\<forall>x \<in> set (concat bs2). k < fst x)"
    proof
      assume "?best \<noteq> None"
      with bb consider "best \<noteq> None" | e where "map_of b k = Some e" by (cases best) auto
      then show "\<forall>x \<in> set (concat bs2). k < fst x"
      proof cases
        case 1
        then show ?thesis using Cons.prems(4) by simp
      next
        case (2 e)
        then have "(k, e) \<in> set b" by (rule map_of_SomeD)
        then show ?thesis using sorted(3) by fastforce
      qed
    qed
    then have "mem_get_loop X (block_index X 8 ((bs1 @ [b]) @ bs2)) (dat_of X ((bs1 @ [b]) @ bs2)) k
        (length (dat_of X (bs1 @ [b]))) ?best =
      Inr (case ?best of Some e \<Rightarrow> Some e | None \<Rightarrow> map_of (concat bs2) k)"
      using Cons.prems sorted(2) by (intro Cons.IH) simp_all
    then show ?thesis unfolding unfold if_not_P [OF False] res [symmetric] by (simp add: r(2) del: dat_of_simps)
  qed
qed

lemma mem_scan_loop_blocks:
  assumes "zstd_ok X"
  shows "\<forall>b \<in> set (bs1 @ bs2). block_ok b \<Longrightarrow> ksorted (concat bs2) \<Longrightarrow>
    mem_scan_loop X (dat_of X (bs1 @ bs2)) lo hi (length (dat_of X bs1)) =
      Inr (filter (in_range lo hi) (concat bs2))"
proof (induction bs2 arbitrary: bs1)
  case Nil
  then show ?case by (simp add: mem_scan_loop.simps block_at_end)
next
  case (Cons b bs2)
  note r = read_block_dat [OF assms Cons.prems(1)]
  have b: "decode_block (ser_block b) = b" using Cons.prems(1) by (simp add: block_ok_def decode_ser_block)
  have "ksorted (concat bs2)" using Cons.prems(2) by (simp add: sorted_wrt_append)
  with Cons.IH [of "bs1 @ [b]"] Cons.prems(1)
  have ih: "mem_scan_loop X (dat_of X (bs1 @ b # bs2)) lo hi (length (dat_of X bs1) + length (block_bytes X b)) =
    Inr (filter (in_range lo hi) (concat bs2))" by (simp add: r(2) del: dat_of_simps)
  obtain rs past where s: "scan_block lo hi b = (rs, past)" by fastforce
  have "filter (in_range lo hi) (concat (b # bs2)) =
      rs @ (if past then [] else filter (in_range lo hi) (concat bs2))"
    using scan_block_spec [of b "concat bs2" lo hi] Cons.prems(2) s by simp
  then show ?case
    by (subst mem_scan_loop.simps) (use b ih s in \<open>auto simp: block_at_written [OF assms Cons.prems(1)]\<close>)
qed

section \<open>The reader over written bytes\<close>

text \<open>The bytes \<open>dat\<close> are what the writer lays out for the entries \<open>es\<close>.\<close>

definition dat_holds :: "ext \<Rightarrow> bytes \<Rightarrow> kv list \<Rightarrow> bool" where
  "dat_holds X dat es \<longleftrightarrow> (\<exists>bs. dat = dat_of X bs \<and> length dat < 2 ^ 64 \<and> concat bs = es \<and>
     (\<forall>b \<in> set bs. block_ok b)) \<and> ksorted es \<and> es \<noteq> []"

definition mem_inv :: "ext \<Rightarrow> InMemorySegmentReader \<Rightarrow> kv list \<Rightarrow> bool" where
  "mem_inv X r es \<longleftrightarrow> (\<exists>bs. im_data r = dat_of X bs \<and> length (dat_of X bs) < 2 ^ 64 \<and> concat bs = es \<and>
     (\<forall>b \<in> set bs. block_ok b) \<and> im_index r = block_index X 8 bs) \<and> ksorted es \<and> es \<noteq> [] \<and>
     (\<forall>k \<in> fst ` set es. filter_contains X (im_filter r) k) \<and>
     (\<forall>k \<in> fst ` set es. m_min_key (im_meta r) \<le> k \<and> k \<le> m_max_key (im_meta r))"

lemma from_bytes_holds:
  assumes "zstd_ok X" "xor8_ok X" "dat_holds X dat es"
    and "\<forall>k \<in> fst ` set es. m_min_key meta \<le> k \<and> k \<le> m_max_key meta"
  shows "\<exists>r. InMemory_from_bytes X i h meta dat = Inr r \<and> mem_inv X r es"
proof -
  obtain bs where bs: "dat = dat_of X bs" "length dat < 2 ^ 64" "concat bs = es" "\<forall>b \<in> set bs. block_ok b"
    and es: "ksorted es" "es \<noteq> []" using assms(3) unfolding dat_holds_def by blast
  have "index_loop X dat 8 = Inr (map fst es, block_index X 8 bs)"
    using index_loop_blocks [OF assms(1), of "[]" bs] bs by simp
  moreover have "\<not> length dat < 8" using bs(1) by (simp add: dat_of_def)
  moreover have "\<forall>k \<in> fst ` set es. filter_contains X (build_xor_filter X (map fst es)) k"
    using filter_has_keys [OF assms(2)] by simp
  ultimately show ?thesis using bs es assms(4) by (auto simp: InMemory_from_bytes_def mem_inv_def)
qed

lemma mem_inv_start:
  assumes "mem_inv X r es"
  obtains bs1 bs2 where "im_data r = dat_of X (bs1 @ bs2)" "length (dat_of X (bs1 @ bs2)) < 2 ^ 64"
    "\<forall>b \<in> set (bs1 @ bs2). block_ok b" "es = concat bs1 @ concat bs2"
    "im_index r = block_index X 8 (bs1 @ bs2)"
    "find_block_offset (im_index r) k = length (dat_of X bs1)" "\<forall>x \<in> set (concat bs1). fst x < k"
proof -
  from assms obtain bs where bs: "im_data r = dat_of X bs" "length (dat_of X bs) < 2 ^ 64" "concat bs = es"
    "\<forall>b \<in> set bs. block_ok b" "im_index r = block_index X 8 bs" and es: "ksorted es" "es \<noteq> []"
    unfolding mem_inv_def by blast
  have "index_ok X bs (im_index r)" using block_index_ok [of "[]" bs X] bs es by simp
  moreover have "fst (hd (im_index r)) \<le> fst (hd (concat bs))"
    using bs es(2) by (cases bs) (auto simp: block_ok_def)
  ultimately obtain bs1 bs2 where "bs = bs1 @ bs2" "find_block_offset (im_index r) k = length (dat_of X bs1)"
    "\<forall>x \<in> set (concat bs1). fst x < k"
    using find_block_offset_spec [of X bs "im_index r" k] bs es by metis
  with bs that show ?thesis by auto
qed

lemma mem_get:
  assumes "zstd_ok X" "mem_inv X r es"
  shows "InMemory_get X r k = Inr (map_of es k)"
proof (cases "filter_contains X (im_filter r) k")
  case False
  then have "k \<notin> fst ` set es" using assms(2) by (auto simp: mem_inv_def)
  then have "map_of es k = None" by (simp add: map_of_eq_None_iff)
  with False show ?thesis by (simp add: InMemory_get_def)
next
  case True
  obtain bs1 bs2 where b: "im_data r = dat_of X (bs1 @ bs2)" "length (dat_of X (bs1 @ bs2)) < 2 ^ 64"
    "\<forall>b \<in> set (bs1 @ bs2). block_ok b" "es = concat bs1 @ concat bs2"
    "im_index r = block_index X 8 (bs1 @ bs2)"
    "find_block_offset (im_index r) k = length (dat_of X bs1)" "\<forall>x \<in> set (concat bs1). fst x < k"
    using assms(2) by (rule mem_inv_start)
  have "ksorted (concat bs2)" using assms(2) b(4) by (simp add: mem_inv_def sorted_wrt_append)
  with mem_get_loop_blocks [OF assms(1) b(2,3), of None k]
  have "mem_get_loop X (block_index X 8 (bs1 @ bs2)) (dat_of X (bs1 @ bs2)) k (length (dat_of X bs1)) None =
      Inr (map_of (concat bs2) k)" by simp
  moreover have "map_of (concat bs1) k = None" using b(7) by (intro map_of_None_if) auto
  then have "map_of es k = map_of (concat bs2) k" by (simp add: b(4) map_add_def)
  ultimately show ?thesis using True by (simp add: InMemory_get_def b(1,6) b(5) [symmetric])
qed

lemma mem_scan:
  assumes "zstd_ok X" "mem_inv X r es"
  shows "InMemory_range_scan X r lo hi = Inr (filter (in_range lo hi) es)"
proof (cases "hi < m_min_key (im_meta r) \<or> lo > m_max_key (im_meta r)")
  case True
  have "\<not> (lo \<le> k \<and> k < hi)" if "k \<in> fst ` set es" for k
    using assms(2) that True unfolding mem_inv_def by (meson leD less_le_trans order_trans less_imp_le)
  then have "filter (in_range lo hi) es = []" by (intro filter_False) force
  with True show ?thesis by (simp add: InMemory_range_scan_def)
next
  case False
  obtain bs1 bs2 where b: "im_data r = dat_of X (bs1 @ bs2)" "length (dat_of X (bs1 @ bs2)) < 2 ^ 64"
    "\<forall>b \<in> set (bs1 @ bs2). block_ok b" "es = concat bs1 @ concat bs2"
    "im_index r = block_index X 8 (bs1 @ bs2)"
    "find_block_offset (im_index r) lo = length (dat_of X bs1)" "\<forall>x \<in> set (concat bs1). fst x < lo"
    using assms(2) by (rule mem_inv_start)
  have "ksorted (concat bs2)" using assms(2) b(4) by (simp add: mem_inv_def sorted_wrt_append)
  moreover have "filter (in_range lo hi) (concat bs1) = []"
    using b(7) by (intro filter_False) (force simp: not_le)
  ultimately show ?thesis using False mem_scan_loop_blocks [OF assms(1) b(3), of lo hi]
    by (simp add: InMemory_range_scan_def b(1,4,6))
qed

text \<open>The readers of bytes in memory.\<close>

interpretation mem: segment_readers "InMemory_get X" "InMemory_range_scan X" "\<lambda>r es. zstd_ok X \<and> mem_inv X r es" for X
  by unfold_locales (auto simp: mem_inv_def mem_get mem_scan)

end
