(* ===== verification/Immutable.thy ===== *)
theory Immutable
  imports Snapshot InMemory Hex
begin

text \<open>
  \<open>ImmutableEngine\<close> of \<open>edgestore/src/immutable.rs\<close>: a read-only engine over segments held in
  memory, for environments without a file system. Its value is the list of its readers. The
  text form of the exported manifest is that of \<open>serde_json\<close>; here is what is exported.
\<close>

section \<open>The engine\<close>

fun ImmutableEngine_from_segment_bytes ::
  "ext \<Rightarrow> (SegmentMeta \<times> bytes) list \<Rightarrow> InMemorySegmentReader list res" where
  "ImmutableEngine_from_segment_bytes X [] = Inr []"
| "ImmutableEngine_from_segment_bytes X ((meta, bytes) # segments) =
     (if length (m_segment_hash meta) \<noteq> 32 then Inl (ReplicationError ''segment hash is not 32 bytes'')
      else and_then (InMemory_from_bytes X (m_segment_id meta) (m_segment_hash meta) meta bytes) (\<lambda>reader.
           and_then (ImmutableEngine_from_segment_bytes X segments) (\<lambda>readers.
             Inr (reader # readers))))"

definition ImmutableEngine_get ::
  "ext \<Rightarrow> InMemorySegmentReader list \<Rightarrow> bytes \<Rightarrow> bytes \<Rightarrow> bytes option res" where
  "ImmutableEngine_get X readers ns key =
     and_then (encode_key ns key) (\<lambda>encoded.
     and_then (best_entry (InMemory_get X) encoded readers None) (\<lambda>best. Inr (put_value best)))"

definition range_encoded ::
  "ext \<Rightarrow> InMemorySegmentReader list \<Rightarrow> bytes \<Rightarrow> bytes \<Rightarrow> (bytes \<times> bytes) list res" where
  "range_encoded X readers enc_start enc_end = merge_readers (InMemory_range_scan X) enc_start enc_end readers"

definition ImmutableEngine_range ::
  "ext \<Rightarrow> InMemorySegmentReader list \<Rightarrow> bytes \<Rightarrow> bytes \<Rightarrow> bytes \<Rightarrow> (bytes \<times> bytes) list res" where
  "ImmutableEngine_range X readers ns start end =
     and_then (encode_key ns start) (\<lambda>enc_start.
     and_then (encode_key ns end) (\<lambda>enc_end. range_encoded X readers enc_start enc_end))"

definition prefix_end :: "bytes \<Rightarrow> bytes" where
  "prefix_end enc_prefix =
     (case prefix_upper_bound enc_prefix of
        Some u \<Rightarrow> u | None \<Rightarrow> replicate (length enc_prefix + 1) 255)"

definition ImmutableEngine_prefix ::
  "ext \<Rightarrow> InMemorySegmentReader list \<Rightarrow> bytes \<Rightarrow> bytes \<Rightarrow> (bytes \<times> bytes) list res" where
  "ImmutableEngine_prefix X readers ns prefix =
     and_then (encode_key ns prefix) (\<lambda>enc_prefix. range_encoded X readers enc_prefix (prefix_end enc_prefix))"

section \<open>The exported manifest\<close>

record ManifestSegment =
  ms_hash :: string
  ms_segment_id :: u64
  ms_min_key :: string
  ms_max_key :: string
  ms_min_lsn :: u64
  ms_max_lsn :: u64
  ms_record_count :: u64

record ExportedManifest =
  xm_format_version :: u32
  xm_segments :: "ManifestSegment list"

definition manifest_document :: "InMemorySegmentReader list \<Rightarrow> ExportedManifest" where
  "manifest_document readers = \<lparr> xm_format_version = 1, xm_segments = map (\<lambda>r.
     let meta = im_meta r
     in \<lparr> ms_hash = hex_encode (m_segment_hash meta), ms_segment_id = m_segment_id meta,
          ms_min_key = hex_encode (m_min_key meta), ms_max_key = hex_encode (m_max_key meta),
          ms_min_lsn = m_min_lsn meta, ms_max_lsn = m_max_lsn meta,
          ms_record_count = m_record_count meta \<rparr>) readers \<rparr>"

definition export_manifest_json ::
  "(ExportedManifest \<Rightarrow> string option) \<Rightarrow> InMemorySegmentReader list \<Rightarrow> string res" where
  "export_manifest_json to_json readers =
     (case to_json (manifest_document readers) of
        Some s \<Rightarrow> Inr s | None \<Rightarrow> Inl (ReplicationError ''manifest JSON''))"

section \<open>Agreement with a snapshot of the same files\<close>

lemma from_segment_bytes_holds:
  assumes "zstd_ok X" "xor8_ok X"
    and "list_all2 (\<lambda>(meta, dat) es. dat_holds X dat es \<and> length (m_segment_hash meta) = 32 \<and>
           (\<forall>k \<in> fst ` set es. m_min_key meta \<le> k \<and> k \<le> m_max_key meta)) segments ess"
  shows "\<exists>readers. ImmutableEngine_from_segment_bytes X segments = Inr readers \<and>
     list_all2 (\<lambda>r es. zstd_ok X \<and> mem_inv X r es) readers ess"
  using assms(3)
proof (induction segments ess rule: list_all2_induct)
  case (Cons s segments es ess)
  obtain meta dat where s: "s = (meta, dat)" by (cases s)
  with Cons.hyps(1) from_bytes_holds [OF assms(1,2), of dat es meta "m_segment_id meta" "m_segment_hash meta"]
  obtain r where "InMemory_from_bytes X (m_segment_id meta) (m_segment_hash meta) meta dat = Inr r" "mem_inv X r es"
    by auto
  with Cons s assms(1) show ?case by auto
qed simp

lemma segment_inv_dat:
  assumes "segment_inv X d r es"
  obtains dat where "fs_read d (dat_path (sr_segment_id r)) = Some dat" "dat_holds X dat es"
    "\<forall>k \<in> fst ` set es. m_min_key (sr_meta r) \<le> k \<and> k \<le> m_max_key (sr_meta r)"
proof -
  from assms obtain bs where bs: "fs_read d (dat_path (sr_segment_id r)) = Some (dat_of X bs)"
    "length (dat_of X bs) < 2 ^ 64" "concat bs = es" "\<forall>b \<in> set bs. block_ok b" and es: "ksorted es" "es \<noteq> []"
    "m_min_key (sr_meta r) = fst (hd es)" "m_max_key (sr_meta r) = fst (last es)"
    unfolding segment_inv_def by blast
  have "dat_holds X (dat_of X bs) es" using bs es unfolding dat_holds_def by blast
  moreover have "\<forall>k \<in> fst ` set es. fst (hd es) \<le> k \<and> k \<le> fst (last es)"
    using ksorted_bounds [OF es(1)] by auto
  ultimately show ?thesis using that [OF bs(1)] es(3,4) by simp
qed

text \<open>What is shipped for a list of readers: their metadata and the bytes of their files.\<close>

definition shipped :: "dir \<Rightarrow> SegmentReader list \<Rightarrow> (SegmentMeta \<times> bytes) list" where
  "shipped d readers = map (\<lambda>r. (sr_meta r, the (fs_read d (dat_path (sr_segment_id r))))) readers"

lemma shipped_holds:
  assumes "store_inv X d readers ess" "\<forall>r \<in> set readers. length (m_segment_hash (sr_meta r)) = 32"
  shows "list_all2 (\<lambda>(meta, dat) es. dat_holds X dat es \<and> length (m_segment_hash meta) = 32 \<and>
     (\<forall>k \<in> fst ` set es. m_min_key meta \<le> k \<and> k \<le> m_max_key meta)) (shipped d readers) ess"
  using assms unfolding store_inv_def shipped_def
proof (induction readers ess rule: list_all2_induct)
  case (Cons r readers es ess)
  obtain dat where "fs_read d (dat_path (sr_segment_id r)) = Some dat" "dat_holds X dat es"
    "\<forall>k \<in> fst ` set es. m_min_key (sr_meta r) \<le> k \<and> k \<le> m_max_key (sr_meta r)"
    using Cons.hyps(1) by (rule segment_inv_dat)
  with Cons show ?case by simp
qed simp

text \<open>
  C15: An engine without files answers as the database it was taken from. When the data files and
  the metadata of a snapshot are handed to \<open>ImmutableEngine::from_segment_bytes\<close>, construction
  succeeds, and every lookup and every range scan of the new engine returns what the snapshot
  returns from the directory. The sparse index and the filter were rebuilt from the data files,
  with another spacing than the index on disk.
\<close>

theorem immutable_engine_agrees_with_snapshot:
  assumes "zstd_ok X" "xor8_ok X" "store_inv X d (sn_readers sn) ess" "lsn_det (\<Union> (set ` set ess))"
    and "\<forall>r \<in> set (sn_readers sn). length (m_segment_hash (sr_meta r)) = 32"
  shows "\<exists>readers. ImmutableEngine_from_segment_bytes X (shipped d (sn_readers sn)) = Inr readers \<and>
     (\<forall>ns key. ns_ok ns \<longrightarrow> ImmutableEngine_get X readers ns key = Snapshot_get X d sn ns key) \<and>
     (\<forall>ns lo hi. ns_ok ns \<longrightarrow> ImmutableEngine_range X readers ns lo hi = Snapshot_range X d sn ns lo hi)"
proof -
  obtain readers where r: "ImmutableEngine_from_segment_bytes X (shipped d (sn_readers sn)) = Inr readers"
    "list_all2 (\<lambda>r es. zstd_ok X \<and> mem_inv X r es) readers ess"
    using from_segment_bytes_holds [OF assms(1,2) shipped_holds [OF assms(3,5)]] by blast
  note s = store_inv_disk [OF assms(1,3)]
  have "ImmutableEngine_get X readers ns key = Snapshot_get X d sn ns key" if "ns_ok ns" for ns key
  proof -
    obtain b b' where b: "best_entry (InMemory_get X) (enc ns key) readers None = Inr b"
      "best_entry (SegmentReader_get X d) (enc ns key) (sn_readers sn) None = Inr b'"
      "\<And>v. put_value b = Some v \<longleftrightarrow> put_value b' = Some v"
      using mem.lookup_newest [OF r(2) assms(4), of "enc ns key"] disk.lookup_newest [OF s assms(4), of "enc ns key"]
      by auto
    then have "put_value b = put_value b'" by (metis not_Some_eq)
    with b show ?thesis by (simp add: ImmutableEngine_get_def Snapshot_get_def encode_key_ok [OF that])
  qed
  moreover have "ImmutableEngine_range X readers ns lo hi = Snapshot_range X d sn ns lo hi" if ns: "ns_ok ns" for ns lo hi
  proof -
    obtain L L' where L: "merge_readers (InMemory_range_scan X) (enc ns lo) (enc ns hi) readers = Inr L" "ksorted L"
      "merge_readers (SegmentReader_range_scan X d) (enc ns lo) (enc ns hi) (sn_readers sn) = Inr L'" "ksorted L'"
      "\<And>uk v. (uk, v) \<in> set L \<longleftrightarrow> (uk, v) \<in> set L'"
      using mem.merge_readers_newest [OF r(2) assms(4) ns, of lo hi]
        disk.merge_readers_newest [OF s assms(4) ns, of lo hi] by auto
    then have "L = L'" by (intro ksorted_set_unique) auto
    with L show ?thesis
      by (simp add: ImmutableEngine_range_def Snapshot_range_def range_encoded_def encode_key_ok [OF ns])
  qed
  ultimately show ?thesis using r(1) by blast
qed

theorem immutable_engine_agrees_with_snapshot_witness:
  "\<exists>d sn readers. ImmutableEngine_from_segment_bytes sample_ext (shipped d (sn_readers sn)) = Inr readers \<and>
     Snapshot_get sample_ext d sn [] [3] = Inr None \<and>
     ImmutableEngine_get sample_ext readers [] [3] = Inr None \<and>
     ImmutableEngine_range sample_ext readers [] [] [9] = Snapshot_range sample_ext d sn [] [] [9]"
proof -
  obtain meta d r where r: "SegmentReader_open sample_ext 1 d = Inr r"
    "segment_inv sample_ext d r sample_run" "sr_meta r = meta"
    "\<exists>dat. m_segment_hash meta = blake3 sample_ext dat"
    using flush_segment [OF sample_laws(2,5,4) sample_flushable, of 1 0 "[]"] by blast
  let ?sn = "\<lparr> sn_snapshot_id = 1, sn_readers = [r] \<rparr>"
  have s: "store_inv sample_ext d (sn_readers ?sn) [sample_run]" using r(2) by (simp add: store_inv_def)
  have det: "lsn_det (\<Union> (set ` set [sample_run]))"
    by (auto simp: lsn_det_def sample_run_def sample_entry_def sample_tombstone_def)
  have h: "\<forall>q \<in> set (sn_readers ?sn). length (m_segment_hash (sr_meta q)) = 32"
    using r(3,4) sample_laws(3) by (auto simp: blake3_ok_def)
  have ns: "ns_ok []" by (simp add: ns_ok_def U16_MAX_def)
  have "Snapshot_get sample_ext d ?sn [] [3] = Inr None"
    by (simp add: Snapshot_get_def encode_key_ok [OF ns] segment_get [OF sample_laws(2) r(2)] put_value_def
        enc_def sample_run_def sample_entry_def sample_tombstone_def)
  with immutable_engine_agrees_with_snapshot [OF sample_laws(2,4) s det h] ns show ?thesis by metis
qed

end
