(* ===== verification/Tier.thy ===== *)
theory Tier
  imports RemoteStore Immutable ReplicationFacts
begin

text \<open>
  The tiered engine of \<open>edgestore-tier/src/lib.rs\<close>: a local engine and a remote store of archived
  segments. The state holds the engine with its directory and the state of the remote store;
  \<open>R\<close> are the operations of the remote store, \<open>T\<close> the clock as for the engine.

  Whether an error is transient depends on words in its text, which the model does not keep;
  the predicate \<open>transient\<close> is an argument. Messages on standard error and the waits between
  retries are left out. The key set \<open>fetched\<close> of a \<open>HashMap\<close> to \<open>()\<close> is a list used as a set. The
  cache is the list of its entries with the most recently used one in front; the bound of the
  \<open>LruCache\<close> on the number of entries is kept.
\<close>

section \<open>State\<close>

type_synonym KvPairs = "(bytes \<times> bytes) list"

record ArchivedSegment =
  ar_hash :: bytes
  ar_min_key :: bytes
  ar_max_key :: bytes

definition DEFAULT_SEGMENT_CACHE_MAX_BYTES :: usize where
  "DEFAULT_SEGMENT_CACHE_MAX_BYTES = 32 * 1024 * 1024"

definition MAX_RETRIES :: nat where "MAX_RETRIES = 3"

definition CACHE_ITEMS :: usize where "CACHE_ITEMS = 65536"

record 'r TieredEngine =
  te_local :: est
  te_remote :: 'r
  te_archived :: "ArchivedSegment list"
  te_fetched :: "bytes list"
  te_upload_sidecars :: bool
  te_strip_text_after_archive :: bool
  te_strip_vector_after_archive :: bool
  te_segment_cache :: "(bytes \<times> bytes) list"
  te_segment_cache_bytes :: usize
  te_segment_cache_max_bytes :: usize

definition TieredEngine_new :: "est \<Rightarrow> 'r \<Rightarrow> 'r TieredEngine" where
  "TieredEngine_new local remote = \<lparr> te_local = local, te_remote = remote, te_archived = [], te_fetched = [],
     te_upload_sidecars = False, te_strip_text_after_archive = False, te_strip_vector_after_archive = False,
     te_segment_cache = [], te_segment_cache_bytes = 0,
     te_segment_cache_max_bytes = DEFAULT_SEGMENT_CACHE_MAX_BYTES \<rparr>"

definition with_segment_cache_bytes :: "usize \<Rightarrow> 'r TieredEngine \<Rightarrow> 'r TieredEngine" where
  "with_segment_cache_bytes n te = te\<lparr>te_segment_cache_max_bytes := n\<rparr>"

definition with_sidecars :: "bool \<Rightarrow> 'r TieredEngine \<Rightarrow> 'r TieredEngine" where
  "with_sidecars enabled te = te\<lparr>te_upload_sidecars := enabled\<rparr>"

definition with_text_stripping :: "bool \<Rightarrow> 'r TieredEngine \<Rightarrow> 'r TieredEngine" where
  "with_text_stripping enabled te = te\<lparr>te_strip_text_after_archive := enabled\<rparr>"

definition with_vector_stripping :: "bool \<Rightarrow> 'r TieredEngine \<Rightarrow> 'r TieredEngine" where
  "with_vector_stripping enabled te = te\<lparr>te_strip_vector_after_archive := enabled\<rparr>"

definition register_one :: "ArchivedSegment \<Rightarrow> ArchivedSegment list \<Rightarrow> ArchivedSegment list" where
  "register_one seg archived =
     (if list_ex (\<lambda>s. ar_hash s = ar_hash seg) archived then archived else archived @ [seg])"

definition register_archived :: "ArchivedSegment list \<Rightarrow> 'r TieredEngine \<Rightarrow> 'r TieredEngine" where
  "register_archived segments te = te\<lparr>te_archived := fold register_one segments (te_archived te)\<rparr>"

section \<open>Operations of the local engine\<close>

definition on_local :: "(est \<Rightarrow> est \<times> 'a res) \<Rightarrow> 'r TieredEngine \<Rightarrow> 'r TieredEngine \<times> 'a res" where
  "on_local f te = (case f (te_local te) of (st, r) \<Rightarrow> (te\<lparr>te_local := st\<rparr>, r))"

definition tiered_put :: "ext \<Rightarrow> Clock \<Rightarrow> bytes \<Rightarrow> bytes \<Rightarrow> bytes \<Rightarrow> 'r TieredEngine \<Rightarrow> 'r TieredEngine \<times> Lsn res" where
  "tiered_put X T ns key val = on_local (Engine_put X T ns key val)"

definition tiered_put_with_ttl ::
  "ext \<Rightarrow> Clock \<Rightarrow> bytes \<Rightarrow> bytes \<Rightarrow> bytes \<Rightarrow> u32 \<Rightarrow> 'r TieredEngine \<Rightarrow> 'r TieredEngine \<times> Lsn res" where
  "tiered_put_with_ttl X T ns key val ttl_secs = on_local (Engine_put_with_ttl X T ns key val ttl_secs)"

definition tiered_delete :: "ext \<Rightarrow> Clock \<Rightarrow> bytes \<Rightarrow> bytes \<Rightarrow> 'r TieredEngine \<Rightarrow> 'r TieredEngine \<times> Lsn res" where
  "tiered_delete X T ns key = on_local (Engine_delete X T ns key)"

definition tiered_compact_once ::
  "ext \<Rightarrow> Clock \<Rightarrow> (SegmentId \<Rightarrow> i64) \<Rightarrow> (i64 list \<Rightarrow> i64 list) \<Rightarrow> 'r TieredEngine \<Rightarrow>
   'r TieredEngine \<times> CompactionStats res" where
  "tiered_compact_once X T clock hash_order = on_local (compact_once X T clock hash_order)"

definition tiered_prune_local_segment :: "ext \<Rightarrow> SegmentId \<Rightarrow> 'r TieredEngine \<Rightarrow> 'r TieredEngine \<times> unit res" where
  "tiered_prune_local_segment X segment_id = on_local (prune_local_segment X segment_id)"

definition local_only_get :: "ext \<Rightarrow> 'r TieredEngine \<Rightarrow> bytes \<Rightarrow> bytes \<Rightarrow> bytes option res" where
  "local_only_get X te ns key = Engine_get X (te_local te) ns key"

definition local_only_range :: "ext \<Rightarrow> 'r TieredEngine \<Rightarrow> bytes \<Rightarrow> bytes \<Rightarrow> bytes \<Rightarrow> KvPairs res" where
  "local_only_range X te ns start end = Engine_range X (te_local te) ns start end"

definition local_only_prefix :: "ext \<Rightarrow> 'r TieredEngine \<Rightarrow> bytes \<Rightarrow> bytes \<Rightarrow> KvPairs res" where
  "local_only_prefix X te ns prefix = Engine_prefix X (te_local te) ns prefix"

section \<open>Retries\<close>

text \<open>The loop of \<open>retry_transient\<close> with \<open>n\<close> attempts left after the current one.\<close>

fun retry_loop :: "(EdgestoreError \<Rightarrow> bool) \<Rightarrow> ('r \<Rightarrow> 'r \<times> 'a res) \<Rightarrow> nat \<Rightarrow> 'r \<Rightarrow> 'r \<times> 'a res" where
  "retry_loop transient f n r =
     (case f r of
        (r', Inr v) \<Rightarrow> (r', Inr v)
      | (r', Inl e) \<Rightarrow>
          (case n of
             Suc n' \<Rightarrow> if transient e then retry_loop transient f n' r'
                       else (r', Inl (ReplicationError ''failed after retries''))
           | 0 \<Rightarrow> (r', Inl (ReplicationError ''failed after retries''))))"

definition retry_transient :: "(EdgestoreError \<Rightarrow> bool) \<Rightarrow> ('r \<Rightarrow> 'r \<times> 'a res) \<Rightarrow> 'r \<Rightarrow> 'r \<times> 'a res" where
  "retry_transient transient f r = retry_loop transient f MAX_RETRIES r"

definition upload_with_retry ::
  "(EdgestoreError \<Rightarrow> bool) \<Rightarrow> 'r remote_ops \<Rightarrow> bytes \<Rightarrow> bytes \<Rightarrow> 'r \<Rightarrow> 'r \<times> unit res" where
  "upload_with_retry transient R hash data r =
     (if data = [] then (r, Inl (Panic ''upload data must not be empty''))
      else case retry_transient transient (ro_upload_if_absent R hash data) r of
             (r', Inl e) \<Rightarrow> (r', Inl e) | (r', Inr _) \<Rightarrow> (r', Inr ()))"

section \<open>Reading through\<close>

definition fetch_and_import ::
  "ext \<Rightarrow> Clock \<Rightarrow> (EdgestoreError \<Rightarrow> bool) \<Rightarrow> 'r remote_ops \<Rightarrow> bytes \<Rightarrow> 'r TieredEngine \<Rightarrow> 'r TieredEngine \<times> unit res" where
  "fetch_and_import X T transient R hash te =
     (case retry_transient transient (ro_download R hash) (te_remote te) of
        (r', Inl e) \<Rightarrow> (te\<lparr>te_remote := r'\<rparr>, Inl e)
      | (r', Inr data) \<Rightarrow>
          let te1 = te\<lparr>te_remote := r'\<rparr>
          in if data = [] then (te1, Inl (Panic ''downloaded segment must not be empty''))
             else case import_segment X T data hash (te_local te1) of
                    (st, Inl e) \<Rightarrow> (te1\<lparr>te_local := st\<rparr>, Inl e)
                  | (st, Inr HashMismatch) \<Rightarrow> (te1\<lparr>te_local := st\<rparr>, Inl (ReplicationError ''hash mismatch for segment''))
                  | (st, Inr (Rejected _)) \<Rightarrow>
                      (te1\<lparr>te_local := st\<rparr>, Inl (ReplicationError ''segment permanently rejected''))
                  | (st, Inr _) \<Rightarrow>
                      (te1\<lparr>te_local := st, te_fetched := List.insert hash (te_fetched te1)\<rparr>, Inr ()))"

text \<open>\<open>get\<close> goes on when a segment cannot be fetched; a panic ends it.\<close>

fun fetch_each ::
  "ext \<Rightarrow> Clock \<Rightarrow> (EdgestoreError \<Rightarrow> bool) \<Rightarrow> 'r remote_ops \<Rightarrow> bytes list \<Rightarrow> 'r TieredEngine \<Rightarrow> 'r TieredEngine \<times> unit res" where
  "fetch_each X T transient R [] te = (te, Inr ())"
| "fetch_each X T transient R (hash # hashes) te =
     (case fetch_and_import X T transient R hash te of
        (te', Inl (Panic msg)) \<Rightarrow> (te', Inl (Panic msg))
      | (te', _) \<Rightarrow> fetch_each X T transient R hashes te')"

definition point_hashes :: "bytes \<Rightarrow> 'r TieredEngine \<Rightarrow> bytes list" where
  "point_hashes encoded_key te =
     map ar_hash (filter (\<lambda>seg. ar_hash seg \<notin> set (te_fetched te))
       (filter (\<lambda>seg. encoded_key \<ge> ar_min_key seg \<and> encoded_key \<le> ar_max_key seg) (te_archived te)))"

definition tiered_get ::
  "ext \<Rightarrow> Clock \<Rightarrow> (EdgestoreError \<Rightarrow> bool) \<Rightarrow> 'r remote_ops \<Rightarrow> bytes \<Rightarrow> bytes \<Rightarrow> 'r TieredEngine \<Rightarrow>
   'r TieredEngine \<times> bytes option res" where
  "tiered_get X T transient R ns key te =
     (case Engine_get X (te_local te) ns key of
        Inl e \<Rightarrow> (te, Inl e)
      | Inr (Some val) \<Rightarrow> (te, Inr (Some val))
      | Inr None \<Rightarrow>
          (case encode_key ns key of
             Inl e \<Rightarrow> (te, Inl e)
           | Inr encoded_key \<Rightarrow>
               (case fetch_each X T transient R (point_hashes encoded_key te) te of
                  (te', Inl e) \<Rightarrow> (te', Inl e)
                | (te', Inr _) \<Rightarrow> (te', Engine_get X (te_local te') ns key))))"

text \<open>The loops of the two fetching operations, which stop at the first error.\<close>

fun fetch_until ::
  "ext \<Rightarrow> Clock \<Rightarrow> (EdgestoreError \<Rightarrow> bool) \<Rightarrow> 'r remote_ops \<Rightarrow> (bytes \<Rightarrow> 'r TieredEngine \<Rightarrow> bool) \<Rightarrow> bytes list \<Rightarrow>
   'r TieredEngine \<Rightarrow> 'r TieredEngine \<times> unit res" where
  "fetch_until X T transient R skip [] te = (te, Inr ())"
| "fetch_until X T transient R skip (hash # hashes) te =
     (if skip hash te then fetch_until X T transient R skip hashes te
      else case fetch_and_import X T transient R hash te of
             (te', Inl e) \<Rightarrow> (te', Inl e)
           | (te', Inr _) \<Rightarrow> fetch_until X T transient R skip hashes te')"

definition fetch_archived_overlapping ::
  "ext \<Rightarrow> Clock \<Rightarrow> (EdgestoreError \<Rightarrow> bool) \<Rightarrow> 'r remote_ops \<Rightarrow> bytes \<Rightarrow> bytes \<Rightarrow> bytes \<Rightarrow> 'r TieredEngine \<Rightarrow>
   'r TieredEngine \<times> unit res" where
  "fetch_archived_overlapping X T transient R ns start end te =
     (case and_then (encode_key ns start) (\<lambda>s. and_then (encode_key ns end) (\<lambda>e. Inr (s, e))) of
        Inl err \<Rightarrow> (te, Inl err)
      | Inr (s, e) \<Rightarrow>
          fetch_until X T transient R (\<lambda>_ _. False)
            (map ar_hash (filter (\<lambda>seg. ar_max_key seg \<ge> s \<and> ar_min_key seg < e) (te_archived te))) te)"

definition fetch_all_archived ::
  "ext \<Rightarrow> Clock \<Rightarrow> (EdgestoreError \<Rightarrow> bool) \<Rightarrow> 'r remote_ops \<Rightarrow> 'r TieredEngine \<Rightarrow> 'r TieredEngine \<times> unit res" where
  "fetch_all_archived X T transient R te =
     fetch_until X T transient R (\<lambda>hash te. hash \<in> set (te_fetched te)) (map ar_hash (te_archived te)) te"

definition download_segment :: "'r remote_ops \<Rightarrow> bytes \<Rightarrow> 'r TieredEngine \<Rightarrow> 'r TieredEngine \<times> bytes res" where
  "download_segment R hash te =
     (case ro_download R hash (te_remote te) of
        (r', Inl e) \<Rightarrow> (te\<lparr>te_remote := r'\<rparr>, Inl (ReplicationError ''download segment''))
      | (r', Inr data) \<Rightarrow> (te\<lparr>te_remote := r'\<rparr>, Inr data))"

definition has_unfetched_archived_overlap :: "bytes \<Rightarrow> bytes \<Rightarrow> 'r TieredEngine \<Rightarrow> bool" where
  "has_unfetched_archived_overlap enc_start enc_end te =
     list_ex (\<lambda>seg. ar_max_key seg \<ge> enc_start \<and> ar_min_key seg < enc_end \<and> ar_hash seg \<notin> set (te_fetched te))
       (te_archived te)"

definition has_unfetched_archived_point :: "bytes \<Rightarrow> 'r TieredEngine \<Rightarrow> bool" where
  "has_unfetched_archived_point enc_key te =
     list_ex (\<lambda>seg. ar_min_key seg \<le> enc_key \<and> ar_max_key seg \<ge> enc_key \<and> ar_hash seg \<notin> set (te_fetched te))
       (te_archived te)"

definition get_needs_archived_fetch :: "bytes \<Rightarrow> bytes \<Rightarrow> 'r TieredEngine \<Rightarrow> bool res" where
  "get_needs_archived_fetch ns key te =
     and_then (encode_key ns key) (\<lambda>enc_key. Inr (has_unfetched_archived_point enc_key te))"

definition range_needs_archived_fetch :: "bytes \<Rightarrow> bytes \<Rightarrow> bytes \<Rightarrow> 'r TieredEngine \<Rightarrow> bool res" where
  "range_needs_archived_fetch ns start end te =
     and_then (encode_key ns start) (\<lambda>s. and_then (encode_key ns end) (\<lambda>e.
       Inr (has_unfetched_archived_overlap s e te)))"

definition prefix_needs_archived_fetch :: "bytes \<Rightarrow> bytes \<Rightarrow> 'r TieredEngine \<Rightarrow> bool res" where
  "prefix_needs_archived_fetch ns prefix te =
     and_then (encode_key ns prefix) (\<lambda>p. Inr (has_unfetched_archived_overlap p (prefix_end p) te))"

section \<open>The cache of downloaded segments\<close>

definition lru_put :: "bytes \<Rightarrow> bytes \<Rightarrow> (bytes \<times> bytes) list \<Rightarrow> (bytes \<times> bytes) list" where
  "lru_put hash data cache =
     (let others = filter (\<lambda>(h, _). h \<noteq> hash) cache
      in (hash, data) #
         (if length others = length cache \<and> length cache \<ge> CACHE_ITEMS then butlast others else others))"

definition lru_get :: "bytes \<Rightarrow> (bytes \<times> bytes) list \<Rightarrow> (bytes \<times> (bytes \<times> bytes) list) option" where
  "lru_get hash cache =
     (case map_of cache hash of
        None \<Rightarrow> None
      | Some data \<Rightarrow> Some (data, (hash, data) # filter (\<lambda>(h, _). h \<noteq> hash) cache))"

text \<open>Eviction from the end until the new bytes fit or the cache is empty.\<close>

function evict :: "usize \<Rightarrow> usize \<Rightarrow> (bytes \<times> bytes) list \<Rightarrow> usize \<Rightarrow> (bytes \<times> bytes) list \<times> usize" where
  "evict limit incoming cache bytes =
     (if bytes + incoming > limit \<and> cache \<noteq> []
      then evict limit incoming (butlast cache) (bytes - length (snd (last cache)))
      else (cache, bytes))"
  by pat_completeness auto
termination
  by (relation "measure (\<lambda>(limit, incoming, cache, bytes). length cache)") auto

declare evict.simps [simp del]

definition cache_segment :: "bytes \<Rightarrow> bytes \<Rightarrow> 'r TieredEngine \<Rightarrow> 'r TieredEngine" where
  "cache_segment hash data te =
     (if te_segment_cache_max_bytes te = 0 then te
      else case evict (te_segment_cache_max_bytes te) (length data) (te_segment_cache te) (te_segment_cache_bytes te) of
             (cache, bytes) \<Rightarrow>
               te\<lparr>te_segment_cache_bytes := bytes + length data, te_segment_cache := lru_put hash data cache\<rparr>)"

section \<open>Scans over archived segments\<close>

definition synthetic_meta :: "bytes \<Rightarrow> SegmentMeta" where
  "synthetic_meta hash =
     \<lparr> m_segment_id = 0, m_segment_hash = hash, m_min_key = [], m_max_key = [0xFF, 0xFF],
       m_min_lsn = 0, m_max_lsn = - 1, m_record_count = 0, m_compressed_bytes = 0, m_uncompressed_bytes = 0,
       m_compression = ''zstd:1'', m_cohort_bucket = 0, m_death_time = 0x7FFFFFFFFFFFFFFF,
       m_merkle_root = replicate 32 0, m_created_at = 0, m_text_index_stripped = False,
       m_vector_index_stripped = False \<rparr>"

fun load_archived ::
  "'r remote_ops \<Rightarrow> bytes list \<Rightarrow> 'r TieredEngine \<Rightarrow> 'r TieredEngine \<times> (SegmentMeta \<times> bytes) list" where
  "load_archived R [] te = (te, [])"
| "load_archived R (hash # hashes) te =
     (case lru_get hash (te_segment_cache te) of
        Some (data, cache) \<Rightarrow>
          (case load_archived R hashes (te\<lparr>te_segment_cache := cache\<rparr>) of
             (te', pairs) \<Rightarrow> (te', (synthetic_meta hash, data) # pairs))
      | None \<Rightarrow>
          (case ro_download R hash (te_remote te) of
             (r', Inl e) \<Rightarrow> load_archived R hashes (te\<lparr>te_remote := r'\<rparr>)
           | (r', Inr data) \<Rightarrow>
               (case load_archived R hashes (cache_segment hash data (te\<lparr>te_remote := r'\<rparr>)) of
                  (te', pairs) \<Rightarrow> (te', (synthetic_meta hash, data) # pairs))))"

definition overlap_hashes :: "bytes \<Rightarrow> bytes \<Rightarrow> 'r TieredEngine \<Rightarrow> bytes list" where
  "overlap_hashes enc_start enc_end te =
     map ar_hash (filter (\<lambda>seg. ar_hash seg \<notin> set (te_fetched te))
       (filter (\<lambda>seg. ar_max_key seg \<ge> enc_start \<and> ar_min_key seg < enc_end) (te_archived te)))"

definition ephemeral_engine_for_range ::
  "ext \<Rightarrow> 'r remote_ops \<Rightarrow> bytes \<Rightarrow> bytes \<Rightarrow> 'r TieredEngine \<Rightarrow>
   'r TieredEngine \<times> InMemorySegmentReader list option res" where
  "ephemeral_engine_for_range X R enc_start enc_end te =
     (let to_load = overlap_hashes enc_start enc_end te
      in if to_load = [] then (te, Inr None)
         else case load_archived R to_load te of
                (te', pairs) \<Rightarrow>
                  if pairs = [] then (te', Inr None)
                  else (te', and_then (ImmutableEngine_from_segment_bytes X pairs) (\<lambda>engine. Inr (Some engine))))"

definition range_archived ::
  "ext \<Rightarrow> 'r remote_ops \<Rightarrow> bytes \<Rightarrow> bytes \<Rightarrow> bytes \<Rightarrow> 'r TieredEngine \<Rightarrow> 'r TieredEngine \<times> KvPairs res" where
  "range_archived X R ns start end te =
     (case and_then (encode_key ns start) (\<lambda>s. and_then (encode_key ns end) (\<lambda>e. Inr (s, e))) of
        Inl err \<Rightarrow> (te, Inl err)
      | Inr (enc_start, enc_end) \<Rightarrow>
          (case ephemeral_engine_for_range X R enc_start enc_end te of
             (te', Inl err) \<Rightarrow> (te', Inl err)
           | (te', Inr (Some engine)) \<Rightarrow> (te', ImmutableEngine_range X engine ns start end)
           | (te', Inr None) \<Rightarrow> (te', Inr [])))"

definition prefix_archived ::
  "ext \<Rightarrow> 'r remote_ops \<Rightarrow> bytes \<Rightarrow> bytes \<Rightarrow> 'r TieredEngine \<Rightarrow> 'r TieredEngine \<times> KvPairs res" where
  "prefix_archived X R ns prefix te =
     (case encode_key ns prefix of
        Inl err \<Rightarrow> (te, Inl err)
      | Inr enc_prefix \<Rightarrow>
          (case ephemeral_engine_for_range X R enc_prefix (prefix_end enc_prefix) te of
             (te', Inl err) \<Rightarrow> (te', Inl err)
           | (te', Inr (Some engine)) \<Rightarrow> (te', ImmutableEngine_prefix X engine ns prefix)
           | (te', Inr None) \<Rightarrow> (te', Inr [])))"

definition merge_local_wins :: "KvPairs \<Rightarrow> KvPairs \<Rightarrow> KvPairs" where
  "merge_local_wins local archived =
     (if archived = [] then local
      else let local_keys = set (map fst local)
           in sort_key fst (local @ filter (\<lambda>(k, v). k \<notin> local_keys) archived))"

definition tiered_range ::
  "ext \<Rightarrow> 'r remote_ops \<Rightarrow> bytes \<Rightarrow> bytes \<Rightarrow> bytes \<Rightarrow> 'r TieredEngine \<Rightarrow> 'r TieredEngine \<times> KvPairs res" where
  "tiered_range X R ns start end te =
     (case Engine_range X (te_local te) ns start end of
        Inl e \<Rightarrow> (te, Inl e)
      | Inr local \<Rightarrow>
          (case range_archived X R ns start end te of
             (te', Inl e) \<Rightarrow> (te', Inl e)
           | (te', Inr archived) \<Rightarrow> (te', Inr (merge_local_wins local archived))))"

definition tiered_prefix ::
  "ext \<Rightarrow> 'r remote_ops \<Rightarrow> bytes \<Rightarrow> bytes \<Rightarrow> 'r TieredEngine \<Rightarrow> 'r TieredEngine \<times> KvPairs res" where
  "tiered_prefix X R ns prefix te =
     (case Engine_prefix X (te_local te) ns prefix of
        Inl e \<Rightarrow> (te, Inl e)
      | Inr local \<Rightarrow>
          (case prefix_archived X R ns prefix te of
             (te', Inl e) \<Rightarrow> (te', Inl e)
           | (te', Inr archived) \<Rightarrow> (te', Inr (merge_local_wins local archived))))"

section \<open>Archiving\<close>

text \<open>Uploading the sidecar files; an error of an upload is ignored, a missing file skipped.\<close>

fun upload_sidecars ::
  "'r remote_ops \<Rightarrow> bytes \<Rightarrow> SegmentId \<Rightarrow> dir \<Rightarrow> string list \<Rightarrow> 'r \<Rightarrow> 'r" where
  "upload_sidecars R hash i d [] r = r"
| "upload_sidecars R hash i d (x # xs) r =
     upload_sidecars R hash i d xs
       (case fs_read d (segment_file i x) of Some b \<Rightarrow> fst (ro_upload_aux R hash x b r) | None \<Rightarrow> r)"

definition archive_one ::
  "ext \<Rightarrow> Clock \<Rightarrow> (EdgestoreError \<Rightarrow> bool) \<Rightarrow> 'r remote_ops \<Rightarrow> SegmentMeta \<Rightarrow> 'r TieredEngine \<Rightarrow> 'r TieredEngine \<times> unit res" where
  "archive_one X T transient R meta te =
     (let hash = m_segment_hash meta; i = m_segment_id meta; d = snd (te_local te)
      in if length hash \<noteq> 32 then (te, Inl (ReplicationError ''segment hash is not 32 bytes''))
         else case fs_read d (dat_path i) of
                None \<Rightarrow> (te, Inr ())
              | Some data \<Rightarrow>
                  if data = [] then (te, Inl (Panic ''segment .dat file must not be empty''))
                  else case upload_with_retry transient R hash data (te_remote te) of
                         (r', Inl e) \<Rightarrow> (te\<lparr>te_remote := r'\<rparr>, Inl e)
                       | (r', Inr _) \<Rightarrow>
                           let r'' = (if te_upload_sidecars te
                                      then upload_sidecars R hash i d [''idx'', ''xf'', ''meta''] r' else r');
                               te1 = te\<lparr>te_remote := r'',
                                        te_archived := te_archived te @
                                          [\<lparr> ar_hash = hash, ar_min_key = m_min_key meta, ar_max_key = m_max_key meta \<rparr>]\<rparr>;
                               te2 = (if te_strip_text_after_archive te1
                                      then te1\<lparr>te_local := fst (strip_text_index X T i (te_local te1))\<rparr> else te1);
                               te3 = (if te_strip_vector_after_archive te2
                                      then te2\<lparr>te_local := fst (strip_vector_index X T i (te_local te2))\<rparr> else te2)
                           in (te3, Inr ()))"

fun archive_segments ::
  "ext \<Rightarrow> Clock \<Rightarrow> (EdgestoreError \<Rightarrow> bool) \<Rightarrow> 'r remote_ops \<Rightarrow> SegmentMeta list \<Rightarrow> 'r TieredEngine \<Rightarrow>
   'r TieredEngine \<times> unit res" where
  "archive_segments X T transient R [] te = (te, Inr ())"
| "archive_segments X T transient R (meta # metas) te =
     (case archive_one X T transient R meta te of
        (te', Inl e) \<Rightarrow> (te', Inl e)
      | (te', Inr _) \<Rightarrow> archive_segments X T transient R metas te')"

end
