(* ===== verification/TierFacts.thy ===== *)
theory TierFacts
  imports Tier
begin

text \<open>
  What the tiered engine guarantees: scans overlay the local data on the archived segments, the
  cache accounts for its bytes, archived values stay readable after the local copy is gone, and
  two cases in which this fails. The proofs about the remote store use only the laws of the
  locales \<open>remote_store\<close> and \<open>reliable_remote\<close>.
\<close>

section \<open>Retries\<close>

lemma retry_ok: "f r = (r', Inr v) \<Longrightarrow> retry_transient transient f r = (r', Inr v)"
  by (simp add: retry_transient_def MAX_RETRIES_def)

text \<open>The operation runs at most four times, each time on the state the last attempt left.\<close>

lemma retry_loop_steps:
  "\<exists>k \<le> n. fst (retry_loop transient f n r) = ((fst \<circ> f) ^^ Suc k) r \<and>
     (\<forall>v. snd (retry_loop transient f n r) = Inr v \<longrightarrow> snd (f (((fst \<circ> f) ^^ k) r)) = Inr v)"
proof (induction n arbitrary: r)
  case 0
  show ?case by (auto split: prod.split sum.split)
next
  case (Suc n)
  obtain r' q where f: "f r = (r', q)" by fastforce
  show ?case
  proof (cases "\<exists>e. q = Inl e \<and> transient e")
    case True
    obtain k where "k \<le> n" "fst (retry_loop transient f n r') = ((fst \<circ> f) ^^ Suc k) r'"
      "\<forall>v. snd (retry_loop transient f n r') = Inr v \<longrightarrow> snd (f (((fst \<circ> f) ^^ k) r')) = Inr v"
      using Suc.IH by blast
    moreover have "retry_loop transient f (Suc n) r = retry_loop transient f n r'" using True f by auto
    moreover have "((fst \<circ> f) ^^ Suc m) r = ((fst \<circ> f) ^^ m) r'" for m
      using f by (simp add: funpow_Suc_right del: funpow.simps)
    ultimately show ?thesis by (intro exI [of _ "Suc k"]) (auto simp only: Suc_le_mono)
  next
    case False
    with f show ?thesis by (intro exI [of _ 0]) (auto split: sum.split)
  qed
qed

declare retry_loop.simps [simp del]

section \<open>The cache\<close>

definition cache_total :: "(bytes \<times> bytes) list \<Rightarrow> nat" where
  "cache_total cache = sum_list (map (length \<circ> snd) cache)"

lemma cache_total_simps [simp]:
  "cache_total [] = 0" "cache_total (x # c) = length (snd x) + cache_total c"
  "cache_total (c @ c') = cache_total c + cache_total c'"
  by (simp_all add: cache_total_def)

text \<open>
  The counter is the number of bytes in the cache; it exceeds the limit only when a single
  segment larger than the limit is held. A data file has at least a header and one block.
\<close>

definition cache_inv :: "'r TieredEngine \<Rightarrow> bool" where
  "cache_inv te \<longleftrightarrow> te_segment_cache_bytes te = cache_total (te_segment_cache te) \<and>
     distinct (map fst (te_segment_cache te)) \<and>
     (\<forall>(h, data) \<in> set (te_segment_cache te). 4104 \<le> length data) \<and>
     (te_segment_cache_bytes te \<le> te_segment_cache_max_bytes te \<or> length (te_segment_cache te) \<le> 1)"

lemma evict_prefix:
  assumes "evict limit incoming cache (cache_total cache) = (kept, bytes)"
  shows "\<exists>dropped. cache = kept @ dropped \<and> bytes = cache_total kept \<and>
     (cache_total kept + incoming \<le> limit \<or> kept = [])"
  using assms
proof (induction cache rule: rev_induct)
  case Nil
  then show ?case by (simp add: evict.simps)
next
  case (snoc x cache)
  show ?case
  proof (cases "cache_total (cache @ [x]) + incoming > limit")
    case True
    then have "evict limit incoming cache (cache_total cache) = (kept, bytes)"
      using snoc.prems evict.simps [of limit incoming "cache @ [x]"] by simp
    from snoc.IH [OF this] obtain dropped where "cache = kept @ dropped" "bytes = cache_total kept"
      "cache_total kept + incoming \<le> limit \<or> kept = []" by blast
    then show ?thesis by (intro exI [of _ "dropped @ [x]"]) simp
  next
    case False
    then have "kept = cache @ [x]" "bytes = cache_total (cache @ [x])"
      using snoc.prems evict.simps [of limit incoming "cache @ [x]" "cache_total (cache @ [x])"] by auto
    with False show ?thesis by simp
  qed
qed

lemma cache_inv_short:
  assumes "\<forall>(h, data) \<in> set cache. 4104 \<le> length data" "cache_total cache \<le> n"
  shows "4104 * length cache \<le> n"
proof -
  have "4104 * length cache \<le> cache_total cache" using assms(1) by (induction cache) auto
  with assms(2) show ?thesis by simp
qed

lemma cache_segment_inv:
  assumes "cache_inv te" "h \<notin> fst ` set (te_segment_cache te)" "4104 \<le> length data"
    and "te_segment_cache_max_bytes te \<le> 4104 * CACHE_ITEMS"
  shows "cache_inv (cache_segment h data te)"
proof (cases "te_segment_cache_max_bytes te = 0")
  case False
  let ?max = "te_segment_cache_max_bytes te" and ?cache = "te_segment_cache te"
  obtain cache bytes where ev: "evict ?max (length data) ?cache (te_segment_cache_bytes te) = (cache, bytes)" by fastforce
  have inv: "te_segment_cache_bytes te = cache_total ?cache" "distinct (map fst ?cache)"
    "\<forall>(h, data) \<in> set ?cache. 4104 \<le> length data" using assms(1) by (simp_all add: cache_inv_def)
  from evict_prefix [OF ev [unfolded inv(1)]] obtain dropped where
    c: "?cache = cache @ dropped" "bytes = cache_total cache" "cache_total cache + length data \<le> ?max \<or> cache = []" by auto
  have fresh: "filter (\<lambda>(g, _). g \<noteq> h) cache = cache"
    using assms(2) c(1) by (intro filter_True) force
  have small: "length cache < CACHE_ITEMS"
  proof (cases "cache = []")
    case False
    then have "4104 * length cache \<le> ?max - 4104"
      using c inv(3) assms(3) by (intro cache_inv_short) auto
    with assms(4) False c(3) assms(3) show ?thesis by simp
  qed (simp add: CACHE_ITEMS_def)
  have "lru_put h data cache = (h, data) # cache" using fresh small by (simp add: lru_put_def)
  then have eq: "cache_segment h data te =
      te\<lparr>te_segment_cache_bytes := bytes + length data, te_segment_cache := (h, data) # cache\<rparr>"
    using False ev by (simp add: cache_segment_def)
  have "h \<notin> fst ` set cache" using assms(2) c(1) by auto
  with inv c assms(3) show ?thesis unfolding eq by (auto simp: cache_inv_def)
qed (use assms(1) in \<open>simp add: cache_segment_def\<close>)

lemma lru_get_inv:
  assumes "cache_inv te" "lru_get h (te_segment_cache te) = Some (data, cache)"
  shows "cache_inv (te\<lparr>te_segment_cache := cache\<rparr>)" "(h, data) \<in> set (te_segment_cache te)"
    "set cache = set (te_segment_cache te)"
proof -
  let ?c = "te_segment_cache te"
  have d: "map_of ?c h = Some data" "cache = (h, data) # filter (\<lambda>(g, _). g \<noteq> h) ?c"
    using assms(2) by (auto simp: lru_get_def split: option.splits)
  have dist: "distinct (map fst ?c)" using assms(1) by (simp add: cache_inv_def)
  show mem: "(h, data) \<in> set ?c" using d(1) by (rule map_of_SomeD)
  obtain a b where ab: "?c = a @ (h, data) # b" using mem by (metis in_set_conv_decomp)
  with dist have "h \<notin> fst ` set a" "h \<notin> fst ` set b" by auto
  then have flt: "filter (\<lambda>(g, _). g \<noteq> h) a = a" "filter (\<lambda>(g, _). g \<noteq> h) b = b"
    by (auto intro!: filter_True simp: image_iff)
  then have cache: "cache = (h, data) # a @ b" using d(2) ab by simp
  then show set_eq: "set cache = set ?c" using ab by auto
  show "cache_inv (te\<lparr>te_segment_cache := cache\<rparr>)"
    using assms(1) dist cache ab unfolding cache_inv_def by (auto simp: set_eq)
qed

section \<open>Archived segments\<close>

text \<open>
  The archived segment \<open>a\<close> has the entries \<open>es\<close>: its hash names their data file in the remote
  store. Keys stay below two \<open>0xFF\<close> bytes, as all keys outside namespaces of 65535 bytes do.
\<close>

definition archived_as :: "ext \<Rightarrow> (bytes \<Rightarrow> bytes option) \<Rightarrow> ArchivedSegment \<Rightarrow> kv list \<Rightarrow> bool" where
  "archived_as X C a es \<longleftrightarrow> length (ar_hash a) = 32 \<and> ar_min_key a = fst (hd es) \<and> ar_max_key a = fst (last es) \<and>
     (\<exists>dat. C (ar_hash a) = Some dat \<and> dat_holds X dat es) \<and> (\<forall>k \<in> fst ` set es. k \<le> [0xFF, 0xFF])"

definition cache_agrees :: "(bytes \<Rightarrow> bytes option) \<Rightarrow> 'r TieredEngine \<Rightarrow> bool" where
  "cache_agrees C te \<longleftrightarrow> (\<forall>(h, data) \<in> set (te_segment_cache te). C h = Some data)"

lemma aligned_size_block: "0 < n \<Longrightarrow> 4096 \<le> aligned_size n"
proof -
  assume "0 < n"
  moreover have "4096 dvd aligned_size n" by (auto simp: aligned_size_def SEGMENT_BLOCK_SIZE_def)
  ultimately show ?thesis using aligned_size_pos dvd_imp_le by blast
qed

lemma dat_holds_length:
  assumes "zstd_ok X" "dat_holds X dat es"
  shows "4104 \<le> length dat" "dat \<noteq> []"
proof -
  obtain bs where bs: "dat = dat_of X bs" "concat bs = es" "\<forall>b \<in> set bs. block_ok b" "es \<noteq> []"
    using assms(2) unfolding dat_holds_def by blast
  then obtain b bs' where b: "bs = b # bs'" "block_ok b" by (cases bs) auto
  have "4096 \<le> length (block_bytes X b)"
    by (rule block_bytes_layout [OF assms(1) b(2)]) (simp add: aligned_size_block)
  then show "4104 \<le> length dat" "dat \<noteq> []" using bs(1) b(1) by (auto simp: dat_of_def)
qed

lemma cache_segment_other:
  "te_local (cache_segment h data te) = te_local te" "te_remote (cache_segment h data te) = te_remote te"
  "te_archived (cache_segment h data te) = te_archived te" "te_fetched (cache_segment h data te) = te_fetched te"
  "te_segment_cache_max_bytes (cache_segment h data te) = te_segment_cache_max_bytes te"
  by (simp_all add: cache_segment_def split: prod.split)

lemma evict_subset: "set (fst (evict limit incoming cache bytes)) \<subseteq> set cache"
proof (induction limit incoming cache bytes rule: evict.induct)
  case (1 limit incoming cache bytes)
  have "set (butlast cache) \<subseteq> set cache" by (auto dest: in_set_butlastD)
  with 1 show ?case using evict.simps [of limit incoming cache bytes] by auto
qed

lemma cache_segment_agrees:
  assumes "cache_agrees C te" "C h = Some data"
  shows "cache_agrees C (cache_segment h data te)"
proof -
  obtain cache bytes where ev: "evict (te_segment_cache_max_bytes te) (length data) (te_segment_cache te)
      (te_segment_cache_bytes te) = (cache, bytes)" by fastforce
  have "set (lru_put h data cache) \<subseteq> insert (h, data) (set cache)"
    by (auto simp: lru_put_def Let_def dest: in_set_butlastD)
  moreover have "set cache \<subseteq> set (te_segment_cache te)" using evict_subset ev by (metis fst_conv)
  ultimately have "set (te_segment_cache (cache_segment h data te)) \<subseteq> insert (h, data) (set (te_segment_cache te))"
    using ev by (auto simp: cache_segment_def)
  with assms show ?thesis unfolding cache_agrees_def by blast
qed

context remote_store
begin

lemma load_archived_cache_inv:
  assumes "cache_inv te" "te_segment_cache_max_bytes te \<le> 4104 * CACHE_ITEMS"
    and "\<forall>h data. contents (te_remote te) h = Some data \<longrightarrow> 4104 \<le> length data"
  shows "cache_inv (fst (load_archived ops hashes te))"
  using assms
proof (induction hashes arbitrary: te)
  case (Cons h hashes)
  obtain r' q where r': "ro_download ops h (te_remote te) = (r', q)" by fastforce
  have c: "contents r' = contents (te_remote te)" using download_state [of h "te_remote te"] r' by simp
  have same: "cache_inv (te\<lparr>te_remote := r'\<rparr>)" using Cons.prems(1) by (auto simp: cache_inv_def)
  show ?case
  proof (cases "lru_get h (te_segment_cache te)")
    case None
    then have fresh: "h \<notin> fst ` set (te_segment_cache te)"
      by (auto simp: lru_get_def map_of_eq_None_iff split: option.splits)
    show ?thesis
    proof (cases q)
      case (Inl e)
      have "cache_inv (fst (load_archived ops hashes (te\<lparr>te_remote := r'\<rparr>)))"
        using Cons.prems same c by (intro Cons.IH) simp_all
      with Inl None r' show ?thesis by simp
    next
      case (Inr data)
      then have "4104 \<le> length data" using download_ok [of h "te_remote te" data] r' Cons.prems(3) by simp
      then have "cache_inv (cache_segment h data (te\<lparr>te_remote := r'\<rparr>))"
        using same fresh Cons.prems(2) by (intro cache_segment_inv) simp_all
      then have "cache_inv (fst (load_archived ops hashes (cache_segment h data (te\<lparr>te_remote := r'\<rparr>))))"
        using Cons.prems c by (intro Cons.IH) (simp_all add: cache_segment_other)
      with Inr None r' show ?thesis by (auto split: prod.split)
    qed
  next
    case (Some p)
    obtain data cache where p: "lru_get h (te_segment_cache te) = Some (data, cache)" using Some by (cases p) auto
    have "cache_inv (fst (load_archived ops hashes (te\<lparr>te_segment_cache := cache\<rparr>)))"
      using Cons.prems lru_get_inv(1) [OF Cons.prems(1) p] by (intro Cons.IH) simp_all
    with p show ?thesis by (auto split: prod.split)
  qed
qed simp

end

context reliable_remote
begin

lemma load_archived_all:
  assumes "cache_agrees (contents (te_remote te)) te" "\<forall>h \<in> set hashes. contents (te_remote te) h \<noteq> None"
  shows "\<exists>te'. load_archived ops hashes te =
       (te', map (\<lambda>h. (synthetic_meta h, the (contents (te_remote te) h))) hashes) \<and>
     te_local te' = te_local te \<and> te_archived te' = te_archived te \<and> te_fetched te' = te_fetched te \<and>
     contents (te_remote te') = contents (te_remote te) \<and> cache_agrees (contents (te_remote te)) te'"
  using assms
proof (induction hashes arbitrary: te)
  case (Cons h hashes)
  obtain data where data: "contents (te_remote te) h = Some data" using Cons.prems(2) by auto
  have known: "\<forall>h \<in> set hashes. contents (te_remote te) h \<noteq> None" using Cons.prems(2) by simp
  show ?case
  proof (cases "lru_get h (te_segment_cache te)")
    case None
    obtain r' where r': "ro_download ops h (te_remote te) = (r', Inr data)"
      using download_total [OF data] by (metis prod.collapse)
    have c: "contents r' = contents (te_remote te)" using download_state [of h "te_remote te"] r' by simp
    let ?te = "cache_segment h data (te\<lparr>te_remote := r'\<rparr>)"
    have "cache_agrees (contents (te_remote te)) (te\<lparr>te_remote := r'\<rparr>)" using Cons.prems(1) by (simp add: cache_agrees_def)
    from cache_segment_agrees [OF this data] have "cache_agrees (contents (te_remote ?te)) ?te"
      by (simp add: cache_segment_other c)
    from Cons.IH [OF this] known show ?thesis using None r' data by (fastforce simp: cache_segment_other c)
  next
    case (Some p)
    obtain data' cache where p: "lru_get h (te_segment_cache te) = Some (data', cache)" using Some by (cases p) auto
    have d': "(h, data') \<in> set (te_segment_cache te)" "set cache \<subseteq> set (te_segment_cache te)"
      using p unfolding lru_get_def by (auto split: option.splits dest: map_of_SomeD)
    have eq: "data' = data" using d'(1) Cons.prems(1) data by (auto simp: cache_agrees_def)
    let ?te = "te\<lparr>te_segment_cache := cache\<rparr>"
    have "cache_agrees (contents (te_remote ?te)) ?te" using Cons.prems(1) d'(2) by (auto simp: cache_agrees_def)
    from Cons.IH [OF this] known show ?thesis using p data by (fastforce simp: eq)
  qed
qed simp

text \<open>The runs of the archived segments that satisfy \<open>P\<close>.\<close>

lemma archived_pairs:
  assumes "list_all2 (archived_as X C) archived aes"
  shows "list_all2 (\<lambda>(meta, dat) es. dat_holds X dat es \<and> length (m_segment_hash meta) = 32 \<and>
      (\<forall>k \<in> fst ` set es. m_min_key meta \<le> k \<and> k \<le> m_max_key meta))
     (map (\<lambda>h. (synthetic_meta h, the (C h))) (map ar_hash (filter P archived)))
     (map snd (filter (P \<circ> fst) (zip archived aes)))"
  using assms
proof (induction archived aes rule: list_all2_induct)
  case (Cons a archived es aes)
  obtain dat where "C (ar_hash a) = Some dat" "dat_holds X dat es" "length (ar_hash a) = 32"
    "\<forall>k \<in> fst ` set es. k \<le> [0xFF, 0xFF]" using Cons.hyps(1) unfolding archived_as_def by blast
  with Cons show ?case by (simp add: synthetic_meta_def)
qed simp

end

text \<open>The runs of the archived segments that were not fetched.\<close>

definition unfetched_runs :: "'r TieredEngine \<Rightarrow> kv list list \<Rightarrow> kv list list" where
  "unfetched_runs te aes =
     map snd (filter (\<lambda>(a, es). ar_hash a \<notin> set (te_fetched te)) (zip (te_archived te) aes))"

lemma newest_cong:
  assumes "\<And>e. (k, e) \<in> S \<longleftrightarrow> (k, e) \<in> S'"
  shows "newest S k e \<longleftrightarrow> newest S' k e"
  using assms by (simp add: newest_def)

lemma merge_local_wins_spec:
  assumes "ksorted local" "ksorted archived"
  shows "ksorted (merge_local_wins local archived)"
    and "(k, v) \<in> set (merge_local_wins local archived) \<longleftrightarrow>
      (k, v) \<in> set local \<or> (k \<notin> fst ` set local \<and> (k, v) \<in> set archived)"
proof -
  let ?all = "local @ filter (\<lambda>(k, v). k \<notin> set (map fst local)) archived"
  have "distinct (map fst ?all)"
    using ksorted_distinct [OF assms(1)] ksorted_distinct [OF assms(2)] by (force simp: distinct_map_filter)
  then have "distinct (map fst (sort_key fst ?all))" by (simp only: distinct_map distinct_sort set_sort)
  moreover have "sorted (map fst (sort_key fst ?all))" by simp
  ultimately have "ksorted (sort_key fst ?all)" by (simp only: strict_sorted_iff)
  with assms(1) show "ksorted (merge_local_wins local archived)" by (simp add: merge_local_wins_def Let_def)
  show "(k, v) \<in> set (merge_local_wins local archived) \<longleftrightarrow>
      (k, v) \<in> set local \<or> (k \<notin> fst ` set local \<and> (k, v) \<in> set archived)"
    by (auto simp: merge_local_wins_def Let_def)
qed

context reliable_remote
begin

lemma range_archived_newest:
  assumes "zstd_ok X" "xor8_ok X" "ns_ok ns"
    and "list_all2 (archived_as X (contents (te_remote te))) (te_archived te) aes"
    and "cache_agrees (contents (te_remote te)) te" "lsn_det (\<Union> (set ` set (unfetched_runs te aes)))"
  shows "\<exists>te' A. range_archived X ops ns lo hi te = (te', Inr A) \<and> te_local te' = te_local te \<and> ksorted A \<and>
     (\<forall>uk v. (uk, v) \<in> set A \<longleftrightarrow> lo \<le> uk \<and> uk < hi \<and>
        (\<exists>e. newest (\<Union> (set ` set (unfetched_runs te aes))) (enc ns uk) e \<and> e_op e \<noteq> Delete \<and> e_value e = Some v))"
proof -
  let ?C = "contents (te_remote te)" and ?lo = "enc ns lo" and ?hi = "enc ns hi"
  let ?over = "\<lambda>seg. ar_max_key seg \<ge> ?lo \<and> ar_min_key seg < ?hi \<and> ar_hash seg \<notin> set (te_fetched te)"
  let ?O = "map snd (filter (?over \<circ> fst) (zip (te_archived te) aes))"
  let ?hashes = "overlap_hashes ?lo ?hi te"
  have hashes: "?hashes = map ar_hash (filter ?over (te_archived te))"
    by (simp add: overlap_hashes_def conj_ac)
  have known: "\<forall>h \<in> set ?hashes. ?C h \<noteq> None"
    using assms(4) unfolding hashes by (force simp: archived_as_def list_all2_conv_all_nth in_set_conv_nth)
  have sub: "set ?O \<subseteq> set (unfetched_runs te aes)" by (auto simp: unfetched_runs_def)
  have det: "lsn_det (\<Union> (set ` set ?O))" using assms(6) by (rule lsn_det_subset) (use sub in blast)
  have same: "newest (\<Union> (set ` set ?O)) (enc ns uk) e \<longleftrightarrow> newest (\<Union> (set ` set (unfetched_runs te aes))) (enc ns uk) e"
    if uk: "lo \<le> uk" "uk < hi" for uk e
  proof (rule newest_cong)
    fix x
    show "(enc ns uk, x) \<in> \<Union> (set ` set ?O) \<longleftrightarrow> (enc ns uk, x) \<in> \<Union> (set ` set (unfetched_runs te aes))"
    proof
      assume "(enc ns uk, x) \<in> \<Union> (set ` set (unfetched_runs te aes))"
      then obtain a es where a: "(a, es) \<in> set (zip (te_archived te) aes)" "ar_hash a \<notin> set (te_fetched te)"
        "(enc ns uk, x) \<in> set es" by (auto simp: unfetched_runs_def)
      then have "archived_as X ?C a es" using assms(4) by (auto simp: list_all2_iff)
      then have ar: "ksorted es" "ar_min_key a = fst (hd es)" "ar_max_key a = fst (last es)"
        by (auto simp: archived_as_def dat_holds_def)
      have "fst (hd es) \<le> enc ns uk \<and> enc ns uk \<le> fst (last es)" using ksorted_bounds [OF ar(1) a(3)] by simp
      moreover have "?lo \<le> enc ns uk" "enc ns uk < ?hi" using uk by simp_all
      ultimately have "?over a" unfolding ar(2,3) using a(2) by (meson order_trans le_less_trans)
      with a show "(enc ns uk, x) \<in> \<Union> (set ` set ?O)" by force
    qed (use sub in blast)
  qed
  obtain te' where te': "load_archived ops ?hashes te = (te', map (\<lambda>h. (synthetic_meta h, the (?C h))) ?hashes)"
    "te_local te' = te_local te" using load_archived_all [OF assms(5) known] by blast
  obtain readers where readers:
    "ImmutableEngine_from_segment_bytes X (map (\<lambda>h. (synthetic_meta h, the (?C h))) ?hashes) = Inr readers"
    "list_all2 (\<lambda>r es. zstd_ok X \<and> mem_inv X r es) readers ?O"
    using from_segment_bytes_holds [OF assms(1,2) archived_pairs [OF assms(4), of ?over]] unfolding hashes by blast
  obtain A where A: "merge_readers (InMemory_range_scan X) ?lo ?hi readers = Inr A" "ksorted A"
     "\<forall>uk v. (uk, v) \<in> set A \<longleftrightarrow> lo \<le> uk \<and> uk < hi \<and>
        (\<exists>e. newest (\<Union> (set ` set ?O)) (enc ns uk) e \<and> e_op e \<noteq> Delete \<and> e_value e = Some v)"
    using mem.merge_readers_newest [OF readers(2) det assms(3), of lo hi] by blast
  have mem: "\<forall>uk v. (uk, v) \<in> set A \<longleftrightarrow> lo \<le> uk \<and> uk < hi \<and>
        (\<exists>e. newest (\<Union> (set ` set (unfetched_runs te aes))) (enc ns uk) e \<and> e_op e \<noteq> Delete \<and> e_value e = Some v)"
    using A(3) same by blast
  note enc_ok = encode_key_ok [OF assms(3)]
  show ?thesis
  proof (cases "?hashes = []")
    case True
    then have "readers = []" using readers(1) by simp
    with A(1) have "A = []" by (simp add: merge_readers_def merge_loop.simps heap_pop_def emit_def)
    moreover have "range_archived X ops ns lo hi te = (te, Inr [])"
      using True by (simp add: range_archived_def enc_ok ephemeral_engine_for_range_def)
    ultimately show ?thesis using mem by auto
  next
    case False
    then have "range_archived X ops ns lo hi te = (te', Inr A)"
      using te'(1) readers(1) A(1)
      by (simp add: range_archived_def enc_ok ephemeral_engine_for_range_def Let_def ImmutableEngine_range_def
          range_encoded_def)
    with te'(2) A(2) mem show ?thesis by blast
  qed
qed

lemma tiered_range_overlay:
  assumes "zstd_ok X" "xor8_ok X" "ns_ok ns" "lo \<le> hi"
    and "te_local te = (E, d)" "engine_inv X E d ess" "lsn_ordered (ess @ [en_memtable E])"
    and "list_all2 (archived_as X (contents (te_remote te))) (te_archived te) aes"
    and "cache_agrees (contents (te_remote te)) te" "lsn_det (\<Union> (set ` set (unfetched_runs te aes)))"
  shows "\<exists>te' L. tiered_range X ops ns lo hi te = (te', Inr L) \<and> te_local te' = (E, d) \<and> ksorted L \<and>
     (\<forall>uk v. (uk, v) \<in> set L \<longleftrightarrow> lo \<le> uk \<and> uk < hi \<and>
        (Engine_get X (E, d) ns uk = Inr (Some v) \<or>
         Engine_get X (E, d) ns uk = Inr None \<and>
         (\<exists>e. newest (\<Union> (set ` set (unfetched_runs te aes))) (enc ns uk) e \<and> e_op e \<noteq> Delete \<and> e_value e = Some v)))"
proof -
  obtain L where L: "Engine_range X (E, d) ns lo hi = Inr L" "ksorted L"
    "\<forall>uk v. (uk, v) \<in> set L \<longleftrightarrow> lo \<le> uk \<and> uk < hi \<and> Engine_get X (E, d) ns uk = Inr (Some v)"
    using engine_range_spec [OF assms(1,6,7,3,4)] by blast
  obtain te' A where A: "range_archived X ops ns lo hi te = (te', Inr A)" "te_local te' = te_local te" "ksorted A"
    "\<forall>uk v. (uk, v) \<in> set A \<longleftrightarrow> lo \<le> uk \<and> uk < hi \<and>
        (\<exists>e. newest (\<Union> (set ` set (unfetched_runs te aes))) (enc ns uk) e \<and> e_op e \<noteq> Delete \<and> e_value e = Some v)"
    using range_archived_newest [OF assms(1-3,8-10)] by blast
  have "tiered_range X ops ns lo hi te = (te', Inr (merge_local_wins L A))"
    using L(1) A(1) by (simp add: tiered_range_def assms(5))
  moreover have none: "Engine_get X (E, d) ns uk = Inr None \<longleftrightarrow> uk \<notin> fst ` set L" if "lo \<le> uk" "uk < hi" for uk
  proof -
    obtain o' where "Engine_get X (E, d) ns uk = Inr o'" using engine_get_view [OF assms(1,6,3)] by blast
    with that L(3) show ?thesis by (cases o') force+
  qed
  moreover have "(uk, v) \<in> set (merge_local_wins L A) \<longleftrightarrow> lo \<le> uk \<and> uk < hi \<and>
        (Engine_get X (E, d) ns uk = Inr (Some v) \<or>
         Engine_get X (E, d) ns uk = Inr None \<and>
         (\<exists>e. newest (\<Union> (set ` set (unfetched_runs te aes))) (enc ns uk) e \<and> e_op e \<noteq> Delete \<and> e_value e = Some v))" for uk v
    unfolding merge_local_wins_spec(2) [OF L(2) A(3)] using none L(3) A(4) by meson
  ultimately show ?thesis using merge_local_wins_spec(1) [OF L(2) A(3)] A(2) assms(5) by metis
qed

end

section \<open>The guarantees over a store in a directory\<close>

text \<open>
  C13: A range scan of the tiered engine overlays the local data on the archive. It returns, in
  increasing order, every key of the range that the local engine has, with the local value, and
  every other key whose newest version over the archived segments that were not fetched is a
  put, with that value. The local engine is not changed: scans do not import segments. The start
  must not be behind the end; the local segments and the memtable must hold later versions in this
  order (\<open>lsn_ordered\<close>, as for range scans of the engine, which otherwise may differ from lookups);
  the archived data and the cache must be intact, and no two unfetched archived versions of a key
  may have the same LSN and different contents (\<open>lsn_det\<close>).
\<close>

theorem tiered_range_overlays_archive:
  assumes "zstd_ok X" "xor8_ok X" "ns_ok ns" "lo \<le> hi"
    and "te_local te = (E, d)" "engine_inv X E d ess" "lsn_ordered (ess @ [en_memtable E])"
    and "list_all2 (archived_as X (fsr_contents (te_remote te))) (te_archived te) aes"
    and "cache_agrees (fsr_contents (te_remote te)) te" "lsn_det (\<Union> (set ` set (unfetched_runs te aes)))"
  shows "\<exists>te' L. tiered_range X filesystem_remote ns lo hi te = (te', Inr L) \<and> te_local te' = (E, d) \<and> ksorted L \<and>
     (\<forall>uk v. (uk, v) \<in> set L \<longleftrightarrow> lo \<le> uk \<and> uk < hi \<and>
        (Engine_get X (E, d) ns uk = Inr (Some v) \<or>
         Engine_get X (E, d) ns uk = Inr None \<and>
         (\<exists>e. newest (\<Union> (set ` set (unfetched_runs te aes))) (enc ns uk) e \<and> e_op e \<noteq> Delete \<and> e_value e = Some v)))"
  using assms by (rule fsr.tiered_range_overlay)

text \<open>
  A database with the key 2 of namespace \<open>n\<close> deleted in the memtable, whose archive has one
  segment with an older put of that key.
\<close>

definition tombstone_memtable :: BTreeMemTable where
  "tombstone_memtable = [(enc [110] [2], \<lparr> e_key = enc [110] [2], e_value = None, e_op = Delete, e_lsn = 5,
     e_timestamp = 20, e_ttl = 0 \<rparr>)]"

definition sample_archive_hash :: bytes where
  "sample_archive_hash = blake3 sample_ext (dat_of sample_ext [run_of [7] 10])"

definition sample_tiered :: "dir TieredEngine" where
  "sample_tiered = (TieredEngine_new ((fst new_db)\<lparr>en_memtable := tombstone_memtable\<rparr>, snd new_db)
       (fst (fsr_upload_if_absent sample_archive_hash (dat_of sample_ext [run_of [7] 10]) [])))
     \<lparr>te_archived := [\<lparr> ar_hash = sample_archive_hash, ar_min_key = enc [110] [2], ar_max_key = enc [110] [2] \<rparr>]\<rparr>"

lemma sample_key_bound: "enc [110] [2] \<le> [0xFF, 0xFF]"
proof -
  have "u16_be (word_of_nat (length [110 :: byte])) = [0, 1]" by code_simp
  then show ?thesis by (simp add: enc_def)
qed

lemma sample_archived:
  "list_all2 (archived_as sample_ext (fsr_contents (te_remote sample_tiered))) (te_archived sample_tiered) [run_of [7] 10]"
  "fsr_contents (te_remote sample_tiered) sample_archive_hash = Some (dat_of sample_ext [run_of [7] 10])"
proof -
  have len: "length sample_archive_hash = 32"
    using sample_laws(3) by (simp add: sample_archive_hash_def blake3_ok_def)
  show c: "fsr_contents (te_remote sample_tiered) sample_archive_hash = Some (dat_of sample_ext [run_of [7] 10])"
    by (simp add: sample_tiered_def TieredEngine_new_def fsr_upload_if_absent_def Let_def fs_exists_def fs_append_def
        fsr_contents_def fs_read_def fs_write_def fs_remove_def)
  obtain dp rp where "segment_inv sample_ext dp rp (run_of [7] 10)"
    "fs_read dp (dat_path (sr_segment_id rp)) = Some (dat_of sample_ext [run_of [7] 10])"
    by (rule run_of_file [of "[7]" 10]) simp_all
  then have "dat_holds sample_ext (dat_of sample_ext [run_of [7] 10]) (run_of [7] 10)"
    by (metis segment_inv_dat option.inject)
  then show "list_all2 (archived_as sample_ext (fsr_contents (te_remote sample_tiered))) (te_archived sample_tiered) [run_of [7] 10]"
    using c len sample_key_bound
    by (auto simp: sample_tiered_def archived_as_def run_of_def)
qed

lemma sample_tiered_engine:
  "te_local sample_tiered = ((fst new_db)\<lparr>en_memtable := tombstone_memtable\<rparr>, snd new_db)"
  "engine_inv sample_ext ((fst new_db)\<lparr>en_memtable := tombstone_memtable\<rparr>) (snd new_db) []"
  "lsn_ordered ([] @ [en_memtable ((fst new_db)\<lparr>en_memtable := tombstone_memtable\<rparr>)])"
  "cache_agrees (fsr_contents (te_remote sample_tiered)) sample_tiered"
  "unfetched_runs sample_tiered [run_of [7] 10] = [run_of [7] 10]"
  "lsn_det (\<Union> (set ` set [run_of [7] 10]))"
  using new_db_inv [of sample_ext]
  by (simp_all add: sample_tiered_def TieredEngine_new_def engine_inv_def tombstone_memtable_def lsn_ordered_def
      cache_agrees_def unfetched_runs_def lsn_det_def run_of_def)

theorem tiered_range_overlays_archive_witness:
  "\<exists>te' L. tiered_range sample_ext filesystem_remote [110] [] [9] sample_tiered = (te', Inr L) \<and> ksorted L \<and>
     (\<forall>uk v. (uk, v) \<in> set L \<longrightarrow> [] \<le> uk \<and> uk < [9])"
  using tiered_range_overlays_archive [OF sample_laws(2,4) ns_ok_singleton _ sample_tiered_engine(1-3) sample_archived(1)
      sample_tiered_engine(4), of "[]" "[9]" 110] sample_tiered_engine(5,6) by fastforce

text \<open>
  C38: A deleted key comes back in a scan. When the newest local version of a key is a deletion and
  an archived segment still has a put of it, even one with an earlier timestamp, a lookup in the
  local engine finds nothing, but the scan of the tiered engine returns the archived value: it
  takes keys without a local value for keys that are not in the local engine.
\<close>

theorem deleted_key_reappears_in_tiered_range:
  assumes "zstd_ok X" "xor8_ok X" "ns_ok ns" "lo \<le> hi"
    and "te_local te = (E, d)" "engine_inv X E d ess" "lsn_ordered (ess @ [en_memtable E])"
    and "list_all2 (archived_as X (fsr_contents (te_remote te))) (te_archived te) aes"
    and "cache_agrees (fsr_contents (te_remote te)) te" "lsn_det (\<Union> (set ` set (unfetched_runs te aes)))"
    and "view (en_memtable E) ess (enc ns key) = Some tomb" "e_op tomb = Delete" "lo \<le> key" "key < hi"
    and "newest (\<Union> (set ` set (unfetched_runs te aes))) (enc ns key) old" "e_op old = Put" "e_value old = Some v"
    and "sint (e_timestamp old) < sint (e_timestamp tomb)"
  shows "Engine_get X (E, d) ns key = Inr None \<and>
     (\<exists>te' L. tiered_range X filesystem_remote ns lo hi te = (te', Inr L) \<and> (key, v) \<in> set L)"
proof -
  have "Engine_get X (E, d) ns key = Inr None"
    using engine_get_view [OF assms(1,6,3)] assms(11,12) by (simp add: visible_def)
  then show ?thesis
    using fsr.tiered_range_overlay [OF assms(1-10)] assms(13-17) by fastforce
qed

theorem deleted_key_reappears_in_tiered_range_witness:
  "Engine_get sample_ext (te_local sample_tiered) [110] [2] = Inr None \<and>
   (\<exists>te' L. tiered_range sample_ext filesystem_remote [110] [] [9] sample_tiered = (te', Inr L) \<and> ([2], [7]) \<in> set L)"
proof -
  let ?E = "(fst new_db)\<lparr>en_memtable := tombstone_memtable\<rparr>"
  obtain tomb where tomb: "view (en_memtable ?E) [] (enc [110] [2]) = Some tomb" "e_op tomb = Delete" "e_timestamp tomb = 20"
    by (simp add: view_def tombstone_memtable_def)
  obtain old where old: "newest (\<Union> (set ` set (unfetched_runs sample_tiered [run_of [7] 10]))) (enc [110] [2]) old"
    "e_op old = Put" "e_value old = Some [7]" "e_timestamp old = 10"
    unfolding sample_tiered_engine(5) by (auto simp: newest_def run_of_def)
  have "sint (e_timestamp old) < sint (e_timestamp tomb)" by (simp add: old(4) tomb(3))
  from deleted_key_reappears_in_tiered_range [OF sample_laws(2,4) ns_ok_singleton _ sample_tiered_engine(1-3) sample_archived(1)
      sample_tiered_engine(4) _ tomb(1,2) _ _ old(1-3) this, of "[]" "[9]"] sample_tiered_engine(1,5,6)
  show ?thesis by simp
qed

section \<open>The cache stays within its limit\<close>

lemma ephemeral_cache_inv:
  assumes "cache_inv te" "te_segment_cache_max_bytes te \<le> 4104 * CACHE_ITEMS"
    and "\<forall>h data. fsr_contents (te_remote te) h = Some data \<longrightarrow> 4104 \<le> length data"
  shows "cache_inv (fst (ephemeral_engine_for_range X filesystem_remote s e te))"
  using fsr.load_archived_cache_inv [OF assms, of "overlap_hashes s e te"] assms(1)
  by (auto simp: ephemeral_engine_for_range_def Let_def split: prod.split)

text \<open>
  The cache of downloaded segments accounts for its bytes. A scan keeps the invariant that the
  counter is the sum of the sizes in the cache, that no segment is held twice, and that the
  counter exceeds the limit only when a single segment larger than the limit is held. This
  needs a limit of at most \<open>65536 * 4104\<close> bytes: beyond it the cache may drop entries for their
  number, which the counter does not see.
\<close>

theorem scans_keep_cache_within_limit:
  assumes "cache_inv te" "te_segment_cache_max_bytes te \<le> 4104 * CACHE_ITEMS"
    and "\<forall>h data. fsr_contents (te_remote te) h = Some data \<longrightarrow> 4104 \<le> length data"
  shows "cache_inv (fst (tiered_range X filesystem_remote ns lo hi te)) \<and>
     cache_inv (fst (tiered_prefix X filesystem_remote ns p te))"
proof -
  have "cache_inv (fst (range_archived X filesystem_remote ns lo hi te))"
    using ephemeral_cache_inv [OF assms] assms(1)
    by (auto simp: range_archived_def split: sum.split prod.split option.split) (metis fst_conv)+
  moreover have "cache_inv (fst (prefix_archived X filesystem_remote ns p te))"
    using ephemeral_cache_inv [OF assms] assms(1)
    by (auto simp: prefix_archived_def split: sum.split prod.split option.split) (metis fst_conv)+
  ultimately show ?thesis using assms(1)
    by (auto simp: tiered_range_def tiered_prefix_def split: sum.split prod.split)
qed

theorem scans_keep_cache_within_limit_witness:
  "cache_inv (fst (tiered_range sample_ext filesystem_remote [110] [] [9] sample_tiered)) \<and>
   cache_inv (fst (tiered_prefix sample_ext filesystem_remote [110] [] sample_tiered))"
proof (rule scans_keep_cache_within_limit)
  show "cache_inv sample_tiered" "te_segment_cache_max_bytes sample_tiered \<le> 4104 * CACHE_ITEMS"
    by (simp_all add: sample_tiered_def TieredEngine_new_def cache_inv_def DEFAULT_SEGMENT_CACHE_MAX_BYTES_def CACHE_ITEMS_def)
  obtain dp rp where "segment_inv sample_ext dp rp (run_of [7] 10)"
    "fs_read dp (dat_path (sr_segment_id rp)) = Some (dat_of sample_ext [run_of [7] 10])"
    by (rule run_of_file [of "[7]" 10]) simp_all
  then have "dat_holds sample_ext (dat_of sample_ext [run_of [7] 10]) (run_of [7] 10)"
    by (metis segment_inv_dat option.inject)
  then have "4104 \<le> length (dat_of sample_ext [run_of [7] 10])" by (rule dat_holds_length(1) [OF sample_laws(2)])
  moreover have "fsr_contents (te_remote sample_tiered) h = Some data \<longrightarrow> data = dat_of sample_ext [run_of [7] 10]" for h data
    by (simp add: sample_tiered_def TieredEngine_new_def fsr_upload_if_absent_def Let_def fs_exists_def fs_append_def
        fsr_contents_def fs_read_def fs_write_def fs_remove_def)
  ultimately show "\<forall>h data. fsr_contents (te_remote sample_tiered) h = Some data \<longrightarrow> 4104 \<le> length data" by blast
qed

section \<open>Archiving, pruning and reading through\<close>

lemma prune_remote:
  "te_remote (fst (tiered_prune_local_segment X i te)) = te_remote te"
  "te_archived (fst (tiered_prune_local_segment X i te)) = te_archived te"
  "te_fetched (fst (tiered_prune_local_segment X i te)) = te_fetched te"
  by (simp_all add: tiered_prune_local_segment_def on_local_def split: prod.split)

lemma fsr_upload_if_absent_returns:
  obtains r' b where "fsr_upload_if_absent h data r = (r', Inr b)"
  by (cases "fs_exists r (seg_path h)") (auto simp: fsr_upload_if_absent_def Let_def)

lemma upload_with_retry_ok:
  assumes "data \<noteq> []"
  shows "upload_with_retry transient filesystem_remote h data r = (fst (fsr_upload_if_absent h data r), Inr ())"
proof -
  obtain r' b where u: "fsr_upload_if_absent h data r = (r', Inr b)" by (rule fsr_upload_if_absent_returns)
  then have "retry_transient transient (ro_upload_if_absent filesystem_remote h data) r = (r', Inr b)"
    by (intro retry_ok) (simp add: filesystem_remote_def)
  with assms u show ?thesis by (simp add: upload_with_retry_def)
qed

lemma fsr_upload_if_absent_contents:
  "fsr_contents (fst (fsr_upload_if_absent h data r)) =
     (if fsr_contents r h = None then (fsr_contents r)(h \<mapsto> data) else fsr_contents r)"
proof -
  obtain r' b where u: "fsr_upload_if_absent h data r = (r', Inr b)" by (rule fsr_upload_if_absent_returns)
  then have "ro_upload_if_absent filesystem_remote h data r = (r', Inr b)" by (simp add: filesystem_remote_def)
  from fsr.upload_if_absent_ok [OF this] u show ?thesis by simp
qed

lemma sidecars_contents:
  "set xs \<subseteq> {''idx'', ''xf'', ''meta''} \<Longrightarrow>
   fsr_contents (upload_sidecars filesystem_remote h i d xs r) = fsr_contents r"
proof (induction xs arbitrary: r)
  case (Cons x xs)
  then have "fsr_contents (fst (ro_upload_aux filesystem_remote h x b r)) = fsr_contents r" for b
    by (intro fsr.upload_aux_state) simp
  with Cons show ?case by (simp split: option.split)
qed simp

text \<open>What archiving one segment does to the remote store and to the list of archived segments.\<close>

lemma archive_one_effect:
  assumes "length (m_segment_hash meta) = 32" "fs_read (snd (te_local te)) (dat_path (m_segment_id meta)) = Some data" "data \<noteq> []"
  shows "\<exists>te'. archive_one X T transient filesystem_remote meta te = (te', Inr ()) \<and>
     fsr_contents (te_remote te') = (if fsr_contents (te_remote te) (m_segment_hash meta) = None
       then (fsr_contents (te_remote te))(m_segment_hash meta \<mapsto> data) else fsr_contents (te_remote te)) \<and>
     te_archived te' = te_archived te @ [\<lparr> ar_hash = m_segment_hash meta, ar_min_key = m_min_key meta, ar_max_key = m_max_key meta \<rparr>] \<and>
     te_fetched te' = te_fetched te \<and>
     (\<not> te_strip_text_after_archive te \<and> \<not> te_strip_vector_after_archive te \<longrightarrow> te_local te' = te_local te)"
  using assms fsr_upload_if_absent_contents [of "m_segment_hash meta" data "te_remote te"]
  by (simp add: archive_one_def Let_def upload_with_retry_ok sidecars_contents del: upload_sidecars.simps)

lemma fetch_and_import_applied:
  assumes "fsr_contents (te_remote te) h = Some data" "data \<noteq> []"
    and "import_segment X T data h (te_local te) = (st, Inr (Applied w s))"
  shows "\<exists>r. fetch_and_import X T transient filesystem_remote h te =
     (te\<lparr>te_remote := r, te_local := st, te_fetched := List.insert h (te_fetched te)\<rparr>, Inr ())"
proof -
  obtain r where "ro_download filesystem_remote h (te_remote te) = (r, Inr data)"
    using fsr.download_total [OF assms(1)] by (metis prod.collapse)
  then have "retry_transient transient (ro_download filesystem_remote h) (te_remote te) = (r, Inr data)" by (rule retry_ok)
  with assms(2,3) show ?thesis by (intro exI [of _ r]) (simp add: fetch_and_import_def Let_def)
qed

lemma fetch_and_import_contents:
  "fsr_contents (te_remote (fst (fetch_and_import X T transient filesystem_remote h te))) = fsr_contents (te_remote te)"
proof -
  have "fst \<circ> ro_download filesystem_remote h = id" by (simp add: fun_eq_iff filesystem_remote_def fsr_download_def)
  then have "fst (retry_transient transient (ro_download filesystem_remote h) r) = r" for r
    using retry_loop_steps [of MAX_RETRIES transient "ro_download filesystem_remote h" r] by (auto simp: retry_transient_def)
  then show ?thesis
    by (auto simp: fetch_and_import_def Let_def split: prod.splits sum.splits ImportResult.splits) (metis fst_conv)+
qed

lemma fetch_each_contents:
  "fsr_contents (te_remote (fst (fetch_each X T transient filesystem_remote hs te))) = fsr_contents (te_remote te)"
proof (induction hs arbitrary: te)
  case (Cons h hs)
  obtain te1 r where f: "fetch_and_import X T transient filesystem_remote h te = (te1, r)" by fastforce
  then have "fsr_contents (te_remote te1) = fsr_contents (te_remote te)" by (metis fetch_and_import_contents fst_conv)
  with f Cons.IH [of te1] show ?case by (simp split: sum.split EdgestoreError.split)
qed simp

lemma fetch_each_append:
  "fetch_each X T transient R hs te = (te1, Inr ()) \<Longrightarrow> fetch_each X T transient R (hs @ hs') te = fetch_each X T transient R hs' te1"
  by (induction hs arbitrary: te) (auto split: prod.splits sum.splits EdgestoreError.splits)

text \<open>
  C12: An archived value stays readable when the local copy is gone. After a segment was archived
  and its local copy was pruned, a lookup of one of its keys that finds no local version fetches
  the segment from the archive, imports it and returns the value the segment has (nothing for a
  deletion); the segment counts as fetched. Other archived segments may cover the key as well:
  they are tried first, and whether or not they can be fetched and imported, the lookup goes on
  to this one; it is only asked that none of them panics or brings a version of the key, and that
  the import is then within its limits (\<open>import_ready\<close>). The remote store must not hold other data
  under the hash, and the segment must not have been fetched before: a segment that is fetched, and
  then pruned again, is not fetched a second time (\<open>fetched_segment_is_not_fetched_again\<close>).
\<close>

theorem archived_value_stays_readable:
  assumes "zstd_ok X" "json_ok X" "xor8_ok X" "ns_ok ns"
    and "m_segment_hash meta = blake3 X data" "length (m_segment_hash meta) = 32" "data \<noteq> []"
    and "fs_read (snd (te_local te)) (dat_path (m_segment_id meta)) = Some data"
    and "fsr_contents (te_remote te) (m_segment_hash meta) \<in> {None, Some data}" "m_segment_hash meta \<notin> set (te_fetched te)"
    and "archive_one X T transient filesystem_remote meta te = (te1, Inr ())"
    and "te2 = fst (tiered_prune_local_segment X (m_segment_id meta) te1)" "Engine_get X (te_local te2) ns key = Inr None"
    and "fetch_each X T transient filesystem_remote (point_hashes (enc ns key) te) te2 = (te3, Inr ())" "te_local te3 = (E, d)"
    and "import_ready X T E d ess data es" "view (en_memtable E) ess (enc ns key) = None"
    and "map_of es (enc ns key) = Some e" "m_min_key meta \<le> enc ns key" "enc ns key \<le> m_max_key meta"
  shows "\<exists>te'. tiered_get X T transient filesystem_remote ns key te2 = (te', Inr (visible (Some e))) \<and>
     m_segment_hash meta \<in> set (te_fetched te')"
proof -
  let ?h = "m_segment_hash meta" and ?k = "enc ns key"
  from archive_one_effect [OF assms(6,8,7), of X T transient] assms(9,11)
  have te1: "fsr_contents (te_remote te1) ?h = Some data" "te_fetched te1 = te_fetched te"
    "te_archived te1 = te_archived te @ [\<lparr> ar_hash = ?h, ar_min_key = m_min_key meta, ar_max_key = m_max_key meta \<rparr>]"
    by auto
  have hashes: "point_hashes ?k te2 = point_hashes ?k te @ [?h]"
    using assms(10,19,20) by (simp add: point_hashes_def assms(12) prune_remote te1(2,3))
  obtain E' d' w s where imp: "import_segment X T data ?h (te_local te3) = ((E', d'), Inr (Applied w s))"
    "\<forall>ns key. ns_ok ns \<longrightarrow> Engine_get X (E', d') ns key = Inr
       (let k = enc ns key; inc = map_of es k; loc = view (en_memtable E) ess k
        in if inc \<noteq> None \<and> \<not> lww_applies loc (the inc) \<and> map_of (en_memtable E) k = None
           then visible inc else visible (lww_winner loc inc))"
    using import_get [OF assms(1-3,16)] by (auto simp: assms(5,15))
  have "fsr_contents (te_remote te3) = fsr_contents (te_remote te2)"
    using fetch_each_contents [of X T transient "point_hashes ?k te" te2] by (simp add: assms(14))
  then have "fsr_contents (te_remote te3) ?h = Some data" using te1(1) by (simp add: assms(12) prune_remote)
  from fetch_and_import_applied [OF this assms(7) imp(1)] obtain r where
    "fetch_and_import X T transient filesystem_remote ?h te3 =
       (te3\<lparr>te_remote := r, te_local := (E', d'), te_fetched := List.insert ?h (te_fetched te3)\<rparr>, Inr ())" by blast
  then have f: "fetch_each X T transient filesystem_remote (point_hashes ?k te2) te2 =
       (te3\<lparr>te_remote := r, te_local := (E', d'), te_fetched := List.insert ?h (te_fetched te3)\<rparr>, Inr ())"
    unfolding hashes fetch_each_append [OF assms(14)] by simp
  have "Engine_get X (E', d') ns key = Inr (visible (Some e))"
    using imp(2) assms(4,17,18) by (simp add: Let_def lww_winner_def)
  then show ?thesis using f by (simp add: tiered_get_def assms(13) encode_key_ok [OF assms(4)])
qed

text \<open>
  A segment that was fetched once is never fetched again: when its local copy is pruned later, a
  lookup of its keys returns that there is no value.
\<close>

lemma fetched_segment_is_not_fetched_again:
  assumes "ns_ok ns" "Engine_get X (te_local te) ns key = Inr None"
    and "\<forall>a \<in> set (te_archived te). ar_min_key a \<le> enc ns key \<and> enc ns key \<le> ar_max_key a \<longrightarrow> ar_hash a \<in> set (te_fetched te)"
  shows "tiered_get X T transient R ns key te = (te, Inr None)"
proof -
  have "point_hashes (enc ns key) te = []" using assms(3) by (auto simp: point_hashes_def filter_empty_conv)
  then show ?thesis using assms(2) by (simp add: tiered_get_def encode_key_ok [OF assms(1)])
qed

text \<open>Pruning the only segment of a database whose log is empty.\<close>

lemma prune_only_segment:
  assumes "durable X E d [es]" "wal_inv X E d [] []" "en_memtable E = []" "segment_ids (en_segment_store E) = [i]"
    and "entry_ok X (removal i)"
  shows "\<exists>s d'. prune_local_segment X i (E, d) = ((E\<lparr>en_segment_store := s\<rparr>, d'), Inr ()) \<and>
     durable X (E\<lparr>en_segment_store := s\<rparr>) d' [] \<and> list_segment_metas s = [] \<and>
     ss_next_segment_id s = ss_next_segment_id (en_segment_store E)"
proof -
  let ?s = "en_segment_store E"
  have inv: "engine_inv X E d [es]" using assms(1) by (simp add: durable_def)
  obtain m' d1 where rm: "remove_segments X [i] (ss_manifest ?s) d = ((m', d1), Inr ())"
    using remove_segments_ok [of "[i]" X "ss_manifest ?s" d] assms(5) by auto
  define s where "s = ?s\<lparr>ss_manifest := m', ss_readers := filter (\<lambda>r. sr_segment_id r \<noteq> i) (ss_readers ?s)\<rparr>"
  have p: "prune_local_segment X i (E, d) = ((E\<lparr>en_segment_store := s\<rparr>, delete_segment_files i d1), Inr ())"
    by (simp add: prune_local_segment_def remove_segment_def rm s_def)
  have "store_ok X (delete_segment_files i d1) s (other_runs [i] ?s [es])"
    using remove_from_store_ok [OF engine_invD(1) [OF inv] rm] by (simp add: s_def)
  then have ok: "store_ok X (delete_segment_files i d1) s []" by (simp add: other_runs_def assms(4))
  then have "map m_segment_id (mf_segments (ss_manifest s)) = []" by (auto simp: store_ok_def store_inv_def)
  then have metas: "list_segment_metas s = []" by (simp add: list_segment_metas_def list_segments_def)
  have wf: "fs_wf (delete_segment_files i d1)"
    using assms(2) rm by (auto simp: wal_inv_def remove_segments_def write_framed_entry_def Let_def delete_segment_files_def
        split: prod.splits sum.splits if_splits)
  have path: "mf_path (ss_manifest ?s) = manifest_path" using engine_invD(1) [OF inv] by (simp add: store_ok_def)
  have read: "fs_read (delete_segment_files i d1) q = fs_read d q" if "is_wal_name q" for q
  proof -
    have "q \<noteq> manifest_path" using that not_wal_names by metis
    moreover have "\<forall>x. q \<noteq> segment_file i x" using that wal_not_segment by metis
    ultimately show ?thesis
      using delete_files_frame [of "[i]" q d1] remove_segments_frame [OF rm, of q] path by simp
  qed
  have "list_wal_files (delete_segment_files i d1) = list_wal_files d"
    using assms(2) by (intro list_wal_files_eqI [OF _ wf]) (simp_all add: wal_inv_def read)
  then have wal: "wal_inv X (E\<lparr>en_segment_store := s\<rparr>) (delete_segment_files i d1) [] []"
    using assms(2) wf read [OF engine_invD(4) [OF inv]] by (simp add: wal_inv_def)
  have "engine_inv X (E\<lparr>en_segment_store := s\<rparr>) (delete_segment_files i d1) []"
    using ok engine_invD [OF inv] by (simp add: engine_inv_def) (simp add: s_def)
  with wal have "durable X (E\<lparr>en_segment_store := s\<rparr>) (delete_segment_files i d1) []"
    unfolding durable_def by (intro conjI exI [of _ "[]"]) (simp_all add: replayed_def assms(3))
  with p metas show ?thesis by (intro exI [of _ s] exI [of _ "delete_segment_files i d1"]) (simp add: s_def)
qed

text \<open>
  The example: a database with one segment that is archived to the directory \<open>r\<close> and then pruned.
\<close>

lemma sample_archiving:
  obtains E d meta E' d' where "durable sample_ext E d [run_of [8] 20]"
    "m_segment_hash meta = blake3 sample_ext (dat_of sample_ext [run_of [8] 20])" "length (m_segment_hash meta) = 32"
    "m_min_key meta = enc [110] [2]" "m_max_key meta = enc [110] [2]"
    "fs_read (snd (te_local (TieredEngine_new (E, d) (r :: dir)))) (dat_path (m_segment_id meta)) = Some (dat_of sample_ext [run_of [8] 20])"
    "te_local (fst (tiered_prune_local_segment sample_ext (m_segment_id meta)
       (fst (archive_one sample_ext T (\<lambda>_. False) filesystem_remote meta (TieredEngine_new (E, d) r))))) = (E', d')"
    "import_ready sample_ext T E' d' [] (dat_of sample_ext [run_of [8] 20]) (run_of [8] 20)"
    "view (en_memtable E') [] (enc [110] [2]) = None" "list_segment_metas (en_segment_store E') = []"
proof -
  obtain E d meta where E: "durable sample_ext E d [run_of [8] 20]" "wal_inv sample_ext E d [] []" "names_ok E"
     "en_memtable E = []" "en_lsn_counter E = 0" "ss_next_segment_id (en_segment_store E) = 1" "list_segment_metas (en_segment_store E) = [meta]" "m_segment_id meta = 0"
     "m_segment_hash meta = blake3 sample_ext (dat_of sample_ext [run_of [8] 20])"
     "m_min_key meta = enc [110] [2]" "m_max_key meta = enc [110] [2]"
     "fs_read d (dat_path 0) = Some (dat_of sample_ext [run_of [8] 20])" "segment_ids (en_segment_store E) = [0]"
    using flushed_db_parts by (elim exE conjE) (rule that)
  have len: "length (m_segment_hash meta) = 32" using sample_laws(3) by (simp add: E(9) blake3_ok_def)
  have ne: "dat_of sample_ext [run_of [8] 20] \<noteq> []" by (simp add: dat_of_def dat_header_def)
  let ?te = "TieredEngine_new (E, d) r"
  have dat: "fs_read (snd (te_local ?te)) (dat_path (m_segment_id meta)) = Some (dat_of sample_ext [run_of [8] 20])"
    using E(8,12) by (simp add: TieredEngine_new_def)
  obtain te1 where a: "archive_one sample_ext T (\<lambda>_. False) filesystem_remote meta ?te = (te1, Inr ())" "te_local te1 = (E, d)"
    using archive_one_effect [OF len dat ne, of sample_ext T "\<lambda>_. False"] by (auto simp: TieredEngine_new_def)
  have "entry_ok sample_ext (removal 0)" by (simp add: entry_ok_def removal_def sample_ext_def put_entry_def put_bool_def)
  then obtain s d' where p: "prune_local_segment sample_ext 0 (E, d) = ((E\<lparr>en_segment_store := s\<rparr>, d'), Inr ())"
     "durable sample_ext (E\<lparr>en_segment_store := s\<rparr>) d' []" "list_segment_metas s = []"
     "ss_next_segment_id s = ss_next_segment_id (en_segment_store E)"
    using prune_only_segment [OF E(1,2,4,13)] by blast
  have loc: "te_local (fst (tiered_prune_local_segment sample_ext (m_segment_id meta)
       (fst (archive_one sample_ext T (\<lambda>_. False) filesystem_remote meta ?te)))) = (E\<lparr>en_segment_store := s\<rparr>, d')"
    by (simp add: a E(8) tiered_prune_local_segment_def on_local_def p(1))
  have ready: "import_ready sample_ext T (E\<lparr>en_segment_store := s\<rparr>) d' [] (dat_of sample_ext [run_of [8] 20]) (run_of [8] 20)"
    by (rule sample_import_ready [OF p(2)]) (use E(3) in \<open>simp_all add: names_ok_def p(3,4) E(5,6)\<close>)
  show ?thesis
    by (rule that [OF E(1,9) len E(10,11) dat loc ready]) (simp_all add: view_def E(4) p(3))
qed

theorem archived_value_stays_readable_witness:
  "\<exists>te meta te'. tiered_get sample_ext sample_clock (\<lambda>_. False) filesystem_remote [110] [2]
      (fst (tiered_prune_local_segment sample_ext (m_segment_id meta)
        (fst (archive_one sample_ext sample_clock (\<lambda>_. False) filesystem_remote meta te)))) = (te', Inr (Some [8])) \<and>
     m_segment_hash meta \<in> set (te_fetched te')"
proof -
  obtain E d meta E' d' where S: "durable sample_ext E d [run_of [8] 20]"
    "m_segment_hash meta = blake3 sample_ext (dat_of sample_ext [run_of [8] 20])" "length (m_segment_hash meta) = 32"
    "m_min_key meta = enc [110] [2]" "m_max_key meta = enc [110] [2]"
    "fs_read (snd (te_local (TieredEngine_new (E, d) ([] :: dir)))) (dat_path (m_segment_id meta)) = Some (dat_of sample_ext [run_of [8] 20])"
    "te_local (fst (tiered_prune_local_segment sample_ext (m_segment_id meta)
       (fst (archive_one sample_ext sample_clock (\<lambda>_. False) filesystem_remote meta (TieredEngine_new (E, d) []))))) = (E', d')"
    "import_ready sample_ext sample_clock E' d' [] (dat_of sample_ext [run_of [8] 20]) (run_of [8] 20)"
    "view (en_memtable E') [] (enc [110] [2]) = None"
    by (rule sample_archiving [of "[]" sample_clock])
  have ne: "dat_of sample_ext [run_of [8] 20] \<noteq> []" by (simp add: dat_of_def dat_header_def)
  obtain te1 where a: "archive_one sample_ext sample_clock (\<lambda>_. False) filesystem_remote meta (TieredEngine_new (E, d) []) = (te1, Inr ())"
    using archive_one_effect [OF S(3,6) ne, of sample_ext sample_clock "\<lambda>_. False"] by auto
  have e: "map_of (run_of [8] 20) (enc [110] [2]) = Some (snd (hd (run_of [8] 20)))"
    "visible (Some (snd (hd (run_of [8] 20)))) = Some [8]"
    by (simp_all add: run_of_def visible_def)
  have fresh: "fsr_contents (te_remote (TieredEngine_new (E, d) [])) h = None" "te_fetched (TieredEngine_new (E, d) ([] :: dir)) = []"
    "te_archived (TieredEngine_new (E, d) ([] :: dir)) = []" for h
    by (simp_all add: TieredEngine_new_def fsr_contents_def fs_read_def)
  have key: "m_min_key meta \<le> enc [110] [2]" "enc [110] [2] \<le> m_max_key meta" by (simp_all add: S(4,5))
  let ?te2 = "fst (tiered_prune_local_segment sample_ext (m_segment_id meta) te1)"
  have loc: "te_local ?te2 = (E', d')" using S(7) unfolding a by simp
  have "engine_inv sample_ext E' d' []" using S(8) by (auto simp: import_ready_def durable_def)
  from engine_get_view [OF sample_laws(2) this ns_ok_singleton, of 110 "[2]"] have miss: "Engine_get sample_ext (te_local ?te2) [110] [2] = Inr None"
    by (simp add: loc S(9) visible_def)
  have "point_hashes (enc [110] [2]) (TieredEngine_new (E, d) ([] :: dir)) = []" by (simp add: point_hashes_def fresh(3))
  then have others: "fetch_each sample_ext sample_clock (\<lambda>_. False) filesystem_remote
      (point_hashes (enc [110] [2]) (TieredEngine_new (E, d) ([] :: dir))) ?te2 = (?te2, Inr ())" by simp
  have new: "fsr_contents (te_remote (TieredEngine_new (E, d) [])) (m_segment_hash meta) \<in> {None, Some (dat_of sample_ext [run_of [8] 20])}"
    "m_segment_hash meta \<notin> set (te_fetched (TieredEngine_new (E, d) ([] :: dir)))" using fresh by simp_all
  from archived_value_stays_readable [OF sample_laws(2,5,4) ns_ok_singleton S(2,3) ne S(6) new a refl miss others loc S(8,9) e(1) key]
  obtain te' where "tiered_get sample_ext sample_clock (\<lambda>_. False) filesystem_remote [110] [2] ?te2 = (te', Inr (Some [8]))"
    "m_segment_hash meta \<in> set (te_fetched te')" unfolding e(2) by blast
  moreover have "te1 = fst (archive_one sample_ext sample_clock (\<lambda>_. False) filesystem_remote meta (TieredEngine_new (E, d) []))"
    by (simp add: a)
  ultimately show ?thesis by blast
qed

lemma torn_contents:
  assumes "upload_if_absent_crash h data r r'" "fsr_contents r h = None" "fsr_contents r' h = Some torn"
  shows "\<exists>n. torn = take n data"
  using assms(1) unfolding upload_if_absent_crash_def
proof (elim disjE)
  assume "r' = fst (fsr_upload_if_absent h data r)"
  then have "torn = take (length data) data" using assms(2,3) by (simp add: fsr_upload_if_absent_contents)
  then show ?thesis by blast
qed (use assms(2,3) in \<open>auto simp: fsr_contents_def fs_append_def\<close>)

text \<open>
  C39: An interrupted archive run loses the segment. When a crash cut the upload of a segment short,
  the next run takes the torn file for the segment: it reports success and lists the segment as
  archived. After the local copy was pruned, a lookup of a key of the segment downloads the torn
  file, refuses it for its hash, and returns that there is no value, without an error.
\<close>

theorem interrupted_archive_loses_segment:
  assumes "zstd_ok X" "ns_ok ns"
    and "m_segment_hash meta = blake3 X data" "length (m_segment_hash meta) = 32"
    and "fs_read (snd (te_local te)) (dat_path (m_segment_id meta)) = Some data"
    and "fsr_contents (te_remote te) (m_segment_hash meta) = None"
    and "upload_if_absent_crash (m_segment_hash meta) data (te_remote te) r"
    and "fsr_contents r (m_segment_hash meta) = Some torn" "torn \<noteq> []" "blake3 X torn \<noteq> blake3 X data"
    and "\<forall>a \<in> set (te_archived te). \<not> (ar_min_key a \<le> enc ns key \<and> enc ns key \<le> ar_max_key a)"
    and "archive_one X T transient filesystem_remote meta (te\<lparr>te_remote := r\<rparr>) = (te1, res)"
    and "te2 = fst (tiered_prune_local_segment X (m_segment_id meta) te1)" "te_local te2 = (E, d)"
    and "engine_inv X E d ess" "view (en_memtable E) ess (enc ns key) = None"
    and "m_segment_hash meta \<notin> set (map m_segment_hash (list_segment_metas (en_segment_store E)))"
  shows "res = Inr () \<and> m_segment_hash meta \<in> ar_hash ` set (te_archived te1) \<and>
     (\<exists>te'. tiered_get X T transient filesystem_remote ns key te2 = (te', Inr None))"
proof -
  let ?h = "m_segment_hash meta" and ?te = "te\<lparr>te_remote := r\<rparr>"
  have ne: "data \<noteq> []" using torn_contents [OF assms(7,6,8)] assms(9) by auto
  have dat: "fs_read (snd (te_local ?te)) (dat_path (m_segment_id meta)) = Some data" using assms(5) by simp
  from archive_one_effect [OF assms(4) dat ne, of X T transient] assms(8,12)
  have te1: "res = Inr ()" "fsr_contents (te_remote te1) ?h = Some torn" "te_fetched te1 = te_fetched te"
    "te_archived te1 = te_archived te @ [\<lparr> ar_hash = ?h, ar_min_key = m_min_key meta, ar_max_key = m_max_key meta \<rparr>]"
    by auto
  have miss: "Engine_get X (E, d) ns key = Inr None"
    using engine_get_view [OF assms(1,15,2)] assms(16) by (simp add: visible_def)
  have hashes: "point_hashes (enc ns key) te2 \<in> {[], [?h]}"
    using assms(11) by (auto simp: point_hashes_def assms(13) prune_remote te1(3,4) filter_empty_conv)
  have imp: "import_segment X T torn ?h (E, d) = ((E, d), Inr HashMismatch)"
    using assms(3,10,17) by (simp add: import_segment_def list_ex_iff image_iff) metis
  obtain r' where "ro_download filesystem_remote ?h (te_remote te2) = (r', Inr torn)"
    using fsr.download_total [of "te_remote te2" ?h torn] te1(2) by (simp add: assms(13) prune_remote) (metis prod.collapse)
  then have "retry_transient transient (ro_download filesystem_remote ?h) (te_remote te2) = (r', Inr torn)" by (rule retry_ok)
  then have "fetch_and_import X T transient filesystem_remote ?h te2 =
      (te2\<lparr>te_remote := r'\<rparr>\<lparr>te_local := (E, d)\<rparr>, Inl (ReplicationError ''hash mismatch for segment''))"
    using assms(9,14) imp by (simp add: fetch_and_import_def Let_def)
  then show ?thesis using te1(1,4) miss hashes
    by (auto simp: tiered_get_def assms(14) encode_key_ok [OF assms(2)] Let_def)
qed

lemma sample_magic: "u32_le SEGMENT_FILE_MAGIC = [71, 83, 68, 69]"
proof -
  have four: "(4 :: nat) = Suc (Suc (Suc (Suc 0)))" by simp
  show ?thesis unfolding u32_le_def SEGMENT_FILE_MAGIC_def four nat_to_le.simps by simp
qed

theorem interrupted_archive_loses_segment_witness:
  "\<exists>te meta r te1 te'. upload_if_absent_crash (m_segment_hash meta) (dat_of sample_ext [run_of [8] 20]) (te_remote te) r \<and>
     archive_one sample_ext sample_clock (\<lambda>_. False) filesystem_remote meta (te\<lparr>te_remote := r\<rparr>) = (te1, Inr ()) \<and>
     tiered_get sample_ext sample_clock (\<lambda>_. False) filesystem_remote [110] [2]
       (fst (tiered_prune_local_segment sample_ext (m_segment_id meta) te1)) = (te', Inr None)"
proof -
  let ?data = "dat_of sample_ext [run_of [8] 20]"
  define r where "r h = fs_append (seg_path h) (take 1 ?data) (fs_write (seg_path h) [] ([] :: dir))" for h
  obtain E d meta E' d' where S: "durable sample_ext E d [run_of [8] 20]" "m_segment_hash meta = blake3 sample_ext ?data"
    "length (m_segment_hash meta) = 32" "m_min_key meta = enc [110] [2]" "m_max_key meta = enc [110] [2]"
    "fs_read (snd (te_local (TieredEngine_new (E, d) (r (blake3 sample_ext ?data))))) (dat_path (m_segment_id meta)) = Some ?data"
    "te_local (fst (tiered_prune_local_segment sample_ext (m_segment_id meta)
       (fst (archive_one sample_ext sample_clock (\<lambda>_. False) filesystem_remote meta
          (TieredEngine_new (E, d) (r (blake3 sample_ext ?data))))))) = (E', d')"
    "import_ready sample_ext sample_clock E' d' [] ?data (run_of [8] 20)" "view (en_memtable E') [] (enc [110] [2]) = None"
    "list_segment_metas (en_segment_store E') = []"
    by (rule sample_archiving [of "r (blake3 sample_ext ?data)" sample_clock])
  let ?te = "TieredEngine_new (E, d) ([] :: dir)" and ?r = "r (m_segment_hash meta)"
  have hd: "take 1 ?data \<noteq> []" "length (take 1 ?data) = 1" "1 < length ?data" "?data ! 1 = 83"
    using sample_magic by (simp_all add: dat_of_def dat_header_def)
  have none: "fsr_contents (te_remote ?te) (m_segment_hash meta) = None" "te_archived ?te = []"
    by (simp_all add: TieredEngine_new_def fsr_contents_def fs_read_def)
  have te: "?te\<lparr>te_remote := ?r\<rparr> = TieredEngine_new (E, d) (r (blake3 sample_ext ?data))"
    by (simp add: TieredEngine_new_def S(2))
  have torn: "upload_if_absent_crash (m_segment_hash meta) ?data (te_remote ?te) ?r" "fsr_contents ?r (m_segment_hash meta) = Some (take 1 ?data)"
    using torn_upload_stays [OF none(1) hd(3)] by (simp_all add: r_def TieredEngine_new_def)
  have "blake3 sample_ext (take 1 ?data) ! 1 \<noteq> blake3 sample_ext ?data ! 1"
    using hd by (simp add: sample_ext_def nth_append)
  then have ne: "blake3 sample_ext (take 1 ?data) \<noteq> blake3 sample_ext ?data" by metis
  obtain te1 res where a: "archive_one sample_ext sample_clock (\<lambda>_. False) filesystem_remote meta (?te\<lparr>te_remote := ?r\<rparr>) = (te1, res)"
    by fastforce
  have dat: "fs_read (snd (te_local ?te)) (dat_path (m_segment_id meta)) = Some ?data" using S(6) by (simp add: TieredEngine_new_def)
  have inv: "engine_inv sample_ext E' d' []" using S(8) by (auto simp: import_ready_def durable_def)
  have loc: "te_local (fst (tiered_prune_local_segment sample_ext (m_segment_id meta) te1)) = (E', d')"
    using S(7) a unfolding te by simp
  from interrupted_archive_loses_segment [OF sample_laws(2) ns_ok_singleton S(2,3) dat none(1) torn hd(1) ne _ a refl loc inv S(9)] none(2) S(10)
  have "res = Inr ()" "\<exists>te'. tiered_get sample_ext sample_clock (\<lambda>_. False) filesystem_remote [110] [2]
      (fst (tiered_prune_local_segment sample_ext (m_segment_id meta) te1)) = (te', Inr None)" by simp_all
  with torn(1) a show ?thesis by blast
qed

end
