(* ===== verification/Float32.thy ===== *)
theory Float32
  imports Main "HOL-Library.Multiset" Prelude
begin

text \<open>
  What the text and vector code uses of \<open>f32\<close>: its operations are the fields of \<open>f32_ops\<close>, and all
  that is assumed of them (\<open>f32_ok\<close>) is that \<open>partial_cmp\<close> orders the numbers that are not NaN by
  their value. \<open>total_cmp_f32\<close> is the comparison of \<open>edgestore/src/vector/distance.rs\<close>. The end of the theory is
  the stable sort of the standard library, for a comparison function.
\<close>

datatype cmp = Less | Equal | Greater

record 'f f32_ops =
  f_of_u64 :: "u64 \<Rightarrow> 'f"
  f_of_u32 :: "u32 \<Rightarrow> 'f"
  f_lit :: "int \<Rightarrow> int \<Rightarrow> 'f"
  f_add :: "'f \<Rightarrow> 'f \<Rightarrow> 'f"
  f_sub :: "'f \<Rightarrow> 'f \<Rightarrow> 'f"
  f_mul :: "'f \<Rightarrow> 'f \<Rightarrow> 'f"
  f_div :: "'f \<Rightarrow> 'f \<Rightarrow> 'f"
  f_ln :: "'f \<Rightarrow> 'f"
  f_eq :: "'f \<Rightarrow> 'f \<Rightarrow> bool"
  f_is_nan :: "'f \<Rightarrow> bool"
  f_partial_cmp :: "'f \<Rightarrow> 'f \<Rightarrow> cmp option"

definition compare_with :: "('a \<Rightarrow> 'b::linorder) \<Rightarrow> 'a \<Rightarrow> 'a \<Rightarrow> cmp" where
  "compare_with f a b = (if f a < f b then Less else if f a = f b then Equal else Greater)"

definition f32_ok :: "'f f32_ops \<Rightarrow> bool" where
  "f32_ok F \<longleftrightarrow> (\<exists>val :: 'f \<Rightarrow> int. \<forall>a b. f_partial_cmp F a b =
     (if f_is_nan F a \<or> f_is_nan F b then None else Some (compare_with val a b)))"

definition total_cmp_f32 :: "'f f32_ops \<Rightarrow> 'f \<Rightarrow> 'f \<Rightarrow> cmp" where
  "total_cmp_f32 F a b =
     (case f_partial_cmp F a b of
        Some ord \<Rightarrow> ord
      | None \<Rightarrow>
          if f_is_nan F a then (if f_is_nan F b then Equal else Greater) else Less)"

definition cmp_then :: "cmp \<Rightarrow> cmp \<Rightarrow> cmp" where
  "cmp_then a b = (if a = Equal then b else a)"

text \<open>The comparison is a linear order on the values, with all NaNs equal and above every number.\<close>

lemma total_cmp_laws:
  assumes "f32_ok F"
  shows "total_cmp_f32 F b a = Greater \<longleftrightarrow> total_cmp_f32 F a b = Less"
    and "total_cmp_f32 F b a = Equal \<longleftrightarrow> total_cmp_f32 F a b = Equal"
    and "total_cmp_f32 F a b \<noteq> Greater \<Longrightarrow> total_cmp_f32 F b c \<noteq> Greater \<Longrightarrow> total_cmp_f32 F a c \<noteq> Greater"
    and "total_cmp_f32 F a b = Equal \<Longrightarrow> total_cmp_f32 F b c = total_cmp_f32 F a c"
proof -
  from assms obtain val :: "'a \<Rightarrow> int" where
    "\<forall>a b. f_partial_cmp F a b = (if f_is_nan F a \<or> f_is_nan F b then None else Some (compare_with val a b))"
    unfolding f32_ok_def by (elim exE)
  then have v: "total_cmp_f32 F a b =
       (if f_is_nan F a then (if f_is_nan F b then Equal else Greater)
        else if f_is_nan F b then Less else compare_with val a b)" for a b
    by (simp add: total_cmp_f32_def)
  show "total_cmp_f32 F b a = Greater \<longleftrightarrow> total_cmp_f32 F a b = Less"
    "total_cmp_f32 F b a = Equal \<longleftrightarrow> total_cmp_f32 F a b = Equal"
    unfolding v by (auto simp: compare_with_def)
  show "total_cmp_f32 F a b \<noteq> Greater \<Longrightarrow> total_cmp_f32 F b c \<noteq> Greater \<Longrightarrow> total_cmp_f32 F a c \<noteq> Greater"
    unfolding v by (auto simp: compare_with_def split: if_splits)
  show "total_cmp_f32 F a b = Equal \<Longrightarrow> total_cmp_f32 F b c = total_cmp_f32 F a c"
    unfolding v by (auto simp: compare_with_def split: if_splits)
qed

section \<open>Sorting with a comparison function\<close>

fun insert_by :: "('a \<Rightarrow> 'a \<Rightarrow> cmp) \<Rightarrow> 'a \<Rightarrow> 'a list \<Rightarrow> 'a list" where
  "insert_by c x [] = [x]"
| "insert_by c x (y # ys) = (if c x y = Greater then y # insert_by c x ys else x # y # ys)"

definition sort_by :: "('a \<Rightarrow> 'a \<Rightarrow> cmp) \<Rightarrow> 'a list \<Rightarrow> 'a list" where
  "sort_by c xs = foldr (insert_by c) xs []"

lemma mset_insert_by [simp]: "mset (insert_by c x ys) = add_mset x (mset ys)"
  by (induction ys) auto

lemma mset_sort_by [simp]: "mset (sort_by c xs) = mset xs"
  by (induction xs) (simp_all add: sort_by_def)

lemma set_sort_by [simp]: "set (sort_by c xs) = set xs"
  by (metis mset_sort_by set_mset_mset)

lemma length_sort_by [simp]: "length (sort_by c xs) = length xs"
  by (metis mset_sort_by size_mset)

definition linear_on :: "'a set \<Rightarrow> ('a \<Rightarrow> 'a \<Rightarrow> cmp) \<Rightarrow> bool" where
  "linear_on A c \<longleftrightarrow>
     (\<forall>x \<in> A. \<forall>y \<in> A. c x y = Greater \<longrightarrow> c y x \<noteq> Greater) \<and>
     (\<forall>x \<in> A. \<forall>y \<in> A. \<forall>z \<in> A. c x y \<noteq> Greater \<longrightarrow> c y z \<noteq> Greater \<longrightarrow> c x z \<noteq> Greater) \<and>
     (\<forall>x \<in> A. \<forall>y \<in> A. c x y \<noteq> Greater \<longrightarrow> c y x \<noteq> Greater \<longrightarrow> x = y)"

lemma set_insert_by [simp]: "set (insert_by c x ys) = insert x (set ys)"
  by (metis mset_insert_by set_mset_add_mset_insert set_mset_mset)

lemma sorted_insert_by:
  assumes "linear_on A c" "x \<in> A" "set ys \<subseteq> A" "sorted_wrt (\<lambda>a b. c a b \<noteq> Greater) ys"
  shows "sorted_wrt (\<lambda>a b. c a b \<noteq> Greater) (insert_by c x ys)"
  using assms(3,4)
proof (induction ys)
  case (Cons y ys)
  show ?case
  proof (cases "c x y = Greater")
    case True
    have "y \<in> A" using Cons.prems(1) by simp
    with True assms(1,2) have "c y x \<noteq> Greater" unfolding linear_on_def by blast
    with True Cons show ?thesis by auto
  next
    case False
    have "c x z \<noteq> Greater" if "z \<in> set ys" for z
    proof -
      have "y \<in> A" "z \<in> A" "c y z \<noteq> Greater" using Cons.prems that by auto
      with False assms(1,2) show ?thesis unfolding linear_on_def by blast
    qed
    with False Cons show ?thesis by simp
  qed
qed simp

lemma sorted_sort_by:
  "linear_on (set xs) c \<Longrightarrow> sorted_wrt (\<lambda>a b. c a b \<noteq> Greater) (sort_by c xs)"
proof -
  assume lin: "linear_on (set xs) c"
  have "set ys \<subseteq> set xs \<Longrightarrow> sorted_wrt (\<lambda>a b. c a b \<noteq> Greater) (sort_by c ys)" for ys
  proof (induction ys)
    case (Cons y ys)
    have "set (sort_by c ys) \<subseteq> set xs" using Cons.prems by simp
    with sorted_insert_by [OF lin, of y "sort_by c ys"] Cons show ?case by (simp add: sort_by_def)
  qed (simp add: sort_by_def)
  then show ?thesis by blast
qed

lemma sorted_wrt_unique:
  assumes "sorted_wrt R xs" "sorted_wrt R ys" "mset xs = mset ys"
    and "\<And>x y. x \<in> set xs \<Longrightarrow> y \<in> set xs \<Longrightarrow> R x y \<Longrightarrow> R y x \<Longrightarrow> x = y"
  shows "xs = ys"
  using assms
proof (induction xs arbitrary: ys)
  case (Cons x xs)
  then obtain y ys' where ys: "ys = y # ys'" by (cases ys) auto
  have sets: "set ys = set (x # xs)" using Cons.prems(3) by (metis set_mset_mset)
  have "x = y"
  proof (rule ccontr)
    assume "x \<noteq> y"
    moreover from this have "y \<in> set xs" "x \<in> set ys'" using sets ys by auto
    ultimately have "R x y" "R y x" "y \<in> set (x # xs)" using Cons.prems(1,2) ys by auto
    with Cons.prems(4) [of x y] \<open>x \<noteq> y\<close> show False by auto
  qed
  with Cons.IH [of ys'] Cons.prems ys show ?case by auto
qed simp

lemma sort_by_unique:
  assumes "linear_on (set xs) c" "mset xs = mset ys"
  shows "sort_by c xs = sort_by c ys"
proof (rule sorted_wrt_unique)
  have "set xs = set ys" using assms(2) by (metis set_mset_mset)
  then show "sorted_wrt (\<lambda>a b. c a b \<noteq> Greater) (sort_by c xs)" "sorted_wrt (\<lambda>a b. c a b \<noteq> Greater) (sort_by c ys)"
    using assms(1) by (simp_all add: sorted_sort_by)
  show "mset (sort_by c xs) = mset (sort_by c ys)" using assms(2) by simp
  show "x = y" if "x \<in> set (sort_by c xs)" "y \<in> set (sort_by c xs)" "c x y \<noteq> Greater" "c y x \<noteq> Greater" for x y
    using assms(1) that unfolding linear_on_def set_sort_by by blast
qed

end
