(* ===== verification/VectorTypes.thy ===== *)
theory VectorTypes
  imports Types Float32 "HOL-Library.Signed_Division"
begin

text \<open>
  Vectors, \<open>edgestore/src/vector/types.rs\<close>, \<open>vector/api.rs\<close> and \<open>vector/distance.rs\<close>: records and their
  byte format, and the distances. The operations on floating-point numbers beyond those of
  \<open>f32_ops\<close>, and the horizontal sum of an \<open>f32x8\<close> of the \<open>wide\<close> crate, are the fields of \<open>vec_ops\<close>.
\<close>

unbundle bit_operations_syntax

section \<open>Records\<close>

datatype Dtype = F32 | F16 | I8

fun element_size :: "Dtype \<Rightarrow> usize" where
  "element_size F32 = 4"
| "element_size F16 = 2"
| "element_size I8 = 1"

fun dtype_byte :: "Dtype \<Rightarrow> byte" where
  "dtype_byte F32 = 0"
| "dtype_byte F16 = 1"
| "dtype_byte I8 = 2"

definition dtype_try_from :: "byte \<Rightarrow> Dtype res" where
  "dtype_try_from v =
     (if v = 0 then Inr F32 else if v = 1 then Inr F16 else if v = 2 then Inr I8
      else Inl (InvalidOperation ''unknown dtype value''))"

record VectorRecord =
  vr_dims :: u16
  vr_dtype :: Dtype
  vr_data :: bytes

definition encode_vector_record :: "VectorRecord \<Rightarrow> bytes res" where
  "encode_vector_record r =
     (let expected = unat (vr_dims r) * element_size (vr_dtype r)
      in if length (vr_data r) \<noteq> expected then Inl (DimensionMismatch expected (length (vr_data r)))
         else Inr (u16_be (vr_dims r) @ [dtype_byte (vr_dtype r)] @ vr_data r))"

definition decode_vector_record :: "bytes \<Rightarrow> VectorRecord res" where
  "decode_vector_record bs =
     (if length bs < 3 then Inl (CorruptData ''vector record too short'')
      else
        let dims = u16_of_be (take 2 bs) in
        and_then (dtype_try_from (bs ! 2)) (\<lambda>dtype.
          let data = drop 3 bs; expected = unat dims * element_size dtype
          in if length data \<noteq> expected then Inl (DimensionMismatch expected (length data))
             else Inr \<lparr> vr_dims = dims, vr_dtype = dtype, vr_data = data \<rparr>))"

definition vector_namespace :: "bytes \<Rightarrow> bytes" where
  "vector_namespace ns = lit ''__vec__'' @ ns"

lemma dtype_roundtrip [simp]: "dtype_try_from (dtype_byte t) = Inr t"
  by (cases t) (simp_all add: dtype_try_from_def)

lemma decode_encode_vector:
  "length (vr_data r) = unat (vr_dims r) * element_size (vr_dtype r) \<Longrightarrow>
   \<exists>bs. encode_vector_record r = Inr bs \<and> decode_vector_record bs = Inr r"
  by (simp add: encode_vector_record_def decode_vector_record_def nth_append)

lemma decode_vector_inv:
  assumes "decode_vector_record bs = Inr r"
  shows "length (vr_data r) = unat (vr_dims r) * element_size (vr_dtype r)"
  using assms by (auto simp: decode_vector_record_def Let_def and_then_Inr_iff split: if_splits)

section \<open>Distances\<close>

datatype Metric = Cosine | L2 | DotProduct

record ('f, 'd) vec_ops =
  vo_f32 :: "'f f32_ops"
  vo_of_i8 :: "byte \<Rightarrow> 'f"
  vo_from_bits :: "u32 \<Rightarrow> 'f"
  vo_powi2 :: "int \<Rightarrow> 'f"
  vo_infinity :: 'f
  vo_nan :: 'f
  vo_neg :: "'f \<Rightarrow> 'f"
  vo_sqrt :: "'f \<Rightarrow> 'f"
  vo_reduce_add :: "'f list \<Rightarrow> 'f"
  vo_d_of_u64 :: "u64 \<Rightarrow> 'd"
  vo_d_of_usize :: "usize \<Rightarrow> 'd"
  vo_d_lit :: "int \<Rightarrow> int \<Rightarrow> 'd"
  vo_d_mul :: "'d \<Rightarrow> 'd \<Rightarrow> 'd"
  vo_d_div :: "'d \<Rightarrow> 'd \<Rightarrow> 'd"
  vo_d_neg :: "'d \<Rightarrow> 'd"
  vo_d_ln :: "'d \<Rightarrow> 'd"
  vo_d_max :: "'d \<Rightarrow> 'd \<Rightarrow> 'd"
  vo_d_floor :: "'d \<Rightarrow> usize"

definition f16_to_f32 :: "('f, 'd) vec_ops \<Rightarrow> u16 \<Rightarrow> 'f" where
  "f16_to_f32 N bits =
     (let F = vo_f32 N;
          sign = drop_bit 15 bits AND 1;
          exp = uint (drop_bit 10 bits AND 0x1F);
          mant = ucast (bits AND 0x3FF) :: u32
      in if exp = 0 then
           if mant = 0 then (if sign = 1 then vo_neg N (f_lit F 0 1) else f_lit F 0 1)
           else
             let val = f_mul F (f_of_u32 F mant) (vo_powi2 N (- 24))
             in if sign = 1 then vo_neg N val else val
         else if exp = 31 then
           if mant = 0 then (if sign = 1 then vo_neg N (vo_infinity N) else vo_infinity N)
           else vo_nan N
         else
           let exp = exp - 15 + 127
           in vo_from_bits N (push_bit 31 (ucast sign) OR push_bit 23 (word_of_int exp) OR push_bit 13 mant))"

function chunks_exact :: "nat \<Rightarrow> 'a list \<Rightarrow> 'a list list" where
  "chunks_exact n xs = (if n = 0 \<or> length xs < n then [] else take n xs # chunks_exact n (drop n xs))"
  by pat_completeness auto
termination
  by (relation "measure (\<lambda>(n, xs). length xs)") auto

declare chunks_exact.simps [simp del]

definition decode_to_f32 :: "('f, 'd) vec_ops \<Rightarrow> bytes \<Rightarrow> Dtype \<Rightarrow> 'f list res" where
  "decode_to_f32 N bs dtype =
     (case dtype of
        F32 \<Rightarrow>
          if \<not> 4 dvd length bs then Inl (CorruptData ''f32 data length not multiple of 4'')
          else Inr (map (\<lambda>chunk. vo_from_bits N (u32_of_le chunk)) (chunks_exact 4 bs))
      | F16 \<Rightarrow>
          if \<not> 2 dvd length bs then Inl (CorruptData ''f16 data length not multiple of 2'')
          else Inr (map (\<lambda>chunk. f16_to_f32 N (u16_of_le chunk)) (chunks_exact 2 bs))
      | I8 \<Rightarrow> Inr (map (vo_of_i8 N) bs))"

text \<open>The sum \<open>acc += f(q, c)\<close> over the elements from \<open>i\<close> to \<open>n\<close>.\<close>

definition accumulate :: "'f f32_ops \<Rightarrow> ('f \<Rightarrow> 'f \<Rightarrow> 'f) \<Rightarrow> 'f list \<Rightarrow> 'f list \<Rightarrow> nat \<Rightarrow> nat \<Rightarrow> 'f \<Rightarrow> 'f" where
  "accumulate F f query candidate i n acc = fold (\<lambda>i acc. f_add F acc (f (query ! i) (candidate ! i))) [i..<n] acc"

definition finish :: "('f, 'd) vec_ops \<Rightarrow> Metric \<Rightarrow> (('f \<Rightarrow> 'f \<Rightarrow> 'f) \<Rightarrow> 'f) \<Rightarrow> 'f" where
  "finish N metric sum_of =
     (let F = vo_f32 N; zero = f_lit F 0 1
      in case metric of
           Cosine \<Rightarrow>
             let dot = sum_of (f_mul F); norm_q = sum_of (\<lambda>q c. f_mul F q q); norm_c = sum_of (\<lambda>q c. f_mul F c c);
                 denom = f_mul F (vo_sqrt N norm_q) (vo_sqrt N norm_c)
             in if f_eq F denom zero then zero else f_sub F (f_lit F 1 1) (f_div F dot denom)
         | L2 \<Rightarrow> vo_sqrt N (sum_of (\<lambda>q c. let diff = f_sub F q c in f_mul F diff diff))
         | DotProduct \<Rightarrow> vo_neg N (sum_of (f_mul F)))"

definition distance_scalar :: "('f, 'd) vec_ops \<Rightarrow> 'f list \<Rightarrow> 'f list \<Rightarrow> Metric \<Rightarrow> 'f res" where
  "distance_scalar N query candidate metric =
     (if length query \<noteq> length candidate then Inl (Panic ''dimension mismatch'')
      else
        let F = vo_f32 N
        in Inr (finish N metric (\<lambda>f. accumulate F f query candidate 0 (length query) (f_lit F 0 1))))"

text \<open>
  The vectorised version accumulates eight lanes over the whole chunks, sums the lanes and goes
  on with the remaining elements.
\<close>

definition simd_accumulate :: "('f, 'd) vec_ops \<Rightarrow> ('f \<Rightarrow> 'f \<Rightarrow> 'f) \<Rightarrow> 'f list \<Rightarrow> 'f list \<Rightarrow> 'f" where
  "simd_accumulate N f query candidate =
     (let F = vo_f32 N; n = length query; chunks = n div 8;
          acc = fold (\<lambda>i acc. map2 (f_add F) acc
                  (map2 f (take 8 (drop (i * 8) query)) (take 8 (drop (i * 8) candidate))))
                [0..<chunks] (replicate 8 (f_lit F 0 1))
      in accumulate F f query candidate (chunks * 8) n (vo_reduce_add N acc))"

definition distance_simd_f32 :: "('f, 'd) vec_ops \<Rightarrow> 'f list \<Rightarrow> 'f list \<Rightarrow> Metric \<Rightarrow> 'f res" where
  "distance_simd_f32 N query candidate metric =
     (if length query \<noteq> length candidate then Inl (Panic ''dimension mismatch'')
      else Inr (finish N metric (\<lambda>f. simd_accumulate N f query candidate)))"

definition distance :: "('f, 'd) vec_ops \<Rightarrow> bytes \<Rightarrow> bytes \<Rightarrow> Dtype \<Rightarrow> Metric \<Rightarrow> 'f res" where
  "distance N query candidate dtype metric =
     and_then (decode_to_f32 N query dtype) (\<lambda>q.
     and_then (decode_to_f32 N candidate dtype) (\<lambda>c.
       if length q \<noteq> length c then Inl (DimensionMismatch (length q) (length c))
       else if dtype = F32 then distance_simd_f32 N q c metric
       else distance_scalar N q c metric))"

section \<open>Distances are defined on vectors of the same shape\<close>

lemma length_chunks_exact: "n > 0 \<Longrightarrow> length (chunks_exact n xs) = length xs div n"
proof (induction n xs rule: chunks_exact.induct)
  case (1 n xs)
  then show ?case
    by (subst chunks_exact.simps) (auto simp: le_div_geq)
qed

lemma decode_to_f32_length:
  "length bs = d * element_size t \<Longrightarrow> \<exists>fs. decode_to_f32 N bs t = Inr fs \<and> length fs = d"
  by (cases t) (simp_all add: decode_to_f32_def length_chunks_exact)

definition dist_of :: "('f, 'd) vec_ops \<Rightarrow> bytes \<Rightarrow> bytes \<Rightarrow> Dtype \<Rightarrow> Metric \<Rightarrow> 'f" where
  "dist_of N query candidate t metric = (case distance N query candidate t metric of Inr d \<Rightarrow> d)"

lemma distance_defined:
  assumes "length query = d * element_size t" "length candidate = d * element_size t"
  shows "distance N query candidate t metric = Inr (dist_of N query candidate t metric)"
proof -
  obtain q c where "decode_to_f32 N query t = Inr q" "length q = d" "decode_to_f32 N candidate t = Inr c" "length c = d"
    using decode_to_f32_length assms by metis
  then have "\<exists>x. distance N query candidate t metric = Inr x"
    by (simp add: distance_def distance_simd_f32_def distance_scalar_def Let_def)
  then show ?thesis unfolding dist_of_def by (elim exE) simp
qed

end
