(* ===== verification/BinHeap.thy ===== *)
theory BinHeap
  imports Float32
begin

text \<open>
  \<open>BinaryHeap\<close> of the standard library for a comparison function: \<open>peek\<close> and \<open>pop\<close> give a greatest
  element. A heap is the list of its elements; among equal elements the first one of the list is
  taken, and where the order of equal elements can be seen the definitions that use heaps take
  the order of the list as a parameter.
\<close>

definition bh_max :: "('a \<Rightarrow> 'a \<Rightarrow> cmp) \<Rightarrow> 'a \<Rightarrow> 'a list \<Rightarrow> 'a" where
  "bh_max c x xs = fold (\<lambda>y b. if c b y = Less then y else b) xs x"

fun bh_peek :: "('a \<Rightarrow> 'a \<Rightarrow> cmp) \<Rightarrow> 'a list \<Rightarrow> 'a option" where
  "bh_peek c [] = None"
| "bh_peek c (x # xs) = Some (bh_max c x xs)"

definition bh_pop :: "('a \<Rightarrow> 'a \<Rightarrow> cmp) \<Rightarrow> 'a list \<Rightarrow> ('a \<times> 'a list) option" where
  "bh_pop c h = (case bh_peek c h of None \<Rightarrow> None | Some x \<Rightarrow> Some (x, remove1 x h))"

definition bh_push :: "'a \<Rightarrow> 'a list \<Rightarrow> 'a list" where
  "bh_push x h = h @ [x]"

section \<open>Comparison functions that are total orders\<close>

definition cmp_ok :: "('a \<Rightarrow> 'a \<Rightarrow> cmp) \<Rightarrow> bool" where
  "cmp_ok c \<longleftrightarrow> (\<forall>x y. c y x = Greater \<longleftrightarrow> c x y = Less) \<and>
     (\<forall>x y z. c x y \<noteq> Greater \<longrightarrow> c y z \<noteq> Greater \<longrightarrow> c x z \<noteq> Greater)"

lemma cmp_ok_flip: "cmp_ok c \<Longrightarrow> c y x = Greater \<longleftrightarrow> c x y = Less"
  unfolding cmp_ok_def by blast

lemma cmp_ok_trans: "cmp_ok c \<Longrightarrow> c x y \<noteq> Greater \<Longrightarrow> c y z \<noteq> Greater \<Longrightarrow> c x z \<noteq> Greater"
  unfolding cmp_ok_def by blast

lemma cmp_ok_refl: "cmp_ok c \<Longrightarrow> c x x = Equal"
  using cmp_ok_flip [of c x x] by (cases "c x x") auto

lemma cmp_ok_total: "cmp_ok c \<Longrightarrow> c x y \<noteq> Greater \<or> c y x \<noteq> Greater"
  using cmp_ok_flip [of c] by (metis cmp.distinct(3))

lemma cmp_ok_total_cmp: "f32_ok F \<Longrightarrow> cmp_ok (total_cmp_f32 F)"
  unfolding cmp_ok_def using total_cmp_laws [of F] by blast

lemma cmp_ok_compare: "cmp_ok (compare_with f)"
  by (auto simp: cmp_ok_def compare_with_def)

lemma cmp_ok_image: "cmp_ok c \<Longrightarrow> cmp_ok (\<lambda>a b. c (f a) (f b))"
  unfolding cmp_ok_def by blast

lemma cmp_ok_reverse: "cmp_ok c \<Longrightarrow> cmp_ok (\<lambda>a b. c b a)"
  unfolding cmp_ok_def by (metis cmp.distinct(3) cmp.exhaust)

lemma cmp_ok_then:
  assumes "cmp_ok c" "cmp_ok e"
  shows "cmp_ok (\<lambda>a b. cmp_then (c a b) (e a b))"
proof -
  have eq: "c x y = Equal \<Longrightarrow> c y x = Equal" for x y
    using cmp_ok_flip [OF assms(1)] by (metis cmp.exhaust cmp.distinct)
  have t: "cmp_then (c x z) (e x z) \<noteq> Greater"
    if "cmp_then (c x y) (e x y) \<noteq> Greater" "cmp_then (c y z) (e y z) \<noteq> Greater" for x y z
  proof -
    have "c x y \<noteq> Greater" "c y z \<noteq> Greater" using that by (auto simp: cmp_then_def split: if_splits)
    then have xz: "c x z \<noteq> Greater" by (rule cmp_ok_trans [OF assms(1)])
    show ?thesis
    proof (cases "c x z = Equal")
      case True
      then have zx: "c z x \<noteq> Greater" using eq by fastforce
      have "c x y = Equal"
        using cmp_ok_trans [OF assms(1) \<open>c y z \<noteq> Greater\<close> zx] \<open>c x y \<noteq> Greater\<close> cmp_ok_flip [OF assms(1), of y x] cmp.exhaust by metis
      moreover have "c y z = Equal"
        using cmp_ok_trans [OF assms(1) zx \<open>c x y \<noteq> Greater\<close>] \<open>c y z \<noteq> Greater\<close> cmp_ok_flip [OF assms(1), of z y] cmp.exhaust by metis
      ultimately show ?thesis using that True cmp_ok_trans [OF assms(2)] by (auto simp: cmp_then_def)
    qed (use xz in \<open>simp add: cmp_then_def\<close>)
  qed
  have f: "cmp_then (c y x) (e y x) = Greater \<longleftrightarrow> cmp_then (c x y) (e x y) = Less" for x y
    using eq cmp_ok_flip [OF assms(1), of y x] cmp_ok_flip [OF assms(2), of y x]
    by (auto simp: cmp_then_def)
  show ?thesis unfolding cmp_ok_def using t f by blast
qed

section \<open>Laws of heaps and of sorting\<close>

lemma bh_max_in: "bh_max c x xs \<in> set (x # xs)"
  by (induction xs arbitrary: x) (auto simp: bh_max_def)

lemma bh_max_greatest:
  assumes "cmp_ok c" "y \<in> set (x # xs)"
  shows "c y (bh_max c x xs) \<noteq> Greater"
  using assms(2)
proof (induction xs arbitrary: x y)
  case Nil
  then show ?case using cmp_ok_refl [OF assms(1)] by (simp add: bh_max_def)
next
  case (Cons z zs)
  define b where "b = (if c x z = Less then z else x)"
  have e: "bh_max c x (z # zs) = bh_max c b zs" by (simp add: bh_max_def b_def)
  have "c x b \<noteq> Greater" "c z b \<noteq> Greater"
    using cmp_ok_refl [OF assms(1)] cmp_ok_flip [OF assms(1), of z x] by (auto simp: b_def)
  moreover have "c b (bh_max c b zs) \<noteq> Greater" by (rule Cons.IH) simp
  ultimately have "c x (bh_max c b zs) \<noteq> Greater" "c z (bh_max c b zs) \<noteq> Greater"
    using cmp_ok_trans [OF assms(1)] by blast+
  moreover have "c w (bh_max c b zs) \<noteq> Greater" if "w \<in> set zs" for w
    by (rule Cons.IH) (use that in simp)
  ultimately show ?case using Cons.prems unfolding e by auto
qed

lemma bh_peek_None [simp]: "bh_peek c h = None \<longleftrightarrow> h = []"
  by (cases h) auto

lemma bh_peek_Some: "bh_peek c h = Some x \<Longrightarrow> x \<in> set h"
  using bh_max_in [of c] by (cases h) auto

lemma bh_peek_greatest: "cmp_ok c \<Longrightarrow> bh_peek c h = Some x \<Longrightarrow> y \<in> set h \<Longrightarrow> c y x \<noteq> Greater"
  using bh_max_greatest [of c] by (cases h) auto

lemma bh_pop_Nil [simp]: "bh_pop c [] = None"
  by (simp add: bh_pop_def)

lemma bh_pop_None [simp]: "bh_pop c h = None \<longleftrightarrow> h = []"
  by (cases h) (simp_all add: bh_pop_def)

lemma bh_pop_Some:
  assumes "bh_pop c h = Some (x, h')"
  shows "bh_peek c h = Some x" "x \<in> set h" "mset h = add_mset x (mset h')" "length h = Suc (length h')"
proof -
  show p: "bh_peek c h = Some x" using assms by (auto simp: bh_pop_def split: option.splits)
  then show x: "x \<in> set h" by (rule bh_peek_Some)
  show m: "mset h = add_mset x (mset h')" using assms x p by (auto simp: bh_pop_def)
  show "length h = Suc (length h')" using arg_cong [OF m, of size] by simp
qed

lemma bh_pop_set: "bh_pop c h = Some (x, h') \<Longrightarrow> set h = insert x (set h')"
  using bh_pop_Some(3) [of c h x h'] by (metis set_mset_add_mset_insert set_mset_mset)

lemma bh_push_set [simp]: "set (bh_push x h) = insert x (set h)" "length (bh_push x h) = Suc (length h)"
  by (auto simp: bh_push_def)

lemma sorted_insert_cmp:
  assumes "cmp_ok c" "sorted_wrt (\<lambda>a b. c a b \<noteq> Greater) ys"
  shows "sorted_wrt (\<lambda>a b. c a b \<noteq> Greater) (insert_by c x ys)"
  using assms(2)
proof (induction ys)
  case (Cons y ys)
  show ?case
  proof (cases "c x y = Greater")
    case True
    then have "c y x \<noteq> Greater" using cmp_ok_total [OF assms(1)] by blast
    with True Cons show ?thesis by auto
  next
    case False
    then have "c x z \<noteq> Greater" if "z \<in> set ys" for z
      using Cons.prems that cmp_ok_trans [OF assms(1)] by auto
    with False Cons show ?thesis by simp
  qed
qed simp

lemma sorted_sort_cmp: "cmp_ok c \<Longrightarrow> sorted_wrt (\<lambda>a b. c a b \<noteq> Greater) (sort_by c xs)"
  by (induction xs) (simp_all add: sort_by_def sorted_insert_cmp)

lemma sort_by_id: "sorted_wrt (\<lambda>a b. c a b \<noteq> Greater) xs \<Longrightarrow> sort_by c xs = xs"
proof (induction xs)
  case (Cons x xs)
  then have "sort_by c (x # xs) = insert_by c x xs" by (simp add: sort_by_def)
  with Cons.prems show ?case by (cases xs) auto
qed (simp add: sort_by_def)

end
