(* ===== verification/Hnsw.thy ===== *)
theory Hnsw
  imports VectorTypes BinHeap "HOL-Library.AList"
begin

text \<open>
  The graph index for approximate nearest neighbours, \<open>edgestore/src/vector/hnsw.rs\<close>: nodes with their
  neighbours per layer, the beam search of one layer, insertion with the selection and pruning of
  neighbours, and the format of the sidecar file. Two heaps hold \<open>Candidate\<close>s, which their
  comparison orders linearly; the order in which a heap gives its elements at the end is the
  parameter \<open>Q\<close>. An index out of range is a panic.
\<close>

record HnswNode =
  hn_vector_id :: bytes
  hn_vector_data :: bytes
  hn_neighbors :: "usize list list"

record HnswIndex =
  hx_nodes :: "HnswNode list"
  hx_entry_point :: usize
  hx_max_layer :: usize
  hx_m :: usize
  hx_ef_construction :: usize
  hx_dims :: u16
  hx_dtype :: Dtype
  hx_metric :: Metric
  hx_rng_seed :: u64

record 'f Candidate =
  cd_node_idx :: usize
  cd_distance :: 'f

definition candidate_cmp :: "'f f32_ops \<Rightarrow> 'f Candidate \<Rightarrow> 'f Candidate \<Rightarrow> cmp" where
  "candidate_cmp F a b =
     cmp_then (total_cmp_f32 F (cd_distance a) (cd_distance b)) (compare_with id (cd_node_idx a) (cd_node_idx b))"

text \<open>The operator \<open>>\<close> on \<open>f32\<close>.\<close>

definition f_gt :: "'f f32_ops \<Rightarrow> 'f \<Rightarrow> 'f \<Rightarrow> bool" where
  "f_gt F a b \<longleftrightarrow> f_partial_cmp F a b = Some Greater"

section \<open>Construction parameters and random layers\<close>

definition HnswIndex_new :: "u16 \<Rightarrow> Dtype \<Rightarrow> Metric \<Rightarrow> HnswIndex" where
  "HnswIndex_new dims dtype metric =
     \<lparr> hx_nodes = [], hx_entry_point = 0, hx_max_layer = 0, hx_m = 16, hx_ef_construction = 100,
       hx_dims = dims, hx_dtype = dtype, hx_metric = metric, hx_rng_seed = 12345 \<rparr>"

definition with_params :: "usize \<Rightarrow> usize \<Rightarrow> HnswIndex \<Rightarrow> HnswIndex" where
  "with_params m ef_construction ix = ix\<lparr>hx_m := m, hx_ef_construction := ef_construction\<rparr>"

definition with_seed :: "u64 \<Rightarrow> HnswIndex \<Rightarrow> HnswIndex" where
  "with_seed seed ix = ix\<lparr>hx_rng_seed := seed\<rparr>"

definition next_rng :: "('f, 'd) vec_ops \<Rightarrow> HnswIndex \<Rightarrow> HnswIndex \<times> 'd" where
  "next_rng N ix =
     (let seed = hx_rng_seed ix * 6364136223846793005 + 1442695040888963407
      in (ix\<lparr>hx_rng_seed := seed\<rparr>, vo_d_div N (vo_d_of_u64 N seed) (vo_d_of_u64 N (- 1))))"

text \<open>
  The cast to \<open>usize\<close> saturates. For \<open>m = 1\<close> the logarithm is 0, \<open>m_l\<close> is infinite and almost every
  layer is the largest \<open>usize\<close>. For every other \<open>m\<close> the layer is at most 33, because \<open>r\<close> is at least
  \<open>1e-10\<close> and \<open>- ln 1e-10 / ln 2\<close> is below 34; as the operations on \<open>f64\<close> are a parameter, this bound
  of their result is written out.
\<close>

definition USIZE_MAX :: nat where "USIZE_MAX = 2 ^ 64 - 1"

definition MAX_RANDOM_LAYER :: nat where "MAX_RANDOM_LAYER = 33"

definition layer_for_node :: "('f, 'd) vec_ops \<Rightarrow> HnswIndex \<Rightarrow> HnswIndex \<times> usize" where
  "layer_for_node N ix =
     (let m_l = vo_d_div N (vo_d_lit N 1 1) (vo_d_ln N (vo_d_of_usize N (hx_m ix)))
      in case next_rng N ix of
           (ix', r) \<Rightarrow>
             let r = vo_d_max N r (vo_d_lit N 1 10000000000);
                 layer = vo_d_floor N (vo_d_mul N (vo_d_neg N (vo_d_ln N r)) m_l)
             in (ix', min layer (if hx_m ix = 1 then USIZE_MAX else MAX_RANDOM_LAYER)))"

lemma layer_for_node_bound: "layer_for_node N ix = (ix', layer) \<Longrightarrow> hx_m ix \<noteq> 1 \<Longrightarrow> layer \<le> MAX_RANDOM_LAYER"
  by (auto simp: layer_for_node_def Let_def split: prod.splits)

section \<open>The beam search of one layer\<close>

definition distance_to_node :: "('f, 'd) vec_ops \<Rightarrow> HnswIndex \<Rightarrow> bytes \<Rightarrow> usize \<Rightarrow> 'f res" where
  "distance_to_node N ix query node_idx =
     (if node_idx < length (hx_nodes ix)
      then distance N query (hn_vector_data (hx_nodes ix ! node_idx)) (hx_dtype ix) (hx_metric ix)
      else Inl (Panic ''index out of bounds''))"

type_synonym 'f beam = "usize list \<times> 'f Candidate list \<times> 'f Candidate list"

fun enter_points :: "('f, 'd) vec_ops \<Rightarrow> HnswIndex \<Rightarrow> bytes \<Rightarrow> usize list \<Rightarrow> 'f beam \<Rightarrow> 'f beam res" where
  "enter_points N ix query [] st = Inr st"
| "enter_points N ix query (ep # eps) (visited, candidates, results) =
     and_then (distance_to_node N ix query ep) (\<lambda>dist.
       let c = \<lparr> cd_node_idx = ep, cd_distance = dist \<rparr>
       in enter_points N ix query eps (List.insert ep visited, bh_push c candidates, bh_push c results))"

definition push_result :: "'f f32_ops \<Rightarrow> usize \<Rightarrow> 'f Candidate \<Rightarrow> 'f Candidate list \<Rightarrow> 'f Candidate list" where
  "push_result F ef c results =
     (let results = bh_push c results
      in if length results > ef
         then case bh_pop (candidate_cmp F) results of None \<Rightarrow> results | Some (_, rest) \<Rightarrow> rest
         else results)"

fun expand :: "('f, 'd) vec_ops \<Rightarrow> HnswIndex \<Rightarrow> bytes \<Rightarrow> usize \<Rightarrow> usize list \<Rightarrow> 'f beam \<Rightarrow> 'f beam res" where
  "expand N ix query ef [] st = Inr st"
| "expand N ix query ef (n # ns) (visited, candidates, results) =
     (if n \<in> set visited then expand N ix query ef ns (visited, candidates, results)
      else and_then (distance_to_node N ix query n) (\<lambda>dist.
        let c = \<lparr> cd_node_idx = n, cd_distance = dist \<rparr>
        in expand N ix query ef ns (n # visited, bh_push c candidates, push_result (vo_f32 N) ef c results)))"

definition unvisited :: "HnswIndex \<Rightarrow> usize list \<Rightarrow> nat" where
  "unvisited ix visited = card ({..<length (hx_nodes ix)} - set visited)"

lemma expand_unvisited:
  "expand N ix query ef ns (visited, candidates, results) = Inr (visited', candidates', results') \<Longrightarrow>
   unvisited ix visited' + length candidates' = unvisited ix visited + length candidates"
proof (induction ns arbitrary: visited candidates results)
  case (Cons n ns)
  show ?case
  proof (cases "n \<in> set visited")
    case False
    let ?c = "\<lambda>dist. \<lparr> cd_node_idx = n, cd_distance = dist \<rparr>"
    have "and_then (distance_to_node N ix query n) (\<lambda>dist. expand N ix query ef ns
        (n # visited, bh_push (?c dist) candidates, push_result (vo_f32 N) ef (?c dist) results)) = Inr (visited', candidates', results')"
      using Cons.prems False by (simp only: expand.simps Let_def if_False)
    then obtain dist where n: "distance_to_node N ix query n = Inr dist"
      and e: "expand N ix query ef ns (n # visited, bh_push (?c dist) candidates, push_result (vo_f32 N) ef (?c dist) results)
        = Inr (visited', candidates', results')"
      unfolding and_then_Inr_iff by blast
    from n have n: "n < length (hx_nodes ix)" by (simp add: distance_to_node_def split: if_splits)
    have "{..<length (hx_nodes ix)} - set visited = insert n ({..<length (hx_nodes ix)} - set (n # visited))"
      using False n by auto
    moreover have "finite ({..<length (hx_nodes ix)} - set (n # visited))" "n \<notin> {..<length (hx_nodes ix)} - set (n # visited)"
      by simp_all
    ultimately have "unvisited ix visited = Suc (unvisited ix (n # visited))"
      unfolding unvisited_def by (metis card_insert_disjoint)
    with Cons.IH [OF e] show ?thesis by simp
  qed (use Cons in simp)
qed simp

function search_loop ::
  "('f, 'd) vec_ops \<Rightarrow> HnswIndex \<Rightarrow> bytes \<Rightarrow> usize \<Rightarrow> usize \<Rightarrow> 'f beam \<Rightarrow> 'f Candidate list res" where
  "search_loop N ix query ef layer (visited, candidates, results) =
     (case bh_pop (\<lambda>a b. candidate_cmp (vo_f32 N) b a) candidates of
        None \<Rightarrow> Inr results
      | Some (cand, candidates) \<Rightarrow>
          if (case bh_peek (candidate_cmp (vo_f32 N)) results of
                None \<Rightarrow> False | Some worst \<Rightarrow> f_gt (vo_f32 N) (cd_distance cand) (cd_distance worst))
          then Inr results
          else if \<not> cd_node_idx cand < length (hx_nodes ix) then Inl (Panic ''index out of bounds'')
          else
            let neighbors = hn_neighbors (hx_nodes ix ! cd_node_idx cand)
            in case (if layer < length neighbors then expand N ix query ef (neighbors ! layer) (visited, candidates, results)
                     else Inr (visited, candidates, results)) of
                 Inl e \<Rightarrow> Inl e
               | Inr st \<Rightarrow> search_loop N ix query ef layer st)"
  by pat_completeness auto
termination
proof (relation "measure (\<lambda>(N, ix, query, ef, layer, visited, candidates, results). unvisited ix visited + length candidates)",
    goal_cases)
  case (2 N ix query ef layer visited candidates results cc cand candidates1 neighbors st)
  obtain visited2 candidates2 results2 where st: "st = (visited2, candidates2, results2)" by (rule prod_cases3)
  have "unvisited ix visited2 + length candidates2 = unvisited ix visited + length candidates1"
    using 2(6) expand_unvisited unfolding st by (force split: if_splits)
  moreover have "length candidates = Suc (length candidates1)" using 2(1,2) bh_pop_Some(4) by fast
  ultimately show ?case by (simp add: st)
qed auto

declare search_loop.simps [simp del]

definition by_distance :: "'f f32_ops \<Rightarrow> ('a \<times> 'f) \<Rightarrow> ('a \<times> 'f) \<Rightarrow> cmp" where
  "by_distance F a b = total_cmp_f32 F (snd a) (snd b)"

definition search_layer ::
  "('f, 'd) vec_ops \<Rightarrow> ('f Candidate list \<Rightarrow> 'f Candidate list) \<Rightarrow> HnswIndex \<Rightarrow> bytes \<Rightarrow> usize list \<Rightarrow> usize \<Rightarrow> usize \<Rightarrow>
   (usize \<times> 'f) list res" where
  "search_layer N Q ix query entry_points ef layer =
     and_then (enter_points N ix query entry_points ([], [], [])) (\<lambda>st.
     and_then (search_loop N ix query ef layer st) (\<lambda>results.
       Inr (sort_by (by_distance (vo_f32 N)) (map (\<lambda>c. (cd_node_idx c, cd_distance c)) (Q results)))))"

section \<open>Searching\<close>

fun descend ::
  "('f, 'd) vec_ops \<Rightarrow> ('f Candidate list \<Rightarrow> 'f Candidate list) \<Rightarrow> HnswIndex \<Rightarrow> bytes \<Rightarrow> usize \<Rightarrow> usize list \<Rightarrow> usize \<Rightarrow>
   usize res" where
  "descend N Q ix query ef [] cur = Inr cur"
| "descend N Q ix query ef (layer # layers) cur =
     and_then (search_layer N Q ix query [cur] (max ef 1) layer) (\<lambda>found.
       descend N Q ix query ef layers (case found of [] \<Rightarrow> cur | (best_idx, _) # _ \<Rightarrow> best_idx))"

definition hnsw_search ::
  "('f, 'd) vec_ops \<Rightarrow> ('f Candidate list \<Rightarrow> 'f Candidate list) \<Rightarrow> HnswIndex \<Rightarrow> bytes \<Rightarrow> usize \<Rightarrow> usize \<Rightarrow>
   (bytes \<times> 'f) list res" where
  "hnsw_search N Q ix query k ef =
     (if hx_nodes ix = [] then Inr []
      else if length (hx_nodes ix) = 1
      then and_then (distance_to_node N ix query 0) (\<lambda>dist. Inr [(hn_vector_id (hx_nodes ix ! 0), dist)])
      else
        let ef = max ef k in
        and_then (descend N Q ix query ef (rev [1..<hx_max_layer ix + 1]) (hx_entry_point ix)) (\<lambda>cur.
        and_then (search_layer N Q ix query [cur] ef 0) (\<lambda>layer0_results.
          Inr (sort_by (by_distance (vo_f32 N))
            (map (\<lambda>(idx, dist). (hn_vector_id (hx_nodes ix ! idx), dist)) (take k layer0_results))))))"

section \<open>Selecting and pruning neighbours\<close>

text \<open>
  The diversity heuristic. The first candidate is taken without the test of the length, as the
  \<open>continue\<close> of the code does.
\<close>

definition is_diverse :: "('f, 'd) vec_ops \<Rightarrow> HnswIndex \<Rightarrow> usize \<Rightarrow> 'f \<Rightarrow> usize list \<Rightarrow> bool" where
  "is_diverse N ix cand_idx cand_dist selected =
     list_all (\<lambda>sel_idx.
        case distance N (hn_vector_data (hx_nodes ix ! cand_idx)) (hn_vector_data (hx_nodes ix ! sel_idx))
               (hx_dtype ix) (hx_metric ix) of
          Inl _ \<Rightarrow> False
        | Inr d \<Rightarrow> \<not> f_gt (vo_f32 N) cand_dist d) selected"

fun select_loop ::
  "('f, 'd) vec_ops \<Rightarrow> HnswIndex \<Rightarrow> usize \<Rightarrow> usize \<Rightarrow> (usize \<times> 'f) list \<Rightarrow> usize list \<times> usize list \<Rightarrow> usize list \<times> usize list" where
  "select_loop N ix node_idx m [] (selected, discarded) = (selected, discarded)"
| "select_loop N ix node_idx m ((cand_idx, cand_dist) # candidates) (selected, discarded) =
     (if cand_idx = node_idx then select_loop N ix node_idx m candidates (selected, discarded)
      else if selected = [] then select_loop N ix node_idx m candidates ([cand_idx], discarded)
      else
        let (selected, discarded) =
              (if is_diverse N ix cand_idx cand_dist selected then (selected @ [cand_idx], discarded)
               else (selected, discarded @ [cand_idx]))
        in if length selected \<ge> m then (selected, discarded)
           else select_loop N ix node_idx m candidates (selected, discarded))"

fun fill_slots :: "usize \<Rightarrow> usize list \<Rightarrow> usize list \<Rightarrow> usize list" where
  "fill_slots m selected [] = selected"
| "fill_slots m selected (d # ds) =
     (if d \<in> set selected then fill_slots m selected ds
      else let selected = selected @ [d]
           in if length selected \<ge> m then selected else fill_slots m selected ds)"

definition select_neighbors :: "('f, 'd) vec_ops \<Rightarrow> HnswIndex \<Rightarrow> usize \<Rightarrow> (usize \<times> 'f) list \<Rightarrow> usize \<Rightarrow> usize list" where
  "select_neighbors N ix node_idx candidates m =
     (case select_loop N ix node_idx m candidates ([], []) of
        (selected, discarded) \<Rightarrow>
          take m (if length selected < m then fill_slots m selected discarded else selected))"

definition layer_neighbors :: "HnswIndex \<Rightarrow> usize \<Rightarrow> usize \<Rightarrow> usize list" where
  "layer_neighbors ix i l = hn_neighbors (hx_nodes ix ! i) ! l"

definition set_neighbors :: "usize \<Rightarrow> usize \<Rightarrow> usize list \<Rightarrow> HnswIndex \<Rightarrow> HnswIndex" where
  "set_neighbors i l ns ix =
     (let node = hx_nodes ix ! i
      in ix\<lparr>hx_nodes := (hx_nodes ix)[i := node\<lparr>hn_neighbors := (hn_neighbors node)[l := ns]\<rparr>]\<rparr>)"

text \<open>
  The comparison in \<open>prune_neighbors\<close> takes a NaN as equal to every number, which is not a total order.
  Up to 20 elements \<open>sort_by\<close> of the standard library is an insertion sort that returns for every
  comparison; for longer lists it may panic on such a comparison, and the model takes the panic.
\<close>

definition SMALL_SORT_MAX :: nat where "SMALL_SORT_MAX = 20"

definition prune_neighbors :: "('f, 'd) vec_ops \<Rightarrow> usize \<Rightarrow> usize \<Rightarrow> usize \<Rightarrow> HnswIndex \<Rightarrow> HnswIndex \<times> unit res" where
  "prune_neighbors N node_idx layer m ix =
     (let neighbors = layer_neighbors ix node_idx layer; node_data = hn_vector_data (hx_nodes ix ! node_idx)
      in if length neighbors \<le> m then (ix, Inr ())
         else if list_ex (\<lambda>n. n \<noteq> node_idx \<and> \<not> n < length (hx_nodes ix)) neighbors
         then (ix, Inl (Panic ''index out of bounds''))
         else
           let neighbor_dists = List.map_filter (\<lambda>n.
                 if n = node_idx then None
                 else case distance N node_data (hn_vector_data (hx_nodes ix ! n)) (hx_dtype ix) (hx_metric ix) of
                        Inl _ \<Rightarrow> None | Inr d \<Rightarrow> Some (n, d)) neighbors;
               sorted = sort_by (\<lambda>a b. case f_partial_cmp (vo_f32 N) (snd a) (snd b) of None \<Rightarrow> Equal | Some ord \<Rightarrow> ord) neighbor_dists
           in if length neighbor_dists > SMALL_SORT_MAX \<and> list_ex (\<lambda>(n, d). f_is_nan (vo_f32 N) d) neighbor_dists
              then (ix, Inl (Panic ''user-provided comparison function does not correctly implement a total order''))
              else (set_neighbors node_idx layer (map fst (take m sorted)) ix, Inr ()))"

section \<open>Insertion\<close>

fun connect ::
  "('f, 'd) vec_ops \<Rightarrow> usize \<Rightarrow> usize \<Rightarrow> usize \<Rightarrow> usize list \<Rightarrow> HnswIndex \<Rightarrow> HnswIndex \<times> unit res" where
  "connect N node_idx l m [] ix = (ix, Inr ())"
| "connect N node_idx l m (n # ns) ix =
     (if n = node_idx then connect N node_idx l m ns ix
      else
        let ix = set_neighbors node_idx l (layer_neighbors ix node_idx l @ [n]) ix
        in if \<not> n < length (hx_nodes ix) then (ix, Inl (Panic ''index out of bounds''))
           else if l < length (hn_neighbors (hx_nodes ix ! n))
           then
             let ix = set_neighbors n l (layer_neighbors ix n l @ [node_idx]) ix
             in if length (layer_neighbors ix n l) > m
                then case prune_neighbors N n l m ix of
                       (ix, Inl e) \<Rightarrow> (ix, Inl e)
                     | (ix, Inr ()) \<Rightarrow> connect N node_idx l m ns ix
                else connect N node_idx l m ns ix
           else connect N node_idx l m ns ix)"

fun link_layers ::
  "('f, 'd) vec_ops \<Rightarrow> ('f Candidate list \<Rightarrow> 'f Candidate list) \<Rightarrow> usize \<Rightarrow> bytes \<Rightarrow> usize \<Rightarrow> usize \<Rightarrow> usize list \<Rightarrow> usize \<Rightarrow>
   HnswIndex \<Rightarrow> HnswIndex \<times> unit res" where
  "link_layers N Q node_idx vec m ef_construction [] cur ix = (ix, Inr ())"
| "link_layers N Q node_idx vec m ef_construction (l # ls) cur ix =
     (case search_layer N Q ix vec [cur] ef_construction l of
        Inl e \<Rightarrow> (ix, Inl e)
      | Inr knn \<Rightarrow>
          (case connect N node_idx l m (select_neighbors N ix node_idx knn m) ix of
             (ix, Inl e) \<Rightarrow> (ix, Inl e)
           | (ix, Inr ()) \<Rightarrow>
               link_layers N Q node_idx vec m ef_construction ls
                 (case knn of [] \<Rightarrow> cur | (best_idx, _) # _ \<Rightarrow> best_idx) ix))"

text \<open>
  \<open>Vec::with_capacity\<close> panics above \<open>isize::MAX\<close> bytes; a list of neighbours takes 24. For the largest
  \<open>usize\<close> already \<open>layer + 1\<close> overflows.
\<close>

definition MAX_LISTS :: nat where "MAX_LISTS = (2 ^ 63 - 1) div 24"

definition hnsw_insert ::
  "('f, 'd) vec_ops \<Rightarrow> ('f Candidate list \<Rightarrow> 'f Candidate list) \<Rightarrow> bytes \<Rightarrow> bytes \<Rightarrow> HnswIndex \<Rightarrow> HnswIndex \<times> usize res" where
  "hnsw_insert N Q vector_id vec ix =
     (case layer_for_node N ix of (ix, layer) \<Rightarrow>
      if layer + 1 > MAX_LISTS then (ix, Inl (Panic ''capacity overflow''))
      else
      let node_idx = length (hx_nodes ix);
          ix = ix\<lparr>hx_nodes := hx_nodes ix @
             [\<lparr> hn_vector_id = vector_id, hn_vector_data = vec, hn_neighbors = replicate (layer + 1) [] \<rparr>]\<rparr>;
          top = min layer (hx_max_layer ix)
      in if node_idx = 0 then (ix\<lparr>hx_entry_point := 0, hx_max_layer := layer\<rparr>, Inr 0)
         else case descend N Q ix vec 1 (rev [top + 1..<hx_max_layer ix + 1]) (hx_entry_point ix) of
                Inl e \<Rightarrow> (ix, Inl e)
              | Inr cur \<Rightarrow>
                  (case link_layers N Q node_idx vec (hx_m ix) (hx_ef_construction ix) (rev [0..<top + 1]) cur ix of
                     (ix, Inl e) \<Rightarrow> (ix, Inl e)
                   | (ix, Inr ()) \<Rightarrow>
                       (if layer > hx_max_layer ix then ix\<lparr>hx_max_layer := layer, hx_entry_point := node_idx\<rparr> else ix,
                        Inr node_idx)))"

end
