(* ===== verification/HnswSidecar.thy ===== *)
theory HnswSidecar
  imports Hnsw
begin

text \<open>
  The sidecar file of a vector index, \<open>HnswIndex::serialize\<close> and \<open>HnswIndex::deserialize\<close> of
  \<open>edgestore/src/vector/hnsw.rs\<close>, and their round trip. Casts to a narrower integer wrap.
\<close>

definition HNSW_MAGIC :: bytes where "HNSW_MAGIC = lit ''HNSW''"
definition HNSW_VERSION :: u16 where "HNSW_VERSION = 1"

fun metric_byte :: "Metric \<Rightarrow> byte" where
  "metric_byte Cosine = 0"
| "metric_byte L2 = 1"
| "metric_byte DotProduct = 2"

section \<open>Writing\<close>

definition put_layer :: "usize list \<Rightarrow> bytes" where
  "put_layer ns = u16_le (word_of_nat (length ns)) @ concat (map (\<lambda>n. u32_le (word_of_nat n)) ns)"

definition put_node :: "HnswNode \<Rightarrow> bytes" where
  "put_node node =
     u32_le (word_of_nat (length (hn_vector_id node))) @ hn_vector_id node @
     u32_le (word_of_nat (length (hn_vector_data node))) @ hn_vector_data node @
     u16_le (word_of_nat (length (hn_neighbors node))) @ concat (map put_layer (hn_neighbors node))"

definition serialize_hnsw :: "HnswIndex \<Rightarrow> bytes" where
  "serialize_hnsw ix =
     HNSW_MAGIC @ u16_le HNSW_VERSION @ u16_le (word_of_nat (hx_max_layer ix)) @ u32_le (word_of_nat (hx_entry_point ix)) @
     u32_le (word_of_nat (length (hx_nodes ix))) @ u16_le (hx_dims ix) @ [dtype_byte (hx_dtype ix)] @
     [metric_byte (hx_metric ix)] @ u16_le (word_of_nat (hx_m ix)) @ u16_le (word_of_nat (hx_ef_construction ix)) @
     concat (map put_node (hx_nodes ix))"

section \<open>Reading\<close>

text \<open>The macro \<open>read_bytes!(n, field)\<close>.\<close>

definition read_hnsw :: "string \<Rightarrow> nat \<Rightarrow> bytes \<Rightarrow> (bytes \<times> bytes) res" where
  "read_hnsw field n bs =
     (if length bs < n then Inl (CorruptData (''hnsw: truncated '' @ field)) else Inr (take n bs, drop n bs))"

fun get_layer :: "nat \<Rightarrow> bytes \<Rightarrow> (usize list \<times> bytes) res" where
  "get_layer 0 bs = Inr ([], bs)"
| "get_layer (Suc c) bs =
     and_then (read_hnsw ''neighbor_idx'' 4 bs) (\<lambda>(x, bs).
     and_then (get_layer c bs) (\<lambda>(xs, bs). Inr (unat (u32_of_le x) # xs, bs)))"

fun get_layers :: "nat \<Rightarrow> bytes \<Rightarrow> (usize list list \<times> bytes) res" where
  "get_layers 0 bs = Inr ([], bs)"
| "get_layers (Suc c) bs =
     and_then (read_hnsw ''neighbor_count'' 2 bs) (\<lambda>(n, bs).
       if unat (u16_of_le n) > 1000000 then Inl (CorruptData ''hnsw: neighbor_count too large'')
       else
         and_then (get_layer (unat (u16_of_le n)) bs) (\<lambda>(l, bs).
         and_then (get_layers c bs) (\<lambda>(ls, bs). Inr (l # ls, bs))))"

definition get_node :: "bytes \<Rightarrow> (HnswNode \<times> bytes) res" where
  "get_node bs =
     and_then (read_hnsw ''id_len'' 4 bs) (\<lambda>(n, bs).
     and_then (read_hnsw ''vector_id'' (unat (u32_of_le n)) bs) (\<lambda>(vector_id, bs).
     and_then (read_hnsw ''data_len'' 4 bs) (\<lambda>(n, bs).
     and_then (read_hnsw ''vector_data'' (unat (u32_of_le n)) bs) (\<lambda>(vec, bs).
     and_then (read_hnsw ''layer_count'' 2 bs) (\<lambda>(n, bs).
     and_then (get_layers (unat (u16_of_le n)) bs) (\<lambda>(neighbors, bs).
       Inr (\<lparr> hn_vector_id = vector_id, hn_vector_data = vec, hn_neighbors = neighbors \<rparr>, bs)))))))"

fun get_nodes :: "nat \<Rightarrow> bytes \<Rightarrow> (HnswNode list \<times> bytes) res" where
  "get_nodes 0 bs = Inr ([], bs)"
| "get_nodes (Suc c) bs =
     and_then (get_node bs) (\<lambda>(node, bs).
     and_then (get_nodes c bs) (\<lambda>(nodes, bs). Inr (node # nodes, bs)))"

definition hnsw_dtype :: "byte \<Rightarrow> Dtype res" where
  "hnsw_dtype b =
     (if b = 0 then Inr F32 else if b = 1 then Inr F16 else if b = 2 then Inr I8
      else Inl (CorruptData ''hnsw: unknown dtype''))"

definition hnsw_metric :: "byte \<Rightarrow> Metric res" where
  "hnsw_metric b =
     (if b = 0 then Inr Cosine else if b = 1 then Inr L2 else if b = 2 then Inr DotProduct
      else Inl (CorruptData ''hnsw: unknown metric''))"

definition deserialize_hnsw :: "bytes \<Rightarrow> HnswIndex res" where
  "deserialize_hnsw bs =
     (if length bs < 22 then Inl (CorruptData ''hnsw: truncated header'')
      else
        and_then (read_hnsw ''magic'' 4 bs) (\<lambda>(magic, bs).
        if magic \<noteq> HNSW_MAGIC then Inl (CorruptData ''hnsw: invalid magic'')
        else
        and_then (read_hnsw ''version'' 2 bs) (\<lambda>(version, bs).
        if u16_of_le version \<noteq> HNSW_VERSION then Inl (CorruptData ''hnsw: unsupported version'')
        else
        and_then (read_hnsw ''max_layer'' 2 bs) (\<lambda>(max_layer, bs).
        and_then (read_hnsw ''entry_point'' 4 bs) (\<lambda>(entry_point, bs).
        and_then (read_hnsw ''node_count'' 4 bs) (\<lambda>(node_count, bs).
        and_then (read_hnsw ''dims'' 2 bs) (\<lambda>(dims, bs).
        and_then (read_hnsw ''dtype'' 1 bs) (\<lambda>(dt, bs).
        and_then (read_hnsw ''metric'' 1 bs) (\<lambda>(mt, bs).
        and_then (read_hnsw ''m'' 2 bs) (\<lambda>(m, bs).
        and_then (read_hnsw ''ef_construction'' 2 bs) (\<lambda>(ef, bs).
        and_then (hnsw_dtype (hd dt)) (\<lambda>dtype.
        and_then (hnsw_metric (hd mt)) (\<lambda>metric.
        if unat (u32_of_le node_count) > 10000000 then Inl (CorruptData ''hnsw: node_count too large'')
        else
        and_then (get_nodes (unat (u32_of_le node_count)) bs) (\<lambda>(nodes, _).
          Inr \<lparr> hx_nodes = nodes, hx_entry_point = unat (u32_of_le entry_point), hx_max_layer = unat (u16_of_le max_layer),
                hx_m = unat (u16_of_le m), hx_ef_construction = unat (u16_of_le ef), hx_dims = u16_of_le dims,
                hx_dtype = dtype, hx_metric = metric, hx_rng_seed = 12345 \<rparr>))))))))))))))"

section \<open>Round trip\<close>

lemma read_hnsw_append [simp]: "n = length a \<Longrightarrow> read_hnsw f n (a @ b) = Inr (a, b)"
  by (simp add: read_hnsw_def)

lemma read_hnsw_Cons [simp]: "read_hnsw f (Suc 0) (x # b) = Inr ([x], b)"
  by (simp add: read_hnsw_def)

definition node_ok :: "HnswNode \<Rightarrow> bool" where
  "node_ok node \<longleftrightarrow> length (hn_vector_id node) < 2 ^ 32 \<and> length (hn_vector_data node) < 2 ^ 32 \<and>
     length (hn_neighbors node) < 2 ^ 16 \<and> list_all (\<lambda>ns. length ns < 2 ^ 16 \<and> list_all (\<lambda>n. n < 2 ^ 32) ns) (hn_neighbors node)"

definition hnsw_file_ok :: "HnswIndex \<Rightarrow> bool" where
  "hnsw_file_ok ix \<longleftrightarrow> list_all node_ok (hx_nodes ix) \<and> length (hx_nodes ix) \<le> 10000000 \<and> hx_max_layer ix < 2 ^ 16 \<and>
     hx_entry_point ix < 2 ^ 32 \<and> hx_m ix < 2 ^ 16 \<and> hx_ef_construction ix < 2 ^ 16"

lemma get_layer_put:
  "list_all (\<lambda>n. n < 2 ^ 32) ns \<Longrightarrow>
   get_layer (length ns) (concat (map (\<lambda>n. u32_le (word_of_nat n)) ns) @ rest) = Inr (ns, rest)"
  by (induction ns) (simp_all add: unat_u32_of_nat)

lemma get_layers_put:
  "list_all (\<lambda>ns. length ns < 2 ^ 16 \<and> list_all (\<lambda>n. n < 2 ^ 32) ns) ls \<Longrightarrow>
   get_layers (length ls) (concat (map put_layer ls) @ rest) = Inr (ls, rest)"
  by (induction ls) (simp_all add: put_layer_def get_layer_put unat_u16_of_nat)

lemma get_node_put: "node_ok node \<Longrightarrow> get_node (put_node node @ rest) = Inr (node, rest)"
  by (simp add: get_node_def put_node_def node_ok_def get_layers_put unat_u16_of_nat unat_u32_of_nat)

lemma get_nodes_put:
  "list_all node_ok nodes \<Longrightarrow> get_nodes (length nodes) (concat (map put_node nodes) @ rest) = Inr (nodes, rest)"
  by (induction nodes) (simp_all add: get_node_put)

lemma hnsw_bytes [simp]: "hnsw_dtype (dtype_byte t) = Inr t" "hnsw_metric (metric_byte k) = Inr k"
  by (cases t; simp add: hnsw_dtype_def) (cases k; simp add: hnsw_metric_def)

lemma hnsw_bytes_roundtrip:
  assumes "hnsw_file_ok ix"
  shows "deserialize_hnsw (serialize_hnsw ix) = Inr (ix\<lparr>hx_rng_seed := 12345\<rparr>)"
proof -
  have "get_nodes (length (hx_nodes ix)) (concat (map put_node (hx_nodes ix))) = Inr (hx_nodes ix, [])"
    using get_nodes_put [of "hx_nodes ix" "[]"] assms by (simp add: hnsw_file_ok_def)
  moreover have "length HNSW_MAGIC = 4" by (simp add: HNSW_MAGIC_def lit_def)
  ultimately show ?thesis using assms
    by (simp add: deserialize_hnsw_def serialize_hnsw_def hnsw_file_ok_def unat_u16_of_nat unat_u32_of_nat)
qed

text \<open>
  An index read back from its sidecar is the index that was written, whatever its graph, as long
  as counts and indices fit their fields; only the seed of the random layers starts afresh.
\<close>

theorem hnsw_sidecar_roundtrip:
  assumes "hnsw_file_ok ix"
  shows "deserialize_hnsw (serialize_hnsw ix) = Inr (ix\<lparr>hx_rng_seed := 12345\<rparr>)"
  using assms by (rule hnsw_bytes_roundtrip)

theorem hnsw_sidecar_roundtrip_witness:
  "\<exists>ix. length (hx_nodes ix) = 2 \<and> deserialize_hnsw (serialize_hnsw ix) = Inr (ix\<lparr>hx_rng_seed := 12345\<rparr>)"
proof -
  let ?ix = "(HnswIndex_new 1 I8 L2)\<lparr>hx_max_layer := 1, hx_nodes :=
    [\<lparr> hn_vector_id = [1], hn_vector_data = [5], hn_neighbors = [[1], []] \<rparr>,
     \<lparr> hn_vector_id = [2], hn_vector_data = [7], hn_neighbors = [[0]] \<rparr>]\<rparr>"
  have "hnsw_file_ok ?ix" by (simp add: hnsw_file_ok_def HnswIndex_new_def node_ok_def)
  from hnsw_sidecar_roundtrip [OF this] show ?thesis by (intro exI [of _ ?ix]) simp
qed

end
