(* ===== verification/HnswFacts.thy ===== *)
theory HnswFacts
  imports HnswSidecar
begin

text \<open>
  What a search of the graph index finds: the invariant of the graph, the invariant of the beam
  while a layer is searched, and what follows for the results.
\<close>

section \<open>Graphs\<close>

definition levels :: "HnswIndex \<Rightarrow> usize \<Rightarrow> nat" where
  "levels ix i = length (hn_neighbors (hx_nodes ix ! i))"

definition nbrs :: "HnswIndex \<Rightarrow> nat \<Rightarrow> usize \<Rightarrow> usize list" where
  "nbrs ix l i = (if l < levels ix i then layer_neighbors ix i l else [])"

definition vec_size :: "HnswIndex \<Rightarrow> nat" where
  "vec_size ix = unat (hx_dims ix) * element_size (hx_dtype ix)"

text \<open>Vectors of the right size, and edges of a layer between nodes that have the layer.\<close>

definition graph_ok :: "HnswIndex \<Rightarrow> bool" where
  "graph_ok ix \<longleftrightarrow>
     (\<forall>i < length (hx_nodes ix). length (hn_vector_data (hx_nodes ix ! i)) = vec_size ix \<and>
        (\<forall>l. \<forall>j \<in> set (nbrs ix l i). j < length (hx_nodes ix) \<and> l < levels ix j))"

definition node_dist :: "('f, 'd) vec_ops \<Rightarrow> HnswIndex \<Rightarrow> bytes \<Rightarrow> usize \<Rightarrow> 'f" where
  "node_dist N ix query i = dist_of N query (hn_vector_data (hx_nodes ix ! i)) (hx_dtype ix) (hx_metric ix)"

definition cand :: "('f, 'd) vec_ops \<Rightarrow> HnswIndex \<Rightarrow> bytes \<Rightarrow> usize \<Rightarrow> 'f Candidate" where
  "cand N ix query i = \<lparr> cd_node_idx = i, cd_distance = node_dist N ix query i \<rparr>"

lemma cand_simps [simp]: "cd_node_idx (cand N ix query i) = i" "cd_distance (cand N ix query i) = node_dist N ix query i"
  "cand N ix query i = cand N ix query j \<longleftrightarrow> i = j"
  by (auto simp: cand_def)

lemma cmp_ok_candidate: "f32_ok F \<Longrightarrow> cmp_ok (candidate_cmp F)"
proof -
  assume "f32_ok F"
  then have "cmp_ok (\<lambda>a b. total_cmp_f32 F (cd_distance a) (cd_distance b))"
    using cmp_ok_image [OF cmp_ok_total_cmp] by blast
  moreover have "cmp_ok (\<lambda>a b. compare_with id (cd_node_idx a) (cd_node_idx b))"
    by (rule cmp_ok_image [OF cmp_ok_compare])
  ultimately show ?thesis unfolding candidate_cmp_def by (rule cmp_ok_then)
qed

lemma candidate_cmp_distance:
  "candidate_cmp F a b \<noteq> Greater \<Longrightarrow> total_cmp_f32 F (cd_distance a) (cd_distance b) \<noteq> Greater"
  by (auto simp: candidate_cmp_def cmp_then_def split: if_splits)

lemma f_gt_total: "f_gt F a b \<Longrightarrow> total_cmp_f32 F a b = Greater"
  by (simp add: f_gt_def total_cmp_f32_def)

lemma distance_to_node_ok:
  assumes "graph_ok ix" "length query = vec_size ix" "i < length (hx_nodes ix)"
  shows "distance_to_node N ix query i = Inr (node_dist N ix query i)"
proof -
  have "length (hn_vector_data (hx_nodes ix ! i)) = vec_size ix" using assms(1,3) unfolding graph_ok_def by blast
  then have "distance N query (hn_vector_data (hx_nodes ix ! i)) (hx_dtype ix) (hx_metric ix) = Inr (node_dist N ix query i)"
    using distance_defined assms(2) unfolding vec_size_def node_dist_def by blast
  then show ?thesis using assms(3) by (simp add: distance_to_node_def)
qed

section \<open>The beam\<close>

text \<open>
  The candidates and results are nodes visited with their distances. The results are the nearest
  visited nodes, at most \<open>ef\<close>, and a visited node that is no candidate any more was expanded.
\<close>

definition nearest_of :: "('f, 'd) vec_ops \<Rightarrow> HnswIndex \<Rightarrow> bytes \<Rightarrow> nat \<Rightarrow> usize set \<Rightarrow> 'f Candidate list \<Rightarrow> bool" where
  "nearest_of N ix query ef V results \<longleftrightarrow> distinct results \<and> set results \<subseteq> cand N ix query ` V \<and> length results \<le> ef \<and>
     (\<forall>v \<in> V. cand N ix query v \<in> set results \<or>
        (length results = ef \<and> (\<forall>r \<in> set results. candidate_cmp (vo_f32 N) r (cand N ix query v) \<noteq> Greater)))"

definition beam_inv :: "('f, 'd) vec_ops \<Rightarrow> HnswIndex \<Rightarrow> bytes \<Rightarrow> nat \<Rightarrow> nat \<Rightarrow> usize \<Rightarrow> usize set \<Rightarrow> 'f beam \<Rightarrow> bool" where
  "beam_inv N ix query ef l ep X = (\<lambda>(visited, candidates, results).
     ep \<in> set visited \<and> (\<forall>v \<in> set visited. v < length (hx_nodes ix) \<and> l < levels ix v \<and> (\<lambda>i j. j \<in> set (nbrs ix l i))\<^sup>*\<^sup>* ep v) \<and>
     set candidates \<subseteq> cand N ix query ` set visited \<and> distinct candidates \<and>
     (\<forall>v \<in> set visited. cand N ix query v \<in> set candidates \<or> v \<in> X \<or> set (nbrs ix l v) \<subseteq> set visited) \<and>
     nearest_of N ix query ef (set visited) results)"

lemma nearest_of_push:
  assumes "f32_ok (vo_f32 N)" "nearest_of N ix query ef V results" "n \<notin> V" "ef > 0"
  shows "nearest_of N ix query ef (insert n V) (push_result (vo_f32 N) ef (cand N ix query n) results)"
proof -
  let ?c = "cand N ix query" and ?le = "\<lambda>a b. candidate_cmp (vo_f32 N) a b \<noteq> Greater"
  note co = cmp_ok_candidate [OF assms(1)]
  have new: "?c n \<notin> set results" using assms(2,3) by (auto simp: nearest_of_def)
  have d: "distinct (bh_push (?c n) results)" "set (bh_push (?c n) results) \<subseteq> ?c ` insert n V"
    using assms(2) new by (auto simp: nearest_of_def bh_push_def)
  have old: "?c v \<in> set results \<or> (length results = ef \<and> (\<forall>r \<in> set results. ?le r (?c v)))" if "v \<in> V" for v
    using assms(2) that by (simp add: nearest_of_def)
  have len: "length results \<le> ef" using assms(2) by (simp add: nearest_of_def)
  show ?thesis
  proof (cases "length results < ef")
    case True
    then have "push_result (vo_f32 N) ef (?c n) results = bh_push (?c n) results" by (simp add: push_result_def)
    then show ?thesis using True d old unfolding nearest_of_def by auto
  next
    case False
    then have e: "length results = ef" using len by simp
    have "bh_push (?c n) results \<noteq> []" by (simp add: bh_push_def)
    then obtain w rest where w: "bh_pop (candidate_cmp (vo_f32 N)) (bh_push (?c n) results) = Some (w, rest)"
      by (metis bh_pop_None option.exhaust surj_pair)
    then have p: "push_result (vo_f32 N) ef (?c n) results = rest" by (simp add: push_result_def e)
    have "mset (bh_push (?c n) results) = add_mset w (mset rest)" using bh_pop_Some(3) [OF w] .
    then have m: "distinct (w # rest)" using d(1) by (metis mset.simps(2) mset_eq_imp_distinct_iff)
    then have dr: "distinct rest" "w \<notin> set rest" "insert (?c n) (set results) = insert w (set rest)" "length rest = ef"
      using bh_pop_set [OF w] e bh_pop_Some(4) [OF w] by simp_all
    have max: "?le r w" if "r \<in> insert (?c n) (set results)" for r
      using bh_peek_greatest [OF co bh_pop_Some(1) [OF w]] that by simp
    have "?c v \<in> set rest \<or> (\<forall>r \<in> set rest. ?le r (?c v))" if "v \<in> insert n V" for v
    proof (cases "?c v \<in> insert (?c n) (set results)")
      case True
      then show ?thesis using dr(3) max by auto
    next
      case False
      then have all: "\<forall>r \<in> set results. ?le r (?c v)" and "v \<in> V" using old [of v] that by auto
      have "?le r (?c v)" if r: "r \<in> set rest" for r
      proof (cases "r \<in> set results")
        case False
        then have rn: "r = ?c n" using r dr(3) by blast
        then have "w \<noteq> ?c n" using r dr(2) by blast
        then have "w \<in> set results" using dr(3) by blast
        then show ?thesis using max [of r] rn all cmp_ok_trans [OF co, of r w "?c v"] by blast
      qed (use all in blast)
      then show ?thesis by blast
    qed
    then show ?thesis using d(2) dr e unfolding nearest_of_def p by auto
  qed
qed

lemma beam_inv_expand:
  assumes "f32_ok (vo_f32 N)" "graph_ok ix" "length query = vec_size ix" "ef > 0"
    and "beam_inv N ix query ef l ep X (visited, candidates, results)" "x \<in> set visited"
    and "set ns \<subseteq> set (nbrs ix l x)"
  shows "\<exists>visited' candidates' results'. expand N ix query ef ns (visited, candidates, results) = Inr (visited', candidates', results') \<and>
     beam_inv N ix query ef l ep X (visited', candidates', results') \<and> set visited' = set visited \<union> set ns"
  using assms(5,6,7)
proof (induction ns arbitrary: visited candidates results)
  case (Cons n ns)
  note b = Cons.prems(1) [unfolded beam_inv_def, simplified]
  show ?case
  proof (cases "n \<in> set visited")
    case True
    with Cons.IH [OF Cons.prems(1,2)] Cons.prems(3) show ?thesis by (simp add: insert_absorb)
  next
    case False
    let ?c = "cand N ix query"
    have x: "x < length (hx_nodes ix)" "(\<lambda>i j. j \<in> set (nbrs ix l i))\<^sup>*\<^sup>* ep x" "n \<in> set (nbrs ix l x)"
      using b Cons.prems(2,3) by auto
    then have n: "n < length (hx_nodes ix)" "l < levels ix n" "(\<lambda>i j. j \<in> set (nbrs ix l i))\<^sup>*\<^sup>* ep n"
      using assms(2) unfolding graph_ok_def by (blast intro: rtranclp.rtrancl_into_rtrancl)+
    have "?c n \<notin> set candidates" using b False by auto
    moreover have "nearest_of N ix query ef (insert n (set visited)) (push_result (vo_f32 N) ef (?c n) results)"
      using b False assms(1,4) by (intro nearest_of_push) auto
    ultimately have "beam_inv N ix query ef l ep X
        (n # visited, bh_push (?c n) candidates, push_result (vo_f32 N) ef (?c n) results)"
      using b n unfolding beam_inv_def bh_push_def by auto
    from Cons.IH [OF this] Cons.prems(2,3)
    obtain v c r where e: "expand N ix query ef ns
        (n # visited, bh_push (?c n) candidates, push_result (vo_f32 N) ef (?c n) results) = Inr (v, c, r)"
      "beam_inv N ix query ef l ep X (v, c, r)" "set v = insert n (set visited) \<union> set ns" by auto
    then show ?thesis using False distance_to_node_ok [OF assms(2,3) n(1), of N] by (auto simp: cand_def)
  qed
qed simp

text \<open>
  At the end every neighbour of a result was visited, and when there are fewer than \<open>ef\<close> results
  every neighbour of a visited node was.
\<close>

definition beam_end :: "('f, 'd) vec_ops \<Rightarrow> HnswIndex \<Rightarrow> bytes \<Rightarrow> nat \<Rightarrow> nat \<Rightarrow> usize \<Rightarrow> usize set \<Rightarrow> 'f Candidate list \<Rightarrow> bool" where
  "beam_end N ix query ef l ep V results \<longleftrightarrow>
     ep \<in> V \<and> (\<forall>v \<in> V. v < length (hx_nodes ix) \<and> l < levels ix v \<and> (\<lambda>i j. j \<in> set (nbrs ix l i))\<^sup>*\<^sup>* ep v) \<and>
     nearest_of N ix query ef V results \<and>
     (\<forall>v \<in> V. cand N ix query v \<in> set results \<or> length results < ef \<longrightarrow> set (nbrs ix l v) \<subseteq> V)"

lemma search_loop_end:
  assumes "f32_ok (vo_f32 N)" "graph_ok ix" "length query = vec_size ix" "ef > 0"
    and "beam_inv N ix query ef l ep {} (visited, candidates, results)"
  shows "\<exists>V results'. search_loop N ix query ef l (visited, candidates, results) = Inr results' \<and> beam_end N ix query ef l ep V results'"
  using assms(5)
proof (induction "unvisited ix visited + length candidates" arbitrary: visited candidates results rule: less_induct)
  case less
  let ?c = "cand N ix query" and ?cmp = "candidate_cmp (vo_f32 N)"
  note b = less.prems [unfolded beam_inv_def, simplified] and co = cmp_ok_candidate [OF assms(1)]
  note co' = cmp_ok_reverse [OF co]
  show ?case
  proof (cases "bh_pop (\<lambda>a b. ?cmp b a) candidates")
    case None
    then have "candidates = []" by simp
    then have "beam_end N ix query ef l ep (set visited) results" using b unfolding beam_end_def by auto
    then show ?thesis using None by (subst search_loop.simps) auto
  next
    case (Some p)
    obtain x candidates1 where p: "bh_pop (\<lambda>a b. ?cmp b a) candidates = Some (x, candidates1)" using Some by (metis prod.exhaust)
    have xs: "set candidates = insert x (set candidates1)" using bh_pop_set [OF p] .
    then obtain v where v: "x = ?c v" "v \<in> set visited" using b by auto
    have min: "?cmp x y \<noteq> Greater" if "y \<in> set candidates" for y
      using bh_peek_greatest [OF co' bh_pop_Some(1) [OF p] that] .
    show ?thesis
    proof (cases "case bh_peek ?cmp results of None \<Rightarrow> False | Some worst \<Rightarrow> f_gt (vo_f32 N) (cd_distance x) (cd_distance worst)")
      case True
      then obtain worst where w: "bh_peek ?cmp results = Some worst" "f_gt (vo_f32 N) (cd_distance x) (cd_distance worst)"
        by (auto split: option.splits)
      have beyond: "r \<notin> set candidates" if "r \<in> set results" for r
      proof
        assume "r \<in> set candidates"
        then have "?cmp x r \<noteq> Greater" by (rule min)
        moreover have "?cmp r worst \<noteq> Greater" using bh_peek_greatest [OF co w(1) that] .
        ultimately have "?cmp x worst \<noteq> Greater" by (rule cmp_ok_trans [OF co])
        then show False using candidate_cmp_distance f_gt_total [OF w(2)] by blast
      qed
      have "x \<notin> set results" using beyond xs by blast
      then have "length results = ef" using b v unfolding nearest_of_def by blast
      then have "beam_end N ix query ef l ep (set visited) results" using b beyond unfolding beam_end_def by auto
      then show ?thesis using p True by (subst search_loop.simps) auto
    next
      case False
      have vb: "v < length (hx_nodes ix)" "l < levels ix v" using b v by auto
      have dc: "distinct (x # candidates1)" using b bh_pop_Some(3) [OF p] by (metis mset.simps(2) mset_eq_imp_distinct_iff)
      have "beam_inv N ix query ef l ep {v} (visited, candidates1, results)"
        using b xs dc v unfolding beam_inv_def by auto
      from beam_inv_expand [OF assms(1-4) this v(2) order_refl]
      obtain v2 c2 r2 where e: "expand N ix query ef (nbrs ix l v) (visited, candidates1, results) = Inr (v2, c2, r2)"
        "beam_inv N ix query ef l ep {v} (v2, c2, r2)" "set v2 = set visited \<union> set (nbrs ix l v)" by blast
      have "beam_inv N ix query ef l ep {} (v2, c2, r2)" using e(2,3) unfolding beam_inv_def by auto
      moreover have step: "search_loop N ix query ef l (visited, candidates, results) = search_loop N ix query ef l (v2, c2, r2)"
        using p [unfolded v(1)] False [unfolded v(1)] vb e(1) by (subst search_loop.simps) (simp add: nbrs_def levels_def layer_neighbors_def)
      moreover have "unvisited ix v2 + length c2 < unvisited ix visited + length candidates"
        using expand_unvisited [OF e(1)] bh_pop_Some(4) [OF p] by simp
      ultimately show ?thesis using less.hyps by metis
    qed
  qed
qed

section \<open>The search of a layer\<close>

definition order_ok :: "('a list \<Rightarrow> 'a list) \<Rightarrow> bool" where
  "order_ok Q \<longleftrightarrow> (\<forall>xs. mset (Q xs) = mset xs)"

definition close_to :: "('f, 'd) vec_ops \<Rightarrow> HnswIndex \<Rightarrow> bytes \<Rightarrow> nat \<Rightarrow> (usize \<times> 'f) list \<Rightarrow> usize \<Rightarrow> bool" where
  "close_to N ix query ef out j \<longleftrightarrow> j \<in> fst ` set out \<or>
     (length out = ef \<and> (\<forall>x \<in> set out. total_cmp_f32 (vo_f32 N) (snd x) (node_dist N ix query j) \<noteq> Greater))"

definition reachable :: "HnswIndex \<Rightarrow> nat \<Rightarrow> usize \<Rightarrow> usize set" where
  "reachable ix l ep = {i. (\<lambda>i j. j \<in> set (nbrs ix l i))\<^sup>*\<^sup>* ep i}"

definition layer_found :: "('f, 'd) vec_ops \<Rightarrow> HnswIndex \<Rightarrow> bytes \<Rightarrow> nat \<Rightarrow> nat \<Rightarrow> usize \<Rightarrow> (usize \<times> 'f) list \<Rightarrow> bool" where
  "layer_found N ix query ef l ep out \<longleftrightarrow>
     sorted_wrt (\<lambda>a b. total_cmp_f32 (vo_f32 N) (snd a) (snd b) \<noteq> Greater) out \<and>
     out \<noteq> [] \<and> length out \<le> ef \<and> distinct (map fst out) \<and>
     (\<forall>x \<in> set out. snd x = node_dist N ix query (fst x) \<and> fst x < length (hx_nodes ix) \<and> l < levels ix (fst x) \<and>
        fst x \<in> reachable ix l ep) \<and>
     close_to N ix query ef out ep \<and> (\<forall>x \<in> set out. \<forall>j \<in> set (nbrs ix l (fst x)). close_to N ix query ef out j) \<and>
     (length out < ef \<longrightarrow> fst ` set out = reachable ix l ep)"

lemma beam_end_found:
  assumes "f32_ok (vo_f32 N)" "order_ok Q" "ef > 0" "beam_end N ix query ef l ep V results"
  shows "layer_found N ix query ef l ep
    (sort_by (by_distance (vo_f32 N)) (map (\<lambda>c. (cd_node_idx c, cd_distance c)) (Q results)))"
proof -
  let ?f = "\<lambda>c. (cd_node_idx c, cd_distance c)" and ?c = "cand N ix query"
  define out where "out = sort_by (by_distance (vo_f32 N)) (map ?f (Q results))"
  have Qm: "mset (Q results) = mset results" using assms(2) unfolding order_ok_def by blast
  note Q = mset_eq_setD [OF Qm] Qm
  have s: "set out = ?f ` set results" "length out = length results"
    using Q(1) arg_cong [OF Q(2), of size] by (simp_all add: out_def)
  note b = assms(4) [unfolded beam_end_def nearest_of_def]
  have V: "ep \<in> V" "\<And>v. v \<in> V \<Longrightarrow> v < length (hx_nodes ix) \<and> l < levels ix v \<and> (\<lambda>i j. j \<in> set (nbrs ix l i))\<^sup>*\<^sup>* ep v"
    "\<And>v. v \<in> V \<Longrightarrow> ?c v \<in> set results \<or> length results < ef \<Longrightarrow> set (nbrs ix l v) \<subseteq> V" using b by blast+
  have R: "distinct results" "set results \<subseteq> ?c ` V" "length results \<le> ef"
    "\<And>v. v \<in> V \<Longrightarrow> ?c v \<in> set results \<or>
       (length results = ef \<and> (\<forall>r \<in> set results. candidate_cmp (vo_f32 N) r (?c v) \<noteq> Greater))" using b by blast+
  have mem: "x \<in> set out \<longleftrightarrow> (\<exists>i \<in> V. ?c i \<in> set results \<and> x = (i, node_dist N ix query i))" for x
  proof
    assume "x \<in> set out"
    then obtain c where c: "c \<in> set results" "x = ?f c" using s(1) by blast
    then obtain i where "i \<in> V" "c = ?c i" using R(2) by blast
    with c show "\<exists>i \<in> V. ?c i \<in> set results \<and> x = (i, node_dist N ix query i)" by auto
  next
    assume "\<exists>i \<in> V. ?c i \<in> set results \<and> x = (i, node_dist N ix query i)"
    then show "x \<in> set out" unfolding s(1) by force
  qed
  have ids: "i \<in> fst ` set out \<longleftrightarrow> i \<in> V \<and> ?c i \<in> set results" for i
  proof
    assume "i \<in> V \<and> ?c i \<in> set results"
    then have "(i, node_dist N ix query i) \<in> set out" using mem by blast
    then show "i \<in> fst ` set out" by force
  qed (use mem in auto)
  have d: "distinct (map fst out)"
  proof -
    have "inj_on cd_node_idx (set results)"
    proof (rule inj_onI)
      fix x y assume "x \<in> set results" "y \<in> set results" "cd_node_idx x = cd_node_idx y"
      moreover obtain i j where "x = ?c i" "y = ?c j" using calculation(1,2) R(2) by blast
      ultimately show "x = y" by simp
    qed
    then have "distinct (map cd_node_idx results)" using R(1) by (simp add: distinct_map)
    moreover have "mset (map fst out) = mset (map cd_node_idx results)"
      using arg_cong [OF Q(2), of "image_mset cd_node_idx"] by (simp add: out_def multiset.map_comp comp_def)
    ultimately show ?thesis by (metis mset_eq_imp_distinct_iff)
  qed
  have so: "sorted_wrt (\<lambda>a b. total_cmp_f32 (vo_f32 N) (snd a) (snd b) \<noteq> Greater) out"
    using sorted_sort_cmp [OF cmp_ok_image [OF cmp_ok_total_cmp [OF assms(1)]], of snd "map ?f (Q results)"]
    by (simp add: out_def by_distance_def [abs_def])
  have cl: "close_to N ix query ef out v" if v: "v \<in> V" for v
  proof (cases "?c v \<in> set results")
    case True
    then show ?thesis using v ids unfolding close_to_def by blast
  next
    case False
    then have "length out = ef" "\<forall>r \<in> set results. candidate_cmp (vo_f32 N) r (?c v) \<noteq> Greater" using R(4) [OF v] s(2) by auto
    then have "length out = ef" "\<forall>r \<in> set results. total_cmp_f32 (vo_f32 N) (cd_distance r) (node_dist N ix query v) \<noteq> Greater"
      using candidate_cmp_distance by fastforce+
    then show ?thesis unfolding close_to_def s(1) by auto
  qed
  have ne: "out \<noteq> []"
  proof
    assume "out = []"
    then have "results = []" using s(2) by simp
    then show False using R(4) [OF V(1)] assms(3) by auto
  qed
  have small: "fst ` set out = reachable ix l ep" if less: "length out < ef"
  proof
    show "fst ` set out \<subseteq> reachable ix l ep" using V(2) ids by (auto simp: reachable_def)
    have all: "v \<in> fst ` set out" if "v \<in> V" for v using cl [OF that] less by (simp add: close_to_def)
    have "i \<in> V" if "(\<lambda>i j. j \<in> set (nbrs ix l i))\<^sup>*\<^sup>* ep i" for i
      using that
    proof induction
      case (step y z)
      then show ?case using V(3) [of y] less s(2) by auto
    qed (rule V(1))
    then show "reachable ix l ep \<subseteq> fst ` set out" using all by (auto simp: reachable_def)
  qed
  have nb: "close_to N ix query ef out j" if x: "x \<in> set out" and j: "j \<in> set (nbrs ix l (fst x))" for x j
  proof -
    obtain i where "i \<in> V" "?c i \<in> set results" "x = (i, node_dist N ix query i)" using mem [THEN iffD1, OF x] by blast
    then show ?thesis using j V(3) [of i] cl by auto
  qed
  have pts: "snd x = node_dist N ix query (fst x) \<and> fst x < length (hx_nodes ix) \<and> l < levels ix (fst x) \<and> fst x \<in> reachable ix l ep"
    if x: "x \<in> set out" for x
  proof -
    obtain i where "i \<in> V" "x = (i, node_dist N ix query i)" using mem [THEN iffD1, OF x] by blast
    then show ?thesis using V(2) [of i] by (simp add: reachable_def)
  qed
  have "length out \<le> ef" using R(3) s(2) by simp
  then show ?thesis unfolding layer_found_def out_def [symmetric]
    using so ne d pts nb small cl [OF V(1)] by blast
qed

lemma search_layer_found:
  assumes "f32_ok (vo_f32 N)" "order_ok Q" "graph_ok ix" "length query = vec_size ix" "ef > 0"
    and "ep < length (hx_nodes ix)" "l < levels ix ep"
  shows "\<exists>out. search_layer N Q ix query [ep] ef l = Inr out \<and> layer_found N ix query ef l ep out"
proof -
  have e: "enter_points N ix query [ep] ([], [], []) = Inr ([ep], [cand N ix query ep], [cand N ix query ep])"
    using distance_to_node_ok [OF assms(3,4,6), of N] by (simp add: cand_def bh_push_def Let_def)
  have "beam_inv N ix query ef l ep {} ([ep], [cand N ix query ep], [cand N ix query ep])"
    using assms(5-7) by (simp add: beam_inv_def nearest_of_def)
  from search_loop_end [OF assms(1,3-5) this] obtain V results where
    "search_loop N ix query ef l ([ep], [cand N ix query ep], [cand N ix query ep]) = Inr results"
    "beam_end N ix query ef l ep V results" by blast
  with e beam_end_found [OF assms(1,2,5)] show ?thesis by (simp add: search_layer_def)
qed

section \<open>The search of an index\<close>

lemma layer_found_hd:
  "layer_found N ix query ef l ep out \<Longrightarrow> \<exists>i d rest. out = (i, d) # rest \<and> i < length (hx_nodes ix) \<and> l < levels ix i"
  by (cases out) (auto simp: layer_found_def)

text \<open>Going down through layers the current node has.\<close>

lemma descend_ok:
  assumes "f32_ok (vo_f32 N)" "order_ok Q" "graph_ok ix" "length query = vec_size ix"
    and "cur < length (hx_nodes ix)" "sorted_wrt (>) layers" "\<forall>l \<in> set layers. l < levels ix cur"
  shows "\<exists>c. descend N Q ix query ef layers cur = Inr c \<and> c < length (hx_nodes ix) \<and>
     (\<forall>b. (\<forall>l \<in> set layers. b \<le> l) \<longrightarrow> b < levels ix cur \<longrightarrow> b < levels ix c)"
  using assms(5-7)
proof (induction layers arbitrary: cur)
  case (Cons l ls)
  have "l < levels ix cur" "0 < max ef 1" using Cons.prems(3) by simp_all
  from search_layer_found [OF assms(1-4) this(2) Cons.prems(1) this(1)]
  obtain out where out: "search_layer N Q ix query [cur] (max ef 1) l = Inr out" "layer_found N ix query (max ef 1) l cur out" by blast
  then obtain i d rest where i: "out = (i, d) # rest" "i < length (hx_nodes ix)" "l < levels ix i" using layer_found_hd by blast
  have "\<forall>l' \<in> set ls. l' < levels ix i" using Cons.prems(2) i(3) by auto
  from Cons.IH [OF i(2) _ this] Cons.prems(2)
  obtain c where c: "descend N Q ix query ef ls i = Inr c" "c < length (hx_nodes ix)"
    "\<And>b. (\<forall>l \<in> set ls. b \<le> l) \<Longrightarrow> b < levels ix i \<Longrightarrow> b < levels ix c" by auto
  then show ?case using out(1) i(1,3) by auto
qed simp

definition entry_point_ok :: "HnswIndex \<Rightarrow> bool" where
  "entry_point_ok ix \<longleftrightarrow> hx_nodes ix = [] \<or>
     (hx_entry_point ix < length (hx_nodes ix) \<and> levels ix (hx_entry_point ix) = hx_max_layer ix + 1)"

lemma sorted_rev_upt: "sorted_wrt (>) (rev [a..<b :: nat])"
  by (simp add: sorted_wrt_rev)

lemma descend_entry:
  assumes "f32_ok (vo_f32 N)" "order_ok Q" "graph_ok ix" "length query = vec_size ix" "entry_point_ok ix" "hx_nodes ix \<noteq> []"
    and "low \<le> hx_max_layer ix"
  shows "\<exists>c. descend N Q ix query ef (rev [low + 1..<hx_max_layer ix + 1]) (hx_entry_point ix) = Inr c \<and>
     c < length (hx_nodes ix) \<and> low < levels ix c"
proof -
  have e: "hx_entry_point ix < length (hx_nodes ix)" "levels ix (hx_entry_point ix) = hx_max_layer ix + 1"
    using assms(5,6) by (auto simp: entry_point_ok_def)
  have "\<forall>l \<in> set (rev [low + 1..<hx_max_layer ix + 1]). l < levels ix (hx_entry_point ix)" using e(2) by auto
  from descend_ok [OF assms(1-4) e(1) sorted_rev_upt this, of ef] obtain c where c:
    "descend N Q ix query ef (rev [low + 1..<hx_max_layer ix + 1]) (hx_entry_point ix) = Inr c" "c < length (hx_nodes ix)"
    "\<And>b. (\<forall>l \<in> set (rev [low + 1..<hx_max_layer ix + 1]). b \<le> l) \<Longrightarrow> b < levels ix (hx_entry_point ix) \<Longrightarrow> b < levels ix c"
    by blast
  have "low < levels ix c" by (rule c(3)) (use e(2) assms(7) in auto)
  with c show ?thesis by blast
qed

text \<open>The nodes a search returns, in order.\<close>

definition hits :: "('f, 'd) vec_ops \<Rightarrow> HnswIndex \<Rightarrow> bytes \<Rightarrow> usize list \<Rightarrow> (bytes \<times> 'f) list" where
  "hits N ix query is = map (\<lambda>i. (hn_vector_id (hx_nodes ix ! i), node_dist N ix query i)) is"

definition connected :: "HnswIndex \<Rightarrow> bool" where
  "connected ix \<longleftrightarrow> (\<forall>i < length (hx_nodes ix). reachable ix 0 i = {..<length (hx_nodes ix)})"

definition k_nearest :: "('f, 'd) vec_ops \<Rightarrow> HnswIndex \<Rightarrow> bytes \<Rightarrow> nat \<Rightarrow> usize list \<Rightarrow> bool" where
  "k_nearest N ix query k is \<longleftrightarrow> length is = min k (length (hx_nodes ix)) \<and>
     (\<forall>i \<in> set is. \<forall>j < length (hx_nodes ix). j \<notin> set is \<longrightarrow>
        total_cmp_f32 (vo_f32 N) (node_dist N ix query i) (node_dist N ix query j) \<noteq> Greater)"

lemma hnsw_search_layer0:
  assumes "f32_ok (vo_f32 N)" "order_ok Q" "graph_ok ix" "entry_point_ok ix" "length query = vec_size ix" "ef > 0"
    and "length (hx_nodes ix) > 1"
  shows "\<exists>c out. c < length (hx_nodes ix) \<and> layer_found N ix query (max ef k) 0 c out \<and>
     hnsw_search N Q ix query k ef = Inr (hits N ix query (take k (map fst out)))"
proof -
  have ne: "hx_nodes ix \<noteq> []" using assms(7) by auto
  from descend_entry [OF assms(1-3,5,4) ne, of 0 "max ef k"] obtain c where c:
    "descend N Q ix query (max ef k) (rev [1..<hx_max_layer ix + 1]) (hx_entry_point ix) = Inr c" "c < length (hx_nodes ix)" "0 < levels ix c"
    by auto
  have "0 < max ef k" using assms(6) by simp
  from search_layer_found [OF assms(1-3,5) this c(2,3)] obtain out where
    out: "search_layer N Q ix query [c] (max ef k) 0 = Inr out" "layer_found N ix query (max ef k) 0 c out" by blast
  let ?m = "map (\<lambda>(idx, dist). (hn_vector_id (hx_nodes ix ! idx), dist)) (take k out)"
  have "\<forall>x \<in> set out. snd x = node_dist N ix query (fst x)" using out(2) unfolding layer_found_def by blast
  then have m: "?m = hits N ix query (take k (map fst out))"
    by (auto simp: hits_def take_map [symmetric] case_prod_beta comp_def intro!: arg_cong [of _ _ "take k"])
  have "sorted_wrt (\<lambda>a b. total_cmp_f32 (vo_f32 N) (snd a) (snd b) \<noteq> Greater) (take k out)"
    using out(2) unfolding layer_found_def by (metis append_take_drop_id sorted_wrt_append)
  then have "sort_by (by_distance (vo_f32 N)) ?m = ?m"
    by (intro sort_by_id) (simp add: by_distance_def sorted_wrt_map case_prod_beta)
  then have "hnsw_search N Q ix query k ef = Inr ?m"
    using c(1) out(1) ne assms(7) by (simp add: hnsw_search_def Let_def)
  with m c(2) out(2) show ?thesis by auto
qed

end
