(* ===== verification/HnswInsert.thy ===== *)
theory HnswInsert
  imports HnswFacts
begin

text \<open>
  Insertion keeps the graph well-formed: every edge stays within the graph and its layer, no node
  has more than \<open>m\<close> neighbours on a layer, none is its own neighbour, and the entry point is on
  the highest layer.
\<close>

section \<open>Changing neighbours\<close>

definition shape :: "HnswIndex \<Rightarrow> (bytes \<times> bytes \<times> nat) list \<times> HnswIndex" where
  "shape ix = (map (\<lambda>node. (hn_vector_id node, hn_vector_data node, length (hn_neighbors node))) (hx_nodes ix), ix\<lparr>hx_nodes := []\<rparr>)"

lemma shape_nodes:
  assumes "shape ix = shape ix'"
  shows "length (hx_nodes ix) = length (hx_nodes ix')"
    and "i < length (hx_nodes ix') \<Longrightarrow> hn_vector_data (hx_nodes ix ! i) = hn_vector_data (hx_nodes ix' ! i)"
    and "i < length (hx_nodes ix') \<Longrightarrow> levels ix i = levels ix' i"
proof -
  let ?f = "\<lambda>node. (hn_vector_id node, hn_vector_data node, length (hn_neighbors node))"
  have m: "map ?f (hx_nodes ix) = map ?f (hx_nodes ix')" using assms by (simp add: shape_def)
  show l: "length (hx_nodes ix) = length (hx_nodes ix')" by (rule map_eq_imp_length_eq [OF m])
  have "?f (hx_nodes ix ! i) = ?f (hx_nodes ix' ! i)" if "i < length (hx_nodes ix')" for i
    using arg_cong [OF m, of "\<lambda>xs. xs ! i"] that l by simp
  then show "i < length (hx_nodes ix') \<Longrightarrow> hn_vector_data (hx_nodes ix ! i) = hn_vector_data (hx_nodes ix' ! i)"
    "i < length (hx_nodes ix') \<Longrightarrow> levels ix i = levels ix' i" by (simp_all add: levels_def)
qed

lemma shape_fields:
  assumes "shape ix = shape ix'"
  shows "hx_entry_point ix = hx_entry_point ix'" "hx_max_layer ix = hx_max_layer ix'" "hx_m ix = hx_m ix'"
    "hx_ef_construction ix = hx_ef_construction ix'" "hx_dims ix = hx_dims ix'" "hx_dtype ix = hx_dtype ix'"
    "hx_metric ix = hx_metric ix'" "vec_size ix = vec_size ix'"
  using assms by (cases ix; cases ix'; simp add: shape_def vec_size_def)+

lemma set_neighbors_shape: "i < length (hx_nodes ix) \<Longrightarrow> shape (set_neighbors i l ns ix) = shape ix"
  by (auto simp: shape_def set_neighbors_def Let_def map_update intro!: list_update_same_conv [THEN iffD2])

lemma set_neighbors_nbrs:
  assumes "i < length (hx_nodes ix)" "l < levels ix i" "j < length (hx_nodes ix)"
  shows "nbrs (set_neighbors i l ns ix) l' j = (if j = i \<and> l' = l then ns else nbrs ix l' j)"
  using assms by (auto simp: set_neighbors_def nbrs_def levels_def layer_neighbors_def Let_def nth_list_update)

lemma set_neighbors_twice:
  "i < length (hx_nodes ix) \<Longrightarrow> set_neighbors i l ns' (set_neighbors i l ns ix) = set_neighbors i l ns' ix"
  by (simp add: set_neighbors_def Let_def)

lemma layer_neighbors_set:
  "i < length (hx_nodes ix) \<Longrightarrow> l < levels ix i \<Longrightarrow> layer_neighbors (set_neighbors i l ns ix) i l = ns"
  by (simp add: layer_neighbors_def set_neighbors_def Let_def levels_def)

lemma layer_neighbors_nbrs: "l < levels ix i \<Longrightarrow> layer_neighbors ix i l = nbrs ix l i"
  by (simp add: nbrs_def)

section \<open>Bounded degree\<close>

definition edges_ok :: "nat \<Rightarrow> HnswIndex \<Rightarrow> bool" where
  "edges_ok m ix \<longleftrightarrow> graph_ok ix \<and>
     (\<forall>i < length (hx_nodes ix). \<forall>l. length (nbrs ix l i) \<le> m \<and> i \<notin> set (nbrs ix l i))"

definition fits_layer :: "HnswIndex \<Rightarrow> nat \<Rightarrow> usize \<Rightarrow> bool" where
  "fits_layer ix l j \<longleftrightarrow> j < length (hx_nodes ix) \<and> l < levels ix j"

lemma fits_layer_shape: "shape ix = shape ix' \<Longrightarrow> fits_layer ix l j = fits_layer ix' l j"
  using shape_nodes [of ix ix'] by (auto simp: fits_layer_def)

lemma edges_ok_nbrs: "edges_ok m ix \<Longrightarrow> i < length (hx_nodes ix) \<Longrightarrow> j \<in> set (nbrs ix l i) \<Longrightarrow> fits_layer ix l j"
  unfolding edges_ok_def graph_ok_def fits_layer_def by blast

lemma edges_ok_set:
  assumes "edges_ok m ix" "fits_layer ix l i" "\<forall>j \<in> set ns. fits_layer ix l j \<and> j \<noteq> i" "length ns \<le> m"
  shows "edges_ok m (set_neighbors i l ns ix)"
proof -
  let ?ix = "set_neighbors i l ns ix"
  have i: "i < length (hx_nodes ix)" "l < levels ix i" using assms(2) by (auto simp: fits_layer_def)
  note sh = set_neighbors_shape [OF i(1), of l ns]
  note nb = set_neighbors_nbrs [OF i]
  have "j < length (hx_nodes ?ix) \<and> l' < levels ?ix j" if "k < length (hx_nodes ix)" "j \<in> set (nbrs ?ix l' k)" for k l' j
  proof -
    have "fits_layer ix l' j" using that nb [OF that(1)] assms(3) edges_ok_nbrs [OF assms(1) that(1)] by (auto split: if_splits)
    then show ?thesis using fits_layer_shape [OF sh] by (simp add: fits_layer_def)
  qed
  moreover have "length (hn_vector_data (hx_nodes ?ix ! k)) = vec_size ?ix" if "k < length (hx_nodes ix)" for k
    using assms(1) that shape_nodes(2) [OF sh that] shape_fields(8) [OF sh] by (simp add: edges_ok_def graph_ok_def)
  ultimately have "graph_ok ?ix" using shape_nodes(1) [OF sh] by (simp add: graph_ok_def)
  moreover have "length (nbrs ?ix l' k) \<le> m \<and> k \<notin> set (nbrs ?ix l' k)" if "k < length (hx_nodes ix)" for k l'
    using assms(1,3,4) that nb [OF that] by (auto simp: edges_ok_def)
  ultimately show ?thesis using shape_nodes(1) [OF sh] by (simp add: edges_ok_def)
qed

text \<open>
  A list of neighbours that is pruned can be sorted without a panic: it has at most 20 elements, or
  no two vectors of the index have a distance that is NaN.
\<close>

definition sortable :: "('f, 'd) vec_ops \<Rightarrow> nat \<Rightarrow> HnswIndex \<Rightarrow> bool" where
  "sortable N m ix \<longleftrightarrow> m + 1 \<le> SMALL_SORT_MAX \<or>
     (\<forall>i < length (hx_nodes ix). \<forall>j < length (hx_nodes ix). \<forall>d.
        distance N (hn_vector_data (hx_nodes ix ! i)) (hn_vector_data (hx_nodes ix ! j)) (hx_dtype ix) (hx_metric ix) = Inr d \<longrightarrow>
        \<not> f_is_nan (vo_f32 N) d)"

lemma sortable_shape:
  assumes "shape ix = shape ix'"
  shows "sortable N m ix = sortable N m ix'"
proof -
  have "hx_dtype ix = hx_dtype ix'" "hx_metric ix = hx_metric ix'" "length (hx_nodes ix) = length (hx_nodes ix')"
    using shape_fields(6,7) [OF assms] shape_nodes(1) [OF assms] by blast+
  then show ?thesis using shape_nodes(2) [OF assms] by (auto simp: sortable_def)
qed

lemma length_map_filter: "length (List.map_filter f xs) \<le> length xs"
  by (simp add: map_filter_def)

lemma prune_set:
  assumes "i < length (hx_nodes ix)" "l < levels ix i" "\<forall>j \<in> set ns. j < length (hx_nodes ix)" "length ns > m"
    and "sortable N m ix" "length ns \<le> m + 1"
  shows "\<exists>ns'. prune_neighbors N i l m (set_neighbors i l ns ix) = (set_neighbors i l ns' ix, Inr ()) \<and>
     set ns' \<subseteq> set ns \<and> length ns' \<le> m"
proof -
  let ?ix = "set_neighbors i l ns ix" and ?c = "\<lambda>a b. case f_partial_cmp (vo_f32 N) (snd a) (snd b) of None \<Rightarrow> Equal | Some ord \<Rightarrow> ord"
  note sh = set_neighbors_shape [OF assms(1), of l ns]
  have len: "length (hx_nodes ?ix) = length (hx_nodes ix)" using shape_nodes(1) [OF sh] by blast
  define ds where "ds = List.map_filter (\<lambda>n. if n = i then None
      else case distance N (hn_vector_data (hx_nodes ?ix ! i)) (hn_vector_data (hx_nodes ?ix ! n)) (hx_dtype ?ix) (hx_metric ?ix) of
             Inl _ \<Rightarrow> None | Inr d \<Rightarrow> Some (n, d)) ns"
  have "length ds \<le> SMALL_SORT_MAX \<or> \<not> list_ex (\<lambda>(n, d). f_is_nan (vo_f32 N) d) ds"
  proof (cases "m + 1 \<le> SMALL_SORT_MAX")
    case True
    have "length ds \<le> length ns" unfolding ds_def by (rule length_map_filter)
    then show ?thesis using True assms(6) by simp
  next
    case False
    moreover have "sortable N m ?ix" using assms(5) sortable_shape [OF sh, of N m] by simp
    ultimately have "\<not> f_is_nan (vo_f32 N) d" if "(n, d) \<in> set ds" for n d
      using that assms(1,3) len by (auto simp: sortable_def ds_def map_filter_def split: if_splits sum.splits)
    then show ?thesis by (auto simp: list_ex_iff)
  qed
  then have nan: "\<not> (length ds > SMALL_SORT_MAX \<and> list_ex (\<lambda>(n, d). f_is_nan (vo_f32 N) d) ds)" by auto
  have "fst ` set ds \<subseteq> set ns" by (auto simp: ds_def map_filter_def split: if_splits sum.splits)
  moreover have "set (take m (sort_by ?c ds)) \<subseteq> set ds" using set_take_subset by fastforce
  ultimately have "set (map fst (take m (sort_by ?c ds))) \<subseteq> set ns" by auto
  moreover have "prune_neighbors N i l m ?ix = (set_neighbors i l (map fst (take m (sort_by ?c ds))) ix, Inr ())"
    using assms(1-4) len nan unfolding prune_neighbors_def Let_def ds_def [symmetric] layer_neighbors_set [OF assms(1,2)]
    by (simp add: set_neighbors_twice list_ex_iff ds_def [symmetric])
  ultimately show ?thesis by (intro exI [of _ "map fst (take m (sort_by ?c ds))"]) simp
qed

lemma connect_ok:
  assumes "edges_ok m ix" "fits_layer ix l i" "\<forall>j \<in> set ns. fits_layer ix l j" "length (nbrs ix l i) + length ns \<le> m"
    and "sortable N m ix"
  shows "\<exists>ix'. connect N i l m ns ix = (ix', Inr ()) \<and> edges_ok m ix' \<and> shape ix' = shape ix \<and>
     (\<forall>l'. l' \<noteq> l \<longrightarrow> nbrs ix' l' i = nbrs ix l' i)"
  using assms
proof (induction ns arbitrary: ix)
  case (Cons n ns)
  show ?case
  proof (cases "n = i")
    case False
    have i: "i < length (hx_nodes ix)" "l < levels ix i" "n < length (hx_nodes ix)" "l < levels ix n" "fits_layer ix l n"
      using Cons.prems(2,3) by (auto simp: fits_layer_def)
    let ?ix1 = "set_neighbors i l (layer_neighbors ix i l @ [n]) ix"
    have nn: "layer_neighbors ix i l = nbrs ix l i" using i(2) by (rule layer_neighbors_nbrs)
    have "\<forall>j \<in> set (nbrs ix l i @ [n]). fits_layer ix l j \<and> j \<noteq> i"
      using edges_ok_nbrs [OF Cons.prems(1) i(1)] i(5) False Cons.prems(1) i(1) by (auto simp: edges_ok_def)
    then have e1: "edges_ok m ?ix1" unfolding nn using Cons.prems(1,2,4) by (intro edges_ok_set) auto
    have s1: "shape ?ix1 = shape ix" by (rule set_neighbors_shape [OF i(1)])
    have n1: "n < length (hx_nodes ?ix1)" "l < levels ?ix1 n" "i < length (hx_nodes ?ix1)" "fits_layer ?ix1 l n" "fits_layer ?ix1 l i"
      using fits_layer_shape [OF s1] Cons.prems(2) i(5) by (auto simp: fits_layer_def)
    define ms where "ms = layer_neighbors ?ix1 n l @ [i]"
    let ?ix2 = "set_neighbors n l ms ?ix1"
    have ms: "fits_layer ?ix1 l j \<and> j \<noteq> n" if "j \<in> set ms" for j
      using that edges_ok_nbrs [OF e1 n1(1)] n1 False e1 by (auto simp: ms_def layer_neighbors_nbrs edges_ok_def)
    have "\<exists>ix3. connect N i l m (n # ns) ix = connect N i l m ns ix3 \<and> edges_ok m ix3 \<and> shape ix3 = shape ?ix1 \<and>
        (\<forall>l'. nbrs ix3 l' i = nbrs ?ix1 l' i)"
    proof (cases "length ms > m")
      case True
      have "\<forall>j \<in> set ms. j < length (hx_nodes ?ix1)" using ms by (auto simp: fits_layer_def)
      moreover have "length ms \<le> m + 1" using e1 n1(1) by (simp add: ms_def layer_neighbors_nbrs [OF n1(2)] edges_ok_def)
      moreover have "sortable N m ?ix1" using Cons.prems(5) sortable_shape [OF s1, of N m] by simp
      ultimately obtain ns' where ns': "prune_neighbors N n l m ?ix2 = (set_neighbors n l ns' ?ix1, Inr ())"
        "set ns' \<subseteq> set ms" "length ns' \<le> m" using prune_set [OF n1(1,2) _ True] by blast
      have "edges_ok m (set_neighbors n l ns' ?ix1)" using ns'(2,3) ms by (intro edges_ok_set [OF e1 n1(4)]) auto
      moreover have "connect N i l m (n # ns) ix = connect N i l m ns (set_neighbors n l ns' ?ix1)"
        using False n1(1,2) ns'(1) True
        by (simp add: Let_def ms_def [symmetric] layer_neighbors_set levels_def [symmetric] split: unit.split)
      ultimately show ?thesis
        using set_neighbors_shape [OF n1(1)] set_neighbors_nbrs [OF n1(1,2,3)] False by (intro exI [of _ "set_neighbors n l ns' ?ix1"]) simp
    next
      case less: False
      have "edges_ok m ?ix2" using ms less by (intro edges_ok_set [OF e1 n1(4)]) auto
      moreover have "connect N i l m (n # ns) ix = connect N i l m ns ?ix2"
        using False n1(1,2) less by (simp add: Let_def ms_def [symmetric] layer_neighbors_set levels_def [symmetric])
      ultimately show ?thesis
        using set_neighbors_shape [OF n1(1)] set_neighbors_nbrs [OF n1(1,2,3)] False by (intro exI [of _ ?ix2]) simp
    qed
    then obtain ix3 where ix3: "connect N i l m (n # ns) ix = connect N i l m ns ix3" "edges_ok m ix3" "shape ix3 = shape ix"
      "\<And>l'. nbrs ix3 l' i = (if l' = l then nbrs ix l i @ [n] else nbrs ix l' i)"
      using s1 set_neighbors_nbrs [OF i(1,2,1)] nn by auto
    have "length (nbrs ix3 l i) + length ns \<le> m" using Cons.prems(4) by (simp add: ix3(4))
    from Cons.IH [OF ix3(2) _ _ this] show ?thesis
      using Cons.prems(2,3,5) fits_layer_shape [OF ix3(3)] sortable_shape [OF ix3(3), of N m] ix3 by auto
  qed (use Cons in auto)
qed simp

section \<open>Selection\<close>

lemma select_loop_sub:
  "select_loop N ix i m cs (sel, disc) = (sel', disc') \<Longrightarrow> set sel' \<union> set disc' \<subseteq> set sel \<union> set disc \<union> (fst ` set cs - {i})"
proof (induction cs arbitrary: sel disc)
  case (Cons c cs)
  obtain j d where c: "c = (j, d)" by fastforce
  consider "j = i" | "j \<noteq> i" "sel = []" | "j \<noteq> i" "sel \<noteq> []" by blast
  then show ?case
  proof cases
    case 1
    then show ?thesis using Cons c by auto
  next
    case 2
    then show ?thesis using Cons.IH [of "[j]" disc] Cons.prems c by auto
  next
    case 3
    define P where "P = is_diverse N ix j d sel"
    define sel1 where "sel1 = (if P then sel @ [j] else sel)"
    define disc1 where "disc1 = (if P then disc else disc @ [j])"
    have "(if length sel1 \<ge> m then (sel1, disc1) else select_loop N ix i m cs (sel1, disc1)) = (sel', disc')"
      using Cons.prems 3 c by (auto simp: sel1_def disc1_def P_def split: if_splits)
    then have "set sel' \<union> set disc' \<subseteq> set sel1 \<union> set disc1 \<union> (fst ` set cs - {i})"
      using Cons.IH [of sel1 disc1] by (cases "length sel1 \<ge> m") auto
    moreover have "set sel1 \<union> set disc1 = insert j (set sel \<union> set disc)" by (auto simp: sel1_def disc1_def)
    moreover have "fst ` set (c # cs) - {i} = insert j (fst ` set cs - {i})" using c 3(1) by auto
    ultimately show ?thesis by blast
  qed
qed simp

lemma fill_slots_sub: "set (fill_slots m sel ds) \<subseteq> set sel \<union> set ds"
  by (induction m sel ds rule: fill_slots.induct) (auto simp: Let_def)

lemma select_neighbors_sub:
  "set (select_neighbors N ix i cs m) \<subseteq> fst ` set cs - {i}" "length (select_neighbors N ix i cs m) \<le> m"
proof -
  obtain sel disc where s: "select_loop N ix i m cs ([], []) = (sel, disc)" by fastforce
  have sub: "set sel \<union> set disc \<subseteq> fst ` set cs - {i}" using select_loop_sub [OF s] by simp
  have "set (select_neighbors N ix i cs m) \<subseteq> set (if length sel < m then fill_slots m sel disc else sel)"
    unfolding select_neighbors_def s using set_take_subset by fastforce
  also have "\<dots> \<subseteq> fst ` set cs - {i}" using sub fill_slots_sub [of m sel disc] by auto
  finally show "set (select_neighbors N ix i cs m) \<subseteq> fst ` set cs - {i}" .
  show "length (select_neighbors N ix i cs m) \<le> m" by (simp add: select_neighbors_def s)
qed

section \<open>Linking a node into its layers\<close>

lemma link_layers_ok:
  assumes "f32_ok (vo_f32 N)" "order_ok Q" "ef > 0" "length vec = vec_size ix"
    and "edges_ok m ix" "i < length (hx_nodes ix)" "cur < length (hx_nodes ix)" "sorted_wrt (>) ls"
    and "\<forall>l \<in> set ls. l < levels ix i \<and> l < levels ix cur \<and> nbrs ix l i = []"
    and "sortable N m ix"
  shows "\<exists>ix'. link_layers N Q i vec m ef ls cur ix = (ix', Inr ()) \<and> edges_ok m ix' \<and> shape ix' = shape ix"
  using assms(4-10)
proof (induction ls arbitrary: cur ix)
  case (Cons l ls)
  have g: "graph_ok ix" using Cons.prems(2) by (simp add: edges_ok_def)
  have l: "l < levels ix i" "l < levels ix cur" "nbrs ix l i = []" using Cons.prems(6) by auto
  from search_layer_found [OF assms(1,2) g Cons.prems(1) assms(3) Cons.prems(4) l(2)]
  obtain knn where knn: "search_layer N Q ix vec [cur] ef l = Inr knn" "layer_found N ix vec ef l cur knn" by blast
  obtain c d rest where c: "knn = (c, d) # rest" "c < length (hx_nodes ix)" "l < levels ix c" using layer_found_hd [OF knn(2)] by blast
  let ?sel = "select_neighbors N ix i knn m"
  have "\<forall>x \<in> set knn. fits_layer ix l (fst x)" using knn(2) unfolding layer_found_def fits_layer_def by blast
  then have "\<forall>j \<in> set ?sel. fits_layer ix l j" using select_neighbors_sub(1) [of N ix i knn m] by blast
  moreover have "length (nbrs ix l i) + length ?sel \<le> m" using select_neighbors_sub(2) by (simp add: l(3))
  moreover have "fits_layer ix l i" using Cons.prems(3) l(1) by (simp add: fits_layer_def)
  ultimately obtain ix1 where ix1: "connect N i l m ?sel ix = (ix1, Inr ())" "edges_ok m ix1" "shape ix1 = shape ix"
    "\<And>l'. l' \<noteq> l \<Longrightarrow> nbrs ix1 l' i = nbrs ix l' i" using connect_ok [OF Cons.prems(2) _ _ _ Cons.prems(7)] by blast
  have len: "length (hx_nodes ix1) = length (hx_nodes ix)" "vec_size ix1 = vec_size ix"
    using shape_nodes(1) [OF ix1(3)] shape_fields(8) [OF ix1(3)] by simp_all
  have lev: "levels ix1 j = levels ix j" if "j < length (hx_nodes ix)" for j using shape_nodes(3) [OF ix1(3) that] .
  have "\<forall>l' \<in> set ls. l' < levels ix1 i \<and> l' < levels ix1 c \<and> nbrs ix1 l' i = []"
    using Cons.prems(5,6) c(3) ix1(4) lev [OF Cons.prems(3)] lev [OF c(2)] by fastforce
  then obtain ix2 where "link_layers N Q i vec m ef ls c ix1 = (ix2, Inr ())" "edges_ok m ix2" "shape ix2 = shape ix1"
    using Cons.IH [of ix1 c] Cons.prems(1,3,5,7) sortable_shape [OF ix1(3), of N m] ix1(2) c(2) len by auto
  then show ?case using knn(1) c(1) ix1(1,3) by (simp split: unit.split)
qed simp

section \<open>The invariant of an index\<close>

definition hnsw_inv :: "HnswIndex \<Rightarrow> bool" where
  "hnsw_inv ix \<longleftrightarrow> edges_ok (hx_m ix) ix \<and> entry_point_ok ix \<and>
     (\<forall>i < length (hx_nodes ix). 0 < levels ix i \<and> levels ix i \<le> hx_max_layer ix + 1)"

definition vectors :: "HnswIndex \<Rightarrow> (bytes \<times> bytes) list" where
  "vectors ix = map (\<lambda>node. (hn_vector_id node, hn_vector_data node)) (hx_nodes ix)"

lemma shape_vectors: "shape ix = shape ix' \<Longrightarrow> vectors ix = vectors ix'"
proof -
  assume "shape ix = shape ix'"
  then have "map (\<lambda>(a, b, c). (a, b)) (fst (shape ix)) = map (\<lambda>(a, b, c). (a, b)) (fst (shape ix'))" by simp
  then show ?thesis by (simp add: shape_def vectors_def comp_def)
qed

lemma hnsw_inv_new: "hnsw_inv (HnswIndex_new dims t metric)"
  by (simp add: hnsw_inv_def edges_ok_def graph_ok_def entry_point_ok_def HnswIndex_new_def)

lemma layer_for_node_fields:
  assumes "layer_for_node N ix = (ix', layer)"
  shows "\<exists>seed. ix' = ix\<lparr>hx_rng_seed := seed\<rparr>"
  using assms by (auto simp: layer_for_node_def next_rng_def Let_def)

lemma entry_update [simp]:
  "levels (ix\<lparr>hx_entry_point := b, hx_max_layer := a\<rparr>) = levels ix" "nbrs (ix\<lparr>hx_entry_point := b, hx_max_layer := a\<rparr>) = nbrs ix"
  "edges_ok m (ix\<lparr>hx_entry_point := b, hx_max_layer := a\<rparr>) = edges_ok m ix"
proof -
  show 1: "levels (ix\<lparr>hx_entry_point := b, hx_max_layer := a\<rparr>) = levels ix" by (simp add: fun_eq_iff levels_def)
  show 2: "nbrs (ix\<lparr>hx_entry_point := b, hx_max_layer := a\<rparr>) = nbrs ix"
    by (simp add: fun_eq_iff nbrs_def layer_neighbors_def 1)
  show "edges_ok m (ix\<lparr>hx_entry_point := b, hx_max_layer := a\<rparr>) = edges_ok m ix"
    by (simp add: edges_ok_def graph_ok_def 1 2 vec_size_def)
qed

text \<open>No two of the vectors have a distance that is NaN.\<close>

definition no_nan_distance :: "('f, 'd) vec_ops \<Rightarrow> HnswIndex \<Rightarrow> bytes set \<Rightarrow> bool" where
  "no_nan_distance N ix V \<longleftrightarrow> (\<forall>a \<in> V. \<forall>b \<in> V. \<forall>d. distance N a b (hx_dtype ix) (hx_metric ix) = Inr d \<longrightarrow> \<not> f_is_nan (vo_f32 N) d)"

lemma insert_ok:
  assumes "f32_ok (vo_f32 N)" "order_ok Q" "hnsw_inv ix" "length vec = vec_size ix" "hx_ef_construction ix > 0" "hx_m ix \<noteq> 1"
    and "hx_m ix < SMALL_SORT_MAX \<or> no_nan_distance N ix (insert vec (snd ` set (vectors ix)))"
  shows "\<exists>ix'. hnsw_insert N Q vid vec ix = (ix', Inr (length (hx_nodes ix))) \<and> hnsw_inv ix' \<and>
     vectors ix' = vectors ix @ [(vid, vec)] \<and> hx_m ix' = hx_m ix \<and> hx_ef_construction ix' = hx_ef_construction ix \<and>
     hx_dims ix' = hx_dims ix \<and> hx_dtype ix' = hx_dtype ix \<and> hx_metric ix' = hx_metric ix"
proof -
  obtain ix0 layer where l: "layer_for_node N ix = (ix0, layer)" by fastforce
  have "layer \<le> 33" using layer_for_node_bound [OF l assms(6)] by (simp add: MAX_RANDOM_LAYER_def)
  then have cap: "\<not> layer + 1 > MAX_LISTS" by (simp add: MAX_LISTS_def)
  obtain seed where ix0: "ix0 = ix\<lparr>hx_rng_seed := seed\<rparr>" using layer_for_node_fields [OF l] by blast
  let ?n = "length (hx_nodes ix)" and ?node = "\<lparr> hn_vector_id = vid, hn_vector_data = vec, hn_neighbors = replicate (layer + 1) [] \<rparr>"
  let ?low = "min layer (hx_max_layer ix)"
  define ix1 where "ix1 = ix0\<lparr>hx_nodes := hx_nodes ix @ [?node]\<rparr>"
  have f1: "length (hx_nodes ix1) = Suc ?n" "hx_m ix1 = hx_m ix" "vec_size ix1 = vec_size ix" "hx_max_layer ix1 = hx_max_layer ix"
    "hx_entry_point ix1 = hx_entry_point ix" "hx_ef_construction ix1 = hx_ef_construction ix" "hx_dims ix1 = hx_dims ix"
    "hx_dtype ix1 = hx_dtype ix" "hx_metric ix1 = hx_metric ix" "vectors ix1 = vectors ix @ [(vid, vec)]"
    by (simp_all add: ix1_def ix0 vec_size_def vectors_def)
  have lev1: "levels ix1 i = (if i = ?n then layer + 1 else levels ix i)" if "i \<le> ?n" for i
    using that by (auto simp: levels_def ix1_def ix0 nth_append)
  have nb1: "nbrs ix1 l i = (if i = ?n then [] else nbrs ix l i)" if "i \<le> ?n" for l i
    using that lev1 [OF that] by (auto simp: nbrs_def layer_neighbors_def ix1_def ix0 nth_append simp del: replicate.simps)
  have e1: "edges_ok (hx_m ix) ix1"
  proof -
    have "length (hn_vector_data (hx_nodes ix1 ! i)) = vec_size ix" if "i \<le> ?n" for i
      using assms(3,4) that by (auto simp: hnsw_inv_def edges_ok_def graph_ok_def ix1_def nth_append)
    moreover have "j \<le> ?n \<and> l < levels ix1 j" if "i \<le> ?n" "j \<in> set (nbrs ix1 l i)" for i j l
    proof -
      have i: "i < ?n" "j \<in> set (nbrs ix l i)" using that nb1 [OF that(1)] by (auto split: if_splits)
      then have "j < ?n \<and> l < levels ix j" using assms(3) unfolding hnsw_inv_def edges_ok_def graph_ok_def by blast
      then show ?thesis using lev1 [of j] by simp
    qed
    moreover have "length (nbrs ix1 l i) \<le> hx_m ix \<and> i \<notin> set (nbrs ix1 l i)" if "i \<le> ?n" for i l
      using assms(3) that nb1 [OF that] by (auto simp: hnsw_inv_def edges_ok_def)
    ultimately show ?thesis by (simp add: edges_ok_def graph_ok_def f1(1,3) less_Suc_eq_le)
  qed
  show ?thesis
  proof (cases "?n = 0")
    case True
    let ?ix = "ix1\<lparr>hx_entry_point := 0, hx_max_layer := layer\<rparr>"
    have "hnsw_inv ?ix" using e1 lev1 [of 0] True f1(1,2) by (simp add: hnsw_inv_def entry_point_ok_def)
    moreover have "hnsw_insert N Q vid vec ix = (?ix, Inr ?n)"
      using True l cap by (simp add: hnsw_insert_def Let_def ix1_def ix0)
    ultimately show ?thesis using f1 by (auto simp: vectors_def)
  next
    case False
    then have ne: "hx_nodes ix1 \<noteq> []" by (simp add: ix1_def)
    have ent: "hx_entry_point ix < ?n" "levels ix (hx_entry_point ix) = hx_max_layer ix + 1"
      using assms(3) False by (auto simp: hnsw_inv_def entry_point_ok_def)
    have en1: "entry_point_ok ix1" using ent lev1 [of "hx_entry_point ix"] by (simp add: entry_point_ok_def f1)
    have g1: "graph_ok ix1" using e1 by (simp add: edges_ok_def)
    have v1: "length vec = vec_size ix1" using assms(4) f1(3) by simp
    have "hn_vector_data (hx_nodes ix1 ! i) \<in> insert vec (snd ` set (vectors ix))" if "i < length (hx_nodes ix1)" for i
      using that by (auto simp: ix1_def ix0 vectors_def nth_append less_Suc_eq image_image)
    then have sortable: "sortable N (hx_m ix) ix1"
      using assms(7) unfolding sortable_def no_nan_distance_def f1(8,9) Suc_eq_plus1 [symmetric] Suc_le_eq by blast
    have lowle: "?low \<le> hx_max_layer ix1" by (simp add: f1(4))
    obtain c where c: "descend N Q ix1 vec 1 (rev [?low + 1..<hx_max_layer ix + 1]) (hx_entry_point ix) = Inr c"
      "c < length (hx_nodes ix1)" "?low < levels ix1 c"
      using descend_entry [OF assms(1,2) g1 v1 en1 ne lowle, of 1] by (auto simp: f1)
    have "\<forall>l \<in> set (rev [0..<?low + 1]). l < levels ix1 ?n \<and> l < levels ix1 c \<and> nbrs ix1 l ?n = []"
      using c(3) lev1 [of ?n] nb1 [of ?n] by auto
    moreover have "?n < length (hx_nodes ix1)" by (simp add: f1(1))
    ultimately obtain ix2 where ix2: "link_layers N Q ?n vec (hx_m ix) (hx_ef_construction ix) (rev [0..<?low + 1]) c ix1 = (ix2, Inr ())"
      "edges_ok (hx_m ix) ix2" "shape ix2 = shape ix1"
      using link_layers_ok [OF assms(1,2,5) v1 e1 _ c(2) sorted_rev_upt _ sortable] by blast
    note sh = shape_fields [OF ix2(3)] shape_nodes(1) [OF ix2(3)] shape_vectors [OF ix2(3)]
    have lev2: "levels ix2 i = (if i = ?n then layer + 1 else levels ix i)" if "i \<le> ?n" for i
      using shape_nodes(3) [OF ix2(3), of i] lev1 [OF that] that f1(1) by simp
    define ix3 where "ix3 = (if layer > hx_max_layer ix2 then ix2\<lparr>hx_entry_point := ?n, hx_max_layer := layer\<rparr> else ix2)"
    have ins: "hnsw_insert N Q vid vec ix = (ix3, Inr ?n)"
      using False l cap c(1) ix2(1) by (simp add: hnsw_insert_def Let_def ix1_def [symmetric] ix0 ix1_def ix3_def split: unit.split)
    have f3: "hx_nodes ix3 = hx_nodes ix2" "hx_m ix3 = hx_m ix" "hx_ef_construction ix3 = hx_ef_construction ix"
      "hx_dims ix3 = hx_dims ix" "hx_dtype ix3 = hx_dtype ix" "hx_metric ix3 = hx_metric ix" "levels ix3 = levels ix2"
      "hx_max_layer ix3 = max layer (hx_max_layer ix)" "edges_ok m ix3 = edges_ok m ix2" for m
      using sh f1 by (simp_all add: ix3_def)
    have "edges_ok (hx_m ix) ix3" using ix2(2) by (simp only: f3)
    moreover have "entry_point_ok ix3" using ent lev2 sh f1 by (simp add: entry_point_ok_def ix3_def)
    moreover have "0 < levels ix3 i \<and> levels ix3 i \<le> hx_max_layer ix3 + 1" if "i \<le> ?n" for i
    proof (cases "i = ?n")
      case False
      then have "0 < levels ix i \<and> levels ix i \<le> hx_max_layer ix + 1" using that assms(3) by (simp add: hnsw_inv_def)
      then show ?thesis using lev2 [OF that] False by (auto simp: f3 max_def)
    qed (use lev2 [OF that] in \<open>simp add: f3\<close>)
    ultimately have "hnsw_inv ix3" using sh(9) f1(1) by (simp add: hnsw_inv_def f3(1,2) less_Suc_eq_le)
    moreover have "vectors ix3 = vectors ix @ [(vid, vec)]" using sh(10) f1(10) by (simp add: vectors_def f3(1))
    ultimately show ?thesis using ins f3(2-6) by blast
  qed
qed

section \<open>Properties\<close>

text \<open>Integers in place of floating-point numbers, for examples.\<close>

definition sample_vec :: "(int, int) vec_ops" where
  "sample_vec = \<lparr>
     vo_f32 = \<lparr> f_of_u64 = (\<lambda>w. int (unat w)), f_of_u32 = (\<lambda>w. int (unat w)), f_lit = (\<lambda>a b. a div b), f_add = (+), f_sub = (-),
       f_mul = (*), f_div = (div), f_ln = (\<lambda>x. x), f_eq = (=), f_is_nan = (\<lambda>x. False),
       f_partial_cmp = (\<lambda>a b. Some (compare_with (\<lambda>x. x) a b)) \<rparr>,
     vo_of_i8 = sint, vo_from_bits = sint, vo_powi2 = (\<lambda>i. i), vo_infinity = 0, vo_nan = 0, vo_neg = uminus, vo_sqrt = (\<lambda>x. x),
     vo_reduce_add = sum_list, vo_d_of_u64 = (\<lambda>w. int (unat w)), vo_d_of_usize = int, vo_d_lit = (\<lambda>a b. a), vo_d_mul = (*),
     vo_d_div = (div), vo_d_neg = uminus, vo_d_ln = (\<lambda>x. x), vo_d_max = max, vo_d_floor = nat \<rparr>"

lemma sample_vec_ok: "f32_ok (vo_f32 sample_vec)" "order_ok (\<lambda>xs. xs)"
  unfolding f32_ok_def sample_vec_def order_ok_def by (simp_all add: exI [of _ "\<lambda>x :: int. x"])

definition sample_graph :: HnswIndex where
  "sample_graph = (HnswIndex_new 1 I8 L2)\<lparr>hx_nodes :=
     [\<lparr> hn_vector_id = [1], hn_vector_data = [5], hn_neighbors = [[1]] \<rparr>,
      \<lparr> hn_vector_id = [2], hn_vector_data = [7], hn_neighbors = [[0]] \<rparr>]\<rparr>"

lemma sample_graph_fields [simp]:
  "length (hx_nodes sample_graph) = 2" "vec_size sample_graph = 1" "hx_max_layer sample_graph = 0"
  "hx_entry_point sample_graph = 0" "hx_m sample_graph = 16" "hx_ef_construction sample_graph = 100"
  by (simp_all add: sample_graph_def HnswIndex_new_def vec_size_def)

lemma sample_graph_nbrs: "i < 2 \<Longrightarrow> levels sample_graph i = 1 \<and> nbrs sample_graph l i = (if l = 0 then [1 - i] else [])"
  by (cases i) (auto simp: levels_def nbrs_def layer_neighbors_def sample_graph_def HnswIndex_new_def nth_Cons split: nat.split)

lemma sample_graph_inv: "hnsw_inv sample_graph"
proof -
  have "length (hn_vector_data (hx_nodes sample_graph ! i)) = 1" if "i < 2" for i
    using that by (auto simp: sample_graph_def HnswIndex_new_def nth_Cons split: nat.split)
  then have "graph_ok sample_graph" using sample_graph_nbrs by (auto simp: graph_ok_def split: if_splits)
  moreover have "i \<noteq> 1 - i" for i :: nat by arith
  ultimately show ?thesis using sample_graph_nbrs by (simp add: hnsw_inv_def edges_ok_def entry_point_ok_def)
qed

lemma sample_graph_connected: "connected sample_graph"
proof -
  let ?R = "\<lambda>i j. j \<in> set (nbrs sample_graph 0 i)"
  have step_iff: "?R i j \<longleftrightarrow> j = 1 - i" if "i < 2" for i j using sample_graph_nbrs [OF that, of 0] by simp
  have "?R\<^sup>*\<^sup>* i j \<longleftrightarrow> j < 2" if i: "i < 2" for i j
  proof
    assume "?R\<^sup>*\<^sup>* i j"
    then show "j < 2"
    proof induction
      case (step y z)
      then have "z = 1 - y" using step_iff by blast
      then show ?case by simp
    qed (rule i)
  next
    assume "j < 2"
    then have "j = i \<or> j = 1 - i" using i by arith
    then have "j = i \<or> ?R i j" using step_iff [OF i] by blast
    then show "?R\<^sup>*\<^sup>* i j" using r_into_rtranclp [of ?R i j] by blast
  qed
  then show ?thesis by (auto simp: connected_def reachable_def)
qed

text \<open>
  C18: Inserting a vector of the right size never fails and keeps the index well-formed: all edges
  stay within the graph and the layer they belong to, no node has more than \<open>m\<close> neighbours on a
  layer or is its own neighbour, and the entry point is a node of the highest layer. Nothing is
  lost: the stored vectors are the old ones with the new one at the end. The parameter \<open>m\<close> must not
  be 1, for which the random layer is infinite and the insertion panics, and with \<open>m \<ge> 20\<close> no two
  of the vectors may have a NaN distance, on which sorting the neighbours may panic.
\<close>

theorem hnsw_insert_keeps_graph:
  assumes "f32_ok (vo_f32 N)" "order_ok Q" "hnsw_inv ix" "length vec = vec_size ix" "hx_ef_construction ix > 0" "hx_m ix \<noteq> 1"
    and "hx_m ix < SMALL_SORT_MAX \<or> no_nan_distance N ix (insert vec (snd ` set (vectors ix)))"
  shows "\<exists>ix'. hnsw_insert N Q vid vec ix = (ix', Inr (length (hx_nodes ix))) \<and> hnsw_inv ix' \<and>
     vectors ix' = vectors ix @ [(vid, vec)]"
  using insert_ok [OF assms, of vid] by blast

theorem hnsw_insert_keeps_graph_witness:
  "\<exists>ix'. hnsw_insert sample_vec (\<lambda>xs. xs) [3] [9] sample_graph = (ix', Inr 2) \<and> hnsw_inv ix' \<and>
     vectors ix' = [([1], [5]), ([2], [7]), ([3], [9])]"
proof -
  have "vectors sample_graph = [([1], [5]), ([2], [7])]" by (simp add: vectors_def sample_graph_def)
  moreover have "length [9 :: byte] = vec_size sample_graph" "0 < hx_ef_construction sample_graph" by simp_all
  ultimately show ?thesis
    using hnsw_insert_keeps_graph [OF sample_vec_ok sample_graph_inv, of "[9]" "[3]"] by (simp add: SMALL_SORT_MAX_def)
qed

lemma hnsw_search_spec:
  assumes "f32_ok (vo_f32 N)" "order_ok Q" "hnsw_inv ix" "length query = vec_size ix" "ef > 0"
  shows "\<exists>is. hnsw_search N Q ix query k ef = Inr (hits N ix query is) \<and> distinct is \<and>
     set is \<subseteq> {..<length (hx_nodes ix)} \<and> (length (hx_nodes ix) \<noteq> 1 \<longrightarrow> length is \<le> k) \<and>
     sorted_wrt (\<lambda>i j. total_cmp_f32 (vo_f32 N) (node_dist N ix query i) (node_dist N ix query j) \<noteq> Greater) is \<and>
     (k > 0 \<and> connected ix \<and> length (hx_nodes ix) \<le> max ef k \<longrightarrow> k_nearest N ix query k is)"
proof -
  let ?n = "length (hx_nodes ix)" and ?le = "\<lambda>x y. total_cmp_f32 (vo_f32 N) (node_dist N ix query x) (node_dist N ix query y) \<noteq> Greater"
  have inv: "graph_ok ix" "entry_point_ok ix" using assms(3) by (simp_all add: hnsw_inv_def edges_ok_def)
  consider "?n = 0" | "?n = 1" | "?n > 1" by linarith
  then show ?thesis
  proof cases
    case 1
    then show ?thesis by (intro exI [of _ "[]"]) (simp add: hnsw_search_def hits_def k_nearest_def)
  next
    case 2
    then have "hnsw_search N Q ix query k ef = Inr (hits N ix query [0])"
      using distance_to_node_ok [OF inv(1) assms(4), of 0 N] by (cases "hx_nodes ix") (simp_all add: hnsw_search_def hits_def)
    then show ?thesis using 2 by (intro exI [of _ "[0]"]) (simp add: k_nearest_def)
  next
    case 3
    from hnsw_search_layer0 [OF assms(1,2) inv assms(4,5) 3, of k] obtain c out where c: "c < ?n"
      "layer_found N ix query (max ef k) 0 c out" "hnsw_search N Q ix query k ef = Inr (hits N ix query (take k (map fst out)))" by blast
    have o: "sorted_wrt (\<lambda>a b. total_cmp_f32 (vo_f32 N) (snd a) (snd b) \<noteq> Greater) out" "length out \<le> max ef k" "distinct (map fst out)"
      "\<And>x. x \<in> set out \<Longrightarrow> snd x = node_dist N ix query (fst x) \<and> fst x < ?n"
      "length out < max ef k \<Longrightarrow> fst ` set out = reachable ix 0 c"
      using c(2) unfolding layer_found_def by blast+
    have "sorted_wrt (\<lambda>a b. ?le (fst a) (fst b)) out"
      using o(4) by (intro sorted_wrt_mono_rel [OF _ o(1)]) auto
    then have so: "sorted_wrt ?le (map fst out)" by (simp add: sorted_wrt_map)
    have all: "sorted_wrt ?le (take k (map fst out) @ drop k (map fst out))" using so by simp
    let ?is = "take k (map fst out)"
    have "k_nearest N ix query k ?is" if "connected ix" "?n \<le> max ef k"
    proof -
      have set: "set (map fst out) = {..<?n}"
      proof (cases "length out < max ef k")
        case True
        then show ?thesis using o(5) that(1) c(1) by (simp add: connected_def)
      next
        case False
        then have "card (set (map fst out)) \<ge> ?n" using o(2,3) that(2) distinct_card [OF o(3)] by simp
        moreover have "set (map fst out) \<subseteq> {..<?n}" using o(4) by auto
        ultimately show ?thesis by (simp add: card_seteq)
      qed
      then have "length out = ?n" using distinct_card [OF o(3)] by simp
      moreover have "?le i j" if "i \<in> set ?is" "j < ?n" "j \<notin> set ?is" for i j
      proof -
        have "set (map fst out) = set ?is \<union> set (drop k (map fst out))" by (metis append_take_drop_id set_append)
        then have "j \<in> set ?is \<union> set (drop k (map fst out))" using set that(2) by blast
        then have "j \<in> set (drop k (map fst out))" using that(3) by simp
        with that(1) all show ?thesis by (auto simp: sorted_wrt_append simp del: append_take_drop_id)
      qed
      ultimately show ?thesis by (auto simp: k_nearest_def)
    qed
    moreover have "distinct ?is" "set ?is \<subseteq> {..<?n}" "length ?is \<le> k"
      using o(3,4) by (auto dest!: in_set_takeD)
    moreover have "sorted_wrt ?le ?is" using all by (simp only: sorted_wrt_append)
    ultimately show ?thesis using c(3) by blast
  qed
qed

text \<open>
  C17: A search of the index always returns, with distinct stored vectors and their true
  distances, sorted by distance, at most \<open>k\<close> of them (an index of one vector returns it for every
  \<open>k\<close>). When the beam is at least as wide as the graph and the lowest layer is connected, the
  result is exact: no vector that is left out is nearer than one that is returned.
\<close>

theorem hnsw_search_nearest:
  assumes "f32_ok (vo_f32 N)" "order_ok Q" "hnsw_inv ix" "length query = vec_size ix" "ef > 0"
  shows "\<exists>is. hnsw_search N Q ix query k ef = Inr (hits N ix query is) \<and> distinct is \<and>
     set is \<subseteq> {..<length (hx_nodes ix)} \<and> (length (hx_nodes ix) \<noteq> 1 \<longrightarrow> length is \<le> k) \<and>
     sorted_wrt (\<lambda>i j. total_cmp_f32 (vo_f32 N) (node_dist N ix query i) (node_dist N ix query j) \<noteq> Greater) is \<and>
     (k > 0 \<and> connected ix \<and> length (hx_nodes ix) \<le> max ef k \<longrightarrow> k_nearest N ix query k is)"
  using assms by (rule hnsw_search_spec)

theorem hnsw_search_nearest_witness:
  "\<exists>is. hnsw_search sample_vec (\<lambda>xs. xs) sample_graph [6] 2 50 = Inr (hits sample_vec sample_graph [6] is) \<and>
     k_nearest sample_vec sample_graph [6] 2 is"
  using hnsw_search_nearest [OF sample_vec_ok sample_graph_inv, of "[6]" 50 2] sample_graph_connected by auto

text \<open>
  C24: The beam search of one layer ends at a local optimum. From any node of the layer it returns
  between one and \<open>ef\<close> distinct nodes that it can reach, with their distances in order; every
  neighbour of a returned node (and the start) is returned itself, or \<open>ef\<close> nodes at most as far
  are. With fewer than \<open>ef\<close> results it has returned everything that can be reached.
\<close>

theorem beam_search_locally_optimal:
  assumes "f32_ok (vo_f32 N)" "order_ok Q" "hnsw_inv ix" "length query = vec_size ix" "ef > 0"
    and "ep < length (hx_nodes ix)" "l < levels ix ep"
  shows "\<exists>out. search_layer N Q ix query [ep] ef l = Inr out \<and> layer_found N ix query ef l ep out"
  using search_layer_found [OF assms(1,2) _ assms(4-7)] assms(3) by (simp add: hnsw_inv_def edges_ok_def)

theorem beam_search_locally_optimal_witness:
  "\<exists>out. search_layer sample_vec (\<lambda>xs. xs) sample_graph [6] [1] 1 0 = Inr out \<and>
     layer_found sample_vec sample_graph [6] 1 0 1 out"
  using beam_search_locally_optimal [OF sample_vec_ok sample_graph_inv, of "[6]" 1 1 0] sample_graph_nbrs [of 1] by simp

end
