(* ===== verification/Unicode.thy ===== *)
theory Unicode
  imports Prelude
begin

text \<open>
  Strings as the text crate uses them. A Rust \<open>String\<close> is a sequence of Unicode scalar values; its
  bytes (\<open>as_bytes\<close>, \<open>len\<close>) are their UTF-8 encoding, and \<open>String::from_utf8\<close> accepts exactly the
  well-formed byte sequences.
\<close>

type_synonym ustring = "nat list"

definition scalar :: "nat \<Rightarrow> bool" where
  "scalar c \<longleftrightarrow> c < 0xD800 \<or> 0xE000 \<le> c \<and> c < 0x110000"

definition utf8_char :: "nat \<Rightarrow> bytes" where
  "utf8_char c = map word_of_nat
     (if c < 0x80 then [c]
      else if c < 0x800 then [0xC0 + c div 64, 0x80 + c mod 64]
      else if c < 0x10000 then [0xE0 + c div 4096, 0x80 + c div 64 mod 64, 0x80 + c mod 64]
      else [0xF0 + c div 262144, 0x80 + c div 4096 mod 64, 0x80 + c div 64 mod 64, 0x80 + c mod 64])"

definition as_bytes :: "ustring \<Rightarrow> bytes" where
  "as_bytes s = concat (map utf8_char s)"

definition str_len :: "ustring \<Rightarrow> nat" where
  "str_len s = length (as_bytes s)"

text \<open>Decoding, with the ranges of well-formed sequences for the second byte.\<close>

definition cont :: "nat \<Rightarrow> nat \<Rightarrow> nat \<Rightarrow> bool" where
  "cont lo hi b \<longleftrightarrow> lo \<le> b \<and> b \<le> hi"

fun utf8_decode :: "nat list \<Rightarrow> ustring option" where
  "utf8_decode [] = Some []"
| "utf8_decode (a # bs) =
     (if a < 0x80 then map_option (Cons a) (utf8_decode bs)
      else if 0xC2 \<le> a \<and> a < 0xE0 then
        (case bs of b # bs' \<Rightarrow>
           if cont 0x80 0xBF b then map_option (Cons ((a - 0xC0) * 64 + (b - 0x80))) (utf8_decode bs') else None
         | _ \<Rightarrow> None)
      else if 0xE0 \<le> a \<and> a < 0xF0 then
        (case bs of b # c # bs' \<Rightarrow>
           if cont (if a = 0xE0 then 0xA0 else 0x80) (if a = 0xED then 0x9F else 0xBF) b \<and> cont 0x80 0xBF c
           then map_option (Cons ((a - 0xE0) * 4096 + (b - 0x80) * 64 + (c - 0x80))) (utf8_decode bs') else None
         | _ \<Rightarrow> None)
      else if 0xF0 \<le> a \<and> a < 0xF5 then
        (case bs of b # c # d # bs' \<Rightarrow>
           if cont (if a = 0xF0 then 0x90 else 0x80) (if a = 0xF4 then 0x8F else 0xBF) b \<and> cont 0x80 0xBF c \<and> cont 0x80 0xBF d
           then map_option (Cons ((a - 0xF0) * 262144 + (b - 0x80) * 4096 + (c - 0x80) * 64 + (d - 0x80))) (utf8_decode bs')
           else None
         | _ \<Rightarrow> None)
      else None)"

declare utf8_decode.simps(2) [simp del]

definition from_utf8 :: "bytes \<Rightarrow> ustring option" where
  "from_utf8 b = utf8_decode (map unat b)"

definition str_ok :: "ustring \<Rightarrow> bool" where
  "str_ok s \<longleftrightarrow> (\<forall>c \<in> set s. scalar c)"

section \<open>Round trip\<close>

lemma map_unat_bytes: "\<forall>x \<in> set xs. x < 256 \<Longrightarrow> map unat (map word_of_nat xs :: bytes) = xs"
  by (induction xs) (simp_all add: unat_of_nat)

text \<open>The digits of a number in base 64.\<close>

lemma base64_nested: "(c :: nat) div 4096 = c div 64 div 64" "c div 262144 = c div 64 div 64 div 64"
  by (simp_all add: div_mult2_eq [symmetric])

lemma base64_digits:
  "(c :: nat) div 64 * 64 + c mod 64 = c"
  "c div 4096 * 4096 + c div 64 mod 64 * 64 + c mod 64 = c"
  "c div 262144 * 262144 + c div 4096 mod 64 * 4096 + c div 64 mod 64 * 64 + c mod 64 = c"
proof -
  have a: "x = 64 * (x div 64) + x mod 64" for x :: nat by simp
  show "c div 64 * 64 + c mod 64 = c" by simp
  show "c div 4096 * 4096 + c div 64 mod 64 * 64 + c mod 64 = c"
    using a [of c] a [of "c div 64"] unfolding base64_nested by linarith
  show "c div 262144 * 262144 + c div 4096 mod 64 * 4096 + c div 64 mod 64 * 64 + c mod 64 = c"
    using a [of c] a [of "c div 64"] a [of "c div 64 div 64"] unfolding base64_nested by linarith
qed

lemma mod64_le: "(x :: nat) mod 64 \<le> 63"
  using mod_less_divisor [of 64 x] by linarith

lemma utf8_decode_seq:
  "2 \<le> x \<Longrightarrow> x < 32 \<Longrightarrow> y \<le> 63 \<Longrightarrow>
   utf8_decode ((0xC0 + x) # (0x80 + y) # bs) = map_option (Cons (x * 64 + y)) (utf8_decode bs)"
  "x < 16 \<Longrightarrow> y \<le> 63 \<Longrightarrow> z \<le> 63 \<Longrightarrow> (x = 0 \<Longrightarrow> 32 \<le> y) \<Longrightarrow> (x = 13 \<Longrightarrow> y \<le> 31) \<Longrightarrow>
   utf8_decode ((0xE0 + x) # (0x80 + y) # (0x80 + z) # bs) = map_option (Cons (x * 4096 + y * 64 + z)) (utf8_decode bs)"
  "x < 5 \<Longrightarrow> y \<le> 63 \<Longrightarrow> z \<le> 63 \<Longrightarrow> w \<le> 63 \<Longrightarrow> (x = 0 \<Longrightarrow> 16 \<le> y) \<Longrightarrow> (x = 4 \<Longrightarrow> y \<le> 15) \<Longrightarrow>
   utf8_decode ((0xF0 + x) # (0x80 + y) # (0x80 + z) # (0x80 + w) # bs) =
     map_option (Cons (x * 262144 + y * 4096 + z * 64 + w)) (utf8_decode bs)"
  by (simp_all add: utf8_decode.simps(2) cont_def)

lemma utf8_decode_char:
  assumes "scalar c"
  shows "utf8_decode (map unat (utf8_char c) @ bs) = map_option (Cons c) (utf8_decode bs)"
proof -
  have m: "c mod 64 \<le> 63" "c div 64 mod 64 \<le> 63" "c div 4096 mod 64 \<le> 63" by (rule mod64_le)+
  consider "c < 0x80" | "0x80 \<le> c" "c < 0x800" | "0x800 \<le> c" "c < 0x10000" | "0x10000 \<le> c" "c < 0x110000"
    using assms unfolding scalar_def by linarith
  then show ?thesis
  proof cases
    case 1
    then have "map unat (utf8_char c) = [c]" unfolding utf8_char_def by (subst map_unat_bytes) auto
    then show ?thesis using 1 by (simp add: utf8_decode.simps(2))
  next
    case 2
    then have q: "2 \<le> c div 64" "c div 64 < 32" by auto
    then have "map unat (utf8_char c) = [0xC0 + c div 64, 0x80 + c mod 64]"
      using 2 unfolding utf8_char_def by (subst map_unat_bytes) auto
    then show ?thesis using utf8_decode_seq(1) [OF q m(1), of bs] base64_digits(1) [of c] by simp
  next
    case 3
    then have q: "c div 4096 < 16" by auto
    have b: "c div 4096 = 0 \<Longrightarrow> 32 \<le> c div 64 mod 64" using 3 base64_digits(2) [of c] m by linarith
    have b': "c div 4096 = 13 \<Longrightarrow> c div 64 mod 64 \<le> 31"
      using 3 assms base64_digits(2) [of c] m unfolding scalar_def by linarith
    have "map unat (utf8_char c) = [0xE0 + c div 4096, 0x80 + c div 64 mod 64, 0x80 + c mod 64]"
      using 3 q unfolding utf8_char_def by (subst map_unat_bytes) auto
    then show ?thesis using utf8_decode_seq(2) [OF q m(2,1) b b', of bs] base64_digits(2) [of c] by simp
  next
    case 4
    then have q: "c div 262144 < 5" by auto
    have b: "c div 262144 = 0 \<Longrightarrow> 16 \<le> c div 4096 mod 64" using 4 base64_digits(3) [of c] m by linarith
    have b': "c div 262144 = 4 \<Longrightarrow> c div 4096 mod 64 \<le> 15" using 4 base64_digits(3) [of c] m by linarith
    have "map unat (utf8_char c) = [0xF0 + c div 262144, 0x80 + c div 4096 mod 64, 0x80 + c div 64 mod 64, 0x80 + c mod 64]"
      using 4 q unfolding utf8_char_def by (subst map_unat_bytes) auto
    then show ?thesis using utf8_decode_seq(3) [OF q m(3,2,1) b b', of bs] base64_digits(3) [of c] by simp
  qed
qed

lemma from_utf8_as_bytes [simp]: "str_ok s \<Longrightarrow> from_utf8 (as_bytes s) = Some s"
proof (induction s)
  case (Cons c s)
  then show ?case using utf8_decode_char [of c "map unat (as_bytes s)"]
    by (simp add: from_utf8_def as_bytes_def str_ok_def)
qed (simp add: from_utf8_def as_bytes_def)

lemma as_bytes_simps [simp]: "as_bytes [] = []" "as_bytes (s @ t) = as_bytes s @ as_bytes t"
  by (simp_all add: as_bytes_def)

lemma str_ok_simps [simp]: "str_ok []" "str_ok (c # s) \<longleftrightarrow> scalar c \<and> str_ok s" "str_ok (s @ t) \<longleftrightarrow> str_ok s \<and> str_ok t"
  by (auto simp: str_ok_def)

end
