(* ===== verification/TextTypes.thy ===== *)
theory TextTypes
  imports Unicode Types "HOL-Library.AList"
begin

text \<open>
  The data of the text crate: facets and text records with their byte format
  (\<open>edgestore-text/src/text/types.rs\<close>), facet filters (\<open>facet.rs\<close>), and the types of search requests and
  results (\<open>engine.rs\<close>). A hash map is the list of its pairs in the order of its iterator, with
  distinct keys; inserting replaces the value of a key that is present.
\<close>

datatype FacetValue =
    FacetString ustring
  | FacetNumber i64
  | FacetBool bool

type_synonym Facets = "(ustring \<times> FacetValue) list"

record TextRecord =
  tr_text :: ustring
  tr_facets :: Facets

definition TextRecord_new :: "ustring \<Rightarrow> TextRecord" where
  "TextRecord_new text = \<lparr> tr_text = text, tr_facets = [] \<rparr>"

definition with_facet :: "ustring \<Rightarrow> FacetValue \<Rightarrow> TextRecord \<Rightarrow> TextRecord" where
  "with_facet key v r = r\<lparr>tr_facets := AList.update key v (tr_facets r)\<rparr>"

section \<open>Writing\<close>

text \<open>A string with its length in two bytes, and one facet. Both formats of the crate write facets this way.\<close>

definition put_str16 :: "ustring \<Rightarrow> bytes" where
  "put_str16 s = u16_le (word_of_nat (length (as_bytes s))) @ as_bytes s"

fun put_value_bytes :: "FacetValue \<Rightarrow> bytes" where
  "put_value_bytes (FacetString s) = 0 # put_str16 s"
| "put_value_bytes (FacetNumber n) = 1 # u64_le n"
| "put_value_bytes (FacetBool b) = [2, if b then 1 else 0]"

definition put_facets :: "Facets \<Rightarrow> bytes" where
  "put_facets facets = u16_le (word_of_nat (length facets)) @
     concat (map (\<lambda>(key, v). put_str16 key @ put_value_bytes v) facets)"

definition encode_text_record :: "TextRecord \<Rightarrow> bytes" where
  "encode_text_record r =
     u32_le (word_of_nat (length (as_bytes (tr_text r)))) @ as_bytes (tr_text r) @ put_facets (tr_facets r)"

section \<open>Reading\<close>

text \<open>
  The macro \<open>read!(n)\<close> of both decoders takes the next \<open>n\<close> bytes or returns with an error. The
  decoders differ in the errors only, which are the fields of \<open>decode_errors\<close>.
\<close>

definition read_n :: "'e \<Rightarrow> nat \<Rightarrow> bytes \<Rightarrow> 'e + bytes \<times> bytes" where
  "read_n e n bs = (if length bs < n then Inl e else Inr (take n bs, drop n bs))"

record 'e decode_errors =
  de_truncated :: 'e
  de_key :: 'e
  de_string :: 'e
  de_tag :: 'e

definition get_str16 :: "'e \<Rightarrow> 'e \<Rightarrow> bytes \<Rightarrow> 'e + ustring \<times> bytes" where
  "get_str16 trunc bad bs =
     and_then (read_n trunc 2 bs) (\<lambda>(l, bs).
     and_then (read_n trunc (unat (u16_of_le l)) bs) (\<lambda>(s, bs).
       case from_utf8 s of None \<Rightarrow> Inl bad | Some s \<Rightarrow> Inr (s, bs)))"

definition get_value_bytes :: "'e decode_errors \<Rightarrow> bytes \<Rightarrow> 'e + FacetValue \<times> bytes" where
  "get_value_bytes D bs =
     and_then (read_n (de_truncated D) 1 bs) (\<lambda>(tag, bs).
       if hd tag = 0 then and_then (get_str16 (de_truncated D) (de_string D) bs) (\<lambda>(s, bs). Inr (FacetString s, bs))
       else if hd tag = 1 then and_then (read_n (de_truncated D) 8 bs) (\<lambda>(n, bs). Inr (FacetNumber (u64_of_le n), bs))
       else if hd tag = 2 then and_then (read_n (de_truncated D) 1 bs) (\<lambda>(b, bs). Inr (FacetBool (hd b \<noteq> 0), bs))
       else Inl (de_tag D))"

fun get_facet_list :: "'e decode_errors \<Rightarrow> nat \<Rightarrow> Facets \<Rightarrow> bytes \<Rightarrow> 'e + Facets \<times> bytes" where
  "get_facet_list D 0 facets bs = Inr (facets, bs)"
| "get_facet_list D (Suc n) facets bs =
     and_then (get_str16 (de_truncated D) (de_key D) bs) (\<lambda>(key, bs).
     and_then (get_value_bytes D bs) (\<lambda>(v, bs). get_facet_list D n (AList.update key v facets) bs))"

definition get_facets :: "'e decode_errors \<Rightarrow> bytes \<Rightarrow> 'e + Facets \<times> bytes" where
  "get_facets D bs =
     and_then (read_n (de_truncated D) 2 bs) (\<lambda>(n, bs). get_facet_list D (unat (u16_of_le n)) [] bs)"

definition no_errors :: "unit decode_errors" where
  "no_errors = \<lparr> de_truncated = (), de_key = (), de_string = (), de_tag = () \<rparr>"

definition decode_text_record :: "bytes \<Rightarrow> TextRecord option" where
  "decode_text_record bs =
     (if length bs < 4 then None
      else case
        and_then (read_n () 4 bs) (\<lambda>(l, bs).
        and_then (read_n () (unat (u32_of_le l)) bs) (\<lambda>(t, bs).
          case from_utf8 t of
            None \<Rightarrow> Inl ()
          | Some text \<Rightarrow> and_then (get_facets no_errors bs) (\<lambda>(facets, _). Inr \<lparr> tr_text = text, tr_facets = facets \<rparr>)))
        of Inl _ \<Rightarrow> None | Inr r \<Rightarrow> Some r)"

section \<open>Filters, requests and results\<close>

record FacetFilter =
  ff_field :: ustring
  ff_value :: FacetValue

record Snippet =
  sn_text :: ustring
  sn_byte_start :: usize
  sn_byte_end :: usize

record 'f TextSearchResult =
  ts_doc_id :: bytes
  ts_score :: 'f

record 'f SnippetResult =
  snr_doc_id :: bytes
  snr_score :: 'f
  snr_snippets :: "Snippet list"

record TextSearchStats =
  tss_total_docs_indexed :: u64
  tss_docs_examined :: u64
  tss_bytes_scanned :: u64

definition TextSearchStats_default :: TextSearchStats where
  "TextSearchStats_default = \<lparr> tss_total_docs_indexed = 0, tss_docs_examined = 0, tss_bytes_scanned = 0 \<rparr>"

record SearchOptions =
  so_limit :: usize
  so_facet_filters :: "FacetFilter list"
  so_typo_tolerance :: bool

definition SearchOptions_limit :: "usize \<Rightarrow> SearchOptions" where
  "SearchOptions_limit n = \<lparr> so_limit = n, so_facet_filters = [], so_typo_tolerance = False \<rparr>"

definition text_namespace :: "bytes \<Rightarrow> bytes" where
  "text_namespace ns = lit ''__text__'' @ ns"

section \<open>Round trip\<close>

lemma read_n_append [simp]: "n = length a \<Longrightarrow> read_n e n (a @ b) = Inr (a, b)"
  by (simp add: read_n_def)

lemma read_n_Cons [simp]: "read_n e (Suc 0) (x # b) = Inr ([x], b)"
  by (simp add: read_n_def)

definition str16_ok :: "ustring \<Rightarrow> bool" where
  "str16_ok s \<longleftrightarrow> str_ok s \<and> length (as_bytes s) < 65536"

fun value_ok :: "FacetValue \<Rightarrow> bool" where
  "value_ok (FacetString s) = str16_ok s"
| "value_ok _ = True"

definition facets_ok :: "Facets \<Rightarrow> bool" where
  "facets_ok facets \<longleftrightarrow> distinct (map fst facets) \<and> length facets < 65536 \<and>
     (\<forall>(k, v) \<in> set facets. str16_ok k \<and> value_ok v)"

lemma get_put_str16 [simp]: "str16_ok s \<Longrightarrow> get_str16 t b (put_str16 s @ bs) = Inr (s, bs)"
  by (simp add: get_str16_def put_str16_def str16_ok_def unat_u16_of_nat)

lemma get_put_value [simp]: "value_ok v \<Longrightarrow> get_value_bytes D (put_value_bytes v @ bs) = Inr (v, bs)"
  by (cases v) (simp_all add: get_value_bytes_def)

lemma update_new: "k \<notin> set (map fst m) \<Longrightarrow> AList.update k v m = m @ [(k, v)]"
  by (induction m) auto

lemma get_put_facet_list:
  assumes "distinct (map fst (m @ facets))" "\<forall>(k, v) \<in> set facets. str16_ok k \<and> value_ok v"
  shows "get_facet_list D (length facets) m
     (concat (map (\<lambda>(key, v). put_str16 key @ put_value_bytes v) facets) @ bs) = Inr (m @ facets, bs)"
  using assms
proof (induction facets arbitrary: m)
  case (Cons kv facets)
  obtain k v where kv: "kv = (k, v)" by fastforce
  with Cons.prems have "k \<notin> set (map fst m)" by auto
  with Cons.IH [of "m @ [(k, v)]"] Cons.prems kv show ?case by (simp add: update_new)
qed simp

lemma get_put_facets [simp]: "facets_ok facets \<Longrightarrow> get_facets D (put_facets facets @ bs) = Inr (facets, bs)"
  using get_put_facet_list [of "[]" facets D bs]
  by (simp add: get_facets_def put_facets_def facets_ok_def unat_u16_of_nat)

definition text_record_ok :: "TextRecord \<Rightarrow> bool" where
  "text_record_ok r \<longleftrightarrow> str_ok (tr_text r) \<and> length (as_bytes (tr_text r)) < 2 ^ 32 \<and> facets_ok (tr_facets r)"

lemma decode_encode_text_record:
  assumes "text_record_ok r"
  shows "decode_text_record (encode_text_record r) = Some r"
proof -
  have "get_facets no_errors (put_facets (tr_facets r)) = Inr (tr_facets r, [])"
    using get_put_facets [of "tr_facets r" no_errors "[]"] assms by (simp add: text_record_ok_def)
  then show ?thesis using assms
    by (simp add: decode_text_record_def encode_text_record_def text_record_ok_def unat_u32_of_nat)
qed

text \<open>
  A text record is stored without loss. Decoding the bytes written for a record returns it, with
  the facets in the order in which they were written, when the text has fewer than \<open>2 ^ 32\<close> bytes
  and the facets, their names and their string values fit their two-byte lengths.
\<close>

theorem text_record_roundtrip:
  assumes "text_record_ok r"
  shows "decode_text_record (encode_text_record r) = Some r"
  using assms by (rule decode_encode_text_record)

theorem text_record_roundtrip_witness:
  "decode_text_record (encode_text_record \<lparr> tr_text = [0x68, 0xE9, 0x20AC], tr_facets =
     [([0x63], FacetString [0x6E]), ([0x76], FacetNumber (-1)), ([0x70], FacetBool True)] \<rparr>) =
   Some \<lparr> tr_text = [0x68, 0xE9, 0x20AC], tr_facets =
     [([0x63], FacetString [0x6E]), ([0x76], FacetNumber (-1)), ([0x70], FacetBool True)] \<rparr>"
  by (rule text_record_roundtrip)
     (simp add: text_record_ok_def facets_ok_def str16_ok_def scalar_def as_bytes_def utf8_char_def)

end
