(* ===== verification/Tokenizer.thy ===== *)
theory Tokenizer
  imports Unicode
begin

text \<open>
  The tokenizer, \<open>edgestore-text/src/text/tokenizer.rs\<close>. The Unicode tables of the standard library, the
  stemmer and the stop word lists are the fields of \<open>analyzer\<close>.
\<close>

datatype Language = English | PortugueseBrazilian

record analyzer =
  an_is_alphanumeric :: "nat \<Rightarrow> bool"
  an_is_whitespace :: "nat \<Rightarrow> bool"
  an_to_lowercase :: "ustring \<Rightarrow> ustring"
  an_stopword :: "Language \<Rightarrow> ustring \<Rightarrow> bool"
  an_stem :: "Language \<Rightarrow> ustring \<Rightarrow> ustring"

record Token =
  tk_term :: ustring
  tk_position :: usize

text \<open>The inner loop: the end of the run of alphanumeric characters.\<close>

function run_end :: "analyzer \<Rightarrow> ustring \<Rightarrow> usize \<Rightarrow> usize" where
  "run_end A chars j =
     (if j < length chars \<and> an_is_alphanumeric A (chars ! j) then run_end A chars (j + 1) else j)"
  by pat_completeness auto
termination
  by (relation "measure (\<lambda>(A, chars, j). length chars - j)") auto

declare run_end.simps [simp del]

lemma run_end_ge: "j \<le> run_end A chars j"
  by (induction A chars j rule: run_end.induct) (subst run_end.simps, auto)

function token_loop :: "analyzer \<Rightarrow> Language \<Rightarrow> ustring \<Rightarrow> usize \<Rightarrow> Token list" where
  "token_loop A lang chars i =
     (if i < length chars then
        if an_is_alphanumeric A (chars ! i) then
          let j = run_end A chars (i + 1);
              lower = an_to_lowercase A (take (j - i) (drop i chars));
              tokens = token_loop A lang chars j
          in if an_stopword A lang lower then tokens
             else \<lparr> tk_term = an_stem A lang lower, tk_position = i \<rparr> # tokens
        else token_loop A lang chars (i + 1)
      else [])"
  by pat_completeness auto
termination
proof (relation "measure (\<lambda>(A, lang, chars, i). length chars - i)", goal_cases)
  case (2 A lang chars i j)
  then show ?case using run_end_ge [of "i + 1" A chars] by simp
qed auto

declare token_loop.simps [simp del]

definition tokenize :: "analyzer \<Rightarrow> ustring \<Rightarrow> Language \<Rightarrow> Token list" where
  "tokenize A text lang = token_loop A lang text 0"

section \<open>The words of a text\<close>

definition word_at :: "analyzer \<Rightarrow> ustring \<Rightarrow> usize \<Rightarrow> ustring" where
  "word_at A chars p = takeWhile (an_is_alphanumeric A) (drop p chars)"

definition word_start :: "analyzer \<Rightarrow> ustring \<Rightarrow> usize \<Rightarrow> bool" where
  "word_start A chars p \<longleftrightarrow> an_is_alphanumeric A (chars ! p) \<and> (p = 0 \<or> \<not> an_is_alphanumeric A (chars ! (p - 1)))"

definition token_at :: "analyzer \<Rightarrow> Language \<Rightarrow> ustring \<Rightarrow> usize \<Rightarrow> Token" where
  "token_at A lang chars p = \<lparr> tk_term = an_stem A lang (an_to_lowercase A (word_at A chars p)), tk_position = p \<rparr>"

lemma run_end_spec:
  "j \<le> length chars \<Longrightarrow> run_end A chars j = j + length (takeWhile (an_is_alphanumeric A) (drop j chars))"
proof (induction A chars j rule: run_end.induct)
  case (1 A chars j)
  show ?case
  proof (cases "j < length chars \<and> an_is_alphanumeric A (chars ! j)")
    case True
    with 1 show ?thesis by (simp add: run_end.simps [of A chars j] Cons_nth_drop_Suc [symmetric])
  next
    case False
    with "1.prems" show ?thesis
      by (cases "j < length chars") (subst run_end.simps, simp add: Cons_nth_drop_Suc [symmetric])+
  qed
qed

lemma run_end_props:
  assumes "i < length chars" "an_is_alphanumeric A (chars ! i)"
  shows "run_end A chars (i + 1) = i + length (word_at A chars i)" "i < run_end A chars (i + 1)"
    "run_end A chars (i + 1) \<le> length chars" "take (run_end A chars (i + 1) - i) (drop i chars) = word_at A chars i"
    "\<forall>p. i \<le> p \<and> p < run_end A chars (i + 1) \<longrightarrow> an_is_alphanumeric A (chars ! p)"
    "run_end A chars (i + 1) < length chars \<longrightarrow> \<not> an_is_alphanumeric A (chars ! run_end A chars (i + 1))"
proof -
  let ?w = "word_at A chars i"
  have w: "?w = chars ! i # takeWhile (an_is_alphanumeric A) (drop (i + 1) chars)"
    using assms by (simp add: word_at_def Cons_nth_drop_Suc [symmetric])
  show e: "run_end A chars (i + 1) = i + length ?w" using assms run_end_spec [of "i + 1" chars A] by (simp add: w)
  show "i < run_end A chars (i + 1)" using e w by simp
  have len: "length ?w \<le> length (drop i chars)" by (simp add: word_at_def length_takeWhile_le del: length_drop)
  then show "run_end A chars (i + 1) \<le> length chars" using e assms(1) by simp
  show "take (run_end A chars (i + 1) - i) (drop i chars) = ?w"
    unfolding e by (simp add: word_at_def takeWhile_eq_take [symmetric])
  show "\<forall>p. i \<le> p \<and> p < run_end A chars (i + 1) \<longrightarrow> an_is_alphanumeric A (chars ! p)"
  proof (intro allI impI)
    fix p assume p: "i \<le> p \<and> p < run_end A chars (i + 1)"
    then have "p - i < length ?w" using e by linarith
    then have "?w ! (p - i) \<in> set ?w" "?w ! (p - i) = drop i chars ! (p - i)"
      by (rule nth_mem, simp add: word_at_def takeWhile_nth)
    moreover have "drop i chars ! (p - i) = chars ! p" using p assms(1) by simp
    ultimately show "an_is_alphanumeric A (chars ! p)" using set_takeWhileD unfolding word_at_def by metis
  qed
  show "run_end A chars (i + 1) < length chars \<longrightarrow> \<not> an_is_alphanumeric A (chars ! run_end A chars (i + 1))"
  proof
    assume "run_end A chars (i + 1) < length chars"
    then have "length ?w < length (drop i chars)" using e by simp
    then have "\<not> an_is_alphanumeric A (drop i chars ! length ?w)" unfolding word_at_def by (rule nth_length_takeWhile)
    then show "\<not> an_is_alphanumeric A (chars ! run_end A chars (i + 1))" using e assms(1) by simp
  qed
qed

lemma token_loop_spec:
  assumes "i < length chars \<and> an_is_alphanumeric A (chars ! i) \<longrightarrow> word_start A chars i"
  shows "token_loop A lang chars i =
     map (token_at A lang chars)
       (filter (\<lambda>p. word_start A chars p \<and> \<not> an_stopword A lang (an_to_lowercase A (word_at A chars p))) [i..<length chars])"
  using assms
proof (induction A lang chars i rule: token_loop.induct)
  case (1 A lang chars i)
  let ?P = "\<lambda>p. word_start A chars p \<and> \<not> an_stopword A lang (an_to_lowercase A (word_at A chars p))"
  show ?case
  proof (cases "i < length chars")
    case i: True
    show ?thesis
    proof (cases "an_is_alphanumeric A (chars ! i)")
      case True
      note r = run_end_props [OF i True]
      let ?j = "run_end A chars (i + 1)"
      have ih: "token_loop A lang chars ?j = map (token_at A lang chars) (filter ?P [?j..<length chars])"
        by (rule "1.IH"(1) [OF i True refl refl]) (use r(6) in blast)
      have split: "[i..<length chars] = i # [i + 1..<?j] @ [?j..<length chars]"
        using r(2,3) i by (metis Suc_eq_plus1 Suc_leI upt_add_eq_append upt_conv_Cons le_Suc_ex)
      have "filter ?P [i + 1..<?j] = []" 
      proof (rule filter_False, intro ballI)
        fix p assume "p \<in> set [i + 1..<?j]"
        then have "i \<le> p - 1 \<and> p - 1 < ?j" "p \<noteq> 0" by auto
        with r(5) show "\<not> ?P p" by (auto simp: word_start_def)
      qed
      moreover have "word_start A chars i" using "1.prems" i True by blast
      ultimately show ?thesis using i True ih r(4)
        by (subst token_loop.simps) (simp add: split Let_def token_at_def)
    next
      case False
      have "token_loop A lang chars (i + 1) = map (token_at A lang chars) (filter ?P [i + 1..<length chars])"
        by (rule "1.IH"(2) [OF i False]) (simp add: word_start_def False)
      with i False show ?thesis
        by (subst token_loop.simps) (simp add: upt_conv_Cons word_start_def)
    qed
  next
    case False
    then show ?thesis by (subst token_loop.simps) simp
  qed
qed

text \<open>
  The tokens are the words of the text. There is one token for every position at which a maximal
  run of alphanumeric characters starts and whose lower-case form is not a stop word, in the
  order of the text, with the stem of the word and its character position.
\<close>

theorem tokens_are_words:
  "tokenize A text lang = map (token_at A lang text)
     (filter (\<lambda>p. word_start A text p \<and> \<not> an_stopword A lang (an_to_lowercase A (word_at A text p))) [0..<length text])"
  unfolding tokenize_def by (rule token_loop_spec) (simp add: word_start_def)

end
