(* ===== verification/Bloom.thy ===== *)
theory Bloom
  imports Prelude
begin

unbundle bit_operations_syntax

text \<open>
  The Bloom filter of \<open>edgestore-text/src/text/bloom.rs\<close>. The hash function is the one that the
  random seed of the filter selects; the two sizes that the code computes in floating point are
  the fields of \<open>bloom_sizing\<close>.
\<close>

definition INITIAL_CAPACITY :: usize where "INITIAL_CAPACITY = 4096"

record bloom_sizing =
  bs_bits :: "usize \<Rightarrow> usize"
  bs_hashes :: "usize \<Rightarrow> usize \<Rightarrow> u32"
  bs_seed :: "bytes \<Rightarrow> u64"

record BloomFilter =
  bf_bits :: "u64 list"
  bf_num_bits :: usize
  bf_num_hashes :: u32
  bf_capacity :: usize
  bf_count :: usize
  bf_seed :: "bytes \<Rightarrow> u64"

definition clamp_hashes :: "u32 \<Rightarrow> u32" where
  "clamp_hashes n = (if n < 1 then 1 else if 30 < n then 30 else n)"

definition Bloom_with_capacity :: "bloom_sizing \<Rightarrow> usize \<Rightarrow> BloomFilter" where
  "Bloom_with_capacity S cap =
     (let capacity = max cap 1;
          m = bs_bits S capacity;
          num_words = max ((m + 63) div 64) 1;
          num_bits = num_words * 64
      in \<lparr> bf_bits = replicate num_words 0, bf_num_bits = num_bits,
           bf_num_hashes = clamp_hashes (bs_hashes S num_bits capacity),
           bf_capacity = capacity, bf_count = 0, bf_seed = bs_seed S \<rparr>)"

definition Bloom_new :: "bloom_sizing \<Rightarrow> BloomFilter" where
  "Bloom_new S = Bloom_with_capacity S INITIAL_CAPACITY"

definition is_saturated :: "BloomFilter \<Rightarrow> bool" where
  "is_saturated f \<longleftrightarrow> bf_count f \<ge> bf_capacity f"

definition hash_pair :: "BloomFilter \<Rightarrow> bytes \<Rightarrow> u64 \<times> u64" where
  "hash_pair f item = (let combined = bf_seed f item in (drop_bit 32 combined, combined AND 0xFFFFFFFF))"

definition bloom_positions :: "u64 \<Rightarrow> u64 \<Rightarrow> usize \<Rightarrow> u32 \<Rightarrow> usize list" where
  "bloom_positions h1 h2 num_bits num_hashes =
     map (\<lambda>i. unat (h1 + word_of_nat i * h2) mod num_bits) [0..<unat num_hashes]"

definition set_pos :: "usize \<Rightarrow> u64 list \<Rightarrow> u64 list" where
  "set_pos pos bits = bits[pos div 64 := bits ! (pos div 64) OR push_bit (pos mod 64) 1]"

definition test_pos :: "u64 list \<Rightarrow> usize \<Rightarrow> bool" where
  "test_pos bits pos \<longleftrightarrow> bits ! (pos div 64) AND push_bit (pos mod 64) 1 \<noteq> 0"

definition Bloom_insert :: "bytes \<Rightarrow> BloomFilter \<Rightarrow> BloomFilter" where
  "Bloom_insert item f =
     (case hash_pair f item of (h1, h2) \<Rightarrow>
        f\<lparr>bf_bits := fold set_pos (bloom_positions h1 h2 (bf_num_bits f) (bf_num_hashes f)) (bf_bits f),
          bf_count := bf_count f + 1\<rparr>)"

definition might_contain :: "BloomFilter \<Rightarrow> bytes \<Rightarrow> bool" where
  "might_contain f item =
     (case hash_pair f item of (h1, h2) \<Rightarrow>
        list_all (test_pos (bf_bits f)) (bloom_positions h1 h2 (bf_num_bits f) (bf_num_hashes f)))"

section \<open>No false negatives\<close>

definition bloom_inv :: "BloomFilter \<Rightarrow> bool" where
  "bloom_inv f \<longleftrightarrow> bf_num_bits f = 64 * length (bf_bits f) \<and> bf_bits f \<noteq> []"

lemma test_pos_bit: "test_pos bits pos \<longleftrightarrow> bit (bits ! (pos div 64)) (pos mod 64)"
  by (simp add: test_pos_def bit_iff_and_push_bit_not_eq_0)

lemma test_set_pos:
  "pos < 64 * length bits \<Longrightarrow> test_pos (set_pos pos bits) pos"
  "test_pos bits q \<Longrightarrow> test_pos (set_pos pos bits) q"
proof -
  assume p: "pos < 64 * length bits"
  then have "pos div 64 < length bits" by (simp add: less_mult_imp_div_less)
  then show "test_pos (set_pos pos bits) pos"
    by (simp add: test_pos_bit set_pos_def bit_or_iff bit_exp_iff)
next
  assume "test_pos bits q"
  then show "test_pos (set_pos pos bits) q"
    by (cases "pos div 64 < length bits"; cases "pos div 64 = q div 64")
       (simp_all add: test_pos_bit set_pos_def bit_or_iff list_update_beyond)
qed

lemma length_set_pos [simp]: "length (fold set_pos ps bits) = length bits"
  by (induction ps arbitrary: bits) (simp_all add: set_pos_def)

lemma fold_set_keeps: "test_pos bits q \<Longrightarrow> test_pos (fold set_pos ps bits) q"
  by (induction ps arbitrary: bits) (simp_all add: test_set_pos)

lemma fold_set_sets:
  "\<forall>p \<in> set ps. p < 64 * length bits \<Longrightarrow> list_all (test_pos (fold set_pos ps bits)) ps"
proof (induction ps arbitrary: bits)
  case (Cons p ps)
  then have "test_pos (fold set_pos ps (set_pos p bits)) p" by (intro fold_set_keeps test_set_pos) simp
  moreover have "length (set_pos p bits) = length bits" by (simp add: set_pos_def)
  ultimately show ?case using Cons by simp
qed simp

lemma bloom_inv_new: "bloom_inv (Bloom_with_capacity S cap)"
  by (simp add: bloom_inv_def Bloom_with_capacity_def Let_def)

lemma Bloom_insert_bits:
  "bf_bits (Bloom_insert x f) = fold set_pos (bloom_positions (fst (hash_pair f x)) (snd (hash_pair f x))
     (bf_num_bits f) (bf_num_hashes f)) (bf_bits f)"
  and Bloom_insert_num_bits: "bf_num_bits (Bloom_insert x f) = bf_num_bits f"
  by (simp_all add: Bloom_insert_def split: prod.split)

lemma bloom_inv_insert: "bloom_inv f \<Longrightarrow> bloom_inv (Bloom_insert x f)"
proof -
  assume "bloom_inv f"
  moreover have "bf_bits (Bloom_insert x f) \<noteq> [] \<longleftrightarrow> bf_bits f \<noteq> []"
    by (metis length_0_conv length_set_pos Bloom_insert_bits)
  ultimately show ?thesis by (simp add: bloom_inv_def Bloom_insert_bits Bloom_insert_num_bits)
qed

lemma might_contain_insert: "bloom_inv f \<Longrightarrow> might_contain (Bloom_insert x f) x"
proof -
  assume inv: "bloom_inv f"
  obtain h1 h2 where h: "hash_pair f x = (h1, h2)" by fastforce
  have "\<forall>p \<in> set (bloom_positions h1 h2 (bf_num_bits f) (bf_num_hashes f)). p < 64 * length (bf_bits f)"
    using inv by (auto simp: bloom_positions_def bloom_inv_def)
  from fold_set_sets [OF this] h show ?thesis
    by (simp add: might_contain_def Bloom_insert_def hash_pair_def Let_def)
qed

lemma might_contain_mono: "might_contain f y \<Longrightarrow> might_contain (Bloom_insert x f) y"
  by (auto simp: might_contain_def Bloom_insert_def hash_pair_def Let_def list_all_iff fold_set_keeps split: prod.split)

lemma might_contain_inserts:
  assumes "bloom_inv f" "x \<in> set xs \<or> might_contain f x"
  shows "might_contain (fold Bloom_insert xs f) x \<and> bloom_inv (fold Bloom_insert xs f)"
  using assms
  by (induction xs arbitrary: f) (auto intro: bloom_inv_insert might_contain_insert might_contain_mono)

text \<open>
  The filter has no false negatives. After any sequence of insertions into a new filter of any
  capacity, every inserted item is reported as possibly present, whatever the hash function and
  the sizes are.
\<close>

theorem bloom_no_false_negatives:
  "list_all (might_contain (fold Bloom_insert xs (Bloom_with_capacity S cap))) xs"
  using might_contain_inserts [OF bloom_inv_new] by (auto simp: list_all_iff)

end
