(* ===== verification/InvertedIndex.thy ===== *)
theory InvertedIndex
  imports TextTypes Tokenizer Bloom Float32
begin

text \<open>
  The inverted index, \<open>edgestore-text/src/text/index.rs\<close>: postings per term, adding and removing
  documents, the byte format of the sidecar, and BM25 scores. \<open>facet.rs\<close> filters postings.
\<close>

record Posting =
  po_doc_id :: bytes
  po_term_freq :: u32
  po_doc_len_tokens :: u32
  po_facets :: Facets
  po_positions :: "u32 list"

type_synonym Postings = "(ustring \<times> Posting list) list"

record InvertedIndex =
  ix_postings :: Postings
  ix_total_docs :: u64
  ix_total_doc_len :: u64
  ix_sidecar_lsn :: u64
  ix_doc_bloom :: BloomFilter

definition InvertedIndex_new :: "bloom_sizing \<Rightarrow> InvertedIndex" where
  "InvertedIndex_new S = \<lparr> ix_postings = [], ix_total_docs = 0, ix_total_doc_len = 0, ix_sidecar_lsn = 0,
     ix_doc_bloom = Bloom_new S \<rparr>"

definition filter_by_facets :: "Posting list \<Rightarrow> FacetFilter list \<Rightarrow> Posting list" where
  "filter_by_facets postings filters =
     (if filters = [] then postings
      else filter (\<lambda>p. list_all (\<lambda>f. map_of (po_facets p) (ff_field f) = Some (ff_value f)) filters) postings)"

section \<open>The filter of document ids\<close>

definition rebuild_bloom_at_capacity :: "bloom_sizing \<Rightarrow> usize \<Rightarrow> InvertedIndex \<Rightarrow> InvertedIndex" where
  "rebuild_bloom_at_capacity S capacity ix =
     ix\<lparr>ix_doc_bloom := fold (\<lambda>(_, postings). fold (\<lambda>p. Bloom_insert (po_doc_id p)) postings) (ix_postings ix)
          (Bloom_with_capacity S (max capacity INITIAL_CAPACITY))\<rparr>"

definition index_bloom_insert :: "bloom_sizing \<Rightarrow> bytes \<Rightarrow> InvertedIndex \<Rightarrow> InvertedIndex" where
  "index_bloom_insert S doc_id ix =
     (let ix1 = (if is_saturated (ix_doc_bloom ix)
                 then rebuild_bloom_at_capacity S (bf_capacity (ix_doc_bloom ix) * 2) ix else ix)
      in ix1\<lparr>ix_doc_bloom := Bloom_insert doc_id (ix_doc_bloom ix1)\<rparr>)"

section \<open>Documents\<close>

definition remove_document :: "bytes \<Rightarrow> InvertedIndex \<Rightarrow> InvertedIndex \<times> bool res" where
  "remove_document doc_id ix =
     (let found = List.find (\<lambda>p. po_doc_id p = doc_id) (concat (map snd (ix_postings ix)));
          retained = filter (\<lambda>(_, postings). postings \<noteq> [])
            (map (\<lambda>(t, postings). (t, filter (\<lambda>p. po_doc_id p \<noteq> doc_id) postings)) (ix_postings ix));
          ix1 = ix\<lparr>ix_postings := retained\<rparr>
      in case found of
           None \<Rightarrow> (ix1, Inr False)
         | Some p \<Rightarrow>
             let len = ucast (po_doc_len_tokens p)
             in if \<not> ix_total_docs ix > 0 then (ix1, Inl (Panic ''total_docs underflow''))
                else if \<not> ix_total_doc_len ix \<ge> len then (ix1, Inl (Panic ''total_doc_len underflow''))
                else (ix1\<lparr>ix_total_docs := ix_total_docs ix - 1, ix_total_doc_len := ix_total_doc_len ix - len\<rparr>, Inr True))"

text \<open>\<open>entry(k).or_default().push(v)\<close>\<close>

fun push_entry :: "'k \<Rightarrow> 'v \<Rightarrow> ('k \<times> 'v list) list \<Rightarrow> ('k \<times> 'v list) list" where
  "push_entry k v [] = [(k, [v])]"
| "push_entry k v ((k', vs) # m) = (if k' = k then (k', vs @ [v]) # m else (k', vs) # push_entry k v m)"

definition term_data :: "Token list \<Rightarrow> (ustring \<times> u32 list) list" where
  "term_data tokens = fold (\<lambda>t. push_entry (tk_term t) (word_of_nat (tk_position t))) tokens []"

definition add_document :: "bloom_sizing \<Rightarrow> bytes \<Rightarrow> Token list \<Rightarrow> u32 \<Rightarrow> Facets \<Rightarrow> InvertedIndex \<Rightarrow> InvertedIndex" where
  "add_document S doc_id tokens doc_len_tokens facets ix =
     (let ix1 = index_bloom_insert S doc_id ix;
          postings = fold (\<lambda>(term, positions). push_entry term
              \<lparr> po_doc_id = doc_id, po_term_freq = word_of_nat (length positions), po_doc_len_tokens = doc_len_tokens,
                po_facets = facets, po_positions = positions \<rparr>) (term_data tokens) (ix_postings ix1)
      in ix1\<lparr>ix_postings := postings, ix_total_docs := ix_total_docs ix1 + 1,
             ix_total_doc_len := ix_total_doc_len ix1 + ucast doc_len_tokens\<rparr>)"

section \<open>Scores\<close>

definition avg_doc_len :: "'f f32_ops \<Rightarrow> InvertedIndex \<Rightarrow> 'f" where
  "avg_doc_len F ix =
     (if ix_total_docs ix = 0 then f_lit F 0 1
      else f_div F (f_of_u64 F (ix_total_doc_len ix)) (f_of_u64 F (ix_total_docs ix)))"

definition BM25_K1 :: "'f f32_ops \<Rightarrow> 'f" where "BM25_K1 F = f_lit F 12 10"
definition BM25_B :: "'f f32_ops \<Rightarrow> 'f" where "BM25_B F = f_lit F 75 100"

definition bm25_score :: "'f f32_ops \<Rightarrow> u64 \<Rightarrow> u64 \<Rightarrow> u32 \<Rightarrow> u32 \<Rightarrow> 'f \<Rightarrow> 'f \<Rightarrow> 'f \<Rightarrow> 'f" where
  "bm25_score F total_docs doc_freq term_freq doc_len_tokens avg k1 b =
     (if total_docs = 0 \<or> f_eq F avg (f_lit F 0 1) then f_lit F 0 1
      else
        let n = f_of_u64 F total_docs; df = f_of_u64 F doc_freq; tf = f_of_u32 F term_freq; one = f_lit F 1 1;
            half = f_lit F 5 10;
            idf = f_ln F (f_add F (f_div F (f_add F (f_sub F n df) half) (f_add F df half)) one);
            tf_component = f_div F (f_mul F tf (f_add F k1 one))
              (f_add F tf (f_mul F k1 (f_add F (f_sub F one b) (f_mul F b (f_div F (f_of_u32 F doc_len_tokens) avg)))))
        in f_mul F idf tf_component)"

definition score_document :: "'f f32_ops \<Rightarrow> InvertedIndex \<Rightarrow> bytes \<Rightarrow> Token list \<Rightarrow> 'f" where
  "score_document F ix doc_id query_tokens =
     fold (\<lambda>token score.
        case map_of (ix_postings ix) (tk_term token) of
          None \<Rightarrow> score
        | Some postings \<Rightarrow>
            (case List.find (\<lambda>p. po_doc_id p = doc_id) postings of
               None \<Rightarrow> score
             | Some p \<Rightarrow> f_add F score
                 (bm25_score F (ix_total_docs ix) (word_of_nat (length postings)) (po_term_freq p) (po_doc_len_tokens p)
                    (avg_doc_len F ix) (BM25_K1 F) (BM25_B F))))
       query_tokens (f_lit F 0 1)"

section \<open>The byte format\<close>

definition put_posting :: "Posting \<Rightarrow> bytes" where
  "put_posting p =
     u16_le (word_of_nat (length (po_doc_id p))) @ po_doc_id p @ u32_le (po_term_freq p) @ u32_le (po_doc_len_tokens p) @
     put_facets (po_facets p) @ u16_le (word_of_nat (length (po_positions p))) @ concat (map u32_le (po_positions p))"

definition put_term :: "ustring \<times> Posting list \<Rightarrow> bytes" where
  "put_term = (\<lambda>(term, postings).
     put_str16 term @ u32_le (word_of_nat (length postings)) @ concat (map put_posting postings))"

definition serialize_index :: "InvertedIndex \<Rightarrow> bytes" where
  "serialize_index ix =
     lit ''INVX'' @ u16_le 3 @ u64_le (ix_sidecar_lsn ix) @ u64_le (ix_total_docs ix) @ u64_le (ix_total_doc_len ix) @
     u32_le (word_of_nat (length (ix_postings ix))) @ concat (map put_term (ix_postings ix))"

definition index_errors :: "EdgestoreError decode_errors" where
  "index_errors = \<lparr> de_truncated = CorruptData ''inverted index: truncated'',
     de_key = CorruptData ''inverted index: invalid facet key'',
     de_string = CorruptData ''inverted index: invalid facet string'',
     de_tag = CorruptData ''inverted index: unknown facet tag'' \<rparr>"

definition read_index :: "nat \<Rightarrow> bytes \<Rightarrow> (bytes \<times> bytes) res" where
  "read_index = read_n (de_truncated index_errors)"

fun get_positions :: "nat \<Rightarrow> bytes \<Rightarrow> (u32 list \<times> bytes) res" where
  "get_positions 0 bs = Inr ([], bs)"
| "get_positions (Suc n) bs =
     and_then (read_index 4 bs) (\<lambda>(x, bs).
     and_then (get_positions n bs) (\<lambda>(xs, bs). Inr (u32_of_le x # xs, bs)))"

definition get_posting :: "u16 \<Rightarrow> bytes \<Rightarrow> (Posting \<times> bytes) res" where
  "get_posting version bs =
     and_then (read_index 2 bs) (\<lambda>(l, bs).
     and_then (read_index (unat (u16_of_le l)) bs) (\<lambda>(doc_id, bs).
     and_then (read_index 4 bs) (\<lambda>(tf, bs).
     and_then (read_index 4 bs) (\<lambda>(dl, bs).
     and_then (get_facets index_errors bs) (\<lambda>(facets, bs).
     and_then (if version \<ge> 3
               then and_then (read_index 2 bs) (\<lambda>(n, bs). get_positions (unat (u16_of_le n)) bs)
               else Inr ([], bs)) (\<lambda>(positions, bs).
       Inr (\<lparr> po_doc_id = doc_id, po_term_freq = u32_of_le tf, po_doc_len_tokens = u32_of_le dl,
              po_facets = facets, po_positions = positions \<rparr>, bs)))))))"

fun get_postings :: "u16 \<Rightarrow> nat \<Rightarrow> bytes \<Rightarrow> (Posting list \<times> bytes) res" where
  "get_postings version 0 bs = Inr ([], bs)"
| "get_postings version (Suc n) bs =
     and_then (get_posting version bs) (\<lambda>(p, bs).
     and_then (get_postings version n bs) (\<lambda>(ps, bs). Inr (p # ps, bs)))"

fun get_terms :: "u16 \<Rightarrow> nat \<Rightarrow> Postings \<Rightarrow> bytes \<Rightarrow> (Postings \<times> bytes) res" where
  "get_terms version 0 m bs = Inr (m, bs)"
| "get_terms version (Suc n) m bs =
     and_then (get_str16 (de_truncated index_errors) (CorruptData ''inverted index: invalid utf8 term'') bs) (\<lambda>(term, bs).
     and_then (read_index 4 bs) (\<lambda>(c, bs).
     and_then (get_postings version (unat (u32_of_le c)) bs) (\<lambda>(ps, bs).
       get_terms version n (AList.update term ps m) bs)))"

definition deserialize_index :: "bloom_sizing \<Rightarrow> bytes \<Rightarrow> InvertedIndex res" where
  "deserialize_index S bs =
     (if length bs < 6 then Inl (CorruptData ''inverted index: truncated header'')
      else
        and_then (read_index 4 bs) (\<lambda>(magic, bs).
        if magic \<noteq> lit ''INVX'' then Inl (CorruptData ''inverted index: invalid magic'')
        else
        and_then (read_index 2 bs) (\<lambda>(v, bs).
        let version = u16_of_le v in
        and_then (if version = 1 then Inr (0, bs)
                  else if version = 2 \<or> version = 3 then and_then (read_index 8 bs) (\<lambda>(x, bs). Inr (u64_of_le x, bs))
                  else Inl (CorruptData ''inverted index: unsupported version'')) (\<lambda>(sidecar_lsn, bs).
        and_then (read_index 8 bs) (\<lambda>(td, bs).
        and_then (read_index 8 bs) (\<lambda>(tl, bs).
        and_then (read_index 4 bs) (\<lambda>(tc, bs).
        and_then (get_terms version (unat (u32_of_le tc)) [] bs) (\<lambda>(postings, _).
          Inr (rebuild_bloom_at_capacity S (unat (u64_of_le td))
            \<lparr> ix_postings = postings, ix_total_docs = u64_of_le td, ix_total_doc_len = u64_of_le tl,
              ix_sidecar_lsn = sidecar_lsn, ix_doc_bloom = Bloom_new S \<rparr>)))))))))"

section \<open>Round trip of the byte format\<close>

lemma read_index_append [simp]: "n = length a \<Longrightarrow> read_index n (a @ b) = Inr (a, b)"
  by (simp add: read_index_def)

definition posting_ok :: "Posting \<Rightarrow> bool" where
  "posting_ok p \<longleftrightarrow> length (po_doc_id p) < 65536 \<and> facets_ok (po_facets p) \<and> length (po_positions p) < 65536"

definition sidecar_ok :: "InvertedIndex \<Rightarrow> bool" where
  "sidecar_ok ix \<longleftrightarrow> distinct (map fst (ix_postings ix)) \<and> length (ix_postings ix) < 2 ^ 32 \<and>
     (\<forall>(t, ps) \<in> set (ix_postings ix). str16_ok t \<and> length ps < 2 ^ 32 \<and> (\<forall>p \<in> set ps. posting_ok p))"

lemma get_put_positions [simp]: "get_positions (length xs) (concat (map u32_le xs) @ bs) = Inr (xs, bs)"
  by (induction xs) simp_all

lemma get_put_posting [simp]: "posting_ok p \<Longrightarrow> get_posting 3 (put_posting p @ bs) = Inr (p, bs)"
  by (simp add: get_posting_def put_posting_def posting_ok_def unat_u16_of_nat)

lemma get_put_postings [simp]:
  "\<forall>p \<in> set ps. posting_ok p \<Longrightarrow> get_postings 3 (length ps) (concat (map put_posting ps) @ bs) = Inr (ps, bs)"
  by (induction ps) simp_all

lemma get_put_terms:
  assumes "distinct (map fst (m @ P))" "\<forall>(t, ps) \<in> set P. str16_ok t \<and> length ps < 2 ^ 32 \<and> (\<forall>p \<in> set ps. posting_ok p)"
  shows "get_terms 3 (length P) m (concat (map put_term P) @ bs) = Inr (m @ P, bs)"
  using assms
proof (induction P arbitrary: m)
  case (Cons tp P)
  obtain t ps where tp: "tp = (t, ps)" by fastforce
  with Cons.prems have "t \<notin> set (map fst m)" by auto
  with Cons.IH [of "m @ [(t, ps)]"] Cons.prems tp show ?case
    by (simp add: update_new put_term_def unat_u32_of_nat)
qed simp

lemma fold_bloom_concat:
  "fold (\<lambda>(_, ps). fold (\<lambda>p. Bloom_insert (po_doc_id p)) ps) P f = fold Bloom_insert (map po_doc_id (concat (map snd P))) f"
  by (induction P arbitrary: f) (auto simp: fold_map comp_def)

lemma rebuilt_filter:
  assumes "p \<in> set (concat (map snd (ix_postings ix)))"
  shows "might_contain (ix_doc_bloom (rebuild_bloom_at_capacity S c ix)) (po_doc_id p)"
  unfolding rebuild_bloom_at_capacity_def fold_bloom_concat
  using might_contain_inserts [OF bloom_inv_new, of "po_doc_id p" "map po_doc_id (concat (map snd (ix_postings ix)))"] assms
  by (simp del: set_concat)

lemma deserialize_serialize_index:
  assumes "sidecar_ok ix"
  shows "deserialize_index S (serialize_index ix) = Inr (rebuild_bloom_at_capacity S (unat (ix_total_docs ix)) ix)"
proof -
  have "get_terms 3 (length (ix_postings ix)) [] (concat (map put_term (ix_postings ix))) = Inr (ix_postings ix, [])"
    using get_put_terms [of "[]" "ix_postings ix" "[]"] assms by (simp add: sidecar_ok_def)
  moreover have "length (lit ''INVX'') = 4" by (simp add: lit_def)
  moreover have "rebuild_bloom_at_capacity S c
      \<lparr> ix_postings = ix_postings ix, ix_total_docs = ix_total_docs ix, ix_total_doc_len = ix_total_doc_len ix,
        ix_sidecar_lsn = ix_sidecar_lsn ix, ix_doc_bloom = Bloom_new S \<rparr> = rebuild_bloom_at_capacity S c ix" for c
    by (cases ix) (simp add: rebuild_bloom_at_capacity_def)
  ultimately show ?thesis using assms
    by (simp add: deserialize_index_def serialize_index_def sidecar_ok_def Let_def unat_u32_of_nat)
qed

text \<open>
  C25: A persisted index is read back without loss: deserialising the bytes of an index gives its
  postings in the order of the file, its totals and its LSN, with a filter of document ids that is
  rebuilt from the postings and contains the document of every posting. The limits are those of the length fields: 65535 bytes for terms and
  document ids, 65535 facets of a document and positions of a term.
\<close>

theorem sidecar_roundtrip:
  assumes "sidecar_ok ix"
  shows "\<exists>ix'. deserialize_index S (serialize_index ix) = Inr ix' \<and> ix_postings ix' = ix_postings ix \<and>
     ix_total_docs ix' = ix_total_docs ix \<and> ix_total_doc_len ix' = ix_total_doc_len ix \<and> ix_sidecar_lsn ix' = ix_sidecar_lsn ix \<and>
     (\<forall>(t, ps) \<in> set (ix_postings ix'). \<forall>p \<in> set ps. might_contain (ix_doc_bloom ix') (po_doc_id p))"
proof -
  let ?ix = "rebuild_bloom_at_capacity S (unat (ix_total_docs ix)) ix"
  have "might_contain (ix_doc_bloom ?ix) (po_doc_id p)" if "(t, ps) \<in> set (ix_postings ix)" "p \<in> set ps" for t ps p
    using that by (intro rebuilt_filter) (auto intro!: bexI [of _ "(t, ps)"])
  then show ?thesis using deserialize_serialize_index [OF assms, of S]
    by (intro exI [of _ ?ix]) (auto simp: rebuild_bloom_at_capacity_def)
qed

definition sample_index :: "bloom_sizing \<Rightarrow> InvertedIndex" where
  "sample_index S = add_document S [1] [\<lparr> tk_term = [0x61], tk_position = 0 \<rparr>, \<lparr> tk_term = [0x62], tk_position = 2 \<rparr>] 2
     [([0x63], FacetBool True)] (InvertedIndex_new S)"

theorem sidecar_roundtrip_witness:
  "\<exists>ix'. deserialize_index \<lparr> bs_bits = \<lambda>n. 10 * n, bs_hashes = \<lambda>m n. 7, bs_seed = \<lambda>b. 5 \<rparr>
     (serialize_index (sample_index \<lparr> bs_bits = \<lambda>n. 10 * n, bs_hashes = \<lambda>m n. 7, bs_seed = \<lambda>b. 5 \<rparr>)) = Inr ix' \<and>
     ix_postings ix' = ix_postings (sample_index \<lparr> bs_bits = \<lambda>n. 10 * n, bs_hashes = \<lambda>m n. 7, bs_seed = \<lambda>b. 5 \<rparr>) \<and>
     ix_total_docs ix' = 1 \<and> might_contain (ix_doc_bloom ix') [1]"
proof -
  have sat: "\<not> is_saturated (Bloom_new S)" for S
    by (simp add: is_saturated_def Bloom_new_def Bloom_with_capacity_def Let_def INITIAL_CAPACITY_def)
  have ix: "ix_postings (sample_index S) =
      [([0x61], [\<lparr> po_doc_id = [1], po_term_freq = 1, po_doc_len_tokens = 2, po_facets = [([0x63], FacetBool True)], po_positions = [0] \<rparr>]),
       ([0x62], [\<lparr> po_doc_id = [1], po_term_freq = 1, po_doc_len_tokens = 2, po_facets = [([0x63], FacetBool True)], po_positions = [2] \<rparr>])]"
    "ix_total_docs (sample_index S) = 1" for S
    by (simp_all add: sample_index_def add_document_def index_bloom_insert_def InvertedIndex_new_def term_data_def sat Let_def)
  have "sidecar_ok (sample_index S)" for S
    by (simp add: sidecar_ok_def ix str16_ok_def posting_ok_def facets_ok_def scalar_def as_bytes_def utf8_char_def)
  from sidecar_roundtrip [OF this] ix show ?thesis by fastforce
qed

end
