(* ===== verification/IndexFacts.thy ===== *)
theory IndexFacts
  imports InvertedIndex
begin

text \<open>
  The documents an inverted index stands for: the invariant that adding and removing documents
  keep, and from which the panics of the code are unreachable.
\<close>

section \<open>Hash maps to lists\<close>

definition lookup_list :: "('k \<times> 'v list) list \<Rightarrow> 'k \<Rightarrow> 'v list" where
  "lookup_list m k = (case map_of m k of None \<Rightarrow> [] | Some vs \<Rightarrow> vs)"

definition no_empty :: "('k \<times> 'v list) list \<Rightarrow> bool" where
  "no_empty m \<longleftrightarrow> (\<forall>x \<in> set m. snd x \<noteq> [])"

lemma lookup_list_Nil [simp]: "lookup_list [] k = []"
  by (simp add: lookup_list_def)

lemma lookup_push [simp]:
  "lookup_list (push_entry k v m) k' = (if k' = k then lookup_list m k @ [v] else lookup_list m k')"
  by (induction k v m rule: push_entry.induct) (auto simp: lookup_list_def)

lemma push_entry_keys: "set (map fst (push_entry k v m)) = insert k (set (map fst m))"
  by (induction k v m rule: push_entry.induct) auto

lemma push_entry_inv:
  "distinct (map fst m) \<Longrightarrow> distinct (map fst (push_entry k v m))" "no_empty m \<Longrightarrow> no_empty (push_entry k v m)"
proof -
  show "distinct (map fst m) \<Longrightarrow> distinct (map fst (push_entry k v m))"
  proof (induction k v m rule: push_entry.induct)
    case (2 k v k' vs m)
    then show ?case using push_entry_keys [of k v m] by auto
  qed simp
  show "no_empty m \<Longrightarrow> no_empty (push_entry k v m)"
    by (induction k v m rule: push_entry.induct) (auto simp: no_empty_def)
qed

lemma map_of_lookup: "no_empty m \<Longrightarrow> map_of m k = (if lookup_list m k = [] then None else Some (lookup_list m k))"
  by (cases "map_of m k") (auto simp: lookup_list_def no_empty_def dest!: map_of_SomeD)

lemma fold_push:
  assumes "distinct (map fst td)"
  shows "lookup_list (fold (\<lambda>(k, x). push_entry k (f x)) td m) t =
      lookup_list m t @ (case map_of td t of None \<Rightarrow> [] | Some x \<Rightarrow> [f x])"
  using assms
proof (induction td arbitrary: m)
  case (Cons kx td)
  obtain k x where kx: "kx = (k, x)" by fastforce
  have "map_of td k = None" using Cons.prems kx by (simp add: map_of_eq_None_iff)
  with Cons kx show ?case by auto
qed simp

lemma fold_push_inv:
  "distinct (map fst m) \<Longrightarrow> distinct (map fst (fold (\<lambda>(k, x). push_entry k (f x)) td m))"
  "no_empty m \<Longrightarrow> no_empty (fold (\<lambda>(k, x). push_entry k (f x)) td m)"
  by (induction td arbitrary: m) (auto intro: push_entry_inv)

section \<open>The terms of a document\<close>

definition term_positions :: "Token list \<Rightarrow> ustring \<Rightarrow> u32 list" where
  "term_positions tokens t = map (\<lambda>k. word_of_nat (tk_position k)) (filter (\<lambda>k. tk_term k = t) tokens)"

lemma term_data_fold:
  "lookup_list (fold (\<lambda>t. push_entry (tk_term t) (word_of_nat (tk_position t))) tokens m) t =
     lookup_list m t @ term_positions tokens t"
  "distinct (map fst m) \<Longrightarrow> distinct (map fst (fold (\<lambda>t. push_entry (tk_term t) (word_of_nat (tk_position t) :: u32)) tokens m))"
  "no_empty m \<Longrightarrow> no_empty (fold (\<lambda>t. push_entry (tk_term t) (word_of_nat (tk_position t) :: u32)) tokens m)"
  by (induction tokens arbitrary: m) (auto simp: term_positions_def intro: push_entry_inv)

lemma term_data_spec:
  "distinct (map fst (term_data tokens))"
  "map_of (term_data tokens) t = (if t \<in> tk_term ` set tokens then Some (term_positions tokens t) else None)"
proof -
  show "distinct (map fst (term_data tokens))" by (simp add: term_data_def term_data_fold(2))
  have "no_empty (term_data tokens)" unfolding term_data_def by (rule term_data_fold(3)) (simp add: no_empty_def)
  moreover have "lookup_list (term_data tokens) t = term_positions tokens t" by (simp add: term_data_def term_data_fold(1))
  moreover have "term_positions tokens t = [] \<longleftrightarrow> t \<notin> tk_term ` set tokens"
    by (auto simp: term_positions_def filter_empty_conv)
  ultimately show "map_of (term_data tokens) t = (if t \<in> tk_term ` set tokens then Some (term_positions tokens t) else None)"
    by (simp add: map_of_lookup)
qed

section \<open>The documents of an index\<close>

type_synonym docs = "bytes \<rightharpoonup> Token list \<times> Facets"

definition doc_posting :: "bytes \<Rightarrow> Token list \<times> Facets \<Rightarrow> ustring \<Rightarrow> Posting" where
  "doc_posting doc_id doc t = \<lparr> po_doc_id = doc_id, po_term_freq = word_of_nat (length (term_positions (fst doc) t)),
     po_doc_len_tokens = word_of_nat (length (fst doc)), po_facets = snd doc, po_positions = term_positions (fst doc) t \<rparr>"

lemma doc_posting_simps [simp]:
  "po_doc_id (doc_posting i doc t) = i" "po_doc_len_tokens (doc_posting i doc t) = word_of_nat (length (fst doc))"
  by (simp_all add: doc_posting_def)

definition postings_of :: "docs \<Rightarrow> ustring \<Rightarrow> Posting set" where
  "postings_of docs t = {doc_posting i doc t | i doc. docs i = Some doc \<and> t \<in> tk_term ` set (fst doc)}"

definition doc_len :: "Token list \<times> Facets \<Rightarrow> nat" where
  "doc_len doc = unat (word_of_nat (length (fst doc)) :: u32)"

definition index_holds :: "InvertedIndex \<Rightarrow> docs \<Rightarrow> bool" where
  "index_holds ix docs \<longleftrightarrow> finite (dom docs) \<and> (\<forall>doc \<in> ran docs. fst doc \<noteq> []) \<and>
     distinct (map fst (ix_postings ix)) \<and> no_empty (ix_postings ix) \<and>
     (\<forall>t. distinct (map po_doc_id (lookup_list (ix_postings ix) t)) \<and> set (lookup_list (ix_postings ix) t) = postings_of docs t) \<and>
     unat (ix_total_docs ix) = card (dom docs) \<and> unat (ix_total_doc_len ix) = (\<Sum>i \<in> dom docs. doc_len (the (docs i))) \<and>
     bloom_inv (ix_doc_bloom ix) \<and> (\<forall>i \<in> dom docs. might_contain (ix_doc_bloom ix) i)"

lemma index_holds_new: "index_holds (InvertedIndex_new S) Map.empty"
  by (simp add: index_holds_def InvertedIndex_new_def no_empty_def postings_of_def Bloom_new_def bloom_inv_new)

subsection \<open>The filter\<close>

lemma lookup_in_concat:
  "p \<in> set (lookup_list m t) \<Longrightarrow> p \<in> set (concat (map snd m))"
  by (cases "map_of m t") (auto simp: lookup_list_def dest!: map_of_SomeD intro: bexI [rotated])

lemma rebuild_contains:
  assumes "index_holds ix docs" "i \<in> dom docs"
  shows "might_contain (ix_doc_bloom (rebuild_bloom_at_capacity S c ix)) i"
proof -
  obtain doc where doc: "docs i = Some doc" using assms(2) by blast
  then have "doc \<in> ran docs" by (rule ranI)
  then obtain k where "k \<in> set (fst doc)" using assms(1) unfolding index_holds_def by (meson all_not_in_conv set_empty)
  then have "doc_posting i doc (tk_term k) \<in> set (lookup_list (ix_postings ix) (tk_term k))"
    using assms(1) doc unfolding index_holds_def postings_of_def by blast
  then have "i \<in> po_doc_id ` set (concat (map snd (ix_postings ix)))"
    using lookup_in_concat by (metis doc_posting_simps(1) image_eqI)
  then have "i \<in> set (map po_doc_id (concat (map snd (ix_postings ix))))" by simp
  then have "might_contain (fold Bloom_insert (map po_doc_id (concat (map snd (ix_postings ix)))) (Bloom_with_capacity S c')) i" for c'
    using might_contain_inserts [OF bloom_inv_new] by blast
  then show ?thesis by (simp only: rebuild_bloom_at_capacity_def fold_bloom_concat) simp
qed

lemma bloom_inv_rebuild: "bloom_inv (ix_doc_bloom (rebuild_bloom_at_capacity S c ix))"
proof -
  have "bloom_inv (fold Bloom_insert xs (Bloom_with_capacity S c'))" for xs c'
    by (induction xs rule: rev_induct) (simp_all add: bloom_inv_new bloom_inv_insert)
  then show ?thesis by (simp add: rebuild_bloom_at_capacity_def fold_bloom_concat)
qed

lemma index_bloom_insert_spec:
  assumes "index_holds ix docs"
  shows "bloom_inv (ix_doc_bloom (index_bloom_insert S i ix))"
    "j = i \<or> j \<in> dom docs \<Longrightarrow> might_contain (ix_doc_bloom (index_bloom_insert S i ix)) j"
    "ix_postings (index_bloom_insert S i ix) = ix_postings ix" "ix_total_docs (index_bloom_insert S i ix) = ix_total_docs ix"
    "ix_total_doc_len (index_bloom_insert S i ix) = ix_total_doc_len ix"
proof -
  define b where "b = ix_doc_bloom (if is_saturated (ix_doc_bloom ix)
      then rebuild_bloom_at_capacity S (bf_capacity (ix_doc_bloom ix) * 2) ix else ix)"
  have e: "ix_doc_bloom (index_bloom_insert S i ix) = Bloom_insert i b" by (simp add: index_bloom_insert_def b_def Let_def)
  have b: "bloom_inv b" using assms bloom_inv_rebuild by (simp add: b_def index_holds_def)
  have c: "might_contain b j" if "j \<in> dom docs" for j
    using assms that rebuild_contains [OF assms that] unfolding b_def index_holds_def by simp
  show "bloom_inv (ix_doc_bloom (index_bloom_insert S i ix))" by (simp add: e b bloom_inv_insert)
  show "j = i \<or> j \<in> dom docs \<Longrightarrow> might_contain (ix_doc_bloom (index_bloom_insert S i ix)) j"
    using might_contain_insert [OF b, of i] might_contain_mono [OF c, of j i] unfolding e by blast
  show "ix_postings (index_bloom_insert S i ix) = ix_postings ix" "ix_total_docs (index_bloom_insert S i ix) = ix_total_docs ix"
    "ix_total_doc_len (index_bloom_insert S i ix) = ix_total_doc_len ix"
    by (simp_all add: index_bloom_insert_def rebuild_bloom_at_capacity_def Let_def)
qed

subsection \<open>Adding and removing\<close>

lemma unat_u64_of_u32: "unat (ucast (w :: u32) :: u64) = unat w"
  using unat_bound [of w] by (simp add: unsigned_ucast_eq take_bit_nat_eq_self)

lemma unat_add_less: "unat (a :: u64) + unat b < 2 ^ 64 \<Longrightarrow> unat (a + b) = unat a + unat b"
  by (simp add: unat_word_ariths)

lemma postings_ids: "po_doc_id ` postings_of docs t \<subseteq> dom docs"
  by (auto simp: postings_of_def)

lemma postings_of_add:
  assumes "i \<notin> dom docs"
  shows "postings_of (docs(i \<mapsto> doc)) t = postings_of docs t \<union> (if t \<in> tk_term ` set (fst doc) then {doc_posting i doc t} else {})"
proof (intro equalityI subsetI)
  fix p assume "p \<in> postings_of (docs(i \<mapsto> doc)) t"
  then obtain j d where j: "p = doc_posting j d t" "(docs(i \<mapsto> doc)) j = Some d" "t \<in> tk_term ` set (fst d)"
    unfolding postings_of_def by blast
  then show "p \<in> postings_of docs t \<union> (if t \<in> tk_term ` set (fst doc) then {doc_posting i doc t} else {})"
  proof (cases "j = i")
    case False
    then have "docs j = Some d" using j(2) by simp
    with j have "p \<in> postings_of docs t" unfolding postings_of_def by blast
    then show ?thesis by simp
  qed auto
next
  fix p assume "p \<in> postings_of docs t \<union> (if t \<in> tk_term ` set (fst doc) then {doc_posting i doc t} else {})"
  then consider "p \<in> postings_of docs t" | "t \<in> tk_term ` set (fst doc)" "p = doc_posting i doc t" by (auto split: if_splits)
  then show "p \<in> postings_of (docs(i \<mapsto> doc)) t"
  proof cases
    case 1
    then obtain j d where j: "p = doc_posting j d t" "docs j = Some d" "t \<in> tk_term ` set (fst d)"
      unfolding postings_of_def by blast
    with assms have "(docs(i \<mapsto> doc)) j = Some d" by auto
    with j show ?thesis unfolding postings_of_def by blast
  next
    case 2
    then show ?thesis unfolding postings_of_def by (metis (mono_tags, lifting) fun_upd_same mem_Collect_eq)
  qed
qed

lemma postings_of_remove: "postings_of (docs(i := None)) t = {p \<in> postings_of docs t. po_doc_id p \<noteq> i}"
  by (auto simp: postings_of_def split: if_splits)

lemma add_document_holds:
  assumes "index_holds ix docs" "i \<notin> dom docs" "fst doc \<noteq> []" "card (dom docs) + 1 < 2 ^ 64"
    and "(\<Sum>j \<in> dom docs. doc_len (the (docs j))) + doc_len doc < 2 ^ 64"
  shows "index_holds (add_document S i (fst doc) (word_of_nat (length (fst doc))) (snd doc) ix) (docs(i \<mapsto> doc))"
proof -
  note h = assms(1) [unfolded index_holds_def] and b = index_bloom_insert_spec [OF assms(1), where S = S and i = i]
  let ?ix = "add_document S i (fst doc) (word_of_nat (length (fst doc))) (snd doc) ix"
  let ?f = "\<lambda>positions. \<lparr> po_doc_id = i, po_term_freq = word_of_nat (length positions),
      po_doc_len_tokens = word_of_nat (length (fst doc)), po_facets = snd doc, po_positions = positions \<rparr>"
  have P: "ix_postings ?ix = fold (\<lambda>(k, x). push_entry k (?f x)) (term_data (fst doc)) (ix_postings ix)"
    by (simp add: add_document_def Let_def b(3))
  have look: "lookup_list (ix_postings ?ix) t = lookup_list (ix_postings ix) t @
      (if t \<in> tk_term ` set (fst doc) then [doc_posting i doc t] else [])" for t
    unfolding P fold_push [OF term_data_spec(1), where f = ?f] by (simp add: term_data_spec(2) doc_posting_def)
  have ids: "i \<notin> po_doc_id ` set (lookup_list (ix_postings ix) t)" for t
    using h postings_ids [of docs t] assms(2) by auto
  have "distinct (map fst (ix_postings ?ix))" unfolding P by (rule fold_push_inv(1)) (use h in blast)
  moreover have "no_empty (ix_postings ?ix)" unfolding P by (rule fold_push_inv(2)) (use h in blast)
  moreover have "distinct (map po_doc_id (lookup_list (ix_postings ?ix) t))" for t
    using h ids [of t] by (simp add: look)
  moreover have "set (lookup_list (ix_postings ?ix) t) = postings_of (docs(i \<mapsto> doc)) t" for t
    using h by (simp add: look postings_of_add [OF assms(2)])
  moreover have "unat (ix_total_docs ?ix) = card (dom (docs(i \<mapsto> doc)))"
  proof -
    have "unat (ix_total_docs ix + 1) = unat (ix_total_docs ix) + 1" using h assms(4) unat_add_less [of "ix_total_docs ix" 1] by simp
    then show ?thesis using h assms(2) by (simp add: add_document_def Let_def b(4))
  qed
  moreover have "unat (ix_total_doc_len ?ix) = (\<Sum>j \<in> dom (docs(i \<mapsto> doc)). doc_len (the ((docs(i \<mapsto> doc)) j)))"
  proof -
    have "unat (ix_total_doc_len ix + ucast (word_of_nat (length (fst doc)) :: u32)) =
        (\<Sum>j \<in> dom docs. doc_len (the (docs j))) + doc_len doc"
      using h assms(5) unat_add_less [of "ix_total_doc_len ix" "ucast (word_of_nat (length (fst doc)) :: u32)"]
      by (simp add: unat_u64_of_u32 doc_len_def)
    moreover have "(\<Sum>j \<in> dom docs. doc_len (the ((docs(i \<mapsto> doc)) j))) = (\<Sum>j \<in> dom docs. doc_len (the (docs j)))"
      using assms(2) by (intro sum.cong) auto
    ultimately show ?thesis using h assms(2) by (simp add: add_document_def Let_def b(5) sum.insert_if)
  qed
  moreover have "ix_doc_bloom ?ix = ix_doc_bloom (index_bloom_insert S i ix)" by (simp add: add_document_def Let_def)
  moreover have "\<forall>d \<in> ran (docs(i \<mapsto> doc)). fst d \<noteq> []"
    using h assms(2,3) by (auto simp: ran_def split: if_splits)
  ultimately show ?thesis using h b(1,2) unfolding index_holds_def by auto
qed

lemma lookup_retained:
  "distinct (map fst m) \<Longrightarrow>
   lookup_list (filter (\<lambda>(_, vs). vs \<noteq> []) (map (\<lambda>(t, vs). (t, filter Q vs)) m)) t = filter Q (lookup_list m t)"
proof (induction m)
  case (Cons kv m)
  obtain k vs where kv: "kv = (k, vs)" by fastforce
  have none: "map_of (filter (\<lambda>(_, vs). vs \<noteq> []) (map (\<lambda>(t, vs). (t, filter Q vs)) m)) k = None" if "k \<notin> fst ` set m"
    using that by (force simp: map_of_eq_None_iff)
  show ?case
  proof (cases "t = k")
    case True
    have "k \<notin> fst ` set m" using Cons.prems kv by simp
    with True kv show ?thesis using none by (auto simp: lookup_list_def)
  next
    case False
    then have "lookup_list (kv # m) t = lookup_list m t" "lookup_list ((k, ws) # xs) t = lookup_list xs t" for ws xs
      by (simp_all add: lookup_list_def kv)
    with Cons False kv show ?thesis by (auto simp: lookup_list_def)
  qed
qed simp

lemma concat_lookup: "distinct (map fst m) \<Longrightarrow> p \<in> set (concat (map snd m)) \<longleftrightarrow> (\<exists>t. p \<in> set (lookup_list m t))"
proof
  assume d: "distinct (map fst m)" and "p \<in> set (concat (map snd m))"
  then obtain t ps where "(t, ps) \<in> set m" "p \<in> set ps" by auto
  with d have "p \<in> set (lookup_list m t)" by (simp add: lookup_list_def)
  then show "\<exists>t. p \<in> set (lookup_list m t)" by blast
qed (blast intro: lookup_in_concat)

lemma remove_document_holds:
  assumes "index_holds ix docs"
  shows "\<exists>ix'. remove_document i ix = (ix', Inr (docs i \<noteq> None)) \<and> index_holds ix' (docs(i := None))"
proof -
  note h = assms [unfolded index_holds_def]
  let ?P = "filter (\<lambda>(_, ps). ps \<noteq> []) (map (\<lambda>(t, ps). (t, filter (\<lambda>p. po_doc_id p \<noteq> i) ps)) (ix_postings ix))"
  have look: "lookup_list ?P t = filter (\<lambda>p. po_doc_id p \<noteq> i) (lookup_list (ix_postings ix) t)" for t
    using h by (simp add: lookup_retained)
  have inv: "distinct (map fst ?P)" "no_empty ?P"
  proof -
    have "map fst (map (\<lambda>(t, ps). (t, filter (\<lambda>p. po_doc_id p \<noteq> i) ps)) (ix_postings ix)) = map fst (ix_postings ix)" by auto
    then have "distinct (map fst (map (\<lambda>(t, ps). (t, filter (\<lambda>p. po_doc_id p \<noteq> i) ps)) (ix_postings ix)))"
      using h by (elim conjE) (simp only:)
    then show "distinct (map fst ?P)" by (rule distinct_map_filter)
    show "no_empty ?P" by (auto simp: no_empty_def)
  qed
  have mem: "p \<in> set (concat (map snd (ix_postings ix))) \<longleftrightarrow> (\<exists>t. p \<in> postings_of docs t)" for p
    using h by (simp only: concat_lookup)
  have post: "distinct (map po_doc_id (lookup_list ?P t)) \<and> set (lookup_list ?P t) = postings_of (docs(i := None)) t" for t
    using h by (auto simp: look postings_of_remove distinct_map_filter)
  have keep: "finite (dom (docs(i := None)))" "\<forall>d \<in> ran (docs(i := None)). fst d \<noteq> []"
    "\<forall>j \<in> dom (docs(i := None)). might_contain (ix_doc_bloom ix) j"
    using h by (auto simp: ran_def split: if_splits)
  show ?thesis
  proof (cases "docs i")
    case None
    have "List.find (\<lambda>p. po_doc_id p = i) (concat (map snd (ix_postings ix))) = None"
      using mem None by (auto simp: find_None_iff postings_of_def)
    then have "remove_document i ix = (ix\<lparr>ix_postings := ?P\<rparr>, Inr False)" by (simp add: remove_document_def Let_def)
    moreover have "docs(i := None) = docs" using None by auto
    ultimately show ?thesis using h inv post keep None unfolding index_holds_def by simp
  next
    case (Some doc)
    have doc: "doc \<in> ran docs" using Some by (rule ranI)
    then obtain k where k: "k \<in> set (fst doc)" using h by (meson all_not_in_conv set_empty)
    then have "doc_posting i doc (tk_term k) \<in> set (concat (map snd (ix_postings ix)))"
      using Some unfolding mem postings_of_def by blast
    then have "List.find (\<lambda>p. po_doc_id p = i) (concat (map snd (ix_postings ix))) \<noteq> None"
      unfolding find_None_iff by (metis doc_posting_simps(1))
    then obtain p where p: "List.find (\<lambda>p. po_doc_id p = i) (concat (map snd (ix_postings ix))) = Some p" by blast
    then have "p \<in> set (concat (map snd (ix_postings ix)))" "po_doc_id p = i" by (auto simp: find_Some_iff simp del: set_concat)
    then have len: "po_doc_len_tokens p = word_of_nat (length (fst doc))" using Some unfolding mem postings_of_def by auto
    have fin: "finite (dom docs)" "i \<in> dom docs" using h Some by auto
    have card: "card (dom docs) = card (dom (docs(i := None))) + 1"
      using card_Suc_Diff1 [OF fin] by simp
    have "(\<Sum>j \<in> dom (docs(i := None)). doc_len (the ((docs(i := None)) j))) = (\<Sum>j \<in> dom docs - {i}. doc_len (the (docs j)))"
      by (intro sum.cong) auto
    then have sum: "(\<Sum>j \<in> dom docs. doc_len (the (docs j))) =
        doc_len doc + (\<Sum>j \<in> dom (docs(i := None)). doc_len (the ((docs(i := None)) j)))"
      using sum.remove [OF fin, of "\<lambda>j. doc_len (the (docs j))"] Some by simp
    let ?len = "ucast (po_doc_len_tokens p) :: u64"
    have ul: "unat ?len = doc_len doc" by (simp add: unat_u64_of_u32 len doc_len_def)
    have pos: "ix_total_docs ix > 0" "ix_total_doc_len ix \<ge> ?len"
      using h card sum ul by (simp_all add: word_less_nat_alt word_le_nat_alt)
    have "unat (ix_total_docs ix - 1) = card (dom (docs(i := None)))" "unat (ix_total_doc_len ix - ?len) =
        (\<Sum>j \<in> dom (docs(i := None)). doc_len (the ((docs(i := None)) j)))"
      using h card sum ul pos by (simp_all add: unat_sub word_le_nat_alt)
    moreover have "remove_document i ix =
        (ix\<lparr>ix_postings := ?P, ix_total_docs := ix_total_docs ix - 1, ix_total_doc_len := ix_total_doc_len ix - ?len\<rparr>, Inr True)"
      using p pos by (simp add: remove_document_def Let_def)
    ultimately show ?thesis using h inv post keep Some unfolding index_holds_def by simp
  qed
qed

section \<open>Replacing a document\<close>

definition doc_fits :: "docs \<Rightarrow> Token list \<times> Facets \<Rightarrow> bool" where
  "doc_fits docs doc \<longleftrightarrow> fst doc \<noteq> [] \<and> card (dom docs) + 1 < 2 ^ 64 \<and>
     (\<Sum>j \<in> dom docs. doc_len (the (docs j))) + doc_len doc < 2 ^ 64"

text \<open>
  C22: The index keeps its form, as long as every document has a token: one posting list per term
  without empty lists, one posting per document and term with the frequency, the positions, the
  facets and the length of the document, exact totals, and a filter that contains every document.
  Removing a document never panics, reports whether it was there and leaves the index of the other
  documents; adding the new version afterwards, as re-indexing does, gives the index with the
  document replaced. Both the documents in the index (\<open>index_holds\<close>) and the new one (\<open>doc_fits\<close>) have
  at least one token, and the totals stay below \<open>2 ^ 64\<close>; a document without tokens leaves no posting,
  so that removal does not find it and the totals are wrong (\<open>empty_document_inflates_totals\<close>).
\<close>
theorem index_stays_well_formed:
  assumes "index_holds ix docs" "doc_fits (docs(i := None)) doc"
  shows "\<exists>ix'. remove_document i ix = (ix', Inr (docs i \<noteq> None)) \<and> index_holds ix' (docs(i := None)) \<and>
    index_holds (add_document S i (fst doc) (word_of_nat (length (fst doc))) (snd doc) ix') (docs(i \<mapsto> doc))"
proof -
  obtain ix' where ix': "remove_document i ix = (ix', Inr (docs i \<noteq> None))" "index_holds ix' (docs(i := None))"
    using remove_document_holds [OF assms(1)] by blast
  have "i \<notin> dom (docs(i := None))" by simp
  from add_document_holds [OF ix'(2) this] assms(2) ix' show ?thesis by (auto simp: doc_fits_def)
qed

definition sample_sizing :: bloom_sizing where
  "sample_sizing = \<lparr> bs_bits = \<lambda>n. 10 * n, bs_hashes = \<lambda>m n. 7, bs_seed = \<lambda>b. 5 \<rparr>"

theorem index_stays_well_formed_witness:
  "\<exists>ix'. remove_document [1] (add_document sample_sizing [1] [\<lparr> tk_term = [0x61], tk_position = 0 \<rparr>] 1 []
       (InvertedIndex_new sample_sizing)) = (ix', Inr True) \<and>
    index_holds (add_document sample_sizing [1] [\<lparr> tk_term = [0x62], tk_position = 3 \<rparr>] 1 [] ix')
      [[1] \<mapsto> ([\<lparr> tk_term = [0x62], tk_position = 3 \<rparr>], [])]"
proof -
  let ?a = "([\<lparr> tk_term = [0x61], tk_position = 0 \<rparr>], [])" and ?b = "([\<lparr> tk_term = [0x62], tk_position = 3 \<rparr>], [])"
  have "index_holds (add_document sample_sizing [1] [\<lparr> tk_term = [0x61], tk_position = 0 \<rparr>] 1 []
      (InvertedIndex_new sample_sizing)) [[1] \<mapsto> ?a]"
    using add_document_holds [OF index_holds_new, where i = "[1]" and doc = ?a] by (simp add: doc_len_def)
  moreover have "doc_fits ([[1] \<mapsto> ?a]([1] := None)) ?b" by (simp add: doc_fits_def doc_len_def)
  ultimately show ?thesis using index_stays_well_formed [where i = "[1]" and doc = ?b and S = sample_sizing] by fastforce
qed

end
