(* ===== verification/Typo.thy ===== *)
theory Typo
  imports Unicode
begin

text \<open>
  Typo tolerance, \<open>edgestore-text/src/text/typo.rs\<close>: the Wagner-Fischer table with two rows, and its
  equivalence with the edit distance, the least number of single-character insertions, deletions
  and substitutions.
\<close>

definition lev_cell :: "nat \<Rightarrow> ustring \<Rightarrow> nat list \<Rightarrow> nat \<Rightarrow> nat list \<Rightarrow> nat list" where
  "lev_cell c b prev_row j curr_row =
     (let cost = (if c = b ! (j - 1) then 0 else 1)
      in curr_row[j := min (min (curr_row ! (j - 1) + 1) (prev_row ! j + 1)) (prev_row ! (j - 1) + cost)])"

definition lev_row :: "ustring \<Rightarrow> ustring \<Rightarrow> nat \<Rightarrow> nat list \<times> nat list \<Rightarrow> nat list \<times> nat list" where
  "lev_row a b i = (\<lambda>(prev_row, curr_row).
     (fold (lev_cell (a ! (i - 1)) b prev_row) [1..<length b + 1] (curr_row[0 := i]), prev_row))"

definition levenshtein :: "ustring \<Rightarrow> ustring \<Rightarrow> nat" where
  "levenshtein a b =
     (if length a = 0 then length b
      else if length b = 0 then length a
      else fst (fold (lev_row a b) [1..<length a + 1] ([0..<length b + 1], replicate (length b + 1) 0)) ! length b)"

definition is_one_edit_away :: "ustring \<Rightarrow> ustring \<Rightarrow> bool" where
  "is_one_edit_away a b \<longleftrightarrow> levenshtein a b \<le> 1"

section \<open>The edit distance\<close>

inductive edit_step :: "'a list \<Rightarrow> 'a list \<Rightarrow> bool" where
  insert_char: "edit_step (xs @ ys) (xs @ c # ys)"
| delete_char: "edit_step (xs @ c # ys) (xs @ ys)"
| subst_char: "edit_step (xs @ c # ys) (xs @ e # ys)"

fun edit :: "'a list \<Rightarrow> 'a list \<Rightarrow> nat" where
  "edit [] ys = length ys"
| "edit (x # xs) [] = length (x # xs)"
| "edit (x # xs) (y # ys) =
     min (min (edit (x # xs) ys + 1) (edit xs (y # ys) + 1)) (edit xs ys + (if x = y then 0 else 1))"

lemma edit_Nil2 [simp]: "edit xs [] = length xs"
  by (cases xs) simp_all

lemma edit_Cons_bounds:
  "edit (x # xs) ys \<le> edit xs ys + 1" "edit xs ys \<le> edit (x # xs) ys + 1"
  "edit xs (y # ys) \<le> edit xs ys + 1" "edit xs ys \<le> edit xs (y # ys) + 1"
proof -
  have le1: "edit (x # xs) ys \<le> edit xs ys + 1" for x :: 'a and xs ys by (cases ys) auto
  have le2: "edit xs (y # ys) \<le> edit xs ys + 1" for y :: 'a and xs ys by (cases xs) auto
  have ge1: "edit xs ys \<le> edit (x # xs) ys + 1" for x :: 'a and xs ys
  proof (induction ys)
    case (Cons y ys)
    then show ?case using le2 [of xs y ys] unfolding edit.simps by linarith
  qed simp
  have ge2: "edit xs ys \<le> edit xs (y # ys) + 1" for y :: 'a and xs ys
  proof (induction xs)
    case (Cons x xs)
    then show ?case using le1 [of x xs ys] unfolding edit.simps by linarith
  qed simp
  show "edit (x # xs) ys \<le> edit xs ys + 1" "edit xs ys \<le> edit (x # xs) ys + 1"
    "edit xs (y # ys) \<le> edit xs ys + 1" "edit xs ys \<le> edit xs (y # ys) + 1"
    by (rule le1 ge1 le2 ge2)+
qed

text \<open>The distance changes by at most one where the second list is edited.\<close>

lemma edit_lipschitz:
  assumes "\<And>a. edit a u \<le> edit a v + 1"
  shows "edit a (xs @ u) \<le> edit a (xs @ v) + 1"
proof (induction a arbitrary: xs)
  case Nil
  have "length u \<le> length v + 1" using assms [of "[]"] by simp
  then show ?case by simp
next
  case (Cons x a)
  note outer = Cons.IH
  show ?case
  proof (induction xs)
    case Nil
    then show ?case using assms by simp
  next
    case (Cons w xs)
    have "edit a (xs @ u) \<le> edit a (xs @ v) + 1" "edit a ((w # xs) @ u) \<le> edit a ((w # xs) @ v) + 1"
      by (rule outer)+
    with Cons show ?case by simp
  qed
qed

lemma edit_step_le: "edit_step b c \<Longrightarrow> edit a c \<le> edit a b + 1"
proof (induction rule: edit_step.induct)
  case (insert_char xs ys c)
  show ?case by (rule edit_lipschitz) (rule edit_Cons_bounds)
next
  case (delete_char xs c ys)
  show ?case by (rule edit_lipschitz) (rule edit_Cons_bounds)
next
  case (subst_char xs c ys e)
  have "edit a (e # ys) \<le> edit a (c # ys) + 1" for a
  proof (induction a)
    case (Cons x a)
    then show ?case using edit_Cons_bounds(1) [of x a ys] unfolding edit.simps by auto
  qed simp
  then show ?case by (rule edit_lipschitz)
qed

lemma edit_refl [simp]: "edit a a = 0"
  by (induction a) auto

lemma edit_le_steps: "(edit_step ^^ n) a b \<Longrightarrow> edit a b \<le> n"
proof (induction n arbitrary: b)
  case (Suc n)
  then obtain c where "(edit_step ^^ n) a c" "edit_step c b" by auto
  with Suc.IH [of c] edit_step_le [of c b a] show ?case by simp
qed simp

lemma edit_step_Cons: "edit_step xs ys \<Longrightarrow> edit_step (z # xs) (z # ys)"
  by (induction rule: edit_step.induct) (metis append_Cons edit_step.intros)+

lemma edit_steps_Cons: "(edit_step ^^ n) xs ys \<Longrightarrow> (edit_step ^^ n) (z # xs) (z # ys)"
  by (induction n arbitrary: ys) (auto intro: edit_step_Cons)

lemma edit_steps_front:
  "edit_step ys (y # ys)" "edit_step (x # xs) xs" "edit_step (x # xs) (y # xs)"
  using insert_char [of "[]" ys y] delete_char [of "[]" x xs] subst_char [of "[]" x xs y] by simp_all

lemma edit_steps_exist: "(edit_step ^^ edit a b) a b"
proof (induction a b rule: edit.induct)
  case (1 ys)
  show ?case by (induction ys) (auto intro: edit_steps_front)
next
  case (2 x xs)
  have "(edit_step ^^ length zs) zs []" for zs :: "'a list"
  proof (induction zs)
    case (Cons z zs)
    from relpowp_Suc_I2 [of edit_step, OF edit_steps_front(2) Cons.IH] show ?case by simp
  qed simp
  then show ?case by (metis edit_Nil2)
next
  case (3 x xs y ys)
  define m where "m = edit (x # xs) (y # ys)"
  have "m = Suc (edit (x # xs) ys) \<or> m = Suc (edit xs (y # ys)) \<or> m = edit xs ys + (if x = y then 0 else 1)"
    unfolding m_def edit.simps by linarith
  then consider "m = Suc (edit (x # xs) ys)" | "m = Suc (edit xs (y # ys))" | "m = edit xs ys" "x = y" | "m = Suc (edit xs ys)" "x \<noteq> y"
    by (cases "x = y") auto
  then have "(edit_step ^^ m) (x # xs) (y # ys)"
  proof cases
    case 1
    with relpowp_Suc_I [OF "3.IH"(1) edit_steps_front(1)] show ?thesis by simp
  next
    case 2
    with relpowp_Suc_I2 [of edit_step, OF edit_steps_front(2) "3.IH"(2)] show ?thesis by simp
  next
    case 3
    with edit_steps_Cons [OF "3.IH"(3)] show ?thesis by simp
  next
    case 4
    with relpowp_Suc_I2 [of edit_step, OF edit_steps_front(3) edit_steps_Cons [OF "3.IH"(3)]] show ?thesis by simp
  qed
  then show ?case by (simp only: m_def)
qed

lemma edit_step_rev: "edit_step xs ys \<Longrightarrow> edit_step (rev xs) (rev ys)"
proof (induction rule: edit_step.induct)
  case (insert_char xs ys c)
  then show ?case using edit_step.insert_char [of "rev ys" "rev xs" c] by simp
next
  case (delete_char xs c ys)
  then show ?case using edit_step.delete_char [of "rev ys" c "rev xs"] by simp
next
  case (subst_char xs c ys e)
  then show ?case using edit_step.subst_char [of "rev ys" c "rev xs" e] by simp
qed

lemma edit_steps_rev: "(edit_step ^^ n) xs ys \<Longrightarrow> (edit_step ^^ n) (rev xs) (rev ys)"
  by (induction n arbitrary: ys) (auto intro: edit_step_rev)

lemma edit_rev: "edit (rev a) (rev b) = edit a b"
proof -
  have le: "edit (rev a) (rev b) \<le> edit a b" for a b :: "'a list"
    by (rule edit_le_steps [OF edit_steps_rev [OF edit_steps_exist]])
  from le [of a b] le [of "rev a" "rev b"] show ?thesis by simp
qed

section \<open>The table\<close>

text \<open>The entry of the table for the first \<open>i\<close> and \<open>j\<close> characters.\<close>

definition table :: "ustring \<Rightarrow> ustring \<Rightarrow> nat \<Rightarrow> nat \<Rightarrow> nat" where
  "table a b i j = edit (rev (take i a)) (rev (take j b))"

lemma table_simps:
  "table a b 0 j = min j (length b)" "table a b i 0 = min i (length a)"
  "i < length a \<Longrightarrow> j < length b \<Longrightarrow> table a b (Suc i) (Suc j) =
     min (min (table a b (Suc i) j + 1) (table a b i (Suc j) + 1)) (table a b i j + (if a ! i = b ! j then 0 else 1))"
  by (simp_all add: table_def take_Suc_conv_app_nth min.commute)

lemma lev_inner:
  assumes "length cur = length b + 1" "i < length a" "\<And>k. k \<le> length b \<Longrightarrow> prev ! k = table a b i k" "j \<le> length b"
  shows "length (fold (lev_cell (a ! i) b prev) [1..<j + 1] (cur[0 := Suc i])) = length b + 1 \<and>
     (\<forall>k \<le> j. fold (lev_cell (a ! i) b prev) [1..<j + 1] (cur[0 := Suc i]) ! k = table a b (Suc i) k)"
  using assms(4)
proof (induction j)
  case 0
  then show ?case using assms(1,2) by (simp add: table_simps)
next
  case (Suc j)
  let ?c = "fold (lev_cell (a ! i) b prev) [1..<j + 1] (cur[0 := Suc i])"
  have ih: "length ?c = length b + 1" "\<forall>k \<le> j. ?c ! k = table a b (Suc i) k" using Suc by auto
  have up: "[1..<Suc j + 1] = [1..<j + 1] @ [Suc j]" by simp
  have cell: "lev_cell (a ! i) b prev (Suc j) ?c = ?c[Suc j := table a b (Suc i) (Suc j)]"
    using ih(2) Suc.prems assms(2,3) by (simp add: lev_cell_def Let_def table_simps(3) min.assoc)
  show ?case unfolding up fold_append comp_def fold_simps cell
    using ih Suc.prems by (auto simp: nth_list_update le_Suc_eq)
qed

lemma lev_outer:
  assumes "m \<le> length a"
  shows "\<exists>prev cur. fold (lev_row a b) [1..<m + 1] ([0..<length b + 1], replicate (length b + 1) 0) = (prev, cur) \<and>
     length prev = length b + 1 \<and> length cur = length b + 1 \<and> (\<forall>k \<le> length b. prev ! k = table a b m k)"
  using assms
proof (induction m)
  case 0
  have "[0..<length b + 1] ! k = k" if "k \<le> length b" for k using that by (simp del: upt_Suc)
  then show ?case by (simp add: table_simps del: upt_Suc)
next
  case (Suc m)
  then obtain prev cur where ih: "fold (lev_row a b) [1..<m + 1] ([0..<length b + 1], replicate (length b + 1) 0) = (prev, cur)"
    "length prev = length b + 1" "length cur = length b + 1" "\<forall>k \<le> length b. prev ! k = table a b m k" by auto
  have up: "[1..<Suc m + 1] = [1..<m + 1] @ [Suc m]" by simp
  have "lev_row a b (Suc m) (prev, cur) = (fold (lev_cell (a ! m) b prev) [1..<length b + 1] (cur[0 := Suc m]), prev)"
    by (simp add: lev_row_def)
  with lev_inner [OF ih(3), of m a prev "length b"] ih Suc.prems
  show ?case unfolding up fold_append comp_def ih(1) fold_simps by simp
qed

lemma levenshtein_edit: "levenshtein a b = edit a b"
proof -
  have "fst (fold (lev_row a b) [1..<length a + 1] ([0..<length b + 1], replicate (length b + 1) 0)) ! length b =
      table a b (length a) (length b)"
    using lev_outer [of "length a" a b] by auto
  then show ?thesis by (simp add: levenshtein_def table_def edit_rev del: upt_Suc)
qed

text \<open>
  C27: The table computes the edit distance: \<open>levenshtein\<close> returns a number up to \<open>n\<close> exactly when the
  one string can be turned into the other by at most \<open>n\<close> insertions, deletions or substitutions of
  a character. In particular \<open>is_one_edit_away\<close> accepts exactly the equal strings and those that
  are one such edit apart.
\<close>

theorem levenshtein_is_edit_distance:
  "(levenshtein a b \<le> n) = (\<exists>m \<le> n. (edit_step ^^ m) a b) \<and>
   is_one_edit_away a b = (a = b \<or> edit_step a b)"
proof -
  have lev: "(levenshtein a b \<le> n) = (\<exists>m \<le> n. (edit_step ^^ m) a b)" for n
    unfolding levenshtein_edit using edit_steps_exist [of a b] edit_le_steps order_trans by metis
  have "(\<exists>m \<le> 1. P m) \<longleftrightarrow> P 0 \<or> P (Suc 0)" for P :: "nat \<Rightarrow> bool" by (auto simp: le_Suc_eq)
  then have "(\<exists>m \<le> 1. (edit_step ^^ m) a b) \<longleftrightarrow> a = b \<or> edit_step a b" by auto
  with lev show ?thesis unfolding is_one_edit_away_def by blast
qed

end
