(* ===== verification/TextIndex.thy ===== *)
theory TextIndex
  imports IndexFacts Typo
begin

text \<open>
  Full-text search on top of the engine, \<open>edgestore-text/src/lib.rs\<close>: documents are records of the engine
  under a synthetic namespace, the inverted index of a namespace is cached and rebuilt from the
  records when it is not. The operations of the engine that the crate calls are the fields of
  \<open>kv_ops\<close>. What the crate uses of libraries, floating point, memory layout and the order of a hash
  map are the fields of \<open>text_env\<close>.
\<close>

record 's kv_ops =
  kv_get :: "'s \<Rightarrow> bytes \<Rightarrow> bytes \<Rightarrow> bytes option res"
  kv_put :: "bytes \<Rightarrow> bytes \<Rightarrow> bytes \<Rightarrow> 's \<Rightarrow> 's \<times> Lsn res"
  kv_delete :: "bytes \<Rightarrow> bytes \<Rightarrow> 's \<Rightarrow> 's \<times> Lsn res"
  kv_prefix :: "'s \<Rightarrow> bytes \<Rightarrow> bytes \<Rightarrow> (bytes \<times> bytes) list res"

record 'f text_env =
  env_analyzer :: analyzer
  env_sizing :: bloom_sizing
  env_float :: "'f f32_ops"
  env_posting_size :: u64
  env_term_order :: "ustring list \<Rightarrow> ustring list"

definition TEXT_INDEX_KEY :: bytes where "TEXT_INDEX_KEY = lit ''__index__''"

record TextIndex =
  ti_indices :: "(bytes \<times> InvertedIndex) list"
  ti_language :: Language
  ti_dirty :: "bytes list"

definition TextIndex_with_language :: "Language \<Rightarrow> TextIndex" where
  "TextIndex_with_language language = \<lparr> ti_indices = [], ti_language = language, ti_dirty = [] \<rparr>"

definition TextIndex_new :: TextIndex where
  "TextIndex_new = \<lparr> ti_indices = [], ti_language = English, ti_dirty = [] \<rparr>"

section \<open>Loading an index\<close>

definition doc_tokens :: "'f text_env \<Rightarrow> Language \<Rightarrow> ustring \<Rightarrow> Token list" where
  "doc_tokens V lang text = tokenize (env_analyzer V) text lang"

definition rebuild_step :: "'f text_env \<Rightarrow> Language \<Rightarrow> bytes \<times> bytes \<Rightarrow> InvertedIndex \<Rightarrow> InvertedIndex" where
  "rebuild_step V lang = (\<lambda>(key, bytes) index.
     if key = TEXT_INDEX_KEY then index
     else case decode_text_record bytes of
            None \<Rightarrow> index
          | Some record \<Rightarrow>
              let tokens = doc_tokens V lang (tr_text record)
              in add_document (env_sizing V) key tokens (word_of_nat (length tokens)) (tr_facets record) index)"

definition rebuild_from_engine :: "'f text_env \<Rightarrow> 's kv_ops \<Rightarrow> 's \<Rightarrow> bytes \<Rightarrow> Language \<Rightarrow> InvertedIndex res" where
  "rebuild_from_engine V K engine text_ns language =
     (if text_ns = [] then Inl (Panic ''text_ns must not be empty'')
      else and_then (kv_prefix K engine text_ns []) (\<lambda>pairs.
             Inr (fold (rebuild_step V language) pairs (InvertedIndex_new (env_sizing V)))))"

definition ensure_loaded :: "'f text_env \<Rightarrow> 's kv_ops \<Rightarrow> 's \<Rightarrow> bytes \<Rightarrow> TextIndex \<Rightarrow> TextIndex res" where
  "ensure_loaded V K engine text_ns ti =
     (if text_ns = [] then Inl (Panic ''text_ns must not be empty'')
      else if map_of (ti_indices ti) text_ns \<noteq> None then Inr ti
      else and_then (rebuild_from_engine V K engine text_ns (ti_language ti)) (\<lambda>rebuilt.
             Inr (ti\<lparr>ti_indices := AList.update text_ns rebuilt (ti_indices ti)\<rparr>)))"

definition loaded_index :: "bytes \<Rightarrow> TextIndex \<Rightarrow> InvertedIndex" where
  "loaded_index text_ns ti = the (map_of (ti_indices ti) text_ns)"

definition set_index :: "bytes \<Rightarrow> InvertedIndex \<Rightarrow> TextIndex \<Rightarrow> TextIndex" where
  "set_index text_ns index ti = ti\<lparr>ti_indices := AList.update text_ns index (ti_indices ti)\<rparr>"

definition mark_dirty :: "bytes \<Rightarrow> TextIndex \<Rightarrow> TextIndex" where
  "mark_dirty text_ns ti = ti\<lparr>ti_dirty := List.insert text_ns (ti_dirty ti)\<rparr>"

section \<open>Changing documents\<close>

definition index_document ::
  "'f text_env \<Rightarrow> 's kv_ops \<Rightarrow> bytes \<Rightarrow> bytes \<Rightarrow> ustring \<Rightarrow> Facets \<Rightarrow> TextIndex \<times> 's \<Rightarrow> (TextIndex \<times> 's) \<times> Lsn res" where
  "index_document V K ns key text facets = (\<lambda>(ti, engine).
     if ns = [] then ((ti, engine), Inl (Panic ''ns must not be empty''))
     else if key = [] then ((ti, engine), Inl (Panic ''key must not be empty''))
     else
       let tokens = doc_tokens V (ti_language ti) text;
           doc_len_tokens = word_of_nat (length tokens);
           text_ns = text_namespace ns
       in case ensure_loaded V K engine text_ns ti of
            Inl e \<Rightarrow> ((ti, engine), Inl e)
          | Inr ti1 \<Rightarrow>
              let index = loaded_index text_ns ti1
              in case (if might_contain (ix_doc_bloom index) key then remove_document key index else (index, Inr False)) of
                   (index1, Inl e) \<Rightarrow> ((set_index text_ns index1 ti1, engine), Inl e)
                 | (index1, Inr _) \<Rightarrow>
                     let index2 = add_document (env_sizing V) key tokens doc_len_tokens facets index1;
                         ti2 = mark_dirty text_ns (set_index text_ns index2 ti1);
                         record_bytes = encode_text_record \<lparr> tr_text = text, tr_facets = facets \<rparr>
                     in case kv_put K text_ns key record_bytes engine of
                          (engine', r) \<Rightarrow> ((ti2, engine'), r))"

definition delete_document ::
  "'f text_env \<Rightarrow> 's kv_ops \<Rightarrow> bytes \<Rightarrow> bytes \<Rightarrow> TextIndex \<times> 's \<Rightarrow> (TextIndex \<times> 's) \<times> Lsn res" where
  "delete_document V K ns key = (\<lambda>(ti, engine).
     if ns = [] then ((ti, engine), Inl (Panic ''ns must not be empty''))
     else if key = [] then ((ti, engine), Inl (Panic ''key must not be empty''))
     else
       let text_ns = text_namespace ns
       in case ensure_loaded V K engine text_ns ti of
            Inl e \<Rightarrow> ((ti, engine), Inl e)
          | Inr ti1 \<Rightarrow>
              (case remove_document key (loaded_index text_ns ti1) of
                 (index1, Inl e) \<Rightarrow> ((set_index text_ns index1 ti1, engine), Inl e)
               | (index1, Inr _) \<Rightarrow>
                   if ix_total_docs index1 = 0
                   then
                     let ti2 = ti1\<lparr>ti_indices := filter (\<lambda>(n, _). n \<noteq> text_ns) (ti_indices ti1),
                                   ti_dirty := filter (\<lambda>n. n \<noteq> text_ns) (ti_dirty ti1)\<rparr>
                     in case kv_delete K text_ns TEXT_INDEX_KEY engine of
                          (engine1, Inl e) \<Rightarrow> ((ti2, engine1), Inl e)
                        | (engine1, Inr _) \<Rightarrow>
                            (case kv_delete K text_ns key engine1 of (engine2, r) \<Rightarrow> ((ti2, engine2), r))
                   else
                     (case kv_delete K text_ns key engine of
                        (engine2, r) \<Rightarrow> ((mark_dirty text_ns (set_index text_ns index1 ti1), engine2), r))))"

text \<open>The puts of \<open>persist\<close>, up to the first error.\<close>

fun persist_puts :: "'s kv_ops \<Rightarrow> (bytes \<times> bytes) list \<Rightarrow> 's \<Rightarrow> 's \<times> (bytes \<times> Lsn) list res" where
  "persist_puts K [] engine = (engine, Inr [])"
| "persist_puts K ((ns, bytes) # rest) engine =
     (case kv_put K ns TEXT_INDEX_KEY bytes engine of
        (engine1, Inl e) \<Rightarrow> (engine1, Inl e)
      | (engine1, Inr lsn) \<Rightarrow>
          (case persist_puts K rest engine1 of
             (engine2, Inl e) \<Rightarrow> (engine2, Inl e)
           | (engine2, Inr lsns) \<Rightarrow> (engine2, Inr ((ns, lsn) # lsns))))"

definition note_persisted :: "bytes \<times> Lsn \<Rightarrow> TextIndex \<Rightarrow> TextIndex" where
  "note_persisted = (\<lambda>(ns, lsn) ti.
     (case map_of (ti_indices ti) ns of
        None \<Rightarrow> ti
      | Some index \<Rightarrow> set_index ns (index\<lparr>ix_sidecar_lsn := lsn\<rparr>) ti)
     \<lparr>ti_dirty := filter (\<lambda>n. n \<noteq> ns) (ti_dirty ti)\<rparr>)"

definition persist :: "'s kv_ops \<Rightarrow> TextIndex \<times> 's \<Rightarrow> (TextIndex \<times> 's) \<times> unit res" where
  "persist K = (\<lambda>(ti, engine).
     if ti_dirty ti = [] then ((ti, engine), Inr ())
     else
       let to_persist = map (\<lambda>(ns, index). (ns, serialize_index index))
             (filter (\<lambda>(ns, _). ns \<in> set (ti_dirty ti)) (ti_indices ti))
       in case persist_puts K to_persist engine of
            (engine', Inl e) \<Rightarrow> ((ti, engine'), Inl e)
          | (engine', Inr lsns) \<Rightarrow> ((fold note_persisted lsns ti, engine'), Inr ()))"

section \<open>Searching\<close>

definition expand_typo_terms :: "'f text_env \<Rightarrow> InvertedIndex \<Rightarrow> Token list \<Rightarrow> ustring list \<Rightarrow> ustring list" where
  "expand_typo_terms V index query_tokens search_terms =
     fold (\<lambda>token. fold (\<lambda>term terms.
         if term \<noteq> tk_term token \<and> is_one_edit_away term (tk_term token) \<and> term \<notin> set terms
         then terms @ [term] else terms)
       (env_term_order V (map fst (ix_postings index)))) query_tokens search_terms"

fun add_score :: "'f f32_ops \<Rightarrow> bytes \<Rightarrow> 'f \<Rightarrow> (bytes \<times> 'f) list \<Rightarrow> (bytes \<times> 'f) list" where
  "add_score F i score [] = [(i, f_add F (f_lit F 0 1) score)]"
| "add_score F i score ((j, x) # m) = (if j = i then (j, f_add F x score) # m else (j, x) # add_score F i score m)"

definition posting_score :: "'f text_env \<Rightarrow> InvertedIndex \<Rightarrow> Token list \<Rightarrow> ustring \<Rightarrow> nat \<Rightarrow> Posting \<Rightarrow> 'f" where
  "posting_score V index query_tokens term doc_freq p =
     (let F = env_float V;
          is_fuzzy = (\<not> list_ex (\<lambda>t. tk_term t = term) query_tokens);
          weight = (if is_fuzzy then f_lit F 5 10 else f_lit F 1 1)
      in f_mul F (bm25_score F (ix_total_docs index) (word_of_nat doc_freq) (po_term_freq p) (po_doc_len_tokens p)
           (avg_doc_len F index) (BM25_K1 F) (BM25_B F)) weight)"

definition score_term ::
  "'f text_env \<Rightarrow> InvertedIndex \<Rightarrow> Token list \<Rightarrow> SearchOptions \<Rightarrow> ustring \<Rightarrow>
   (bytes \<times> 'f) list \<times> u64 \<Rightarrow> (bytes \<times> 'f) list \<times> u64" where
  "score_term V index query_tokens options term = (\<lambda>(doc_scores, bytes_scanned).
     case map_of (ix_postings index) term of
       None \<Rightarrow> (doc_scores, bytes_scanned)
     | Some postings \<Rightarrow>
         let filtered = (if so_facet_filters options \<noteq> [] then filter_by_facets postings (so_facet_filters options) else postings)
         in (fold (\<lambda>p. add_score (env_float V) (po_doc_id p)
                 (posting_score V index query_tokens term (length postings) p)) filtered doc_scores,
             bytes_scanned + word_of_nat (length postings) * env_posting_size V))"

definition result_order :: "'f text_env \<Rightarrow> 'f TextSearchResult \<Rightarrow> 'f TextSearchResult \<Rightarrow> cmp" where
  "result_order V a b =
     cmp_then (total_cmp_f32 (env_float V) (ts_score b) (ts_score a)) (compare_with id (ts_doc_id a) (ts_doc_id b))"

definition score_index_impl ::
  "'f text_env \<Rightarrow> InvertedIndex \<Rightarrow> Token list \<Rightarrow> SearchOptions \<Rightarrow> ('f TextSearchResult list \<times> TextSearchStats) res" where
  "score_index_impl V index query_tokens options =
     (if query_tokens = [] then Inl (Panic ''query_tokens must not be empty'')
      else if so_limit options = 0 then Inl (Panic ''limit must be positive'')
      else
        let terms = map tk_term query_tokens;
            search_terms = (if so_typo_tolerance options then expand_typo_terms V index query_tokens terms else terms)
        in case fold (score_term V index query_tokens options) search_terms ([], 0) of
             (doc_scores, bytes_scanned) \<Rightarrow>
               Inr (take (so_limit options) (sort_by (result_order V)
                      (map (\<lambda>(i, x). \<lparr> ts_doc_id = i, ts_score = x \<rparr>) doc_scores)),
                    \<lparr> tss_total_docs_indexed = ix_total_docs index, tss_docs_examined = word_of_nat (length doc_scores),
                      tss_bytes_scanned = bytes_scanned \<rparr>))"

definition search_in_index ::
  "'f text_env \<Rightarrow> InvertedIndex \<Rightarrow> Token list \<Rightarrow> SearchOptions \<Rightarrow> 'f TextSearchResult list res" where
  "search_in_index V index query_tokens options =
     and_then (score_index_impl V index query_tokens options) (\<lambda>(results, _). Inr results)"

definition search_in_index_with_stats ::
  "'f text_env \<Rightarrow> InvertedIndex \<Rightarrow> Token list \<Rightarrow> usize \<Rightarrow> ('f TextSearchResult list \<times> TextSearchStats) res" where
  "search_in_index_with_stats V index query_tokens results_limit =
     score_index_impl V index query_tokens (SearchOptions_limit results_limit)"

definition search_with_options ::
  "'f text_env \<Rightarrow> 's kv_ops \<Rightarrow> 's \<Rightarrow> bytes \<Rightarrow> ustring \<Rightarrow> SearchOptions \<Rightarrow> TextIndex \<Rightarrow> TextIndex \<times> 'f TextSearchResult list res" where
  "search_with_options V K engine ns query options ti =
     (if ns = [] then (ti, Inl (Panic ''ns must not be empty''))
      else if so_limit options = 0 then (ti, Inr [])
      else
        let query_tokens = doc_tokens V (ti_language ti) query
        in if query_tokens = [] then (ti, Inr [])
           else case ensure_loaded V K engine (text_namespace ns) ti of
                  Inl e \<Rightarrow> (ti, Inl e)
                | Inr ti1 \<Rightarrow>
                    let index = loaded_index (text_namespace ns) ti1
                    in if ix_total_docs index = 0 then (ti1, Inr [])
                       else (ti1, search_in_index V index query_tokens options))"

definition search ::
  "'f text_env \<Rightarrow> 's kv_ops \<Rightarrow> 's \<Rightarrow> bytes \<Rightarrow> ustring \<Rightarrow> usize \<Rightarrow> TextIndex \<Rightarrow> TextIndex \<times> 'f TextSearchResult list res" where
  "search V K engine ns query results_limit ti =
     (if ns = [] then (ti, Inl (Panic ''ns must not be empty''))
      else search_with_options V K engine ns query (SearchOptions_limit results_limit) ti)"

definition search_with_stats ::
  "'f text_env \<Rightarrow> 's kv_ops \<Rightarrow> 's \<Rightarrow> bytes \<Rightarrow> ustring \<Rightarrow> usize \<Rightarrow> TextIndex \<Rightarrow>
   TextIndex \<times> ('f TextSearchResult list \<times> TextSearchStats) res" where
  "search_with_stats V K engine ns query results_limit ti =
     (if ns = [] then (ti, Inl (Panic ''ns must not be empty''))
      else if results_limit = 0 then (ti, Inr ([], TextSearchStats_default))
      else
        let query_tokens = doc_tokens V (ti_language ti) query
        in if query_tokens = [] then (ti, Inr ([], TextSearchStats_default))
           else case ensure_loaded V K engine (text_namespace ns) ti of
                  Inl e \<Rightarrow> (ti, Inl e)
                | Inr ti1 \<Rightarrow> (ti1, search_in_index_with_stats V (loaded_index (text_namespace ns) ti1) query_tokens
                                results_limit))"

section \<open>Snippets\<close>

definition snippet_at :: "'f text_env \<Rightarrow> ustring \<Rightarrow> usize \<Rightarrow> u32 \<Rightarrow> Snippet option" where
  "snippet_at V chars context_chars pos =
     (let char_start = unat pos
      in if char_start \<ge> length chars then None
         else
           let char_end = char_start + length (takeWhile (\<lambda>c. \<not> an_is_whitespace (env_analyzer V) c) (drop char_start chars));
               ctx_start = char_start - context_chars;
               ctx_end = min (char_end + context_chars) (length chars);
               prefix_text = take (char_start - ctx_start) (drop ctx_start chars);
               matched_text = take (char_end - char_start) (drop char_start chars)
           in Some \<lparr> sn_text = take (ctx_end - ctx_start) (drop ctx_start chars),
                     sn_byte_start = str_len prefix_text, sn_byte_end = str_len prefix_text + str_len matched_text \<rparr>)"

definition build_snippets ::
  "'f text_env \<Rightarrow> 's kv_ops \<Rightarrow> InvertedIndex \<Rightarrow> bytes \<Rightarrow> ustring list \<Rightarrow> 's \<Rightarrow> bytes \<Rightarrow> usize \<Rightarrow> Snippet list res" where
  "build_snippets V K index doc_id query_terms engine text_ns context_chars =
     (if doc_id = [] then Inl (Panic ''doc_id must not be empty'')
      else if text_ns = [] then Inl (Panic ''text_ns must not be empty'')
      else
        let char_positions = concat (map (\<lambda>(term, postings).
              if term \<notin> set query_terms then []
              else case List.find (\<lambda>p. po_doc_id p = doc_id) postings of None \<Rightarrow> [] | Some p \<Rightarrow> po_positions p)
              (ix_postings index))
        in if char_positions = [] then Inr []
           else and_then (kv_get K engine text_ns doc_id) (\<lambda>raw.
                  case raw of
                    None \<Rightarrow> Inr []
                  | Some r \<Rightarrow>
                      (case decode_text_record r of
                         None \<Rightarrow> Inr []
                       | Some record \<Rightarrow>
                           Inr (List.map_filter (snippet_at V (tr_text record) context_chars) (remdups_adj (sort char_positions))))))"

fun collect_snippets ::
  "('f TextSearchResult \<Rightarrow> Snippet list res) \<Rightarrow> 'f TextSearchResult list \<Rightarrow> 'f SnippetResult list res" where
  "collect_snippets f [] = Inr []"
| "collect_snippets f (r # rs) =
     and_then (f r) (\<lambda>snippets.
     and_then (collect_snippets f rs) (\<lambda>rest.
       Inr (\<lparr> snr_doc_id = ts_doc_id r, snr_score = ts_score r, snr_snippets = snippets \<rparr> # rest)))"

definition search_with_snippets ::
  "'f text_env \<Rightarrow> 's kv_ops \<Rightarrow> 's \<Rightarrow> bytes \<Rightarrow> ustring \<Rightarrow> usize \<Rightarrow> usize \<Rightarrow> TextIndex \<Rightarrow>
   TextIndex \<times> 'f SnippetResult list res" where
  "search_with_snippets V K engine ns query results_limit context_chars ti =
     (if ns = [] then (ti, Inl (Panic ''ns must not be empty''))
      else
        let query_tokens = doc_tokens V (ti_language ti) query
        in if query_tokens = [] \<or> results_limit = 0 then (ti, Inr [])
           else
             let query_terms = remdups (map tk_term query_tokens); text_ns = text_namespace ns
             in case search V K engine ns query results_limit ti of
                  (ti1, Inl e) \<Rightarrow> (ti1, Inl e)
                | (ti1, Inr base_results) \<Rightarrow>
                    (ti1, collect_snippets (\<lambda>r.
                       case map_of (ti_indices ti1) text_ns of
                         Some index \<Rightarrow> build_snippets V K index (ts_doc_id r) query_terms engine text_ns context_chars
                       | None \<Rightarrow> Inr []) base_results))"

end
