(* ===== verification/SearchFacts.thy ===== *)
theory SearchFacts
  imports TextIndex
begin

text \<open>
  A search depends only on the documents an index stands for, not on the order in which they
  were added: two indices for the same documents give the same results.
\<close>

section \<open>The order of results\<close>

lemma result_order_Greater:
  "result_order V a b = Greater \<longleftrightarrow> total_cmp_f32 (env_float V) (ts_score b) (ts_score a) = Greater \<or>
     total_cmp_f32 (env_float V) (ts_score b) (ts_score a) = Equal \<and> ts_doc_id b < ts_doc_id a"
  by (auto simp: result_order_def cmp_then_def compare_with_def)

lemma result_order_linear:
  assumes "f32_ok (env_float V)" "inj_on ts_doc_id A"
  shows "linear_on A (result_order V)"
proof -
  let ?s = "total_cmp_f32 (env_float V)"
  note l = total_cmp_laws [OF assms(1)]
  have "result_order V b a \<noteq> Greater" if "result_order V a b = Greater" for a b
    using that l(1) [of "ts_score a" "ts_score b"] l(1) [of "ts_score b" "ts_score a"] l(2) [of "ts_score a" "ts_score b"]
    by (auto simp: result_order_Greater)
  moreover have "result_order V a c \<noteq> Greater" if ab: "result_order V a b \<noteq> Greater" and bc: "result_order V b c \<noteq> Greater" for a b c
  proof
    assume ac: "result_order V a c = Greater"
    have le: "?s (ts_score b) (ts_score a) \<noteq> Greater" "?s (ts_score c) (ts_score b) \<noteq> Greater"
      using ab bc by (simp_all add: result_order_Greater)
    then have "?s (ts_score c) (ts_score a) \<noteq> Greater" using l(3) by blast
    with ac have eq: "?s (ts_score c) (ts_score a) = Equal" "ts_doc_id c < ts_doc_id a" by (auto simp: result_order_Greater)
    then have "?s (ts_score c) (ts_score b) = ?s (ts_score a) (ts_score b)" using l(4) by metis
    with le l(1) have "?s (ts_score a) (ts_score b) = Equal" by (metis cmp.exhaust)
    with \<open>?s (ts_score c) (ts_score b) = _\<close> l(2) ab bc have "ts_doc_id a \<le> ts_doc_id b" "ts_doc_id b \<le> ts_doc_id c"
      by (auto simp: result_order_Greater not_less)
    with eq(2) show False by simp
  qed
  moreover have "a = b" if "a \<in> A" "b \<in> A" "result_order V a b \<noteq> Greater" "result_order V b a \<noteq> Greater" for a b
  proof -
    have "?s (ts_score b) (ts_score a) \<noteq> Greater" "?s (ts_score a) (ts_score b) \<noteq> Greater"
      using that by (simp_all add: result_order_Greater)
    then have "?s (ts_score b) (ts_score a) = Equal" using l(1) by (metis cmp.exhaust)
    then have "ts_doc_id a = ts_doc_id b" using that(3,4) l(2) by (auto simp: result_order_Greater)
    with assms(2) that(1,2) show ?thesis by (simp add: inj_on_eq_iff)
  qed
  ultimately show ?thesis unfolding linear_on_def by blast
qed

section \<open>Scores per document\<close>

lemma add_score_map:
  "map_of (add_score F i x m) = (map_of m)(i \<mapsto> f_add F (case map_of m i of None \<Rightarrow> f_lit F 0 1 | Some y \<Rightarrow> y) x)"
  by (induction F i x m rule: add_score.induct) auto

lemma add_score_keys: "set (map fst (add_score F i x m)) = insert i (set (map fst m))"
  by (induction F i x m rule: add_score.induct) auto

lemma add_score_distinct: "distinct (map fst m) \<Longrightarrow> distinct (map fst (add_score F i x m))"
proof (induction F i x m rule: add_score.induct)
  case (2 F i score j x m)
  then show ?case using add_score_keys [of F i score m] by auto
qed simp

lemma fold_score_map:
  assumes "distinct (map po_doc_id ps)"
  shows "map_of (fold (\<lambda>p. add_score F (po_doc_id p) (g p)) ps m) i =
     (case map_of (map (\<lambda>p. (po_doc_id p, p)) ps) i of
        None \<Rightarrow> map_of m i
      | Some p \<Rightarrow> Some (f_add F (case map_of m i of None \<Rightarrow> f_lit F 0 1 | Some y \<Rightarrow> y) (g p)))"
  using assms
proof (induction ps arbitrary: m)
  case (Cons p ps)
  have none: "map_of (map (\<lambda>p. (po_doc_id p, p)) ps) (po_doc_id p) = None"
    using Cons.prems by (auto simp: map_of_eq_None_iff)
  show ?case
  proof (cases "i = po_doc_id p")
    case False
    then have "map_of (add_score F (po_doc_id p) (g p) m) i = map_of m i" by (simp add: add_score_map)
    with Cons False show ?thesis by (simp split: option.split)
  qed (use Cons none in \<open>simp add: add_score_map\<close>)
qed simp

lemma fold_score_distinct:
  "distinct (map fst m) \<Longrightarrow> distinct (map fst (fold (\<lambda>p. add_score F (po_doc_id p) (g p)) ps m))"
  by (induction ps arbitrary: m) (auto intro: add_score_distinct)

lemma posting_map_eq:
  assumes "distinct (map po_doc_id ps)" "distinct (map po_doc_id qs)" "set ps = set qs"
  shows "map_of (map (\<lambda>p. (po_doc_id p, p)) ps) = map_of (map (\<lambda>p. (po_doc_id p, p)) qs)"
proof -
  have e: "map fst (map (\<lambda>p. (po_doc_id p, p)) xs) = map po_doc_id xs" for xs by (induction xs) auto
  have "distinct (map fst (map (\<lambda>p. (po_doc_id p, p)) ps))" "distinct (map fst (map (\<lambda>p. (po_doc_id p, p)) qs))"
    unfolding e by (rule assms)+
  from map_of_inject_set [OF this] assms(3) show ?thesis by simp
qed

section \<open>Two indices for the same documents\<close>

lemma holds_same:
  assumes "index_holds ix docs" "index_holds ix' docs"
  shows "ix_total_docs ix = ix_total_docs ix'" "ix_total_doc_len ix = ix_total_doc_len ix'"
    "set (lookup_list (ix_postings ix) t) = set (lookup_list (ix_postings ix') t)"
    "length (lookup_list (ix_postings ix) t) = length (lookup_list (ix_postings ix') t)"
    "map_of (ix_postings ix) t = None \<longleftrightarrow> map_of (ix_postings ix') t = None"
proof -
  note h = assms [unfolded index_holds_def]
  show "ix_total_docs ix = ix_total_docs ix'" "ix_total_doc_len ix = ix_total_doc_len ix'"
    using h by (simp_all add: word_unat_eq_iff)
  show s: "set (lookup_list (ix_postings ix) t) = set (lookup_list (ix_postings ix') t)" using h by simp
  have "distinct (lookup_list (ix_postings ix) t)" "distinct (lookup_list (ix_postings ix') t)"
    using h by (simp_all add: distinct_map)
  then show "length (lookup_list (ix_postings ix) t) = length (lookup_list (ix_postings ix') t)"
    using s by (metis distinct_card)
  then have "lookup_list (ix_postings ix) t = [] \<longleftrightarrow> lookup_list (ix_postings ix') t = []" by (metis length_0_conv)
  moreover have "no_empty (ix_postings ix)" "no_empty (ix_postings ix')" using h by blast+
  ultimately show "map_of (ix_postings ix) t = None \<longleftrightarrow> map_of (ix_postings ix') t = None"
    by (simp add: map_of_lookup)
qed

definition same_scores :: "(bytes \<times> 'f) list \<times> u64 \<Rightarrow> (bytes \<times> 'f) list \<times> u64 \<Rightarrow> bool" where
  "same_scores a b \<longleftrightarrow> map_of (fst a) = map_of (fst b) \<and> distinct (map fst (fst a)) \<and> distinct (map fst (fst b)) \<and> snd a = snd b"

lemma score_term_same:
  assumes "index_holds ix docs" "index_holds ix' docs" "same_scores a b"
  shows "same_scores (score_term V ix q opts t a) (score_term V ix' q opts t b)"
proof (cases "map_of (ix_postings ix) t")
  case None
  moreover from this have "map_of (ix_postings ix') t = None" using holds_same(5) [OF assms(1,2)] by blast
  ultimately show ?thesis using assms(3) by (cases a; cases b) (simp add: score_term_def)
next
  case (Some ps)
  then obtain qs where qs: "map_of (ix_postings ix') t = Some qs" using holds_same(5) [OF assms(1,2), of t] by auto
  have ps: "ps = lookup_list (ix_postings ix) t" "qs = lookup_list (ix_postings ix') t"
    using Some qs by (simp_all add: lookup_list_def)
  let ?f = "\<lambda>xs. if so_facet_filters opts \<noteq> [] then filter_by_facets xs (so_facet_filters opts) else xs"
  have d: "distinct (map po_doc_id ps)" "distinct (map po_doc_id qs)" "set ps = set qs" "length ps = length qs"
    using assms(1,2) holds_same(3,4) [OF assms(1,2), of t] unfolding ps index_holds_def by blast+
  have f: "distinct (map po_doc_id (?f ps))" "distinct (map po_doc_id (?f qs))" "set (?f ps) = set (?f qs)"
    using d by (simp_all add: filter_by_facets_def distinct_map_filter)
  have sc: "posting_score V ix q t n = posting_score V ix' q t n" for n
    using holds_same(1,2) [OF assms(1,2)] by (simp add: fun_eq_iff posting_score_def avg_doc_len_def Let_def)
  obtain m n m' n' where ab: "a = (m, n)" "b = (m', n')" by fastforce
  have m: "map_of m = map_of m'" "distinct (map fst m)" "distinct (map fst m')" "n = n'"
    using assms(3) by (simp_all add: same_scores_def ab)
  have "map_of (fold (\<lambda>p. add_score F (po_doc_id p) (g p)) (?f ps) m) = map_of (fold (\<lambda>p. add_score F (po_doc_id p) (g p)) (?f qs) m')" for F g
    by (rule ext) (simp only: fold_score_map [OF f(1)] fold_score_map [OF f(2)] posting_map_eq [OF f] m(1))
  note maps = this
  show ?thesis unfolding score_term_def ab Some qs Let_def prod.case option.case same_scores_def fst_conv snd_conv sc d(4) m(4)
    by (intro conjI maps fold_score_distinct m refl)
qed

lemma score_terms_same:
  assumes "index_holds ix docs" "index_holds ix' docs" "same_scores a b"
  shows "same_scores (fold (score_term V ix q opts) ts a) (fold (score_term V ix' q opts) ts b)"
  using assms(3)
proof (induction ts arbitrary: a b)
  case (Cons t ts)
  then show ?case using score_term_same [OF assms(1,2) Cons.prems] by simp
qed simp

lemma distinct_map_of_mset:
  assumes "distinct (map fst m)" "distinct (map fst m')" "map_of m = map_of m'"
  shows "mset m = mset m'"
proof -
  have "distinct m" "distinct m'" using assms(1,2) by (simp_all add: distinct_map)
  then show ?thesis using map_of_inject_set [OF assms(1,2)] assms(3) by (simp add: set_eq_iff_mset_eq_distinct)
qed

lemma search_same:
  assumes "index_holds ix docs" "index_holds ix' docs" "f32_ok (env_float V)" "\<not> so_typo_tolerance opts"
  shows "score_index_impl V ix q opts = score_index_impl V ix' q opts"
proof -
  let ?t = "map tk_term q"
  obtain m n where a: "fold (score_term V ix q opts) ?t ([], 0) = (m, n)" by fastforce
  obtain m' n' where b: "fold (score_term V ix' q opts) ?t ([], 0) = (m', n')" by fastforce
  have "same_scores (m, n) (m', n')"
    using score_terms_same [OF assms(1,2), of "([], 0)" "([], 0)" V q opts ?t] unfolding a b by (simp add: same_scores_def)
  then have s: "map_of m = map_of m'" "distinct (map fst m)" "distinct (map fst m')" "n = n'" by (simp_all add: same_scores_def)
  then have ms: "mset m = mset m'" by (intro distinct_map_of_mset)
  let ?r = "map (\<lambda>(i, x). \<lparr> ts_doc_id = i, ts_score = x \<rparr>)"
  have "map ts_doc_id (?r m) = map fst m" by (auto simp: case_prod_unfold)
  then have "inj_on ts_doc_id (set (?r m))" using s(2) by (metis distinct_map)
  then have "sort_by (result_order V) (?r m) = sort_by (result_order V) (?r m')"
    using ms by (intro sort_by_unique result_order_linear [OF assms(3)]) (simp_all add: mset_map)
  moreover have "length m = length m'" using ms by (metis size_mset)
  ultimately show ?thesis using holds_same(1) [OF assms(1,2)] assms(4) s(4) a b by (simp add: score_index_impl_def Let_def)
qed

end
