(* ===== verification/TextFacts.thy ===== *)
theory TextFacts
  imports SearchFacts EngineScan
begin

text \<open>
  The text crate on a key-value store: the cached index always stands for the records in the
  store, so that a search gives the same results before and after a restart. The store is the
  locale \<open>kv_store\<close>, which the engine meets.
\<close>

section \<open>The documents in a namespace\<close>

definition record_doc :: "'f text_env \<Rightarrow> Language \<Rightarrow> TextRecord \<Rightarrow> Token list \<times> Facets" where
  "record_doc V lang r = (doc_tokens V lang (tr_text r), tr_facets r)"

definition docs_of :: "'f text_env \<Rightarrow> Language \<Rightarrow> (bytes \<rightharpoonup> bytes) \<Rightarrow> docs" where
  "docs_of V lang m key =
     (if key = TEXT_INDEX_KEY then None
      else case m key of None \<Rightarrow> None | Some v \<Rightarrow> map_option (record_doc V lang) (decode_text_record v))"

text \<open>Every document has a token, and the totals fit their 64-bit counters.\<close>

definition corpus_ok :: "docs \<Rightarrow> bool" where
  "corpus_ok docs \<longleftrightarrow> finite (dom docs) \<and> (\<forall>doc \<in> ran docs. fst doc \<noteq> []) \<and> card (dom docs) < 2 ^ 64 \<and>
     (\<Sum>i \<in> dom docs. doc_len (the (docs i))) < 2 ^ 64"

lemma corpus_ok_mono:
  assumes "corpus_ok docs'" "docs \<subseteq>\<^sub>m docs'"
  shows "corpus_ok docs"
proof -
  have dom: "dom docs \<subseteq> dom docs'" "finite (dom docs')" 
    using map_le_implies_dom_le [OF assms(2)] assms(1) by (simp_all add: corpus_ok_def)
  then have "card (dom docs) \<le> card (dom docs')" by (simp add: card_mono)
  moreover have "(\<Sum>i \<in> dom docs. doc_len (the (docs i))) = (\<Sum>i \<in> dom docs. doc_len (the (docs' i)))"
    using assms(2) by (intro sum.cong) (auto simp: map_le_def)
  moreover have "(\<Sum>i \<in> dom docs. doc_len (the (docs' i))) \<le> (\<Sum>i \<in> dom docs'. doc_len (the (docs' i)))"
    using dom by (intro sum_mono2) auto
  moreover have "ran docs \<subseteq> ran docs'" using assms(2) by (force simp: ran_def map_le_def dom_def)
  ultimately show ?thesis using assms(1) dom finite_subset unfolding corpus_ok_def by fastforce
qed

lemma add_document_corpus:
  assumes "index_holds ix docs" "i \<notin> dom docs" "corpus_ok (docs(i \<mapsto> doc))"
  shows "index_holds (add_document S i (fst doc) (word_of_nat (length (fst doc))) (snd doc) ix) (docs(i \<mapsto> doc))"
proof (rule add_document_holds [OF assms(1,2)])
  have "finite (dom docs)" using assms(1) by (simp add: index_holds_def)
  moreover have "(\<Sum>j \<in> dom docs. doc_len (the ((docs(i \<mapsto> doc)) j))) = (\<Sum>j \<in> dom docs. doc_len (the (docs j)))"
    using assms(2) by (intro sum.cong) auto
  ultimately show "card (dom docs) + 1 < 2 ^ 64" "(\<Sum>j \<in> dom docs. doc_len (the (docs j))) + doc_len doc < 2 ^ 64"
    using assms(2,3) by (simp_all add: corpus_ok_def)
  have "doc \<in> ran (docs(i \<mapsto> doc))" by (simp add: ranI [of _ i])
  then show "fst doc \<noteq> []" using assms(3) unfolding corpus_ok_def by blast
qed

lemma docs_of_Cons:
  "k \<notin> fst ` set L \<Longrightarrow> docs_of V lang (map_of ((k, v) # L)) =
     (docs_of V lang (map_of L))(k := docs_of V lang [k \<mapsto> v] k)"
  by (auto simp: docs_of_def fun_eq_iff)

lemma rebuild_step_holds:
  assumes "index_holds ix docs" "k \<notin> dom docs" "corpus_ok (docs(k := docs_of V lang [k \<mapsto> v] k))"
  shows "index_holds (rebuild_step V lang (k, v) ix) (docs(k := docs_of V lang [k \<mapsto> v] k))"
proof (cases "docs_of V lang [k \<mapsto> v] k")
  case None
  moreover from None have "rebuild_step V lang (k, v) ix = ix"
    by (auto simp: rebuild_step_def docs_of_def split: if_splits option.splits)
  moreover have "docs(k := None) = docs" using assms(2) by auto
  ultimately show ?thesis using assms(1) by simp
next
  case (Some doc)
  then have "k \<noteq> TEXT_INDEX_KEY" "\<exists>r. decode_text_record v = Some r \<and> doc = record_doc V lang r"
    by (auto simp: docs_of_def split: if_splits)
  then have "rebuild_step V lang (k, v) ix =
      add_document (env_sizing V) k (fst doc) (word_of_nat (length (fst doc))) (snd doc) ix"
    by (auto simp: rebuild_step_def record_doc_def Let_def)
  with add_document_corpus [OF assms(1,2), of doc "env_sizing V"] assms(3) Some show ?thesis by simp
qed

lemma rebuild_holds:
  assumes "index_holds ix docs" "distinct (map fst L)" "dom docs \<inter> fst ` set L = {}"
    and "corpus_ok (docs ++ docs_of V lang (map_of L))"
  shows "index_holds (fold (rebuild_step V lang) L ix) (docs ++ docs_of V lang (map_of L))"
  using assms
proof (induction L arbitrary: ix docs)
  case Nil
  have "docs_of V lang (map_of []) = Map.empty" by (auto simp: docs_of_def)
  with Nil show ?case by simp
next
  case (Cons kv L)
  obtain k v where kv: "kv = (k, v)" by fastforce
  let ?docs = "docs(k := docs_of V lang [k \<mapsto> v] k)"
  have k: "k \<notin> dom docs" "k \<notin> fst ` set L" using Cons.prems kv by auto
  have none: "docs_of V lang (map_of L) k = None"
    using k(2) by (simp add: docs_of_def map_of_eq_None_iff [THEN iffD2])
  have eq: "?docs ++ docs_of V lang (map_of L) = docs ++ docs_of V lang (map_of (kv # L))"
    unfolding kv docs_of_Cons [OF k(2)] using none k(1) [unfolded domIff not_not] by (auto simp: map_add_def fun_eq_iff split: option.split)
  have "?docs \<subseteq>\<^sub>m ?docs ++ docs_of V lang (map_of L)"
  proof -
    have "dom (docs_of V lang m) \<subseteq> dom m" for m by (auto simp: docs_of_def split: if_splits option.splits)
    then have "dom (docs_of V lang (map_of L)) \<subseteq> fst ` set L" by (metis dom_map_of_conv_image_fst)
    then show ?thesis using Cons.prems(3) none kv by (auto simp: map_le_def map_add_def split: option.split)
  qed
  then have "corpus_ok ?docs" using Cons.prems(4) corpus_ok_mono unfolding eq by blast
  then have h: "index_holds (rebuild_step V lang kv ix) ?docs" unfolding kv by (rule rebuild_step_holds [OF Cons.prems(1) k(1)])
  have disj: "dom ?docs \<inter> fst ` set L = {}" using Cons.prems(3) k(2) kv by (auto split: if_splits)
  have "distinct (map fst L)" using Cons.prems(2) by simp
  from Cons.IH [OF h this disj, unfolded eq, OF Cons.prems(4)] show ?case by (simp only: fold_simps)
qed

section \<open>A key-value store\<close>

text \<open>
  The contract of the store: it stands for a map from namespaces and keys to values, which reads
  return and writes update. \<open>room n\<close> says that \<open>n\<close> more writes fit its counters.
\<close>

locale kv_store =
  fixes K :: "'c \<Rightarrow> 's kv_ops"
    and ok :: "'s \<Rightarrow> bool"
    and contents :: "'s \<Rightarrow> bytes \<times> bytes \<rightharpoonup> bytes"
    and can_put :: "'c \<Rightarrow> bytes \<Rightarrow> bytes \<Rightarrow> bytes \<Rightarrow> 's \<Rightarrow> bool"
    and room :: "nat \<Rightarrow> 's \<Rightarrow> bool"
  assumes get_law: "ok s \<Longrightarrow> ns_ok ns \<Longrightarrow> kv_get (K T) s ns k = Inr (contents s (ns, k))"
    and prefix_law: "ok s \<Longrightarrow> length ns < U16_MAX \<Longrightarrow> \<exists>L. kv_prefix (K T) s ns [] = Inr L \<and> ksorted L \<and>
      (\<forall>k v. (k, v) \<in> set L \<longleftrightarrow> contents s (ns, k) = Some v)"
    and put_law: "ok s \<Longrightarrow> can_put T ns k v s \<Longrightarrow> room (Suc n) s \<Longrightarrow> kv_put (K T) ns k v s = (s', Inr l) \<Longrightarrow>
      ok s' \<and> contents s' = (contents s)((ns, k) \<mapsto> v) \<and> room n s'"
    and delete_law: "ok s \<Longrightarrow> ns_ok ns \<Longrightarrow> room (Suc n) s \<Longrightarrow> kv_delete (K T) ns k s = (s', Inr l) \<Longrightarrow>
      ok s' \<and> contents s' = (contents s)((ns, k) := None) \<and> room n s'"
    and room_law: "room (Suc n) s \<Longrightarrow> room n s"

definition ns_docs :: "'f text_env \<Rightarrow> Language \<Rightarrow> (bytes \<times> bytes \<rightharpoonup> bytes) \<Rightarrow> bytes \<Rightarrow> docs" where
  "ns_docs V lang m ns = docs_of V lang (\<lambda>k. m (ns, k))"

definition text_inv :: "'f text_env \<Rightarrow> (bytes \<times> bytes \<rightharpoonup> bytes) \<Rightarrow> TextIndex \<Rightarrow> bool" where
  "text_inv V m ti \<longleftrightarrow> distinct (map fst (ti_indices ti)) \<and>
     (\<forall>ns ix. map_of (ti_indices ti) ns = Some ix \<longrightarrow> index_holds ix (ns_docs V (ti_language ti) m ns))"

lemma ns_docs_put:
  "ns_docs V lang (m((ns, k) \<mapsto> v)) ns' =
     (if ns' = ns \<and> k \<noteq> TEXT_INDEX_KEY
      then (ns_docs V lang m ns)(k := map_option (record_doc V lang) (decode_text_record v)) else ns_docs V lang m ns')"
  by (auto simp: ns_docs_def docs_of_def fun_eq_iff)

lemma ns_docs_delete:
  "ns_docs V lang (m((ns, k) := None)) ns' = (if ns' = ns then (ns_docs V lang m ns)(k := None) else ns_docs V lang m ns')"
  by (auto simp: ns_docs_def docs_of_def fun_eq_iff)

lemma ns_docs_index_key: "(ns_docs V lang m ns)(TEXT_INDEX_KEY := None) = ns_docs V lang m ns"
  by (auto simp: ns_docs_def docs_of_def fun_eq_iff)

lemma text_inv_set:
  assumes "text_inv V m ti" "index_holds ix (ns_docs V (ti_language ti) m' ns)"
    and "\<And>ns'. ns' \<noteq> ns \<Longrightarrow> ns_docs V (ti_language ti) m' ns' = ns_docs V (ti_language ti) m ns'"
  shows "text_inv V m' (set_index ns ix ti)"
  using assms by (auto simp: text_inv_def set_index_def update_conv distinct_update)

lemma text_inv_dirty [simp]: "text_inv V m (mark_dirty ns ti) = text_inv V m ti" "ti_language (mark_dirty ns ti) = ti_language ti"
  "text_inv V m (ti\<lparr>ti_dirty := D\<rparr>) = text_inv V m ti"
  by (simp_all add: text_inv_def mark_dirty_def)

lemma set_index_language [simp]: "ti_language (set_index ns ix ti) = ti_language ti"
  by (simp add: set_index_def)

lemma text_inv_persisted:
  "text_inv V m ti \<Longrightarrow> text_inv V m (fold note_persisted lsns ti) \<and> ti_language (fold note_persisted lsns ti) = ti_language ti"
proof (induction lsns arbitrary: ti)
  case (Cons nl lsns)
  obtain ns l where nl: "nl = (ns, l)" by fastforce
  have "text_inv V m (note_persisted nl ti) \<and> ti_language (note_persisted nl ti) = ti_language ti"
  proof (cases "map_of (ti_indices ti) ns")
    case (Some ix)
    then have "index_holds (ix\<lparr>ix_sidecar_lsn := l\<rparr>) (ns_docs V (ti_language ti) m ns)"
      using Cons.prems by (simp add: text_inv_def index_holds_def)
    from text_inv_set [OF Cons.prems this] Some show ?thesis by (simp add: nl note_persisted_def)
  qed (use Cons.prems in \<open>simp add: nl note_persisted_def\<close>)
  with Cons.IH show ?case by simp
qed simp

section \<open>Sequences of operations\<close>

datatype text_op =
    TxtIndex bytes bytes ustring Facets
  | TxtDelete bytes bytes
  | TxtPersist
  | TxtSearch bytes ustring SearchOptions

fun text_exec :: "'f text_env \<Rightarrow> 's kv_ops \<Rightarrow> text_op \<Rightarrow> TextIndex \<times> 's \<Rightarrow> (TextIndex \<times> 's) \<times> unit res" where
  "text_exec V K (TxtIndex ns key text facets) st = completed (index_document V K ns key text facets st)"
| "text_exec V K (TxtDelete ns key) st = completed (delete_document V K ns key st)"
| "text_exec V K TxtPersist st = persist K st"
| "text_exec V K (TxtSearch ns query opts) (ti, s) =
     (case search_with_options V K s ns query opts ti of
        (ti', Inl e) \<Rightarrow> ((ti', s), Inl e)
      | (ti', Inr _) \<Rightarrow> ((ti', s), Inr ()))"

definition to_persist :: "TextIndex \<Rightarrow> (bytes \<times> bytes) list" where
  "to_persist ti = map (\<lambda>(ns, index). (ns, serialize_index index)) (filter (\<lambda>(ns, _). ns \<in> set (ti_dirty ti)) (ti_indices ti))"

fun puts_fit :: "(bytes \<Rightarrow> bytes \<Rightarrow> bytes \<Rightarrow> 's \<Rightarrow> bool) \<Rightarrow> 's kv_ops \<Rightarrow> (bytes \<times> bytes) list \<Rightarrow> 's \<Rightarrow> bool" where
  "puts_fit can_put K [] s = True"
| "puts_fit can_put K ((ns, b) # rest) s =
     (can_put ns TEXT_INDEX_KEY b s \<and>
      (case kv_put K ns TEXT_INDEX_KEY b s of (s', Inr _) \<Rightarrow> puts_fit can_put K rest s' | _ \<Rightarrow> True))"

text \<open>
  What has to hold for an operation to be within the limits: a document is not stored under the
  key of the sidecar, it has a token, its record can be written, and the totals of its
  namespace fit their counters.
\<close>

fun text_fits ::
  "'f text_env \<Rightarrow> 's kv_ops \<Rightarrow> ('s \<Rightarrow> bytes \<times> bytes \<rightharpoonup> bytes) \<Rightarrow> (bytes \<Rightarrow> bytes \<Rightarrow> bytes \<Rightarrow> 's \<Rightarrow> bool) \<Rightarrow> (nat \<Rightarrow> 's \<Rightarrow> bool) \<Rightarrow>
   text_op \<Rightarrow> TextIndex \<times> 's \<Rightarrow> bool" where
  "text_fits V K contents can_put room (TxtIndex ns key text facets) (ti, s) =
     (let R = \<lparr> tr_text = text, tr_facets = facets \<rparr>; docs = ns_docs V (ti_language ti) (contents s) (text_namespace ns)
      in key \<noteq> TEXT_INDEX_KEY \<and> length (text_namespace ns) < U16_MAX \<and> text_record_ok R \<and> corpus_ok docs \<and>
         corpus_ok (docs(key \<mapsto> record_doc V (ti_language ti) R)) \<and>
         can_put (text_namespace ns) key (encode_text_record R) s \<and> room 1 s)"
| "text_fits V K contents can_put room (TxtDelete ns key) (ti, s) =
     (length (text_namespace ns) < U16_MAX \<and>
      corpus_ok (ns_docs V (ti_language ti) (contents s) (text_namespace ns)) \<and> room 2 s)"
| "text_fits V K contents can_put room TxtPersist (ti, s) =
     (puts_fit can_put K (to_persist ti) s \<and> room (length (to_persist ti)) s)"
| "text_fits V K contents can_put room (TxtSearch ns query opts) (ti, s) =
     (length (text_namespace ns) < U16_MAX \<and> \<not> so_typo_tolerance opts \<and>
      corpus_ok (ns_docs V (ti_language ti) (contents s) (text_namespace ns)))"

inductive text_run ::
  "'f text_env \<Rightarrow> ('c \<Rightarrow> 's kv_ops) \<Rightarrow> ('s \<Rightarrow> bytes \<times> bytes \<rightharpoonup> bytes) \<Rightarrow> ('c \<Rightarrow> bytes \<Rightarrow> bytes \<Rightarrow> bytes \<Rightarrow> 's \<Rightarrow> bool) \<Rightarrow>
   (nat \<Rightarrow> 's \<Rightarrow> bool) \<Rightarrow> TextIndex \<times> 's \<Rightarrow> ('c \<times> text_op) list \<Rightarrow> TextIndex \<times> 's \<Rightarrow> bool"
  for V K contents can_put room where
  text_nil: "text_run V K contents can_put room st [] st"
| text_cons: "text_fits V (K T) contents (can_put T) room op st \<Longrightarrow> text_exec V (K T) op st = (st1, Inr ()) \<Longrightarrow>
    text_run V K contents can_put room st1 ops st2 \<Longrightarrow> text_run V K contents can_put room st ((T, op) # ops) st2"

context kv_store
begin

lemma rebuild_index:
  assumes "ok s" "ns \<noteq> []" "length ns < U16_MAX" "corpus_ok (ns_docs V lang (contents s) ns)"
  shows "\<exists>ix. rebuild_from_engine V (K T) s ns lang = Inr ix \<and> index_holds ix (ns_docs V lang (contents s) ns)"
proof -
  obtain L where L: "kv_prefix (K T) s ns [] = Inr L" "ksorted L" "\<forall>k v. (k, v) \<in> set L \<longleftrightarrow> contents s (ns, k) = Some v"
    using prefix_law [OF assms(1,3)] by blast
  have d: "distinct (map fst L)" by (rule ksorted_distinct [OF L(2)])
  have "map_of L k = contents s (ns, k)" for k
  proof (cases "contents s (ns, k)")
    case None
    then have "k \<notin> fst ` set L" using L(3) by auto
    with None show ?thesis by (simp add: map_of_eq_None_iff)
  qed (use L(3) d in simp)
  then have m: "map_of L = (\<lambda>k. contents s (ns, k))" by (rule ext)
  have "index_holds (fold (rebuild_step V lang) L (InvertedIndex_new (env_sizing V))) (Map.empty ++ docs_of V lang (map_of L))"
    by (rule rebuild_holds [OF index_holds_new d]) (use assms(4) in \<open>simp_all add: m ns_docs_def\<close>)
  then show ?thesis using L(1) assms(2) by (simp add: rebuild_from_engine_def m ns_docs_def)
qed

lemma ensure_loaded_inv:
  assumes "ok s" "text_inv V (contents s) ti" "ns \<noteq> []" "length ns < U16_MAX"
    and "corpus_ok (ns_docs V (ti_language ti) (contents s) ns)"
  obtains ti' ix where "ensure_loaded V (K T) s ns ti = Inr ti'" "text_inv V (contents s) ti'" "ti_language ti' = ti_language ti"
    "map_of (ti_indices ti') ns = Some ix" "index_holds ix (ns_docs V (ti_language ti) (contents s) ns)" "ti_dirty ti' = ti_dirty ti"
proof (cases "map_of (ti_indices ti) ns")
  case None
  obtain ix where ix: "rebuild_from_engine V (K T) s ns (ti_language ti) = Inr ix"
    "index_holds ix (ns_docs V (ti_language ti) (contents s) ns)"
    using rebuild_index [OF assms(1,3-5)] by blast
  have "text_inv V (contents s) (set_index ns ix ti)" by (rule text_inv_set [OF assms(2) ix(2)]) simp
  moreover have "ensure_loaded V (K T) s ns ti = Inr (set_index ns ix ti)"
    using None ix(1) assms(3) by (simp add: ensure_loaded_def set_index_def)
  moreover have "map_of (ti_indices (set_index ns ix ti)) ns = Some ix" by (simp add: set_index_def update_conv)
  ultimately show ?thesis using ix(2) by (intro that [of "set_index ns ix ti" ix]) (simp_all add: set_index_def)
next
  case (Some ix)
  then have "ensure_loaded V (K T) s ns ti = Inr ti" using assms(3) by (simp add: ensure_loaded_def)
  moreover have "index_holds ix (ns_docs V (ti_language ti) (contents s) ns)" using assms(2) Some by (simp add: text_inv_def)
  ultimately show ?thesis using assms(2) Some by (intro that) simp_all
qed

text \<open>The effect of each operation on the store and on the cached indices.\<close>

lemma index_document_step:
  assumes "ok s" "text_inv V (contents s) ti" "room (Suc n) s"
    and "key \<noteq> TEXT_INDEX_KEY" "length (text_namespace ns) < U16_MAX" "text_record_ok R" "R = \<lparr> tr_text = text, tr_facets = facets \<rparr>"
    and "corpus_ok (ns_docs V (ti_language ti) (contents s) (text_namespace ns))"
    and "corpus_ok ((ns_docs V (ti_language ti) (contents s) (text_namespace ns))(key \<mapsto> record_doc V (ti_language ti) R))"
    and "can_put T (text_namespace ns) key (encode_text_record R) s"
    and "index_document V (K T) ns key text facets (ti, s) = ((ti', s'), Inr l)"
  shows "ok s' \<and> text_inv V (contents s') ti' \<and> ti_language ti' = ti_language ti \<and> room n s' \<and>
     contents s' = (contents s)((text_namespace ns, key) \<mapsto> encode_text_record R)"
proof -
  let ?ns = "text_namespace ns" and ?lang = "ti_language ti" and ?doc = "record_doc V (ti_language ti) R"
  let ?docs = "ns_docs V ?lang (contents s) ?ns"
  have ne: "ns \<noteq> []" "key \<noteq> []" "?ns \<noteq> []"
    using assms(11) by (auto simp: index_document_def text_namespace_def lit_def split: if_splits)
  obtain ti1 ix where t1: "ensure_loaded V (K T) s ?ns ti = Inr ti1" "text_inv V (contents s) ti1" "ti_language ti1 = ?lang"
    "map_of (ti_indices ti1) ?ns = Some ix" "index_holds ix ?docs"
    by (rule ensure_loaded_inv [OF assms(1,2) ne(3) assms(5,8)])
  have "\<exists>ix1 b. (if might_contain (ix_doc_bloom ix) key then remove_document key ix else (ix, Inr False)) = (ix1, Inr b) \<and>
      index_holds ix1 (?docs(key := None))"
  proof (cases "might_contain (ix_doc_bloom ix) key")
    case True
    then show ?thesis using remove_document_holds [OF t1(5), of key] by auto
  next
    case False
    then have "key \<notin> dom ?docs" using t1(5) unfolding index_holds_def by blast
    then have "?docs(key := None) = ?docs" by auto
    with False t1(5) show ?thesis by auto
  qed
  then obtain ix1 b where ix1: "(if might_contain (ix_doc_bloom ix) key then remove_document key ix else (ix, Inr False)) = (ix1, Inr b)"
    "index_holds ix1 (?docs(key := None))" by blast
  let ?ix2 = "add_document (env_sizing V) key (fst ?doc) (word_of_nat (length (fst ?doc))) (snd ?doc) ix1"
  have "index_holds ?ix2 ((?docs(key := None))(key \<mapsto> ?doc))"
    by (rule add_document_corpus [OF ix1(2)]) (use assms(9) in simp_all)
  then have ix2: "index_holds ?ix2 (?docs(key \<mapsto> ?doc))" by simp
  have doc: "fst ?doc = doc_tokens V ?lang text" "snd ?doc = facets" by (simp_all add: record_doc_def assms(7))
  have run: "kv_put (K T) ?ns key (encode_text_record R) s = (s', Inr l)" "ti' = mark_dirty ?ns (set_index ?ns ?ix2 ti1)"
    using assms(11) ne t1(1,4) ix1(1) unfolding doc
    by (auto simp: index_document_def Let_def loaded_index_def assms(7) split: prod.splits)
  note put = put_law [OF assms(1,10,3) run(1)]
  have "ns_docs V ?lang (contents s') ?ns = ?docs(key \<mapsto> ?doc)"
    using put assms(4) decode_encode_text_record [OF assms(6)] by (simp add: ns_docs_put)
  moreover have "ns_docs V ?lang (contents s') ns' = ns_docs V ?lang (contents s) ns'" if "ns' \<noteq> ?ns" for ns'
    using put that by (simp add: ns_docs_put)
  ultimately have "text_inv V (contents s') (set_index ?ns ?ix2 ti1)"
    using ix2 t1(3) by (intro text_inv_set [OF t1(2)]) simp_all
  with put run(2) t1(3) show ?thesis by simp
qed

text \<open>Indexing a document returns what the put of its record returns: the asserts of the index do not fail.\<close>

lemma index_document_returns:
  assumes "ok s" "text_inv V (contents s) ti" "ns \<noteq> []" "key \<noteq> []" "length (text_namespace ns) < U16_MAX"
    and "corpus_ok (ns_docs V (ti_language ti) (contents s) (text_namespace ns))"
    and "kv_put (K T) (text_namespace ns) key (encode_text_record \<lparr> tr_text = body, tr_facets = facets \<rparr>) s = (s', r)"
  shows "\<exists>ti'. index_document V (K T) ns key body facets (ti, s) = ((ti', s'), r)"
proof -
  have ne: "text_namespace ns \<noteq> []" by (simp add: text_namespace_def lit_def)
  obtain ti1 ix where t1: "ensure_loaded V (K T) s (text_namespace ns) ti = Inr ti1" "map_of (ti_indices ti1) (text_namespace ns) = Some ix"
    "index_holds ix (ns_docs V (ti_language ti) (contents s) (text_namespace ns))"
    by (rule ensure_loaded_inv [OF assms(1,2) ne assms(5,6)])
  obtain ix1 b where "remove_document key ix = (ix1, Inr b)" using remove_document_holds [OF t1(3), of key] by blast
  then show ?thesis using assms(3,4,7) t1(1,2) by (simp add: index_document_def Let_def loaded_index_def)
qed

lemma delete_document_step:
  assumes "ok s" "text_inv V (contents s) ti" "room (Suc (Suc n)) s" "length (text_namespace ns) < U16_MAX"
    and "corpus_ok (ns_docs V (ti_language ti) (contents s) (text_namespace ns))"
    and "delete_document V (K T) ns key (ti, s) = ((ti', s'), Inr l)"
  shows "ok s' \<and> text_inv V (contents s') ti' \<and> ti_language ti' = ti_language ti \<and>
     room n s' \<and>
     (\<forall>ns'. ns_docs V (ti_language ti) (contents s') ns' =
        (if ns' = text_namespace ns then (ns_docs V (ti_language ti) (contents s) ns')(key := None)
         else ns_docs V (ti_language ti) (contents s) ns'))"
proof -
  let ?ns = "text_namespace ns" and ?lang = "ti_language ti"
  let ?docs = "ns_docs V ?lang (contents s) ?ns"
  have ne: "ns \<noteq> []" "key \<noteq> []" "?ns \<noteq> []"
    using assms(6) by (auto simp: delete_document_def text_namespace_def lit_def split: if_splits)
  have ns: "ns_ok ?ns" using assms(4) by (simp add: ns_ok_def)
  obtain ti1 ix where t1: "ensure_loaded V (K T) s ?ns ti = Inr ti1" "text_inv V (contents s) ti1" "ti_language ti1 = ?lang"
    "map_of (ti_indices ti1) ?ns = Some ix" "index_holds ix ?docs"
    by (rule ensure_loaded_inv [OF assms(1,2) ne(3) assms(4,5)])
  obtain ix1 b where ix1: "remove_document key ix = (ix1, Inr b)" "index_holds ix1 (?docs(key := None))"
    using remove_document_holds [OF t1(5), of key] by blast
  show ?thesis
  proof (cases "ix_total_docs ix1 = 0")
    case True
    define ti2 where "ti2 = ti1\<lparr>ti_indices := filter (\<lambda>(n, _). n \<noteq> ?ns) (ti_indices ti1),
        ti_dirty := filter (\<lambda>n. n \<noteq> ?ns) (ti_dirty ti1)\<rparr>"
    obtain s1 l1 where run: "kv_delete (K T) ?ns TEXT_INDEX_KEY s = (s1, Inr l1)" "kv_delete (K T) ?ns key s1 = (s', Inr l)" "ti' = ti2"
      using assms(6) ne t1(1,4) ix1(1) True
      by (auto simp: delete_document_def Let_def loaded_index_def ti2_def split: prod.splits sum.splits)
    from delete_law [OF assms(1) ns assms(3) run(1)]
    have d1: "ok s1" "contents s1 = (contents s)((?ns, TEXT_INDEX_KEY) := None)" "room (Suc n) s1" by blast+
    note d2 = delete_law [OF d1(1) ns d1(3) run(2)]
    have docs: "ns_docs V ?lang (contents s') ns' =
        (if ns' = ?ns then (ns_docs V ?lang (contents s) ns')(key := None) else ns_docs V ?lang (contents s) ns')" for ns'
      using d2 d1(2) by (simp add: ns_docs_delete ns_docs_index_key)
    have "map_of (filter (\<lambda>(n, _). n \<noteq> ?ns) m) n = (if n = ?ns then None else map_of m n)" for n and m :: "(bytes \<times> InvertedIndex) list"
      by (induction m) auto
    then have "text_inv V (contents s') ti2"
      using t1(2,3) docs by (auto simp: text_inv_def ti2_def distinct_map_filter split: if_splits)
    then show ?thesis using d2 docs run(3) t1(3) by (simp add: ti2_def)
  next
    case False
    have run: "kv_delete (K T) ?ns key s = (s', Inr l)" "ti' = mark_dirty ?ns (set_index ?ns ix1 ti1)"
      using assms(6) ne t1(1,4) ix1(1) False
      by (auto simp: delete_document_def Let_def loaded_index_def split: prod.splits sum.splits)
    note d = delete_law [OF assms(1) ns assms(3) run(1)]
    have docs: "ns_docs V ?lang (contents s') ns' =
        (if ns' = ?ns then (ns_docs V ?lang (contents s) ns')(key := None) else ns_docs V ?lang (contents s) ns')" for ns'
      using d by (simp add: ns_docs_delete)
    then have "text_inv V (contents s') (set_index ?ns ix1 ti1)"
      using ix1(2) t1(3) by (intro text_inv_set [OF t1(2)]) simp_all
    with d docs run(2) t1(3) room_law show ?thesis by simp
  qed
qed

lemma persist_puts_step:
  assumes "persist_puts (K T) L s = (s', Inr lsns)" "ok s" "puts_fit (can_put T) (K T) L s" "room (length L) s"
  shows "ok s' \<and> (\<forall>V lang ns. ns_docs V lang (contents s') ns = ns_docs V lang (contents s) ns)"
  using assms
proof (induction L arbitrary: s lsns)
  case (Cons nb L)
  obtain ns b where nb: "nb = (ns, b)" by fastforce
  obtain s1 l lsns' where run: "kv_put (K T) ns TEXT_INDEX_KEY b s = (s1, Inr l)" "persist_puts (K T) L s1 = (s', Inr lsns')"
    using Cons.prems(1) nb by (auto split: prod.splits sum.splits)
  have fit: "can_put T ns TEXT_INDEX_KEY b s" "puts_fit (can_put T) (K T) L s1" using Cons.prems(3) nb run(1) by simp_all
  from put_law [OF Cons.prems(2) fit(1) _ run(1), of "length L"] Cons.prems(4)
  have p: "ok s1" "contents s1 = (contents s)((ns, TEXT_INDEX_KEY) \<mapsto> b)" "room (length L) s1" by simp_all
  have same: "ns_docs V lang ((contents s)((ns, TEXT_INDEX_KEY) \<mapsto> b)) ns' = ns_docs V lang (contents s) ns'" for V lang ns'
    unfolding ns_docs_put by simp
  show ?case using Cons.IH [OF run(2) p(1) fit(2) p(3)] unfolding p(2) same .
qed simp

lemma persist_step:
  assumes "ok s" "text_inv V (contents s) ti" "persist (K T) (ti, s) = ((ti', s'), Inr ())"
    and "puts_fit (can_put T) (K T) (to_persist ti) s" "room (length (to_persist ti)) s"
  shows "ok s' \<and> text_inv V (contents s') ti' \<and> ti_language ti' = ti_language ti"
proof (cases "ti_dirty ti = []")
  case False
  then obtain lsns where run: "persist_puts (K T) (to_persist ti) s = (s', Inr lsns)" "ti' = fold note_persisted lsns ti"
    using assms(3) by (auto simp: persist_def to_persist_def Let_def split: prod.splits sum.splits)
  have p: "ok s'" "\<forall>lang ns. ns_docs V lang (contents s') ns = ns_docs V lang (contents s) ns"
    using persist_puts_step [OF run(1) assms(1,4,5)] by blast+
  have "text_inv V (contents s') ti" using p(2) assms(2) unfolding text_inv_def by metis
  then have "text_inv V (contents s') (fold note_persisted lsns ti) \<and> ti_language (fold note_persisted lsns ti) = ti_language ti"
    by (rule text_inv_persisted)
  with p run(2) show ?thesis by simp
qed (use assms in \<open>simp add: persist_def\<close>)

text \<open>A search gives the same results with the cached index and with one that is rebuilt from the store.\<close>

lemma search_rebuilt:
  assumes "ok s" "text_inv V (contents s) ti" "length (text_namespace ns) < U16_MAX" "f32_ok (env_float V)" "\<not> so_typo_tolerance opts"
    and "corpus_ok (ns_docs V (ti_language ti) (contents s) (text_namespace ns))"
  shows "snd (search_with_options V (K T) s ns query opts ti) =
     snd (search_with_options V (K T') s ns query opts (TextIndex_with_language (ti_language ti)))"
    and "text_inv V (contents s) (fst (search_with_options V (K T) s ns query opts ti))"
    and "ti_language (fst (search_with_options V (K T) s ns query opts ti)) = ti_language ti"
proof -
  let ?ns = "text_namespace ns" and ?new = "TextIndex_with_language (ti_language ti)"
  have ne: "?ns \<noteq> []" by (simp add: text_namespace_def lit_def)
  have new: "text_inv V (contents s) ?new" "ti_language ?new = ti_language ti"
    by (simp_all add: text_inv_def TextIndex_with_language_def)
  obtain ti1 ix where t1: "ensure_loaded V (K T) s ?ns ti = Inr ti1" "text_inv V (contents s) ti1" "ti_language ti1 = ti_language ti"
    "map_of (ti_indices ti1) ?ns = Some ix" "index_holds ix (ns_docs V (ti_language ti) (contents s) ?ns)"
    by (rule ensure_loaded_inv [OF assms(1,2) ne assms(3,6)])
  obtain ti2 ix' where t2: "ensure_loaded V (K T') s ?ns ?new = Inr ti2" "map_of (ti_indices ti2) ?ns = Some ix'"
    "index_holds ix' (ns_docs V (ti_language ti) (contents s) ?ns)"
    using ensure_loaded_inv [OF assms(1) new(1) ne assms(3)] assms(6) unfolding new(2) by metis
  have "ix_total_docs ix = ix_total_docs ix'" "score_index_impl V ix q opts = score_index_impl V ix' q opts" for q
    using holds_same(1) [OF t1(5) t2(3)] search_same [OF t1(5) t2(3) assms(4,5)] by simp_all
  then show "snd (search_with_options V (K T) s ns query opts ti) = snd (search_with_options V (K T') s ns query opts ?new)"
    by (simp add: search_with_options_def Let_def t1(1) t2(1) loaded_index_def t1(4) t2(2) search_in_index_def new(2))
  show "text_inv V (contents s) (fst (search_with_options V (K T) s ns query opts ti))"
    "ti_language (fst (search_with_options V (K T) s ns query opts ti)) = ti_language ti"
    using t1(1-3) assms(2) by (simp_all add: search_with_options_def Let_def)
qed

lemma text_exec_step:
  assumes "ok s" "text_inv V (contents s) ti" "f32_ok (env_float V)" "text_fits V (K T) contents (can_put T) room op (ti, s)"
    and "text_exec V (K T) op (ti, s) = ((ti', s'), Inr ())"
  shows "ok s' \<and> text_inv V (contents s') ti' \<and> ti_language ti' = ti_language ti"
proof (cases op)
  case (TxtIndex ns key body facets)
  obtain l where "index_document V (K T) ns key body facets (ti, s) = ((ti', s'), Inr l)"
    using assms(5) TxtIndex by (auto simp: completed_def elim: st_then.elims)
  note step = index_document_step [OF assms(1,2) _ _ _ _ refl _ _ _ this, of 0]
  show ?thesis using assms(4) TxtIndex by (intro conjI; (intro step [THEN conjunct1] step [THEN conjunct2, THEN conjunct1]
    step [THEN conjunct2, THEN conjunct2, THEN conjunct1])?) (simp_all add: Let_def)
next
  case (TxtDelete ns key)
  obtain l where "delete_document V (K T) ns key (ti, s) = ((ti', s'), Inr l)"
    using assms(5) TxtDelete by (auto simp: completed_def elim: st_then.elims)
  with delete_document_step [OF assms(1,2), of 0 ns T key] assms(4) TxtDelete show ?thesis by (simp add: numeral_2_eq_2)
next
  case TxtPersist
  with persist_step [OF assms(1,2), of T] assms(4,5) show ?thesis by simp
next
  case (TxtSearch ns query opts)
  obtain r where r: "search_with_options V (K T) s ns query opts ti = (ti', Inr r)" "s' = s"
    using assms(5) TxtSearch by (auto split: prod.splits sum.splits)
  with search_rebuilt(2,3) [OF assms(1,2) _ assms(3), of ns opts T query] assms(1,4) TxtSearch show ?thesis by simp
qed

lemma text_run_inv:
  assumes "text_run V K contents can_put room st ops st'" "ok (snd st)" "text_inv V (contents (snd st)) (fst st)" "f32_ok (env_float V)"
  shows "ok (snd st') \<and> text_inv V (contents (snd st')) (fst st') \<and> ti_language (fst st') = ti_language (fst st)"
  using assms(1-3)
proof (induction rule: text_run.induct)
  case (text_cons T op st st1 ops st2)
  obtain ti s ti1 s1 where st: "st = (ti, s)" "st1 = (ti1, s1)" by (metis prod.exhaust)
  from text_exec_step [OF _ _ assms(4), of s ti T op ti1 s1] text_cons show ?case unfolding st by simp
qed simp

end

end
