(* ===== verification/TextEngine.thy ===== *)
theory TextEngine
  imports TextFacts
begin

text \<open>
  The text crate on the engine: the engine meets the contract \<open>kv_store\<close>, so that searches do not
  change over a restart, and the case of documents without tokens, in which the totals of the
  cached index drift from those of the records.
\<close>

definition engine_kv :: "ext \<Rightarrow> Clock \<Rightarrow> est kv_ops" where
  "engine_kv X T = \<lparr> kv_get = Engine_get X, kv_put = Engine_put X T, kv_delete = Engine_delete X T, kv_prefix = Engine_prefix X \<rparr>"

definition engine_ok :: "ext \<Rightarrow> est \<Rightarrow> bool" where
  "engine_ok X st \<longleftrightarrow> zstd_ok X \<and> json_ok X \<and> xor8_ok X \<and>
     (\<exists>ess. engine_inv X (fst st) (snd st) ess \<and> versions_ok ess (en_memtable (fst st)) (en_lsn_counter (fst st)))"

definition engine_contents :: "ext \<Rightarrow> est \<Rightarrow> bytes \<times> bytes \<rightharpoonup> bytes" where
  "engine_contents X st = (\<lambda>(ns, k). case Engine_get X st ns k of Inl _ \<Rightarrow> None | Inr r \<Rightarrow> r)"

definition engine_can_put :: "ext \<Rightarrow> Clock \<Rightarrow> bytes \<Rightarrow> bytes \<Rightarrow> bytes \<Rightarrow> est \<Rightarrow> bool" where
  "engine_can_put X T ns k v st \<longleftrightarrow> op_fits X T (OpPut ns k v) st"

definition engine_room :: "nat \<Rightarrow> est \<Rightarrow> bool" where
  "engine_room n st \<longleftrightarrow> unat (en_lsn_counter (fst st)) + n < 2 ^ 64"

lemma engine_get_contents:
  assumes "engine_ok X st" "ns_ok ns"
  shows "Engine_get X st ns k = Inr (engine_contents X st (ns, k))"
proof -
  obtain E d where st: "st = (E, d)" by fastforce
  obtain ess where "zstd_ok X" "engine_inv X E d ess" using assms(1) by (auto simp: engine_ok_def st)
  from engine_get_view [OF this assms(2)] show ?thesis by (simp add: engine_contents_def st)
qed

lemma engine_contents_not_ok: "\<not> ns_ok ns \<Longrightarrow> engine_contents X st (ns, k) = None"
  by (simp add: engine_contents_def Engine_get_def encode_key_def ns_ok_def split: prod.split)

text \<open>One operation that completes, seen through lookups.\<close>

lemma engine_exec_contents:
  assumes "engine_ok X st" "op_fits X T op st" "engine_exec X T op st = (st', Inr ())" "engine_room (op_writes op + n) st"
  shows "engine_ok X st' \<and> engine_room n st' \<and>
     (\<forall>ns k. ns_ok ns \<longrightarrow> engine_contents X st' (ns, k) = spec_op op (engine_contents X st) (ns, k))"
proof -
  obtain E d E' d' where st: "st = (E, d)" "st' = (E', d')" by (metis prod.exhaust)
  obtain ess where laws: "zstd_ok X" "json_ok X" "xor8_ok X" and inv: "engine_inv X E d ess"
    "versions_ok ess (en_memtable E) (en_lsn_counter E)" using assms(1) by (auto simp: engine_ok_def st)
  have rep: "represents (view (en_memtable E) ess) (engine_contents X st)"
    using engine_get_contents [OF assms(1)] engine_get_view [OF laws(1) inv(1)] by (simp add: represents_def st)
  have fits: "op_fits X T op (E, d)" "engine_exec X T op (E, d) = ((E', d'), Inr ())" using assms(2,3) by (simp_all add: st)
  obtain ess1 where e1: "engine_inv X E' d' ess1" "represents (view (en_memtable E') ess1) (spec_op op (engine_contents X st))"
    using engine_exec_step [OF laws inv(1) rep fits] by blast
  obtain ess2 where e2: "engine_inv X E' d' ess2" "op_effect (op_writes op) ess E ess2 E'"
    using engine_exec_effect [OF laws inv(1) fits] by blast
  have "unat (en_lsn_counter E) + op_writes op < 2 ^ 64" using assms(4) by (simp add: engine_room_def st)
  from effect_versions [OF e2(2) inv(2) this] have v: "versions_ok ess2 (en_memtable E') (en_lsn_counter E')"
    "unat (en_lsn_counter E') = unat (en_lsn_counter E) + op_writes op" by blast+
  have ok: "engine_ok X st'" using laws e2(1) v(1) by (auto simp: engine_ok_def st)
  have "engine_contents X st' (ns, k) = spec_op op (engine_contents X st) (ns, k)" if "ns_ok ns" for ns k
    using engine_get_contents [OF ok that] engine_get_view [OF laws(1) e1(1) that] e1(2) that by (simp add: represents_def st)
  moreover have "engine_room n st'" using assms(4) v(2) by (simp add: engine_room_def st)
  ultimately show ?thesis using ok by blast
qed

lemma engine_write_contents:
  assumes "engine_ok X st" "op_fits X T op st" "engine_exec X T op st = (st', Inr ())" "engine_room (Suc n) st"
    and "op = OpPut ns k v \<and> m = (engine_contents X st)((ns, k) \<mapsto> v) \<or> op = OpDelete ns k \<and> m = (engine_contents X st)((ns, k) := None)"
    and "ns_ok ns"
  shows "engine_ok X st' \<and> engine_contents X st' = m \<and> engine_room n st'"
proof -
  have "op_writes op = 1" "spec_op op (engine_contents X st) = m" using assms(5) by auto
  then have e: "engine_ok X st'" "engine_room n st'" "\<forall>ns k. ns_ok ns \<longrightarrow> engine_contents X st' (ns, k) = m (ns, k)"
    using engine_exec_contents [OF assms(1-3), of n] assms(4) by auto
  have "engine_contents X st' (ns', k') = m (ns', k')" if "\<not> ns_ok ns'" for ns' k'
    using assms(5,6) that by (auto simp: engine_contents_not_ok)
  with e show ?thesis by (metis (no_types, lifting) ext surj_pair)
qed

interpretation eng: kv_store "engine_kv X" "engine_ok X" "engine_contents X" "engine_can_put X" engine_room for X
proof (unfold_locales, goal_cases)
  case (1 s ns T k)
  then show ?case by (simp add: engine_kv_def engine_get_contents)
next
  case (2 s ns T)
  obtain E d where st: "s = (E, d)" by fastforce
  obtain ess where "zstd_ok X" "engine_inv X E d ess" "lsn_ordered (ess @ [en_memtable E])"
    using 2(1) by (auto simp: engine_ok_def st versions_ok_def)
  from engine_prefix_spec [OF this 2(2), of "[]"] obtain L where "Engine_prefix X (E, d) ns [] = Inr L" "ksorted L"
    "\<forall>k v. (k, v) \<in> set L \<longleftrightarrow> Engine_get X (E, d) ns k = Inr (Some v)" by (auto simp: starts_with_def)
  moreover have "ns_ok ns" using 2(2) by (simp add: ns_ok_def)
  ultimately show ?case using engine_get_contents [OF 2(1)] by (simp add: engine_kv_def st)
next
  case (3 s T ns k v n s' l)
  then have p: "Engine_put X T ns k v s = (s', Inr l)" by (simp add: engine_kv_def)
  then have "ns_ok ns" by (auto simp: Engine_put_def ns_ok_def split: prod.splits if_splits)
  moreover have "engine_exec X T (OpPut ns k v) s = (s', Inr ())" using p by (simp add: completed_def)
  ultimately show ?case using engine_write_contents [OF 3(1) _ _ 3(3), of T "OpPut ns k v"] 3(2) by (simp add: engine_can_put_def)
next
  case (4 s ns n T k s' l)
  then have p: "Engine_delete X T ns k s = (s', Inr l)" by (simp add: engine_kv_def)
  then have "engine_exec X T (OpDelete ns k) s = (s', Inr ())" by (simp add: completed_def)
  moreover have "op_fits X T (OpDelete ns k) s" using 4(2) by (cases s) simp
  ultimately show ?case using engine_write_contents [OF 4(1) _ _ 4(3), of T "OpDelete ns k"] 4(2) by simp
next
  case (5 n s)
  then show ?case by (simp add: engine_room_def)
qed

text \<open>
  C19: A search gives the same results after a restart. Start with no cached index on a consistent
  database and perform any sequence of completed operations: indexing documents again or for the
  first time, deleting them, persisting the indices and searching. Then a search (without typo
  tolerance) returns the same documents with the same scores in the same order as a new text
  index on the same database, which rebuilds its index from the records. The limits are \<open>text_fits\<close>
  for every step and for the search: every document has a token and is not stored under the key of
  the sidecar; texts, facets and totals fit their length fields; the LSN counter does not run out;
  and every put, that of a record as well as that of the serialised index under \<open>__index__\<close> by
  \<open>persist\<close>, is within the limits of the engine (\<open>op_fits\<close>): if it fills the memtable and so flushes it,
  every entry of the memtable, a persisted index included, is within the block limit of 2 MiB.
  A larger sidecar would be flushed and make the segment unreadable for the rebuild.
\<close>

theorem search_survives_restart:
  assumes "engine_ok X st" "f32_ok (env_float V)"
    and "text_run V (engine_kv X) (engine_contents X) (engine_can_put X) engine_room (TextIndex_with_language lang, st) ops (ti, st')"
    and "text_fits V (engine_kv X T) (engine_contents X) (engine_can_put X T) engine_room (TxtSearch ns query opts) (ti, st')"
  shows "snd (search_with_options V (engine_kv X T) st' ns query opts ti) =
     snd (search_with_options V (engine_kv X T') st' ns query opts (TextIndex_with_language lang))"
proof -
  have "text_inv V (engine_contents X st) (TextIndex_with_language lang)" by (simp add: text_inv_def TextIndex_with_language_def)
  from eng.text_run_inv [OF assms(3) _ _ assms(2)] this assms(1)
  have "engine_ok X st'" "text_inv V (engine_contents X st') ti" "ti_language ti = lang"
    by (simp_all add: TextIndex_with_language_def)
  with eng.search_rebuilt(1) [OF this(1,2) _ assms(2), of ns opts T query T'] assms(4) show ?thesis by simp
qed

text \<open>An environment for examples: words are separated by spaces, scores are integers.\<close>

definition sample_env :: "int text_env" where
  "sample_env = \<lparr>
     env_analyzer = \<lparr> an_is_alphanumeric = (\<lambda>c. c \<noteq> 32), an_is_whitespace = (\<lambda>c. c = 32), an_to_lowercase = (\<lambda>w. w),
       an_stopword = (\<lambda>lang w. False), an_stem = (\<lambda>lang w. w) \<rparr>,
     env_sizing = \<lparr> bs_bits = (\<lambda>n. 10 * n), bs_hashes = (\<lambda>m n. 7), bs_seed = (\<lambda>b. word_of_nat (length b)) \<rparr>,
     env_float = \<lparr> f_of_u64 = (\<lambda>w. int (unat w)), f_of_u32 = (\<lambda>w. int (unat w)), f_lit = (\<lambda>a b. a div b), f_add = (+), f_sub = (-),
       f_mul = (*), f_div = (div), f_ln = (\<lambda>x. x), f_eq = (=), f_is_nan = (\<lambda>x. False),
       f_partial_cmp = (\<lambda>a b. Some (compare_with (\<lambda>x. x) a b)) \<rparr>,
     env_posting_size = 112, env_term_order = (\<lambda>ts. ts) \<rparr>"

lemma sample_env_ok: "f32_ok (env_float sample_env)"
  unfolding f32_ok_def sample_env_def by (intro exI [of _ "\<lambda>x :: int. x"]) simp

lemma sample_tokens: "doc_tokens sample_env lang [0x61] = [\<lparr> tk_term = [0x61], tk_position = 0 \<rparr>]"
  by (simp add: doc_tokens_def tokenize_def token_loop.simps run_end.simps sample_env_def Let_def)

lemma sample_text_state:
  "engine_ok sample_ext new_db" "ns_docs sample_env lang (engine_contents sample_ext new_db) ns = Map.empty"
proof -
  show ok: "engine_ok sample_ext new_db"
    using sample_laws(2,4,5) new_db_inv by (auto simp: engine_ok_def versions_ok_def lsn_ordered_def new_db_def intro: exI [of _ "[]"])
  have "engine_contents sample_ext new_db (ns, k) = None" for k
  proof (cases "ns_ok ns")
    case True
    have "Engine_get sample_ext (fst new_db, snd new_db) ns k = Inr (visible (view (en_memtable (fst new_db)) [] (enc ns k)))"
      by (rule engine_get_view [OF sample_laws(2) new_db_inv True])
    then show ?thesis by (simp add: engine_contents_def view_def visible_def new_db_def)
  qed (rule engine_contents_not_ok)
  then show "ns_docs sample_env lang (engine_contents sample_ext new_db) ns = Map.empty"
    by (auto simp: ns_docs_def docs_of_def)
qed

theorem search_survives_restart_witness:
  "\<exists>ti st'. text_run sample_env (engine_kv sample_ext) (engine_contents sample_ext) (engine_can_put sample_ext) engine_room
      (TextIndex_new, new_db) [(sample_clock, TxtIndex [110] [2] [0x61] [])] (ti, st') \<and>
     snd (search_with_options sample_env (engine_kv sample_ext sample_clock) st' [110] [0x61] (SearchOptions_limit 10) ti) =
     snd (search_with_options sample_env (engine_kv sample_ext sample_clock) st' [110] [0x61] (SearchOptions_limit 10) TextIndex_new)"
proof -
  let ?R = "\<lparr> tr_text = [0x61], tr_facets = [] \<rparr>" and ?ns = "text_namespace [110]" and ?T = sample_clock
  let ?v = "encode_text_record ?R" and ?op = "TxtIndex [110] [2] [0x61] []"
  have c0: "en_config (fst new_db) = EdgestoreConfig_new" "en_lsn_counter (fst new_db) = 0" "en_memtable (fst new_db) = []"
    by (simp_all add: new_db_def)
  have new: "TextIndex_new = TextIndex_with_language English" by (simp add: TextIndex_new_def TextIndex_with_language_def)
  have len: "?ns \<noteq> []" "length ?ns = 9" "length ?v < 1000"
    by (simp_all add: text_namespace_def lit_def encode_text_record_def put_facets_def as_bytes_def utf8_char_def)
  have nf: "\<not> flush_due (fst new_db) [x]" for x
    by (simp add: flush_due_def c0 btree_len_def AVG_ENTRY_SIZE_ESTIMATE_def EdgestoreConfig_new_def)
  have "op_ready sample_ext ?T (OpPut ?ns [2] ?v) (fst new_db)"
    using sample_frames(1) [of ?ns "[2]" ?v] len nf by (simp add: Let_def c0 EdgestoreConfig_new_def ns_ok_def U16_MAX_def)
  from engine_op_returns [OF sample_laws(2,5,4) new_db_durable new_db_names this] obtain E' d' where
    put: "engine_exec sample_ext ?T (OpPut ?ns [2] ?v) new_db = ((E', d'), Inr ())" and fits: "op_fits sample_ext ?T (OpPut ?ns [2] ?v) new_db"
    by auto
  obtain l where kv: "kv_put (engine_kv sample_ext ?T) ?ns [2] ?v new_db = ((E', d'), Inr l)"
    using put by (auto simp: engine_kv_def completed_def elim: st_then.elims)
  have ti0: "text_inv sample_env (engine_contents sample_ext new_db) TextIndex_new" by (simp add: text_inv_def TextIndex_new_def)
  have empty: "corpus_ok (ns_docs sample_env lang (engine_contents sample_ext new_db) ?ns)" for lang
    by (simp add: sample_text_state(2) corpus_ok_def)
  have one: "corpus_ok [[2] \<mapsto> record_doc sample_env lang ?R]" for lang
    by (simp add: corpus_ok_def record_doc_def sample_tokens doc_len_def)
  obtain ti' where ex: "index_document sample_env (engine_kv sample_ext ?T) [110] [2] [0x61] [] (TextIndex_new, new_db) = ((ti', (E', d')), Inr l)"
    using eng.index_document_returns [OF sample_text_state(1) ti0 _ _ _ empty kv] len(2) by (auto simp: U16_MAX_def)
  have "text_record_ok ?R"
    by (simp add: text_record_ok_def facets_ok_def scalar_def as_bytes_def utf8_char_def)
  then have tf: "text_fits sample_env (engine_kv sample_ext ?T) (engine_contents sample_ext) (engine_can_put sample_ext ?T) engine_room
      ?op (TextIndex_new, new_db)"
    using len fits empty one
    by (simp add: Let_def sample_text_state(2) engine_can_put_def engine_room_def c0 U16_MAX_def TEXT_INDEX_KEY_def lit_def)
  have te: "text_exec sample_env (engine_kv sample_ext ?T) ?op (TextIndex_new, new_db) = ((ti', (E', d')), Inr ())"
    by (simp add: ex completed_def)
  have run: "text_run sample_env (engine_kv sample_ext) (engine_contents sample_ext) (engine_can_put sample_ext) engine_room
      (TextIndex_new, new_db) [(?T, ?op)] (ti', (E', d'))"
    by (rule text_cons, rule tf, rule te, rule text_nil)
  have docs: "ns_docs sample_env (ti_language ti') (engine_contents sample_ext (E', d')) ?ns = [[2] \<mapsto> record_doc sample_env (ti_language ti') ?R]"
  proof -
    have "engine_contents sample_ext (E', d') = (engine_contents sample_ext new_db)((?ns, [2]) \<mapsto> ?v)"
      using eng.put_law [OF sample_text_state(1) _ _ kv, of 0] fits by (simp add: engine_can_put_def engine_room_def c0)
    then show ?thesis using decode_encode_text_record [OF \<open>text_record_ok ?R\<close>]
      by (simp add: ns_docs_put sample_text_state(2) TEXT_INDEX_KEY_def lit_def)
  qed
  have "text_fits sample_env (engine_kv sample_ext ?T) (engine_contents sample_ext) (engine_can_put sample_ext ?T) engine_room
      (TxtSearch [110] [0x61] (SearchOptions_limit 10)) (ti', (E', d'))"
    using len(2) one by (simp add: docs U16_MAX_def SearchOptions_limit_def)
  from search_survives_restart [OF sample_text_state(1) sample_env_ok run [unfolded new] this, of ?T] run
  show ?thesis unfolding new by blast
qed

section \<open>Documents without tokens\<close>

definition absent :: "bytes \<Rightarrow> InvertedIndex \<Rightarrow> bool" where
  "absent key ix \<longleftrightarrow> no_empty (ix_postings ix) \<and> (\<forall>tp \<in> set (ix_postings ix). \<forall>p \<in> set (snd tp). po_doc_id p \<noteq> key)"

lemma remove_absent:
  assumes "absent key ix"
  shows "remove_document key ix = (ix, Inr False)"
proof -
  have none: "List.find (\<lambda>p. po_doc_id p = key) (concat (map snd (ix_postings ix))) = None"
    using assms by (auto simp: find_None_iff absent_def)
  have "map (\<lambda>(t, ps). (t, filter (\<lambda>p. po_doc_id p \<noteq> key) ps)) (ix_postings ix) = ix_postings ix"
    using assms by (intro map_idI) (auto simp: absent_def filter_id_conv)
  moreover have "filter (\<lambda>(_, ps). ps \<noteq> []) (ix_postings ix) = ix_postings ix"
    using assms by (auto simp: absent_def no_empty_def filter_id_conv)
  ultimately show ?thesis using none by (simp add: remove_document_def Let_def)
qed

lemma add_empty_document:
  "ix_postings (add_document S key [] n facets ix) = ix_postings ix"
  "ix_total_docs (add_document S key [] n facets ix) = ix_total_docs ix + 1"
  by (simp_all add: add_document_def index_bloom_insert_def rebuild_bloom_at_capacity_def term_data_def Let_def)

lemma index_empty_document:
  assumes "doc_tokens V (ti_language ti) body = []" "map_of (ti_indices ti) (text_namespace ns) = Some ix" "absent key ix" "ns \<noteq> []" "key \<noteq> []"
  shows "index_document V K ns key body facets (ti, s) =
     (case kv_put K (text_namespace ns) key (encode_text_record \<lparr> tr_text = body, tr_facets = facets \<rparr>) s of
        (s', r) \<Rightarrow> ((mark_dirty (text_namespace ns)
          (set_index (text_namespace ns) (add_document (env_sizing V) key [] 0 facets ix) ti), s'), r))"
proof -
  have "text_namespace ns \<noteq> []" by (simp add: text_namespace_def lit_def)
  then have "ensure_loaded V K s (text_namespace ns) ti = Inr ti" using assms(2) by (simp add: ensure_loaded_def)
  moreover have "loaded_index (text_namespace ns) ti = ix" using assms(2) by (simp add: loaded_index_def)
  moreover have "(if b then remove_document key ix else (ix, Inr False)) = (ix, Inr False)" for b
    using remove_absent [OF assms(3)] by simp
  ultimately show ?thesis using assms(1,4,5) by (simp add: index_document_def Let_def)
qed

text \<open>
  C40: Documents without tokens distort the totals. A text that consists of stop words or punctuation
  has no postings, so indexing it again counts it again, and deleting it does not count it off:
  after indexing such a document twice and deleting it, the postings of the cached index are as
  before, but it counts two documents more, which the scores of all searches depend on.
\<close>

theorem empty_document_inflates_totals:
  assumes "doc_tokens V (ti_language ti) body = []" "map_of (ti_indices ti) (text_namespace ns) = Some ix" "absent key ix"
    and "index_document V K ns key body facets (ti, s) = ((ti1, s1), Inr l1)"
    and "index_document V K ns key body facets (ti1, s1) = ((ti2, s2), Inr l2)"
    and "delete_document V K ns key (ti2, s2) = ((ti3, s3), Inr l3)" "ix_total_docs ix + 2 \<noteq> 0"
  shows "\<exists>ix3. map_of (ti_indices ti3) (text_namespace ns) = Some ix3 \<and> ix_postings ix3 = ix_postings ix \<and>
     ix_total_docs ix3 = ix_total_docs ix + 2"
proof -
  let ?ns = "text_namespace ns"
  have ne: "ns \<noteq> []" "key \<noteq> []" using assms(4) by (auto simp: index_document_def split: if_splits)
  define ix1 where "ix1 = add_document (env_sizing V) key [] 0 facets ix"
  define ix2 where "ix2 = add_document (env_sizing V) key [] 0 facets ix1"
  have "ti1 = mark_dirty ?ns (set_index ?ns ix1 ti)"
    using assms(4) unfolding index_empty_document [OF assms(1-3) ne] ix1_def by (simp split: prod.splits)
  then have t1: "map_of (ti_indices ti1) ?ns = Some ix1" "ti_language ti1 = ti_language ti"
    by (simp_all add: mark_dirty_def set_index_def update_conv)
  have a1: "absent key ix1" using assms(3) by (simp add: absent_def ix1_def add_empty_document)
  have "ti2 = mark_dirty ?ns (set_index ?ns ix2 ti1)"
    using assms(5) unfolding index_empty_document [OF assms(1) [folded t1(2)] t1(1) a1 ne] ix2_def by (simp split: prod.splits)
  then have t2: "map_of (ti_indices ti2) ?ns = Some ix2" by (simp add: mark_dirty_def set_index_def update_conv)
  have tot: "ix_total_docs ix2 = ix_total_docs ix + 2" "ix_postings ix2 = ix_postings ix" "absent key ix2"
    using assms(3) by (simp_all add: absent_def ix1_def ix2_def add_empty_document)
  have "?ns \<noteq> []" by (simp add: text_namespace_def lit_def)
  then have "ensure_loaded V K s2 ?ns ti2 = Inr ti2" using t2 by (simp add: ensure_loaded_def)
  then have "ti3 = mark_dirty ?ns (set_index ?ns ix2 ti2)"
    using assms(6,7) ne remove_absent [OF tot(3)] tot(1) t2
    by (auto simp: delete_document_def Let_def loaded_index_def split: prod.splits)
  then have "map_of (ti_indices ti3) ?ns = Some ix2" by (simp add: mark_dirty_def set_index_def update_conv)
  with tot show ?thesis by blast
qed

text \<open>A store that never fails, for the example.\<close>

definition map_kv :: "(bytes \<times> bytes \<Rightarrow> bytes option) kv_ops" where
  "map_kv = \<lparr> kv_get = (\<lambda>m ns k. Inr (m (ns, k))), kv_put = (\<lambda>ns k v m. (m((ns, k) := Some v), Inr 1)),
     kv_delete = (\<lambda>ns k m. (m((ns, k) := None), Inr 1)), kv_prefix = (\<lambda>m ns p. Inr []) \<rparr>"

theorem empty_document_inflates_totals_witness:
  "\<exists>ti ti1 ti2 ti3 s1 s2 s3 ix3.
     index_document sample_env map_kv [110] [2] [32] [] (ti, Map.empty) = ((ti1, s1), Inr 1) \<and>
     index_document sample_env map_kv [110] [2] [32] [] (ti1, s1) = ((ti2, s2), Inr 1) \<and>
     delete_document sample_env map_kv [110] [2] (ti2, s2) = ((ti3, s3), Inr 1) \<and>
     map_of (ti_indices ti3) (text_namespace [110]) = Some ix3 \<and> ix_postings ix3 = [] \<and> ix_total_docs ix3 = 2"
proof -
  let ?ns = "text_namespace [110]" and ?V = sample_env
  define ix where "ix = InvertedIndex_new (env_sizing ?V)"
  define ti where "ti = \<lparr> ti_indices = [(?ns, ix)], ti_language = English, ti_dirty = [] \<rparr>"
  define ix1 where "ix1 = add_document (env_sizing ?V) [2] [] 0 [] ix"
  define ti1 where "ti1 = mark_dirty ?ns (set_index ?ns ix1 ti)"
  define ix2 where "ix2 = add_document (env_sizing ?V) [2] [] 0 [] ix1"
  define ti2 where "ti2 = mark_dirty ?ns (set_index ?ns ix2 ti1)"
  have tok: "doc_tokens ?V lang [32] = []" for lang
    by (simp add: doc_tokens_def tokenize_def token_loop.simps sample_env_def)
  have m: "map_of (ti_indices ti) ?ns = Some ix" "map_of (ti_indices ti1) ?ns = Some ix1" "map_of (ti_indices ti2) ?ns = Some ix2"
    by (simp_all add: ti_def ti1_def ti2_def mark_dirty_def set_index_def update_conv)
  have ab: "absent [2] ix" "absent [2] ix1" "absent [2] ix2" and tot: "ix_total_docs ix2 = 2" "ix_total_docs ix + 2 \<noteq> 0" "ix_postings ix = []"
    by (simp_all add: absent_def ix_def ix1_def ix2_def add_empty_document InvertedIndex_new_def no_empty_def)
  have ne: "[110 :: byte] \<noteq> []" "[2 :: byte] \<noteq> []" "?ns \<noteq> []" by (simp_all add: text_namespace_def lit_def)
  obtain s1 where r1: "index_document ?V map_kv [110] [2] [32] [] (ti, Map.empty) = ((ti1, s1), Inr 1)"
    unfolding index_empty_document [OF tok m(1) ab(1) ne(1,2)] by (simp add: map_kv_def ti1_def ix1_def)
  obtain s2 where r2: "index_document ?V map_kv [110] [2] [32] [] (ti1, s1) = ((ti2, s2), Inr 1)"
    unfolding index_empty_document [OF tok m(2) ab(2) ne(1,2)] by (simp add: map_kv_def ti2_def ix2_def)
  have "ensure_loaded ?V map_kv s2 ?ns ti2 = Inr ti2" using m(3) ne(3) by (simp add: ensure_loaded_def)
  then obtain ti3 s3 where r3: "delete_document ?V map_kv [110] [2] (ti2, s2) = ((ti3, s3), Inr 1)"
    using remove_absent [OF ab(3)] tot(1) m(3) by (simp add: delete_document_def Let_def loaded_index_def map_kv_def)
  from empty_document_inflates_totals [OF tok m(1) ab(1) r1 r2 r3 tot(2)] obtain ix3 where
    "map_of (ti_indices ti3) ?ns = Some ix3" "ix_postings ix3 = []" "ix_total_docs ix3 = 2"
    using tot(3) by (auto simp: ix_def InvertedIndex_new_def)
  with r1 r2 r3 show ?thesis by blast
qed

end
