(* ===== verification/VectorSearch.thy ===== *)
theory VectorSearch
  imports HnswInsert TextEngine Replication
begin

text \<open>
  Vector search on the engine, \<open>edgestore/src/vector/search.rs\<close> and \<open>edgestore/src/engine/vector.rs\<close>: the
  flat scan with a bounded heap, pages of records, the graph index of a namespace with its cache,
  sidecar and stamp, and the operations on vectors. The order in which a heap keeps equal
  elements is the parameter \<open>L\<close>. The directory \<open>vector\<close> is a component of the state of its own.
\<close>

section \<open>The flat scan\<close>

record 'f VectorSearchResult =
  vs_key :: bytes
  vs_distance :: 'f

record 'f VectorHeapItem =
  hi_distance :: 'f
  hi_key :: bytes

definition heap_item_cmp :: "'f f32_ops \<Rightarrow> 'f VectorHeapItem \<Rightarrow> 'f VectorHeapItem \<Rightarrow> cmp" where
  "heap_item_cmp F a b = total_cmp_f32 F (hi_distance a) (hi_distance b)"

text \<open>The operator \<open><\<close> on \<open>f32\<close>.\<close>

definition f_lt :: "'f f32_ops \<Rightarrow> 'f \<Rightarrow> 'f \<Rightarrow> bool" where
  "f_lt F a b \<longleftrightarrow> f_partial_cmp F a b = Some Less"

definition map_err :: "EdgestoreError \<Rightarrow> 'a res \<Rightarrow> 'a res" where
  "map_err e r = (case r of Inl _ \<Rightarrow> Inl e | Inr v \<Rightarrow> Inr v)"

type_synonym 'f item_order = "'f VectorHeapItem list \<Rightarrow> 'f VectorHeapItem list"

definition offer :: "'f f32_ops \<Rightarrow> 'f item_order \<Rightarrow> usize \<Rightarrow> 'f VectorHeapItem \<Rightarrow> 'f VectorHeapItem list \<Rightarrow> 'f VectorHeapItem list" where
  "offer F L k item heap =
     (if length heap < k then bh_push item heap
      else case bh_pop (heap_item_cmp F) (L heap) of
             None \<Rightarrow> heap
           | Some (worst, rest) \<Rightarrow> if f_lt F (hi_distance item) (hi_distance worst) then bh_push item rest else heap)"

fun scan_candidates ::
  "('f, 'd) vec_ops \<Rightarrow> 'f item_order \<Rightarrow> VectorRecord \<Rightarrow> usize \<Rightarrow> Metric \<Rightarrow> (bytes \<times> bytes) list \<Rightarrow> 'f VectorHeapItem list \<Rightarrow>
   'f VectorHeapItem list res" where
  "scan_candidates N L query k metric [] heap = Inr heap"
| "scan_candidates N L query k metric ((key, val) # rest) heap =
     and_then (map_err (CorruptData ''decode candidate'') (decode_vector_record val)) (\<lambda>candidate.
       if vr_dims candidate \<noteq> vr_dims query \<or> vr_dtype candidate \<noteq> vr_dtype query
       then scan_candidates N L query k metric rest heap
       else
         and_then (distance N (vr_data query) (vr_data candidate) (vr_dtype query) metric) (\<lambda>dist.
           scan_candidates N L query k metric rest
             (offer (vo_f32 N) L k \<lparr> hi_distance = dist, hi_key = key \<rparr> heap)))"

definition flat_vector_search ::
  "ext \<Rightarrow> ('f, 'd) vec_ops \<Rightarrow> 'f item_order \<Rightarrow> est \<Rightarrow> bytes \<Rightarrow> VectorRecord \<Rightarrow> usize \<Rightarrow> Metric \<Rightarrow>
   'f VectorSearchResult list res" where
  "flat_vector_search X N L st ns query k metric =
     (if k = 0 then Inr []
      else
        and_then (Engine_range X st (vector_namespace ns) [] (replicate 1024 0xFF)) (\<lambda>all_keys.
        and_then (scan_candidates N L query k metric all_keys []) (\<lambda>heap.
          Inr (sort_by (\<lambda>a b. total_cmp_f32 (vo_f32 N) (vs_distance a) (vs_distance b))
            (map (\<lambda>item. \<lparr> vs_key = hi_key item, vs_distance = hi_distance item \<rparr>) (L heap))))))"

record VectorPage =
  vp_records :: "(bytes \<times> VectorRecord) list"
  vp_next_key :: "bytes option"

fun decode_records :: "(bytes \<times> bytes) list \<Rightarrow> (bytes \<times> VectorRecord) list res" where
  "decode_records [] = Inr []"
| "decode_records ((key, val) # rest) =
     and_then (map_err (CorruptData ''decode vector record'') (decode_vector_record val)) (\<lambda>r.
     and_then (decode_records rest) (\<lambda>rs. Inr ((key, r) # rs)))"

definition vector_page :: "ext \<Rightarrow> est \<Rightarrow> bytes \<Rightarrow> bytes option \<Rightarrow> usize \<Rightarrow> VectorPage res" where
  "vector_page X st ns cursor page_size =
     (if page_size = 0 then Inr \<lparr> vp_records = [], vp_next_key = None \<rparr>
      else
        let start = (case cursor of Some c \<Rightarrow> c @ [0] | None \<Rightarrow> []);
            budget = \<lparr> max_items = Some page_size, max_bytes = None \<rparr>
        in and_then (Engine_range_budgeted X st (vector_namespace ns) start (replicate 32 0xFF) budget) (\<lambda>scan.
           let last_key = (if bs_items scan = [] then None else Some (fst (last (bs_items scan))))
           in and_then (decode_records (bs_items scan)) (\<lambda>records.
                Inr \<lparr> vp_records = records, vp_next_key = (if bs_truncated scan then last_key else None) \<rparr>)))"

section \<open>Operations on vectors\<close>

definition vector_put :: "ext \<Rightarrow> Clock \<Rightarrow> bytes \<Rightarrow> bytes \<Rightarrow> u16 \<Rightarrow> Dtype \<Rightarrow> bytes \<Rightarrow> est \<Rightarrow> est \<times> Lsn res" where
  "vector_put X T ns key dims dtype vec st =
     (let expected = unat dims * element_size dtype
      in if length vec \<noteq> expected then (st, Inl (DimensionMismatch expected (length vec)))
         else case encode_vector_record \<lparr> vr_dims = dims, vr_dtype = dtype, vr_data = vec \<rparr> of
                Inl e \<Rightarrow> (st, Inl e)
              | Inr encoded \<Rightarrow> Engine_put X T (vector_namespace ns) key encoded st)"

definition vector_get :: "ext \<Rightarrow> est \<Rightarrow> bytes \<Rightarrow> bytes \<Rightarrow> VectorRecord option res" where
  "vector_get X st ns key =
     and_then (Engine_get X st (vector_namespace ns) key) (\<lambda>r.
       case r of
         None \<Rightarrow> Inr None
       | Some bs \<Rightarrow> and_then (map_err (CorruptData ''decode vector'') (decode_vector_record bs)) (\<lambda>v. Inr (Some v)))"

definition vector_delete :: "ext \<Rightarrow> Clock \<Rightarrow> bytes \<Rightarrow> bytes \<Rightarrow> est \<Rightarrow> est \<times> Lsn res" where
  "vector_delete X T ns key st = Engine_delete X T (vector_namespace ns) key st"

section \<open>The index of a namespace\<close>

record VectorState =
  ve_engine :: est
  ve_indices :: "(bytes \<times> HnswIndex) list"
  ve_files :: dir

definition sidecar_name :: "bytes \<Rightarrow> string" where
  "sidecar_name ns = ns_to_slug ns @ ''.hnsw''"

text \<open>\<open>with_extension\<close> appends to a name that starts with its only dot.\<close>

definition stamp_name :: "bytes \<Rightarrow> string" where
  "stamp_name ns = (if ns = [] then ''.hnsw.stamp'' else ns_to_slug ns @ ''.stamp'')"

fun index_records ::
  "('f, 'd) vec_ops \<Rightarrow> ('f Candidate list \<Rightarrow> 'f Candidate list) \<Rightarrow> (bytes \<times> bytes) list \<Rightarrow> HnswIndex \<Rightarrow> HnswIndex res" where
  "index_records N Q [] ix = Inr ix"
| "index_records N Q ((key, val) # rest) ix =
     and_then (decode_vector_record val) (\<lambda>r.
       case hnsw_insert N Q key (vr_data r) ix of
         (_, Inl e) \<Rightarrow> Inl e
       | (ix, Inr _) \<Rightarrow> index_records N Q rest ix)"

definition build_vector_index ::
  "ext \<Rightarrow> ('f, 'd) vec_ops \<Rightarrow> ('f Candidate list \<Rightarrow> 'f Candidate list) \<Rightarrow> bytes \<Rightarrow> VectorState \<Rightarrow> VectorState \<times> unit res" where
  "build_vector_index X N Q ns st =
     (case Engine_prefix X (ve_engine st) (vector_namespace ns) [] of
        Inl e \<Rightarrow> (st, Inl e)
      | Inr [] \<Rightarrow> (st, Inr ())
      | Inr ((k0, v0) # rest) \<Rightarrow>
          (case map_err (CorruptData ''decode vector'') (decode_vector_record v0) of
             Inl e \<Rightarrow> (st, Inl e)
           | Inr first_rec \<Rightarrow>
               (case index_records N Q ((k0, v0) # rest)
                       (with_params 16 100 (HnswIndex_new (vr_dims first_rec) (vr_dtype first_rec) L2)) of
                  Inl e \<Rightarrow> (st, Inl e)
                | Inr index \<Rightarrow>
                    (st\<lparr>ve_files := fs_write (stamp_name ns) (range_merkle_root X (fst (ve_engine st)))
                          (fs_write (sidecar_name ns) (serialize_hnsw index) (ve_files st)),
                        ve_indices := AList.update ns index (ve_indices st)\<rparr>, Inr ()))))"

definition is_index_stale :: "ext \<Rightarrow> VectorState \<Rightarrow> bytes \<Rightarrow> bool" where
  "is_index_stale X st ns =
     (if \<not> fs_exists (ve_files st) (sidecar_name ns) then True
      else case fs_read (ve_files st) (stamp_name ns) of
             None \<Rightarrow> True
           | Some stamp \<Rightarrow> stamp \<noteq> range_merkle_root X (fst (ve_engine st)))"

text \<open>
  The part under the read lock decides only whether the part under the write lock is needed;
  nothing runs between them here, so the second check of the cache gives the same answer.
\<close>

definition load_index :: "ext \<Rightarrow> bytes \<Rightarrow> VectorState \<Rightarrow> VectorState \<times> HnswIndex option res" where
  "load_index X ns st =
     (case fs_read (ve_files st) (sidecar_name ns) of
        None \<Rightarrow> (st, Inr None)
      | Some bs \<Rightarrow>
          if length bs > unat (hnsw_max_ram_bytes (en_config (fst (ve_engine st)))) then (st, Inr None)
          else case deserialize_hnsw bs of
                 Inl e \<Rightarrow> (st, Inl e)
               | Inr index \<Rightarrow>
                   if is_index_stale X st ns then (st, Inr None)
                   else (st\<lparr>ve_indices := AList.update ns index (ve_indices st)\<rparr>, Inr (Some index)))"

definition get_vector_index :: "ext \<Rightarrow> bytes \<Rightarrow> VectorState \<Rightarrow> VectorState \<times> HnswIndex option res" where
  "get_vector_index X ns st =
     (case map_of (ve_indices st) ns of
        Some index \<Rightarrow>
          if \<not> is_index_stale X st ns then (st, Inr (Some index))
          else load_index X ns (st\<lparr>ve_indices := AList.delete ns (ve_indices st)\<rparr>)
      | None \<Rightarrow> if \<not> fs_exists (ve_files st) (sidecar_name ns) then (st, Inr None) else load_index X ns st)"

definition preload_vector_index :: "ext \<Rightarrow> bytes \<Rightarrow> VectorState \<Rightarrow> VectorState \<times> bool res" where
  "preload_vector_index X ns st =
     (case get_vector_index X ns st of
        (st, Inr (Some _)) \<Rightarrow> (st, Inr True)
      | (st, Inr None) \<Rightarrow> (st, Inr False)
      | (st, Inl e) \<Rightarrow> (st, Inl e))"

definition as_result :: "bytes \<times> 'f \<Rightarrow> 'f VectorSearchResult" where
  "as_result = (\<lambda>(key, dist). \<lparr> vs_key = key, vs_distance = dist \<rparr>)"

definition try_hnsw_search ::
  "ext \<Rightarrow> ('f, 'd) vec_ops \<Rightarrow> ('f Candidate list \<Rightarrow> 'f Candidate list) \<Rightarrow> bytes \<Rightarrow> VectorRecord \<Rightarrow> usize \<Rightarrow> VectorState \<Rightarrow>
   VectorState \<times> 'f VectorSearchResult list option res" where
  "try_hnsw_search X N Q ns query k st =
     (case get_vector_index X ns st of
        (st, Inl e) \<Rightarrow> (st, Inl e)
      | (st, Inr None) \<Rightarrow> (st, Inr None)
      | (st, Inr (Some index)) \<Rightarrow>
          if hx_dtype index = vr_dtype query \<and> hx_dims index = vr_dims query
          then (st, and_then (hnsw_search N Q index (vr_data query) k 50) (\<lambda>out. Inr (Some (map as_result out))))
          else (st, Inr None))"

text \<open>The three methods that search repeat the same steps before they fall back to the flat scan.\<close>

definition Engine_vector_search ::
  "ext \<Rightarrow> ('f, 'd) vec_ops \<Rightarrow> ('f Candidate list \<Rightarrow> 'f Candidate list) \<Rightarrow> 'f item_order \<Rightarrow> bytes \<Rightarrow> VectorRecord \<Rightarrow> usize \<Rightarrow> Metric \<Rightarrow>
   VectorState \<Rightarrow> VectorState \<times> 'f VectorSearchResult list res" where
  "Engine_vector_search X N Q L ns query k metric st =
     (case try_hnsw_search X N Q ns query k st of
        (st, Inl e) \<Rightarrow> (st, Inl e)
      | (st, Inr (Some results)) \<Rightarrow> (st, Inr results)
      | (st, Inr None) \<Rightarrow> (st, flat_vector_search X N L (ve_engine st) ns query k metric))"

definition vector_search_with_stats ::
  "ext \<Rightarrow> ('f, 'd) vec_ops \<Rightarrow> ('f Candidate list \<Rightarrow> 'f Candidate list) \<Rightarrow> 'f item_order \<Rightarrow> bytes \<Rightarrow> VectorRecord \<Rightarrow> usize \<Rightarrow> Metric \<Rightarrow>
   VectorState \<Rightarrow> VectorState \<times> ('f VectorSearchResult list \<times> QueryStats) res" where
  "vector_search_with_stats X N Q L ns query k metric st =
     (case try_hnsw_search X N Q ns query k st of
        (st, Inl e) \<Rightarrow> (st, Inl e)
      | (st, Inr (Some results)) \<Rightarrow>
          (st, Inr (results, \<lparr> segments_scanned = 0,
             bytes_scanned = (\<Sum>r \<leftarrow> results. word_of_nat (length (vs_key r)) + word_of_nat (length (vr_data query))),
             items_examined = word_of_nat (length results) \<rparr>))
      | (st, Inr None) \<Rightarrow>
          (st, and_then (Engine_prefix X (ve_engine st) (vector_namespace ns) []) (\<lambda>all.
               and_then (flat_vector_search X N L (ve_engine st) ns query k metric) (\<lambda>results.
                 Inr (results, \<lparr> segments_scanned = 1,
                   bytes_scanned = (\<Sum>(k, v) \<leftarrow> all. word_of_nat (length k) + word_of_nat (length v)),
                   items_examined = word_of_nat (length all) \<rparr>)))))"

definition vector_count :: "VectorState \<Rightarrow> bytes \<Rightarrow> u64 option" where
  "vector_count st ns = map_option (\<lambda>index. word_of_nat (length (hx_nodes index))) (map_of (ve_indices st) ns)"

end
