(* ===== verification/Tokio.thy ===== *)
theory Tokio
  imports VectorSearch EngineScan
begin

text \<open>
  The asynchronous engine, \<open>edgestore-tokio/src/lib.rs\<close>. Every method runs one closure under the read
  or the write lock on a thread of its own, so it is one atomic step on the shared engine; only
  \<open>flush_to_segments\<close> takes the lock twice and writes the segment in between without it. Its
  three phases are steps of their own, and \<open>async_step\<close> interleaves them with the other methods.
  \<open>metrics\<close> is left out; the \<open>fsync\<close> of \<open>flush\<close> has no effect on the modelled directory.
\<close>

section \<open>The wrapper\<close>

record AsyncEngine =
  ae_inner :: VectorState

abbreviation inner :: "AsyncEngine \<Rightarrow> est" where
  "inner A \<equiv> ve_engine (ae_inner A)"

text \<open>A closure that panics fails the task, which the caller sees as an I/O error.\<close>

definition spawned :: "'a res \<Rightarrow> 'a res" where
  "spawned r = (case r of Inl (Panic _) \<Rightarrow> Inl (Io OtherKind) | _ \<Rightarrow> r)"

definition run_read :: "(est \<Rightarrow> 'a res) \<Rightarrow> AsyncEngine \<Rightarrow> 'a res" where
  "run_read f A = spawned (f (inner A))"

text \<open>The reads that may fill the cache of vector indices behind its own lock.\<close>

definition run_indexed :: "(VectorState \<Rightarrow> VectorState \<times> 'a res) \<Rightarrow> AsyncEngine \<Rightarrow> AsyncEngine \<times> 'a res" where
  "run_indexed f A = (case f (ae_inner A) of (st, r) \<Rightarrow> (A\<lparr>ae_inner := st\<rparr>, spawned r))"

definition run_write :: "(est \<Rightarrow> est \<times> 'a res) \<Rightarrow> AsyncEngine \<Rightarrow> AsyncEngine \<times> 'a res" where
  "run_write f A = (case f (inner A) of (e, r) \<Rightarrow> (A\<lparr>ae_inner := (ae_inner A)\<lparr>ve_engine := e\<rparr>\<rparr>, spawned r))"

definition AsyncEngine_open :: "ext \<Rightarrow> EdgestoreConfig \<Rightarrow> Clock \<Rightarrow> bool \<Rightarrow> dir \<Rightarrow> dir \<Rightarrow> AsyncEngine res" where
  "AsyncEngine_open X config T busy d files =
     spawned (and_then (Engine_open X config T busy d) (\<lambda>engine.
       Inr \<lparr> ae_inner = \<lparr> ve_engine = engine, ve_indices = [], ve_files = files \<rparr> \<rparr>))"

definition AsyncEngine_open_readonly :: "ext \<Rightarrow> EdgestoreConfig \<Rightarrow> Clock \<Rightarrow> bool \<Rightarrow> dir \<Rightarrow> dir \<Rightarrow> AsyncEngine res" where
  "AsyncEngine_open_readonly X config T busy d files =
     spawned (and_then (Engine_open_readonly X config T busy d) (\<lambda>engine.
       Inr \<lparr> ae_inner = \<lparr> ve_engine = engine, ve_indices = [], ve_files = files \<rparr> \<rparr>))"

section \<open>Methods under one lock\<close>

definition async_get :: "ext \<Rightarrow> bytes \<Rightarrow> bytes \<Rightarrow> AsyncEngine \<Rightarrow> bytes option res" where
  "async_get X ns key = run_read (\<lambda>e. Engine_get X e ns key)"

definition async_put :: "ext \<Rightarrow> Clock \<Rightarrow> bytes \<Rightarrow> bytes \<Rightarrow> bytes \<Rightarrow> AsyncEngine \<Rightarrow> AsyncEngine \<times> Lsn res" where
  "async_put X T ns key val = run_write (Engine_put X T ns key val)"

definition async_put_with_ttl ::
  "ext \<Rightarrow> Clock \<Rightarrow> bytes \<Rightarrow> bytes \<Rightarrow> bytes \<Rightarrow> u32 \<Rightarrow> AsyncEngine \<Rightarrow> AsyncEngine \<times> Lsn res" where
  "async_put_with_ttl X T ns key val ttl_secs = run_write (Engine_put_with_ttl X T ns key val ttl_secs)"

definition async_delete :: "ext \<Rightarrow> Clock \<Rightarrow> bytes \<Rightarrow> bytes \<Rightarrow> AsyncEngine \<Rightarrow> AsyncEngine \<times> Lsn res" where
  "async_delete X T ns key = run_write (Engine_delete X T ns key)"

definition async_prefix :: "ext \<Rightarrow> bytes \<Rightarrow> bytes \<Rightarrow> AsyncEngine \<Rightarrow> (bytes \<times> bytes) list res" where
  "async_prefix X ns prefix = run_read (\<lambda>e. Engine_prefix X e ns prefix)"

definition async_range :: "ext \<Rightarrow> bytes \<Rightarrow> bytes \<Rightarrow> bytes \<Rightarrow> AsyncEngine \<Rightarrow> (bytes \<times> bytes) list res" where
  "async_range X ns start end = run_read (\<lambda>e. Engine_range X e ns start end)"

definition async_range_page ::
  "ext \<Rightarrow> bytes \<Rightarrow> bytes \<Rightarrow> bytes \<Rightarrow> bytes option \<Rightarrow> usize \<Rightarrow> AsyncEngine \<Rightarrow> RangePage res" where
  "async_range_page X ns start end cursor page_size = run_read (\<lambda>e. range_page X e ns start end cursor page_size)"

definition async_range_rev_page ::
  "ext \<Rightarrow> bytes \<Rightarrow> bytes \<Rightarrow> bytes \<Rightarrow> bytes option \<Rightarrow> usize \<Rightarrow> AsyncEngine \<Rightarrow> RangePage res" where
  "async_range_rev_page X ns start end cursor page_size = run_read (\<lambda>e. range_rev_page X e ns start end cursor page_size)"

definition async_range_with_stats ::
  "ext \<Rightarrow> bytes \<Rightarrow> bytes \<Rightarrow> bytes \<Rightarrow> AsyncEngine \<Rightarrow> ((bytes \<times> bytes) list \<times> QueryStats) res" where
  "async_range_with_stats X ns start end = run_read (\<lambda>e. Engine_range_with_stats X e ns start end)"

definition async_range_budgeted ::
  "ext \<Rightarrow> bytes \<Rightarrow> bytes \<Rightarrow> bytes \<Rightarrow> ScanBudget \<Rightarrow> AsyncEngine \<Rightarrow> (bytes \<times> bytes) BudgetedScan res" where
  "async_range_budgeted X ns start end budget = run_read (\<lambda>e. Engine_range_budgeted X e ns start end budget)"

definition async_prefix_with_stats ::
  "ext \<Rightarrow> bytes \<Rightarrow> bytes \<Rightarrow> AsyncEngine \<Rightarrow> ((bytes \<times> bytes) list \<times> QueryStats) res" where
  "async_prefix_with_stats X ns prefix = run_read (\<lambda>e. Engine_prefix_with_stats X e ns prefix)"

definition async_prefix_budgeted ::
  "ext \<Rightarrow> bytes \<Rightarrow> bytes \<Rightarrow> ScanBudget \<Rightarrow> AsyncEngine \<Rightarrow> (bytes \<times> bytes) BudgetedScan res" where
  "async_prefix_budgeted X ns prefix budget = run_read (\<lambda>e. Engine_prefix_budgeted X e ns prefix budget)"

definition async_vector_put ::
  "ext \<Rightarrow> Clock \<Rightarrow> bytes \<Rightarrow> bytes \<Rightarrow> u16 \<Rightarrow> Dtype \<Rightarrow> bytes \<Rightarrow> AsyncEngine \<Rightarrow> AsyncEngine \<times> Lsn res" where
  "async_vector_put X T ns key dims dtype vec = run_write (vector_put X T ns key dims dtype vec)"

definition async_vector_get :: "ext \<Rightarrow> bytes \<Rightarrow> bytes \<Rightarrow> AsyncEngine \<Rightarrow> VectorRecord option res" where
  "async_vector_get X ns key = run_read (\<lambda>e. vector_get X e ns key)"

definition async_vector_delete :: "ext \<Rightarrow> Clock \<Rightarrow> bytes \<Rightarrow> bytes \<Rightarrow> AsyncEngine \<Rightarrow> AsyncEngine \<times> Lsn res" where
  "async_vector_delete X T ns key = run_write (vector_delete X T ns key)"

definition async_vector_search ::
  "ext \<Rightarrow> ('f, 'd) vec_ops \<Rightarrow> ('f Candidate list \<Rightarrow> 'f Candidate list) \<Rightarrow> 'f item_order \<Rightarrow> bytes \<Rightarrow> VectorRecord \<Rightarrow> usize \<Rightarrow> Metric \<Rightarrow>
   AsyncEngine \<Rightarrow> AsyncEngine \<times> 'f VectorSearchResult list res" where
  "async_vector_search X N Q L ns query k metric A =
     (if k = 0 then (A, Inr []) else run_indexed (Engine_vector_search X N Q L ns query k metric) A)"

definition async_build_vector_index ::
  "ext \<Rightarrow> ('f, 'd) vec_ops \<Rightarrow> ('f Candidate list \<Rightarrow> 'f Candidate list) \<Rightarrow> bytes \<Rightarrow> AsyncEngine \<Rightarrow> AsyncEngine \<times> unit res" where
  "async_build_vector_index X N Q ns = run_indexed (build_vector_index X N Q ns)"

definition async_preload_vector_index :: "ext \<Rightarrow> bytes \<Rightarrow> AsyncEngine \<Rightarrow> AsyncEngine \<times> bool res" where
  "async_preload_vector_index X ns = run_indexed (preload_vector_index X ns)"

definition async_export_manifest :: "AsyncEngine \<Rightarrow> SegmentRef list res" where
  "async_export_manifest = run_read (\<lambda>(E, d). Inr (export_manifest E))"

definition async_import_segment :: "ext \<Rightarrow> Clock \<Rightarrow> bytes \<Rightarrow> bytes \<Rightarrow> AsyncEngine \<Rightarrow> AsyncEngine \<times> ImportResult res" where
  "async_import_segment X T data expected_hash = run_write (import_segment X T data expected_hash)"

definition unwrap_or :: "'a \<Rightarrow> 'a res \<Rightarrow> 'a" where
  "unwrap_or x r = (case r of Inl _ \<Rightarrow> x | Inr v \<Rightarrow> v)"

definition async_confirmed_lsn :: "AsyncEngine \<Rightarrow> u64" where
  "async_confirmed_lsn A = unwrap_or 0 (run_read (\<lambda>(E, d). Inr (confirmed_lsn E)) A)"

definition async_current_lsn :: "AsyncEngine \<Rightarrow> u64" where
  "async_current_lsn A = unwrap_or 0 (run_read (\<lambda>(E, d). Inr (current_lsn E)) A)"

definition async_wal_segment_count :: "AsyncEngine \<Rightarrow> usize" where
  "async_wal_segment_count A = unwrap_or 0 (run_read (\<lambda>(E, d). Inr (wal_segment_count d)) A)"

definition async_pending_wal_bytes :: "AsyncEngine \<Rightarrow> u64" where
  "async_pending_wal_bytes A = unwrap_or 0 (run_read (\<lambda>(E, d). Inr (pending_wal_bytes E)) A)"

definition async_write_token :: "AsyncEngine \<Rightarrow> u64" where
  "async_write_token A = unwrap_or 0 (run_read (\<lambda>(E, d). Inr (write_token E)) A)"

definition async_set_write_token :: "u64 \<Rightarrow> AsyncEngine \<Rightarrow> AsyncEngine \<times> unit res" where
  "async_set_write_token token = run_write (\<lambda>st. (set_write_token token st, Inr ()))"

definition async_flush :: "AsyncEngine \<Rightarrow> AsyncEngine \<times> unit res" where
  "async_flush = run_write (\<lambda>st. (st, Inr ()))"

definition async_compact_once ::
  "ext \<Rightarrow> Clock \<Rightarrow> (SegmentId \<Rightarrow> i64) \<Rightarrow> (i64 list \<Rightarrow> i64 list) \<Rightarrow> AsyncEngine \<Rightarrow> AsyncEngine \<times> CompactionStats res" where
  "async_compact_once X T clock hash_order = run_write (compact_once X T clock hash_order)"

section \<open>Flushing in three phases\<close>

definition flush_begin :: "AsyncEngine \<Rightarrow> AsyncEngine \<times> FlushWork res" where
  "flush_begin = run_write (\<lambda>(E, d).
     case begin_flush E of
       (E1, None) \<Rightarrow> ((E1, d), Inl (SegmentCorrupt ''memtable is empty''))
     | (E1, Some work) \<Rightarrow> ((E1, d), Inr work))"

definition flush_write :: "ext \<Rightarrow> Clock \<Rightarrow> FlushWork \<Rightarrow> AsyncEngine \<Rightarrow> AsyncEngine \<times> SegmentMeta res" where
  "flush_write X T work = run_write (\<lambda>(E, d).
     case FlushWork_execute X (ck_flush T) work d of
       Inl e \<Rightarrow> ((E, d), Inl e)
     | Inr (meta, d1) \<Rightarrow> ((E, d1), Inr meta))"

definition flush_register :: "ext \<Rightarrow> SegmentMeta \<Rightarrow> u64 \<Rightarrow> AsyncEngine \<Rightarrow> AsyncEngine \<times> SegmentMeta res" where
  "flush_register X meta flushed_max_lsn = run_write (\<lambda>st.
     st_then (finalize_flush X meta flushed_max_lsn st) (\<lambda>st _. (st, Inr meta)))"

definition async_flush_to_segments :: "ext \<Rightarrow> Clock \<Rightarrow> AsyncEngine \<Rightarrow> AsyncEngine \<times> SegmentMeta res" where
  "async_flush_to_segments X T A =
     st_then (flush_begin A) (\<lambda>A work.
     st_then (flush_write X T work A) (\<lambda>A meta.
       flush_register X meta (fw_flushed_max_lsn work) A))"

section \<open>Interleaving\<close>

text \<open>
  A flush in progress: its memtable was copied, or its segment is written as well. An event is
  a put or delete, or a phase of the flush at a place of the list of flushes in progress.
\<close>

datatype flush_task = Copied FlushWork | Executed SegmentMeta u64

datatype async_event = Call Clock engine_op | Begin | Execute Clock nat | Finish nat

fun is_call :: "engine_op \<Rightarrow> bool" where
  "is_call (OpPut ns k v) = True"
| "is_call (OpPutTtl ns k v ttl) = True"
| "is_call (OpDelete ns k) = True"
| "is_call op = False"

type_synonym async_state = "AsyncEngine \<times> flush_task list"

inductive async_step :: "ext \<Rightarrow> async_state \<Rightarrow> async_event \<Rightarrow> async_state \<Rightarrow> bool" for X where
  step_call: "is_call op \<Longrightarrow> run_write (engine_exec X T op) A = (A', Inr ()) \<Longrightarrow> async_step X (A, fs) (Call T op) (A', fs)"
| step_begin: "flush_begin A = (A', Inr work) \<Longrightarrow> async_step X (A, fs) Begin (A', fs @ [Copied work])"
| step_execute: "i < length fs \<Longrightarrow> fs ! i = Copied work \<Longrightarrow> flush_write X T work A = (A', Inr meta) \<Longrightarrow>
    async_step X (A, fs) (Execute T i) (A', fs[i := Executed meta (fw_flushed_max_lsn work)])"
| step_finish: "i < length fs \<Longrightarrow> fs ! i = Executed meta l \<Longrightarrow> flush_register X meta l A = (A', Inr meta) \<Longrightarrow>
    async_step X (A, fs) (Finish i) (A', take i fs @ drop (Suc i) fs)"

end
