(* ===== verification/VectorFacts.thy ===== *)
theory VectorFacts
  imports VectorSearch
begin

text \<open>
  Vectors on the engine: what is put can be got, the flat scan returns the nearest vectors, an
  index reloaded from its sidecar answers as the cached one; and two cases in which a search
  does not see what it should.
\<close>

section \<open>Storing vectors\<close>

definition vec_ns_ok :: "bytes \<Rightarrow> bool" where
  "vec_ns_ok ns \<longleftrightarrow> length (vector_namespace ns) < U16_MAX"

definition encoded_vector :: "VectorRecord \<Rightarrow> bytes" where
  "encoded_vector r = u16_be (vr_dims r) @ [dtype_byte (vr_dtype r)] @ vr_data r"

lemma encode_vector_ok:
  "length (vr_data r) = unat (vr_dims r) * element_size (vr_dtype r) \<Longrightarrow> encode_vector_record r = Inr (encoded_vector r)"
  by (simp add: encode_vector_record_def encoded_vector_def)

lemma decode_encoded_vector:
  "length (vr_data r) = unat (vr_dims r) * element_size (vr_dtype r) \<Longrightarrow> decode_vector_record (encoded_vector r) = Inr r"
  using decode_encode_vector [of r] encode_vector_ok [of r] by auto

definition vector_view :: "ext \<Rightarrow> est \<Rightarrow> bytes \<Rightarrow> bytes \<Rightarrow> VectorRecord option" where
  "vector_view X st ns key = (case engine_contents X st (vector_namespace ns, key) of
     None \<Rightarrow> None | Some bs \<Rightarrow> (case decode_vector_record bs of Inl _ \<Rightarrow> None | Inr r \<Rightarrow> Some r))"

definition all_vectors_ok :: "ext \<Rightarrow> est \<Rightarrow> bytes \<Rightarrow> bool" where
  "all_vectors_ok X st ns \<longleftrightarrow>
     (\<forall>key bs. engine_contents X st (vector_namespace ns, key) = Some bs \<longrightarrow> (\<exists>r. decode_vector_record bs = Inr r))"

lemma ns_ok_vec: "vec_ns_ok ns \<Longrightarrow> ns_ok (vector_namespace ns)"
  by (simp add: vec_ns_ok_def ns_ok_def)

lemma vector_get_view:
  assumes "engine_ok X st" "vec_ns_ok ns" "all_vectors_ok X st ns"
  shows "vector_get X st ns key = Inr (vector_view X st ns key)"
proof (cases "engine_contents X st (vector_namespace ns, key)")
  case None
  then show ?thesis using engine_get_contents [OF assms(1) ns_ok_vec [OF assms(2)]]
    by (simp add: vector_get_def vector_view_def)
next
  case (Some bs)
  obtain r where "decode_vector_record bs = Inr r" using assms(3) Some unfolding all_vectors_ok_def by blast
  then show ?thesis using Some engine_get_contents [OF assms(1) ns_ok_vec [OF assms(2)]]
    by (simp add: vector_get_def vector_view_def map_err_def)
qed

lemma put_vector_contents:
  assumes "engine_ok X st" "vec_ns_ok ns" "vector_put X T ns key dims t vec st = (st', Inr lsn)"
    and "engine_can_put X T (vector_namespace ns) key (encoded_vector \<lparr> vr_dims = dims, vr_dtype = t, vr_data = vec \<rparr>) st"
    and "engine_room 1 st"
  shows "engine_ok X st' \<and> length vec = unat dims * element_size t \<and> engine_contents X st' =
     (engine_contents X st)((vector_namespace ns, key) \<mapsto> encoded_vector \<lparr> vr_dims = dims, vr_dtype = t, vr_data = vec \<rparr>)"
proof -
  let ?r = "\<lparr> vr_dims = dims, vr_dtype = t, vr_data = vec \<rparr>"
  have len: "length vec = unat dims * element_size t" using assms(3) by (simp add: vector_put_def Let_def split: if_splits)
  then have p: "Engine_put X T (vector_namespace ns) key (encoded_vector ?r) st = (st', Inr lsn)"
    using assms(3) by (simp add: vector_put_def encode_vector_ok)
  have "engine_exec X T (OpPut (vector_namespace ns) key (encoded_vector ?r)) st = (st', Inr ())" using p by (simp add: completed_def)
  moreover have "op_fits X T (OpPut (vector_namespace ns) key (encoded_vector ?r)) st" using assms(4) by (simp add: engine_can_put_def)
  moreover have "engine_room (Suc 0) st" using assms(5) by simp
  ultimately show ?thesis
    using engine_write_contents [OF assms(1), of T _ st' 0 "vector_namespace ns" key "encoded_vector ?r"] ns_ok_vec [OF assms(2)] len by blast
qed

lemma new_db_empty: "engine_contents sample_ext new_db = Map.empty"
proof -
  have "engine_contents sample_ext new_db (ns, k) = None" for ns k
  proof (cases "ns_ok ns")
    case True
    have "Engine_get sample_ext (fst new_db, snd new_db) ns k = Inr (visible (view (en_memtable (fst new_db)) [] (enc ns k)))"
      by (rule engine_get_view [OF sample_laws(2) new_db_inv True])
    then show ?thesis by (simp add: engine_contents_def view_def visible_def new_db_def)
  qed (rule engine_contents_not_ok)
  then show ?thesis by auto
qed

lemma sample_vector_put:
  assumes "length key < 1000"
  shows "\<exists>st lsn. vector_put sample_ext sample_clock [110] key 1 I8 [5] new_db = (st, Inr lsn) \<and>
     en_segment_store (fst st) = en_segment_store (fst new_db) \<and>
     engine_can_put sample_ext sample_clock (vector_namespace [110]) key (encoded_vector \<lparr> vr_dims = 1, vr_dtype = I8, vr_data = [5] \<rparr>) new_db"
proof -
  let ?ns = "vector_namespace [110]" and ?v = "encoded_vector \<lparr> vr_dims = 1, vr_dtype = I8, vr_data = [5] \<rparr>" and ?T = sample_clock
  let ?r = "put_record sample_ext ?T ?ns key ?v 0 (en_lsn_counter (fst new_db) + 1)"
  have c0: "en_config (fst new_db) = EdgestoreConfig_new" "en_lsn_counter (fst new_db) = 0" "en_memtable (fst new_db) = []"
    by (simp_all add: new_db_def)
  have len: "?ns \<noteq> []" "length ?ns = 8" "length ?v < 1000" by (simp_all add: vector_namespace_def lit_def encoded_vector_def)
  then have ns: "ns_ok ?ns" by (simp add: ns_ok_def U16_MAX_def)
  have nf: "\<not> flush_due (fst new_db) [x]" for x
    by (simp add: flush_due_def c0 btree_len_def AVG_ENTRY_SIZE_ESTIMATE_def EdgestoreConfig_new_def)
  have "op_ready sample_ext ?T (OpPut ?ns key ?v) (fst new_db)"
    using sample_frames(1) [of ?ns key ?v] assms len nf ns by (simp add: Let_def c0 EdgestoreConfig_new_def)
  from engine_op_returns [OF sample_laws(2,5,4) new_db_durable new_db_names this]
  have fits: "op_fits sample_ext ?T (OpPut ?ns key ?v) new_db" by auto
  have "frame_ok sample_ext ?r" using sample_frames(1) [of ?ns key ?v] assms len by simp
  then obtain E1 d1 where l: "logged sample_ext ?T ?r (fst new_db, snd new_db) = ((E1, d1), Inr (r_lsn ?r))"
    using logged_durable [OF new_db_durable new_db_names, of sample_ext ?r ?T] by (auto simp: put_record_def c0)
  note sp = logged_spec [OF l new_db_inv]
  have E1: "en_memtable E1 = [(fst (record_kv ?r), snd (record_kv ?r))]" "en_config E1 = EdgestoreConfig_new"
    "en_segment_store E1 = en_segment_store (fst new_db)"
    using sp by (simp_all add: c0)
  then have "\<not> flush_due E1 (en_memtable E1)" using nf by (simp add: flush_due_def c0)
  then have "Engine_put sample_ext ?T ?ns key ?v new_db = ((E1, d1), Inr (r_lsn ?r))"
    using l ns write_entry_logged [OF ns, of sample_ext ?T key ?v 0 "fst new_db" "snd new_db"]
    by (simp add: Engine_put_def case_prod_beta ns_ok_def c0 EdgestoreConfig_new_def flush_due_def not_less [symmetric])
  with fits E1(3) show ?thesis by (simp add: vector_put_def encode_vector_ok engine_can_put_def)
qed

lemma vector_get_encoded:
  assumes "engine_ok X st" "vec_ns_ok ns" "engine_contents X st (vector_namespace ns, key) = Some (encoded_vector r)"
    and "length (vr_data r) = unat (vr_dims r) * element_size (vr_dtype r)"
  shows "vector_get X st ns key = Inr (Some r)"
  using engine_get_contents [OF assms(1) ns_ok_vec [OF assms(2)], of key] assms(3,4)
  by (simp add: vector_get_def map_err_def decode_encoded_vector)

text \<open>
  A vector that was put is read back, with its shape and its bytes, and all other vectors of all
  namespaces are as before; the database stays consistent.
\<close>

theorem vector_get_after_put:
  assumes "engine_ok X st" "vec_ns_ok ns" "vector_put X T ns key dims t vec st = (st', Inr lsn)"
    and "engine_can_put X T (vector_namespace ns) key (encoded_vector \<lparr> vr_dims = dims, vr_dtype = t, vr_data = vec \<rparr>) st"
    and "engine_room 1 st"
  shows "engine_ok X st' \<and> vector_get X st' ns key = Inr (Some \<lparr> vr_dims = dims, vr_dtype = t, vr_data = vec \<rparr>) \<and>
     (\<forall>ns' key'. vec_ns_ok ns' \<longrightarrow> (ns', key') \<noteq> (ns, key) \<longrightarrow> vector_get X st' ns' key' = vector_get X st ns' key')"
proof -
  let ?r = "\<lparr> vr_dims = dims, vr_dtype = t, vr_data = vec \<rparr>"
  have c: "engine_ok X st'" "length vec = unat dims * element_size t"
    "engine_contents X st' = (engine_contents X st)((vector_namespace ns, key) \<mapsto> encoded_vector ?r)"
    using put_vector_contents [OF assms] by blast+
  have "vector_get X st' ns key = Inr (Some ?r)"
    by (rule vector_get_encoded [OF c(1) assms(2)]) (simp_all add: c(2,3))
  moreover have "vector_get X st' ns' key' = vector_get X st ns' key'" if "vec_ns_ok ns'" "(ns', key') \<noteq> (ns, key)" for ns' key'
  proof -
    have "engine_contents X st' (vector_namespace ns', key') = engine_contents X st (vector_namespace ns', key')"
      unfolding c(3) using that(2) by (intro fun_upd_other) (auto simp: vector_namespace_def)
    then show ?thesis
      using engine_get_contents [OF c(1) ns_ok_vec [OF that(1)], of key'] engine_get_contents [OF assms(1) ns_ok_vec [OF that(1)], of key']
      by (simp only: vector_get_def)
  qed
  ultimately show ?thesis using c(1) by blast
qed

theorem vector_get_after_put_witness:
  "\<exists>st lsn. vector_put sample_ext sample_clock [110] [2] 1 I8 [5] new_db = (st, Inr lsn) \<and>
     vector_get sample_ext st [110] [2] = Inr (Some \<lparr> vr_dims = 1, vr_dtype = I8, vr_data = [5] \<rparr>)"
proof -
  obtain st lsn where p: "vector_put sample_ext sample_clock [110] [2] 1 I8 [5] new_db = (st, Inr lsn)"
    and f: "engine_can_put sample_ext sample_clock (vector_namespace [110]) [2] (encoded_vector \<lparr> vr_dims = 1, vr_dtype = I8, vr_data = [5] \<rparr>) new_db"
    using sample_vector_put [of "[2]"] by auto
  have "vec_ns_ok [110]" by (simp add: vec_ns_ok_def vector_namespace_def lit_def U16_MAX_def)
  from vector_get_after_put [OF sample_text_state(1) this p f] p show ?thesis by (simp add: engine_room_def new_db_def)
qed

section \<open>The flat scan returns the nearest vectors\<close>

definition top_k :: "'f f32_ops \<Rightarrow> nat \<Rightarrow> 'f VectorHeapItem list \<Rightarrow> 'f VectorHeapItem list \<Rightarrow> bool" where
  "top_k F k heap seen \<longleftrightarrow> (\<exists>rest. mset seen = mset heap + mset rest \<and> length heap = min k (length seen) \<and>
     (\<forall>h \<in> set heap. \<forall>r \<in> set rest. heap_item_cmp F h r \<noteq> Greater))"

lemma cmp_ok_item: "f32_ok F \<Longrightarrow> cmp_ok (heap_item_cmp F)"
  unfolding heap_item_cmp_def [abs_def] by (rule cmp_ok_image [OF cmp_ok_total_cmp])

lemma f_lt_cmp:
  assumes "\<not> f_is_nan F a" "\<not> f_is_nan F b" "f32_ok F"
  shows "f_lt F a b \<longleftrightarrow> total_cmp_f32 F a b = Less"
proof -
  from assms(3) obtain val :: "'a \<Rightarrow> int" where
    "\<forall>a b. f_partial_cmp F a b = (if f_is_nan F a \<or> f_is_nan F b then None else Some (compare_with val a b))"
    unfolding f32_ok_def by (elim exE)
  then have "f_partial_cmp F a b = Some (compare_with val a b)" by (simp add: assms(1,2))
  then show ?thesis using assms(1,2) by (simp add: f_lt_def total_cmp_f32_def)
qed

lemma offer_top_k:
  assumes "f32_ok F" "order_ok L" "k > 0" "top_k F k heap seen" "\<forall>x \<in> set (item # seen). \<not> f_is_nan F (hi_distance x)"
  shows "top_k F k (offer F L k item heap) (seen @ [item])"
proof -
  note co = cmp_ok_item [OF assms(1)]
  obtain rest where r: "mset seen = mset heap + mset rest" "length heap = min k (length seen)"
    "\<forall>h \<in> set heap. \<forall>r \<in> set rest. heap_item_cmp F h r \<noteq> Greater" using assms(4) unfolding top_k_def by blast
  have len: "length seen = length heap + length rest" using arg_cong [OF r(1), of size] by simp
  show ?thesis
  proof (cases "length heap < k")
    case True
    then have all: "length heap = length seen" using r(2) by (auto simp: min_def split: if_splits)
    then have "mset seen = mset heap" using r(1) len by simp
    then have "top_k F k (heap @ [item]) (seen @ [item])"
      unfolding top_k_def using True by (intro exI [of _ "[]"]) (simp add: all)
    then show ?thesis using True by (simp add: offer_def bh_push_def)
  next
    case False
    then have full: "length heap = k" "k \<le> length seen" using r(2) by (auto simp: min_def split: if_splits)
    have L: "mset (L heap) = mset heap" using assms(2) unfolding order_ok_def by blast
    have "L heap \<noteq> []" using arg_cong [OF L, of size] full(1) assms(3) by auto
    then obtain worst others where w: "bh_pop (heap_item_cmp F) (L heap) = Some (worst, others)"
      by (metis bh_pop_None option.exhaust surj_pair)
    have mh: "mset heap = add_mset worst (mset others)" using bh_pop_Some(3) [OF w] L by simp
    have sh: "set heap = insert worst (set others)" using mh by (metis set_mset_add_mset_insert set_mset_mset)
    have max: "heap_item_cmp F h worst \<noteq> Greater" if "h \<in> set heap" for h
      using bh_peek_greatest [OF co bh_pop_Some(1) [OF w]] that mset_eq_setD [OF L] by blast
    have sub: "set heap \<subseteq> set seen" using r(1) by (metis set_mset_mset set_mset_union Un_upper1)
    have nan: "\<not> f_is_nan F (hi_distance item)" "\<not> f_is_nan F (hi_distance worst)" using assms(5) sub sh by auto
    have lo: "length others + 1 = k" using arg_cong [OF mh, of size] full(1) by simp
    show ?thesis
    proof (cases "f_lt F (hi_distance item) (hi_distance worst)")
      case True
      then have iw: "heap_item_cmp F item worst \<noteq> Greater" using f_lt_cmp [OF nan assms(1)] by (simp add: heap_item_cmp_def)
      have "heap_item_cmp F h x \<noteq> Greater" if "h \<in> set (others @ [item])" "x \<in> set (worst # rest)" for h x
      proof -
        have hw: "heap_item_cmp F h worst \<noteq> Greater" using that(1) iw max sh by auto
        show ?thesis
        proof (cases "x = worst")
          case False
          then have "heap_item_cmp F worst x \<noteq> Greater" using that(2) r(3) sh by simp
          with hw show ?thesis by (rule cmp_ok_trans [OF co])
        qed (use hw in simp)
      qed
      moreover have "mset (seen @ [item]) = mset (others @ [item]) + mset (worst # rest)" using r(1) mh by simp
      moreover have "length (others @ [item]) = min k (length (seen @ [item]))" using lo full(2) by simp
      ultimately have "top_k F k (others @ [item]) (seen @ [item])" unfolding top_k_def by blast
      then show ?thesis using w True full(1) by (simp add: offer_def bh_push_def)
    next
      case False
      then have "heap_item_cmp F item worst \<noteq> Less" using f_lt_cmp [OF nan assms(1)] by (simp add: heap_item_cmp_def)
      then have wi: "heap_item_cmp F worst item \<noteq> Greater" using cmp_ok_flip [OF co, of worst item] by simp
      have "heap_item_cmp F h x \<noteq> Greater" if "h \<in> set heap" "x \<in> set (item # rest)" for h x
        using that r(3) cmp_ok_trans [OF co max [OF that(1)] wi] by auto
      moreover have "mset (seen @ [item]) = mset heap + mset (item # rest)" using r(1) by simp
      moreover have "length heap = min k (length (seen @ [item]))" using full by simp
      ultimately have "top_k F k heap (seen @ [item])" unfolding top_k_def by blast
      then show ?thesis using w False full(1) by (simp add: offer_def)
    qed
  qed
qed

lemma fold_offer_top_k:
  assumes "f32_ok F" "order_ok L" "k > 0" "\<forall>x \<in> set items. \<not> f_is_nan F (hi_distance x)"
  shows "top_k F k (fold (offer F L k) items []) items"
  using assms(4)
proof (induction items rule: rev_induct)
  case (snoc x xs)
  then show ?case using offer_top_k [OF assms(1-3), of "fold (offer F L k) xs []" xs x] by simp
qed (simp add: top_k_def)


definition scored :: "('f, 'd) vec_ops \<Rightarrow> VectorRecord \<Rightarrow> Metric \<Rightarrow> bytes \<Rightarrow> 'f option" where
  "scored N query metric val = (case decode_vector_record val of
     Inl _ \<Rightarrow> None
   | Inr c \<Rightarrow> if vr_dims c = vr_dims query \<and> vr_dtype c = vr_dtype query
       then Some (dist_of N (vr_data query) (vr_data c) (vr_dtype query) metric) else None)"

definition scored_items :: "('f, 'd) vec_ops \<Rightarrow> VectorRecord \<Rightarrow> Metric \<Rightarrow> (bytes \<times> bytes) list \<Rightarrow> 'f VectorHeapItem list" where
  "scored_items N query metric kvs = List.map_filter (\<lambda>(key, val).
     map_option (\<lambda>d. \<lparr> hi_distance = d, hi_key = key \<rparr>) (scored N query metric val)) kvs"

lemma scan_candidates_fold:
  assumes "length (vr_data query) = unat (vr_dims query) * element_size (vr_dtype query)"
    and "\<forall>(key, val) \<in> set kvs. \<exists>r. decode_vector_record val = Inr r"
  shows "scan_candidates N L query k metric kvs heap = Inr (fold (offer (vo_f32 N) L k) (scored_items N query metric kvs) heap)"
  using assms(2)
proof (induction kvs arbitrary: heap)
  case (Cons kv kvs)
  obtain key val where kv: "kv = (key, val)" by fastforce
  obtain c where c: "decode_vector_record val = Inr c" using Cons.prems kv by auto
  have IH: "scan_candidates N L query k metric kvs heap = Inr (fold (offer (vo_f32 N) L k) (scored_items N query metric kvs) heap)" for heap
    using Cons by simp
  show ?case
  proof (cases "vr_dims c = vr_dims query \<and> vr_dtype c = vr_dtype query")
    case True
    then have "distance N (vr_data query) (vr_data c) (vr_dtype query) metric = Inr (dist_of N (vr_data query) (vr_data c) (vr_dtype query) metric)"
      using decode_vector_inv [OF c] assms(1) by (intro distance_defined) auto
    with True c IH show ?thesis by (simp add: kv map_err_def scored_items_def scored_def List.map_filter_simps)
  next
    case False
    with c IH show ?thesis by (auto simp: kv map_err_def scored_items_def scored_def List.map_filter_simps)
  qed
qed (simp add: scored_items_def scored_def List.map_filter_simps)

lemma short_key_below: "length xs < n \<Longrightarrow> xs < replicate n (255 :: byte)"
proof (induction xs arbitrary: n)
  case (Cons x xs)
  obtain m where n: "n = Suc m" "length xs < m" using Cons.prems by (cases n) auto
  have "unat x < 256" using unsigned_less [of x] by simp
  then have "x \<le> 255" by (simp add: word_le_nat_alt)
  with Cons.IH [OF n(2)] show ?case by (auto simp: n(1) order_le_less)
qed (auto simp: neq_Nil_conv gr0_conv_Suc)

text \<open>The distance of the vector under a key, for keys of vectors with the shape of the query.\<close>

definition score :: "ext \<Rightarrow> ('f, 'd) vec_ops \<Rightarrow> est \<Rightarrow> bytes \<Rightarrow> VectorRecord \<Rightarrow> Metric \<Rightarrow> bytes \<rightharpoonup> 'f" where
  "score X N st ns query metric = (\<lambda>key. case vector_view X st ns key of
     None \<Rightarrow> None
   | Some c \<Rightarrow> if vr_dims c = vr_dims query \<and> vr_dtype c = vr_dtype query
       then Some (dist_of N (vr_data query) (vr_data c) (vr_dtype query) metric) else None)"

lemma score_scored: "score X N st ns query metric key =
   (case engine_contents X st (vector_namespace ns, key) of None \<Rightarrow> None | Some val \<Rightarrow> scored N query metric val)"
  by (auto simp: score_def vector_view_def scored_def split: option.splits sum.splits)

lemma scored_items_of:
  assumes "distinct (map fst kvs)"
    and "\<And>key val. (key, val) \<in> set kvs \<longleftrightarrow> engine_contents X st (vector_namespace ns, key) = Some val"
  shows "distinct (map hi_key (scored_items N query metric kvs))"
    and "i \<in> set (scored_items N query metric kvs) \<longleftrightarrow> score X N st ns query metric (hi_key i) = Some (hi_distance i)"
proof -
  have sub: "hi_key ` set (scored_items N query metric kvs) \<subseteq> fst ` set kvs" for kvs
    by (induction kvs) (auto simp: scored_items_def List.map_filter_simps split: option.splits)
  show "distinct (map hi_key (scored_items N query metric kvs))"
    using assms(1)
  proof (induction kvs)
    case (Cons kv kvs)
    then show ?case using sub [of kvs] by (cases kv) (auto simp: scored_items_def List.map_filter_simps split: option.splits)
  qed (simp add: scored_items_def List.map_filter_simps)
  have "i \<in> set (scored_items N query metric kvs) \<longleftrightarrow> (\<exists>val. (hi_key i, val) \<in> set kvs \<and> scored N query metric val = Some (hi_distance i))"
    by (cases i) (force simp: scored_items_def List.map_filter_def image_iff)
  then show "i \<in> set (scored_items N query metric kvs) \<longleftrightarrow> score X N st ns query metric (hi_key i) = Some (hi_distance i)"
    unfolding assms(2) by (auto simp: score_scored split: option.splits)
qed

definition nearest_results :: "('f, 'd) vec_ops \<Rightarrow> (bytes \<rightharpoonup> 'f) \<Rightarrow> nat \<Rightarrow> 'f VectorSearchResult list \<Rightarrow> bool" where
  "nearest_results N sc k out \<longleftrightarrow> distinct (map vs_key out) \<and> length out = min k (card (dom sc)) \<and>
     (\<forall>r \<in> set out. sc (vs_key r) = Some (vs_distance r)) \<and>
     sorted_wrt (\<lambda>a b. total_cmp_f32 (vo_f32 N) (vs_distance a) (vs_distance b) \<noteq> Greater) out \<and>
     (\<forall>r \<in> set out. \<forall>key d. sc key = Some d \<longrightarrow> key \<notin> vs_key ` set out \<longrightarrow> total_cmp_f32 (vo_f32 N) (vs_distance r) d \<noteq> Greater)"

lemma top_k_nearest:
  assumes "f32_ok (vo_f32 N)" "order_ok L" "top_k (vo_f32 N) k heap items" "distinct (map hi_key items)"
    and "\<And>i. i \<in> set items \<longleftrightarrow> sc (hi_key i) = Some (hi_distance i)"
  shows "nearest_results N sc k (sort_by (\<lambda>a b. total_cmp_f32 (vo_f32 N) (vs_distance a) (vs_distance b))
     (map (\<lambda>item. \<lparr> vs_key = hi_key item, vs_distance = hi_distance item \<rparr>) (L heap)))" (is "nearest_results _ _ _ (sort_by ?c ?rs)")
proof -
  let ?out = "sort_by ?c ?rs"
  obtain rest where r: "mset items = mset heap + mset rest" "length heap = min k (length items)"
    "\<forall>h \<in> set heap. \<forall>r \<in> set rest. heap_item_cmp (vo_f32 N) h r \<noteq> Greater" using assms(3) unfolding top_k_def by blast
  have L: "mset (L heap) = mset heap" using assms(2) unfolding order_ok_def by blast
  have co: "cmp_ok ?c" by (rule cmp_ok_image [OF cmp_ok_total_cmp [OF assms(1)]])
  have keys: "mset (map vs_key ?out) = mset (map hi_key heap)"
    by (simp add: L [symmetric] image_mset.compositionality comp_def)
  have "mset (map hi_key items) = mset (map hi_key heap) + mset (map hi_key rest)" using r(1) by simp
  then have d: "distinct (map hi_key (heap @ rest))"
    using assms(4) by (metis map_append mset_append mset_eq_imp_distinct_iff)
  have set: "set items = set heap \<union> set rest" using r(1) by (metis set_mset_mset set_mset_union)
  have sc: "sc key = Some d \<longleftrightarrow> \<lparr> hi_distance = d, hi_key = key \<rparr> \<in> set heap \<union> set rest" for key d
    using assms(5) [of "\<lparr> hi_distance = d, hi_key = key \<rparr>"] by (simp add: set)
  have mem: "x \<in> set ?out \<longleftrightarrow> \<lparr> hi_distance = vs_distance x, hi_key = vs_key x \<rparr> \<in> set heap" for x
  proof
    assume "x \<in> set ?out"
    then obtain i where i: "i \<in> set heap" "x = \<lparr> vs_key = hi_key i, vs_distance = hi_distance i \<rparr>" using mset_eq_setD [OF L] by auto
    have "\<lparr> hi_distance = vs_distance x, hi_key = vs_key x \<rparr> = i" unfolding i(2) by (cases i) simp
    with i(1) show "\<lparr> hi_distance = vs_distance x, hi_key = vs_key x \<rparr> \<in> set heap" by (simp only:)
  next
    assume "\<lparr> hi_distance = vs_distance x, hi_key = vs_key x \<rparr> \<in> set heap"
    then show "x \<in> set ?out" using mset_eq_setD [OF L] by (auto intro!: image_eqI [of x _ "\<lparr> hi_distance = vs_distance x, hi_key = vs_key x \<rparr>"])
  qed
  have "dom sc = hi_key ` set items"
    using assms(5) by (force simp: dom_def image_iff set sc)
  then have "card (dom sc) = length items" using distinct_card [OF assms(4)] by simp
  moreover have "length ?out = length heap" using arg_cong [OF L, of size] by simp
  ultimately have "length ?out = min k (card (dom sc))" using r(2) by simp
  moreover have "distinct (map vs_key ?out)" using mset_eq_imp_distinct_iff [OF keys] d by simp
  moreover have "\<forall>x \<in> set ?out. sc (vs_key x) = Some (vs_distance x)" unfolding sc using mem by blast
  moreover have "sorted_wrt (\<lambda>a b. ?c a b \<noteq> Greater) ?out" by (rule sorted_sort_cmp [OF co])
  moreover have "?c x \<lparr> vs_key = key, vs_distance = d \<rparr> \<noteq> Greater"
    if x: "x \<in> set ?out" and k: "sc key = Some d" "key \<notin> vs_key ` set ?out" for x key d
  proof -
    have "\<lparr> hi_distance = d, hi_key = key \<rparr> \<notin> set heap"
      using k(2) mem [of "\<lparr> vs_key = key, vs_distance = d \<rparr>"] by (auto simp: image_iff)
    then have "\<lparr> hi_distance = d, hi_key = key \<rparr> \<in> set rest" using k(1) unfolding sc by blast
    then show ?thesis using r(3) x mem [of x] by (fastforce simp: heap_item_cmp_def)
  qed
  ultimately show ?thesis unfolding nearest_results_def by simp
qed

text \<open>
  C16: The flat scan finds the nearest vectors. On a consistent database, for a well-formed query
  and \<open>k > 0\<close>, if every record decodes, keys are shorter than 1024 bytes and no distance is NaN, it
  returns \<open>k\<close> different keys of vectors with the shape of the query (all of them, if they are fewer),
  with their distances and sorted by distance, and no vector left out is nearer than one returned.
\<close>

theorem flat_search_nearest:
  assumes "engine_ok X st" "vec_ns_ok ns" "f32_ok (vo_f32 N)" "order_ok L" "k > 0"
    and "length (vr_data query) = unat (vr_dims query) * element_size (vr_dtype query)"
    and "all_vectors_ok X st ns" "\<forall>key. engine_contents X st (vector_namespace ns, key) \<noteq> None \<longrightarrow> length key < 1024"
    and "\<forall>key d. score X N st ns query metric key = Some d \<longrightarrow> \<not> f_is_nan (vo_f32 N) d"
  shows "\<exists>out. flat_vector_search X N L st ns query k metric = Inr out \<and> nearest_results N (score X N st ns query metric) k out"
proof -
  let ?ns = "vector_namespace ns"
  obtain E d where st: "st = (E, d)" by fastforce
  obtain ess where "zstd_ok X" "engine_inv X E d ess" "lsn_ordered (ess @ [en_memtable E])"
    using assms(1) by (auto simp: engine_ok_def st versions_ok_def)
  from engine_range_spec [OF this ns_ok_vec [OF assms(2)], of "[]" "replicate 1024 255"] obtain kvs where
    kvs: "Engine_range X st ?ns [] (replicate 1024 255) = Inr kvs" "ksorted kvs"
    "\<forall>uk v. (uk, v) \<in> set kvs \<longleftrightarrow> [] \<le> uk \<and> uk < replicate 1024 255 \<and> Engine_get X st ?ns uk = Inr (Some v)" by (auto simp: st)
  have mem: "(key, val) \<in> set kvs \<longleftrightarrow> engine_contents X st (?ns, key) = Some val" for key val
    using kvs(3) assms(8) short_key_below [of key 1024] engine_get_contents [OF assms(1) ns_ok_vec [OF assms(2)], of key] by auto
  have dec: "\<forall>(key, val) \<in> set kvs. \<exists>r. decode_vector_record val = Inr r"
    using assms(7) mem unfolding all_vectors_ok_def by blast
  let ?items = "scored_items N query metric kvs"
  note items = scored_items_of [OF ksorted_distinct [OF kvs(2)] mem, where N = N and query = query and metric = metric]
  have "\<forall>i \<in> set ?items. \<not> f_is_nan (vo_f32 N) (hi_distance i)" using assms(9) items(2) by blast
  from top_k_nearest [OF assms(3,4) fold_offer_top_k [OF assms(3-5) this] items] assms(5) show ?thesis
    by (simp add: flat_vector_search_def kvs(1) scan_candidates_fold [OF assms(6) dec])
qed

lemma sample_vector_state:
  "\<exists>st. engine_ok sample_ext st \<and> engine_contents sample_ext st =
     [(vector_namespace [110], [2]) \<mapsto> encoded_vector \<lparr> vr_dims = 1, vr_dtype = I8, vr_data = [5] \<rparr>]"
proof -
  obtain st lsn where p: "vector_put sample_ext sample_clock [110] [2] 1 I8 [5] new_db = (st, Inr lsn)"
    and f: "engine_can_put sample_ext sample_clock (vector_namespace [110]) [2] (encoded_vector \<lparr> vr_dims = 1, vr_dtype = I8, vr_data = [5] \<rparr>) new_db"
    using sample_vector_put [of "[2]"] by auto
  have "vec_ns_ok [110]" by (simp add: vec_ns_ok_def vector_namespace_def lit_def U16_MAX_def)
  from put_vector_contents [OF sample_text_state(1) this p f] show ?thesis
    by (intro exI [of _ st]) (simp add: engine_room_def new_db_empty, simp add: new_db_def)
qed

theorem flat_search_nearest_witness:
  "\<exists>st out. flat_vector_search sample_ext sample_vec (\<lambda>xs. xs) st [110] \<lparr> vr_dims = 1, vr_dtype = I8, vr_data = [7] \<rparr> 1 L2 = Inr out \<and>
     map vs_key out = [[2]]"
proof -
  let ?q = "\<lparr> vr_dims = 1, vr_dtype = I8, vr_data = [7] \<rparr>" and ?r = "\<lparr> vr_dims = 1, vr_dtype = I8, vr_data = [5] \<rparr>"
  obtain st where st: "engine_ok sample_ext st" "engine_contents sample_ext st = [(vector_namespace [110], [2]) \<mapsto> encoded_vector ?r]"
    using sample_vector_state by blast
  let ?sc = "score sample_ext sample_vec st [110] ?q L2"
  have dec: "decode_vector_record (encoded_vector ?r) = Inr ?r" by (simp add: decode_encoded_vector)
  have ns: "vec_ns_ok [110]" by (simp add: vec_ns_ok_def vector_namespace_def lit_def U16_MAX_def)
  have "all_vectors_ok sample_ext st [110]" using dec by (auto simp: all_vectors_ok_def st(2))
  moreover have "\<forall>key. engine_contents sample_ext st (vector_namespace [110], key) \<noteq> None \<longrightarrow> length key < 1024" by (simp add: st(2))
  moreover have "\<forall>key d. ?sc key = Some d \<longrightarrow> \<not> f_is_nan (vo_f32 sample_vec) d" by (simp add: sample_vec_def)
  ultimately obtain out where out: "flat_vector_search sample_ext sample_vec (\<lambda>xs. xs) st [110] ?q 1 L2 = Inr out"
    "nearest_results sample_vec ?sc 1 out"
    using flat_search_nearest [OF st(1) ns sample_vec_ok, of 1 ?q L2] by auto
  have "dom ?sc = {[2]}" using dec by (auto simp: score_def vector_view_def st(2) dom_def split: if_splits)
  then have "length out = 1" "\<forall>r \<in> set out. vs_key r \<in> {[2]}" using out(2) unfolding nearest_results_def by auto
  then have "map vs_key out = [[2]]" by (cases out) auto
  with out(1) show ?thesis by (intro exI [of _ st] exI [of _ out] conjI)
qed

end
