(* ===== verification/VectorIndex.thy ===== *)
theory VectorIndex
  imports VectorFacts
begin

text \<open>
  The graph index of a namespace in the engine: a build indexes exactly the stored vectors, an
  index reloaded from its sidecar answers as the cached one, and what is put after a build is not
  seen by a search until the next flush.
\<close>

section \<open>Building\<close>

lemma index_records_ok:
  assumes "f32_ok (vo_f32 N)" "order_ok Q" "hnsw_inv ix" "hx_ef_construction ix > 0 \<and> hx_m ix = 16"
    and "\<forall>(key, val) \<in> set kvs. \<exists>r. decode_vector_record val = Inr r \<and> length (vr_data r) = vec_size ix"
  shows "\<exists>ix'. index_records N Q kvs ix = Inr ix' \<and> hnsw_inv ix' \<and> hx_dims ix' = hx_dims ix \<and> hx_dtype ix' = hx_dtype ix \<and>
     hx_metric ix' = hx_metric ix \<and>
     vectors ix' = vectors ix @ map (\<lambda>(key, val). (key, vr_data (projr (decode_vector_record val)))) kvs"
  using assms(3-5)
proof (induction kvs arbitrary: ix)
  case (Cons kv kvs)
  obtain key val where kv: "kv = (key, val)" by fastforce
  obtain r where r: "decode_vector_record val = Inr r" "length (vr_data r) = vec_size ix" using Cons.prems(3) kv by auto
  have m: "0 < hx_ef_construction ix" "hx_m ix \<noteq> 1" "hx_m ix < SMALL_SORT_MAX" using Cons.prems(2) by (simp_all add: SMALL_SORT_MAX_def)
  from insert_ok [OF assms(1,2) Cons.prems(1) r(2) m(1,2) disjI1 [OF m(3)], of key] obtain ix1 where
    i: "hnsw_insert N Q key (vr_data r) ix = (ix1, Inr (length (hx_nodes ix)))" "hnsw_inv ix1"
    "vectors ix1 = vectors ix @ [(key, vr_data r)]" "hx_ef_construction ix1 = hx_ef_construction ix \<and> hx_m ix1 = hx_m ix"
    "hx_dims ix1 = hx_dims ix" "hx_dtype ix1 = hx_dtype ix" "hx_metric ix1 = hx_metric ix" by blast
  have "vec_size ix1 = vec_size ix" by (simp add: vec_size_def i(5,6))
  with Cons.IH [OF i(2)] Cons.prems(2,3) i(4) obtain ix' where
    "index_records N Q kvs ix1 = Inr ix'" "hnsw_inv ix'" "hx_dims ix' = hx_dims ix1" "hx_dtype ix' = hx_dtype ix1" "hx_metric ix' = hx_metric ix1"
    "vectors ix' = vectors ix1 @ map (\<lambda>(key, val). (key, vr_data (projr (decode_vector_record val)))) kvs" by auto
  then show ?case using r(1) i by (simp add: kv)
qed simp

lemma sidecar_stamp [simp]: "sidecar_name ns \<noteq> stamp_name ns" "stamp_name ns \<noteq> sidecar_name ns"
proof -
  have "length (sidecar_name ns) \<noteq> length (stamp_name ns)" by (cases "ns = []") (simp_all add: sidecar_name_def stamp_name_def ns_to_slug_def)
  then show "sidecar_name ns \<noteq> stamp_name ns" "stamp_name ns \<noteq> sidecar_name ns" by auto
qed

definition fresh_index :: "ext \<Rightarrow> bytes \<Rightarrow> HnswIndex \<Rightarrow> VectorState \<Rightarrow> bool" where
  "fresh_index X ns ix st \<longleftrightarrow> map_of (ve_indices st) ns = Some ix \<and>
     fs_read (ve_files st) (sidecar_name ns) = Some (serialize_hnsw ix) \<and>
     fs_read (ve_files st) (stamp_name ns) = Some (range_merkle_root X (fst (ve_engine st)))"

lemma fresh_index_found:
  assumes "fresh_index X ns ix st"
  shows "\<not> is_index_stale X st ns" "get_vector_index X ns st = (st, Inr (Some ix))"
proof -
  show "\<not> is_index_stale X st ns" using assms by (simp add: fresh_index_def is_index_stale_def fs_exists_def)
  then show "get_vector_index X ns st = (st, Inr (Some ix))" using assms by (simp add: fresh_index_def get_vector_index_def)
qed

text \<open>
  C20: Building an index covers the namespace. On a consistent database, if the namespace has a
  vector and all its vectors have one shape, the build succeeds, leaves the records alone and
  caches a well-formed index of that shape which the next search finds fresh, with its sidecar and
  stamp written; the index holds exactly the stored vectors, each under its key and once.
\<close>

theorem build_indexes_all_vectors:
  assumes "engine_ok X (ve_engine st)" "vec_ns_ok ns" "f32_ok (vo_f32 N)" "order_ok Q"
    and "all_vectors_ok X (ve_engine st) ns" "vector_view X (ve_engine st) ns \<noteq> Map.empty"
    and "\<forall>key r. vector_view X (ve_engine st) ns key = Some r \<longrightarrow> vr_dims r = dims \<and> vr_dtype r = t"
  shows "\<exists>st' ix. build_vector_index X N Q ns st = (st', Inr ()) \<and> ve_engine st' = ve_engine st \<and> fresh_index X ns ix st' \<and>
     hnsw_inv ix \<and> hx_dims ix = dims \<and> hx_dtype ix = t \<and> hx_metric ix = L2 \<and> distinct (map fst (vectors ix)) \<and>
     (\<forall>key. map_of (vectors ix) key = map_option vr_data (vector_view X (ve_engine st) ns key))"
proof -
  let ?ns = "vector_namespace ns" and ?e = "ve_engine st"
  obtain E d where e: "?e = (E, d)" by fastforce
  obtain ess where "zstd_ok X" "engine_inv X E d ess" "lsn_ordered (ess @ [en_memtable E])"
    using assms(1) by (auto simp: engine_ok_def e versions_ok_def)
  from engine_prefix_spec [OF this, of ?ns "[]"] assms(2) obtain kvs where
    kvs: "Engine_prefix X ?e ?ns [] = Inr kvs" "ksorted kvs"
    "\<forall>uk v. (uk, v) \<in> set kvs \<longleftrightarrow> starts_with uk [] \<and> Engine_get X ?e ?ns uk = Inr (Some v)" by (auto simp: e vec_ns_ok_def)
  have mem: "(key, val) \<in> set kvs \<longleftrightarrow> engine_contents X ?e (?ns, key) = Some val" for key val
    using kvs(3) engine_get_contents [OF assms(1) ns_ok_vec [OF assms(2)], of key] by (auto simp: starts_with_def)
  have shape: "\<exists>r. decode_vector_record val = Inr r \<and> vr_dims r = dims \<and> vr_dtype r = t" if kv: "(key, val) \<in> set kvs" for key val
  proof -
    have c: "engine_contents X ?e (?ns, key) = Some val" using kv mem by blast
    then obtain r where "decode_vector_record val = Inr r" using assms(5) unfolding all_vectors_ok_def by blast
    moreover from this have "vector_view X ?e ns key = Some r" by (simp add: vector_view_def c)
    ultimately show ?thesis using assms(7) by blast
  qed
  define ix0 where "ix0 = with_params 16 100 (HnswIndex_new dims t L2)"
  have "ix0 = HnswIndex_new dims t L2" by (simp add: ix0_def with_params_def HnswIndex_new_def)
  then have ix0: "hnsw_inv ix0" "hx_ef_construction ix0 > 0 \<and> hx_m ix0 = 16" "vectors ix0 = []" "vec_size ix0 = unat dims * element_size t"
    "hx_dims ix0 = dims" "hx_dtype ix0 = t" "hx_metric ix0 = L2"
    by (simp_all add: hnsw_inv_new) (simp_all add: vectors_def vec_size_def HnswIndex_new_def)
  have "\<forall>(key, val) \<in> set kvs. \<exists>r. decode_vector_record val = Inr r \<and> length (vr_data r) = vec_size ix0"
    using shape decode_vector_inv ix0(4) by fastforce
  from index_records_ok [OF assms(3,4) ix0(1,2) this] obtain ix where
    ix: "index_records N Q kvs ix0 = Inr ix" "hnsw_inv ix" "hx_dims ix = dims" "hx_dtype ix = t" "hx_metric ix = L2"
    "vectors ix = map (\<lambda>(key, val). (key, vr_data (projr (decode_vector_record val)))) kvs" by (auto simp: ix0)
  obtain key r where "vector_view X ?e ns key = Some r" using assms(6) by fastforce
  then have "kvs \<noteq> []" using mem by (auto simp: vector_view_def split: option.splits)
  then obtain k0 v0 rest where c: "kvs = (k0, v0) # rest" by (metis list.exhaust surj_pair)
  obtain r0 where r0: "decode_vector_record v0 = Inr r0" "vr_dims r0 = dims" "vr_dtype r0 = t" using shape [of k0 v0] c by auto
  define st' where "st' = st\<lparr>ve_files := fs_write (stamp_name ns) (range_merkle_root X (fst ?e))
      (fs_write (sidecar_name ns) (serialize_hnsw ix) (ve_files st)), ve_indices := AList.update ns ix (ve_indices st)\<rparr>"
  have "build_vector_index X N Q ns st = (st', Inr ())"
    using ix(1) kvs(1) r0 unfolding c by (simp add: build_vector_index_def map_err_def ix0_def [symmetric] st'_def)
  moreover have "fresh_index X ns ix st'" by (simp add: fresh_index_def st'_def update_conv')
  moreover have keys: "map fst (vectors ix) = map fst kvs" by (simp add: ix(6) case_prod_beta comp_def)
  moreover have "map_of (vectors ix) key = map_option vr_data (vector_view X ?e ns key)" for key
  proof -
    have "map_of (vectors ix) key = map_option (\<lambda>val. vr_data (projr (decode_vector_record val))) (map_of kvs key)"
      unfolding ix(6) by (induction kvs) auto
    moreover have "map_of kvs key = engine_contents X ?e (?ns, key)"
      using mem [of key] ksorted_map_of [OF kvs(2)] by (metis map_of_SomeD not_None_eq)
    moreover have "\<exists>r. decode_vector_record val = Inr r" if "engine_contents X ?e (?ns, key) = Some val" for val
      using assms(5) that unfolding all_vectors_ok_def by blast
    ultimately show ?thesis by (force simp: vector_view_def split: option.splits)
  qed
  ultimately show ?thesis using ix(2-5) ksorted_distinct [OF kvs(2)] by (intro exI [of _ st'] exI [of _ ix]) (simp add: st'_def)
qed

theorem build_indexes_all_vectors_witness:
  "\<exists>st st' ix. build_vector_index sample_ext sample_vec (\<lambda>xs. xs) [110] st = (st', Inr ()) \<and> fresh_index sample_ext [110] ix st' \<and>
     map_of (vectors ix) [2] = Some [5] \<and> map_of (vectors ix) [3] = None"
proof -
  let ?r = "\<lparr> vr_dims = 1, vr_dtype = I8, vr_data = [5] \<rparr>"
  obtain e where e: "engine_ok sample_ext e" "engine_contents sample_ext e = [(vector_namespace [110], [2]) \<mapsto> encoded_vector ?r]"
    using sample_vector_state by blast
  let ?st = "\<lparr> ve_engine = e, ve_indices = [], ve_files = [] \<rparr>"
  have dec: "decode_vector_record (encoded_vector ?r) = Inr ?r" by (simp add: decode_encoded_vector)
  then have v: "vector_view sample_ext e [110] = [[2] \<mapsto> ?r]" by (auto simp: vector_view_def e(2))
  have ns: "vec_ns_ok [110]" by (simp add: vec_ns_ok_def vector_namespace_def lit_def U16_MAX_def)
  have h: "engine_ok sample_ext (ve_engine ?st)" "all_vectors_ok sample_ext (ve_engine ?st) [110]"
    "vector_view sample_ext (ve_engine ?st) [110] \<noteq> Map.empty"
    "\<forall>key r. vector_view sample_ext (ve_engine ?st) [110] key = Some r \<longrightarrow> vr_dims r = 1 \<and> vr_dtype r = I8"
    using dec e(1) by (simp_all add: v) (auto simp: all_vectors_ok_def e(2))
  obtain st' ix where w: "build_vector_index sample_ext sample_vec (\<lambda>xs. xs) [110] ?st = (st', Inr ())" "fresh_index sample_ext [110] ix st'"
    "\<forall>key. map_of (vectors ix) key = map_option vr_data (vector_view sample_ext (ve_engine ?st) [110] key)"
    using build_indexes_all_vectors [OF h(1) ns sample_vec_ok h(2-4)] by blast
  show ?thesis by (intro exI [of _ ?st] exI [of _ st'] exI [of _ ix] conjI w(1,2)) (simp_all add: w(3) v)
qed

section \<open>Reloading\<close>

text \<open>A search does not use the seed of the random layers.\<close>

lemma seed_fields:
  "distance_to_node N (ix\<lparr>hx_rng_seed := s\<rparr>) = distance_to_node N ix"
  by (intro ext) (simp add: distance_to_node_def)

lemma expand_seed: "expand N (ix\<lparr>hx_rng_seed := s\<rparr>) query ef ns st = expand N ix query ef ns st"
  by (induction N ix query ef ns st rule: expand.induct) (simp_all add: seed_fields Let_def)

lemma enter_seed: "enter_points N (ix\<lparr>hx_rng_seed := s\<rparr>) query eps st = enter_points N ix query eps st"
  by (induction N ix query eps st rule: enter_points.induct) (simp_all add: seed_fields Let_def)

lemma search_loop_seed: "search_loop N (ix\<lparr>hx_rng_seed := s\<rparr>) query ef layer st = search_loop N ix query ef layer st"
proof (induction N ix query ef layer st rule: search_loop.induct)
  case (1 N ix query ef layer visited candidates results)
  show ?case
    unfolding search_loop.simps [of N _ query ef layer visited candidates results]
    by (auto simp: expand_seed Let_def 1 split: option.split sum.split prod.split)
qed

lemma search_layer_seed: "search_layer N Q (ix\<lparr>hx_rng_seed := s\<rparr>) query eps ef layer = search_layer N Q ix query eps ef layer"
  by (simp add: search_layer_def enter_seed search_loop_seed)

lemma descend_seed: "descend N Q (ix\<lparr>hx_rng_seed := s\<rparr>) query ef layers cur = descend N Q ix query ef layers cur"
  by (induction N Q ix query ef layers cur rule: descend.induct) (simp_all add: search_layer_seed)

lemma search_seed: "hnsw_search N Q (ix\<lparr>hx_rng_seed := s\<rparr>) query k ef = hnsw_search N Q ix query k ef"
  by (simp add: hnsw_search_def descend_seed search_layer_seed seed_fields Let_def)

lemma reload_index:
  assumes "fresh_index X ns ix st" "hnsw_file_ok ix"
    and "length (serialize_hnsw ix) \<le> unat (hnsw_max_ram_bytes (en_config (fst (ve_engine st))))"
    and "ns_to_slug ns' = ns_to_slug ns" "map_of idx ns' = None"
  shows "get_vector_index X ns' (st\<lparr>ve_indices := idx\<rparr>) =
     (st\<lparr>ve_indices := AList.update ns' (ix\<lparr>hx_rng_seed := 12345\<rparr>) idx\<rparr>, Inr (Some (ix\<lparr>hx_rng_seed := 12345\<rparr>)))"
proof -
  have "length ns' = length ns" using arg_cong [OF assms(4), of length] by (simp add: ns_to_slug_def)
  then have "ns' = [] \<longleftrightarrow> ns = []" by auto
  then have n: "sidecar_name ns' = sidecar_name ns" "stamp_name ns' = stamp_name ns"
    using assms(4) by (simp_all add: sidecar_name_def stamp_name_def)
  have "\<not> is_index_stale X (st\<lparr>ve_indices := idx\<rparr>) ns'" using assms(1) by (simp add: fresh_index_def is_index_stale_def fs_exists_def n)
  then show ?thesis using assms(1,3,5) hnsw_bytes_roundtrip [OF assms(2)]
    by (simp add: get_vector_index_def load_index_def fresh_index_def fs_exists_def n)
qed

text \<open>
  C26: A restart does not change what a search of the index finds. When the index of a namespace is
  cached and fresh, fits the fields of the sidecar and is within the limit on memory, then a search
  after the caches are gone reloads it and returns the same vectors with the same distances in the
  same order (or the same error) as a search with the cache, for every query.
\<close>

theorem reloaded_index_same_search:
  assumes "fresh_index X ns ix st" "hnsw_file_ok ix"
    and "length (serialize_hnsw ix) \<le> unat (hnsw_max_ram_bytes (en_config (fst (ve_engine st))))"
  shows "snd (Engine_vector_search X N Q L ns query k metric (st\<lparr>ve_indices := []\<rparr>)) = snd (Engine_vector_search X N Q L ns query k metric st)"
  using reload_index [OF assms refl, of "[]"] fresh_index_found(2) [OF assms(1)]
  by (simp add: Engine_vector_search_def try_hnsw_search_def search_seed split: sum.split option.split)

text \<open>
  C35: Vectors of one namespace come up in searches of another. Two namespaces whose names differ
  only in characters that are not allowed in file names share a sidecar. When one of them has a
  fresh index and the other no cached one, a search in the other (with a query of the shape of the
  index) loads that index and returns what the search in the first returns.
\<close>

theorem index_shared_between_namespaces:
  assumes "fresh_index X ns ix st" "hnsw_file_ok ix"
    and "length (serialize_hnsw ix) \<le> unat (hnsw_max_ram_bytes (en_config (fst (ve_engine st))))"
    and "ns_to_slug ns' = ns_to_slug ns" "map_of (ve_indices st) ns' = None"
    and "vr_dims query = hx_dims ix" "vr_dtype query = hx_dtype ix"
  shows "snd (Engine_vector_search X N Q L ns' query k metric st) = snd (Engine_vector_search X N Q L ns query k metric st)"
  using reload_index [OF assms(1-5)] fresh_index_found(2) [OF assms(1)] assms(6,7)
  by (cases "hnsw_search N Q ix (vr_data query) k 50") (simp_all add: Engine_vector_search_def try_hnsw_search_def search_seed)

section \<open>Vectors put after a build\<close>

lemma hnsw_hits_stored:
  assumes "f32_ok (vo_f32 N)" "order_ok Q" "hnsw_inv ix" "length query = vec_size ix" "ef > 0"
  shows "\<exists>out. hnsw_search N Q ix query k ef = Inr out \<and> fst ` set out \<subseteq> fst ` set (vectors ix)"
proof -
  obtain "is" where i: "hnsw_search N Q ix query k ef = Inr (hits N ix query is)" "set is \<subseteq> {..<length (hx_nodes ix)}"
    using hnsw_search_spec [OF assms, of k] by blast
  have "fst ` set (hits N ix query is) \<subseteq> fst ` set (vectors ix)"
  proof
    fix x assume "x \<in> fst ` set (hits N ix query is)"
    then obtain j where "j \<in> set is" "x = hn_vector_id (hx_nodes ix ! j)" by (auto simp: hits_def)
    then show "x \<in> fst ` set (vectors ix)" using i(2) by (force simp: vectors_def)
  qed
  with i(1) show ?thesis by blast
qed

text \<open>
  C34: A search does not see a vector that was put after the index was built, as long as the put
  stays in the memtable: the stamp only covers segments, so the index still counts as fresh. The
  put succeeds and a lookup finds the vector, but a search with a query of the shape of the index
  returns the same results for every metric, and never the new key, however near the vector is.
\<close>

theorem index_misses_unflushed_put:
  assumes "engine_ok X (ve_engine st)" "vec_ns_ok ns" "f32_ok (vo_f32 N)" "order_ok Q"
    and "fresh_index X ns ix st" "hnsw_inv ix" "key \<notin> fst ` set (vectors ix)"
    and "vector_put X T ns key dims t vec (ve_engine st) = (e', Inr lsn)"
    and "engine_can_put X T (vector_namespace ns) key (encoded_vector \<lparr> vr_dims = dims, vr_dtype = t, vr_data = vec \<rparr>) (ve_engine st)"
    and "engine_room 1 (ve_engine st)" "en_segment_store (fst e') = en_segment_store (fst (ve_engine st))"
    and "vr_dims query = hx_dims ix" "vr_dtype query = hx_dtype ix" "length (vr_data query) = vec_size ix"
  shows "vector_get X e' ns key = Inr (Some \<lparr> vr_dims = dims, vr_dtype = t, vr_data = vec \<rparr>) \<and>
     (\<exists>out. (\<forall>metric. snd (Engine_vector_search X N Q L ns query k metric (st\<lparr>ve_engine := e'\<rparr>)) = Inr out) \<and> key \<notin> vs_key ` set out)"
proof -
  have p: "engine_ok X e'" "length vec = unat dims * element_size t"
    "engine_contents X e' = (engine_contents X (ve_engine st))((vector_namespace ns, key) \<mapsto> encoded_vector \<lparr> vr_dims = dims, vr_dtype = t, vr_data = vec \<rparr>)"
    using put_vector_contents [OF assms(1,2,8-10)] by blast+
  have "vector_get X e' ns key = Inr (Some \<lparr> vr_dims = dims, vr_dtype = t, vr_data = vec \<rparr>)"
    by (rule vector_get_encoded [OF p(1) assms(2)]) (simp_all add: p(2,3))
  moreover have "fresh_index X ns ix (st\<lparr>ve_engine := e'\<rparr>)"
    using assms(5) by (simp add: fresh_index_def range_merkle_root_def assms(11))
  then have g: "get_vector_index X ns (st\<lparr>ve_engine := e'\<rparr>) = (st\<lparr>ve_engine := e'\<rparr>, Inr (Some ix))" by (rule fresh_index_found)
  obtain out where o: "hnsw_search N Q ix (vr_data query) k 50 = Inr out" "fst ` set out \<subseteq> fst ` set (vectors ix)"
    using hnsw_hits_stored [OF assms(3,4,6,14), of 50 k] by auto
  have "snd (Engine_vector_search X N Q L ns query k metric (st\<lparr>ve_engine := e'\<rparr>)) = Inr (map as_result out)" for metric
    by (simp add: Engine_vector_search_def try_hnsw_search_def g assms(12,13) o(1))
  moreover have "vs_key ` set (map as_result out) = fst ` set out" by (force simp: as_result_def image_iff)
  then have "key \<notin> vs_key ` set (map as_result out)" using o(2) assms(7) by blast
  ultimately show ?thesis by blast
qed

definition sample_vector_index :: "bytes \<Rightarrow> VectorState" where
  "sample_vector_index ns = \<lparr> ve_engine = new_db, ve_indices = [(ns, sample_graph)],
     ve_files = [(sidecar_name ns, serialize_hnsw sample_graph), (stamp_name ns, range_merkle_root sample_ext (fst new_db))] \<rparr>"

lemma sample_vector_index: "fresh_index sample_ext ns sample_graph (sample_vector_index ns)" "ve_engine (sample_vector_index ns) = new_db"
  by (simp_all add: fresh_index_def sample_vector_index_def fs_read_def)

lemma sample_graph_file: "hnsw_file_ok sample_graph"
  "length (serialize_hnsw sample_graph) \<le> unat (hnsw_max_ram_bytes (en_config (fst (ve_engine (sample_vector_index ns)))))"
proof -
  show "hnsw_file_ok sample_graph" by (simp add: hnsw_file_ok_def sample_graph_def HnswIndex_new_def node_ok_def)
  have "length (serialize_hnsw sample_graph) \<le> 200"
    by (simp add: serialize_hnsw_def sample_graph_def HnswIndex_new_def put_node_def put_layer_def HNSW_MAGIC_def lit_def)
  then show "length (serialize_hnsw sample_graph) \<le> unat (hnsw_max_ram_bytes (en_config (fst (ve_engine (sample_vector_index ns)))))"
    by (simp add: sample_vector_index(2) new_db_def EdgestoreConfig_new_def)
qed

lemma sample_query_shape: "vr_dims \<lparr> vr_dims = 1, vr_dtype = I8, vr_data = [d] \<rparr> = hx_dims sample_graph"
  "vr_dtype \<lparr> vr_dims = 1, vr_dtype = I8, vr_data = [d] \<rparr> = hx_dtype sample_graph"
  "length (vr_data \<lparr> vr_dims = 1, vr_dtype = I8, vr_data = [d] \<rparr>) = vec_size sample_graph"
  by (simp_all add: sample_graph_def HnswIndex_new_def vec_size_def)

theorem reloaded_index_same_search_witness:
  "snd (Engine_vector_search sample_ext sample_vec (\<lambda>xs. xs) (\<lambda>xs. xs) [110] \<lparr> vr_dims = 1, vr_dtype = I8, vr_data = [6] \<rparr> 2 L2
      ((sample_vector_index [110])\<lparr>ve_indices := []\<rparr>)) =
   snd (Engine_vector_search sample_ext sample_vec (\<lambda>xs. xs) (\<lambda>xs. xs) [110] \<lparr> vr_dims = 1, vr_dtype = I8, vr_data = [6] \<rparr> 2 L2
      (sample_vector_index [110]))"
  by (rule reloaded_index_same_search [OF sample_vector_index(1) sample_graph_file])

theorem index_shared_between_namespaces_witness:
  "\<exists>out. snd (Engine_vector_search sample_ext sample_vec (\<lambda>xs. xs) (\<lambda>xs. xs) [95] \<lparr> vr_dims = 1, vr_dtype = I8, vr_data = [6] \<rparr> 2 L2
      (sample_vector_index [47])) = Inr out \<and> length out = 2 \<and> vector_view sample_ext (ve_engine (sample_vector_index [47])) [95] = Map.empty"
proof -
  let ?q = "\<lparr> vr_dims = 1, vr_dtype = I8, vr_data = [6] \<rparr>"
  have "ns_to_slug [95] = ns_to_slug [47]" by (simp add: ns_to_slug_def char_of_def bit_Suc_0_iff)
  moreover have "map_of (ve_indices (sample_vector_index [47])) [95] = None" by (simp add: sample_vector_index_def)
  ultimately have same: "snd (Engine_vector_search sample_ext sample_vec (\<lambda>xs. xs) (\<lambda>xs. xs) [95] ?q 2 L2 (sample_vector_index [47])) =
      snd (Engine_vector_search sample_ext sample_vec (\<lambda>xs. xs) (\<lambda>xs. xs) [47] ?q 2 L2 (sample_vector_index [47]))"
    by (rule index_shared_between_namespaces [OF sample_vector_index(1) sample_graph_file _ _ sample_query_shape(1,2)])
  obtain "is" where i: "hnsw_search sample_vec (\<lambda>xs. xs) sample_graph [6] 2 50 = Inr (hits sample_vec sample_graph [6] is)"
    "k_nearest sample_vec sample_graph [6] 2 is"
    using hnsw_search_spec [OF sample_vec_ok sample_graph_inv, of "[6]" 50 2] sample_graph_connected by auto
  have "length (hits sample_vec sample_graph [6] is) = 2" using i(2) by (simp add: k_nearest_def hits_def)
  moreover have "vector_view sample_ext new_db [95] = Map.empty" by (auto simp: vector_view_def new_db_empty)
  ultimately show ?thesis unfolding same using fresh_index_found(2) [OF sample_vector_index(1)] i(1) sample_query_shape(1,2) [of 6]
    by (simp add: Engine_vector_search_def try_hnsw_search_def sample_vector_index(2))
qed

theorem index_misses_unflushed_put_witness:
  "\<exists>e out. vector_get sample_ext e [110] [3] = Inr (Some \<lparr> vr_dims = 1, vr_dtype = I8, vr_data = [5] \<rparr>) \<and>
     snd (Engine_vector_search sample_ext sample_vec (\<lambda>xs. xs) (\<lambda>xs. xs) [110] \<lparr> vr_dims = 1, vr_dtype = I8, vr_data = [5] \<rparr> 10 Cosine
       ((sample_vector_index [110])\<lparr>ve_engine := e\<rparr>)) = Inr out \<and> [3] \<notin> vs_key ` set out"
proof -
  let ?q = "\<lparr> vr_dims = 1, vr_dtype = I8, vr_data = [5] \<rparr>"
  obtain e lsn where p: "vector_put sample_ext sample_clock [110] [3] 1 I8 [5] new_db = (e, Inr lsn)"
    "en_segment_store (fst e) = en_segment_store (fst new_db)"
    "engine_can_put sample_ext sample_clock (vector_namespace [110]) [3] (encoded_vector ?q) new_db"
    using sample_vector_put [of "[3]"] by auto
  have ns: "vec_ns_ok [110]" by (simp add: vec_ns_ok_def vector_namespace_def lit_def U16_MAX_def)
  have k: "[3] \<notin> fst ` set (vectors sample_graph)" by (simp add: vectors_def sample_graph_def)
  have room: "engine_room 1 new_db" by (simp add: engine_room_def new_db_def)
  note r = index_misses_unflushed_put [where st = "sample_vector_index [110]", unfolded sample_vector_index(2),
    OF sample_text_state(1) ns sample_vec_ok sample_vector_index(1) sample_graph_inv k p(1,3) room p(2) sample_query_shape]
  from r [where L = "\<lambda>xs. xs" and k = 10] show ?thesis by blast
qed

end
