(* ===== verification/TokioFlush.thy ===== *)
theory TokioFlush
  imports Tokio VectorIndex ReplicationFacts
begin

text \<open>
  Flushes in progress: what holds of a copied memtable and of a written segment that is not yet
  registered (\<open>flushing\<close>), and that every phase of every flush and every write keeps it.
\<close>

section \<open>Flushes in progress\<close>

definition max_lsn :: "kv list \<Rightarrow> Lsn" where
  "max_lsn es = Max (set (map (e_lsn \<circ> snd) es))"

fun task_id :: "flush_task \<Rightarrow> SegmentId" where
  "task_id (Copied work) = fw_segment_id work"
| "task_id (Executed meta l) = m_segment_id meta"

text \<open>A flush that will register the entries \<open>es\<close>: they can be written, or they are written.\<close>

fun task_ok :: "ext \<Rightarrow> u64 \<Rightarrow> dir \<Rightarrow> flush_task \<Rightarrow> kv list \<Rightarrow> bool" where
  "task_ok X window d (Copied work) es \<longleftrightarrow> fw_entries work = es \<and> fw_cohort_window_secs work = window \<and>
     flushable X window es \<and> fw_flushed_max_lsn work = max_lsn es"
| "task_ok X window d (Executed meta l) es \<longleftrightarrow> l = max_lsn es \<and> ksorted es \<and> es \<noteq> [] \<and>
     (\<exists>r. SegmentReader_open X (m_segment_id meta) d = Inr r \<and> segment_inv X d r es \<and> sr_segment_id r = m_segment_id meta)"

definition flushing :: "ext \<Rightarrow> Engine \<Rightarrow> dir \<Rightarrow> kv list list \<Rightarrow> flush_task list \<Rightarrow> kv list list \<Rightarrow> bool" where
  "flushing X E d ess fs snaps \<longleftrightarrow> engine_inv X E d ess \<and>
     list_all2 (task_ok X (cohort_window_secs (en_config E)) d) fs snaps \<and> distinct (map task_id fs) \<and>
     (\<forall>t \<in> set fs. task_id t < ss_next_segment_id (en_segment_store E) \<and> task_id t \<notin> set (segment_ids (en_segment_store E)))"

lemma flushingD:
  assumes "flushing X E d ess fs snaps"
  shows "engine_inv X E d ess" "list_all2 (task_ok X (cohort_window_secs (en_config E)) d) fs snaps" "distinct (map task_id fs)"
    "\<And>t. t \<in> set fs \<Longrightarrow> task_id t < ss_next_segment_id (en_segment_store E)"
    "\<And>t. t \<in> set fs \<Longrightarrow> task_id t \<notin> set (segment_ids (en_segment_store E))"
  using assms by (simp_all add: flushing_def)

lemma task_ok_frame:
  assumes "task_ok X window d t es" "\<forall>x. fs_read d' (segment_file (task_id t) x) = fs_read d (segment_file (task_id t) x)"
  shows "task_ok X window d' t es"
proof (cases t)
  case (Executed meta l)
  have "SegmentReader_open X (m_segment_id meta) d' = SegmentReader_open X (m_segment_id meta) d"
    by (rule reader_open_frame) (use assms(2) Executed in simp)
  moreover have "segment_inv X d r es \<Longrightarrow> sr_segment_id r = m_segment_id meta \<Longrightarrow> segment_inv X d' r es" for r
    by (rule segment_inv_frame) (use assms(2) Executed in simp_all)
  ultimately show ?thesis using assms(1) Executed by auto
qed (use assms(1) in simp)

lemma task_ok_snap: "task_ok X window d t es \<Longrightarrow> ksorted es \<and> es \<noteq> []"
  by (cases t) (auto simp: flushable_def)

lemma max_lsn_ge: "x \<in> set es \<Longrightarrow> e_lsn (snd x) \<le> max_lsn es"
  unfolding max_lsn_def by (intro Max_ge) auto

lemma max_lsn_le: "es \<noteq> [] \<Longrightarrow> \<forall>x \<in> set es. e_lsn (snd x) \<le> l \<Longrightarrow> max_lsn es \<le> l"
  unfolding max_lsn_def by (intro Max.boundedI) auto

section \<open>The steps\<close>

lemma spawned_Inr [simp]: "spawned r = Inr v \<longleftrightarrow> r = Inr v"
  by (auto simp: spawned_def split: sum.splits EdgestoreError.splits)

lemma run_write_Inr: "run_write f A = (A', Inr v) \<Longrightarrow> f (inner A) = (inner A', Inr v)"
  by (auto simp: run_write_def split: prod.splits)

text \<open>What a step does to the engine and its files.\<close>

lemma step_inv:
  assumes "inner A = (E, d)" "inner A' = (E', d')"
  shows "async_step X (A, fs) (Call T op) (A', fs') \<Longrightarrow> is_call op \<and> engine_exec X T op (E, d) = ((E', d'), Inr ()) \<and> fs' = fs"
    and "async_step X (A, fs) Begin (A', fs') \<Longrightarrow> \<exists>work. begin_flush E = (E', Some work) \<and> d' = d \<and> fs' = fs @ [Copied work]"
    and "async_step X (A, fs) (Execute T i) (A', fs') \<Longrightarrow> \<exists>work meta. i < length fs \<and> fs ! i = Copied work \<and>
       FlushWork_execute X (ck_flush T) work d = Inr (meta, d') \<and> E' = E \<and> fs' = fs[i := Executed meta (fw_flushed_max_lsn work)]"
    and "async_step X (A, fs) (Finish i) (A', fs') \<Longrightarrow> \<exists>meta l. i < length fs \<and> fs ! i = Executed meta l \<and>
       finalize_flush X meta l (E, d) = ((E', d'), Inr ()) \<and> fs' = take i fs @ drop (Suc i) fs"
proof -
  show "is_call op \<and> engine_exec X T op (E, d) = ((E', d'), Inr ()) \<and> fs' = fs" if "async_step X (A, fs) (Call T op) (A', fs')"
    using that run_write_Inr [of "engine_exec X T op" A A' "()"] assms by (auto elim: async_step.cases)
  show "\<exists>work. begin_flush E = (E', Some work) \<and> d' = d \<and> fs' = fs @ [Copied work]" if st: "async_step X (A, fs) Begin (A', fs')"
  proof -
    from st obtain work where w: "flush_begin A = (A', Inr work)" "fs' = fs @ [Copied work]" by (auto elim: async_step.cases)
    then show ?thesis using run_write_Inr [OF w(1) [unfolded flush_begin_def]] assms by (auto split: prod.splits option.splits)
  qed
  show "\<exists>work meta. i < length fs \<and> fs ! i = Copied work \<and> FlushWork_execute X (ck_flush T) work d = Inr (meta, d') \<and> E' = E \<and>
      fs' = fs[i := Executed meta (fw_flushed_max_lsn work)]" if st: "async_step X (A, fs) (Execute T i) (A', fs')"
  proof -
    from st obtain work meta where w: "i < length fs" "fs ! i = Copied work" "flush_write X T work A = (A', Inr meta)"
      "fs' = fs[i := Executed meta (fw_flushed_max_lsn work)]" by (auto elim: async_step.cases)
    then show ?thesis using run_write_Inr [OF w(3) [unfolded flush_write_def]] assms by (auto split: sum.splits)
  qed
  show "\<exists>meta l. i < length fs \<and> fs ! i = Executed meta l \<and> finalize_flush X meta l (E, d) = ((E', d'), Inr ()) \<and>
      fs' = take i fs @ drop (Suc i) fs" if st: "async_step X (A, fs) (Finish i) (A', fs')"
  proof -
    from st obtain meta l where w: "i < length fs" "fs ! i = Executed meta l" "flush_register X meta l A = (A', Inr meta)"
      "fs' = take i fs @ drop (Suc i) fs" by (auto elim: async_step.cases)
    have "st_then (finalize_flush X meta l (E, d)) (\<lambda>st _. (st, Inr meta)) = ((E', d'), Inr meta)"
      using run_write_Inr [OF w(3) [unfolded flush_register_def]] assms by simp
    with w show ?thesis by (auto elim: st_then.elims)
  qed
qed

lemma begin_step:
  assumes "flushing X E d ess fs snaps" "begin_flush E = (E', Some work)" "fits X E (en_memtable E)"
  shows "E' = E\<lparr>en_segment_store := (en_segment_store E)\<lparr>ss_next_segment_id := ss_next_segment_id (en_segment_store E) + 1\<rparr>\<rparr> \<and>
     fw_segment_id work = ss_next_segment_id (en_segment_store E) \<and>
     flushing X E' d ess (fs @ [Copied work]) (snaps @ [en_memtable E])"
proof -
  let ?s = "en_segment_store E" and ?i = "ss_next_segment_id (en_segment_store E)"
  let ?s' = "?s\<lparr>ss_next_segment_id := ?i + 1\<rparr>"
  note f = flushingD [OF assms(1)]
  have fit: "flushable X (cohort_window_secs (en_config E)) (en_memtable E)" "?i + 1 \<noteq> 0" using assms(3) by (simp_all add: fits_def)
  then have ne: "en_memtable E \<noteq> []" by (simp add: flushable_def)
  have w: "E' = E\<lparr>en_segment_store := ?s'\<rparr>" "fw_entries work = en_memtable E" "fw_segment_id work = ?i"
    "fw_cohort_window_secs work = cohort_window_secs (en_config E)" "fw_flushed_max_lsn work = max_lsn (en_memtable E)"
    using assms(2) ne engine_invD(3) [OF f(1)]
    by (auto simp: begin_flush_def prepare_flush_def btree_is_empty_def btree_len_def btree_iter_def Let_def max_lsn_def)
  have lt: "?i < ?i + 1" using fit(2) by (rule word_less_Suc_self)
  have ok: "store_ok X d ?s ess" using engine_invD(1) [OF f(1)] .
  then have "store_ok X d ?s' ess" unfolding store_ok_def using lt by (auto intro: less_trans)
  then have "engine_inv X E' d ess" using f(1) by (simp add: engine_inv_def w(1))
  moreover have "task_id t < ?i + 1 \<and> task_id t \<noteq> ?i" if "t \<in> set fs" for t
    using f(4) [OF that] lt by auto
  moreover have "?i \<notin> task_id ` set fs" using f(4) by force
  moreover have "?i \<notin> set (segment_ids ?s)" by (rule next_id_fresh [OF ok])
  moreover have "segment_ids ?s' = segment_ids ?s" by (simp add: segment_ids_def)
  ultimately have "flushing X E' d ess (fs @ [Copied work]) (snaps @ [en_memtable E])"
    using f(2,3,5) w fit(1) lt by (auto simp: flushing_def list_all2_appendI)
  with w(1,3) show ?thesis by blast
qed

lemma execute_step:
  assumes "zstd_ok X" "json_ok X" "xor8_ok X" "flushing X E d ess fs snaps"
    and "i < length fs" "fs ! i = Copied work" "FlushWork_execute X now work d = Inr (meta, d')"
  shows "flushing X E d' ess (fs[i := Executed meta (fw_flushed_max_lsn work)]) snaps \<and> m_segment_id meta = fw_segment_id work \<and>
     (\<forall>p. (\<forall>x. p \<noteq> segment_file (fw_segment_id work) x) \<longrightarrow> fs_read d' p = fs_read d p)"
proof -
  let ?w = "cohort_window_secs (en_config E)" and ?j = "fw_segment_id work"
  note f = flushingD [OF assms(4)]
  have len: "length snaps = length fs" using f(2) by (simp add: list_all2_lengthD)
  have t: "task_ok X ?w d (Copied work) (snaps ! i)" using f(2) assms(5,6) by (metis list_all2_nthD)
  then have w: "fw_entries work = snaps ! i" "fw_cohort_window_secs work = ?w" "flushable X ?w (snaps ! i)"
    "fw_flushed_max_lsn work = max_lsn (snaps ! i)" by simp_all
  obtain r where fl: "SegmentReader_open X ?j d' = Inr r" "segment_inv X d' r (snaps ! i)" "sr_segment_id r = ?j" "m_segment_id meta = ?j"
    "\<forall>p. (\<forall>x. p \<noteq> segment_file ?j x) \<longrightarrow> fs_read d' p = fs_read d p"
    using flush_segment [OF assms(1-3) w(3), of ?j now d] assms(7) w(1,2) by (auto simp: FlushWork_execute_def)
  have frame: "fs_read d' (segment_file j x) = fs_read d (segment_file j x)" if "j \<noteq> ?j" for j x
    using fl(5) that by simp
  have mem: "Copied work \<in> set fs" using assms(5,6) by (metis nth_mem)
  have "store_ok X d' (en_segment_store E) ess"
  proof (rule store_ok_frame [OF engine_invD(1) [OF f(1)]], use fl(5) in simp, intro ballI allI)
    fix q x assume "q \<in> set (ss_readers (en_segment_store E))"
    then have "sr_segment_id q \<noteq> ?j" using f(5) [OF mem] by (force simp: segment_ids_def)
    then show "fs_read d' (segment_file (sr_segment_id q) x) = fs_read d (segment_file (sr_segment_id q) x)" using fl(5) by simp
  qed
  then have "engine_inv X E d' ess" using f(1) by (simp add: engine_inv_def)
  moreover have "list_all2 (task_ok X ?w d') (fs[i := Executed meta (fw_flushed_max_lsn work)]) snaps"
    unfolding list_all2_conv_all_nth
  proof (intro conjI allI impI)
    fix n assume n: "n < length (fs[i := Executed meta (fw_flushed_max_lsn work)])"
    show "task_ok X ?w d' (fs[i := Executed meta (fw_flushed_max_lsn work)] ! n) (snaps ! n)"
    proof (cases "n = i")
      case True
      then show ?thesis using fl assms(5) w(3,4) task_ok_snap [OF t] by simp
    next
      case False
      have "task_ok X ?w d (fs ! n) (snaps ! n)" using f(2) n by (simp add: list_all2_nthD)
      have "map task_id fs ! n \<noteq> map task_id fs ! i"
        using nth_eq_iff_index_eq [OF f(3), of n i] False n assms(5) by simp
      then have "task_id (fs ! n) \<noteq> ?j" using n assms(5) by (simp add: assms(6))
      then have "task_ok X ?w d' (fs ! n) (snaps ! n)"
        by (intro task_ok_frame [OF \<open>task_ok X ?w d (fs ! n) (snaps ! n)\<close>]) (simp add: frame)
      then show ?thesis using False by simp
    qed
  qed (use len in simp)
  moreover have ids: "map task_id (fs[i := Executed meta (fw_flushed_max_lsn work)]) = map task_id fs"
    using assms(5,6) fl(4) by (simp add: map_update list_update_same_conv)
  moreover have "task_id t < ss_next_segment_id (en_segment_store E) \<and> task_id t \<notin> set (segment_ids (en_segment_store E))"
    if "t \<in> set (fs[i := Executed meta (fw_flushed_max_lsn work)])" for t
  proof -
    have "task_id t \<in> set (map task_id fs)" using that ids by (metis image_eqI list.set_map)
    then show ?thesis using f(4,5) by auto
  qed
  ultimately show ?thesis using f(3) fl(4,5) by (simp add: flushing_def)
qed

lemma rebuild_memtable:
  assumes "ksorted t" "distinct (map fst xs)"
  shows "ksorted (fold (\<lambda>(k, e) t. btree_insert k e t) xs t) \<and>
      map_of (fold (\<lambda>(k, e) t. btree_insert k e t) xs t) = map_of t ++ map_of xs \<and>
      set (fold (\<lambda>(k, e) t. btree_insert k e t) xs t) \<subseteq> set t \<union> set xs"
  using assms
proof (induction xs arbitrary: t)
  case (Cons x xs)
  obtain k e where x: "x = (k, e)" by fastforce
  let ?t = "btree_insert k e t"
  have IH: "ksorted (fold (\<lambda>(k, e) t. btree_insert k e t) xs ?t)"
    "map_of (fold (\<lambda>(k, e) t. btree_insert k e t) xs ?t) = map_of ?t ++ map_of xs"
    "set (fold (\<lambda>(k, e) t. btree_insert k e t) xs ?t) \<subseteq> set ?t \<union> set xs"
    using Cons.IH [OF btree_insert_sorted [OF Cons.prems(1), of k e]] Cons.prems(2) by simp_all
  have "k \<notin> dom (map_of xs)" using Cons.prems(2) by (simp add: x dom_map_of_conv_image_fst)
  then have m: "map_of ?t ++ map_of xs = map_of t ++ map_of (x # xs)"
    by (auto simp: x btree_insert_map_of map_add_def fun_eq_iff domIff split: option.split)
  have sub: "set ?t \<subseteq> insert (k, e) (set t)" by (rule btree_insert_set)
  have f: "fold (\<lambda>(k, e) t. btree_insert k e t) (x # xs) t = fold (\<lambda>(k, e) t. btree_insert k e t) xs ?t" by (simp add: x)
  show ?case unfolding f using IH(1) IH(2) [unfolded m] IH(3) sub by (auto simp only: x list.set)
qed simp

lemma finish_step:
  assumes "flushing X E d ess fs snaps" "i < length fs" "fs ! i = Executed meta l"
    and "finalize_flush X meta l (E, d) = ((E', d'), Inr ())"
  shows "flushing X E' d' (ess @ [snaps ! i]) (take i fs @ drop (Suc i) fs) (take i snaps @ drop (Suc i) snaps) \<and>
     l = max_lsn (snaps ! i) \<and> ksorted (snaps ! i) \<and>
     map_of (en_memtable E') = map_of (filter (\<lambda>(_, e). e_lsn e > l) (en_memtable E)) \<and>
     set (en_memtable E') \<subseteq> {x \<in> set (en_memtable E). e_lsn (snd x) > l} \<and> en_lsn_counter E' = en_lsn_counter E \<and> en_config E' = en_config E"
proof -
  let ?w = "cohort_window_secs (en_config E)" and ?s = "en_segment_store E" and ?j = "m_segment_id meta"
  let ?rem = "filter (\<lambda>(_, e). e_lsn e > l) (en_memtable E)"
  note f = flushingD [OF assms(1)]
  have t: "task_ok X ?w d (Executed meta l) (snaps ! i)" using f(2) assms(2,3) by (metis list_all2_nthD)
  then obtain r where r: "SegmentReader_open X ?j d = Inr r" "segment_inv X d r (snaps ! i)" "sr_segment_id r = ?j" by auto
  have mem: "Executed meta l \<in> set fs" using assms(2,3) by (metis nth_mem)
  obtain st q where fin: "finalize_segment X meta ?s d = (st, q)" by fastforce
  have q: "q = Inr ()" using assms(4) fin by (cases q; cases st) (auto simp: finalize_flush_def Let_def)
  have eo: "entry_ok X (addition meta)" using finalize_fits fin q by metis
  obtain s' d1 where s': "finalize_segment X meta ?s d = ((s', d1), Inr ())" "store_ok X d1 s' (ess @ [snaps ! i])"
    "ss_next_segment_id s' = ss_next_segment_id ?s" "ss_cohort_window_secs s' = ss_cohort_window_secs ?s"
    "ss_readers s' = ss_readers ?s @ [r]" "\<forall>p. p \<noteq> manifest_path \<longrightarrow> fs_read d1 p = fs_read d p"
    using finalize_ok [OF engine_invD(1) [OF f(1)] eo refl r] f(4) [OF mem] f(5) [OF mem] by auto
  have E': "E' = E\<lparr>en_segment_store := s', en_memtable := fold (\<lambda>(k, e) t. btree_insert k e t) ?rem []\<rparr>"
    "d' = retire_wal_files (w_path (en_wal E)) d1"
    using assms(4) s'(1) by (simp_all add: finalize_flush_def BTreeMemTable_new_def btree_iter_def)
  have srt: "ksorted ?rem" using engine_invD(2) [OF f(1)] by (rule ksorted_filter)
  have mt: "ksorted (en_memtable E')" "map_of (en_memtable E') = map_of ?rem" "set (en_memtable E') \<subseteq> set ?rem"
    using rebuild_memtable [OF _ ksorted_distinct [OF srt], of "[]"] by (simp_all add: E')
  have read: "fs_read d' p = fs_read d1 p" if "\<not> is_wal_name p" for p
    using that by (simp add: E'(2) retire_wal_files_read)
  have "store_ok X d' s' (ess @ [snaps ! i])" by (rule store_ok_wal_frame [OF s'(2)]) (simp add: read)
  then have inv: "engine_inv X E' d' (ess @ [snaps ! i])"
    using f(1) mt(1) s'(4) by (simp add: engine_inv_def E'(1))
  have seg: "fs_read d' (segment_file j x) = fs_read d (segment_file j x)" for j x
  proof -
    have "\<not> is_wal_name (segment_file j x)" using wal_not_segment(1) by blast
    then show ?thesis using read s'(6) by simp
  qed
  let ?fs = "take i fs @ drop (Suc i) fs" and ?sn = "take i snaps @ drop (Suc i) snaps"
  have "list_all2 (task_ok X ?w d') fs snaps"
    using f(2) by (rule list_all2_mono) (erule task_ok_frame, simp add: seg)
  then have "list_all2 (task_ok X (cohort_window_secs (en_config E')) d') ?fs ?sn"
    by (simp add: E'(1) list_all2_appendI)
  moreover have perm: "map task_id fs = map task_id (take i fs) @ ?j # map task_id (drop (Suc i) fs)"
    using assms(2,3) by (metis id_take_nth_drop list.simps(9) map_append task_id.simps(2))
  then have dist: "distinct (map task_id ?fs)" "?j \<notin> task_id ` set ?fs" using f(3) by auto
  have sub: "set ?fs \<subseteq> set fs" by (auto dest: in_set_takeD in_set_dropD)
  have ids: "segment_ids s' = segment_ids ?s @ [?j]" by (simp add: segment_ids_def s'(5) r(3))
  have "task_id t < ss_next_segment_id s' \<and> task_id t \<notin> set (segment_ids s')" if "t \<in> set ?fs" for t
  proof -
    have "t \<in> set fs" using that sub by blast
    moreover have "task_id t \<noteq> ?j" using imageI [OF that, of task_id] dist(2) by metis
    ultimately show ?thesis using f(4,5) by (simp add: ids s'(3))
  qed
  ultimately have "flushing X E' d' (ess @ [snaps ! i]) ?fs ?sn"
    using inv dist(1) by (simp add: flushing_def E'(1))
  with mt t show ?thesis by (auto simp: E'(1))
qed

section \<open>Writes while a flush is in progress\<close>

text \<open>The entry a put or delete makes.\<close>

fun call_kv :: "ext \<Rightarrow> Clock \<Rightarrow> engine_op \<Rightarrow> Lsn \<Rightarrow> bytes \<times> MemEntry" where
  "call_kv X T (OpPut ns k v) l = record_kv (put_record X T ns k v 0 l)"
| "call_kv X T (OpPutTtl ns k v ttl) l = record_kv (put_record X T ns k v ttl l)"
| "call_kv X T (OpDelete ns k) l = record_kv (delete_record X T ns k l)"
| "call_kv X T op l = undefined"

fun call_ns :: "engine_op \<Rightarrow> bytes" where
  "call_ns (OpPut ns k v) = ns"
| "call_ns (OpPutTtl ns k v ttl) = ns"
| "call_ns (OpDelete ns k) = ns"
| "call_ns op = []"

text \<open>A call that does not flush by itself.\<close>

fun no_auto_flush :: "ext \<Rightarrow> Clock \<Rightarrow> engine_op \<Rightarrow> Engine \<Rightarrow> bool" where
  "no_auto_flush X T (OpPut ns k v) E \<longleftrightarrow>
     (let r = record_kv (put_record X T ns k v 0 (en_lsn_counter E + 1)) in \<not> flush_due E (btree_insert (fst r) (snd r) (en_memtable E)))"
| "no_auto_flush X T op E \<longleftrightarrow> True"

lemma call_logged:
  assumes "is_call op" "engine_exec X T op (E, d) = ((E', d'), Inr ())" "no_auto_flush X T op E" "ns_ok (call_ns op)" "engine_inv X E d ess"
  shows "\<exists>r. logged X T r (E, d) = ((E', d'), Inr (r_lsn r)) \<and> r_lsn r = en_lsn_counter E + 1 \<and>
     record_kv r = call_kv X T op (en_lsn_counter E + 1)"
proof (cases op)
  case (OpPut ns k v)
  let ?r = "put_record X T ns k v 0 (en_lsn_counter E + 1)"
  have ns: "ns_ok ns" using assms(4) OpPut by simp
  obtain l where p: "Engine_put X T ns k v (E, d) = ((E', d'), Inr l)" using assms(2) OpPut by (auto simp: completed_def elim: st_then.elims)
  then have w: "\<not> readonly (en_config E)" by (auto simp: Engine_put_def split: if_splits)
  obtain E1 d1 q where lg: "logged X T ?r (E, d) = ((E1, d1), q)" by (metis prod.exhaust)
  have put: "Engine_put X T ns k v (E, d) = st_then ((E1, d1), q) (\<lambda>(E1, d1) lsn.
      if flush_due E1 (en_memtable E1) then st_then (flush_to_segments X T (E1, d1)) (\<lambda>st _. (st, Inr lsn))
      else ((E1, d1), Inr lsn))"
    using ns w lg by (simp add: Engine_put_def write_entry_logged [OF ns] ns_ok_def flush_due_def not_less)
  then obtain l1 where q: "q = Inr l1" using p by (cases q) auto
  note sp = logged_spec [OF lg [unfolded q] assms(5)]
  have "\<not> flush_due E1 (en_memtable E1)" using assms(3) sp OpPut by (simp add: flush_due_def Let_def)
  with put p q have "E1 = E'" "d1 = d'" by simp_all
  with lg q sp OpPut show ?thesis by (intro exI [of _ ?r]) (simp add: put_record_def)
next
  case (OpPutTtl ns k v ttl)
  let ?r = "put_record X T ns k v ttl (en_lsn_counter E + 1)"
  have ns: "ns_ok ns" using assms(4) OpPutTtl by simp
  obtain l where p: "Engine_put_with_ttl X T ns k v ttl (E, d) = ((E', d'), Inr l)"
    using assms(2) OpPutTtl by (auto simp: completed_def elim: st_then.elims)
  then have lg: "logged X T ?r (E, d) = ((E', d'), Inr l)"
    using ns by (auto simp: Engine_put_with_ttl_def write_entry_logged split: if_splits)
  with logged_spec [OF lg assms(5)] OpPutTtl show ?thesis by (intro exI [of _ ?r]) (simp add: put_record_def)
next
  case (OpDelete ns k)
  let ?r = "delete_record X T ns k (en_lsn_counter E + 1)"
  have ns: "ns_ok ns" using assms(4) OpDelete by simp
  obtain l where p: "Engine_delete X T ns k (E, d) = ((E', d'), Inr l)" using assms(2) OpDelete by (auto simp: completed_def elim: st_then.elims)
  then have "\<not> readonly (en_config E)" by (auto simp: Engine_delete_def split: if_splits)
  then have lg: "logged X T ?r (E, d) = ((E', d'), Inr l)" using p delete_logged [OF ns] by simp
  with logged_spec [OF lg assms(5)] OpDelete show ?thesis by (intro exI [of _ ?r]) (simp add: delete_record_def)
qed (use assms(1) in simp_all)

lemma call_step:
  assumes "flushing X E d ess fs snaps" "is_call op" "engine_exec X T op (E, d) = ((E', d'), Inr ())"
    and "no_auto_flush X T op E" "ns_ok (call_ns op)"
  shows "flushing X E' d' ess fs snaps \<and> en_lsn_counter E' = en_lsn_counter E + 1 \<and>
     en_memtable E' = btree_insert (fst (call_kv X T op (en_lsn_counter E + 1))) (snd (call_kv X T op (en_lsn_counter E + 1))) (en_memtable E)
     \<and> e_lsn (snd (call_kv X T op (en_lsn_counter E + 1))) = en_lsn_counter E + 1 \<and> en_config E' = en_config E \<and>
     en_segment_store E' = en_segment_store E"
proof -
  note f = flushingD [OF assms(1)]
  obtain r where r: "logged X T r (E, d) = ((E', d'), Inr (r_lsn r))" "r_lsn r = en_lsn_counter E + 1"
    "record_kv r = call_kv X T op (en_lsn_counter E + 1)" using call_logged [OF assms(2-5) f(1)] by blast
  note sp = logged_spec [OF r(1) f(1)]
  have seg: "fs_read d' (segment_file j x) = fs_read d (segment_file j x)" for j x
    using logged_frame [OF r(1) engine_invD(4) [OF f(1)], of "segment_file j x"] wal_not_segment(1) by blast
  have "list_all2 (task_ok X (cohort_window_secs (en_config E)) d') fs snaps"
    using f(2) by (rule list_all2_mono) (erule task_ok_frame, simp add: seg)
  moreover have eqs: "en_config E' = en_config E" "en_segment_store E' = en_segment_store E" "engine_inv X E' d' ess" using sp by blast+
  ultimately have "flushing X E' d' ess fs snaps" using f(3-5) by (simp add: flushing_def)
  with sp r(2,3) record_kv_lsn [of r] show ?thesis by simp
qed

end
