(* ===== verification/TokioFacts.thy ===== *)
theory TokioFacts
  imports TokioFlush
begin

text \<open>
  Flushing in the background. While one flush is in progress puts and deletes go on and no lookup
  sees the flush; two flushes that overlap can bring back an old value.
\<close>

section \<open>One flush in the background\<close>

text \<open>The copy against the memtable: every entry of the memtable is newer than the copy or in it.\<close>

definition copied_from :: "kv list \<Rightarrow> BTreeMemTable \<Rightarrow> bool" where
  "copied_from es mt \<longleftrightarrow> (\<forall>x \<in> set mt. e_lsn (snd x) > max_lsn es \<or> x \<in> set es) \<and> fst ` set es \<subseteq> fst ` set mt"

lemma copied_insert:
  assumes "copied_from es mt" "max_lsn es < e_lsn e"
  shows "copied_from es (btree_insert k e mt)"
proof -
  have "fst ` set (btree_insert k e mt) = insert k (fst ` set mt)" using btree_insert_keys [of k e mt] by simp
  moreover have "e_lsn (snd x) > max_lsn es \<or> x \<in> set es" if "x \<in> set (btree_insert k e mt)" for x
    using that btree_insert_set [of k e mt] assms unfolding copied_from_def by auto
  ultimately show ?thesis using assms(1) unfolding copied_from_def by blast
qed

lemma finish_view:
  assumes "copied_from es mt" "ksorted es" "ksorted mt" "map_of mt' = map_of (filter (\<lambda>(_, e). e_lsn e > max_lsn es) mt)"
  shows "view mt' (ess @ [es]) = view mt ess"
proof
  fix k
  have flt: "map_of mt' k = (case map_of mt k of None \<Rightarrow> None | Some e \<Rightarrow> if e_lsn e > max_lsn es then Some e else None)"
  proof -
    have "map_of (filter (\<lambda>(_, e). P e) mt) k = (case map_of mt k of None \<Rightarrow> None | Some e \<Rightarrow> if P e then Some e else None)" for P
      using ksorted_distinct [OF assms(3)]
    proof (induction mt)
      case (Cons x mt)
      then show ?case by (cases x) (auto split: option.split simp: map_of_eq_None_iff [symmetric] dest: map_of_SomeD)
    qed simp
    then show ?thesis by (simp add: assms(4))
  qed
  show "view mt' (ess @ [es]) k = view mt ess k"
  proof (cases "map_of mt k")
    case None
    then have "k \<notin> fst ` set mt" by (simp add: map_of_eq_None_iff)
    then have "map_of es k = None" using assms(1) by (auto simp: map_of_eq_None_iff copied_from_def)
    then show ?thesis using None flt by (simp add: view_def map_add_def)
  next
    case (Some e)
    show ?thesis
    proof (cases "e_lsn e > max_lsn es")
      case False
      then have "(k, e) \<in> set es" using assms(1) map_of_SomeD [OF Some] unfolding copied_from_def by fastforce
      then have "map_of es k = Some e" using ksorted_map_of [OF assms(2)] by blast
      then show ?thesis using Some flt False by (simp add: view_def map_add_def)
    qed (use Some flt in \<open>simp add: view_def map_add_def\<close>)
  qed
qed

definition background :: "ext \<Rightarrow> async_state \<Rightarrow> bool" where
  "background X = (\<lambda>(A, fs). zstd_ok X \<and> json_ok X \<and> xor8_ok X \<and> length fs \<le> 1 \<and>
     (\<exists>ess snaps. flushing X (fst (inner A)) (snd (inner A)) ess fs snaps \<and>
        versions_ok ess (en_memtable (fst (inner A))) (en_lsn_counter (fst (inner A))) \<and>
        (\<forall>es \<in> set snaps. versions_ok ess es (en_lsn_counter (fst (inner A))) \<and> copied_from es (en_memtable (fst (inner A))))))"

lemma backgroundI:
  assumes "zstd_ok X" "json_ok X" "xor8_ok X" "length fs \<le> 1" "inner A = (E, d)"
    and "flushing X E d ess fs snaps" "versions_ok ess (en_memtable E) (en_lsn_counter E)"
    and "\<forall>es \<in> set snaps. versions_ok ess es (en_lsn_counter E) \<and> copied_from es (en_memtable E)"
  shows "background X (A, fs)"
  using assms by (auto simp: background_def)

text \<open>What has to hold for a step to be within the limits of the formats.\<close>

fun step_fits :: "ext \<Rightarrow> async_event \<Rightarrow> async_state \<Rightarrow> bool" where
  "step_fits X (Call T op) (A, fs) \<longleftrightarrow> ns_ok (call_ns op) \<and> engine_room 1 (inner A) \<and> no_auto_flush X T op (fst (inner A))"
| "step_fits X Begin (A, fs) \<longleftrightarrow> fits X (fst (inner A)) (en_memtable (fst (inner A)))"
| "step_fits X ev (A, fs) \<longleftrightarrow> True"

fun spec_event :: "async_event \<Rightarrow> kvmap \<Rightarrow> kvmap" where
  "spec_event (Call T op) m = spec_op op m"
| "spec_event ev m = m"

inductive one_flush_run :: "ext \<Rightarrow> async_state \<Rightarrow> async_event list \<Rightarrow> async_state \<Rightarrow> bool" for X where
  one_nil: "one_flush_run X s [] s"
| one_cons: "step_fits X ev s \<Longrightarrow> (ev = Begin \<longrightarrow> snd s = []) \<Longrightarrow> async_step X s ev s1 \<Longrightarrow> one_flush_run X s1 evs s2 \<Longrightarrow>
    one_flush_run X s (ev # evs) s2"

lemma versions_mono: "versions_ok ess es l \<Longrightarrow> l \<le> l' \<Longrightarrow> versions_ok ess es l'"
  by (auto simp: versions_ok_def intro: order_trans)

lemma versions_finish:
  assumes "versions_ok ess es l" "versions_ok ess mt l" "set mt' \<subseteq> {x \<in> set mt. e_lsn (snd x) > max_lsn es}"
  shows "versions_ok (ess @ [es]) mt' l"
proof -
  have "e_lsn (snd x) < e_lsn (snd y)" if "x \<in> set es" "y \<in> set mt'" for x y
    using max_lsn_ge [OF that(1)] assms(3) that(2) by (auto intro: le_less_trans)
  moreover have "lsn_ordered (ess @ [es])" "lsn_ordered (ess @ [mt])" using assms(1,2) by (simp_all add: versions_ok_def)
  then have "sorted_wrt (\<lambda>es es'. \<forall>x \<in> set es. \<forall>y \<in> set es'. fst x = fst y \<longrightarrow> e_lsn (snd x) < e_lsn (snd y) \<or> snd x = snd y) (ess @ [es])"
    "\<forall>xs \<in> set ess. \<forall>x \<in> set xs. \<forall>y \<in> set mt. fst x = fst y \<longrightarrow> e_lsn (snd x) < e_lsn (snd y) \<or> snd x = snd y"
    unfolding lsn_ordered_def sorted_wrt_append by simp_all
  moreover have "set mt' \<subseteq> set mt" using assms(3) by blast
  ultimately have "lsn_ordered ((ess @ [es]) @ [mt'])"
    unfolding lsn_ordered_def by (subst sorted_wrt_append) (simp, blast)
  moreover have "e_lsn (snd x) \<le> l" if "xs \<in> set ((ess @ [es]) @ [mt'])" "x \<in> set xs" for xs x
    using that assms unfolding versions_ok_def by auto
  ultimately show ?thesis unfolding versions_ok_def by blast
qed

lemma call_kv_spec:
  "is_call op \<Longrightarrow> \<exists>k. fst (call_kv X T op l) = enc (call_ns op) k \<and>
     (\<forall>m. spec_op op m = m((call_ns op, k) := visible (Some (snd (call_kv X T op l)))))"
  by (cases op) (auto simp: record_kv_put record_kv_delete visible_def)

lemma background_step:
  assumes "background X (A, fs)" "step_fits X ev (A, fs)" "ev = Begin \<longrightarrow> fs = []" "async_step X (A, fs) ev (A', fs')"
    and "ns_ok ns"
  shows "background X (A', fs') \<and>
     engine_contents X (inner A') (ns, k) = spec_event ev (engine_contents X (inner A)) (ns, k)"
proof -
  obtain E d E' d' where st: "inner A = (E, d)" "inner A' = (E', d')" by (metis prod.exhaust)
  have laws: "zstd_ok X" "json_ok X" "xor8_ok X" "length fs \<le> 1" using assms(1) by (simp_all add: background_def)
  obtain ess snaps where b: "flushing X E d ess fs snaps" "versions_ok ess (en_memtable E) (en_lsn_counter E)"
    "\<forall>es \<in> set snaps. versions_ok ess es (en_lsn_counter E) \<and> copied_from es (en_memtable E)"
    using assms(1) by (auto simp: background_def st)
  note f = flushingD [OF b(1)]
  have get: "engine_contents X (F, c) (ns, k) = visible (view (en_memtable F) es (enc ns k))" if "engine_inv X F c es" for F c es
    using engine_get_view [OF laws(1) that assms(5)] by (simp add: engine_contents_def)
  show ?thesis
  proof (cases ev)
    case (Call T op)
    have ex: "is_call op" "engine_exec X T op (E, d) = ((E', d'), Inr ())" "fs' = fs"
      using step_inv(1) [OF st assms(4) [unfolded Call]] by blast+
    have fit: "ns_ok (call_ns op)" "unat (en_lsn_counter E) + 1 < 2 ^ 64" "no_auto_flush X T op E"
      using assms(2) by (simp_all add: Call st engine_room_def)
    let ?l = "en_lsn_counter E" and ?kv = "call_kv X T op (en_lsn_counter E + 1)"
    have lt: "?l < ?l + 1" using fit(2) by (simp add: word_less_nat_alt unat_word_ariths)
    note c = call_step [OF b(1) ex(1,2) fit(3,1)]
    then have c1: "flushing X E' d' ess fs snaps" "en_lsn_counter E' = ?l + 1" "en_memtable E' = btree_insert (fst ?kv) (snd ?kv) (en_memtable E)"
      "e_lsn (snd ?kv) = ?l + 1" by blast+
    have "versions_ok ess (en_memtable E') (?l + 1)"
      using versions_insert [OF b(2), of "snd ?kv" "fst ?kv"] lt c1(3,4) by simp
    moreover have "versions_ok ess es (?l + 1) \<and> copied_from es (en_memtable E')" if "es \<in> set snaps" for es
    proof -
      have es: "versions_ok ess es ?l" "copied_from es (en_memtable E)" using b(3) that by blast+
      have "es \<noteq> []" using f(2) that task_ok_snap by (metis in_set_conv_nth list_all2_conv_all_nth)
      moreover have "\<forall>x \<in> set es. e_lsn (snd x) \<le> ?l" using es(1) by (simp add: versions_ok_def)
      ultimately have "max_lsn es \<le> ?l" by (rule max_lsn_le)
      then have "max_lsn es < e_lsn (snd ?kv)" unfolding c1(4) using lt by (rule le_less_trans)
      then show ?thesis unfolding c1(3) using copied_insert [OF es(2)] versions_mono [OF es(1) less_imp_le [OF lt]] by blast
    qed
    ultimately have "background X (A', fs')" using laws c1(1,2) by (auto simp: background_def st ex(3))
    moreover have "engine_contents X (E', d') (ns, k) = spec_op op (engine_contents X (E, d)) (ns, k)"
    proof -
      obtain k0 where kv: "fst ?kv = enc (call_ns op) k0" "\<forall>m. spec_op op m = m((call_ns op, k0) := visible (Some (snd ?kv)))"
        using call_kv_spec [OF ex(1)] by blast
      have "engine_contents X (E', d') (ns, k) = visible (((view (en_memtable E) ess)(enc (call_ns op) k0 \<mapsto> snd ?kv)) (enc ns k))"
        unfolding get [OF flushingD(1) [OF c1(1)]] c1(3) view_simps kv(1) ..
      also have "\<dots> = spec_op op (engine_contents X (E, d)) (ns, k)"
      proof (cases "ns = call_ns op \<and> k = k0")
        case True
        then show ?thesis unfolding kv(2) [rule_format] by (simp only: fun_upd_same)
      next
        case False
        then have "enc ns k \<noteq> enc (call_ns op) k0" using enc_inject [OF assms(5) fit(1)] by blast
        moreover have "spec_op op (engine_contents X (E, d)) (ns, k) = engine_contents X (E, d) (ns, k)"
          using False unfolding kv(2) [rule_format] by (intro fun_upd_other) blast
        ultimately show ?thesis unfolding get [OF f(1)] by (simp only: fun_upd_other not_False_eq_True)
      qed
      finally show ?thesis .
    qed
    ultimately show ?thesis by (simp add: Call st)
  next
    case Begin
    obtain work where bf: "begin_flush E = (E', Some work)" "d' = d" and w: "fs' = fs @ [Copied work]"
      using step_inv(2) [OF st assms(4) [unfolded Begin]] by blast
    have "fits X E (en_memtable E)" using assms(2) by (simp add: Begin st)
    note s = begin_step [OF b(1) bf(1) this]
    then have fl: "flushing X E' d ess (fs @ [Copied work]) (snaps @ [en_memtable E])" by blast
    have "en_memtable E' = en_memtable E" "en_lsn_counter E' = en_lsn_counter E" using s by simp_all
    note s1 = this fl
    have "snaps = []" using f(2) assms(3) by (simp add: Begin)
    moreover have "copied_from (en_memtable E) (en_memtable E)" by (simp add: copied_from_def)
    moreover have "fs = []" using assms(3) by (simp add: Begin)
    ultimately have "background X (A', fs')" using s1 b(2)
      by (intro backgroundI [OF laws(1-3) _ st(2), of _ ess "[en_memtable E]"]) (simp_all add: w bf(2))
    moreover have "engine_contents X (E', d') (ns, k) = engine_contents X (E, d) (ns, k)"
      using get [OF flushingD(1) [OF s1(3)]] get [OF f(1)] by (simp add: s1(1) bf(2))
    ultimately show ?thesis by (simp add: Begin st)
  next
    case (Execute T i)
    obtain work meta where w: "i < length fs" "fs ! i = Copied work" "fs' = fs[i := Executed meta (fw_flushed_max_lsn work)]"
      and ex: "FlushWork_execute X (ck_flush T) work d = Inr (meta, d')" "E' = E"
      using step_inv(3) [OF st assms(4) [unfolded Execute]] by blast
    from execute_step [OF laws(1-3) b(1) w(1,2) ex(1)] have s: "flushing X E d' ess fs' snaps" by (simp add: w(3))
    then have "background X (A', fs')" using laws b(2,3) by (auto simp: background_def st ex(2) w(3))
    moreover have "engine_contents X (E', d') (ns, k) = engine_contents X (E, d) (ns, k)"
      using get [OF flushingD(1) [OF s]] get [OF f(1)] by (simp add: ex(2))
    ultimately show ?thesis by (simp add: Execute st)
  next
    case (Finish i)
    obtain meta l where w: "i < length fs" "fs ! i = Executed meta l" "fs' = take i fs @ drop (Suc i) fs"
      and fin: "finalize_flush X meta l (E, d) = ((E', d'), Inr ())"
      using step_inv(4) [OF st assms(4) [unfolded Finish]] by blast
    let ?es = "snaps ! i"
    note fs = finish_step [OF b(1) w(1,2) fin]
    then have l: "l = max_lsn ?es" by blast
    have s: "flushing X E' d' (ess @ [?es]) fs' (take i snaps @ drop (Suc i) snaps)" "l = max_lsn ?es" "ksorted ?es"
      "map_of (en_memtable E') = map_of (filter (\<lambda>(_, e). e_lsn e > max_lsn ?es) (en_memtable E))"
      "set (en_memtable E') \<subseteq> {x \<in> set (en_memtable E). e_lsn (snd x) > max_lsn ?es}" "en_lsn_counter E' = en_lsn_counter E"
      using fs unfolding l w(3) by blast+
    have len: "length snaps = length fs" using f(2) by (simp add: list_all2_lengthD)
    have es: "versions_ok ess ?es (en_lsn_counter E)" "copied_from ?es (en_memtable E)" using b(3) w(1) len by (metis nth_mem)+
    have "length fs = 1" "i = 0" using w(1) laws(4) by simp_all
    then have nil: "take i snaps @ drop (Suc i) snaps = []" "fs' = []" using len by (simp_all add: w(3))
    have "background X (A', fs')" using versions_finish [OF es(1) b(2) s(5)]
      by (intro backgroundI [OF laws(1-3) _ st(2) s(1) [unfolded nil(1)]]) (simp_all add: nil(2) s(6))
    moreover have "engine_contents X (E', d') (ns, k) = engine_contents X (E, d) (ns, k)"
      using get [OF flushingD(1) [OF s(1)]] get [OF f(1)] finish_view [OF es(2) s(3) engine_invD(2) [OF f(1)] s(4), of ess] by simp
    ultimately show ?thesis by (simp add: Finish st)
  qed
qed

lemma background_contents:
  assumes "background X (A, fs)" "step_fits X ev (A, fs)" "ev = Begin \<longrightarrow> fs = []" "async_step X (A, fs) ev (A', fs')"
  shows "engine_contents X (inner A') = spec_event ev (engine_contents X (inner A))"
proof
  fix p :: "bytes \<times> bytes"
  obtain ns k where p: "p = (ns, k)" by fastforce
  show "engine_contents X (inner A') p = spec_event ev (engine_contents X (inner A)) p"
  proof (cases "ns_ok ns")
    case True
    then show ?thesis using background_step [OF assms True, of k] by (simp add: p)
  next
    case False
    have none: "engine_contents X st (ns, k) = None" for st by (rule engine_contents_not_ok [OF False])
    show ?thesis
    proof (cases ev)
      case (Call T op)
      then have "is_call op" "ns_ok (call_ns op)" using assms(2,4) by (auto elim: async_step.cases)
      moreover from this(2) False have "call_ns op \<noteq> ns" by blast
      ultimately show ?thesis using call_kv_spec [of op X T 0] by (auto simp: p Call none)
    qed (simp_all add: p none)
  qed
qed

lemma one_flush_invariant:
  "one_flush_run X s evs s' \<Longrightarrow> background X s \<Longrightarrow>
   background X s' \<and> engine_contents X (inner (fst s')) = fold spec_event evs (engine_contents X (inner (fst s)))"
proof (induction rule: one_flush_run.induct)
  case (one_cons ev s s1 evs s2)
  obtain A fs A1 fs1 where st: "s = (A, fs)" "s1 = (A1, fs1)" by fastforce
  have pre: "background X (A, fs)" "step_fits X ev (A, fs)" "ev = Begin \<longrightarrow> fs = []" "async_step X (A, fs) ev (A1, fs1)"
    using one_cons.hyps(1-3) one_cons.prems by (simp_all add: st)
  have "ns_ok []" by (simp add: ns_ok_def U16_MAX_def)
  then have "background X s1" using background_step [OF pre] by (simp add: st)
  with one_cons.IH background_contents [OF pre] show ?case by (simp add: st)
qed simp

text \<open>
  C11: A flush in the background cannot be seen. Start from a consistent database without a flush in
  progress, and let puts and deletes of any tasks interleave in any order with the three phases of
  flushes of which at most one is in progress at a time. At every moment, in between the phases
  too, every lookup returns what the completed writes make of the initial map, and the database
  stays consistent. (Steps are within the limits of the formats, and no put fills the memtable so
  that it flushes by itself.)
\<close>

theorem background_flush_invisible:
  assumes "engine_ok X (inner A)" "one_flush_run X (A, []) evs (A', fs)" "ns_ok ns"
  shows "engine_ok X (inner A') \<and>
     async_get X ns key A' = Inr (fold spec_event evs (engine_contents X (inner A)) (ns, key))"
proof -
  have "background X (A, [])"
    using assms(1) by (auto simp: engine_ok_def background_def flushing_def intro!: exI [of _ "[] :: kv list list"])
  from one_flush_invariant [OF assms(2) this]
  have b: "background X (A', fs)" "engine_contents X (inner A') = fold spec_event evs (engine_contents X (inner A))" by simp_all
  have ok: "engine_ok X (inner A')" using b(1) by (auto simp: background_def engine_ok_def flushing_def)
  then show ?thesis using engine_get_contents [OF ok assms(3), of key] b(2) by (simp add: async_get_def run_read_def)
qed

section \<open>Overlapping flushes\<close>

inductive async_run :: "ext \<Rightarrow> async_state \<Rightarrow> async_event list \<Rightarrow> async_state \<Rightarrow> bool" for X where
  async_nil: "async_run X s [] s"
| async_cons: "step_fits X ev s \<Longrightarrow> async_step X s ev s1 \<Longrightarrow> async_run X s1 evs s2 \<Longrightarrow> async_run X s (ev # evs) s2"

inductive_cases async_run_cons: "async_run X s (ev # evs) s'"
inductive_cases async_run_nil: "async_run X s [] s'"

abbreviation flushing_at :: "ext \<Rightarrow> AsyncEngine \<Rightarrow> kv list list \<Rightarrow> flush_task list \<Rightarrow> kv list list \<Rightarrow> bool" where
  "flushing_at X A \<equiv> flushing X (fst (inner A)) (snd (inner A))"

abbreviation memtable_of :: "AsyncEngine \<Rightarrow> BTreeMemTable" where
  "memtable_of A \<equiv> en_memtable (fst (inner A))"

lemma inner_pair: "inner A = (fst (inner A), snd (inner A))"
  by simp

lemma at_call:
  assumes "flushing_at X A ess fs snaps" "async_step X (A, fs) (Call T op) (A', fs')" "step_fits X (Call T op) (A, fs)"
  shows "fs' = fs \<and> flushing_at X A' ess fs snaps \<and> is_call op \<and> ns_ok (call_ns op) \<and>
     (\<exists>l. memtable_of A' = btree_insert (fst (call_kv X T op l)) (snd (call_kv X T op l)) (memtable_of A))"
proof -
  have c: "is_call op" "engine_exec X T op (fst (inner A), snd (inner A)) = ((fst (inner A'), snd (inner A')), Inr ())" "fs' = fs"
    using step_inv(1) [OF inner_pair inner_pair assms(2)] by blast+
  have g: "no_auto_flush X T op (fst (inner A))" "ns_ok (call_ns op)" using assms(3) by simp_all
  show ?thesis using call_step [OF assms(1) c(1,2) g] c(1,3) g(2) by blast
qed

lemma at_begin:
  assumes "flushing_at X A ess fs snaps" "async_step X (A, fs) Begin (A', fs')" "step_fits X Begin (A, fs)"
  shows "\<exists>work. fs' = fs @ [Copied work] \<and> flushing_at X A' ess (fs @ [Copied work]) (snaps @ [memtable_of A]) \<and> memtable_of A' = memtable_of A"
proof -
  obtain work where w: "begin_flush (fst (inner A)) = (fst (inner A'), Some work)" "snd (inner A') = snd (inner A)" "fs' = fs @ [Copied work]"
    using step_inv(2) [OF inner_pair inner_pair assms(2)] by blast
  have "fits X (fst (inner A)) (memtable_of A)" using assms(3) by simp
  note b = begin_step [OF assms(1) w(1) this]
  then have "flushing_at X A' ess (fs @ [Copied work]) (snaps @ [memtable_of A])" unfolding w(2) by blast
  moreover have "memtable_of A' = memtable_of A" using b by simp
  ultimately show ?thesis using w(3) by blast
qed

lemma at_execute:
  assumes "zstd_ok X" "json_ok X" "xor8_ok X" "flushing_at X A ess fs snaps" "async_step X (A, fs) (Execute T i) (A', fs')"
  shows "\<exists>meta l. fs' = fs[i := Executed meta l] \<and> flushing_at X A' ess (fs[i := Executed meta l]) snaps \<and> memtable_of A' = memtable_of A"
proof -
  obtain work meta where w: "i < length fs" "fs ! i = Copied work" "FlushWork_execute X (ck_flush T) work (snd (inner A)) = Inr (meta, snd (inner A'))"
    and e: "fst (inner A') = fst (inner A)" and fs: "fs' = fs[i := Executed meta (fw_flushed_max_lsn work)]"
    using step_inv(3) [OF inner_pair inner_pair assms(5)] by blast
  show ?thesis using execute_step [OF assms(1-4) w] unfolding e fs by blast
qed

lemma at_finish:
  assumes "flushing_at X A ess fs snaps" "async_step X (A, fs) (Finish i) (A', fs')"
  shows "flushing_at X A' (ess @ [snaps ! i]) fs' (take i snaps @ drop (Suc i) snaps) \<and> fs' = take i fs @ drop (Suc i) fs \<and>
     set (memtable_of A') \<subseteq> {x \<in> set (memtable_of A). e_lsn (snd x) > max_lsn (snaps ! i)}"
proof -
  obtain meta l where w: "i < length fs" "fs ! i = Executed meta l" "finalize_flush X meta l (fst (inner A), snd (inner A)) = ((fst (inner A'), snd (inner A')), Inr ())"
    and fs: "fs' = take i fs @ drop (Suc i) fs"
    using step_inv(4) [OF inner_pair inner_pair assms(2)] by blast
  note f = finish_step [OF assms(1) w]
  then have "l = max_lsn (snaps ! i)" by blast
  with f show ?thesis unfolding fs by blast
qed

text \<open>A second flush that starts and ends within the first one.\<close>

definition nested_flushes :: "Clock \<Rightarrow> engine_op \<Rightarrow> engine_op \<Rightarrow> async_event list" where
  "nested_flushes T op1 op2 = [Call T op1, Begin, Call T op2, Begin, Execute T 1, Finish 1, Execute T 0, Finish 0]"

lemma nested_flushes_view:
  assumes "zstd_ok X" "json_ok X" "xor8_ok X" "engine_inv X (fst (inner A)) (snd (inner A)) ess"
    and "async_run X (A, []) (nested_flushes T op1 op2) (A', fs)"
  shows "\<exists>ess mt l. engine_inv X (fst (inner A')) (snd (inner A')) (ess @ [mt]) \<and> memtable_of A' = [] \<and>
     mt = btree_insert (fst (call_kv X T op1 l)) (snd (call_kv X T op1 l)) (memtable_of A) \<and> is_call op1 \<and> ns_ok (call_ns op1)"
proof -
  obtain s1 s2 s3 s4 s5 s6 s7 where
    st: "async_step X (A, []) (Call T op1) s1" "async_step X s1 Begin s2" "async_step X s2 (Call T op2) s3" "async_step X s3 Begin s4"
      "async_step X s4 (Execute T 1) s5" "async_step X s5 (Finish 1) s6" "async_step X s6 (Execute T 0) s7" "async_step X s7 (Finish 0) (A', fs)" and
    ft: "step_fits X (Call T op1) (A, [])" "step_fits X Begin s1" "step_fits X (Call T op2) s2" "step_fits X Begin s3"
    using assms(5) unfolding nested_flushes_def by (elim async_run_cons async_run_nil) blast
  obtain A1 f1 A2 f2 A3 f3 A4 f4 A5 f5 A6 f6 A7 f7 where
    s: "s1 = (A1, f1)" "s2 = (A2, f2)" "s3 = (A3, f3)" "s4 = (A4, f4)" "s5 = (A5, f5)" "s6 = (A6, f6)" "s7 = (A7, f7)"
    by (metis prod.exhaust)
  note st = st [unfolded s] and ft = ft [unfolded s]
  have "flushing_at X A ess [] []" using assms(4) by (simp add: flushing_def)
  from at_call [OF this st(1) ft(1)] obtain l where 1: "f1 = []" "flushing_at X A1 ess [] []" "is_call op1" "ns_ok (call_ns op1)"
    "memtable_of A1 = btree_insert (fst (call_kv X T op1 l)) (snd (call_kv X T op1 l)) (memtable_of A)" by blast
  from at_begin [OF 1(2) st(2) [unfolded 1(1)] ft(2) [unfolded 1(1)]] obtain w1 where
    2: "f2 = [Copied w1]" "flushing_at X A2 ess [Copied w1] [memtable_of A1]" by auto
  from at_call [OF 2(2) st(3) [unfolded 2(1)] ft(3) [unfolded 2(1)]] have
    3: "f3 = [Copied w1]" "flushing_at X A3 ess [Copied w1] [memtable_of A1]" by blast+
  from at_begin [OF 3(2) st(4) [unfolded 3(1)] ft(4) [unfolded 3(1)]] obtain w2 where
    4: "f4 = [Copied w1, Copied w2]" "flushing_at X A4 ess [Copied w1, Copied w2] [memtable_of A1, memtable_of A3]" "memtable_of A4 = memtable_of A3"
    by auto
  from at_execute [OF assms(1-3) 4(2) st(5) [unfolded 4(1)]] obtain m2 l2 where
    5: "f5 = [Copied w1, Executed m2 l2]" "flushing_at X A5 ess [Copied w1, Executed m2 l2] [memtable_of A1, memtable_of A3]"
      "memtable_of A5 = memtable_of A3" by (auto simp: 4(3))
  from at_finish [OF 5(2) st(6) [unfolded 5(1)]] have
    6: "f6 = [Copied w1]" "flushing_at X A6 (ess @ [memtable_of A3]) [Copied w1] [memtable_of A1]"
      "set (memtable_of A6) \<subseteq> {x \<in> set (memtable_of A3). e_lsn (snd x) > max_lsn (memtable_of A3)}" by (auto simp: 5(3))
  have "{x \<in> set (memtable_of A3). e_lsn (snd x) > max_lsn (memtable_of A3)} = {}" using max_lsn_ge by (force simp: not_less)
  with 6(3) have empty: "memtable_of A6 = []" by simp
  from at_execute [OF assms(1-3) 6(2) st(7) [unfolded 6(1)]] obtain m1 l1 where
    7: "f7 = [Executed m1 l1]" "flushing_at X A7 (ess @ [memtable_of A3]) [Executed m1 l1] [memtable_of A1]" "memtable_of A7 = []"
    by (auto simp: empty)
  from at_finish [OF 7(2) st(8) [unfolded 7(1)]] have
    "flushing_at X A' ((ess @ [memtable_of A3]) @ [memtable_of A1]) fs []" "memtable_of A' = []" by (auto simp: 7(3))
  then show ?thesis using 1(3-5) flushingD(1) by blast
qed

text \<open>
  C28: Overlapping flushes bring back an old value. Task 1 writes and copies the memtable; task 2
  writes and flushes completely; then task 1 writes and registers its segment, behind the newer
  one. The store takes the last registered segment for the newest, so that whatever task 2 wrote,
  the key of the first write shows its value again, although every step succeeded.
\<close>

theorem overlapping_flushes_revive_old_value:
  assumes "engine_ok X (inner A)" "async_run X (A, []) (nested_flushes T (OpPutTtl ns k v1 ttl) (OpPutTtl ns k v2 ttl')) (A', fs)"
  shows "async_get X ns k A' = Inr (Some v1)"
proof -
  obtain ess where laws: "zstd_ok X" "json_ok X" "xor8_ok X" "engine_inv X (fst (inner A)) (snd (inner A)) ess"
    using assms(1) by (auto simp: engine_ok_def)
  from nested_flushes_view [OF this assms(2)] obtain ess mt l where
    v: "engine_inv X (fst (inner A')) (snd (inner A')) (ess @ [mt])" "memtable_of A' = []" "ns_ok ns"
    "mt = btree_insert (enc ns k) (snd (call_kv X T (OpPutTtl ns k v1 ttl) l)) (memtable_of A)" by (auto simp: record_kv_put)
  have "Engine_get X (inner A') ns k = Inr (visible (view [] (ess @ [mt]) (enc ns k)))"
    using engine_get_view [OF laws(1) v(1,3), of k] by (simp add: v(2))
  also have "view [] (ess @ [mt]) (enc ns k) = Some (snd (call_kv X T (OpPutTtl ns k v1 ttl) l))"
    by (simp only: view_simps v(4) fun_upd_same)
  finally show ?thesis by (simp add: async_get_def run_read_def visible_def record_kv_put)
qed

section \<open>The phases of a flush return\<close>

lemma inner_update [simp]: "inner (A\<lparr>ae_inner := (ae_inner A)\<lparr>ve_engine := e\<rparr>\<rparr>) = e"
  by simp

lemma run_write_returns: "f (inner A) = (e, Inr v) \<Longrightarrow> \<exists>A'. run_write f A = (A', Inr v) \<and> inner A' = e"
  by (simp add: run_write_def)

lemma begin_returns:
  assumes "durable X (fst (inner A)) (snd (inner A)) ess" "flushing_at X A ess fs snaps" "fits X (fst (inner A)) (memtable_of A)"
  shows "\<exists>A' work. async_step X (A, fs) Begin (A', fs @ [Copied work]) \<and> durable X (fst (inner A')) (snd (inner A')) ess \<and>
     en_wal (fst (inner A')) = en_wal (fst (inner A)) \<and> en_config (fst (inner A')) = en_config (fst (inner A)) \<and>
     en_lsn_counter (fst (inner A')) = en_lsn_counter (fst (inner A)) \<and>
     ss_next_segment_id (en_segment_store (fst (inner A'))) = ss_next_segment_id (en_segment_store (fst (inner A))) + 1"
proof -
  obtain E d where st: "inner A = (E, d)" by fastforce
  have "en_memtable E \<noteq> []" using assms(3) by (simp add: st fits_def flushable_def)
  then obtain E' work where b: "begin_flush E = (E', Some work)"
    by (auto simp: begin_flush_def prepare_flush_def btree_is_empty_def btree_len_def btree_iter_def Let_def)
  have "flush_begin A = run_write (\<lambda>_. ((E', d), Inr work)) A" by (simp add: flush_begin_def run_write_def st b)
  then obtain A' where A': "flush_begin A = (A', Inr work)" "inner A' = (E', d)" by (auto simp: run_write_def)
  have e: "E' = E\<lparr>en_segment_store := (en_segment_store E)\<lparr>ss_next_segment_id := ss_next_segment_id (en_segment_store E) + 1\<rparr>\<rparr>"
    "flushing X E' d ess (fs @ [Copied work]) (snaps @ [en_memtable E])"
    using begin_step [OF assms(2) [unfolded st fst_conv snd_conv] b] assms(3) unfolding st fst_conv snd_conv by blast+
  have "durable X E' d ess" using assms(1) flushingD(1) [OF e(2)] by (auto simp: durable_def wal_inv_def st e(1))
  then show ?thesis using step_begin [OF A'(1), of X fs] by (intro exI [of _ A'] exI [of _ work]) (simp add: A'(2) st e(1))
qed

lemma execute_returns:
  assumes "zstd_ok X" "json_ok X" "xor8_ok X" "flushing_at X A ess fs snaps" "i < length fs" "fs ! i = Copied work"
  shows "\<exists>A' meta d'. async_step X (A, fs) (Execute T i) (A', fs[i := Executed meta (fw_flushed_max_lsn work)]) \<and>
     SegmentWriter_flush X (fw_segment_id work) (fw_cohort_window_secs work) (ck_flush T) (snaps ! i) (snd (inner A)) = Inr (meta, d')"
proof -
  have "task_ok X (cohort_window_secs (en_config (fst (inner A)))) (snd (inner A)) (Copied work) (snaps ! i)"
    using flushingD(2) [OF assms(4)] assms(5,6) by (metis list_all2_nthD)
  then have w: "fw_entries work = snaps ! i" "flushable X (fw_cohort_window_secs work) (snaps ! i)" by simp_all
  obtain meta d' where m: "SegmentWriter_flush X (fw_segment_id work) (fw_cohort_window_secs work) (ck_flush T) (snaps ! i) (snd (inner A)) = Inr (meta, d')"
    using flush_segment [OF assms(1-3) w(2)] by blast
  obtain A' where "flush_write X T work A = (A', Inr meta)"
    using m w(1) by (cases "inner A") (simp add: flush_write_def run_write_def FlushWork_execute_def spawned_def)
  from step_execute [OF assms(5,6) this] m show ?thesis by blast
qed

lemma finish_returns:
  assumes "flushing_at X A ess fs snaps" "i < length fs" "fs ! i = Executed meta l" "entry_ok X (addition meta)"
  shows "\<exists>A'. async_step X (A, fs) (Finish i) (A', take i fs @ drop (Suc i) fs)"
proof -
  obtain E d where st: "inner A = (E, d)" by fastforce
  note f = flushingD [OF assms(1)]
  have mem: "Executed meta l \<in> set fs" using assms(2,3) by (metis nth_mem)
  have "task_ok X (cohort_window_secs (en_config E)) d (Executed meta l) (snaps ! i)"
    using f(2) assms(2,3) by (metis fst_conv snd_conv st list_all2_nthD)
  then obtain r where r: "SegmentReader_open X (m_segment_id meta) d = Inr r" "segment_inv X d r (snaps ! i)" "sr_segment_id r = m_segment_id meta"
    by auto
  have "store_ok X d (en_segment_store E) ess" using engine_invD(1) [OF f(1)] by (simp add: st)
  from finalize_ok [OF this assms(4) refl r] f(4,5) [OF mem] obtain s' d1 where
    "finalize_segment X meta (en_segment_store E) d = ((s', d1), Inr ())" by (auto simp: st)
  then obtain st' where "finalize_flush X meta l (inner A) = (st', Inr ())" by (simp add: finalize_flush_def st Let_def)
  then obtain A' where "flush_register X meta l A = (A', Inr meta)" by (auto simp: flush_register_def run_write_def spawned_def)
  from step_finish [OF assms(2,3) this] show ?thesis by blast
qed

section \<open>Runs of the sample functions\<close>

definition sample_async :: AsyncEngine where
  "sample_async = \<lparr> ae_inner = \<lparr> ve_engine = new_db, ve_indices = [], ve_files = [] \<rparr> \<rparr>"

definition sample_state :: "AsyncEngine \<Rightarrow> u64 \<Rightarrow> SegmentId \<Rightarrow> flush_task list \<Rightarrow> kv list list \<Rightarrow> bool" where
  "sample_state A n j fs snaps \<longleftrightarrow> durable sample_ext (fst (inner A)) (snd (inner A)) [] \<and> names_ok (fst (inner A)) \<and>
     en_config (fst (inner A)) = EdgestoreConfig_new \<and> en_lsn_counter (fst (inner A)) = n \<and>
     ss_next_segment_id (en_segment_store (fst (inner A))) = j \<and> flushing_at sample_ext A [] fs snaps"

definition sample_kv :: "byte \<Rightarrow> Lsn \<Rightarrow> kv" where
  "sample_kv v l = call_kv sample_ext sample_clock (OpPutTtl [110] [1] [v] 0) l"

abbreviation sample_put :: "byte \<Rightarrow> async_event" where
  "sample_put v \<equiv> Call sample_clock (OpPutTtl [110] [1] [v] 0)"

lemma sample_async_state: "sample_state sample_async 0 0 [] []"
  using new_db_durable [of sample_ext] new_db_names new_db_inv [of sample_ext]
  by (simp add: sample_state_def sample_async_def flushing_def) (simp add: new_db_def new_store_def)

lemma sample_kv_flushable: "flushable sample_ext 3600 [sample_kv v l]" "length (fst (sample_kv v l)) < 1000"
  by (simp_all add: sample_kv_def record_kv_put flushable_def entry_small_def entry_wf_def serialize_entry_def BLOCK_TARGET_BYTES_def
      build_xor_filter_def sample_ext_def sample_clock_def enc_def)

lemma sample_put_step:
  assumes "sample_state A n j fs snaps" "n < 100"
  shows "\<exists>A'. async_step sample_ext (A, fs) (sample_put v) (A', fs) \<and> step_fits sample_ext (sample_put v) (A, fs) \<and>
     sample_state A' (n + 1) j fs snaps \<and> memtable_of A' = btree_insert (fst (sample_kv v (n + 1))) (snd (sample_kv v (n + 1))) (memtable_of A)"
proof -
  obtain E d where st: "inner A = (E, d)" by fastforce
  have s: "durable sample_ext E d []" "names_ok E" "en_config E = EdgestoreConfig_new" "en_lsn_counter E = n"
    "flushing sample_ext E d [] fs snaps" "ss_next_segment_id (en_segment_store E) = j" using assms(1) by (simp_all add: sample_state_def st)
  have n: "unat n < 100" using assms(2) by (simp add: word_less_nat_alt)
  then have "unat (n + 1) = unat n + 1" by (simp add: unat_word_ariths)
  then have "n + 1 \<noteq> 0" by auto
  then obtain E' d' where x: "engine_exec sample_ext sample_clock (OpPutTtl [110] [1] [v] 0) (E, d) = ((E', d'), Inr ())"
    "durable sample_ext E' d' []" "names_ok E'" "en_config E' = EdgestoreConfig_new" "en_lsn_counter E' = n + 1"
    using sample_step [OF s(1-3), of "OpPutTtl [110] [1] [v] 0" "[110]" "[1]" "[v]" 0 sample_clock] s(4) by auto
  obtain A' where A': "run_write (engine_exec sample_ext sample_clock (OpPutTtl [110] [1] [v] 0)) A = (A', Inr ())" "inner A' = (E', d')"
    using x(1) by (auto simp: run_write_def st spawned_def)
  have c: "is_call (OpPutTtl [110] [1] [v] 0)" "no_auto_flush sample_ext sample_clock (OpPutTtl [110] [1] [v] 0) E"
    "ns_ok (call_ns (OpPutTtl [110] [1] [v] 0))" by simp_all
  note cs = call_step [OF s(5) c(1) x(1) c(2,3)]
  have "sample_state A' (n + 1) j fs snaps" using x cs s(6) by (simp add: sample_state_def A'(2))
  moreover have "step_fits sample_ext (sample_put v) (A, fs)" using n s(4) by (simp add: st engine_room_def)
  moreover have "memtable_of A' = btree_insert (fst (sample_kv v (n + 1))) (snd (sample_kv v (n + 1))) (memtable_of A)"
    using cs s(4) by (simp add: A'(2) st sample_kv_def)
  ultimately show ?thesis using step_call [OF c(1) A'(1)] by blast
qed

lemma sample_begin_step:
  assumes "sample_state A n j fs snaps" "memtable_of A = [sample_kv v l]" "j < 100"
  shows "\<exists>A' work. async_step sample_ext (A, fs) Begin (A', fs @ [Copied work]) \<and> step_fits sample_ext Begin (A, fs) \<and>
     sample_state A' n (j + 1) (fs @ [Copied work]) (snaps @ [memtable_of A]) \<and> memtable_of A' = memtable_of A"
proof -
  let ?E = "fst (inner A)" and ?d = "snd (inner A)"
  have s: "durable sample_ext ?E ?d []" "names_ok ?E" "en_config ?E = EdgestoreConfig_new" "en_lsn_counter ?E = n"
    "ss_next_segment_id (en_segment_store ?E) = j" "flushing_at sample_ext A [] fs snaps"
    using assms(1) by (simp_all add: sample_state_def)
  have "unat j < 100" using assms(3) by (simp add: word_less_nat_alt)
  then have "unat (j + 1) = unat j + 1" by (simp add: unat_word_ariths)
  then have "j + 1 \<noteq> 0" by auto
  then have fit: "fits sample_ext ?E (memtable_of A)"
    using s(3,5) sample_kv_flushable(1) by (simp add: fits_def assms(2) EdgestoreConfig_new_def)
  from begin_returns [OF s(1,6) fit] obtain A' work where
    b: "async_step sample_ext (A, fs) Begin (A', fs @ [Copied work])" "durable sample_ext (fst (inner A')) (snd (inner A')) []"
    "en_wal (fst (inner A')) = en_wal ?E" "en_config (fst (inner A')) = en_config ?E" "en_lsn_counter (fst (inner A')) = en_lsn_counter ?E"
    "ss_next_segment_id (en_segment_store (fst (inner A'))) = j + 1" using s(5) by blast
  have step: "step_fits sample_ext Begin (A, fs)" using fit by simp
  from at_begin [OF s(6) b(1) step] have "flushing_at sample_ext A' [] (fs @ [Copied work]) (snaps @ [memtable_of A])"
    "memtable_of A' = memtable_of A" by auto
  then have "sample_state A' n (j + 1) (fs @ [Copied work]) (snaps @ [memtable_of A])"
    using b s by (simp add: sample_state_def names_ok_def)
  with b(1) step \<open>memtable_of A' = memtable_of A\<close> show ?thesis by blast
qed

lemma sample_flush_ends:
  assumes "flushing_at sample_ext A ess fs snaps" "i < length fs" "fs ! i = Copied work" "snaps ! i = [sample_kv v l]"
  shows "\<exists>A1 A2 t. async_step sample_ext (A, fs) (Execute sample_clock i) (A1, fs[i := t]) \<and>
     async_step sample_ext (A1, fs[i := t]) (Finish i) (A2, take i fs @ drop (Suc i) fs) \<and>
     flushing_at sample_ext A2 (ess @ [snaps ! i]) (take i fs @ drop (Suc i) fs) (take i snaps @ drop (Suc i) snaps)"
proof -
  obtain A1 meta d' where 1: "async_step sample_ext (A, fs) (Execute sample_clock i) (A1, fs[i := Executed meta (fw_flushed_max_lsn work)])"
    "SegmentWriter_flush sample_ext (fw_segment_id work) (fw_cohort_window_secs work) (ck_flush sample_clock) (snaps ! i) (snd (inner A)) = Inr (meta, d')"
    using execute_returns [OF sample_laws(2,5,4) assms(1-3)] by blast
  let ?t = "Executed meta (fw_flushed_max_lsn work)"
  have e: "entry_ok sample_ext (addition meta)" by (rule sample_flush_fits [OF 1(2)]) (simp_all add: assms(4) sample_kv_flushable(2))
  from at_execute [OF sample_laws(2,5,4) assms(1) 1(1)] obtain t where t: "fs[i := ?t] = fs[i := t]" "flushing_at sample_ext A1 ess (fs[i := t]) snaps"
    by blast
  have ln: "i < length (fs[i := ?t])" "fs[i := ?t] ! i = ?t" using assms(2) by simp_all
  have f: "flushing_at sample_ext A1 ess (fs[i := ?t]) snaps" unfolding t(1) by (rule t(2))
  from finish_returns [OF f ln e] obtain A2 where
    2: "async_step sample_ext (A1, fs[i := ?t]) (Finish i) (A2, take i fs @ drop (Suc i) fs)" by (auto simp: take_update_cancel)
  from at_finish [OF f 2] 1(1) 2 show ?thesis by blast
qed

lemma sample_fills:
  "\<exists>A1 A2 A3 work. async_step sample_ext (sample_async, []) (sample_put 7) (A1, []) \<and> step_fits sample_ext (sample_put 7) (sample_async, []) \<and>
     async_step sample_ext (A1, []) Begin (A2, [Copied work]) \<and> step_fits sample_ext Begin (A1, []) \<and>
     async_step sample_ext (A2, [Copied work]) (sample_put 8) (A3, [Copied work]) \<and> step_fits sample_ext (sample_put 8) (A2, [Copied work]) \<and>
     sample_state A3 2 1 [Copied work] [[sample_kv 7 1]] \<and> memtable_of A3 = [sample_kv 8 2]"
proof -
  have k: "fst (sample_kv v l) = fst (sample_kv 7 1)" for v l by (simp add: sample_kv_def record_kv_put)
  have "memtable_of sample_async = []" by (simp add: sample_async_def new_db_def)
  then obtain A1 where 1: "async_step sample_ext (sample_async, []) (sample_put 7) (A1, [])" "step_fits sample_ext (sample_put 7) (sample_async, [])"
    "sample_state A1 1 0 [] []" "memtable_of A1 = [sample_kv 7 1]"
    using sample_put_step [OF sample_async_state, of 7] by auto
  from sample_begin_step [OF 1(3,4)] obtain A2 work where 2: "async_step sample_ext (A1, []) Begin (A2, [Copied work])"
    "step_fits sample_ext Begin (A1, [])" "sample_state A2 1 1 [Copied work] [[sample_kv 7 1]]" "memtable_of A2 = [sample_kv 7 1]"
    by (auto simp: 1(4))
  have "btree_insert (fst (sample_kv 8 2)) (snd (sample_kv 8 2)) [sample_kv 7 1] = [sample_kv 8 2]"
    unfolding k [of 8 2] by (cases "sample_kv 7 1", cases "sample_kv 8 2") (use k [of 8 2] in simp)
  moreover obtain A3 where 3: "async_step sample_ext (A2, [Copied work]) (sample_put 8) (A3, [Copied work])"
    "step_fits sample_ext (sample_put 8) (A2, [Copied work])" "sample_state A3 2 1 [Copied work] [[sample_kv 7 1]]"
    "memtable_of A3 = btree_insert (fst (sample_kv 8 2)) (snd (sample_kv 8 2)) [sample_kv 7 1]"
    using sample_put_step [OF 2(3), of 8] by (auto simp: 2(4))
  ultimately show ?thesis using 1(1,2) 2(1,2) by metis
qed

lemma sample_engine_ok: "engine_ok sample_ext (inner sample_async)"
  using new_db_inv [of sample_ext]
  by (auto simp: engine_ok_def sample_async_def versions_ok_def lsn_ordered_def new_db_def intro!: exI [of _ "[] :: kv list list"])

theorem background_flush_invisible_witness:
  "\<exists>A fs. one_flush_run sample_ext (sample_async, []) [sample_put 7, Begin, sample_put 8, Execute sample_clock 0, Finish 0] (A, fs) \<and>
     async_get sample_ext [110] [1] A = Inr (Some [8])"
proof -
  obtain A1 A2 A3 work where p: "async_step sample_ext (sample_async, []) (sample_put 7) (A1, [])" "step_fits sample_ext (sample_put 7) (sample_async, [])"
    "async_step sample_ext (A1, []) Begin (A2, [Copied work])" "step_fits sample_ext Begin (A1, [])"
    "async_step sample_ext (A2, [Copied work]) (sample_put 8) (A3, [Copied work])" "step_fits sample_ext (sample_put 8) (A2, [Copied work])"
    "flushing_at sample_ext A3 [] [Copied work] [[sample_kv 7 1]]"
    using sample_fills by (auto simp: sample_state_def)
  obtain A4 A5 t where e: "async_step sample_ext (A3, [Copied work]) (Execute sample_clock 0) (A4, [t])"
    "async_step sample_ext (A4, [t]) (Finish 0) (A5, [])"
    using sample_flush_ends [OF p(7), of 0 work 7 1] by auto
  have "one_flush_run sample_ext (sample_async, []) [sample_put 7, Begin, sample_put 8, Execute sample_clock 0, Finish 0] (A5, [])"
    by (rule one_cons [OF p(2) _ p(1) one_cons [OF p(4) _ p(3) one_cons [OF p(6) _ p(5) one_cons [OF _ _ e(1) one_cons [OF _ _ e(2) one_nil]]]]])
      simp_all
  from this background_flush_invisible [OF sample_engine_ok this ns_ok_singleton, of 110 "[1]"] show ?thesis
    by (intro exI [of _ A5] exI [of _ "[]"]) simp
qed

theorem overlapping_flushes_revive_old_value_witness:
  "\<exists>A fs. async_run sample_ext (sample_async, []) (nested_flushes sample_clock (OpPutTtl [110] [1] [7] 0) (OpPutTtl [110] [1] [8] 0)) (A, fs) \<and>
     async_get sample_ext [110] [1] A = Inr (Some [7])"
proof -
  obtain A1 A2 A3 work where p: "async_step sample_ext (sample_async, []) (sample_put 7) (A1, [])" "step_fits sample_ext (sample_put 7) (sample_async, [])"
    "async_step sample_ext (A1, []) Begin (A2, [Copied work])" "step_fits sample_ext Begin (A1, [])"
    "async_step sample_ext (A2, [Copied work]) (sample_put 8) (A3, [Copied work])" "step_fits sample_ext (sample_put 8) (A2, [Copied work])"
    "sample_state A3 2 1 [Copied work] [[sample_kv 7 1]]" "memtable_of A3 = [sample_kv 8 2]"
    using sample_fills by auto
  from sample_begin_step [OF p(7,8)] obtain A4 w2 where 4: "async_step sample_ext (A3, [Copied work]) Begin (A4, [Copied work, Copied w2])"
    "step_fits sample_ext Begin (A3, [Copied work])" "flushing_at sample_ext A4 [] [Copied work, Copied w2] [[sample_kv 7 1], [sample_kv 8 2]]"
    by (auto simp: sample_state_def p(8))
  from sample_flush_ends [OF 4(3), of 1 w2 8 2] obtain A5 A6 t where
    5: "async_step sample_ext (A4, [Copied work, Copied w2]) (Execute sample_clock 1) (A5, [Copied work, t])"
    "async_step sample_ext (A5, [Copied work, t]) (Finish 1) (A6, [Copied work])"
    "flushing_at sample_ext A6 [[sample_kv 8 2]] [Copied work] [[sample_kv 7 1]]" by auto
  from sample_flush_ends [OF 5(3), of 0 work 7 1] obtain A7 A8 u where
    6: "async_step sample_ext (A6, [Copied work]) (Execute sample_clock 0) (A7, [u])" "async_step sample_ext (A7, [u]) (Finish 0) (A8, [])" by auto
  have "async_run sample_ext (sample_async, []) (nested_flushes sample_clock (OpPutTtl [110] [1] [7] 0) (OpPutTtl [110] [1] [8] 0)) (A8, [])"
    unfolding nested_flushes_def
    by (rule async_cons [OF p(2,1) async_cons [OF p(4,3) async_cons [OF p(6,5) async_cons [OF 4(2,1)
          async_cons [OF _ 5(1) async_cons [OF _ 5(2) async_cons [OF _ 6(1) async_cons [OF _ 6(2) async_nil]]]]]]]]) simp_all
  from this overlapping_flushes_revive_old_value [OF sample_engine_ok this] show ?thesis by blast
qed

end
