(* ===== verification/TokioTiered.thy ===== *)
theory TokioTiered
  imports Tokio Tier
begin

text \<open>
  The asynchronous tiered engine, \<open>edgestore-tokio/src/tiered.rs\<close>. Writes hold the write lock for the
  whole operation of the tiered engine. The three reads first look under the read lock whether an
  archived segment is needed at all and answer from the local engine when none is; otherwise they
  take the write lock and run the full operation, on the state other tasks left in between. The
  notification of flushes is left out.
\<close>

section \<open>The wrapper\<close>

record 'r AsyncTieredEngine =
  at_inner :: "'r TieredEngine"

definition tiered_read :: "('r TieredEngine \<Rightarrow> 'a res) \<Rightarrow> 'r AsyncTieredEngine \<Rightarrow> 'a res" where
  "tiered_read f A = spawned (f (at_inner A))"

definition tiered_write ::
  "('r TieredEngine \<Rightarrow> 'r TieredEngine \<times> 'a res) \<Rightarrow> 'r AsyncTieredEngine \<Rightarrow> 'r AsyncTieredEngine \<times> 'a res" where
  "tiered_write f A = (case f (at_inner A) of (te, r) \<Rightarrow> (A\<lparr>at_inner := te\<rparr>, spawned r))"

definition AsyncTieredEngine_open_with_options ::
  "ext \<Rightarrow> EdgestoreConfig \<Rightarrow> Clock \<Rightarrow> bool \<Rightarrow> dir \<Rightarrow> 'r \<Rightarrow> bool \<Rightarrow> bool \<Rightarrow> 'r AsyncTieredEngine res" where
  "AsyncTieredEngine_open_with_options X config T busy d remote sidecars text_stripping =
     spawned (and_then (Engine_open X config T busy d) (\<lambda>local.
       Inr \<lparr> at_inner = with_text_stripping text_stripping (with_sidecars sidecars (TieredEngine_new local remote)) \<rparr>))"

definition AsyncTieredEngine_open ::
  "ext \<Rightarrow> EdgestoreConfig \<Rightarrow> Clock \<Rightarrow> bool \<Rightarrow> dir \<Rightarrow> 'r \<Rightarrow> 'r AsyncTieredEngine res" where
  "AsyncTieredEngine_open X config T busy d remote = AsyncTieredEngine_open_with_options X config T busy d remote False False"

section \<open>Reads in two phases\<close>

text \<open>
  The check under the read lock: \<open>Some\<close> answer, or \<open>None\<close> when an archived segment may be needed.
  Then the whole read, whose check sees the state \<open>A\<close> and whose slow path sees the later state \<open>A1\<close>.
\<close>

definition tiered_get_check :: "ext \<Rightarrow> bytes \<Rightarrow> bytes \<Rightarrow> 'r AsyncTieredEngine \<Rightarrow> bytes option option res" where
  "tiered_get_check X ns key A =
     and_then (tiered_read (\<lambda>engine.
         and_then (get_needs_archived_fetch ns key engine) (\<lambda>needs_archive.
         and_then (local_only_get X engine ns key) (\<lambda>local_val. Inr (local_val, needs_archive)))) A)
       (\<lambda>(local_val, needs_archive).
         if local_val \<noteq> None \<or> \<not> needs_archive then Inr (Some local_val) else Inr None)"

definition tiered_range_check :: "ext \<Rightarrow> bytes \<Rightarrow> bytes \<Rightarrow> bytes \<Rightarrow> 'r AsyncTieredEngine \<Rightarrow> KvPairs option res" where
  "tiered_range_check X ns start end =
     tiered_read (\<lambda>engine. and_then (range_needs_archived_fetch ns start end engine) (\<lambda>needs.
       if needs then Inr None else and_then (local_only_range X engine ns start end) (\<lambda>result. Inr (Some result))))"

definition tiered_prefix_check :: "ext \<Rightarrow> bytes \<Rightarrow> bytes \<Rightarrow> 'r AsyncTieredEngine \<Rightarrow> KvPairs option res" where
  "tiered_prefix_check X ns prefix =
     tiered_read (\<lambda>engine. and_then (prefix_needs_archived_fetch ns prefix engine) (\<lambda>needs.
       if needs then Inr None else and_then (local_only_prefix X engine ns prefix) (\<lambda>result. Inr (Some result))))"

fun answer_or :: "'a option res \<Rightarrow> ('s \<Rightarrow> 's \<times> 'a res) \<Rightarrow> 's \<Rightarrow> 's \<times> 'a res" where
  "answer_or (Inl e) slow s = (s, Inl e)"
| "answer_or (Inr (Some v)) slow s = (s, Inr v)"
| "answer_or (Inr None) slow s = slow s"

definition async_tiered_get ::
  "ext \<Rightarrow> Clock \<Rightarrow> (EdgestoreError \<Rightarrow> bool) \<Rightarrow> 'r remote_ops \<Rightarrow> bytes \<Rightarrow> bytes \<Rightarrow>
   'r AsyncTieredEngine \<Rightarrow> 'r AsyncTieredEngine \<Rightarrow> 'r AsyncTieredEngine \<times> bytes option res" where
  "async_tiered_get X T transient R ns key A =
     answer_or (tiered_get_check X ns key A) (tiered_write (tiered_get X T transient R ns key))"

definition async_tiered_range ::
  "ext \<Rightarrow> 'r remote_ops \<Rightarrow> bytes \<Rightarrow> bytes \<Rightarrow> bytes \<Rightarrow>
   'r AsyncTieredEngine \<Rightarrow> 'r AsyncTieredEngine \<Rightarrow> 'r AsyncTieredEngine \<times> KvPairs res" where
  "async_tiered_range X R ns start end A =
     answer_or (tiered_range_check X ns start end A) (tiered_write (tiered_range X R ns start end))"

definition async_tiered_prefix ::
  "ext \<Rightarrow> 'r remote_ops \<Rightarrow> bytes \<Rightarrow> bytes \<Rightarrow>
   'r AsyncTieredEngine \<Rightarrow> 'r AsyncTieredEngine \<Rightarrow> 'r AsyncTieredEngine \<times> KvPairs res" where
  "async_tiered_prefix X R ns prefix A =
     answer_or (tiered_prefix_check X ns prefix A) (tiered_write (tiered_prefix X R ns prefix))"

section \<open>Operations under one lock\<close>

definition async_tiered_put ::
  "ext \<Rightarrow> Clock \<Rightarrow> bytes \<Rightarrow> bytes \<Rightarrow> bytes \<Rightarrow> 'r AsyncTieredEngine \<Rightarrow> 'r AsyncTieredEngine \<times> Lsn res" where
  "async_tiered_put X T ns key val = tiered_write (tiered_put X T ns key val)"

definition async_tiered_put_with_ttl ::
  "ext \<Rightarrow> Clock \<Rightarrow> bytes \<Rightarrow> bytes \<Rightarrow> bytes \<Rightarrow> u32 \<Rightarrow> 'r AsyncTieredEngine \<Rightarrow> 'r AsyncTieredEngine \<times> Lsn res" where
  "async_tiered_put_with_ttl X T ns key val ttl_secs = tiered_write (tiered_put_with_ttl X T ns key val ttl_secs)"

definition async_tiered_delete ::
  "ext \<Rightarrow> Clock \<Rightarrow> bytes \<Rightarrow> bytes \<Rightarrow> 'r AsyncTieredEngine \<Rightarrow> 'r AsyncTieredEngine \<times> Lsn res" where
  "async_tiered_delete X T ns key = tiered_write (tiered_delete X T ns key)"

definition async_tiered_flush :: "'r AsyncTieredEngine \<Rightarrow> 'r AsyncTieredEngine \<times> unit res" where
  "async_tiered_flush = tiered_write (\<lambda>engine. (engine, Inr ()))"

definition async_tiered_compact_once ::
  "ext \<Rightarrow> Clock \<Rightarrow> (SegmentId \<Rightarrow> i64) \<Rightarrow> (i64 list \<Rightarrow> i64 list) \<Rightarrow> 'r AsyncTieredEngine \<Rightarrow>
   'r AsyncTieredEngine \<times> CompactionStats res" where
  "async_tiered_compact_once X T clock hash_order = tiered_write (tiered_compact_once X T clock hash_order)"

definition async_tiered_prune_local_segment ::
  "ext \<Rightarrow> SegmentId \<Rightarrow> 'r AsyncTieredEngine \<Rightarrow> 'r AsyncTieredEngine \<times> unit res" where
  "async_tiered_prune_local_segment X segment_id = tiered_write (tiered_prune_local_segment X segment_id)"

definition async_tiered_flush_to_segments ::
  "ext \<Rightarrow> Clock \<Rightarrow> 'r AsyncTieredEngine \<Rightarrow> 'r AsyncTieredEngine \<times> SegmentMeta res" where
  "async_tiered_flush_to_segments X T = tiered_write (on_local (flush_to_segments X T))"

definition async_list_segment_metas :: "'r AsyncTieredEngine \<Rightarrow> SegmentMeta list" where
  "async_list_segment_metas A =
     unwrap_or [] (tiered_read (\<lambda>engine. Inr (list_segment_metas (en_segment_store (fst (te_local engine))))) A)"

definition async_archive_segments ::
  "ext \<Rightarrow> Clock \<Rightarrow> (EdgestoreError \<Rightarrow> bool) \<Rightarrow> 'r remote_ops \<Rightarrow> SegmentMeta list \<Rightarrow>
   'r AsyncTieredEngine \<Rightarrow> 'r AsyncTieredEngine \<times> unit res" where
  "async_archive_segments X T transient R metas = tiered_write (archive_segments X T transient R metas)"

definition async_archived_segments :: "'r AsyncTieredEngine \<Rightarrow> ArchivedSegment list" where
  "async_archived_segments A = unwrap_or [] (tiered_read (\<lambda>engine. Inr (te_archived engine)) A)"

definition async_fetch_all_archived ::
  "ext \<Rightarrow> Clock \<Rightarrow> (EdgestoreError \<Rightarrow> bool) \<Rightarrow> 'r remote_ops \<Rightarrow> 'r AsyncTieredEngine \<Rightarrow> 'r AsyncTieredEngine \<times> unit res" where
  "async_fetch_all_archived X T transient R = tiered_write (fetch_all_archived X T transient R)"

definition async_fetch_archived_overlapping ::
  "ext \<Rightarrow> Clock \<Rightarrow> (EdgestoreError \<Rightarrow> bool) \<Rightarrow> 'r remote_ops \<Rightarrow> bytes \<Rightarrow> bytes \<Rightarrow> bytes \<Rightarrow>
   'r AsyncTieredEngine \<Rightarrow> 'r AsyncTieredEngine \<times> unit res" where
  "async_fetch_archived_overlapping X T transient R ns start end =
     tiered_write (fetch_archived_overlapping X T transient R ns start end)"

definition async_download_segment ::
  "'r remote_ops \<Rightarrow> bytes \<Rightarrow> 'r AsyncTieredEngine \<Rightarrow> 'r AsyncTieredEngine \<times> bytes res" where
  "async_download_segment R hash = tiered_write (download_segment R hash)"

definition async_register_archived :: "ArchivedSegment list \<Rightarrow> 'r AsyncTieredEngine \<Rightarrow> 'r AsyncTieredEngine" where
  "async_register_archived segments A = fst (tiered_write (\<lambda>engine. (register_archived segments engine, Inr ())) A)"

section \<open>Reads happen at one moment\<close>

lemma unfetched_point: "has_unfetched_archived_point k te \<longleftrightarrow> point_hashes k te \<noteq> []"
  by (auto simp: has_unfetched_archived_point_def point_hashes_def list_ex_iff filter_empty_conv)

lemma unfetched_overlap: "has_unfetched_archived_overlap s e te \<longleftrightarrow> overlap_hashes s e te \<noteq> []"
  by (auto simp: has_unfetched_archived_overlap_def overlap_hashes_def list_ex_iff filter_empty_conv)

text \<open>A read \<open>check\<close> under the read lock agrees with the full operation \<open>f\<close> whenever it answers.\<close>

definition check_agrees ::
  "('r AsyncTieredEngine \<Rightarrow> 'a option res) \<Rightarrow> ('r TieredEngine \<Rightarrow> 'r TieredEngine \<times> 'a res) \<Rightarrow> 'r AsyncTieredEngine \<Rightarrow> bool" where
  "check_agrees check f A \<longleftrightarrow>
     (\<forall>e. check A = Inl e \<longrightarrow> tiered_write f A = (A, Inl e)) \<and> (\<forall>v. check A = Inr (Some v) \<longrightarrow> tiered_write f A = (A, Inr v))"

lemma answer_or_agrees:
  assumes "check_agrees check f A"
  shows "answer_or (check A) (tiered_write f) A1 = (A1, snd (tiered_write f A)) \<and> fst (tiered_write f A) = A \<or>
     answer_or (check A) (tiered_write f) A1 = tiered_write f A1"
  using assms by (cases "(check A, tiered_write f, A1)" rule: answer_or.cases) (auto simp: check_agrees_def)

lemma get_check_agrees: "check_agrees (tiered_get_check X ns key) (tiered_get X T transient R ns key) A"
proof (cases "ns_ok ns")
  case True
  note enc = encode_key_ok [OF True]
  show ?thesis
  proof (cases "Engine_get X (te_local (at_inner A)) ns key")
    case (Inl e)
    then show ?thesis
      by (auto simp: check_agrees_def tiered_get_check_def tiered_read_def tiered_write_def tiered_get_def
          get_needs_archived_fetch_def local_only_get_def enc spawned_def split: EdgestoreError.splits)
  next
    case (Inr v)
    then show ?thesis
      by (cases v) (auto simp: check_agrees_def tiered_get_check_def tiered_read_def tiered_write_def tiered_get_def
          get_needs_archived_fetch_def local_only_get_def enc unfetched_point spawned_def split: if_splits)
  qed
next
  case False
  then have "encode_key ns k = Inl (Panic ''namespace too long'')" for k by (simp add: encode_key_def ns_ok_def)
  moreover from this have "Engine_get X (te_local (at_inner A)) ns key = Inl (Panic ''namespace too long'')"
    by (cases "te_local (at_inner A)") (simp add: Engine_get_def)
  ultimately show ?thesis
    by (simp add: check_agrees_def tiered_get_check_def tiered_read_def tiered_write_def tiered_get_def get_needs_archived_fetch_def spawned_def)
qed

lemma scan_check_agrees:
  assumes "\<And>te. check te = and_then (needs te) (\<lambda>n. if n then Inr None else and_then (loc te) (\<lambda>l. Inr (Some l)))"
    and "\<And>te. f te = (case loc te of Inl e \<Rightarrow> (te, Inl e)
       | Inr l \<Rightarrow> (case archived te of (te', Inl e) \<Rightarrow> (te', Inl e) | (te', Inr a) \<Rightarrow> (te', Inr (merge_local_wins l a))))"
    and "\<And>te e. needs te = Inl e \<Longrightarrow> loc te = Inl e" "\<And>te. needs te = Inr False \<Longrightarrow> archived te = (te, Inr [])"
  shows "check_agrees (tiered_read check) f A"
proof -
  let ?te = "at_inner A"
  consider e where "needs ?te = Inl e" | "needs ?te = Inr True" | "needs ?te = Inr False"
    by (cases "needs ?te") auto
  then show ?thesis
  proof cases
    case (1 e)
    with assms(3) show ?thesis by (simp add: check_agrees_def tiered_read_def tiered_write_def assms(1,2) spawned_def split: EdgestoreError.splits)
  next
    case 2
    then show ?thesis by (simp add: check_agrees_def tiered_read_def assms(1) spawned_def)
  next
    case 3
    with assms(4) show ?thesis
      by (cases "loc ?te") (auto simp: check_agrees_def tiered_read_def tiered_write_def assms(1,2) merge_local_wins_def
          spawned_def split: EdgestoreError.splits)
  qed
qed

lemma too_long: "\<not> ns_ok ns \<Longrightarrow> encode_key ns k = Inl (Panic ''namespace too long'')"
  by (simp add: encode_key_def ns_ok_def)

lemma range_check_agrees:
  fixes R :: "'r remote_ops"
  shows "check_agrees (tiered_range_check X ns start end) (tiered_range X R ns start end) A"
  unfolding tiered_range_check_def
proof (rule scan_check_agrees)
  fix te :: "'r TieredEngine" and e assume "range_needs_archived_fetch ns start end te = Inl e"
  then have "\<not> ns_ok ns" "e = Panic ''namespace too long''"
    by (cases "ns_ok ns"; auto simp: range_needs_archived_fetch_def encode_key_ok too_long)+
  then show "local_only_range X te ns start end = Inl e"
    by (cases "te_local te") (simp add: local_only_range_def Engine_range_def range_core_def too_long)
next
  fix te :: "'r TieredEngine" assume n: "range_needs_archived_fetch ns start end te = Inr False"
  then have "ns_ok ns" using too_long by (fastforce simp: range_needs_archived_fetch_def)
  with n show "range_archived X R ns start end te = (te, Inr [])"
    by (simp add: range_needs_archived_fetch_def range_archived_def encode_key_ok unfetched_overlap ephemeral_engine_for_range_def)
qed (rule refl, simp add: tiered_range_def local_only_range_def)

lemma prefix_check_agrees:
  fixes R :: "'r remote_ops"
  shows "check_agrees (tiered_prefix_check X ns prefix) (tiered_prefix X R ns prefix) A"
  unfolding tiered_prefix_check_def
proof (rule scan_check_agrees)
  fix te :: "'r TieredEngine" and e assume "prefix_needs_archived_fetch ns prefix te = Inl e"
  then have "\<not> ns_ok ns" "e = Panic ''namespace too long''"
    by (cases "ns_ok ns"; auto simp: prefix_needs_archived_fetch_def encode_key_ok too_long)+
  then show "local_only_prefix X te ns prefix = Inl e"
    by (cases "te_local te") (simp add: local_only_prefix_def Engine_prefix_def prefix_core_def too_long)
next
  fix te :: "'r TieredEngine" assume n: "prefix_needs_archived_fetch ns prefix te = Inr False"
  then have "ns_ok ns" using too_long by (fastforce simp: prefix_needs_archived_fetch_def)
  with n show "prefix_archived X R ns prefix te = (te, Inr [])"
    by (simp add: prefix_needs_archived_fetch_def prefix_archived_def encode_key_ok unfetched_overlap ephemeral_engine_for_range_def)
qed (rule refl, simp add: tiered_prefix_def local_only_prefix_def)

text \<open>
  C14: The fast paths of the asynchronous tiered engine are exact. Whatever other tasks do between
  the check under the read lock and the slow path under the write lock, a lookup, range scan or
  prefix scan behaves as the full operation of the tiered engine at one moment: either at the
  check, where the full operation would have changed nothing and its answer is returned, or at the
  slow path.
\<close>

theorem tiered_reads_are_atomic:
  "(async_tiered_get X T transient R ns key A A1 = (A1, snd (tiered_write (tiered_get X T transient R ns key) A)) \<and>
      fst (tiered_write (tiered_get X T transient R ns key) A) = A \<or>
    async_tiered_get X T transient R ns key A A1 = tiered_write (tiered_get X T transient R ns key) A1) \<and>
   (async_tiered_range X R ns start end A A1 = (A1, snd (tiered_write (tiered_range X R ns start end) A)) \<and>
      fst (tiered_write (tiered_range X R ns start end) A) = A \<or>
    async_tiered_range X R ns start end A A1 = tiered_write (tiered_range X R ns start end) A1) \<and>
   (async_tiered_prefix X R ns prefix A A1 = (A1, snd (tiered_write (tiered_prefix X R ns prefix) A)) \<and>
      fst (tiered_write (tiered_prefix X R ns prefix) A) = A \<or>
    async_tiered_prefix X R ns prefix A A1 = tiered_write (tiered_prefix X R ns prefix) A1)"
  unfolding async_tiered_get_def async_tiered_range_def async_tiered_prefix_def
  by (intro conjI answer_or_agrees get_check_agrees range_check_agrees prefix_check_agrees)

end
