(* ===== verification/Spec2Isabelle.thy ===== *)
theory Spec2Isabelle
  imports Recovery Manifest SegmentScan Transaction EngineDurability EngineScan AntiEntropy TierFacts TokioFacts TokioTiered
begin

text \<open>
  \<^bold>\<open>Verification development for edgestore\<close>, an embedded log-structured key-value store in Rust.

  \<^bold>\<open>The program.\<close> A write goes to the write-ahead log and to the memtable. When the memtable is
  full it is written as an immutable sorted segment (a \<open>.dat\<close> file with a sparse index, an xor
  filter and a metadata file), the segment is entered in the manifest, and the log files it
  makes superfluous are deleted. A read asks the memtable, then the segments from the newest to
  the oldest; a scan merges them. The compactor rewrites or drops whole cohorts of segments;
  snapshots pin the segments they read. Nodes exchange whole segments by hash: a replica pulls
  what its peer has and merges it by the timestamps of the records. A tiered engine archives
  segments in a remote store, prunes the local copies and reads through to the archive.

  \<^bold>\<open>How the state corresponds.\<close> Bytes are 8-bit words and byte strings are lists in
  lexicographic order, the order of Rust slices. Fixed-width integers are words of their width,
  signed ones are read with \<open>sint\<close>; \<open>usize\<close> is a natural number. A database directory is a list
  of file names with their contents (\<open>dir\<close>), passed through every operation that touches files,
  so that the state after a crash is a value of the model. An operation of the engine takes the
  pair of the engine record and the directory and returns the pair with a result of type
  \<open>EdgestoreError + 'a\<close>; panics are the error \<open>Panic\<close>. The crates outside the repository (\<open>lz4\<close>,
  \<open>zstd\<close>, \<open>crc32c\<close>, \<open>blake3\<close>, \<open>xorf\<close>, \<open>serde_json\<close>) are the fields of the record \<open>ext\<close> of
  \<open>External\<close>, an argument \<open>X\<close> of the definitions. What is assumed of them are the predicates
  \<open>zstd_ok\<close>, \<open>lz4_ok\<close>, \<open>json_ok\<close> (decoding inverts encoding), \<open>blake3_ok\<close> (32 bytes) and \<open>xor8_ok\<close>
  (no false negatives); \<open>Sample\<close> has one choice on which all of them hold, for the witnesses.
  The clock is an argument \<open>T\<close>, the iteration order of a hash map is a function argument.

  \<^bold>\<open>Theories and sources\<close> (paths under \<open>src/\<close>, the crate \<open>edgestore\<close> unless another is named).

    \<^item> \<open>Prelude\<close>, \<open>Types\<close>, \<open>External\<close>, \<open>Sample\<close>: words, codecs and files; \<open>types.rs\<close>, \<open>error.rs\<close>,
      \<open>config.rs\<close>. The key encoding is injective, invertible and keeps the order.
    \<^item> \<open>Memtable\<close>: \<open>memtable.rs\<close>. The trait is the locale \<open>memtable\<close>; both tables meet it.
      The engine is written over the list that \<open>iter\<close> shows (\<open>BTreeMemTable\<close>); the default table,
      \<open>BBTreeConcurrentMemTable\<close>, simulates it operation by operation (\<open>bbc_simulates_btree\<close>).
    \<^item> \<open>Transaction\<close>: \<open>transaction.rs\<close>, a state machine over the pending records.
    \<^item> \<open>Framing\<close>, \<open>Wal\<close>, \<open>Recovery\<close>, \<open>Manifest\<close>: \<open>wal.rs\<close>, \<open>recovery.rs\<close>, \<open>manifest.rs\<close>. The two
      logs share their frames. Records round-trip; a log that is cut at any byte gives its
      complete records; the manifest file refines the list of live segments. Errors: a torn
      manifest entry swallows the next one, an oversized record hides what follows.
    \<^item> \<open>SegmentFile\<close>, \<open>SegmentFacts\<close>, \<open>SegmentScan\<close>, \<open>SegmentStore\<close>: \<open>segment.rs\<close>. A written segment
      is read back entry by entry; the streaming merges return the newest live version of every
      key, in both directions (one proof, in the locale \<open>scan_order\<close>, interpreted for the two
      heap orders); a lookup returns the version with the highest LSN.
    \<^item> \<open>ReaderMerge\<close>, \<open>Snapshot\<close>, \<open>InMemory\<close>, \<open>Immutable\<close>: \<open>snapshot.rs\<close>, \<open>segment/in_memory.rs\<close>,
      \<open>immutable.rs\<close>. The locale \<open>segment_readers\<close> has the contract of a reader; it is
      interpreted for readers over files (\<open>disk\<close>) and over bytes (\<open>mem\<close>). An immutable engine
      over shipped segments answers as a snapshot over their files.
    \<^item> \<open>Compactor\<close>: \<open>compactor.rs\<close>. A cohort is replaced by its newest live versions; no cycle
      changes what a snapshot reads. Error: a deleted key can come back.
    \<^item> \<open>Engine\<close>, \<open>EngineFacts\<close>, \<open>EngineDurability\<close>, \<open>EngineScan\<close>: \<open>engine/mod.rs\<close>. Every sequence of
      operations refines a map (\<open>EngineFacts\<close>); operations succeed within the limits of the
      formats and an engine opened again from the files answers every lookup as before
      (\<open>EngineDurability\<close>); range and prefix scans agree with lookups, pages enumerate a range,
      and the order of versions on which this rests is kept (\<open>EngineScan\<close>). Error: a page can
      pass over a key while the memtable has deletions.
    \<^item> \<open>Merkle\<close>, \<open>Replication\<close>, \<open>ReplicationFacts\<close>, \<open>AntiEntropy\<close>: \<open>merkle.rs\<close>, \<open>replication.rs\<close>,
      \<open>engine/replication.rs\<close>, and \<open>anti_entropy.rs\<close> and \<open>replicated_engine.rs\<close> of \<open>edgestore-repl\<close>.
      An import is last-writer-wins; the probe decides whether the segments are the same; a
      cycle accounts for every segment of the peer; promotion raises the write token. Error: an
      import makes an older version visible.
    \<^item> \<open>Hex\<close>, \<open>RemoteStore\<close>: \<open>remote_store.rs\<close>, and \<open>filesystem_remote_store.rs\<close> and \<open>hash_to_hex\<close>
      of \<open>edgestore-repl\<close>. The trait is a record of operations with the laws of the locales
      \<open>remote_store\<close> and \<open>reliable_remote\<close>, interpreted for the store in a directory (\<open>fsr\<close>).
    \<^item> \<open>Tier\<close>, \<open>TierFacts\<close>: \<open>edgestore-tier/src/lib.rs\<close>. Scans overlay local data on the archive,
      the segment cache stays within its limit, an archived value stays readable after the
      local copy was pruned. Errors: a deleted key comes back in a scan, a torn upload is taken
      for the archived segment.
    \<^item> \<open>Unicode\<close>, \<open>TextTypes\<close>, \<open>Typo\<close>, \<open>Bloom\<close>, \<open>Tokenizer\<close>, \<open>Float32\<close>: the crate
      \<open>edgestore-text\<close>, files \<open>types.rs\<close>, \<open>facet.rs\<close>, \<open>engine.rs\<close>, \<open>typo.rs\<close>, \<open>bloom.rs\<close> and
      \<open>tokenizer.rs\<close> under \<open>text\<close>, and \<open>total_cmp_f32\<close> of \<open>vector/distance.rs\<close>. Strings are lists of
      code points with their UTF-8 encoding. Records round-trip, the two-row table computes the
      edit distance, the filter has no false negatives, tokens are the words of the text.
    \<^item> \<open>InvertedIndex\<close>, \<open>IndexFacts\<close>: \<open>text/index.rs\<close>. \<open>index_holds\<close> says which documents an index
      stands for; adding and removing keep it, so the assertions of the code cannot fail. The
      sidecar round-trips.
    \<^item> \<open>TextIndex\<close>, \<open>SearchFacts\<close>, \<open>TextFacts\<close>, \<open>TextEngine\<close>: \<open>lib.rs\<close> of \<open>edgestore-text\<close>. What the
      crate needs of the store is the locale \<open>kv_store\<close>, interpreted for the engine (\<open>eng\<close>).
      Searches depend on the documents only, so a rebuilt index answers as the cached one.
      Error: documents without tokens distort the totals. The Unicode tables, the stemmer, the
      stop words, the operations on \<open>f32\<close>, the sizing and hashing of the filter and the order of
      the terms are the record \<open>text_env\<close>, an argument \<open>V\<close>; only the law \<open>f32_ok\<close> (comparison
      follows an order, NaN is not comparable) is assumed; \<open>sample_env\<close> meets it.
    \<^item> \<open>VectorTypes\<close>, \<open>BinHeap\<close>: \<open>vector/types.rs\<close>, \<open>vector/api.rs\<close>, \<open>vector/distance.rs\<close>, and the
      \<open>BinaryHeap\<close> of the standard library. The operations on \<open>f32\<close> and \<open>f64\<close> and the horizontal
      sum of eight lanes are the record \<open>vec_ops\<close>, an argument \<open>N\<close> (\<open>sample_vec\<close> for examples); the
      decoding of vectors, the three metrics and the loop over lanes and tail are written out.
    \<^item> \<open>Hnsw\<close>, \<open>HnswSidecar\<close>, \<open>HnswFacts\<close>, \<open>HnswInsert\<close>: \<open>vector/hnsw.rs\<close>, the graph index. Insertion
      keeps \<open>hnsw_inv\<close> (edges stay in the graph and on their layer, at most \<open>m\<close> of them); the beam
      search ends at a local optimum, and a search is exact when the beam is as wide as a connected
      graph; the sidecar round-trips.
    \<^item> \<open>VectorSearch\<close>, \<open>VectorFacts\<close>, \<open>VectorIndex\<close>: \<open>vector/search.rs\<close> and \<open>engine/vector.rs\<close>. The
      cached indices and the directory \<open>vector\<close> stand beside the engine in \<open>VectorState\<close>. The flat
      scan returns the nearest vectors; a build indexes exactly the stored vectors, and an index
      reloaded from its sidecar answers as the cached one. Errors: a search does not see vectors
      put since the last flush, and namespaces with the same file name share an index.
    \<^item> \<open>Tokio\<close>, \<open>TokioFlush\<close>, \<open>TokioFacts\<close>: \<open>edgestore-tokio/src/lib.rs\<close>. A method is one step under
      its lock; the three phases of a flush are steps of their own, and \<open>async_step\<close> interleaves
      them with the writes of other tasks. One flush at a time cannot be seen by any lookup.
      Error: of two overlapping flushes the older one is registered last and revives its values.
    \<^item> \<open>TokioTiered\<close>: \<open>edgestore-tokio/src/tiered.rs\<close>. A read checks under the read lock and may go on
      under the write lock, with other tasks in between; it still happens at one moment.

  \<^bold>\<open>Invariants.\<close> \<open>segment_inv\<close> ties a reader to the entries its file holds, \<open>store_ok\<close> the manifest,
  the readers and the files to a list of such runs, \<open>engine_inv\<close> adds the memtable, \<open>durable\<close> the log
  files. \<open>lsn_ordered\<close> says that later runs hold later versions. \<open>cache_inv\<close> and \<open>archived_as\<close> do the
  same for the cache and the archive of a tiered engine. \<open>text_inv\<close> ties the cached indices to the
  text records of the store, \<open>fresh_index\<close> a cached graph to its sidecar and to the segments.
  \<open>flushing\<close> adds the flushes in progress with the entries they will register, \<open>background\<close> that there
  is at most one and that it is a copy of what the memtable still holds or has overwritten.

  \<^bold>\<open>Loops.\<close> The definitions are total: block and frame readers recurse on the bytes that remain,
  merges on the entries that remain. The only fuel is in \<open>collect_pages\<close>, which follows page
  cursors; the theorem about it shows that as many pages as there are live keys, and one more,
  are enough. The beam search of the graph ends because every round takes a candidate and only
  unvisited nodes become candidates. Where heaps and hash maps leave an order open it is a function
  argument (\<open>Q\<close>, \<open>L\<close>) of which only \<open>order_ok\<close> is assumed, that it permutes. Retries are bounded by \<open>MAX_RETRIES\<close> as in the code.

  \<^bold>\<open>Not modelled.\<close> The task scheduler (the methods of the async facade are atomic steps, only the
  phases of flushes and tiered reads interleave), \<open>fsync\<close> (a file holds what was written to it), metrics, callbacks,
  device hints (\<open>storage_backend.rs\<close>, \<open>fdp_backend.rs\<close>), the text of error messages beyond the
  fixed part, the values of floating-point operations, the HTTP and S3 transports
  and the command line. Of \<open>EdgestoreConfig\<close> the path (the directory is an argument), the unused
  \<open>xor_filter_fpr\<close> and the memtable factory are left out. The model is that of release builds: words
  wrap, and debug assertions (a namespace that is written and a key that is looked up in a segment
  are not empty, among others) are no branches; \<open>op_ready\<close> and the statements on segment lookups keep
  to what they ask. Counters that would overflow \<open>usize\<close> are natural numbers, but the random layer of
  a graph node saturates as the cast does, and insertion panics on it as the code does. The sort of
  the neighbours panics on NaN distances of more than 20 elements, where that of the standard
  library may.

  \<^bold>\<open>Conditions that recur.\<close> \<open>flushable\<close>: the entries of a flushed memtable leave every block below the
  2 MiB that the reader accepts (the writer does not check it: \<open>oversized_entry_is_unreadable\<close>);
  \<open>op_fits\<close> asks it of every flush in a run, \<open>op_ready\<close> also for what makes the operation succeed.
  \<open>lsn_ordered\<close>: scans take the highest LSN and lookups the latest run, so they agree when later runs
  hold later versions, which every operation keeps but a reopening after a rotation and a flush may
  lose. \<open>doc_fits\<close> and \<open>text_fits\<close>: documents have a token and stay within the 16-bit length fields.
\<close>

end
